(* ===== verification/Prelude.thy ===== *)
theory Prelude
  imports Main "HOL-Library.Word" "HOL-Library.Multiset"
begin

unbundle bit_operations_syntax

text \<open>
  Shared vocabulary of the development: the machine types of the C sources, the
  faults a C expression can raise, the fault monad every fallible operation of the
  model returns in, byte memory with little-endian access (the emulator runs on
  x86-64), and the lemmas on words and lists the components share.
\<close>

section \<open>Machine types\<close>

type_synonym u8 = "8 word"
type_synonym u16 = "16 word"
type_synonym u32 = "32 word"
type_synonym u64 = "64 word"

section \<open>Faults and the fault monad\<close>

text \<open>
  Where the C code dereferences \<open>NULL\<close>, reads or writes outside an object, fails an
  \<open>assert\<close> or divides by zero, the model returns the corresponding fault on the left
  of a sum; a normal result is on the right. Where the program ends itself with \<open>exit\<close>, the
  result is \<open>Exited\<close>.
\<close>

datatype fault =
  Null_Deref | Out_Of_Bounds | Assert_Failed | Div_By_Zero | Uninitialised | Signed_Overflow | Bad_Free | Exited

type_synonym 'a res = "fault + 'a"

fun rbind :: "'a res \<Rightarrow> ('a \<Rightarrow> 'b res) \<Rightarrow> 'b res" where
  "rbind (Inl e) f = Inl e"
| "rbind (Inr x) f = f x"

definition guard_res :: "fault \<Rightarrow> bool \<Rightarrow> 'a res \<Rightarrow> 'a res" where
  "guard_res e b r = (if b then r else Inl e)"

named_theorems res_simps \<open>inversion of results in the fault monad\<close>

lemma rbind_eq_Inr [res_simps]:
  "rbind r f = Inr y \<longleftrightarrow> (\<exists>x. r = Inr x \<and> f x = Inr y)"
  by (cases r) auto

lemma rbind_eq_Inl [res_simps]:
  "rbind r f = Inl e \<longleftrightarrow> r = Inl e \<or> (\<exists>x. r = Inr x \<and> f x = Inl e)"
  by (cases r) auto

lemma rbind_assoc: "rbind (rbind r f) g = rbind r (\<lambda>x. rbind (f x) g)"
  by (cases r) auto

lemma guard_res_True [simp]: "guard_res e True r = r"
  by (simp add: guard_res_def)

lemma guard_res_False [simp]: "guard_res e False r = Inl e"
  by (simp add: guard_res_def)

lemma guard_res_eq_Inr [res_simps]: "guard_res e b r = Inr y \<longleftrightarrow> b \<and> r = Inr y"
  by (simp add: guard_res_def)

lemma guard_res_eq_Inl [res_simps]:
  "guard_res e b r = Inl f \<longleftrightarrow> (\<not> b \<and> f = e) \<or> (b \<and> r = Inl f)"
  by (auto simp: guard_res_def)

section \<open>Reading and writing arrays\<close>

definition arr_get :: "'a list \<Rightarrow> nat \<Rightarrow> 'a res" where
  "arr_get xs i = (if i < length xs then Inr (xs ! i) else Inl Out_Of_Bounds)"

definition arr_set :: "'a list \<Rightarrow> nat \<Rightarrow> 'a \<Rightarrow> 'a list res" where
  "arr_set xs i v = (if i < length xs then Inr (xs[i := v]) else Inl Out_Of_Bounds)"

lemma arr_get_Inr [simp]: "i < length xs \<Longrightarrow> arr_get xs i = Inr (xs ! i)"
  by (simp add: arr_get_def)

lemma arr_set_Inr [simp]: "i < length xs \<Longrightarrow> arr_set xs i v = Inr (xs[i := v])"
  by (simp add: arr_set_def)

lemma arr_get_eq_Inr [res_simps]: "arr_get xs i = Inr v \<longleftrightarrow> i < length xs \<and> v = xs ! i"
  by (auto simp: arr_get_def)

lemma arr_set_eq_Inr [res_simps]: "arr_set xs i v = Inr ys \<longleftrightarrow> i < length xs \<and> ys = xs[i := v]"
  by (auto simp: arr_set_def)

definition idx_get :: "'a list \<Rightarrow> int \<Rightarrow> 'a res" where
  "idx_get xs i = guard_res Out_Of_Bounds (0 \<le> i) (arr_get xs (nat i))"

lemma idx_get_in [simp]: "i < length xs \<Longrightarrow> idx_get xs (int i) = Inr (xs ! i)"
  by (simp add: idx_get_def)

section \<open>Runs\<close>

text \<open>
  A step may fault, and a loop inside it may not end (\<open>None\<close>). \<open>rthen\<close> composes such steps.
\<close>

type_synonym 'a run = "'a res option"

fun rthen :: "'a run \<Rightarrow> ('a \<Rightarrow> 'b run) \<Rightarrow> 'b run" where
  "rthen None f = None"
| "rthen (Some (Inl e)) f = Some (Inl e)"
| "rthen (Some (Inr x)) f = f x"

lemma rthen_Inr_iff: "rthen r f = Some (Inr y) \<longleftrightarrow> (\<exists>x. r = Some (Inr x) \<and> f x = Some (Inr y))"
  by (cases "(r, f)" rule: rthen.cases) auto

section \<open>Words\<close>

text \<open>The index \<open>pos & mask\<close> of a power-of-two ring is the position modulo its size.\<close>

lemma unat_and_mask:
  fixes p :: "'a::len word"
  assumes "k < LENGTH('a)"
  shows "unat (p AND (2 ^ k - 1)) = unat p mod 2 ^ k"
proof -
  have "p AND (2 ^ k - 1) = take_bit k p"
    by (simp add: take_bit_eq_mask mask_eq_exp_minus_1)
  then show ?thesis
    by (simp only: unsigned_take_bit_eq) (use assms in \<open>simp add: take_bit_eq_mod\<close>)
qed

lemma unat_pow2_64: "k \<le> 63 \<Longrightarrow> unat (2 ^ k :: u64) = 2 ^ k"
proof -
  assume "k \<le> 63"
  then have "(2::nat) ^ k \<le> 2 ^ 63" by (intro power_increasing) auto
  then have "unat (of_nat (2 ^ k) :: u64) = 2 ^ k" by (simp only: unat_of_nat) simp
  then show ?thesis by simp
qed

lemma unat_add_mod_pow2:
  fixes a b :: "'a::len word"
  assumes "k \<le> LENGTH('a)"
  shows "unat (a + b) mod 2 ^ k = (unat a + unat b) mod 2 ^ k"
  using assms by (simp add: unat_word_ariths mod_mod_cancel le_imp_power_dvd)

lemma unat_of_nat_mod_pow2:
  assumes "k \<le> LENGTH('a::len)"
  shows "unat (of_nat n :: 'a word) mod 2 ^ k = n mod 2 ^ k"
  using assms by (simp add: unat_of_nat mod_mod_cancel le_imp_power_dvd)

lemma unat_add_of_nat_mod_pow2:
  fixes p :: "'a::len word"
  assumes "k \<le> LENGTH('a)"
  shows "unat (p + of_nat i) mod 2 ^ k = (unat p + i) mod 2 ^ k"
proof -
  have "unat (p + of_nat i) mod 2 ^ k = (unat p + unat (of_nat i :: 'a word)) mod 2 ^ k"
    using assms by (rule unat_add_mod_pow2)
  also have "\<dots> = (unat p + unat (of_nat i :: 'a word) mod 2 ^ k) mod 2 ^ k"
    by (rule mod_add_right_eq[symmetric])
  also have "\<dots> = (unat p + i mod 2 ^ k) mod 2 ^ k"
    by (simp only: unat_of_nat_mod_pow2[OF assms])
  also have "\<dots> = (unat p + i) mod 2 ^ k" by (rule mod_add_right_eq)
  finally show ?thesis .
qed

lemma unat_add_below:
  fixes p :: "'a::len word"
  assumes "unat p + n < 2 ^ LENGTH('a)"
  shows "unat (p + of_nat n) = unat p + n"
  using assms by (simp add: unat_word_ariths unat_of_nat mod_add_right_eq)

lemma unat_below: "unat (w :: 'a::len word) < 2 ^ LENGTH('a)"
  by (rule unsigned_less)

lemma unat_ucast_up [simp]:
  "LENGTH('a::len) \<le> LENGTH('b::len) \<Longrightarrow> unat (ucast (w :: 'a word) :: 'b word) = unat w"
  by (simp add: unsigned_ucast_eq)
    (rule take_bit_nat_eq_self, rule less_le_trans[OF unat_below], rule power_increasing, auto)

lemma unat_drop_bit_div: "unat (drop_bit n w) = unat w div 2 ^ n"
  by (simp only: unat_drop_bit_eq) (simp add: drop_bit_eq_div)

lemma unat_add_small_sum:
  "unat x + unat y < 2 ^ LENGTH('a) \<Longrightarrow> unat (x + y) = unat x + unat (y :: 'a::len word)"
  by (rule unat_add_lem[THEN iffD1])

lemma unat_of_nat_below:
  assumes "n < 2 ^ LENGTH('a::len)"
  shows "unat (of_nat n :: 'a word) = n"
  using assms by (simp add: unat_of_nat)

lemma unat_Suc_below63:
  fixes p :: u64
  assumes "unat p = n" "Suc n < 2 ^ 63"
  shows "unat (p + 1) = Suc n"
proof -
  have "(2::nat) ^ 63 \<le> 2 ^ LENGTH(64)" by simp
  then have "Suc n < 2 ^ LENGTH(64)" using assms(2) by (rule less_le_trans[rotated])
  then show ?thesis using assms(1) unat_add_below[of p 1] by simp
qed

text \<open>Residues of a translated range are distinct.\<close>

lemma mod_shift_inj:
  assumes "(a + i) mod n = (a + j) mod n" "i < n" "j < (n::nat)"
  shows "i = j"
proof -
  have le: "x = y" if "(a + x) mod n = (a + y) mod n" "x < n" "y \<le> x" for x y
  proof -
    have "n dvd (a + x) - (a + y)" 
      using that(1,3) by (metis mod_eq_dvd_iff_nat nat_add_left_cancel_le)
    then have "n dvd x - y" by simp
    moreover have "x - y < n" using that by simp
    ultimately have "x - y = 0" using nat_dvd_not_less[of "x - y" n] by auto
    with that show ?thesis by simp
  qed
  from le[of i j] le[of j i] assms show ?thesis by (cases "j \<le> i") auto
qed

section \<open>Byte memory\<close>

text \<open>
  A byte object is a list of bytes; an access outside it is a fault. Multi-byte
  accesses are little endian.
\<close>

definition word16_of_bytes :: "u8 \<Rightarrow> u8 \<Rightarrow> u16" where
  "word16_of_bytes lo hi = ucast lo OR push_bit 8 (ucast hi)"

definition byte_of :: "nat \<Rightarrow> 'a::len word \<Rightarrow> u8" where
  "byte_of i w = ucast (drop_bit (8 * i) w)"

definition word32_of_bytes :: "u8 \<Rightarrow> u8 \<Rightarrow> u8 \<Rightarrow> u8 \<Rightarrow> u32" where
  "word32_of_bytes b0 b1 b2 b3 =
     ucast b0 OR push_bit 8 (ucast b1) OR push_bit 16 (ucast b2) OR push_bit 24 (ucast b3)"

lemma bit_u8_ge [simp]: "8 \<le> n \<Longrightarrow> \<not> bit (b :: u8) n"
  by (auto dest: bit_imp_le_length)

lemma bit_u8_less: "bit (b :: u8) n \<Longrightarrow> n < 8"
  using bit_imp_le_length[of b n] by simp

lemma byte_of_zero [simp]: "byte_of i (0 :: 'a::len word) = 0"
  by (simp add: byte_of_def)

lemma byte_of_word16_of_bytes [simp]:
  "byte_of 0 (word16_of_bytes lo hi) = lo"
  "byte_of (Suc 0) (word16_of_bytes lo hi) = hi"
  by (auto intro!: bit_word_eqI simp: byte_of_def word16_of_bytes_def bit_simps)

lemma word16_of_bytes_byte_of [simp]:
  "word16_of_bytes (byte_of 0 w) (byte_of (Suc 0) w) = w"
  by (auto intro!: bit_word_eqI simp: byte_of_def word16_of_bytes_def bit_simps)

lemma byte_of_word32_of_bytes [simp]:
  "byte_of 0 (word32_of_bytes b0 b1 b2 b3) = b0"
  "byte_of (Suc 0) (word32_of_bytes b0 b1 b2 b3) = b1"
  "byte_of 2 (word32_of_bytes b0 b1 b2 b3) = b2"
  "byte_of 3 (word32_of_bytes b0 b1 b2 b3) = b3"
  by (auto intro!: bit_word_eqI simp: byte_of_def word32_of_bytes_def bit_simps)

lemma word32_of_bytes_byte_of [simp]:
  "word32_of_bytes (byte_of 0 w) (byte_of (Suc 0) w) (byte_of 2 w) (byte_of 3 w) = w"
proof (rule bit_word_eqI)
  fix n assume "n < LENGTH(32)"
  then consider "n < 8" | "8 \<le> n" "n < 16" | "16 \<le> n" "n < 24" | "24 \<le> n" "n < 32"
    by force
  then show "bit (word32_of_bytes (byte_of 0 w) (byte_of (Suc 0) w) (byte_of 2 w) (byte_of 3 w)) n
      = bit w n"
    by cases (auto simp: byte_of_def word32_of_bytes_def bit_simps)
qed

text \<open>Host and network byte order on a little-endian machine.\<close>

definition htons :: "u16 \<Rightarrow> u16" where
  "htons w = word16_of_bytes (byte_of 1 w) (byte_of 0 w)"

lemma htons_htons [simp]: "htons (htons w) = w"
  by (simp add: htons_def)

lemma byte_of_htons [simp]:
  "byte_of 0 (htons w) = byte_of (Suc 0) w" "byte_of (Suc 0) (htons w) = byte_of 0 w"
  by (simp_all add: htons_def)

lemma htons_eq_iff [simp]: "htons a = htons b \<longleftrightarrow> a = b"
  by (metis htons_htons)

definition ntohl :: "u32 \<Rightarrow> u32" where
  "ntohl w = word32_of_bytes (byte_of 3 w) (byte_of 2 w) (byte_of 1 w) (byte_of 0 w)"

text \<open>Loads and stores of a byte object; only bytes inside it may be touched.\<close>

definition load8 :: "u8 list \<Rightarrow> nat \<Rightarrow> u8 res" where
  "load8 m a = arr_get m a"

definition load16 :: "u8 list \<Rightarrow> nat \<Rightarrow> u16 res" where
  "load16 m a = rbind (load8 m a) (\<lambda>b0. rbind (load8 m (a + 1)) (\<lambda>b1. Inr (word16_of_bytes b0 b1)))"

definition load32 :: "u8 list \<Rightarrow> nat \<Rightarrow> u32 res" where
  "load32 m a = rbind (load8 m a) (\<lambda>b0. rbind (load8 m (a + 1)) (\<lambda>b1.
     rbind (load8 m (a + 2)) (\<lambda>b2. rbind (load8 m (a + 3)) (\<lambda>b3. Inr (word32_of_bytes b0 b1 b2 b3)))))"

definition store8 :: "u8 list \<Rightarrow> nat \<Rightarrow> u8 \<Rightarrow> u8 list res" where
  "store8 m a b = arr_set m a b"

definition store16 :: "u8 list \<Rightarrow> nat \<Rightarrow> u16 \<Rightarrow> u8 list res" where
  "store16 m a w = rbind (store8 m a (byte_of 0 w)) (\<lambda>m. store8 m (a + 1) (byte_of 1 w))"

definition store32 :: "u8 list \<Rightarrow> nat \<Rightarrow> u32 \<Rightarrow> u8 list res" where
  "store32 m a w = rbind (store16 m a (word16_of_bytes (byte_of 0 w) (byte_of 1 w)))
     (\<lambda>m. store16 m (a + 2) (word16_of_bytes (byte_of 2 w) (byte_of 3 w)))"

lemma load8_in [simp]: "a < length m \<Longrightarrow> load8 m a = Inr (m ! a)"
  by (simp add: load8_def)

lemma load16_in [simp]: "a + 1 < length m \<Longrightarrow> load16 m a = Inr (word16_of_bytes (m ! a) (m ! Suc a))"
  by (simp add: load16_def)

lemma load32_in [simp]: "a + 3 < length m \<Longrightarrow>
    load32 m a = Inr (word32_of_bytes (m ! a) (m ! Suc a) (m ! (a + 2)) (m ! (a + 3)))"
  by (simp add: load32_def)

lemma store8_in [simp]: "a < length m \<Longrightarrow> store8 m a b = Inr (m[a := b])"
  by (simp add: store8_def)

lemma store16_in [simp]: "a + 1 < length m \<Longrightarrow>
    store16 m a w = Inr (m[a := byte_of 0 w, Suc a := byte_of 1 w])"
  by (simp add: store16_def)

lemma store32_in [simp]: "a + 3 < length m \<Longrightarrow>
    store32 m a w = Inr (m[a := byte_of 0 w, Suc a := byte_of 1 w, a + 2 := byte_of 2 w, a + 3 := byte_of 3 w])"
  by (simp add: store32_def numeral_3_eq_3)

end
