(* ===== verification/Route_Matrix.thy ===== *)
theory Route_Matrix
  imports Prelude
begin

text \<open>
  The routing table of the emulator, \<open>opera-v2/data_structures.h\<close>: a matrix of
  \<open>rows\<close> by \<open>cols\<close> elements stored column by column in one heap block and addressed
  with indices that start at 1. The header has the same five operations twice, for
  routes (\<open>int\<close>) and for MAC addresses. A matrix pointer is an option (\<open>NULL\<close> is
  \<open>None\<close>), so is the \<open>data\<close> pointer; an element that was never written is \<open>None\<close>
  and reading it is a fault, since \<open>malloc\<close> does not initialise the block.
\<close>

section \<open>State\<close>

record 'a matrix =
  mrows :: int
  mcols :: int
  mdata :: "'a option list option"

type_synonym route_matrix = "int matrix"

record mac_addr =
  mac_bytes :: "u8 list" \<comment> \<open>\<open>bytes[ETH_ALEN+1]\<close>\<close>

type_synonym mac_matrix = "mac_addr matrix"

text \<open>The macro \<open>ELEM(mtx, row, col)\<close>: column-major, one-based.\<close>

definition elem_index :: "'a matrix \<Rightarrow> int \<Rightarrow> int \<Rightarrow> nat" where
  "elem_index m row col = nat ((col - 1) * mrows m + (row - 1))"

definition outside_dims :: "'a matrix \<Rightarrow> int \<Rightarrow> int \<Rightarrow> bool" where
  "outside_dims m row col \<longleftrightarrow> row \<le> 0 \<or> row > mrows m \<or> col \<le> 0 \<or> col > mcols m"

section \<open>Operations\<close>

definition mtx_set :: "'a matrix option \<Rightarrow> int \<Rightarrow> int \<Rightarrow> 'a \<Rightarrow> (int \<times> 'a matrix option) res" where
  "mtx_set mtx row col val =
     (case mtx of None \<Rightarrow> Inr (-1, None)
      | Some m \<Rightarrow> (case mdata m of None \<Rightarrow> Inl Assert_Failed
          | Some d \<Rightarrow>
              if outside_dims m row col then Inr (-2, Some m)
              else rbind (arr_set d (elem_index m row col) (Some val))
                     (\<lambda>d'. Inr (0, Some (m\<lparr>mdata := Some d'\<rparr>)))))"

text \<open>
  The out-parameter \<open>val\<close> is represented by the second component of the result: \<open>None\<close>
  when the call leaves it alone. \<open>has_val\<close> says whether the caller passed a pointer.
\<close>

definition mtx_get :: "'a matrix option \<Rightarrow> int \<Rightarrow> int \<Rightarrow> bool \<Rightarrow> (int \<times> 'a option) res" where
  "mtx_get mtx row col has_val =
     (case mtx of None \<Rightarrow> Inr (-1, None)
      | Some m \<Rightarrow>
          if \<not> has_val then Inr (-1, None)
          else (case mdata m of None \<Rightarrow> Inl Assert_Failed
          | Some d \<Rightarrow>
              if outside_dims m row col then Inr (-2, None)
              else rbind (arr_get d (elem_index m row col))
                     (\<lambda>e. case e of None \<Rightarrow> Inl Uninitialised | Some v \<Rightarrow> Inr (0, Some v))))"

text \<open>
  Creation calls \<open>malloc\<close> twice. The first result is used without a check, so a failed
  allocation of the structure is a fault; the second is only stored. The size
  \<open>rows*cols\<close> is computed in \<open>int\<close>.
\<close>

definition mtx_new :: "bool \<Rightarrow> bool \<Rightarrow> int \<Rightarrow> int \<Rightarrow> 'a matrix option res" where
  "mtx_new struct_ok data_ok rows cols =
     (if rows \<le> 0 \<or> cols \<le> 0 then Inr None
      else if \<not> struct_ok then Inl Null_Deref
      else if rows * cols > 2 ^ 31 - 1 then Inl Signed_Overflow
      else Inr (Some \<lparr>mrows = rows, mcols = cols,
             mdata = (if data_ok then Some (replicate (nat (rows * cols)) None) else None)\<rparr>))"

definition mtx_delete :: "'a matrix option \<Rightarrow> int res" where
  "mtx_delete mtx =
     (case mtx of None \<Rightarrow> Inr (-1)
      | Some m \<Rightarrow> (case mdata m of None \<Rightarrow> Inl Assert_Failed | Some d \<Rightarrow> Inr 0))"

definition setRouteElement ::
    "route_matrix option \<Rightarrow> int \<Rightarrow> int \<Rightarrow> int \<Rightarrow> (int \<times> route_matrix option) res" where
  "setRouteElement = mtx_set"

definition getRouteElement :: "route_matrix option \<Rightarrow> int \<Rightarrow> int \<Rightarrow> bool \<Rightarrow> (int \<times> int option) res" where
  "getRouteElement = mtx_get"

definition newRouteMatrix :: "bool \<Rightarrow> bool \<Rightarrow> int \<Rightarrow> int \<Rightarrow> route_matrix option res" where
  "newRouteMatrix = mtx_new"

definition deleteRouteMatrix :: "route_matrix option \<Rightarrow> int res" where
  "deleteRouteMatrix = mtx_delete"

definition setMacElement ::
    "mac_matrix option \<Rightarrow> int \<Rightarrow> int \<Rightarrow> mac_addr \<Rightarrow> (int \<times> mac_matrix option) res" where
  "setMacElement = mtx_set"

definition getMacElement ::
    "mac_matrix option \<Rightarrow> int \<Rightarrow> int \<Rightarrow> bool \<Rightarrow> (int \<times> mac_addr option) res" where
  "getMacElement = mtx_get"

definition newMacMatrix :: "bool \<Rightarrow> bool \<Rightarrow> int \<Rightarrow> int \<Rightarrow> mac_matrix option res" where
  "newMacMatrix = mtx_new"

definition deleteMacMatrix :: "mac_matrix option \<Rightarrow> int res" where
  "deleteMacMatrix = mtx_delete"

lemmas matrix_ops_def =
  setRouteElement_def getRouteElement_def newRouteMatrix_def deleteRouteMatrix_def
  setMacElement_def getMacElement_def newMacMatrix_def deleteMacMatrix_def

section \<open>Well-formed matrices\<close>

definition matrix_wf :: "'a matrix \<Rightarrow> bool" where
  "matrix_wf m \<longleftrightarrow> mrows m > 0 \<and> mcols m > 0 \<and>
     (\<exists>d. mdata m = Some d \<and> length d = nat (mrows m * mcols m))"

text \<open>The element at a position inside the dimensions, \<open>None\<close> while it is unwritten.\<close>

definition cell :: "'a matrix \<Rightarrow> int \<Rightarrow> int \<Rightarrow> 'a option" where
  "cell m row col = the (mdata m) ! elem_index m row col"

lemma elem_index_less:
  assumes "matrix_wf m" "\<not> outside_dims m row col"
  shows "elem_index m row col < nat (mrows m * mcols m)"
proof -
  from assms have r: "0 < row" "row \<le> mrows m" and c: "0 < col" "col \<le> mcols m"
    by (auto simp: outside_dims_def)
  from c r have "(col - 1) * mrows m \<le> (mcols m - 1) * mrows m"
    by (intro mult_right_mono) auto
  with r have "(col - 1) * mrows m + (row - 1) < (mcols m - 1) * mrows m + mrows m"
    by linarith
  then have "(col - 1) * mrows m + (row - 1) < mcols m * mrows m"
    by (simp add: left_diff_distrib)
  moreover from r c have "0 \<le> (col - 1) * mrows m + (row - 1)" by simp
  ultimately show ?thesis by (simp add: elem_index_def mult.commute)
qed

text \<open>Two positions inside the dimensions share a storage cell only if they are equal.\<close>

lemma elem_index_inj:
  assumes "\<not> outside_dims m r c" "\<not> outside_dims m r' c'"
    and "elem_index m r c = elem_index m r' c'"
  shows "r = r' \<and> c = c'"
proof -
  let ?n = "mrows m"
  from assms(1,2) have b: "0 \<le> r - 1" "r - 1 < ?n" "0 \<le> r' - 1" "r' - 1 < ?n" "0 \<le> c - 1" "0 \<le> c' - 1"
    by (auto simp: outside_dims_def)
  with assms(3) have e: "(c - 1) * ?n + (r - 1) = (c' - 1) * ?n + (r' - 1)"
    by (simp add: elem_index_def nat_eq_iff2)
  have "((c - 1) * ?n + (r - 1)) mod ?n = r - 1" "((c' - 1) * ?n + (r' - 1)) mod ?n = r' - 1"
    using b by simp_all
  then have "r - 1 = r' - 1" using e by metis
  then have "r = r'" by simp
  with e b show ?thesis by simp
qed

lemma mtx_set_ok:
  assumes "matrix_wf m" "\<not> outside_dims m row col"
  shows "mtx_set (Some m) row col v =
    Inr (0, Some (m\<lparr>mdata := Some ((the (mdata m))[elem_index m row col := Some v])\<rparr>))"
  using assms elem_index_less[OF assms] by (auto simp: mtx_set_def matrix_wf_def)

lemma mtx_set_outside:
  "matrix_wf m \<Longrightarrow> outside_dims m row col \<Longrightarrow> mtx_set (Some m) row col v = Inr (-2, Some m)"
  by (auto simp: mtx_set_def matrix_wf_def)

lemma mtx_set_total:
  assumes "matrix_wf m"
  obtains rc m' where "mtx_set (Some m) row col v = Inr (rc, Some m')" "matrix_wf m'"
    "mrows m' = mrows m" "mcols m' = mcols m"
proof (cases "outside_dims m row col")
  case True
  with assms show ?thesis by (intro that) (auto simp: mtx_set_outside)
next
  case False
  let ?m' = "m\<lparr>mdata := Some ((the (mdata m))[elem_index m row col := Some v])\<rparr>"
  have "matrix_wf ?m'"
    using assms by (auto simp: matrix_wf_def)
  with assms False show ?thesis
    by (intro that[of 0 ?m']) (simp_all add: mtx_set_ok)
qed

lemma mtx_get_ok:
  assumes "matrix_wf m" "\<not> outside_dims m row col"
  shows "mtx_get (Some m) row col True =
    (case cell m row col of None \<Rightarrow> Inl Uninitialised | Some v \<Rightarrow> Inr (0, Some v))"
  using assms elem_index_less[OF assms] by (auto simp: mtx_get_def matrix_wf_def cell_def)

lemma cell_set_same:
  assumes "matrix_wf m" "\<not> outside_dims m r c"
  shows "cell (m\<lparr>mdata := Some ((the (mdata m))[elem_index m r c := Some v])\<rparr>) r c = Some v"
  using assms elem_index_less[OF assms] by (auto simp: cell_def elem_index_def matrix_wf_def)

lemma cell_set_other:
  assumes "matrix_wf m" "\<not> outside_dims m r c" "\<not> outside_dims m r' c'" "(r, c) \<noteq> (r', c')"
  shows "cell (m\<lparr>mdata := Some ((the (mdata m))[elem_index m r c := Some v])\<rparr>) r' c' = cell m r' c'"
proof -
  have "elem_index m r c \<noteq> elem_index m r' c'"
    using elem_index_inj[OF assms(2,3)] assms(4) by auto
  then show ?thesis by (simp add: cell_def elem_index_def)
qed

section \<open>The interface: a grid of cells\<close>

text \<open>
  What the route loader and the forwarding path use of the table: a store whose cells
  are written one at a time and read back. The client's lemma, proved once, says what a
  whole sequence of writes leaves in a cell.
\<close>

locale grid =
  fixes put :: "'g \<Rightarrow> int \<Rightarrow> int \<Rightarrow> 'a \<Rightarrow> 'g"
    and get :: "'g \<Rightarrow> int \<Rightarrow> int \<Rightarrow> 'a option"
    and inside :: "int \<Rightarrow> int \<Rightarrow> bool"
    and inv :: "'g \<Rightarrow> bool"
  assumes inv_put: "inv g \<Longrightarrow> inv (put g r c v)"
    and get_put_same: "inv g \<Longrightarrow> inside r c \<Longrightarrow> get (put g r c v) r c = Some v"
    and get_put_other: "inv g \<Longrightarrow> inside r' c' \<Longrightarrow> (r, c) \<noteq> (r', c') \<Longrightarrow>
          get (put g r c v) r' c' = get g r' c'"
begin

fun put_all :: "'g \<Rightarrow> (int \<times> int \<times> 'a) list \<Rightarrow> 'g" where
  "put_all g [] = g"
| "put_all g ((r, c, v) # ws) = put_all (put g r c v) ws"

lemma inv_put_all: "inv g \<Longrightarrow> inv (put_all g ws)"
  by (induction g ws rule: put_all.induct) (auto simp: inv_put)

lemma put_all_append: "put_all g (ws @ ws') = put_all (put_all g ws) ws'"
  by (induction g ws rule: put_all.induct) auto

lemma get_put_all_untouched:
  "inv g \<Longrightarrow> inside r c \<Longrightarrow> (\<And>v. (r, c, v) \<notin> set ws) \<Longrightarrow> get (put_all g ws) r c = get g r c"
proof (induction g ws rule: put_all.induct)
  case (2 g r' c' v ws)
  then have "(r', c') \<noteq> (r, c)" by auto
  with 2 show ?case by (auto simp: inv_put get_put_other)
qed simp

text \<open>The last write to a cell is the one that is read.\<close>

lemma get_put_all_last:
  assumes "inv g" "inside r c" "\<And>v'. (r, c, v') \<notin> set ws'"
  shows "get (put_all g (ws @ (r, c, v) # ws')) r c = Some v"
  using assms by (simp add: put_all_append get_put_all_untouched inv_put inv_put_all get_put_same)

end

text \<open>The program's table: \<open>setRouteElement\<close> with its return code ignored, as the loader calls it.\<close>

definition route_put :: "route_matrix \<Rightarrow> int \<Rightarrow> int \<Rightarrow> int \<Rightarrow> route_matrix" where
  "route_put m row col v =
     (case setRouteElement (Some m) row col v of Inr (_, Some m') \<Rightarrow> m' | _ \<Rightarrow> m)"

definition route_inv :: "int \<Rightarrow> int \<Rightarrow> route_matrix \<Rightarrow> bool" where
  "route_inv nr nc m \<longleftrightarrow> matrix_wf m \<and> mrows m = nr \<and> mcols m = nc"

lemma route_put_inv: "route_inv nr nc m \<Longrightarrow> route_inv nr nc (route_put m r c v)"
  unfolding route_inv_def route_put_def setRouteElement_def
  by (rule mtx_set_total[of m r c v]) auto

interpretation route: grid route_put cell "\<lambda>r c. 0 < r \<and> r \<le> 32 \<and> 0 < c \<and> c \<le> 32" "route_inv 32 32"
proof unfold_locales
  fix m :: route_matrix and r c v :: int
  show "route_inv 32 32 m \<Longrightarrow> route_inv 32 32 (route_put m r c v)" by (rule route_put_inv)
next
  fix m :: route_matrix and r c v :: int
  assume "route_inv 32 32 m" "0 < r \<and> r \<le> 32 \<and> 0 < c \<and> c \<le> 32"
  then have "matrix_wf m" "\<not> outside_dims m r c"
    by (auto simp: route_inv_def outside_dims_def)
  then show "cell (route_put m r c v) r c = Some v"
    by (simp add: route_put_def setRouteElement_def mtx_set_ok cell_set_same)
next
  fix m :: route_matrix and r' c' r c v :: int
  assume a: "route_inv 32 32 m" "0 < r' \<and> r' \<le> 32 \<and> 0 < c' \<and> c' \<le> 32" "(r, c) \<noteq> (r', c')"
  then have wf: "matrix_wf m" and i': "\<not> outside_dims m r' c'"
    by (auto simp: route_inv_def outside_dims_def)
  show "cell (route_put m r c v) r' c' = cell m r' c'"
  proof (cases "outside_dims m r c")
    case True
    with wf show ?thesis by (simp add: route_put_def setRouteElement_def mtx_set_outside)
  next
    case False
    with wf i' a(3) show ?thesis
      by (simp add: route_put_def setRouteElement_def mtx_set_ok cell_set_other)
  qed
qed

section \<open>Properties\<close>

lemma matrix_wf_update:
  "matrix_wf m \<Longrightarrow> matrix_wf (m\<lparr>mdata := Some ((the (mdata m))[i := e])\<rparr>)"
  by (auto simp: matrix_wf_def)

lemma outside_dims_mdata [simp]: "outside_dims (m\<lparr>mdata := d\<rparr>) r c = outside_dims m r c"
  by (simp add: outside_dims_def)

text \<open>Property C28: a route element written inside the dimensions is written with code 0 and read
  back, and no other element of the table changes.\<close>
theorem route_set_get:
  assumes wf: "matrix_wf m" and inside: "\<not> outside_dims m r c"
  shows "\<exists>m'. setRouteElement (Some m) r c v = Inr (0, Some m') \<and> matrix_wf m' \<and>
    getRouteElement (Some m') r c True = Inr (0, Some v) \<and>
    (\<forall>r' c'. (r', c') \<noteq> (r, c) \<longrightarrow>
       getRouteElement (Some m') r' c' True = getRouteElement (Some m) r' c' True)"
proof -
  let ?m' = "m\<lparr>mdata := Some ((the (mdata m))[elem_index m r c := Some v])\<rparr>"
  have wf': "matrix_wf ?m'" using wf by (rule matrix_wf_update)
  have get: "mtx_get (Some ?m') r c True = Inr (0, Some v)"
    using wf' inside wf by (simp add: mtx_get_ok cell_set_same)
  have frame: "mtx_get (Some ?m') r' c' True = mtx_get (Some m) r' c' True"
    if "(r', c') \<noteq> (r, c)" for r' c'
  proof (cases "outside_dims m r' c'")
    case True
    with wf wf' show ?thesis by (auto simp: mtx_get_def matrix_wf_def)
  next
    case False
    have "cell ?m' r' c' = cell m r' c'"
      using that by (intro cell_set_other[OF wf inside False]) auto
    with False wf wf' show ?thesis by (simp add: mtx_get_ok)
  qed
  show ?thesis
    using mtx_set_ok[OF wf inside, of v] wf' get frame by (auto simp: matrix_ops_def)
qed

theorem route_set_get_witness:
  "\<exists>m'. setRouteElement (Some \<lparr>mrows = 2, mcols = 2, mdata = Some [None, Some 5, None, None]\<rparr>) 1 2 7
      = Inr (0, Some m') \<and> getRouteElement (Some m') 1 2 True = Inr (0, Some 7) \<and>
      getRouteElement (Some m') 2 1 True = Inr (0, Some 5)"
proof -
  let ?m = "\<lparr>mrows = 2, mcols = 2, mdata = Some [None, Some 5, None, None]\<rparr> :: route_matrix"
  have "matrix_wf ?m" "\<not> outside_dims ?m 1 2"
    by (simp_all add: matrix_wf_def outside_dims_def)
  from route_set_get[OF this, of 7] obtain m' where
    a: "setRouteElement (Some ?m) 1 2 7 = Inr (0, Some m')" "getRouteElement (Some m') 1 2 True = Inr (0, Some 7)"
    and b: "\<And>r' c'. (r', c') \<noteq> (1, 2) \<Longrightarrow>
       getRouteElement (Some m') r' c' True = getRouteElement (Some ?m) r' c' True"
    by blast
  have "getRouteElement (Some ?m) 2 1 True = Inr (0, Some 5)"
    by (simp add: getRouteElement_def mtx_get_def outside_dims_def elem_index_def)
  with a b[of 2 1] show ?thesis by auto
qed

text \<open>Outside the dimensions both accessors return -2, on a \<open>NULL\<close> table both return
  -1, and in neither case is anything written.\<close>
theorem route_access_errors:
  assumes "matrix_wf m"
  shows "(\<forall>r c v. outside_dims m r c \<longrightarrow>
      setRouteElement (Some m) r c v = Inr (-2, Some m) \<and>
      getRouteElement (Some m) r c True = Inr (-2, None)) \<and>
    (\<forall>r c v b. setRouteElement None r c v = Inr (-1, None) \<and>
      getRouteElement None r c b = Inr (-1, None) \<and>
      getRouteElement (Some m) r c False = Inr (-1, None))"
  using assms by (auto simp: matrix_ops_def mtx_set_def mtx_get_def matrix_wf_def)

theorem route_access_errors_witness:
  "setRouteElement (Some \<lparr>mrows = 1, mcols = 1, mdata = Some [None]\<rparr>) 1 2 7
     = Inr (-2, Some \<lparr>mrows = 1, mcols = 1, mdata = Some [None]\<rparr>)"
proof -
  have "matrix_wf (\<lparr>mrows = 1, mcols = 1, mdata = Some [None]\<rparr> :: route_matrix)"
    by (simp add: matrix_wf_def)
  from route_access_errors[OF this] show ?thesis by (simp add: outside_dims_def)
qed

text \<open>A new table has the requested dimensions, but none of its elements is
  initialised: every read before a write is a read of indeterminate memory (the comment over
  \<open>newRouteMatrix\<close> promises zeros, and the loop that wrote them is commented out).\<close>
theorem new_route_matrix_uninitialised:
  assumes "0 < nr" "0 < nc" "nr * nc \<le> 2 ^ 31 - 1"
  shows "\<exists>m. newRouteMatrix True True nr nc = Inr (Some m) \<and> matrix_wf m \<and>
    mrows m = nr \<and> mcols m = nc \<and>
    (\<forall>r c. \<not> outside_dims m r c \<longrightarrow> getRouteElement (Some m) r c True = Inl Uninitialised)"
proof -
  let ?m = "\<lparr>mrows = nr, mcols = nc, mdata = Some (replicate (nat (nr * nc)) None)\<rparr> :: route_matrix"
  have wf: "matrix_wf ?m" using assms by (simp add: matrix_wf_def)
  moreover have "cell ?m r c = None" if "\<not> outside_dims ?m r c" for r c
    using elem_index_less[OF wf that] by (simp add: cell_def elem_index_def)
  ultimately show ?thesis
    using assms by (auto simp: matrix_ops_def mtx_new_def mtx_get_ok)
qed

theorem new_route_matrix_uninitialised_witness:
  "\<exists>m. newRouteMatrix True True 32 32 = Inr (Some m) \<and>
     getRouteElement (Some m) 1 1 True = Inl Uninitialised"
  using new_route_matrix_uninitialised[of 32 32] by (auto simp: outside_dims_def)

end
