(* ===== verification/Mg_Map.thy ===== *)
theory Mg_Map
  imports Prelude
begin

text \<open>
  The integer-keyed tables of the emulator, \<open>opera-v2/map.c\<close> and \<open>map.h\<close>: a heap
  block of \<open>count\<close> nodes of \<open>node_size\<close> bytes each, a node being a 32-bit key followed
  by the bytes of the value. Key 0 marks a free node. The model keeps the block as a
  byte list and does the address arithmetic of the code in 64-bit words; every access
  outside the block is a fault. A pointer into the block is the byte offset.
\<close>

section \<open>State\<close>

record mg_Map =
  mcount :: u64
  node_size :: u64
  mdat :: "u8 list option"

text \<open>
  The allocator is a parameter: which sizes it grants, and what fresh memory holds.
\<close>

record heap_env =
  grants :: "u64 \<Rightarrow> bool"
  junk :: "nat \<Rightarrow> u8"

definition c_malloc :: "heap_env \<Rightarrow> u64 \<Rightarrow> u8 list option" where
  "c_malloc h n = (if grants h n then Some (map (junk h) [0..<unat n]) else None)"

definition c_realloc :: "heap_env \<Rightarrow> u8 list \<Rightarrow> u64 \<Rightarrow> u8 list option" where
  "c_realloc h d n =
     (if grants h n then Some (take (unat n) d @ map (junk h) [length d..<unat n]) else None)"

section \<open>Byte access\<close>

text \<open>\<open>*(uint32_t *)(data + off)\<close>, \<open>memset\<close> and \<open>memcpy\<close> on a block.\<close>

definition node_load :: "u8 list \<Rightarrow> u64 \<Rightarrow> u32 res" where
  "node_load d off = guard_res Out_Of_Bounds (unat off + 4 \<le> length d)
     (Inr (word32_of_bytes (d ! unat off) (d ! (unat off + 1)) (d ! (unat off + 2)) (d ! (unat off + 3))))"

definition store_bytes :: "u8 list \<Rightarrow> u64 \<Rightarrow> u8 list \<Rightarrow> u8 list res" where
  "store_bytes d off bs = guard_res Out_Of_Bounds (unat off + length bs \<le> length d)
     (Inr (take (unat off) d @ bs @ drop (unat off + length bs) d))"

definition bytes_of32 :: "u32 \<Rightarrow> u8 list" where
  "bytes_of32 w = [byte_of 0 w, byte_of 1 w, byte_of 2 w, byte_of 3 w]"

definition node_store :: "u8 list \<Rightarrow> u64 \<Rightarrow> u32 \<Rightarrow> u8 list res" where
  "node_store d off w = store_bytes d off (bytes_of32 w)"

definition memset0 :: "u8 list \<Rightarrow> u64 \<Rightarrow> u64 \<Rightarrow> u8 list res" where
  "memset0 d off n = store_bytes d off (replicate (unat n) 0)"

text \<open>\<open>memcpy(place, object, n)\<close> reads \<open>n\<close> bytes of the caller's object.\<close>

definition memcpy_in :: "u8 list \<Rightarrow> u64 \<Rightarrow> u8 list \<Rightarrow> u64 \<Rightarrow> u8 list res" where
  "memcpy_in d off obj n = guard_res Out_Of_Bounds (unat n \<le> length obj)
     (store_bytes d off (take (unat n) obj))"

section \<open>Operations\<close>

definition mg_map_init :: "heap_env \<Rightarrow> mg_Map option \<Rightarrow> u64 \<Rightarrow> u64 \<Rightarrow> (int \<times> mg_Map option) res" where
  "mg_map_init h mp value_size initial_count =
     (case mp of None \<Rightarrow> Inr (-1, None)
      | Some m \<Rightarrow>
          if value_size = 0 then Inr (-10, Some m)
          else if initial_count = 0 then Inr (-11, Some m)
          else if mdat m \<noteq> None then Inr (-20, Some m)
          else
            let ns = value_size + 4; total = ns * initial_count in
            (case c_malloc h total of None \<Rightarrow> Inl Null_Deref
             | Some d \<Rightarrow> rbind (memset0 d 0 total)
                 (\<lambda>d'. Inr (0, Some \<lparr>mcount = initial_count, node_size = ns, mdat = Some d'\<rparr>))))"

text \<open>
  Cleaning up frees the block but leaves the pointer in place: the flag of the result
  records that the block is gone, so that a second call frees it again.
\<close>

definition mg_map_cleanup :: "bool \<Rightarrow> mg_Map option \<Rightarrow> (int \<times> bool \<times> mg_Map option) res" where
  "mg_map_cleanup freed mp =
     (case mp of None \<Rightarrow> Inr (-1, freed, None)
      | Some m \<Rightarrow> (case mdat m of None \<Rightarrow> Inr (-2, freed, Some m)
          | Some d \<Rightarrow>
              if freed then Inl Bad_Free
              else Inr (0, True, Some (m\<lparr>node_size := 0, mcount := 0\<rparr>))))"

text \<open>The scan of \<open>mg_map_get\<close>: node \<open>i\<close>, with \<open>n\<close> nodes left.\<close>

fun mg_get_loop :: "u8 list \<Rightarrow> u64 \<Rightarrow> u32 \<Rightarrow> u64 \<Rightarrow> nat \<Rightarrow> u64 option res" where
  "mg_get_loop d ns key i 0 = Inr None"
| "mg_get_loop d ns key i (Suc n) =
     rbind (node_load d (i * ns))
       (\<lambda>k. if k = key then Inr (Some (i * ns + 4)) else mg_get_loop d ns key (i + 1) n)"

definition mg_map_get :: "mg_Map option \<Rightarrow> u32 \<Rightarrow> u64 option res" where
  "mg_map_get mp key =
     (case mp of None \<Rightarrow> Inr None
      | Some m \<Rightarrow> (case mdat m of None \<Rightarrow> Inr None
          | Some d \<Rightarrow>
              if key = 0 then Inr None
              else mg_get_loop d (node_size m) key 0 (unat (mcount m))))"

text \<open>\<open>mg_map_getindex\<close> returns the value's place and, through \<open>key\<close>, the node's key.\<close>

definition mg_map_getindex :: "mg_Map option \<Rightarrow> u64 \<Rightarrow> bool \<Rightarrow> (u64 option \<times> u32 option) res" where
  "mg_map_getindex mp idx has_key =
     (case mp of None \<Rightarrow> Inr (None, None)
      | Some m \<Rightarrow> (case mdat m of None \<Rightarrow> Inr (None, None)
          | Some d \<Rightarrow>
              if idx \<ge> mcount m then Inr (None, None)
              else
                let loc = idx * node_size m in
                if has_key then rbind (node_load d loc) (\<lambda>k. Inr (Some (loc + 4), Some k))
                else Inr (Some (loc + 4), None)))"

text \<open>\<open>mg_map_add\<close> takes the first free node and doubles the block when there is none.\<close>

definition mg_map_add ::
    "heap_env \<Rightarrow> mg_Map option \<Rightarrow> u32 \<Rightarrow> u8 list option \<Rightarrow> (int \<times> mg_Map option) res" where
  "mg_map_add h mp key object =
     (case mp of None \<Rightarrow> Inr (-1, None)
      | Some m \<Rightarrow> (case mdat m of None \<Rightarrow> Inr (-2, Some m)
          | Some d \<Rightarrow>
              if key = 0 then Inr (-3, Some m)
              else (case object of None \<Rightarrow> Inr (-4, Some m)
              | Some obj \<Rightarrow>
                  rbind (mg_get_loop d (node_size m) 0 0 (unat (mcount m))) (\<lambda>p.
                  rbind (case p of
                      Some place \<Rightarrow> Inr (m, d, place)
                    | None \<Rightarrow>
                        let total = node_size m * mcount m * 2 in
                        (case c_realloc h d total of None \<Rightarrow> Inl Null_Deref
                         | Some d2 \<Rightarrow> rbind (memset0 d2 (total div 2) (total div 2))
                             (\<lambda>d3. Inr (m\<lparr>mcount := mcount m * 2\<rparr>, d3, total div 2 + 4))))
                    (\<lambda>(m', d', place).
                  rbind (node_store d' (place - 4) key) (\<lambda>d4.
                  rbind (memcpy_in d4 place obj (node_size m' - 4)) (\<lambda>d5.
                  Inr (0, Some (m'\<lparr>mdat := Some d5\<rparr>)))))))))"

definition mg_map_set ::
    "heap_env \<Rightarrow> mg_Map option \<Rightarrow> u32 \<Rightarrow> u8 list option \<Rightarrow> (int \<times> mg_Map option) res" where
  "mg_map_set h mp key object =
     (case mp of None \<Rightarrow> Inr (-1, None)
      | Some m \<Rightarrow> (case mdat m of None \<Rightarrow> Inr (-2, Some m)
          | Some d \<Rightarrow>
              if key = 0 then Inr (-3, Some m)
              else (case object of None \<Rightarrow> Inr (-4, Some m)
              | Some obj \<Rightarrow>
                  rbind (mg_map_get mp key) (\<lambda>p.
                  case p of
                    None \<Rightarrow> rbind (mg_map_add h mp key object) (\<lambda>(rc, m'). Inr (0, m'))
                  | Some place \<Rightarrow>
                      rbind (node_store d (place - 4) key) (\<lambda>d4.
                      rbind (memcpy_in d4 place obj (node_size m - 4)) (\<lambda>d5.
                      Inr (0, Some (m\<lparr>mdat := Some d5\<rparr>))))))))"

definition mg_map_del :: "mg_Map option \<Rightarrow> u32 \<Rightarrow> (int \<times> mg_Map option) res" where
  "mg_map_del mp key =
     (case mp of None \<Rightarrow> Inr (-1, None)
      | Some m \<Rightarrow> (case mdat m of None \<Rightarrow> Inr (-2, Some m)
          | Some d \<Rightarrow>
              if key = 0 then Inr (-3, Some m)
              else
                rbind (mg_map_get mp key) (\<lambda>p.
                case p of None \<Rightarrow> Inr (0, Some m)
                | Some place \<Rightarrow>
                    rbind (node_store d (place - 4) 0) (\<lambda>d4.
                    rbind (memset0 d4 place (node_size m - 4)) (\<lambda>d5.
                    Inr (0, Some (m\<lparr>mdat := Some d5\<rparr>)))))))"

section \<open>The block as a list of nodes\<close>

definition node_bytes :: "u32 \<times> u8 list \<Rightarrow> u8 list" where
  "node_bytes n = bytes_of32 (fst n) @ snd n"

definition flat :: "(u32 \<times> u8 list) list \<Rightarrow> u8 list" where
  "flat ns = concat (map node_bytes ns)"

text \<open>\<open>mg_rep m nodes\<close>: the block of \<open>m\<close> is the given nodes, in order.\<close>

definition mg_rep :: "mg_Map \<Rightarrow> (u32 \<times> u8 list) list \<Rightarrow> bool" where
  "mg_rep m nodes \<longleftrightarrow> mdat m = Some (flat nodes) \<and> unat (mcount m) = length nodes \<and> nodes \<noteq> [] \<and>
     4 < unat (node_size m) \<and> (\<forall>n \<in> set nodes. length (snd n) = unat (node_size m) - 4) \<and>
     unat (node_size m) * length nodes < 2 ^ 64"

text \<open>Index of the first node with a given key.\<close>

fun find_idx :: "u32 \<Rightarrow> (u32 \<times> u8 list) list \<Rightarrow> nat option" where
  "find_idx k [] = None"
| "find_idx k (x # xs) = (if fst x = k then Some 0 else map_option Suc (find_idx k xs))"

lemma find_idx_None: "find_idx k xs = None \<longleftrightarrow> k \<notin> fst ` set xs"
  by (induction xs) auto

lemma find_idx_Some:
  "find_idx k xs = Some j \<Longrightarrow> j < length xs \<and> fst (xs ! j) = k \<and> k \<notin> fst ` set (take j xs)"
  by (induction xs arbitrary: j) (force split: if_splits)+

lemma find_idx_skip:
  "find_idx k xs = None \<Longrightarrow> find_idx k (xs @ ys) = map_option (\<lambda>i. length xs + i) (find_idx k ys)"
  by (cases "find_idx k ys"; induction xs) auto

lemma find_idx_map_of:
  "map_of xs k = map_option (\<lambda>j. snd (xs ! j)) (find_idx k xs)"
  by (induction xs) (auto simp: option.map_comp comp_def)

lemma length_bytes_of32 [simp]: "length (bytes_of32 k) = 4"
  by (simp add: bytes_of32_def)

lemma flat_append [simp]: "flat (xs @ ys) = flat xs @ flat ys"
  by (simp add: flat_def)

lemma flat_Cons [simp]: "flat (x # xs) = bytes_of32 (fst x) @ snd x @ flat xs"
  by (simp add: flat_def node_bytes_def)

lemma flat_Nil [simp]: "flat [] = []"
  by (simp add: flat_def)

lemma length_flat:
  "4 < ns \<Longrightarrow> \<forall>n \<in> set xs. length (snd n) = ns - 4 \<Longrightarrow> length (flat xs) = ns * length xs"
  by (induction xs) auto

lemma node_load_at:
  assumes "unat off = length xs"
  shows "node_load (xs @ bytes_of32 k @ ys) off = Inr k"
proof -
  have "(xs @ bytes_of32 k @ ys) ! (length xs + i) = bytes_of32 k ! i" if "i < 4" for i
    using that by (simp add: nth_append)
  from this[of 0] this[of 1] this[of 2] this[of 3] show ?thesis
    using word32_of_bytes_byte_of[of k]
    by (simp add: node_load_def assms bytes_of32_def numeral_2_eq_2 numeral_3_eq_3)
qed

lemma store_bytes_at:
  assumes "unat off = length xs" "length bs = length bs'"
  shows "store_bytes (xs @ bs @ ys) off bs' = Inr (xs @ bs' @ ys)"
  using assms by (simp add: store_bytes_def)

lemma unat_mult_small:
  fixes a b :: u64
  shows "unat a * unat b < 2 ^ 64 \<Longrightarrow> unat (a * b) = unat a * unat b"
  by (simp add: unat_word_ariths)

lemma unat_add_small:
  fixes a b :: u64
  shows "unat a + unat b < 2 ^ 64 \<Longrightarrow> unat (a + b) = unat a + unat b"
  by (simp add: unat_word_ariths)

lemma mg_get_loop_flat:
  assumes "4 < unat ns" "\<forall>n \<in> set (xs @ ys). length (snd n) = unat ns - 4"
    and "unat ns * length (xs @ ys) < 2 ^ 64" "unat i = length xs"
  shows "mg_get_loop (flat (xs @ ys)) ns key i (length ys) =
    Inr (map_option (\<lambda>j. of_nat ((length xs + j) * unat ns + 4)) (find_idx key ys))"
  using assms
proof (induction ys arbitrary: xs i)
  case (Cons y ys)
  have len: "length (flat xs) = unat ns * length xs"
    using Cons.prems by (intro length_flat) auto
  have bound: "length xs * unat ns + unat ns < 2 ^ 64"
    using Cons.prems(3) by (auto simp: algebra_simps intro: le_less_trans[rotated])
  then have off: "unat (i * ns) = length (flat xs)"
    using Cons.prems(4) by (subst unat_mult_small) (auto simp: len mult.commute)
  have load: "node_load (flat (xs @ y # ys)) (i * ns) = Inr (fst y)"
    using node_load_at[OF off] by simp
  have idx: "i * ns + 4 = of_nat (length xs * unat ns + 4)"
  proof -
    have "i * ns + 4 = of_nat (unat (i * ns) + 4)" by simp
    then show ?thesis unfolding off len by (simp only: mult.commute)
  qed
  have "unat (i + 1) = length (xs @ [y])"
  proof -
    have "length xs + 1 < 2 ^ 64"
    proof -
      have "length xs \<le> length xs * unat ns" using Cons.prems(1) by simp
      with bound Cons.prems(1) show ?thesis by linarith
    qed
    with Cons.prems(4) show ?thesis by (subst unat_add_small) auto
  qed
  from Cons.IH[of "xs @ [y]" "i + 1"] this Cons.prems
  have ih: "mg_get_loop (flat (xs @ y # ys)) ns key (i + 1) (length ys) =
    Inr (map_option (\<lambda>j. of_nat ((length (xs @ [y]) + j) * unat ns + 4)) (find_idx key ys))"
    by simp
  show ?case
    using load idx ih by (auto simp: option.map_comp comp_def algebra_simps)
qed simp

lemma mg_map_get_rep:
  assumes "mg_rep m nodes" "key \<noteq> 0"
  shows "mg_map_get (Some m) key =
    Inr (map_option (\<lambda>j. of_nat (j * unat (node_size m) + 4)) (find_idx key nodes))"
  using assms mg_get_loop_flat[of "node_size m" "[]" nodes 0 key]
  by (auto simp: mg_map_get_def mg_rep_def)

lemma mg_scan_free_rep:
  assumes "mg_rep m nodes"
  shows "mg_get_loop (flat nodes) (node_size m) 0 0 (length nodes) =
    Inr (map_option (\<lambda>j. of_nat (j * unat (node_size m) + 4)) (find_idx 0 nodes))"
  using assms mg_get_loop_flat[of "node_size m" "[]" nodes 0 0]
  by (auto simp: mg_rep_def)


section \<open>Updating one node\<close>

lemma mg_rep_node_offset:
  assumes "mg_rep m nodes" "j < length nodes"
  shows "unat (of_nat (j * unat (node_size m) + 4) :: u64) = j * unat (node_size m) + 4"
    and "unat (of_nat (j * unat (node_size m) + 4) - 4 :: u64) = j * unat (node_size m)"
    and "j * unat (node_size m) + unat (node_size m) \<le> length (flat nodes)"
proof -
  let ?ns = "unat (node_size m)"
  have "Suc j \<le> length nodes" using assms(2) by simp
  then have le: "j * ?ns + ?ns \<le> ?ns * length nodes"
    by (metis add.commute mult.commute mult_Suc mult_le_mono2)
  with assms(1) have lt: "j * ?ns + ?ns < 2 ^ 64" "4 < ?ns" by (auto simp: mg_rep_def)
  then show "unat (of_nat (j * ?ns + 4) :: u64) = j * ?ns + 4"
    by (simp only: unat_of_nat) simp
  have "of_nat (j * ?ns + 4) - 4 = (of_nat (j * ?ns) :: u64)" by simp
  with lt show "unat (of_nat (j * ?ns + 4) - 4 :: u64) = j * ?ns"
    by (simp only: unat_of_nat) simp
  from assms(1) have "length (flat nodes) = ?ns * length nodes"
    by (intro length_flat) (auto simp: mg_rep_def)
  with le show "j * ?ns + ?ns \<le> length (flat nodes)" by simp
qed

text \<open>Writing a key and then the value bytes replaces exactly one node of the list.\<close>

lemma write_node:
  assumes rep: "mg_rep m nodes" and j: "j < length nodes"
    and obj: "length obj = unat (node_size m) - 4"
    and place: "place = of_nat (j * unat (node_size m) + 4)"
  shows "rbind (node_store (flat nodes) (place - 4) key) (\<lambda>d4. store_bytes d4 place obj) =
      Inr (flat (nodes[j := (key, obj)]))"
proof -
  let ?ns = "unat (node_size m)"
  obtain xs k v ys where nodes: "nodes = xs @ (k, v) # ys" and lx: "length xs = j"
    using id_take_nth_drop[OF j] j by (metis length_take min.absorb4 surj_pair)
  have lens: "length (flat xs) = j * ?ns" "length v = ?ns - 4" "4 < ?ns"
    using rep lx length_flat[of ?ns xs] by (auto simp: nodes mg_rep_def mult.commute)
  have "node_store (flat nodes) (place - 4) key = Inr (flat xs @ bytes_of32 key @ v @ flat ys)"
    unfolding node_store_def nodes
    using store_bytes_at[of "place - 4" "flat xs" "bytes_of32 k" "bytes_of32 key" "v @ flat ys"]
      mg_rep_node_offset(2)[OF rep j] lens place by simp
  moreover have "store_bytes (flat xs @ bytes_of32 key @ v @ flat ys) place obj
      = Inr (flat xs @ bytes_of32 key @ obj @ flat ys)"
    using store_bytes_at[of place "flat xs @ bytes_of32 key" v obj "flat ys"]
      mg_rep_node_offset(1)[OF rep j] lens place obj by simp
  ultimately show ?thesis
    using lx by (simp add: nodes list_update_append)
qed

lemma mg_rep_update:
  assumes "mg_rep m nodes" "j < length nodes" "length obj = unat (node_size m) - 4"
  shows "mg_rep (m\<lparr>mdat := Some (flat (nodes[j := (key, obj)]))\<rparr>) (nodes[j := (key, obj)])"
  using assms by (auto simp: mg_rep_def dest!: set_update_subset_insert[THEN subsetD])

text \<open>Doubling the block appends free nodes.\<close>

definition free_nodes :: "nat \<Rightarrow> nat \<Rightarrow> (u32 \<times> u8 list) list" where
  "free_nodes ns n = replicate n (0, replicate (ns - 4) 0)"

lemma bytes_of32_0 [simp]: "bytes_of32 0 = replicate 4 0"
  by (simp add: bytes_of32_def byte_of_def numeral_eq_Suc)

lemma flat_free_nodes: "4 < ns \<Longrightarrow> flat (free_nodes ns n) = replicate (ns * n) 0"
proof (induction n)
  case (Suc n)
  then have "replicate 4 0 @ replicate (ns - 4) 0 @ replicate (ns * n) 0
      = (replicate (ns * Suc n) 0 :: u8 list)"
    by (simp flip: replicate_add)
  with Suc show ?case by (simp add: free_nodes_def)
qed (simp add: free_nodes_def)

lemma mg_grow:
  assumes rep: "mg_rep m nodes" and small: "2 * (unat (node_size m) * length nodes) < 2 ^ 64"
    and ok: "grants h (node_size m * mcount m * 2)"
  defines "newsz \<equiv> node_size m * mcount m * 2"
  defines "nodes2 \<equiv> nodes @ free_nodes (unat (node_size m)) (length nodes)"
  shows "\<exists>d2. c_realloc h (flat nodes) newsz = Some d2 \<and>
      memset0 d2 (newsz div 2) (newsz div 2) = Inr (flat nodes2)"
    and "newsz div 2 + 4 = of_nat (length nodes * unat (node_size m) + 4)"
    and "mg_rep (m\<lparr>mcount := mcount m * 2, mdat := Some (flat nodes2)\<rparr>) nodes2"
proof -
  let ?ns = "unat (node_size m)" and ?n = "length nodes"
  have r: "unat (mcount m) = ?n" "4 < ?ns" "?n \<noteq> 0" "length (flat nodes) = ?ns * ?n"
    using rep length_flat[of ?ns nodes] by (auto simp: mg_rep_def)
  have "unat (node_size m * mcount m) = ?ns * ?n"
    using small r unat_mult_small[of "node_size m" "mcount m"] by (simp add: mult.commute)
  moreover have "unat (node_size m * mcount m * 2) = unat (node_size m * mcount m) * unat (2 :: u64)"
    using small calculation by (intro unat_mult_small) simp
  ultimately have tt: "unat newsz = 2 * (?ns * ?n)" by (simp add: newsz_def)
  then have half: "unat (newsz div 2) = ?ns * ?n" by (simp add: unat_div)
  obtain d2 where d2: "c_realloc h (flat nodes) newsz = Some d2"
      "d2 = flat nodes @ map (junk h) [?ns * ?n..<2 * (?ns * ?n)]"
    using ok tt r by (auto simp: c_realloc_def newsz_def)
  have "store_bytes (flat nodes @ map (junk h) [?ns * ?n..<2 * (?ns * ?n)] @ [])
      (newsz div 2) (replicate (?ns * ?n) 0) = Inr (flat nodes @ replicate (?ns * ?n) 0 @ [])"
    using half r by (intro store_bytes_at) auto
  then have "memset0 d2 (newsz div 2) (newsz div 2) = Inr (flat nodes2)"
    using half r d2 by (simp add: memset0_def nodes2_def flat_free_nodes)
  with d2 show "\<exists>d2. c_realloc h (flat nodes) newsz = Some d2 \<and>
      memset0 d2 (newsz div 2) (newsz div 2) = Inr (flat nodes2)" by blast
  have "newsz div 2 = of_nat (?n * ?ns)"
  proof -
    have "newsz div 2 = of_nat (unat (newsz div 2))" by simp
    then show ?thesis unfolding half by (simp only: mult.commute)
  qed
  then show "newsz div 2 + 4 = of_nat (?n * ?ns + 4)" by simp
  have "?n \<le> ?ns * ?n" using r by simp
  then have "2 * ?n < 2 ^ 64" using small by linarith
  then have "unat (mcount m * 2) = 2 * ?n"
    using r unat_mult_small[of "mcount m" 2] by simp
  then show "mg_rep (m\<lparr>mcount := mcount m * 2, mdat := Some (flat nodes2)\<rparr>) nodes2"
    using rep r small by (auto simp: mg_rep_def nodes2_def free_nodes_def algebra_simps)
qed


section \<open>The table as a map\<close>

text \<open>What the table means: key 0 is never bound, a key is bound to the first node that holds it.\<close>

definition nodes_map :: "(u32 \<times> u8 list) list \<Rightarrow> u32 \<rightharpoonup> u8 list" where
  "nodes_map nodes k = (if k = 0 then None else map_of nodes k)"

text \<open>The bytes a client reads through the pointer \<open>mg_map_get\<close> returned.\<close>

definition value_at :: "mg_Map \<Rightarrow> u64 \<Rightarrow> u8 list" where
  "value_at m off = take (unat (node_size m) - 4) (drop (unat off) (the (mdat m)))"

lemma value_at_rep:
  assumes rep: "mg_rep m nodes" and j: "j < length nodes"
  shows "value_at m (of_nat (j * unat (node_size m) + 4)) = snd (nodes ! j)"
proof -
  let ?ns = "unat (node_size m)"
  obtain xs k v ys where nodes: "nodes = xs @ (k, v) # ys" and lx: "length xs = j"
    using id_take_nth_drop[OF j] j by (metis length_take min.absorb4 surj_pair)
  have lens: "length (flat xs) = j * ?ns" "length v = ?ns - 4"
    using rep lx length_flat[of ?ns xs] by (auto simp: nodes mg_rep_def mult.commute)
  have "drop (j * ?ns + 4) (flat nodes) = v @ flat ys"
    using lens by (simp add: nodes)
  then show ?thesis
    using rep lens mg_rep_node_offset(1)[OF rep j] lx
    by (simp add: value_at_def mg_rep_def nodes nth_append)
qed

lemma map_of_update_first:
  assumes "find_idx k xs = Some j"
  shows "map_of (xs[j := (k', v)]) x =
    (if x = k' \<and> k' \<notin> fst ` set (take j xs) then Some v
     else if x = k then map_of (drop (Suc j) xs) x else map_of xs x)"
  using assms
proof (induction xs arbitrary: j)
  case (Cons a xs)
  show ?case
  proof (cases "fst a = k")
    case True
    with Cons.prems show ?thesis by (auto split: prod.splits simp: fun_upd_def)
  next
    case False
    with Cons.prems obtain i where i: "find_idx k xs = Some i" "j = Suc i" by auto
    with Cons.IH[OF i(1)] False show ?thesis by (cases a) (force simp: image_iff)
  qed
qed simp

text \<open>Turning a free node into a node for an unbound key binds the key and nothing else.\<close>

lemma nodes_map_fill:
  assumes "find_idx 0 nodes = Some j" "key \<noteq> 0" "key \<notin> fst ` set nodes"
  shows "nodes_map (nodes[j := (key, v)]) = (nodes_map nodes)(key \<mapsto> v)"
proof
  fix x
  have "key \<notin> fst ` set (take j nodes)" using assms(3) by (auto dest: in_set_takeD)
  with assms show "nodes_map (nodes[j := (key, v)]) x = ((nodes_map nodes)(key \<mapsto> v)) x"
    by (auto simp: nodes_map_def map_of_update_first)
qed

text \<open>Overwriting the first node of a bound key rebinds the key and nothing else.\<close>

lemma nodes_map_overwrite:
  assumes "find_idx key nodes = Some j" "key \<noteq> 0"
  shows "nodes_map (nodes[j := (key, v)]) = (nodes_map nodes)(key \<mapsto> v)"
  using assms find_idx_Some[OF assms(1)]
  by (auto simp: nodes_map_def map_of_update_first fun_eq_iff)

lemma find_idx_free_nodes: "0 < n \<Longrightarrow> find_idx 0 (free_nodes ns n) = Some 0"
  by (cases n) (auto simp: free_nodes_def)

lemma map_of_free_nodes: "x \<noteq> 0 \<Longrightarrow> map_of (free_nodes ns n) x = None"
  by (induction n) (auto simp: free_nodes_def)

lemma nodes_map_free_nodes: "nodes_map (nodes @ free_nodes ns n) = nodes_map nodes"
  by (auto simp: nodes_map_def map_of_free_nodes fun_eq_iff map_add_def split: option.splits)

text \<open>No key is bound twice.\<close>

definition keys_distinct :: "(u32 \<times> u8 list) list \<Rightarrow> bool" where
  "keys_distinct nodes \<longleftrightarrow> distinct (filter (\<lambda>k. k \<noteq> 0) (map fst nodes))"

lemma keys_distinct_free_nodes: "keys_distinct (free_nodes ns n)"
  by (simp add: keys_distinct_def free_nodes_def)

lemma keys_distinct_append_free:
  "keys_distinct nodes \<Longrightarrow> keys_distinct (nodes @ free_nodes ns n)"
  by (simp add: keys_distinct_def free_nodes_def)

lemma keys_distinct_Cons [simp]:
  "keys_distinct (n # nodes) \<longleftrightarrow> (fst n \<noteq> 0 \<longrightarrow> fst n \<notin> fst ` set nodes) \<and> keys_distinct nodes"
  by (auto simp: keys_distinct_def)

lemma keys_distinct_append:
  "keys_distinct (xs @ ys) \<longleftrightarrow> keys_distinct xs \<and> keys_distinct ys \<and>
     (\<forall>k. k \<noteq> 0 \<longrightarrow> k \<in> fst ` set xs \<longrightarrow> k \<notin> fst ` set ys)"
  by (induction xs) (auto simp: keys_distinct_def)

lemma keys_distinct_update:
  assumes "j < length nodes" "keys_distinct nodes"
    and "key = 0 \<or> key = fst (nodes ! j) \<or> key \<notin> fst ` set nodes"
  shows "keys_distinct (nodes[j := (key, v)])"
proof -
  obtain xs k w ys where nodes: "nodes = xs @ (k, w) # ys" and lx: "length xs = j"
    using id_take_nth_drop[OF assms(1)] assms(1) by (metis length_take min.absorb4 surj_pair)
  with assms(2,3) show ?thesis
    by (auto simp: keys_distinct_append list_update_append nth_append image_iff)
qed

lemma nodes_map_delete:
  assumes "find_idx key nodes = Some j" "key \<noteq> 0" "keys_distinct nodes"
  shows "nodes_map (nodes[j := (0, v)]) = (nodes_map nodes)(key := None)"
proof -
  have j: "j < length nodes" "fst (nodes ! j) = key" using find_idx_Some[OF assms(1)] by auto
  then obtain xs w ys where nodes: "nodes = xs @ (key, w) # ys" and lx: "length xs = j"
    using id_take_nth_drop[OF j(1)] by (metis length_take min.absorb4 j(1) surj_pair fst_conv)
  with assms(2,3) have "key \<notin> fst ` set ys" by (auto simp: keys_distinct_append)
  then have "map_of (drop (Suc j) nodes) key = None"
    using lx by (simp add: nodes map_of_eq_None_iff)
  with assms(1,2) show ?thesis
    by (auto simp: nodes_map_def map_of_update_first fun_eq_iff)
qed


section \<open>The operations on a well-formed table\<close>

lemma unat_value_size: "4 < unat (ns :: u64) \<Longrightarrow> unat (ns - 4) = unat ns - 4"
  by (subst unat_sub) (auto simp: word_le_nat_alt)

lemma memcpy_in_exact:
  "4 < unat ns \<Longrightarrow> length obj = unat ns - 4 \<Longrightarrow> memcpy_in d off obj (ns - 4) = store_bytes d off obj"
  by (simp add: memcpy_in_def unat_value_size)

lemma write_node_code:
  assumes "mg_rep m nodes" "j < length nodes" "length obj = unat (node_size m) - 4"
    and "place = of_nat (j * unat (node_size m) + 4)"
  shows "rbind (node_store (flat nodes) (place - 4) key) (\<lambda>d4.
      rbind (memcpy_in d4 place obj (node_size m - 4)) (\<lambda>d5. Inr (f d5)))
    = Inr (f (flat (nodes[j := (key, obj)])))"
proof -
  have "4 < unat (node_size m)" using assms(1) by (simp add: mg_rep_def)
  then have "memcpy_in d4 place obj (node_size m - 4) = store_bytes d4 place obj" for d4
    using assms(3) by (rule memcpy_in_exact)
  with write_node[OF assms(1,2,3,4), of key] show ?thesis
    by (simp add: rbind_assoc[symmetric])
qed

lemma mg_map_init_rep:
  assumes "mdat m = None" "vs \<noteq> 0" "ic \<noteq> 0" "(unat vs + 4) * unat ic < 2 ^ 64" "grants h ((vs + 4) * ic)"
  shows "\<exists>m'. mg_map_init h (Some m) vs ic = Inr (0, Some m') \<and>
    mg_rep m' (free_nodes (unat vs + 4) (unat ic)) \<and> node_size m' = vs + 4"
proof -
  let ?ns = "unat vs + 4"
  have pos: "0 < unat vs" "0 < unat ic" using assms(2,3) by (auto simp: unat_gt_0)
  have "?ns \<le> ?ns * unat ic" using pos by simp
  then have "?ns < 2 ^ 64" using assms(4) by (rule le_less_trans)
  then have ns: "unat (vs + 4) = ?ns" by (subst unat_add_small) auto
  then have tot: "unat ((vs + 4) * ic) = ?ns * unat ic"
    using assms(4) by (subst unat_mult_small) auto
  obtain d where d: "c_malloc h ((vs + 4) * ic) = Some d" "length d = ?ns * unat ic"
    using assms(5) tot by (auto simp: c_malloc_def)
  have "memset0 d 0 ((vs + 4) * ic) = Inr (replicate (?ns * unat ic) 0)"
    using store_bytes_at[of 0 "[]" d "replicate (?ns * unat ic) 0" "[]"] d tot
    by (simp add: memset0_def)
  moreover have "replicate (?ns * unat ic) 0 = flat (free_nodes ?ns (unat ic))"
    using pos by (simp add: flat_free_nodes)
  moreover have "mg_rep \<lparr>mcount = ic, node_size = vs + 4, mdat = Some (flat (free_nodes ?ns (unat ic)))\<rparr>
      (free_nodes ?ns (unat ic))"
    using ns pos assms(4) by (auto simp: mg_rep_def free_nodes_def)
  ultimately show ?thesis
    using assms(1,2,3) d by (simp add: mg_map_init_def Let_def)
qed

text \<open>There is room for one more entry: a free node, or an allocator that grants a doubled block
  whose size fits in \<open>size_t\<close>.\<close>

definition mg_room :: "heap_env \<Rightarrow> mg_Map \<Rightarrow> (u32 \<times> u8 list) list \<Rightarrow> bool" where
  "mg_room h m nodes \<longleftrightarrow> 0 \<in> fst ` set nodes \<or>
     (2 * (unat (node_size m) * length nodes) < 2 ^ 64 \<and> grants h (node_size m * mcount m * 2))"

text \<open>A free node takes the new entry.\<close>

lemma mg_map_add_free:
  assumes rep: "mg_rep m nodes" and dist: "keys_distinct nodes" and free: "find_idx 0 nodes = Some j"
    and key: "key \<noteq> 0" "key \<notin> fst ` set nodes" and obj: "length obj = unat (node_size m) - 4"
  shows "\<exists>m'. mg_map_add h (Some m) key (Some obj) = Inr (0, Some m') \<and> mg_rep m' (nodes[j := (key, obj)]) \<and>
    keys_distinct (nodes[j := (key, obj)]) \<and> nodes_map (nodes[j := (key, obj)]) = (nodes_map nodes)(key \<mapsto> obj) \<and>
    node_size m' = node_size m"
proof -
  have j: "j < length nodes" using find_idx_Some[OF free] by simp
  let ?nodes' = "nodes[j := (key, obj)]"
  have "mg_map_add h (Some m) key (Some obj) = Inr (0, Some (m\<lparr>mdat := Some (flat ?nodes')\<rparr>))"
    using rep key free write_node_code[OF rep j obj refl, of key] mg_scan_free_rep[OF rep]
    by (simp add: mg_map_add_def mg_rep_def)
  moreover have "mg_rep (m\<lparr>mdat := Some (flat ?nodes')\<rparr>) ?nodes'"
    using rep j obj by (rule mg_rep_update)
  moreover have "keys_distinct ?nodes'" using j dist key(2) by (intro keys_distinct_update) auto
  moreover have "nodes_map ?nodes' = (nodes_map nodes)(key \<mapsto> obj)"
    using free key by (rule nodes_map_fill)
  ultimately show ?thesis by fastforce
qed

lemma mg_map_add_rep:
  assumes rep: "mg_rep m nodes" and dist: "keys_distinct nodes" and room: "mg_room h m nodes"
    and key: "key \<noteq> 0" "key \<notin> fst ` set nodes" and obj: "length obj = unat (node_size m) - 4"
  shows "\<exists>m' nodes'. mg_map_add h (Some m) key (Some obj) = Inr (0, Some m') \<and> mg_rep m' nodes' \<and>
    keys_distinct nodes' \<and> nodes_map nodes' = (nodes_map nodes)(key \<mapsto> obj) \<and>
    node_size m' = node_size m"
proof (cases "find_idx 0 nodes")
  case (Some j)
  from mg_map_add_free[OF rep dist Some key obj] show ?thesis by blast
next
  case None
  then have "0 \<notin> fst ` set nodes" by (simp add: find_idx_None)
  with room have small: "2 * (unat (node_size m) * length nodes) < 2 ^ 64"
      and ok: "grants h (node_size m * mcount m * 2)" by (auto simp: mg_room_def)
  let ?nodes2 = "nodes @ free_nodes (unat (node_size m)) (length nodes)"
  let ?m2 = "m\<lparr>mcount := mcount m * 2, mdat := Some (flat ?nodes2)\<rparr>" and ?j = "length nodes"
  note grow = mg_grow[OF rep small ok]
  have j: "?j < length ?nodes2" and obj2: "length obj = unat (node_size ?m2) - 4"
    using rep obj by (auto simp: mg_rep_def free_nodes_def)
  let ?nodes' = "?nodes2[?j := (key, obj)]"
  have "mg_map_add h (Some m) key (Some obj) =
      Inr (0, Some (m\<lparr>mcount := mcount m * 2, mdat := Some (flat ?nodes')\<rparr>))"
    using rep key None grow(1,2) write_node_code[OF grow(3) j obj2 refl, of key] mg_scan_free_rep[OF rep]
    by (auto simp: mg_map_add_def mg_rep_def Let_def)
  moreover have "mg_rep (m\<lparr>mcount := mcount m * 2, mdat := Some (flat ?nodes')\<rparr>) ?nodes'"
    using mg_rep_update[OF grow(3) j obj2, of key] by simp
  moreover have "key \<notin> fst ` set ?nodes2" using key by (auto simp: free_nodes_def)
  then have "keys_distinct ?nodes'"
    using j dist by (intro keys_distinct_update) (auto intro: keys_distinct_append_free)
  moreover have "find_idx 0 ?nodes2 = Some ?j"
    using find_idx_skip[OF None] rep by (auto simp: mg_rep_def find_idx_free_nodes)
  then have "nodes_map ?nodes' = (nodes_map nodes)(key \<mapsto> obj)"
    using nodes_map_fill[of ?nodes2 ?j key obj] key \<open>key \<notin> fst ` set ?nodes2\<close>
    by (simp add: nodes_map_free_nodes)
  ultimately show ?thesis by fastforce
qed

lemma mg_map_set_rep:
  assumes rep: "mg_rep m nodes" and dist: "keys_distinct nodes" and room: "mg_room h m nodes"
    and key: "key \<noteq> 0" and obj: "length obj = unat (node_size m) - 4"
  shows "\<exists>m' nodes'. mg_map_set h (Some m) key (Some obj) = Inr (0, Some m') \<and> mg_rep m' nodes' \<and>
    keys_distinct nodes' \<and> nodes_map nodes' = (nodes_map nodes)(key \<mapsto> obj) \<and>
    node_size m' = node_size m"
proof (cases "find_idx key nodes")
  case None
  then have fresh: "key \<notin> fst ` set nodes" by (simp add: find_idx_None)
  from mg_map_add_rep[OF rep dist room key fresh obj] rep key None show ?thesis
    by (auto simp: mg_map_set_def mg_map_get_rep mg_rep_def)
next
  case (Some j)
  have j: "j < length nodes" "fst (nodes ! j) = key" using find_idx_Some[OF Some] by auto
  let ?nodes' = "nodes[j := (key, obj)]"
  have "mg_map_set h (Some m) key (Some obj) = Inr (0, Some (m\<lparr>mdat := Some (flat ?nodes')\<rparr>))"
    using rep key Some write_node_code[OF rep j(1) obj refl, of key] mg_map_get_rep[OF rep key]
    by (simp add: mg_map_set_def mg_rep_def)
  moreover have "mg_rep (m\<lparr>mdat := Some (flat ?nodes')\<rparr>) ?nodes'"
    using rep j(1) obj by (rule mg_rep_update)
  moreover have "keys_distinct ?nodes'" using j dist by (intro keys_distinct_update) auto
  moreover have "nodes_map ?nodes' = (nodes_map nodes)(key \<mapsto> obj)"
    using Some key by (rule nodes_map_overwrite)
  ultimately show ?thesis by fastforce
qed

lemma mg_map_del_rep:
  assumes rep: "mg_rep m nodes" and dist: "keys_distinct nodes" and key: "key \<noteq> 0"
  shows "\<exists>m' nodes'. mg_map_del (Some m) key = Inr (0, Some m') \<and> mg_rep m' nodes' \<and>
    keys_distinct nodes' \<and> nodes_map nodes' = (nodes_map nodes)(key := None) \<and>
    node_size m' = node_size m"
proof (cases "find_idx key nodes")
  case None
  then have "nodes_map nodes = (nodes_map nodes)(key := None)"
    by (auto simp: nodes_map_def find_idx_map_of fun_eq_iff)
  with None rep dist key mg_map_get_rep[OF rep key] show ?thesis
    by (auto simp: mg_map_del_def mg_rep_def)
next
  case (Some j)
  have j: "j < length nodes" "fst (nodes ! j) = key" using find_idx_Some[OF Some] by auto
  let ?z = "replicate (unat (node_size m) - 4) 0 :: u8 list"
  let ?nodes' = "nodes[j := (0, ?z)]" and ?p = "of_nat (j * unat (node_size m) + 4) :: u64"
  have "4 < unat (node_size m)" using rep by (simp add: mg_rep_def)
  then have ms: "memset0 d ?p (node_size m - 4) = memcpy_in d ?p ?z (node_size m - 4)" for d
    by (simp add: memset0_def memcpy_in_def unat_value_size)
  have "mg_map_del (Some m) key = Inr (0, Some (m\<lparr>mdat := Some (flat ?nodes')\<rparr>))"
    using rep key Some write_node_code[OF rep j(1) _ refl, of ?z 0] mg_map_get_rep[OF rep key] ms
    by (simp add: mg_map_del_def mg_rep_def)
  moreover have "mg_rep (m\<lparr>mdat := Some (flat ?nodes')\<rparr>) ?nodes'"
    using rep j(1) by (rule mg_rep_update) simp
  moreover have "keys_distinct ?nodes'" using j dist by (intro keys_distinct_update) auto
  moreover have "nodes_map ?nodes' = (nodes_map nodes)(key := None)"
    using Some key dist by (rule nodes_map_delete)
  ultimately show ?thesis by fastforce
qed


section \<open>The interface: a dictionary filled by insertion\<close>

text \<open>
  What the set-up code uses of a table: entries with fresh keys are added one by one, then
  looked up. An insertion may fail (no memory).
\<close>

locale dictionary =
  fixes look :: "'m \<Rightarrow> 'k \<Rightarrow> 'v option"
    and add :: "'m \<Rightarrow> 'k \<Rightarrow> 'v \<Rightarrow> 'm option"
    and inv :: "'m \<Rightarrow> bool"
  assumes inv_add: "inv m \<Longrightarrow> look m k = None \<Longrightarrow> add m k v = Some m' \<Longrightarrow> inv m'"
    and look_add: "inv m \<Longrightarrow> look m k = None \<Longrightarrow> add m k v = Some m' \<Longrightarrow> look m' = (look m)(k \<mapsto> v)"
begin

fun add_all :: "'m \<Rightarrow> ('k \<times> 'v) list \<Rightarrow> 'm option" where
  "add_all m [] = Some m"
| "add_all m ((k, v) # kvs) = Option.bind (add m k v) (\<lambda>m'. add_all m' kvs)"

lemma look_add_all:
  assumes "inv m" "distinct (map fst kvs)" "\<And>k. k \<in> fst ` set kvs \<Longrightarrow> look m k = None"
    and "add_all m kvs = Some m'"
  shows "inv m' \<and> look m' = look m ++ map_of kvs"
  using assms
proof (induction m kvs arbitrary: m' rule: add_all.induct)
  case (2 m k v kvs)
  from "2.prems"(4) obtain m1 where m1: "add m k v = Some m1" "add_all m1 kvs = Some m'"
    by (auto split: Option.bind_splits)
  have none: "look m k = None" using "2.prems"(3) by simp
  have l1: "look m1 = (look m)(k \<mapsto> v)" and i1: "inv m1"
    using look_add[OF "2.prems"(1) none m1(1)] inv_add[OF "2.prems"(1) none m1(1)] by auto
  have "look m1 x = None" if "x \<in> fst ` set kvs" for x
    using that "2.prems"(2,3) l1 by auto
  with "2.IH"[OF m1(1) i1 _ _ m1(2)] "2.prems"(2)
  have ih: "inv m' \<and> look m' = look m1 ++ map_of kvs" by simp
  have "k \<notin> fst ` set kvs" using "2.prems"(2) by simp
  then have "map_of kvs k = None" by (simp add: map_of_eq_None_iff)
  then show ?case using ih l1 by (auto simp: fun_eq_iff map_add_def split: option.splits)
qed simp

end

text \<open>A dictionary whose entries can be removed again.\<close>

locale erasable = dictionary look add inv
  for look :: "'m \<Rightarrow> 'k \<Rightarrow> 'v option"
    and add :: "'m \<Rightarrow> 'k \<Rightarrow> 'v \<Rightarrow> 'm option"
    and inv :: "'m \<Rightarrow> bool" +
  fixes del :: "'m \<Rightarrow> 'k \<Rightarrow> 'm option"
  assumes inv_del: "inv m \<Longrightarrow> del m k = Some m' \<Longrightarrow> inv m'"
    and look_del: "inv m \<Longrightarrow> del m k = Some m' \<Longrightarrow> look m' = (look m)(k := None)"
begin

lemma add_then_del:
  assumes "inv m" "look m k = None" "add m k v = Some m1" "del m1 k = Some m2"
  shows "inv m2 \<and> look m2 = look m"
  using inv_del[OF inv_add[OF assms(1-3)] assms(4)] look_del[OF inv_add[OF assms(1-3)] assms(4)] look_add[OF assms(1-3)] assms(2)
  by (auto simp: fun_eq_iff)

lemma del_then_add:
  assumes "inv m" "del m k = Some m1" "add m1 k v = Some m2"
  shows "inv m2 \<and> look m2 = (look m)(k \<mapsto> v)"
proof -
  have l: "look m1 = (look m)(k := None)" by (rule look_del[OF assms(1,2)])
  then have "look m1 k = None" by simp
  with inv_add[OF inv_del[OF assms(1,2)] this assms(3)] look_add[OF inv_del[OF assms(1,2)] this assms(3)] l show ?thesis by simp
qed

end

definition mg_look :: "mg_Map \<Rightarrow> u32 \<Rightarrow> u8 list option" where
  "mg_look m k = (case mg_map_get (Some m) k of Inr (Some off) \<Rightarrow> Some (value_at m off) | _ \<Rightarrow> None)"

definition mg_inv :: "mg_Map \<Rightarrow> bool" where
  "mg_inv m \<longleftrightarrow> (\<exists>nodes. mg_rep m nodes \<and> keys_distinct nodes)"

text \<open>A call of \<open>mg_map_add\<close> with a value of the table's size, whose growth does not overflow.\<close>

definition mg_add :: "heap_env \<Rightarrow> mg_Map \<Rightarrow> u32 \<Rightarrow> u8 list \<Rightarrow> mg_Map option" where
  "mg_add h m k v =
     (if length v = unat (node_size m) - 4 \<and> 2 * (unat (node_size m) * unat (mcount m)) < 2 ^ 64
      then (case mg_map_add h (Some m) k (Some v) of
          Inr (rc, Some m') \<Rightarrow> if rc = 0 then Some m' else None
        | _ \<Rightarrow> None)
      else None)"

lemma mg_look_rep: "mg_rep m nodes \<Longrightarrow> mg_look m = nodes_map nodes"
proof
  fix k assume rep: "mg_rep m nodes"
  show "mg_look m k = nodes_map nodes k"
  proof (cases "k = 0")
    case True
    with rep show ?thesis by (simp add: mg_look_def mg_map_get_def nodes_map_def mg_rep_def)
  next
    case False
    then show ?thesis
      using mg_map_get_rep[OF rep False] find_idx_Some[of k nodes] value_at_rep[OF rep]
      by (cases "find_idx k nodes") (auto simp: mg_look_def nodes_map_def find_idx_map_of)
  qed
qed

lemma mg_invI: "mg_rep m nodes \<Longrightarrow> keys_distinct nodes \<Longrightarrow> mg_inv m"
  by (auto simp: mg_inv_def)

lemma mg_map_add_no_room:
  assumes "mg_rep m nodes" "0 \<notin> fst ` set nodes" "\<not> grants h (node_size m * mcount m * 2)" "k \<noteq> 0"
  shows "mg_map_add h (Some m) k (Some v) = Inl Null_Deref"
  using assms mg_scan_free_rep[OF assms(1)] find_idx_None[of 0 nodes]
  by (simp add: mg_map_add_def mg_rep_def Let_def c_realloc_def)

lemma mg_add_Some:
  assumes "mg_inv m" "mg_look m k = None" "mg_add h m k v = Some m'"
  shows "mg_inv m' \<and> mg_look m' = (mg_look m)(k \<mapsto> v) \<and> node_size m' = node_size m"
proof -
  from assms(1) obtain nodes where rep: "mg_rep m nodes" and dist: "keys_distinct nodes"
    by (auto simp: mg_inv_def)
  from assms(3) have sz: "length v = unat (node_size m) - 4"
      "2 * (unat (node_size m) * unat (mcount m)) < 2 ^ 64"
      and call: "mg_map_add h (Some m) k (Some v) = Inr (0, Some m')"
    by (auto simp: mg_add_def split: if_splits sum.splits option.splits)
  have k: "k \<noteq> 0"
  proof
    assume "k = 0"
    with call rep show False by (simp add: mg_map_add_def mg_rep_def)
  qed
  with assms(2) rep have fresh: "k \<notin> fst ` set nodes"
    by (auto simp: mg_look_rep nodes_map_def map_of_eq_None_iff)
  have "mg_room h m nodes"
    using sz(2) rep call k mg_map_add_no_room[OF rep _ _ k, of h v]
    by (auto simp: mg_room_def mg_rep_def)
  from mg_map_add_rep[OF rep dist this k fresh sz(1)] call rep show ?thesis
    by (auto simp: mg_inv_def mg_look_rep)
qed

interpretation mg: dictionary mg_look "mg_add h" mg_inv for h
  by unfold_locales (use mg_add_Some in blast)+

definition mg_erase :: "mg_Map \<Rightarrow> u32 \<Rightarrow> mg_Map option" where
  "mg_erase m k = (case mg_map_del (Some m) k of Inr (rc, Some m') \<Rightarrow> if rc = 0 then Some m' else None | _ \<Rightarrow> None)"

lemma mg_erase_Some:
  assumes "mg_inv m" "mg_erase m k = Some m'"
  shows "mg_inv m' \<and> mg_look m' = (mg_look m)(k := None)"
proof -
  from assms(1) obtain nodes where rep: "mg_rep m nodes" and dist: "keys_distinct nodes" by (auto simp: mg_inv_def)
  have k: "k \<noteq> 0"
  proof
    assume "k = 0"
    with assms(2) rep show False by (simp add: mg_erase_def mg_map_del_def mg_rep_def)
  qed
  from mg_map_del_rep[OF rep dist k] assms(2) rep show ?thesis by (auto simp: mg_erase_def mg_look_rep intro: mg_invI)
qed

interpretation mg_del: erasable mg_look "mg_add h" mg_inv mg_erase for h
  by unfold_locales (use mg_erase_Some in blast)+


section \<open>Properties\<close>

definition sample_nodes :: "(u32 \<times> u8 list) list" where
  "sample_nodes = [(5, [1, 0, 0, 0]), (0, [0, 0, 0, 0])]"

definition sample_map :: mg_Map where
  "sample_map = \<lparr>mcount = 2, node_size = 8, mdat = Some (flat sample_nodes)\<rparr>"

definition sample_heap :: heap_env where
  "sample_heap = \<lparr>grants = (\<lambda>_. True), junk = (\<lambda>_. 204)\<rparr>"

lemma sample_rep: "mg_rep sample_map sample_nodes" "keys_distinct sample_nodes"
  "mg_room sample_heap sample_map sample_nodes"
  by (auto simp: mg_rep_def sample_map_def sample_nodes_def keys_distinct_def mg_room_def)

text \<open>Property C27: the pointer \<open>mg_map_get\<close> returns is \<open>NULL\<close> exactly for unbound keys (key 0 is
  never bound), and otherwise points at the bytes of the first node with that key.\<close>
theorem mg_map_get_correct:
  assumes "mg_rep m nodes"
  shows "mg_map_get (Some m) 0 = Inr None \<and>
    (\<forall>key. key \<noteq> 0 \<longrightarrow> (case map_of nodes key of
        None \<Rightarrow> mg_map_get (Some m) key = Inr None
      | Some v \<Rightarrow> \<exists>off. mg_map_get (Some m) key = Inr (Some off) \<and> value_at m off = v))"
proof (intro conjI allI impI)
  show "mg_map_get (Some m) 0 = Inr None"
    using assms by (simp add: mg_map_get_def mg_rep_def)
  fix key :: u32 assume k: "key \<noteq> 0"
  show "case map_of nodes key of None \<Rightarrow> mg_map_get (Some m) key = Inr None
      | Some v \<Rightarrow> \<exists>off. mg_map_get (Some m) key = Inr (Some off) \<and> value_at m off = v"
    using mg_map_get_rep[OF assms k] find_idx_Some[of key nodes] value_at_rep[OF assms]
    by (cases "find_idx key nodes") (auto simp: find_idx_map_of)
qed

theorem mg_map_get_correct_witness:
  "\<exists>off. mg_map_get (Some sample_map) 5 = Inr (Some off) \<and> value_at sample_map off = [1, 0, 0, 0]"
proof -
  note all = mg_map_get_correct[OF sample_rep(1), THEN conjunct2, rule_format, of 5]
  have "map_of sample_nodes 5 = Some [1, 0, 0, 0]" by (simp add: sample_nodes_def)
  with all show ?thesis by simp
qed

text \<open>On a well-formed table with room, \<open>mg_map_set\<close> returns 0 and rebinds its key
  and no other, whether the key was bound, took a free node, or forced the block to double.\<close>
theorem mg_map_set_correct:
  assumes "mg_rep m nodes" "keys_distinct nodes" "mg_room h m nodes"
    and "key \<noteq> 0" "length obj = unat (node_size m) - 4"
  shows "\<exists>m'. mg_map_set h (Some m) key (Some obj) = Inr (0, Some m') \<and> mg_inv m' \<and>
    mg_look m' = (mg_look m)(key \<mapsto> obj)"
  using mg_map_set_rep[OF assms] assms(1) by (auto simp: mg_inv_def mg_look_rep)

theorem mg_map_set_correct_witness:
  "\<exists>m'. mg_map_set sample_heap (Some sample_map) 5 (Some [9, 0, 0, 0]) = Inr (0, Some m') \<and>
     mg_look m' 5 = Some [9, 0, 0, 0]"
  using mg_map_set_correct[OF sample_rep, of 5 "[9, 0, 0, 0]"] by (auto simp: sample_map_def)

text \<open>\<open>mg_map_add\<close> of an unbound key binds it and nothing else; with no free node it
  doubles the table without losing an entry, and where the allocator refuses the larger block
  the code dereferences the \<open>NULL\<close> that \<open>realloc\<close> returned.\<close>
theorem mg_map_add_correct:
  assumes "mg_rep m nodes" "keys_distinct nodes" "key \<noteq> 0" "key \<notin> fst ` set nodes"
    and "length obj = unat (node_size m) - 4"
  shows "(mg_room h m nodes \<longrightarrow>
      (\<exists>m'. mg_map_add h (Some m) key (Some obj) = Inr (0, Some m') \<and> mg_inv m' \<and>
        mg_look m' = (mg_look m)(key \<mapsto> obj))) \<and>
    (0 \<notin> fst ` set nodes \<longrightarrow> \<not> grants h (node_size m * mcount m * 2) \<longrightarrow>
      mg_map_add h (Some m) key (Some obj) = Inl Null_Deref)"
proof (intro conjI impI)
  assume "mg_room h m nodes"
  from mg_map_add_rep[OF assms(1,2) this assms(3-5)] assms(1)
  show "\<exists>m'. mg_map_add h (Some m) key (Some obj) = Inr (0, Some m') \<and> mg_inv m' \<and>
      mg_look m' = (mg_look m)(key \<mapsto> obj)"
    by (auto simp: mg_look_rep intro: mg_invI)
qed (rule mg_map_add_no_room[OF assms(1) _ _ assms(3)])

theorem mg_map_add_correct_witness:
  "\<exists>m'. mg_map_add sample_heap (Some sample_map) 6 (Some [9, 0, 0, 0]) = Inr (0, Some m') \<and>
     mg_look m' 6 = Some [9, 0, 0, 0] \<and> mg_look m' 5 = Some [1, 0, 0, 0]"
proof -
  have "(6 :: u32) \<notin> fst ` set sample_nodes" by (simp add: sample_nodes_def)
  from mg_map_add_correct[OF sample_rep(1,2) _ this, of "[9, 0, 0, 0]" sample_heap] sample_rep(1,3)
  show ?thesis by (auto simp: sample_map_def[THEN arg_cong[where f = node_size]] mg_look_rep nodes_map_def sample_nodes_def)
qed

text \<open>\<open>mg_map_del\<close> unbinds its key and no other, and succeeds on an unbound key too.\<close>
theorem mg_map_del_correct:
  assumes "mg_rep m nodes" "keys_distinct nodes" "key \<noteq> 0"
  shows "\<exists>m'. mg_map_del (Some m) key = Inr (0, Some m') \<and> mg_inv m' \<and>
    mg_look m' = (mg_look m)(key := None)"
  using mg_map_del_rep[OF assms] assms(1) by (auto simp: mg_inv_def mg_look_rep)

theorem mg_map_del_correct_witness:
  "\<exists>m'. mg_map_del (Some sample_map) 5 = Inr (0, Some m') \<and> mg_look m' 5 = None"
  using mg_map_del_correct[OF sample_rep(1,2), of 5] by auto

text \<open>A table initialised by \<open>mg_map_init\<close> and filled by insertions of distinct keys
  looks up exactly the inserted entries, however often it grew on the way.\<close>
theorem mg_table_load:
  assumes "mdat m = None" "vs \<noteq> 0" "ic \<noteq> 0" "(unat vs + 4) * unat ic < 2 ^ 64" "grants h ((vs + 4) * ic)"
    and "distinct (map fst kvs)"
  shows "\<exists>m0. mg_map_init h (Some m) vs ic = Inr (0, Some m0) \<and>
    (\<forall>m'. mg.add_all h m0 kvs = Some m' \<longrightarrow> mg_inv m' \<and> mg_look m' = map_of kvs)"
proof -
  from mg_map_init_rep[OF assms(1-5)] obtain m0 where
    m0: "mg_map_init h (Some m) vs ic = Inr (0, Some m0)" "mg_rep m0 (free_nodes (unat vs + 4) (unat ic))"
    by blast
  have inv: "mg_inv m0" and look: "mg_look m0 = Map.empty"
    using m0(2) mg_invI[OF m0(2)]
    by (auto simp: mg_look_rep nodes_map_def map_of_free_nodes fun_eq_iff keys_distinct_free_nodes)
  from mg.look_add_all[OF inv assms(6)] look m0(1) show ?thesis by auto
qed

theorem mg_table_load_witness:
  "\<exists>m0. mg_map_init sample_heap (Some \<lparr>mcount = 0, node_size = 0, mdat = None\<rparr>) 4 1 = Inr (0, Some m0) \<and>
    (\<forall>m'. mg.add_all sample_heap m0 [(16, [1, 0, 0, 0]), (17, [2, 0, 0, 0])] = Some m' \<longrightarrow>
      mg_look m' 17 = Some [2, 0, 0, 0] \<and> mg_look m' 18 = None)"
proof -
  let ?m = "\<lparr>mcount = 0, node_size = 0, mdat = None\<rparr>"
  from mg_table_load[of ?m 4 1 sample_heap "[(16, [1, 0, 0, 0]), (17, [2, 0, 0, 0])]"]
  show ?thesis by (auto simp: sample_heap_def)
qed

text \<open>\<open>mg_map_cleanup\<close> leaves \<open>data\<close> pointing at the freed block: a second clean-up
  frees it again, and the table can never be initialised anew.\<close>
theorem mg_map_cleanup_dangling:
  assumes "mdat m \<noteq> None"
  shows "\<exists>m'. mg_map_cleanup False (Some m) = Inr (0, True, Some m') \<and>
    mg_map_cleanup True (Some m') = Inl Bad_Free \<and>
    (\<forall>h vs ic. vs \<noteq> 0 \<longrightarrow> ic \<noteq> 0 \<longrightarrow> mg_map_init h (Some m') vs ic = Inr (-20, Some m')) \<and>
    (\<forall>k. mg_map_get (Some m') k = Inr None)"
  using assms by (auto simp: mg_map_cleanup_def mg_map_init_def mg_map_get_def)

theorem mg_map_cleanup_dangling_witness:
  "\<exists>m'. mg_map_cleanup False (Some sample_map) = Inr (0, True, Some m') \<and>
    mg_map_cleanup True (Some m') = Inl Bad_Free"
  using mg_map_cleanup_dangling[of sample_map] by (auto simp: sample_map_def)

end
