(* ===== verification/Memtype.thy ===== *)
theory Memtype
  imports Prelude
begin

text \<open>
  The memory types of \<open>opera-v2/memory.c\<close> and \<open>memory.h\<close>: a table of allocation and
  release functions through which the queues get their buffers. What \<open>malloc\<close>,
  \<open>mmap\<close> and \<open>munmap\<close> answer is a parameter. A pointer result distinguishes \<open>NULL\<close>
  from \<open>MAP_FAILED\<close>, the value \<open>(void *)-1\<close> by which \<open>mmap\<close> reports failure.
\<close>

datatype alloc_result = Null_Ptr | Map_Failed | Block

datatype memtype_flags = MEMORY_MMAP | MEMORY_DMA | MEMORY_HUGEPAGE | MEMORY_HEAP

fun flag_value :: "memtype_flags \<Rightarrow> int" where
  "flag_value MEMORY_MMAP = 1"
| "flag_value MEMORY_DMA = 2"
| "flag_value MEMORY_HUGEPAGE = 4"
| "flag_value MEMORY_HEAP = 8"

record memtype =
  mt_name :: string
  mt_flags :: int
  mt_alignment :: nat
  mt_alloc :: "(u64 \<Rightarrow> alloc_result) option"
  mt_dealloc :: "(u64 \<Rightarrow> int) option"

text \<open>The answers of the system: \<open>malloc\<close> either grants or returns \<open>NULL\<close>, \<open>mmap\<close> either maps or fails.\<close>

record sys_mem =
  malloc_grants :: "u64 \<Rightarrow> bool"
  mmap_grants :: "u64 \<Rightarrow> bool"
  munmap_result :: "u64 \<Rightarrow> int"

definition memory_alloc :: "memtype \<Rightarrow> u64 \<Rightarrow> alloc_result res" where
  "memory_alloc m len = (case mt_alloc m of None \<Rightarrow> Inl Null_Deref | Some f \<Rightarrow> Inr (f len))"

definition memory_free :: "memtype \<Rightarrow> u64 \<Rightarrow> int res" where
  "memory_free m len = (case mt_dealloc m of None \<Rightarrow> Inl Null_Deref | Some f \<Rightarrow> Inr (f len))"

definition memory_heap_alloc :: "sys_mem \<Rightarrow> u64 \<Rightarrow> alloc_result" where
  "memory_heap_alloc s len = (if malloc_grants s len then Block else Null_Ptr)"

definition memory_heap_dealloc :: "u64 \<Rightarrow> int" where
  "memory_heap_dealloc len = 0"

definition memory_hugepage_alloc :: "sys_mem \<Rightarrow> u64 \<Rightarrow> alloc_result" where
  "memory_hugepage_alloc s len = (if mmap_grants s len then Block else Map_Failed)"

definition memory_hugepage_dealloc :: "sys_mem \<Rightarrow> u64 \<Rightarrow> int" where
  "memory_hugepage_dealloc s len = munmap_result s len"

definition memtype_heap :: "sys_mem \<Rightarrow> memtype" where
  "memtype_heap s = \<lparr>mt_name = ''heap'', mt_flags = flag_value MEMORY_HEAP, mt_alignment = 1,
     mt_alloc = Some (memory_heap_alloc s), mt_dealloc = Some memory_heap_dealloc\<rparr>"

definition memtype_hugepage :: "sys_mem \<Rightarrow> memtype" where
  "memtype_hugepage s = \<lparr>mt_name = ''mmap_hugepages'',
     mt_flags = flag_value MEMORY_MMAP + flag_value MEMORY_HUGEPAGE, mt_alignment = 2 ^ 21,
     mt_alloc = Some (memory_hugepage_alloc s), mt_dealloc = Some (memory_hugepage_dealloc s)\<rparr>"

definition memtype_dma :: memtype where
  "memtype_dma = \<lparr>mt_name = ''dma'', mt_flags = flag_value MEMORY_DMA + flag_value MEMORY_MMAP,
     mt_alignment = 2 ^ 12, mt_alloc = None, mt_dealloc = None\<rparr>"

lemma memory_alloc_heap [simp]:
  "memory_alloc (memtype_heap s) len = Inr (if malloc_grants s len then Block else Null_Ptr)"
  by (simp add: memory_alloc_def memtype_heap_def memory_heap_alloc_def)

lemma memory_alloc_hugepage [simp]:
  "memory_alloc (memtype_hugepage s) len = Inr (if mmap_grants s len then Block else Map_Failed)"
  by (simp add: memory_alloc_def memtype_hugepage_def memory_hugepage_alloc_def)

lemma memory_alloc_dma [simp]: "memory_alloc memtype_dma len = Inl Null_Deref"
  by (simp add: memory_alloc_def memtype_dma_def)

lemma memory_free_heap [simp]: "memory_free (memtype_heap s) len = Inr 0"
  by (simp add: memory_free_def memtype_heap_def memory_heap_dealloc_def)

end
