(* ===== verification/Mpmc_Queue.thy ===== *)
theory Mpmc_Queue
  imports Memtype
begin

text \<open>
  The bounded multi-producer multi-consumer queue of \<open>opera-v2/mpmc_queue.c\<close>, run by one
  thread at a time: its state, its operations with the code's 64-bit positions (which wrap
  around), and the proof that it is a bounded first-in first-out queue. The theory
  \<open>Mpmc_Conc\<close> treats the interleavings of several threads.
\<close>

section \<open>State\<close>

record 'a mpmc_queue_cell =
  sequence :: u64
  qdata :: "'a option" \<comment> \<open>\<open>None\<close> until the first store\<close>

record 'a mpmc_queue =
  qmem :: memtype
  buffer_mask :: u64
  buffer :: "'a mpmc_queue_cell list"
  tail :: u64
  head :: u64

section \<open>Operations\<close>

text \<open>\<open>sizeof(q->buffer[0])\<close> is 16: an atomic 8-byte counter and a pointer.\<close>

definition mpmc_queue_init :: "u64 \<Rightarrow> memtype \<Rightarrow> (int \<times> 'a mpmc_queue option) res" where
  "mpmc_queue_init sz mem =
     (if sz < 2 \<or> sz AND (sz - 1) \<noteq> 0 then Inr (-1, None)
      else rbind (memory_alloc mem (16 * sz)) (\<lambda>p. case p of
          Null_Ptr \<Rightarrow> Inr (-2, None)
        | Map_Failed \<Rightarrow> Inl Out_Of_Bounds
        | Block \<Rightarrow> Inr (0, Some \<lparr>qmem = mem, buffer_mask = sz - 1,
              buffer = map (\<lambda>i. \<lparr>sequence = of_nat i, qdata = None\<rparr>) [0..<unat sz],
              tail = 0, head = 0\<rparr>)))"

text \<open>The length passed to the release function uses \<open>sizeof(sizeof(...))\<close>, which is 8.\<close>

definition mpmc_queue_destroy :: "'a mpmc_queue \<Rightarrow> int res" where
  "mpmc_queue_destroy q = memory_free (qmem q) ((buffer_mask q + 1) * 8)"

definition mpmc_queue_available :: "'a mpmc_queue \<Rightarrow> u64" where
  "mpmc_queue_available q = tail q - head q"

text \<open>
  \<open>diff = (intptr_t) seq - (intptr_t) pos\<close>: the conversions keep the bits, but the subtraction is
  one of signed numbers, which must not overflow.
\<close>

definition c_intptr :: "int \<Rightarrow> int res" where
  "c_intptr x = guard_res Signed_Overflow (- (2 ^ 63) \<le> x \<and> x < 2 ^ 63) (Inr x)"

definition pos_diff :: "u64 \<Rightarrow> u64 \<Rightarrow> int res" where
  "pos_diff s pos = c_intptr (sint s - sint pos)"

text \<open>
  The retry loop of \<open>mpmc_queue_push\<close>, from a loaded position \<open>pos\<close>. \<open>None\<close> is a loop that
  never ends. The weak compare-and-exchange may fail although \<open>tail\<close> is \<open>pos\<close>: \<open>ws\<close> says of
  the first exchanges whether they do; the later ones do not.
\<close>

partial_function (option) push_loop ::
    "bool list \<Rightarrow> 'a mpmc_queue \<Rightarrow> 'a \<Rightarrow> u64 \<Rightarrow> (int \<times> 'a mpmc_queue) res option" where
  "push_loop ws q x pos =
     (case arr_get (buffer q) (unat (pos AND buffer_mask q)) of
        Inl e \<Rightarrow> Some (Inl e)
      | Inr c \<Rightarrow>
        (case pos_diff (sequence c) pos of
           Inl e \<Rightarrow> Some (Inl e)
         | Inr diff \<Rightarrow>
             if diff = 0 then
               (if tail q = pos \<and> (ws = [] \<or> \<not> hd ws)
                then Some (Inr (1, q\<lparr>tail := pos + 1,
                       buffer := (buffer q)[unat (pos AND buffer_mask q) :=
                         \<lparr>sequence = pos + 1, qdata = Some x\<rparr>]\<rparr>))
                else push_loop (tl ws) q x (tail q))
             else if diff < 0 then Some (Inr (0, q))
             else push_loop ws q x (tail q)))"

definition weak_push :: "bool list \<Rightarrow> 'a mpmc_queue \<Rightarrow> 'a \<Rightarrow> (int \<times> 'a mpmc_queue) res option" where
  "weak_push ws q x = push_loop ws q x (tail q)"

text \<open>
  The call as the threads use it: no exchange fails without a reason. For a call that nobody
  disturbs this is no restriction (\<open>holds_push\<close>).
\<close>

definition mpmc_queue_push :: "'a mpmc_queue \<Rightarrow> 'a \<Rightarrow> (int \<times> 'a mpmc_queue) res option" where
  "mpmc_queue_push q x = weak_push [] q x"

partial_function (option) pull_loop ::
    "bool list \<Rightarrow> 'a mpmc_queue \<Rightarrow> u64 \<Rightarrow> (int \<times> 'a option \<times> 'a mpmc_queue) res option" where
  "pull_loop ws q pos =
     (case arr_get (buffer q) (unat (pos AND buffer_mask q)) of
        Inl e \<Rightarrow> Some (Inl e)
      | Inr c \<Rightarrow>
        (case pos_diff (sequence c) (pos + 1) of
           Inl e \<Rightarrow> Some (Inl e)
         | Inr diff \<Rightarrow>
             if diff = 0 then
               (if head q = pos \<and> (ws = [] \<or> \<not> hd ws)
                then Some (Inr (1, qdata c, q\<lparr>head := pos + 1,
                       buffer := (buffer q)[unat (pos AND buffer_mask q) :=
                         c\<lparr>sequence := pos + buffer_mask q + 1\<rparr>]\<rparr>))
                else pull_loop (tl ws) q (head q))
             else if diff < 0 then Some (Inr (0, None, q))
             else pull_loop ws q (head q)))"

definition weak_pull :: "bool list \<Rightarrow> 'a mpmc_queue \<Rightarrow> (int \<times> 'a option \<times> 'a mpmc_queue) res option" where
  "weak_pull ws q = pull_loop ws q (head q)"

definition mpmc_queue_pull :: "'a mpmc_queue \<Rightarrow> (int \<times> 'a option \<times> 'a mpmc_queue) res option" where
  "mpmc_queue_pull q = weak_pull [] q"

text \<open>The batch operations stop at the first refusal and return how many succeeded.\<close>

fun mpmc_queue_push_many :: "'a mpmc_queue \<Rightarrow> 'a list \<Rightarrow> (nat \<times> 'a mpmc_queue) res option" where
  "mpmc_queue_push_many q [] = Some (Inr (0, q))"
| "mpmc_queue_push_many q (x # xs) =
     (case mpmc_queue_push q x of
        None \<Rightarrow> None
      | Some (Inl e) \<Rightarrow> Some (Inl e)
      | Some (Inr (rc, q')) \<Rightarrow>
          if rc = 0 then Some (Inr (0, q'))
          else (case mpmc_queue_push_many q' xs of
              Some (Inr (n, q'')) \<Rightarrow> Some (Inr (Suc n, q''))
            | r \<Rightarrow> r))"

fun mpmc_queue_pull_many :: "'a mpmc_queue \<Rightarrow> nat \<Rightarrow> ('a option list \<times> 'a mpmc_queue) res option" where
  "mpmc_queue_pull_many q 0 = Some (Inr ([], q))"
| "mpmc_queue_pull_many q (Suc n) =
     (case mpmc_queue_pull q of
        None \<Rightarrow> None
      | Some (Inl e) \<Rightarrow> Some (Inl e)
      | Some (Inr (rc, x, q')) \<Rightarrow>
          if rc = 0 then Some (Inr ([], q'))
          else (case mpmc_queue_pull_many q' n of
              Some (Inr (xs, q'')) \<Rightarrow> Some (Inr (x # xs, q''))
            | r \<Rightarrow> r))"


section \<open>Positions and exchanges\<close>

lemma pos_diff_zero: "pos_diff s p = Inr d \<Longrightarrow> d = 0 \<longleftrightarrow> s = p"
  by (auto simp: pos_diff_def c_intptr_def guard_res_def signed_word_eqI split: if_splits)

lemma pos_diff_same [simp]: "pos_diff p p = Inr 0"
  by (simp add: pos_diff_def c_intptr_def guard_res_def)

lemma sint_of_int64: "- (2 ^ 63) \<le> y \<Longrightarrow> y < 2 ^ 63 \<Longrightarrow> sint (word_of_int y :: u64) = y"
  unfolding sint_sbintrunc' by (rule signed_take_bit_int_eq_self) simp_all

lemma sint_bounds64: "- (2 ^ 63) \<le> sint (p :: u64)" "sint (p :: u64) < 2 ^ 63"
  using sint_range_size[of p] by (simp_all add: word_size)

lemma two_pow_64: "(2 :: u64) ^ 64 = 0"
  by simp

text \<open>Signed and unsigned readings agree below the largest signed number.\<close>

lemma sint_below63:
  fixes w :: u64
  assumes "unat w < 2 ^ 63"
  shows "sint w = uint w" "uint w < 2 ^ 63"
proof -
  have "int (unat w) < int (2 ^ 63)" using assms by (simp only: of_nat_less_iff)
  then show u: "uint w < 2 ^ 63" by simp
  have "signed_take_bit 63 (uint w) = uint w"
    by (rule signed_take_bit_int_eq_self[OF order_trans[OF _ uint_ge_0] u]) simp
  then show "sint w = uint w" by (simp add: sint_uint)
qed

lemma pos_diff_small:
  assumes "unat s < 2 ^ 63" "unat p < 2 ^ 63"
  shows "pos_diff s p = Inr (uint s - uint p)"
proof -
  have "- (2 ^ 63) \<le> uint s - uint p" "uint s - uint p < 2 ^ 63"
    using sint_below63(2)[OF assms(1)] sint_below63(2)[OF assms(2)] uint_ge_0[of s] uint_ge_0[of p] by linarith+
  then show ?thesis
    using sint_below63(1)[OF assms(1)] sint_below63(1)[OF assms(2)] by (simp add: pos_diff_def c_intptr_def guard_res_def)
qed

text \<open>The signed reading of a later position.\<close>

lemma sint_later:
  assumes "n \<le> 2 ^ 62"
  shows "sint (p + of_nat n :: u64) = (if sint p + int n < 2 ^ 63 then sint p + int n else sint p + int n - 2 ^ 64)"
proof -
  have n: "int n \<le> 2 ^ 62" using assms by simp
  have a: "sint (p + of_nat n) = y" if "word_of_int y = p + of_nat n" "- (2 ^ 63) \<le> y" "y < 2 ^ 63" for y
    using sint_of_int64[OF that(2,3)] that(1) by simp
  have "word_of_int (sint p + int n) = p + of_nat n" by simp
  moreover have "word_of_int (sint p + int n - 2 ^ 64) = p + of_nat n - 2 ^ 64" by simp
  then have "word_of_int (sint p + int n - 2 ^ 64) = p + of_nat n" by (simp only: two_pow_64 diff_zero)
  ultimately show ?thesis
    using a[of "sint p + int n"] a[of "sint p + int n - 2 ^ 64"] sint_bounds64[of p] n by (simp split: if_splits)
qed

text \<open>
  A full queue compares the position of its oldest element with the tail, an empty one a free
  position with the next one. These differences overflow exactly when the largest signed number
  lies between the two.
\<close>

definition full_overflows :: "nat \<Rightarrow> u64 \<Rightarrow> bool" where
  "full_overflows k h \<longleftrightarrow> 2 ^ 63 - 2 ^ k \<le> sint h \<and> sint h < 2 ^ 63 - 1"

definition empty_overflows :: "u64 \<Rightarrow> bool" where
  "empty_overflows h \<longleftrightarrow> sint h = 2 ^ 63 - 1"

lemma pos_diff_full:
  assumes "1 \<le> k" "k \<le> 62"
  shows "pos_diff (h + 1) (h + 2 ^ k) = (if full_overflows k h then Inl Signed_Overflow else Inr (1 - 2 ^ k))"
proof -
  have k: "(2::int) \<le> 2 ^ k" "(2::int) ^ k \<le> 2 ^ 62"
    using power_increasing[of 1 k "2::int"] power_increasing[of k 62 "2::int"] assms by simp_all
  have kn: "(2::nat) ^ k \<le> 2 ^ 62" by (rule power_increasing) (use assms in simp_all)
  have "sint (h + 2 ^ k) = (if sint h + 2 ^ k < 2 ^ 63 then sint h + 2 ^ k else sint h + 2 ^ k - 2 ^ 64)"
    using sint_later[OF kn, of h] by simp
  moreover have "sint (h + 1) = (if sint h + 1 < 2 ^ 63 then sint h + 1 else sint h + 1 - 2 ^ 64)"
    using sint_later[of 1 h] by simp
  ultimately show ?thesis using k sint_bounds64[of h]
    by (auto simp: pos_diff_def c_intptr_def guard_res_def full_overflows_def)
qed

lemma pos_diff_empty: "pos_diff h (h + 1) = (if empty_overflows h then Inl Signed_Overflow else Inr (-1))"
proof -
  have "sint (h + 1) = (if sint h + 1 < 2 ^ 63 then sint h + 1 else sint h + 1 - 2 ^ 64)"
    using sint_later[of 1 h] by simp
  then show ?thesis using sint_bounds64[of h]
    by (auto simp: pos_diff_def c_intptr_def guard_res_def empty_overflows_def)
qed

section \<open>The queue holds a list\<close>

text \<open>
  \<open>holds q k xs\<close>: the queue has \<open>2 ^ k\<close> cells and contains \<open>xs\<close>, oldest first. The cell
  of the \<open>i\<close>-th element carries its position plus one; the cells behind the tail carry
  the position at which they will next be written.
\<close>

definition slot :: "nat \<Rightarrow> u64 \<Rightarrow> nat" where
  "slot k p = unat p mod 2 ^ k"

definition holds :: "'a mpmc_queue \<Rightarrow> nat \<Rightarrow> 'a list \<Rightarrow> bool" where
  "holds q k xs \<longleftrightarrow> 1 \<le> k \<and> k \<le> 62 \<and> buffer_mask q = 2 ^ k - 1 \<and> length (buffer q) = 2 ^ k \<and>
     length xs \<le> 2 ^ k \<and> tail q = head q + of_nat (length xs) \<and>
     (\<forall>i < length xs. sequence (buffer q ! slot k (head q + of_nat i)) = head q + of_nat i + 1 \<and>
        qdata (buffer q ! slot k (head q + of_nat i)) = Some (xs ! i)) \<and>
     (\<forall>i. length xs \<le> i \<longrightarrow> i < 2 ^ k \<longrightarrow>
        sequence (buffer q ! slot k (head q + of_nat i)) = head q + of_nat i)"

lemma slot_less [simp]: "slot k p < 2 ^ k"
  by (simp add: slot_def)

lemma slot_mask: "k \<le> 62 \<Longrightarrow> unat (p AND (2 ^ k - 1)) = slot k p"
  by (simp add: slot_def unat_and_mask)

lemma slot_add: "k \<le> 62 \<Longrightarrow> slot k (p + of_nat i) = (unat p + i) mod 2 ^ k"
  unfolding slot_def by (rule unat_add_of_nat_mod_pow2) simp

text \<open>Distinct offsets below the size use distinct cells, and the size itself wraps to the first.\<close>

lemma slot_inj:
  assumes "k \<le> 62" "i < 2 ^ k" "j < 2 ^ k" "slot k (p + of_nat i) = slot k (p + of_nat j)"
  shows "i = j"
proof -
  have "(unat p + i) mod 2 ^ k = (unat p + j) mod 2 ^ k"
    using assms(1,4) by (simp only: slot_add)
  then show ?thesis using assms(2,3) by (rule mod_shift_inj)
qed

lemma slot_wrap: "k \<le> 62 \<Longrightarrow> slot k (p + 2 ^ k) = slot k p"
  using slot_add[of k p "2 ^ k"] by (simp add: slot_def)


lemma holds_index [simp]:
  "holds q k xs \<Longrightarrow> unat (p AND buffer_mask q) = slot k p"
  "holds q k xs \<Longrightarrow> slot k p < length (buffer q)"
  by (auto simp: holds_def slot_mask)

lemma holds_tail_cell:
  assumes "holds q k xs" "length xs < 2 ^ k"
  shows "sequence (buffer q ! slot k (tail q)) = tail q"
  using assms by (auto simp: holds_def)

lemma sint_neg_small:
  assumes "0 < n" "n \<le> 2 ^ 63"
  shows "sint (- of_nat n :: u64) < 0" "- of_nat n \<noteq> (0 :: u64)"
proof -
  have "sint (word_of_int (- int n) :: u64) = signed_take_bit 63 (- int n)"
    by (simp only: sint_sbintrunc') simp
  also have "\<dots> = - int n"
    using assms by (intro signed_take_bit_int_eq_self) auto
  finally have "sint (word_of_int (- int n) :: u64) = - int n" .
  then show "sint (- of_nat n :: u64) < 0" using assms by simp
  then show "- of_nat n \<noteq> (0 :: u64)" by (metis less_irrefl signed_0)
qed

text \<open>
  A push with room appends. A push on a full queue is refused and changes nothing, unless the
  comparison overflows.
\<close>

lemma holds_weak_push:
  assumes h: "holds q k xs" and room: "length xs < 2 ^ k"
  shows "\<exists>q'. (\<forall>ws. weak_push ws q x = Some (Inr (1, q'))) \<and> holds q' k (xs @ [x]) \<and> qmem q' = qmem q"
proof -
  let ?q' = "q\<lparr>tail := tail q + 1, buffer := (buffer q)[slot k (tail q) :=
      \<lparr>sequence = tail q + 1, qdata = Some x\<rparr>]\<rparr>"
  have k: "k \<le> 62" and tl: "tail q = head q + of_nat (length xs)" using h by (auto simp: holds_def)
  have "push_loop ws q x (tail q) = Some (Inr (1, ?q'))" for ws
    using h holds_tail_cell[OF h room] by (induction ws) (simp_all add: push_loop.simps)
  then have "\<forall>ws. weak_push ws q x = Some (Inr (1, ?q'))" by (simp add: weak_push_def)
  moreover have "holds ?q' k (xs @ [x])"
  proof -
    have ne: "slot k (head q + of_nat i) \<noteq> slot k (tail q)" if "i < 2 ^ k" "i \<noteq> length xs" for i
      using slot_inj[OF k that(1) room, of "head q"] that(2) tl by auto
    show ?thesis
      unfolding holds_def
    proof (intro conjI allI impI)
      fix i assume i: "i < length (xs @ [x])"
      show "sequence (buffer ?q' ! slot k (head ?q' + of_nat i)) = head ?q' + of_nat i + 1"
        "qdata (buffer ?q' ! slot k (head ?q' + of_nat i)) = Some ((xs @ [x]) ! i)"
        using h i ne[of i] room tl by (cases "i = length xs"; auto simp: holds_def nth_append)+
    next
      fix i assume i: "length (xs @ [x]) \<le> i" "i < 2 ^ k"
      then show "sequence (buffer ?q' ! slot k (head ?q' + of_nat i)) = head ?q' + of_nat i"
        using h ne[of i] by (auto simp: holds_def)
    qed (use h room tl in \<open>auto simp: holds_def\<close>)
  qed
  ultimately show ?thesis by fastforce
qed

lemma holds_weak_push_full:
  assumes h: "holds q k xs" and full: "length xs = 2 ^ k"
  shows "weak_push ws q x = Some (if full_overflows k (head q) then Inl Signed_Overflow else Inr (0, q))"
proof -
  have k: "k \<le> 62" "1 \<le> k" and tl: "tail q = head q + 2 ^ k" using h full by (auto simp: holds_def)
  have "slot k (tail q) = slot k (head q)" using tl k by (simp add: slot_wrap)
  moreover have "sequence (buffer q ! slot k (head q)) = head q + 1"
    using h full by (auto simp: holds_def dest!: spec[of _ "0::nat"])
  ultimately have "pos_diff (sequence (buffer q ! slot k (tail q))) (tail q) =
      (if full_overflows k (head q) then Inl Signed_Overflow else Inr (1 - 2 ^ k))"
    unfolding tl by (simp add: pos_diff_full[OF k(2,1)])
  moreover have "(2::int) \<le> 2 ^ k" using power_increasing[of 1 k "2::int"] k(2) by simp
  ultimately show ?thesis using h by (simp add: weak_push_def push_loop.simps)
qed

lemma holds_push:
  "holds q k xs \<Longrightarrow> length xs < 2 ^ k \<Longrightarrow>
    \<exists>q'. mpmc_queue_push q x = Some (Inr (1, q')) \<and> holds q' k (xs @ [x]) \<and> qmem q' = qmem q"
  using holds_weak_push[of q k xs x] by (auto simp: mpmc_queue_push_def)

lemma holds_push_full:
  "holds q k xs \<Longrightarrow> length xs = 2 ^ k \<Longrightarrow>
    mpmc_queue_push q x = Some (if full_overflows k (head q) then Inl Signed_Overflow else Inr (0, q))"
  by (simp add: mpmc_queue_push_def holds_weak_push_full)

text \<open>
  A pull takes the oldest element. On an empty queue it is refused and changes nothing, unless the
  comparison overflows.
\<close>

lemma holds_weak_pull:
  assumes h: "holds q k (x # xs)"
  shows "\<exists>q'. (\<forall>ws. weak_pull ws q = Some (Inr (1, Some x, q'))) \<and> holds q' k xs \<and> qmem q' = qmem q"
proof -
  let ?c = "buffer q ! slot k (head q)"
  let ?q' = "q\<lparr>head := head q + 1, buffer := (buffer q)[slot k (head q) :=
      ?c\<lparr>sequence := head q + buffer_mask q + 1\<rparr>]\<rparr>"
  have k: "k \<le> 62" and mask: "buffer_mask q + 1 = 2 ^ k" using h by (auto simp: holds_def)
  have c: "sequence ?c = head q + 1" "qdata ?c = Some x"
    using h by (auto simp: holds_def dest!: spec[of _ "0::nat"])
  have "pull_loop ws q (head q) = Some (Inr (1, Some x, ?q'))" for ws
    using h c by (induction ws) (simp_all add: pull_loop.simps)
  then have "\<forall>ws. weak_pull ws q = Some (Inr (1, Some x, ?q'))" by (simp add: weak_pull_def)
  moreover have "holds ?q' k xs"
  proof -
    have ne: "slot k (head q + 1 + of_nat i) \<noteq> slot k (head q)" if "Suc i < 2 ^ k" for i
      using slot_inj[OF k that, of 0 "head q"] by (auto simp: algebra_simps)
    note ne' = ne[THEN not_sym]
    have last: "slot k (head q + 1 + of_nat i) = slot k (head q)" if "Suc i = 2 ^ k" for i
    proof -
      have "1 + of_nat i = (2 ^ k :: u64)" using arg_cong[OF that, of "of_nat :: nat \<Rightarrow> u64"] by simp
      then have "head q + 1 + of_nat i = head q + 2 ^ k" by (simp only: add.assoc)
      then show ?thesis by (simp only: slot_wrap[OF k])
    qed
    have el: "sequence (buffer q ! slot k (head q + 1 + of_nat i)) = head q + 1 + of_nat i + 1 \<and>
        qdata (buffer q ! slot k (head q + 1 + of_nat i)) = Some (xs ! i)" if "i < length xs" for i
    proof -
      have "Suc i < length (x # xs)" using that by simp
      with h show ?thesis unfolding holds_def by (auto simp: algebra_simps dest!: spec[of _ "Suc i"])
    qed
    have fr: "sequence (buffer q ! slot k (head q + 1 + of_nat i)) = head q + 1 + of_nat i"
      if "length xs \<le> i" "Suc i < 2 ^ k" for i
      using h that unfolding holds_def by (auto simp: algebra_simps dest!: spec[of _ "Suc i"])
    have seq_last: "head q + buffer_mask q + 1 = head q + 1 + of_nat i" if "Suc i = 2 ^ k" for i
    proof -
      have "1 + of_nat i = (2 ^ k :: u64)" using arg_cong[OF that, of "of_nat :: nat \<Rightarrow> u64"] by simp
      with mask show ?thesis by (simp add: add.assoc)
    qed
    have len: "length xs < 2 ^ k" using h by (simp add: holds_def)
    show ?thesis
      unfolding holds_def
    proof (intro conjI allI impI)
      fix i assume i: "i < length xs"
      then have "Suc i < 2 ^ k" using h by (simp add: holds_def)
      with ne' el[OF i] show "sequence (buffer ?q' ! slot k (head ?q' + of_nat i)) = head ?q' + of_nat i + 1"
        "qdata (buffer ?q' ! slot k (head ?q' + of_nat i)) = Some (xs ! i)" by simp_all
    next
      fix i :: nat assume i: "length xs \<le> i" "i < 2 ^ k"
      show "sequence (buffer ?q' ! slot k (head ?q' + of_nat i)) = head ?q' + of_nat i"
      proof (cases "Suc i = 2 ^ k")
        case True
        with h last[OF True] seq_last[OF True] show ?thesis by simp
      next
        case False
        with i have "Suc i < 2 ^ k" by simp
        with ne' fr[OF i(1)] show ?thesis by simp
      qed
    qed (use h len in \<open>auto simp: holds_def algebra_simps\<close>)
  qed
  ultimately show ?thesis by fastforce
qed

lemma holds_weak_pull_empty:
  assumes h: "holds q k []"
  shows "weak_pull ws q = Some (if empty_overflows (head q) then Inl Signed_Overflow else Inr (0, None, q))"
proof -
  have "sequence (buffer q ! slot k (head q)) = head q"
    using h by (auto simp: holds_def dest!: spec[of _ "0::nat"])
  with h show ?thesis by (simp add: weak_pull_def pull_loop.simps pos_diff_empty)
qed

lemma holds_pull:
  "holds q k (x # xs) \<Longrightarrow> \<exists>q'. mpmc_queue_pull q = Some (Inr (1, Some x, q')) \<and> holds q' k xs \<and> qmem q' = qmem q"
  using holds_weak_pull[of q k x xs] by (auto simp: mpmc_queue_pull_def)

lemma holds_pull_empty:
  "holds q k [] \<Longrightarrow> mpmc_queue_pull q = Some (if empty_overflows (head q) then Inl Signed_Overflow else Inr (0, None, q))"
  by (simp add: mpmc_queue_pull_def holds_weak_pull_empty)

lemma holds_available:
  assumes "holds q k xs"
  shows "unat (mpmc_queue_available q) = length xs"
proof -
  have "length xs \<le> 2 ^ 62"
    using assms power_increasing[of k 62 "2::nat"] by (auto simp: holds_def)
  then have "unat (of_nat (length xs) :: u64) = length xs"
    by (simp only: unat_of_nat) simp
  with assms show ?thesis by (simp add: mpmc_queue_available_def holds_def)
qed


text \<open>A freshly initialised queue is empty.\<close>

lemma holds_init:
  assumes "1 \<le> k" "k \<le> 62"
  shows "holds \<lparr>qmem = mem, buffer_mask = 2 ^ k - 1,
    buffer = map (\<lambda>i. \<lparr>sequence = of_nat i, qdata = None\<rparr>) [0..<2 ^ k], tail = 0, head = 0\<rparr> k []"
  using assms by (auto simp: holds_def slot_def unat_of_nat_mod_pow2)

text \<open>
  A queue whose positions stay below the largest signed number: nothing it is asked overflows
  until as many elements as it has cells have been pulled.
\<close>

definition far_from_overflow :: "nat \<Rightarrow> 'a mpmc_queue \<Rightarrow> bool" where
  "far_from_overflow k q \<longleftrightarrow> sint (head q) + 2 ^ k < 2 ^ 63 - 1"

lemma not_full_overflows: "sint h + 2 ^ k < 2 ^ 63 - 1 \<Longrightarrow> \<not> full_overflows k h"
  by (simp add: full_overflows_def)

lemma push_keeps_head: "holds q k xs \<Longrightarrow> mpmc_queue_push q x = Some (Inr (r, q')) \<Longrightarrow> head q' = head q"
  by (cases "length xs < 2 ^ k")
    (use holds_push_full[of q k xs x] in \<open>auto simp: holds_def mpmc_queue_push_def weak_push_def push_loop.simps slot_mask split: if_splits\<close>)

lemma holds_push_many:
  assumes "holds q k xs" "far_from_overflow k q"
  shows "\<exists>q'. mpmc_queue_push_many q ys = Some (Inr (min (length ys) (2 ^ k - length xs), q')) \<and>
    holds q' k (xs @ take (2 ^ k - length xs) ys)"
  using assms
proof (induction ys arbitrary: q xs)
  case (Cons y ys)
  show ?case
  proof (cases "length xs < 2 ^ k")
    case True
    obtain q1 where q1: "mpmc_queue_push q y = Some (Inr (1, q1))" "holds q1 k (xs @ [y])"
      using holds_push[OF Cons.prems(1) True, of y] by blast
    have far: "far_from_overflow k q1" using push_keeps_head[OF Cons.prems(1) q1(1)] Cons.prems(2) by (simp add: far_from_overflow_def)
    have "2 ^ k - length xs = Suc (2 ^ k - Suc (length xs))" using True by simp
    with Cons.IH[OF q1(2) far] q1(1) show ?thesis by auto
  next
    case False
    with Cons.prems have "length xs = 2 ^ k" by (auto simp: holds_def)
    with holds_push_full[OF Cons.prems(1)] not_full_overflows Cons.prems show ?thesis by (auto simp: far_from_overflow_def)
  qed
qed simp

lemma pull_moves_head: "holds q k (x # xs) \<Longrightarrow> mpmc_queue_pull q = Some (Inr (r, v, q')) \<Longrightarrow> head q' = head q + 1"
  by (auto simp: holds_def mpmc_queue_pull_def weak_pull_def pull_loop.simps slot_mask dest!: spec[of _ "0::nat"])

lemma holds_pull_many:
  assumes "holds q k xs" "sint (head q) + int (length xs) < 2 ^ 63 - 1"
  shows "\<exists>q'. mpmc_queue_pull_many q n = Some (Inr (map Some (take n xs), q')) \<and> holds q' k (drop n xs)"
  using assms
proof (induction n arbitrary: q xs)
  case (Suc n)
  show ?case
  proof (cases xs)
    case Nil
    with Suc.prems holds_pull_empty[of q k] show ?thesis by (auto simp: empty_overflows_def)
  next
    case (Cons y ys)
    with Suc.prems obtain q1 where q1: "mpmc_queue_pull q = Some (Inr (1, Some y, q1))" "holds q1 k ys"
      using holds_pull[of q k y ys] by blast
    have "head q1 = head q + 1" using pull_moves_head[OF _ q1(1)] Suc.prems(1) Cons by blast
    then have "sint (head q1) = sint (head q) + 1" using sint_later[of 1 "head q"] Suc.prems(2) Cons by simp
    with Suc.IH[OF q1(2)] q1(1) Suc.prems(2) Cons show ?thesis by auto
  qed
qed simp

section \<open>The interface: a bounded queue\<close>

text \<open>
  What the forwarding threads use: push reports refusal, pull reports emptiness, and the
  number of waiting elements. The threads drain a queue in bursts; what a burst collects
  is proved here once. \<open>calm\<close> queues refuse without a fault.
\<close>

locale bounded_queue =
  fixes push :: "'q \<Rightarrow> 'a \<Rightarrow> bool \<times> 'q"
    and pull :: "'q \<Rightarrow> 'a option \<times> 'q"
    and waiting :: "'q \<Rightarrow> nat"
    and content :: "'q \<Rightarrow> 'a list"
    and capacity :: "'q \<Rightarrow> nat"
    and inv :: "'q \<Rightarrow> bool"
    and calm :: "'q \<Rightarrow> bool"
  assumes push_ok: "inv q \<Longrightarrow> length (content q) < capacity q \<Longrightarrow>
        \<exists>q'. push q x = (True, q') \<and> inv q' \<and> content q' = content q @ [x] \<and> capacity q' = capacity q \<and> (calm q \<longrightarrow> calm q')"
    and push_full: "inv q \<Longrightarrow> calm q \<Longrightarrow> length (content q) = capacity q \<Longrightarrow> push q x = (False, q)"
    and pull_ok: "inv q \<Longrightarrow> content q = x # xs \<Longrightarrow>
        \<exists>q'. pull q = (Some x, q') \<and> inv q' \<and> content q' = xs \<and> capacity q' = capacity q"
    and pull_empty: "inv q \<Longrightarrow> calm q \<Longrightarrow> content q = [] \<Longrightarrow> pull q = (None, q)"
    and waiting_length: "inv q \<Longrightarrow> waiting q = length (content q)"
    and content_bounded: "inv q \<Longrightarrow> length (content q) \<le> capacity q"
begin

text \<open>\<open>while (available && n_collected < budget) pull\<close>, returning what was pulled.\<close>

fun drain :: "'q \<Rightarrow> nat \<Rightarrow> 'a list \<times> 'q" where
  "drain q 0 = ([], q)"
| "drain q (Suc n) =
     (if waiting q = 0 then ([], q)
      else (case pull q of
          (Some x, q') \<Rightarrow> (let (xs, q'') = drain q' n in (x # xs, q''))
        | (None, q') \<Rightarrow> ([], q')))"

lemma drain_content:
  assumes "inv q"
  shows "\<exists>q'. drain q n = (take n (content q), q') \<and> inv q' \<and> content q' = drop n (content q) \<and>
    capacity q' = capacity q"
  using assms
proof (induction n arbitrary: q)
  case (Suc n)
  show ?case
  proof (cases "content q")
    case Nil
    with Suc.prems show ?thesis by (simp add: waiting_length)
  next
    case (Cons x xs)
    from pull_ok[OF Suc.prems Cons] obtain q1 where
      q1: "pull q = (Some x, q1)" "inv q1" "content q1 = xs" "capacity q1 = capacity q" by blast
    from Suc.IH[OF q1(2)] q1 Cons Suc.prems show ?thesis
      by (auto simp: waiting_length)
  qed
qed simp

text \<open>Nothing pushed is lost or reordered by any sequence of pushes followed by a full drain.\<close>

fun push_list :: "'q \<Rightarrow> 'a list \<Rightarrow> 'q" where
  "push_list q [] = q"
| "push_list q (x # xs) = push_list (snd (push q x)) xs"

lemma push_list_content:
  assumes "inv q" "calm q"
  shows "inv (push_list q xs) \<and> capacity (push_list q xs) = capacity q \<and>
    content (push_list q xs) = content q @ take (capacity q - length (content q)) xs"
  using assms
proof (induction xs arbitrary: q)
  case (Cons x xs)
  show ?case
  proof (cases "length (content q) < capacity q")
    case True
    from push_ok[OF Cons.prems(1) True, of x] Cons.prems(2) obtain q' where
      q': "push q x = (True, q')" "inv q'" "content q' = content q @ [x]" "capacity q' = capacity q" "calm q'"
      by blast
    have "capacity q - length (content q) = Suc (capacity q - Suc (length (content q)))"
      using True by simp
    with Cons.IH[OF q'(2,5)] q' show ?thesis by auto
  next
    case False
    with content_bounded[OF Cons.prems(1)] have "length (content q) = capacity q" by simp
    with Cons push_full[OF Cons.prems this, of x] show ?thesis by simp
  qed
qed simp

end

definition q_push :: "'a mpmc_queue \<Rightarrow> 'a \<Rightarrow> bool \<times> 'a mpmc_queue" where
  "q_push q x = (case mpmc_queue_push q x of Some (Inr (rc, q')) \<Rightarrow> (rc \<noteq> 0, q') | _ \<Rightarrow> (False, q))"

definition q_pull :: "'a mpmc_queue \<Rightarrow> 'a option \<times> 'a mpmc_queue" where
  "q_pull q = (case mpmc_queue_pull q of Some (Inr (rc, x, q')) \<Rightarrow> (x, q') | _ \<Rightarrow> (None, q))"

definition q_content :: "'a mpmc_queue \<Rightarrow> 'a list" where
  "q_content q = map (\<lambda>i. the (qdata (buffer q ! unat ((head q + of_nat i) AND buffer_mask q))))
     [0..<unat (mpmc_queue_available q)]"

definition q_inv :: "'a mpmc_queue \<Rightarrow> bool" where
  "q_inv q \<longleftrightarrow> (\<exists>k xs. holds q k xs)"

lemma q_content_holds: "holds q k xs \<Longrightarrow> q_content q = xs"
  by (auto simp: q_content_def holds_available intro!: nth_equalityI) (auto simp: holds_def slot_mask)

lemma holds_length: "holds q k xs \<Longrightarrow> length (buffer q) = 2 ^ k"
  by (simp add: holds_def)

lemma q_invI: "holds q k xs \<Longrightarrow> q_inv q"
  by (auto simp: q_inv_def)

definition q_calm :: "'a mpmc_queue \<Rightarrow> bool" where
  "q_calm q \<longleftrightarrow> sint (head q) + int (length (buffer q)) < 2 ^ 63 - 1"

lemma q_calm_holds: "holds q k xs \<Longrightarrow> q_calm q \<longleftrightarrow> far_from_overflow k q"
  by (simp add: q_calm_def far_from_overflow_def holds_length)

interpretation fifo: bounded_queue q_push q_pull "\<lambda>q. unat (mpmc_queue_available q)" q_content
    "\<lambda>q. length (buffer q)" q_inv q_calm
proof unfold_locales
  fix q :: "'a mpmc_queue" and x
  assume "q_inv q" and lt: "length (q_content q) < length (buffer q)"
  then obtain k xs where h: "holds q k xs" by (auto simp: q_inv_def)
  with lt have "length xs < 2 ^ k" by (simp add: q_content_holds) (simp add: holds_def)
  from holds_push[OF h this, of x] obtain q' where
    p: "mpmc_queue_push q x = Some (Inr (1, q'))" and h': "holds q' k (xs @ [x])" by blast
  with h show "\<exists>q'. q_push q x = (True, q') \<and> q_inv q' \<and>
      q_content q' = q_content q @ [x] \<and> length (buffer q') = length (buffer q) \<and> (q_calm q \<longrightarrow> q_calm q')"
    using q_invI[OF h'] push_keeps_head[OF h p] by (simp add: q_push_def q_content_holds holds_length q_calm_def)
next
  fix q :: "'a mpmc_queue" and x
  assume "q_inv q" and c: "q_calm q" and eq: "length (q_content q) = length (buffer q)"
  then obtain k xs where h: "holds q k xs" by (auto simp: q_inv_def)
  with eq have "length xs = 2 ^ k" by (simp add: q_content_holds) (simp add: holds_def)
  from holds_push_full[OF h this] not_full_overflows q_calm_holds[OF h] c show "q_push q x = (False, q)"
    by (simp add: q_push_def far_from_overflow_def)
next
  fix q :: "'a mpmc_queue" and x xs
  assume "q_inv q" and c: "q_content q = x # xs"
  then obtain k ys where h: "holds q k ys" by (auto simp: q_inv_def)
  with c have "holds q k (x # xs)" by (simp add: q_content_holds)
  from holds_pull[OF this] obtain q' where
    "mpmc_queue_pull q = Some (Inr (1, Some x, q'))" and h': "holds q' k xs" by blast
  with h show "\<exists>q'. q_pull q = (Some x, q') \<and> q_inv q' \<and>
      q_content q' = xs \<and> length (buffer q') = length (buffer q)"
    using q_invI[OF h'] by (simp add: q_pull_def q_content_holds holds_length)
next
  fix q :: "'a mpmc_queue"
  assume "q_inv q" and calm: "q_calm q" and c: "q_content q = []"
  then obtain k ys where h: "holds q k ys" by (auto simp: q_inv_def)
  with c have "holds q k []" by (simp add: q_content_holds)
  moreover have "\<not> empty_overflows (head q)" using calm by (simp add: q_calm_def empty_overflows_def)
  ultimately show "q_pull q = (None, q)" by (simp add: q_pull_def holds_pull_empty)
next
  fix q :: "'a mpmc_queue"
  assume "q_inv q"
  then obtain k ys where h: "holds q k ys" by (auto simp: q_inv_def)
  then show "unat (mpmc_queue_available q) = length (q_content q)"
    and "length (q_content q) \<le> length (buffer q)"
    by (simp_all add: q_content_holds holds_available) (simp add: holds_def)
qed


section \<open>Properties\<close>

text \<open>\<open>mpmc_queue_init\<close> accepts exactly the powers of two from 2 on (-1 otherwise),
  reports a \<open>NULL\<close> buffer with -2, and otherwise returns an empty queue of the given size.\<close>
theorem mpmc_init_correct:
  assumes "1 \<le> k" "k \<le> 62"
  shows "(malloc_grants s (16 * 2 ^ k) \<longrightarrow> (\<exists>q. mpmc_queue_init (2 ^ k) (memtype_heap s) = Inr (0, Some q) \<and>
      q_inv q \<and> q_content q = [] \<and> length (buffer q) = 2 ^ k \<and> qmem q = memtype_heap s)) \<and>
    (\<not> malloc_grants s (16 * 2 ^ k) \<longrightarrow>
      mpmc_queue_init (2 ^ k) (memtype_heap s) = Inr (-2, None :: 'a mpmc_queue option)) \<and>
    (\<forall>sz. sz < 2 \<or> sz AND (sz - 1) \<noteq> 0 \<longrightarrow>
      mpmc_queue_init sz (memtype_heap s) = Inr (-1, None :: 'a mpmc_queue option))"
proof -
  have p: "unat (2 ^ k :: u64) = 2 ^ k" using assms by (simp add: unat_pow2_64)
  moreover have "\<not> (2 ^ k :: u64) < 2"
    using p assms power_increasing[of 1 k "2::nat"] by (simp add: word_less_nat_alt)
  moreover have "unat ((2 ^ k :: u64) AND (2 ^ k - 1)) = 0"
    using p assms by (subst unat_and_mask) auto
  then have "(2 ^ k :: u64) AND (2 ^ k - 1) = 0" by (simp only: unat_eq_zero)
  ultimately show ?thesis
    using holds_init[OF assms, of "memtype_heap s"]
    by (auto simp: mpmc_queue_init_def q_content_holds intro: q_invI)
qed

definition sample_sys :: sys_mem where
  "sample_sys = \<lparr>malloc_grants = (\<lambda>_. True), mmap_grants = (\<lambda>_. False), munmap_result = (\<lambda>_. 0)\<rparr>"

definition sample_queue :: "nat mpmc_queue" where
  "sample_queue = \<lparr>qmem = memtype_heap sample_sys, buffer_mask = 2 ^ 1 - 1,
     buffer = map (\<lambda>i. \<lparr>sequence = of_nat i, qdata = None\<rparr>) [0..<2 ^ 1], tail = 0, head = 0\<rparr>"

lemma sample_queue_holds: "holds sample_queue 1 []"
  unfolding sample_queue_def by (rule holds_init) auto

theorem mpmc_init_correct_witness:
  "\<exists>q :: nat mpmc_queue. mpmc_queue_init (2 ^ 2) (memtype_heap sample_sys) = Inr (0, Some q) \<and>
     q_content q = [] \<and> length (buffer q) = 2 ^ 2"
  using mpmc_init_correct[of 2 sample_sys] by (auto simp: sample_sys_def)

text \<open>Property C21: a push or pull that no other thread disturbs always returns, however many of its weak
  exchanges fail without a reason before one succeeds, and on a queue holding \<open>xs\<close> the calls are
  the operations of a bounded first-in first-out queue: push appends, or is refused exactly when
  the queue is full; pull takes the oldest element, or is refused exactly when it is empty. Only a
  refusal can go wrong, when the positions it compares lie on both sides of the largest signed
  number: the signed subtraction overflows. Positions may wrap around \<open>2 ^ 64\<close>.\<close>
theorem mpmc_push_pull_fifo:
  assumes "holds q k xs"
  shows "(if length xs < 2 ^ k
      then \<exists>q'. (\<forall>ws. weak_push ws q x = Some (Inr (1, q'))) \<and> holds q' k (xs @ [x])
      else \<forall>ws. weak_push ws q x = Some (if 2 ^ 63 - 2 ^ k \<le> sint (head q) \<and> sint (head q) < 2 ^ 63 - 1
        then Inl Signed_Overflow else Inr (0, q))) \<and>
    (case xs of [] \<Rightarrow> \<forall>ws. weak_pull ws q = Some (if sint (head q) = 2 ^ 63 - 1 then Inl Signed_Overflow else Inr (0, None, q))
      | y # ys \<Rightarrow> \<exists>q'. (\<forall>ws. weak_pull ws q = Some (Inr (1, Some y, q'))) \<and> holds q' k ys) \<and>
    unat (mpmc_queue_available q) = length xs"
proof (intro conjI)
  show "if length xs < 2 ^ k
      then \<exists>q'. (\<forall>ws. weak_push ws q x = Some (Inr (1, q'))) \<and> holds q' k (xs @ [x])
      else \<forall>ws. weak_push ws q x = Some (if 2 ^ 63 - 2 ^ k \<le> sint (head q) \<and> sint (head q) < 2 ^ 63 - 1
        then Inl Signed_Overflow else Inr (0, q))"
  proof (cases "length xs < 2 ^ k")
    case True
    with holds_weak_push[OF assms True, of x] show ?thesis by auto
  next
    case False
    with assms have "length xs = 2 ^ k" by (auto simp: holds_def)
    with holds_weak_push_full[OF assms this, of _ x] show ?thesis by (simp add: full_overflows_def)
  qed
  show "case xs of [] \<Rightarrow> \<forall>ws. weak_pull ws q = Some (if sint (head q) = 2 ^ 63 - 1 then Inl Signed_Overflow else Inr (0, None, q))
      | y # ys \<Rightarrow> \<exists>q'. (\<forall>ws. weak_pull ws q = Some (Inr (1, Some y, q'))) \<and> holds q' k ys"
    using assms holds_weak_pull_empty[of q k] holds_weak_pull[of q k "hd xs" "tl xs"]
    by (cases xs) (auto simp: empty_overflows_def)
qed (rule holds_available[OF assms])

theorem mpmc_push_pull_fifo_witness:
  "\<exists>q'. weak_push [True, True] sample_queue 7 = Some (Inr (1, q')) \<and> holds q' 1 [7]"
  using mpmc_push_pull_fifo[OF sample_queue_holds, of 7] by auto

text \<open>The batch operations transfer as many elements as fit, respectively as are
  there, in order, and report that number.\<close>
theorem mpmc_batches:
  assumes "holds q k xs" "far_from_overflow k q"
  shows "(\<exists>q'. mpmc_queue_push_many q ys = Some (Inr (min (length ys) (2 ^ k - length xs), q')) \<and>
      holds q' k (xs @ take (2 ^ k - length xs) ys)) \<and>
    (\<exists>q'. mpmc_queue_pull_many q n = Some (Inr (map Some (take n xs), q')) \<and> holds q' k (drop n xs))"
proof -
  have "length xs \<le> 2 ^ k" using assms(1) by (simp add: holds_def)
  then have "int (length xs) \<le> 2 ^ k" by simp
  then have "sint (head q) + int (length xs) < 2 ^ 63 - 1" using assms(2) unfolding far_from_overflow_def by linarith
  then show ?thesis using holds_push_many[OF assms] holds_pull_many[OF assms(1)] by blast
qed

lemma sample_queue_far: "far_from_overflow 1 sample_queue" "q_calm sample_queue"
  by (simp_all add: far_from_overflow_def q_calm_def sample_queue_def)

theorem mpmc_batches_witness:
  "\<exists>q'. mpmc_queue_push_many sample_queue [4, 5, 6] = Some (Inr (2, q')) \<and> holds q' 1 [4, 5]"
  using conjunct1[OF mpmc_batches[OF sample_queue_holds sample_queue_far(1), of "[4, 5, 6]" 0]]
  by (simp del: mpmc_queue_push_many.simps add: numeral_2_eq_2)

text \<open>Whatever a queue holds, a burst that drains it after pushes collects the oldest
  elements in the order they were pushed, up to its budget, and leaves the rest; only the
  pushes beyond the capacity are lost.\<close>
theorem mpmc_burst_in_order:
  assumes "q_inv q" "q_calm q"
  shows "\<exists>q'. fifo.drain (fifo.push_list q xs) n =
      (take n (q_content q @ take (length (buffer q) - length (q_content q)) xs), q') \<and>
    q_content q' = drop n (q_content q @ take (length (buffer q) - length (q_content q)) xs)"
  using fifo.push_list_content[OF assms, of xs] fifo.drain_content[of "fifo.push_list q xs" n] by auto

theorem mpmc_burst_in_order_witness:
  "\<exists>q'. fifo.drain (fifo.push_list sample_queue [4, 5, 6]) 1 = ([4], q') \<and> q_content q' = [5]"
  using mpmc_burst_in_order[OF q_invI[OF sample_queue_holds] sample_queue_far(2), of "[4, 5, 6]" 1]
    q_content_holds[OF sample_queue_holds] holds_length[OF sample_queue_holds] by simp

text \<open>On huge pages a failed \<open>mmap\<close> is not recognised (it is not \<open>NULL\<close>) and the
  initialisation writes through it; and \<open>mpmc_queue_destroy\<close> releases half of the bytes that
  \<open>mpmc_queue_init\<close> allocated.\<close>
theorem mpmc_hugepage_errors:
  assumes "1 \<le> k" "k \<le> 59"
  shows "(\<not> mmap_grants s (16 * 2 ^ k) \<longrightarrow>
      mpmc_queue_init (2 ^ k) (memtype_hugepage s) = (Inl Out_Of_Bounds :: (int \<times> 'a mpmc_queue option) res)) \<and>
    (\<forall>q :: 'a mpmc_queue. mpmc_queue_init (2 ^ k) (memtype_hugepage s) = Inr (0, Some q) \<longrightarrow>
      mpmc_queue_destroy q = Inr (munmap_result s (8 * 2 ^ k)) \<and>
      2 * unat (8 * 2 ^ k :: u64) = unat (16 * 2 ^ k :: u64))"
proof -
  have p: "unat (2 ^ k :: u64) = 2 ^ k" using assms by (simp add: unat_pow2_64)
  have big: "(2::nat) ^ k \<le> 2 ^ 59" using assms by (intro power_increasing) auto
  have "\<not> (2 ^ k :: u64) < 2"
    using p assms power_increasing[of 1 k "2::nat"] by (simp add: word_less_nat_alt)
  moreover have "unat ((2 ^ k :: u64) AND (2 ^ k - 1)) = 0"
    using p assms by (subst unat_and_mask) auto
  then have "(2 ^ k :: u64) AND (2 ^ k - 1) = 0" by (simp only: unat_eq_zero)
  moreover have "unat (8 * 2 ^ k :: u64) = 8 * 2 ^ k" "unat (16 * 2 ^ k :: u64) = 16 * 2 ^ k"
    using big p by (simp_all add: unat_word_ariths)
  ultimately show ?thesis
    by (auto simp: mpmc_queue_init_def mpmc_queue_destroy_def memory_free_def memtype_hugepage_def
        memory_hugepage_dealloc_def mult.commute memory_alloc_def memory_hugepage_alloc_def split: if_splits)
qed

theorem mpmc_hugepage_errors_witness:
  "mpmc_queue_init (2 ^ 12) (memtype_hugepage sample_sys) = (Inl Out_Of_Bounds :: (int \<times> nat mpmc_queue option) res)"
  using conjunct1[OF mpmc_hugepage_errors[of 12 sample_sys, where 'a = nat]] by (simp add: sample_sys_def)

end
