(* ===== verification/Mpmc_Conc.thy ===== *)
theory Mpmc_Conc
  imports Mpmc_Queue
begin

text \<open>
  The queue of \<open>opera-v2/mpmc_queue.c\<close> under any interleaving of any number of threads. One
  step is one atomic instruction of one thread: a load of \<open>tail\<close>, \<open>head\<close> or a cell's
  \<open>sequence\<close>, a compare-and-exchange (which may fail spuriously, as the weak form may), a
  plain access to a cell's \<open>data\<close>, a store of \<open>sequence\<close>. Memory is sequentially consistent:
  the acquire and release orders of the source make the cell data visible with the sequence
  number; weaker behaviour of the relaxed position counters is not modelled.
\<close>

section \<open>Threads and instructions\<close>

text \<open>
  The program counter of a thread names its next instruction and carries the values of its
  local variables: the pointer to push, \<open>pos\<close>, the pointer read. \<open>Ret\<close> is a returned call.
\<close>

datatype 'a mpmc_pc =
    Ret int "'a option"
  | Push_Load 'a
  | Push_Seq 'a u64
  | Push_Cas 'a u64
  | Push_Data 'a u64
  | Push_Store 'a u64
  | Pull_Load
  | Pull_Seq u64
  | Pull_Cas u64
  | Pull_Data u64
  | Pull_Store u64 "'a option"

text \<open>The cell a position denotes, and the two updates of a cell.\<close>

definition cell_of :: "'a mpmc_queue \<Rightarrow> u64 \<Rightarrow> nat" where
  "cell_of q pos = unat (pos AND buffer_mask q)"

definition put_data :: "'a mpmc_queue \<Rightarrow> u64 \<Rightarrow> 'a \<Rightarrow> 'a mpmc_queue res" where
  "put_data q pos x = rbind (arr_get (buffer q) (cell_of q pos)) (\<lambda>c.
     Inr (q\<lparr>buffer := (buffer q)[cell_of q pos := c\<lparr>qdata := Some x\<rparr>]\<rparr>))"

definition put_sequence :: "'a mpmc_queue \<Rightarrow> u64 \<Rightarrow> u64 \<Rightarrow> 'a mpmc_queue res" where
  "put_sequence q pos s = rbind (arr_get (buffer q) (cell_of q pos)) (\<lambda>c.
     Inr (q\<lparr>buffer := (buffer q)[cell_of q pos := c\<lparr>sequence := s\<rparr>]\<rparr>))"

text \<open>\<open>spurious\<close> says whether a compare-and-exchange that could succeed fails nevertheless.\<close>

fun push_instr :: "bool \<Rightarrow> 'a mpmc_queue \<Rightarrow> 'a mpmc_pc \<Rightarrow> ('a mpmc_pc \<times> 'a mpmc_queue) res" where
  "push_instr spurious q (Push_Load x) = Inr (Push_Seq x (tail q), q)"
| "push_instr spurious q (Push_Seq x pos) = rbind (arr_get (buffer q) (cell_of q pos)) (\<lambda>c.
     rbind (pos_diff (sequence c) pos) (\<lambda>diff.
     Inr (if diff = 0 then Push_Cas x pos else if diff < 0 then Ret 0 None else Push_Load x, q)))"
| "push_instr spurious q (Push_Cas x pos) = Inr
     (if tail q = pos \<and> \<not> spurious then (Push_Data x pos, q\<lparr>tail := pos + 1\<rparr>)
      else (Push_Seq x (tail q), q))"
| "push_instr spurious q (Push_Data x pos) =
     rbind (put_data q pos x) (\<lambda>q'. Inr (Push_Store x pos, q'))"
| "push_instr spurious q (Push_Store x pos) =
     rbind (put_sequence q pos (pos + 1)) (\<lambda>q'. Inr (Ret 1 None, q'))"
| "push_instr spurious q pc = Inr (pc, q)"

fun pull_instr :: "bool \<Rightarrow> 'a mpmc_queue \<Rightarrow> 'a mpmc_pc \<Rightarrow> ('a mpmc_pc \<times> 'a mpmc_queue) res" where
  "pull_instr spurious q Pull_Load = Inr (Pull_Seq (head q), q)"
| "pull_instr spurious q (Pull_Seq pos) = rbind (arr_get (buffer q) (cell_of q pos)) (\<lambda>c.
     rbind (pos_diff (sequence c) (pos + 1)) (\<lambda>diff.
     Inr (if diff = 0 then Pull_Cas pos else if diff < 0 then Ret 0 None else Pull_Load, q)))"
| "pull_instr spurious q (Pull_Cas pos) = Inr
     (if head q = pos \<and> \<not> spurious then (Pull_Data pos, q\<lparr>head := pos + 1\<rparr>)
      else (Pull_Seq (head q), q))"
| "pull_instr spurious q (Pull_Data pos) = rbind (arr_get (buffer q) (cell_of q pos)) (\<lambda>c.
     Inr (Pull_Store pos (qdata c), q))"
| "pull_instr spurious q (Pull_Store pos v) =
     rbind (put_sequence q pos (pos + buffer_mask q + 1)) (\<lambda>q'. Inr (Ret 1 v, q'))"
| "pull_instr spurious q pc = Inr (pc, q)"

section \<open>Configurations and steps\<close>

text \<open>
  Beside the shared queue and the threads, a configuration records two histories that no
  instruction reads: the values whose push has claimed a position, by position, and the
  (position, value) pairs that pulls have read.
\<close>

record 'a conc =
  shared :: "'a mpmc_queue"
  pcs :: "nat \<Rightarrow> 'a mpmc_pc"
  pushes :: "'a list"
  pulls :: "(nat \<times> 'a option) list"

definition conc_init :: "'a mpmc_queue \<Rightarrow> 'a conc" where
  "conc_init q = \<lparr>shared = q, pcs = (\<lambda>_. Ret 0 None), pushes = [], pulls = []\<rparr>"

fun claimed :: "'a mpmc_pc \<Rightarrow> 'a mpmc_pc \<Rightarrow> 'a list" where
  "claimed (Push_Cas x pos) (Push_Data y pos') = [x]"
| "claimed _ _ = []"

fun taken :: "'a mpmc_pc \<Rightarrow> 'a mpmc_pc \<Rightarrow> (nat \<times> 'a option) list" where
  "taken (Pull_Data pos) (Pull_Store pos' v) = [(unat pos, v)]"
| "taken _ _ = []"

inductive mpmc_step :: "'a conc \<Rightarrow> 'a conc \<Rightarrow> bool" where
  call_push: "pcs c t = Ret rc v \<Longrightarrow> mpmc_step c (c\<lparr>pcs := (pcs c)(t := Push_Load x)\<rparr>)"
| call_pull: "pcs c t = Ret rc v \<Longrightarrow> mpmc_step c (c\<lparr>pcs := (pcs c)(t := Pull_Load)\<rparr>)"
| run_push: "push_instr w (shared c) (pcs c t) = Inr (pc, q) \<Longrightarrow>
    mpmc_step c \<lparr>shared = q, pcs = (pcs c)(t := pc),
      pushes = pushes c @ claimed (pcs c t) pc, pulls = pulls c\<rparr>"
| run_pull: "pull_instr w (shared c) (pcs c t) = Inr (pc, q) \<Longrightarrow>
    mpmc_step c \<lparr>shared = q, pcs = (pcs c)(t := pc),
      pushes = pushes c, pulls = pulls c @ taken (pcs c t) pc\<rparr>"

inductive mpmc_reach :: "'a conc \<Rightarrow> 'a conc \<Rightarrow> bool" for c0 where
  start: "mpmc_reach c0 c0"
| step: "mpmc_reach c0 c \<Longrightarrow> mpmc_step c c' \<Longrightarrow> mpmc_reach c0 c'"

inductive_cases mpmc_stepE: "mpmc_step c c'"

section \<open>The invariant\<close>

fun pushing :: "'a mpmc_pc \<Rightarrow> nat \<Rightarrow> bool" where
  "pushing (Push_Data x pos) n = (unat pos = n)"
| "pushing (Push_Store x pos) n = (unat pos = n)"
| "pushing _ n = False"

fun pulling :: "'a mpmc_pc \<Rightarrow> nat \<Rightarrow> bool" where
  "pulling (Pull_Data pos) n = (unat pos = n)"
| "pulling (Pull_Store pos v) n = (unat pos = n)"
| "pulling _ n = False"

fun reading :: "'a mpmc_pc \<Rightarrow> nat \<Rightarrow> bool" where
  "reading (Pull_Data pos) n = (unat pos = n)"
| "reading _ n = False"

text \<open>
  The sequence number \<open>s\<close> and the data \<open>d\<close> of the cell that position \<open>p\<close> will use next:
  free, or still holding the published value of position \<open>p - n\<close>, or claimed by the push of
  that position and not yet published.
\<close>

definition cell_ok :: "nat \<Rightarrow> nat \<Rightarrow> 'a list \<Rightarrow> (nat \<Rightarrow> 'a mpmc_pc) \<Rightarrow> nat \<Rightarrow> nat \<Rightarrow> 'a option \<Rightarrow> bool" where
  "cell_ok n h P ps p s d \<longleftrightarrow>
     (s = p \<and> p < h + n) \<or>
     (n \<le> p \<and> s = p - n + 1 \<and> d = Some (P ! (p - n)) \<and> (h \<le> p - n \<or> (\<exists>t. pulling (ps t) (p - n)))) \<or>
     (n \<le> p \<and> s = p - n \<and> h \<le> p - n \<and> (\<exists>t. pushing (ps t) (p - n)))"

abbreviation seq_at :: "'a mpmc_queue \<Rightarrow> nat \<Rightarrow> nat" where
  "seq_at q j \<equiv> unat (sequence (buffer q ! j))"

definition q_shape :: "nat \<Rightarrow> 'a mpmc_queue \<Rightarrow> 'a list \<Rightarrow> bool" where
  "q_shape k q P \<longleftrightarrow> 1 \<le> k \<and> k \<le> 62 \<and> buffer_mask q = 2 ^ k - 1 \<and> length (buffer q) = 2 ^ k \<and>
     unat (tail q) = length P \<and> unat (head q) \<le> length P \<and> length P \<le> unat (head q) + 2 ^ k \<and>
     length P + 2 ^ k < 2 ^ 63"

definition q_window :: "nat \<Rightarrow> 'a mpmc_queue \<Rightarrow> (nat \<Rightarrow> 'a mpmc_pc) \<Rightarrow> 'a list \<Rightarrow> bool" where
  "q_window k q ps P \<longleftrightarrow> (\<forall>p. length P \<le> p \<longrightarrow> p < length P + 2 ^ k \<longrightarrow>
     cell_ok (2 ^ k) (unat (head q)) P ps p (seq_at q (p mod 2 ^ k)) (qdata (buffer q ! (p mod 2 ^ k))))"

text \<open>What a thread may rely on at each instruction.\<close>

fun pc_ok :: "nat \<Rightarrow> 'a mpmc_queue \<Rightarrow> 'a list \<Rightarrow> 'a mpmc_pc \<Rightarrow> bool" where
  "pc_ok k q P (Push_Seq x pos) = (unat pos \<le> length P)"
| "pc_ok k q P (Push_Cas x pos) = (unat pos \<le> length P \<and> unat pos \<le> seq_at q (unat pos mod 2 ^ k))"
| "pc_ok k q P (Push_Data x pos) = (unat (head q) \<le> unat pos \<and> unat pos < length P \<and>
     length P \<le> unat pos + 2 ^ k \<and> seq_at q (unat pos mod 2 ^ k) = unat pos \<and> P ! unat pos = x)"
| "pc_ok k q P (Push_Store x pos) = (unat (head q) \<le> unat pos \<and> unat pos < length P \<and>
     length P \<le> unat pos + 2 ^ k \<and> seq_at q (unat pos mod 2 ^ k) = unat pos \<and> P ! unat pos = x \<and>
     qdata (buffer q ! (unat pos mod 2 ^ k)) = Some x)"
| "pc_ok k q P (Pull_Seq pos) = (unat pos \<le> unat (head q))"
| "pc_ok k q P (Pull_Cas pos) = (unat pos \<le> unat (head q) \<and> unat pos < seq_at q (unat pos mod 2 ^ k))"
| "pc_ok k q P (Pull_Data pos) = (unat pos < unat (head q) \<and>
     length P \<le> unat pos + 2 ^ k \<and> seq_at q (unat pos mod 2 ^ k) = unat pos + 1)"
| "pc_ok k q P (Pull_Store pos v) = (unat pos < unat (head q) \<and>
     length P \<le> unat pos + 2 ^ k \<and> seq_at q (unat pos mod 2 ^ k) = unat pos + 1 \<and> v = Some (P ! unat pos))"
| "pc_ok k q P _ = True"

definition unique_owners :: "(nat \<Rightarrow> 'a mpmc_pc) \<Rightarrow> bool" where
  "unique_owners ps \<longleftrightarrow> (\<forall>t u n. (pushing (ps t) n \<longrightarrow> pushing (ps u) n \<longrightarrow> t = u) \<and>
     (pulling (ps t) n \<longrightarrow> pulling (ps u) n \<longrightarrow> t = u))"

definition log_ok :: "nat \<Rightarrow> 'a list \<Rightarrow> (nat \<Rightarrow> 'a mpmc_pc) \<Rightarrow> (nat \<times> 'a option) list \<Rightarrow> bool" where
  "log_ok h P ps L \<longleftrightarrow> distinct (map fst L) \<and> (\<forall>(n, v) \<in> set L. n < h \<and> v = Some (P ! n)) \<and>
     (\<forall>t n. reading (ps t) n \<longrightarrow> n \<notin> fst ` set L) \<and>
     (\<forall>n < h. n \<in> fst ` set L \<or> (\<exists>t. reading (ps t) n))"

definition conc_inv :: "nat \<Rightarrow> 'a conc \<Rightarrow> bool" where
  "conc_inv k c \<longleftrightarrow> q_shape k (shared c) (pushes c) \<and> q_window k (shared c) (pcs c) (pushes c) \<and>
     (\<forall>t. pc_ok k (shared c) (pushes c) (pcs c t)) \<and> unique_owners (pcs c) \<and>
     log_ok (unat (head (shared c))) (pushes c) (pcs c) (pulls c)"


section \<open>Facts about the window\<close>

lemma cell_of_mod [simp]: "q_shape k q P \<Longrightarrow> cell_of q pos = unat pos mod 2 ^ k"
  by (auto simp: q_shape_def cell_of_def unat_and_mask)

lemma cell_less [simp]: "q_shape k q P \<Longrightarrow> n mod 2 ^ k < length (buffer q)"
  by (auto simp: q_shape_def)

lemma two_le_size: "q_shape k q P \<Longrightarrow> (2::nat) \<le> 2 ^ k"
  unfolding q_shape_def by (metis one_le_numeral power_increasing power_one_right)

lemma window_cell:
  "q_window k q ps P \<Longrightarrow> length P \<le> p \<Longrightarrow> p < length P + 2 ^ k \<Longrightarrow>
     cell_ok (2 ^ k) (unat (head q)) P ps p (seq_at q (p mod 2 ^ k)) (qdata (buffer q ! (p mod 2 ^ k)))"
  by (auto simp: q_window_def)

text \<open>The cell of a position that has been claimed within the last \<open>2 ^ k\<close> pushes.\<close>

lemma window_claimed:
  assumes "q_window k q ps P" "n < length P" "length P \<le> n + 2 ^ k"
  shows "cell_ok (2 ^ k) (unat (head q)) P ps (n + 2 ^ k) (seq_at q (n mod 2 ^ k))
    (qdata (buffer q ! (n mod 2 ^ k)))"
  using window_cell[OF assms(1), of "n + 2 ^ k"] assms(2,3) by simp

lemma window_inj:
  assumes "T \<le> p" "p < T + 2 ^ k" "T \<le> r" "r < T + 2 ^ k" "p mod 2 ^ k = r mod (2::nat) ^ k"
  shows "p = r"
proof -
  have "(T + (p - T)) mod 2 ^ k = (T + (r - T)) mod 2 ^ k" using assms by simp
  then have "p - T = r - T" by (rule mod_shift_inj) (use assms in auto)
  with assms show ?thesis by simp
qed

lemma claimed_inj:
  assumes "T \<le> p + 2 ^ k" "p < T" "T \<le> r + 2 ^ k" "r < T" "p mod 2 ^ k = r mod (2::nat) ^ k"
  shows "p = r"
  using window_inj[of T "p + 2 ^ k" k "r + 2 ^ k"] assms by simp

lemma cell_of_tail:
  assumes "q_shape k q P" "q_window k q ps P" "length P \<le> seq_at q (length P mod 2 ^ k)"
  shows "seq_at q (length P mod 2 ^ k) = length P \<and> length P < unat (head q) + 2 ^ k"
  using window_cell[OF assms(2), of "length P"] two_le_size[OF assms(1)] assms(3)
  by (auto simp: cell_ok_def)

lemma cell_of_head:
  assumes "q_shape k q P" "q_window k q ps P" "unat (head q) < seq_at q (unat (head q) mod 2 ^ k)"
  shows "seq_at q (unat (head q) mod 2 ^ k) = unat (head q) + 1 \<and> unat (head q) < length P"
proof (cases "unat (head q) = length P")
  case True
  then show ?thesis
    using window_cell[OF assms(2), of "length P"] assms(3) two_le_size[OF assms(1)]
      cell_of_tail[OF assms(1,2)]
    by (auto simp: cell_ok_def)
next
  case False
  with assms(1) have lt: "unat (head q) < length P" "length P \<le> unat (head q) + 2 ^ k"
    by (auto simp: q_shape_def)
  show ?thesis using window_claimed[OF assms(2) lt] assms(3) lt by (auto simp: cell_ok_def)
qed

lemma ex_upd: "P x \<longleftrightarrow> P (f t) \<Longrightarrow> (\<exists>u. P ((f(t := x)) u)) \<longleftrightarrow> (\<exists>u. P (f u))"
  by (metis fun_upd_apply)

lemma cell_ok_mono:
  assumes "cell_ok n h P ps p s d" "h' = h" "n \<le> p \<Longrightarrow> P' ! (p - n) = P ! (p - n)"
    "n \<le> p \<Longrightarrow> \<exists>u. pushing (ps u) (p - n) \<Longrightarrow> \<exists>u. pushing (ps' u) (p - n)"
    "n \<le> p \<Longrightarrow> \<exists>u. pulling (ps u) (p - n) \<Longrightarrow> \<exists>u. pulling (ps' u) (p - n)"
  shows "cell_ok n h' P' ps' p s d"
  using assms unfolding cell_ok_def by metis

section \<open>The invariant is kept\<close>

text \<open>Instructions that touch neither the queue nor what the thread owns.\<close>

lemma inv_local:
  assumes inv: "conc_inv k c" and ok: "pc_ok k (shared c) (pushes c) pc"
    and own: "\<not> (\<exists>n. pushing (pcs c t) n)" "\<not> (\<exists>n. pulling (pcs c t) n)"
      "\<not> (\<exists>n. pushing pc n)" "\<not> (\<exists>n. pulling pc n)" and rd: "\<And>n. reading pc n = reading (pcs c t) n"
  shows "conc_inv k \<lparr>shared = shared c, pcs = (pcs c)(t := pc), pushes = pushes c, pulls = pulls c\<rparr>"
proof -
  have e1: "(\<exists>u. pushing (((pcs c)(t := pc)) u) n) \<longleftrightarrow> (\<exists>u. pushing (pcs c u) n)" for n
    using own by (intro ex_upd) auto
  have e2: "(\<exists>u. pulling (((pcs c)(t := pc)) u) n) \<longleftrightarrow> (\<exists>u. pulling (pcs c u) n)" for n
    using own by (intro ex_upd) auto
  have e3: "(\<exists>u. reading (((pcs c)(t := pc)) u) n) \<longleftrightarrow> (\<exists>u. reading (pcs c u) n)" for n
    using rd by (intro ex_upd) auto
  have "q_window k (shared c) ((pcs c)(t := pc)) (pushes c)"
    using inv unfolding conc_inv_def q_window_def cell_ok_def e1 e2 by blast
  moreover have "unique_owners ((pcs c)(t := pc))"
    using inv own by (auto simp: conc_inv_def unique_owners_def)
  moreover have "log_ok (unat (head (shared c))) (pushes c) ((pcs c)(t := pc)) (pulls c)"
  proof -
    have "\<forall>u n. reading (((pcs c)(t := pc)) u) n \<longrightarrow> n \<notin> fst ` set (pulls c)"
      using inv rd by (auto simp: conc_inv_def log_ok_def)
    then show ?thesis using inv by (simp only: conc_inv_def log_ok_def e3) blast
  qed
  ultimately show ?thesis using inv ok by (auto simp: conc_inv_def)
qed

text \<open>
  The successful compare-and-exchange of a push. The other threads are not affected: the cell
  the window moves past is free, so nobody owns it.
\<close>

lemma pc_ok_push_cas:
  assumes "pc_ok k q P pc" "seq_at q (length P mod 2 ^ k) = length P" "(2::nat) \<le> 2 ^ k"
    "unat (head q) \<le> length P"
  shows "pc_ok k (q\<lparr>tail := v\<rparr>) (P @ [x]) pc"
proof -
  have far: "length P < n + 2 ^ k"
    if "length P \<le> n + 2 ^ k" "seq_at q (n mod 2 ^ k) = n \<or> seq_at q (n mod 2 ^ k) = n + 1" for n
  proof (rule ccontr)
    assume "\<not> length P < n + 2 ^ k"
    with that(1) have eq: "length P = n + 2 ^ k" by simp
    then have "length P mod 2 ^ k = n mod 2 ^ k" by simp
    with assms(2,3) that(2) eq show False by simp
  qed
  show ?thesis
  proof (cases pc)
    case (Push_Data y p)
    with assms(1,4) far[of "unat p"] show ?thesis by (simp add: nth_append)
  next
    case (Push_Store y p)
    with assms(1,4) far[of "unat p"] show ?thesis by (simp add: nth_append)
  next
    case (Pull_Data p)
    with assms(1,4) far[of "unat p"] show ?thesis by simp
  next
    case (Pull_Store p v)
    with assms(1,4) far[of "unat p"] show ?thesis by (simp add: nth_append)
  qed (use assms(1) in simp_all)
qed

lemma inv_push_cas:
  assumes inv: "conc_inv k c" and pc: "pcs c t = Push_Cas x pos" and tl: "tail (shared c) = pos"
    and bd: "Suc (length (pushes c)) + 2 ^ k < 2 ^ 63"
  shows "conc_inv k \<lparr>shared = (shared c)\<lparr>tail := pos + 1\<rparr>, pcs = (pcs c)(t := Push_Data x pos),
    pushes = pushes c @ [x], pulls = pulls c\<rparr>"
proof -
  define q P ps where "q = shared c" and "P = pushes c" and "ps = pcs c"
  note defs = q_def[symmetric] P_def[symmetric] ps_def[symmetric]
  have sh: "q_shape k q P" and win: "q_window k q ps P" and ok: "\<And>u. pc_ok k q P (ps u)"
    and un: "unique_owners ps" and lg: "log_ok (unat (head q)) P ps (pulls c)"
    using inv by (auto simp: conc_inv_def defs)
  have up: "unat pos = length P" using sh tl by (auto simp: q_shape_def defs)
  have hT: "unat (head q) \<le> length P" using sh by (simp add: q_shape_def)
  have s: "seq_at q (length P mod 2 ^ k) = length P" and room: "length P < unat (head q) + 2 ^ k"
    using cell_of_tail[OF sh win] ok[of t] pc up by (auto simp: defs)
  have up1: "unat (pos + 1) = Suc (length P)"
    by (rule unat_Suc_below63[OF up]) (use bd in \<open>simp add: defs\<close>)
  let ?ps = "ps(t := Push_Data x pos)"
  have sh': "q_shape k (q\<lparr>tail := pos + 1\<rparr>) (P @ [x])"
    using sh up1 room bd by (auto simp: q_shape_def defs)
  have e1: "\<exists>u. pushing (?ps u) n" if "\<exists>u. pushing (ps u) n" for n
  proof -
    from that obtain u where "pushing (ps u) n" by blast
    then show ?thesis using pc by (intro exI[of _ u]) (auto simp: defs)
  qed
  have e2: "(\<exists>u. pulling (?ps u) n) = (\<exists>u. pulling (ps u) n)" for n
    using pc by (intro ex_upd) (simp add: defs)
  have e3: "(\<exists>u. reading (?ps u) n) = (\<exists>u. reading (ps u) n)" for n
    using pc by (intro ex_upd) (simp add: defs)
  have "q_window k (q\<lparr>tail := pos + 1\<rparr>) ?ps (P @ [x])"
    unfolding q_window_def
  proof (intro allI impI)
    fix p assume p: "length (P @ [x]) \<le> p" "p < length (P @ [x]) + 2 ^ k"
    show "cell_ok (2 ^ k) (unat (head (q\<lparr>tail := pos + 1\<rparr>))) (P @ [x]) ?ps p
        (seq_at (q\<lparr>tail := pos + 1\<rparr>) (p mod 2 ^ k))
        (qdata (buffer (q\<lparr>tail := pos + 1\<rparr>) ! (p mod 2 ^ k)))"
    proof (cases "p = length P + 2 ^ k")
      case True
      have "\<exists>u. pushing (?ps u) (length P)" using up by (intro exI[of _ t]) simp
      then show ?thesis using True s hT by (simp add: cell_ok_def)
    next
      case False
      with p have r: "length P \<le> p" "p < length P + 2 ^ k" by simp_all
      have c: "cell_ok (2 ^ k) (unat (head q)) (P @ [x]) ?ps p (seq_at q (p mod 2 ^ k))
          (qdata (buffer q ! (p mod 2 ^ k)))"
        by (rule cell_ok_mono[OF window_cell[OF win r]])
          (use r e1 e2 in \<open>simp_all add: nth_append less_diff_conv2\<close>)
      then show ?thesis by simp
    qed
  qed
  moreover
  have "pc_ok k (q\<lparr>tail := pos + 1\<rparr>) (P @ [x]) (?ps u)" for u
  proof (cases "u = t")
    case True
    then show ?thesis using up s sh by (auto simp: q_shape_def)
  next
    case False
    then show ?thesis using pc_ok_push_cas[OF ok s two_le_size[OF sh] hT] by simp
  qed
  moreover have "unique_owners ?ps"
  proof -
    have "\<not> pushing (ps u) (length P)" for u
      using ok[of u] by (cases "ps u") auto
    then show ?thesis using un up by (auto simp: unique_owners_def)
  qed
  moreover have "log_ok (unat (head q)) (P @ [x]) ?ps (pulls c)"
  proof -
    have "\<forall>u n. reading (?ps u) n \<longrightarrow> n \<notin> fst ` set (pulls c)"
      using lg by (auto simp: log_ok_def)
    moreover have "\<forall>(n, v) \<in> set (pulls c). n < unat (head q) \<and> v = Some ((P @ [x]) ! n)"
      using lg sh by (force simp: log_ok_def q_shape_def nth_append)
    ultimately show ?thesis using lg by (simp only: log_ok_def e3) blast
  qed
  ultimately show ?thesis using sh' by (simp add: conc_inv_def defs)
qed


text \<open>Writing the cell of a claimed position \<open>n\<close> affects no thread that does not own \<open>n\<close>.\<close>

lemma pc_ok_buffer:
  assumes ok: "pc_ok k q P pc" and n: "n < length P" "length P \<le> n + 2 ^ k"
    and no: "\<not> pushing pc n" "\<not> pulling pc n"
    and up: "seq_at q (n mod 2 ^ k) \<le> unat (sequence c)" and h: "unat (head q) \<le> length P"
    and len: "n mod 2 ^ k < length (buffer q)"
  shows "pc_ok k (q\<lparr>buffer := (buffer q)[n mod 2 ^ k := c]\<rparr>) P pc"
proof -
  have ne: "n mod 2 ^ k \<noteq> m mod 2 ^ k" if "m < length P" "length P \<le> m + 2 ^ k" "m \<noteq> n" for m
    using claimed_inj[OF n(2,1) that(2,1)] that(3) by auto
  show ?thesis
  proof (cases pc)
    case (Push_Cas y p)
    then show ?thesis using ok up len by (auto simp: nth_list_update)
  next
    case (Push_Data y p)
    then show ?thesis using ok no ne[of "unat p"] by simp
  next
    case (Push_Store y p)
    then show ?thesis using ok no ne[of "unat p"] by simp
  next
    case (Pull_Cas p)
    then show ?thesis using ok up len by (auto simp: nth_list_update)
  next
    case (Pull_Data p)
    then show ?thesis using ok no ne[of "unat p"] h by simp
  next
    case (Pull_Store p v)
    then show ?thesis using ok no ne[of "unat p"] h by simp
  qed (use ok in simp_all)
qed

lemma window_buffer:
  assumes win: "q_window k q ps P" and n: "n < length P" "length P \<le> n + 2 ^ k"
    and cell: "cell_ok (2 ^ k) (unat (head q)) P ps' (n + 2 ^ k) (unat (sequence c)) (qdata c)"
    and own: "\<And>m. m \<noteq> n \<Longrightarrow> \<exists>u. pushing (ps u) m \<Longrightarrow> \<exists>u. pushing (ps' u) m"
      "\<And>m. m \<noteq> n \<Longrightarrow> \<exists>u. pulling (ps u) m \<Longrightarrow> \<exists>u. pulling (ps' u) m"
    and len: "n mod 2 ^ k < length (buffer q)"
  shows "q_window k (q\<lparr>buffer := (buffer q)[n mod 2 ^ k := c]\<rparr>) ps' P"
  unfolding q_window_def
proof (intro allI impI)
  let ?q = "q\<lparr>buffer := (buffer q)[n mod 2 ^ k := c]\<rparr>"
  fix p assume p: "length P \<le> p" "p < length P + 2 ^ k"
  show "cell_ok (2 ^ k) (unat (head ?q)) P ps' p (seq_at ?q (p mod 2 ^ k)) (qdata (buffer ?q ! (p mod 2 ^ k)))"
  proof (cases "p = n + 2 ^ k")
    case True
    with cell len show ?thesis by simp
  next
    case False
    with window_inj[OF p, of "n + 2 ^ k"] n have ne: "n mod 2 ^ k \<noteq> p mod 2 ^ k" by auto
    have "cell_ok (2 ^ k) (unat (head q)) P ps' p (seq_at q (p mod 2 ^ k)) (qdata (buffer q ! (p mod 2 ^ k)))"
      by (rule cell_ok_mono[OF window_cell[OF win p]]) (use False own in simp_all)
    with ne show ?thesis by simp
  qed
qed

lemma log_ok_upd:
  assumes "log_ok h P ps L" "\<And>n. reading pc n = reading (ps t) n"
  shows "log_ok h P (ps(t := pc)) L"
proof -
  have e: "(\<exists>u. reading ((ps(t := pc)) u) n) = (\<exists>u. reading (ps u) n)" for n
    using assms(2) by (intro ex_upd) simp
  have "\<forall>u n. reading ((ps(t := pc)) u) n \<longrightarrow> n \<notin> fst ` set L"
    using assms by (auto simp: log_ok_def)
  with assms(1) show ?thesis by (simp only: log_ok_def e) blast
qed

lemma own_upd:
  assumes "\<And>m. m \<noteq> n \<Longrightarrow> P (ps t) m \<Longrightarrow> P pc m" "m \<noteq> n" "\<exists>u. P (ps u) m"
  shows "\<exists>u. P ((ps(t := pc)) u) m"
  using assms by (metis fun_upd_apply)

text \<open>
  An instruction that writes the cell of the position it owns: the five conditions are what
  the particular instruction has to show.
\<close>

lemma inv_write:
  assumes inv: "conc_inv k c"
    and n: "n < length (pushes c)" "length (pushes c) \<le> n + 2 ^ k"
    and owner: "pushing (pcs c t) n \<or> pulling (pcs c t) n"
    and cell: "cell_ok (2 ^ k) (unat (head (shared c))) (pushes c) ((pcs c)(t := pc)) (n + 2 ^ k)
        (unat (sequence d)) (qdata d)"
    and up: "seq_at (shared c) (n mod 2 ^ k) \<le> unat (sequence d)"
    and ok': "pc_ok k ((shared c)\<lparr>buffer := (buffer (shared c))[n mod 2 ^ k := d]\<rparr>) (pushes c) pc"
    and sub: "\<And>m. pushing pc m \<Longrightarrow> pushing (pcs c t) m" "\<And>m. pulling pc m \<Longrightarrow> pulling (pcs c t) m"
      "\<And>m. m \<noteq> n \<Longrightarrow> pushing (pcs c t) m \<Longrightarrow> pushing pc m"
      "\<And>m. m \<noteq> n \<Longrightarrow> pulling (pcs c t) m \<Longrightarrow> pulling pc m"
    and rd: "\<And>m. reading pc m = reading (pcs c t) m"
  shows "conc_inv k \<lparr>shared = (shared c)\<lparr>buffer := (buffer (shared c))[n mod 2 ^ k := d]\<rparr>,
    pcs = (pcs c)(t := pc), pushes = pushes c, pulls = pulls c\<rparr>"
proof -
  define q P ps where "q = shared c" and "P = pushes c" and "ps = pcs c"
  note defs = q_def[symmetric] P_def[symmetric] ps_def[symmetric]
  have sh: "q_shape k q P" and win: "q_window k q ps P" and ok: "\<And>u. pc_ok k q P (ps u)"
    and un: "unique_owners ps" and lg: "log_ok (unat (head q)) P ps (pulls c)"
    using inv by (auto simp: conc_inv_def defs)
  note [simp] = cell_less[OF sh]
  have h: "unat (head q) \<le> length P" using sh by (simp add: q_shape_def)
  let ?q = "q\<lparr>buffer := (buffer q)[n mod 2 ^ k := d]\<rparr>"
  have "q_shape k ?q P" using sh by (simp add: q_shape_def)
  moreover have "q_window k ?q (ps(t := pc)) P"
    using win n cell unfolding defs
    by (rule window_buffer) (use own_upd[of n pushing ps t pc] own_upd[of n pulling ps t pc] sub in \<open>simp_all add: defs\<close>)
  moreover have "pc_ok k ?q P ((ps(t := pc)) u)" for u
  proof (cases "u = t")
    case False
    have excl: "\<not> (pushing (ps u) n \<and> pulling (ps t) n)" "\<not> (pulling (ps u) n \<and> pushing (ps t) n)"
      using ok[of u] ok[of t] by (cases "ps u"; cases "ps t"; auto)+
    have "\<not> pushing (ps u) n" "\<not> pulling (ps u) n"
      using False owner un excl by (auto simp: unique_owners_def defs)
    with False show ?thesis
      using pc_ok_buffer[OF ok, of n u d] n up h by (simp add: defs)
  qed (use ok' in \<open>simp add: defs\<close>)
  moreover have "unique_owners (ps(t := pc))"
    using un sub(1,2) by (auto simp: unique_owners_def defs)
  moreover have "log_ok (unat (head q)) P (ps(t := pc)) (pulls c)"
    using lg rd by (intro log_ok_upd) (simp_all add: defs)
  ultimately show ?thesis by (simp add: conc_inv_def defs)
qed


lemma put_data_upd:
  "q_shape k q P \<Longrightarrow> put_data q pos x = Inr (q\<lparr>buffer := (buffer q)[unat pos mod 2 ^ k :=
     (buffer q ! (unat pos mod 2 ^ k))\<lparr>qdata := Some x\<rparr>]\<rparr>)"
  by (simp add: put_data_def)

lemma put_sequence_upd:
  "q_shape k q P \<Longrightarrow> put_sequence q pos s = Inr (q\<lparr>buffer := (buffer q)[unat pos mod 2 ^ k :=
     (buffer q ! (unat pos mod 2 ^ k))\<lparr>sequence := s\<rparr>]\<rparr>)"
  by (simp add: put_sequence_def)

lemma conc_invD:
  assumes "conc_inv k c"
  shows "q_shape k (shared c) (pushes c)" "q_window k (shared c) (pcs c) (pushes c)"
    "pc_ok k (shared c) (pushes c) (pcs c t)" "unique_owners (pcs c)"
    "log_ok (unat (head (shared c))) (pushes c) (pcs c) (pulls c)"
    "unat (head (shared c)) \<le> length (pushes c)"
  using assms by (auto simp: conc_inv_def q_shape_def)

lemma inv_push_data:
  assumes inv: "conc_inv k c" and pc: "pcs c t = Push_Data x pos" and put: "put_data (shared c) pos x = Inr q"
  shows "conc_inv k \<lparr>shared = q, pcs = (pcs c)(t := Push_Store x pos), pushes = pushes c, pulls = pulls c\<rparr>"
proof -
  note I = conc_invD[OF inv]
  note [simp] = cell_less[OF I(1)]
  have ok: "unat (head (shared c)) \<le> unat pos" "unat pos < length (pushes c)"
    "length (pushes c) \<le> unat pos + 2 ^ k" "seq_at (shared c) (unat pos mod 2 ^ k) = unat pos"
    "pushes c ! unat pos = x"
    using I(3)[of t] pc by simp_all
  have "\<exists>u. pushing (((pcs c)(t := Push_Store x pos)) u) (unat pos)" by (intro exI[of _ t]) simp
  moreover have q: "q = (shared c)\<lparr>buffer := (buffer (shared c))[unat pos mod 2 ^ k :=
      (buffer (shared c) ! (unat pos mod 2 ^ k))\<lparr>qdata := Some x\<rparr>]\<rparr>"
    using put put_data_upd[OF I(1)] by simp
  ultimately show ?thesis unfolding q
    by (intro inv_write[OF inv ok(2,3)]) (use pc ok in \<open>simp_all add: cell_ok_def\<close>)
qed

lemma inv_push_store:
  assumes inv: "conc_inv k c" and pc: "pcs c t = Push_Store x pos"
    and put: "put_sequence (shared c) pos (pos + 1) = Inr q"
  shows "conc_inv k \<lparr>shared = q, pcs = (pcs c)(t := Ret 1 None), pushes = pushes c, pulls = pulls c\<rparr>"
proof -
  note I = conc_invD[OF inv]
  note [simp] = cell_less[OF I(1)]
  have ok: "unat (head (shared c)) \<le> unat pos" "unat pos < length (pushes c)"
    "length (pushes c) \<le> unat pos + 2 ^ k" "seq_at (shared c) (unat pos mod 2 ^ k) = unat pos"
    "pushes c ! unat pos = x" "qdata (buffer (shared c) ! (unat pos mod 2 ^ k)) = Some x"
    using I(3)[of t] pc by simp_all
  have s: "unat (pos + 1) = Suc (unat pos)"
    by (rule unat_Suc_below63[OF refl]) (use I(1) ok(2) in \<open>simp add: q_shape_def\<close>)
  have q: "q = (shared c)\<lparr>buffer := (buffer (shared c))[unat pos mod 2 ^ k :=
      (buffer (shared c) ! (unat pos mod 2 ^ k))\<lparr>sequence := pos + 1\<rparr>]\<rparr>"
    using put put_sequence_upd[OF I(1)] by simp
  show ?thesis unfolding q
    by (intro inv_write[OF inv ok(2,3)]) (use pc ok s in \<open>simp_all add: cell_ok_def\<close>)
qed

lemma unat_next_round:
  assumes "q_shape k q P" "unat pos < length P"
  shows "unat (pos + buffer_mask q + 1) = unat pos + 2 ^ k"
proof -
  have lim: "length P + 2 ^ k < 2 ^ 63" and m: "pos + buffer_mask q + 1 = pos + of_nat (2 ^ k)"
    using assms by (simp_all add: q_shape_def)
  have "unat pos + 2 ^ k < (2::nat) ^ 63" using lim assms(2) by simp
  also have "(2::nat) ^ 63 \<le> 2 ^ LENGTH(64)" by simp
  finally show ?thesis unfolding m by (rule unat_add_below)
qed

lemma inv_pull_store:
  assumes inv: "conc_inv k c" and pc: "pcs c t = Pull_Store pos v"
    and put: "put_sequence (shared c) pos (pos + buffer_mask (shared c) + 1) = Inr q"
  shows "conc_inv k \<lparr>shared = q, pcs = (pcs c)(t := Ret 1 v), pushes = pushes c, pulls = pulls c\<rparr>"
proof -
  note I = conc_invD[OF inv]
  note [simp] = cell_less[OF I(1)]
  have ok: "unat pos < unat (head (shared c))" "unat pos < length (pushes c)"
    "length (pushes c) \<le> unat pos + 2 ^ k" "seq_at (shared c) (unat pos mod 2 ^ k) = unat pos + 1"
    using I(3)[of t] I(6) pc by simp_all
  note s = unat_next_round[OF I(1) ok(2)]
  have q: "q = (shared c)\<lparr>buffer := (buffer (shared c))[unat pos mod 2 ^ k :=
      (buffer (shared c) ! (unat pos mod 2 ^ k))\<lparr>sequence := pos + buffer_mask (shared c) + 1\<rparr>]\<rparr>"
    using put put_sequence_upd[OF I(1)] by simp
  show ?thesis unfolding q
    by (intro inv_write[OF inv ok(2,3)]) (use pc ok s in \<open>simp_all add: cell_ok_def\<close>)
qed

text \<open>The successful compare-and-exchange of a pull: the position at the head was published.\<close>

lemma pc_ok_pull_cas:
  assumes "pc_ok k q P pc" "unat v = Suc (unat (head q))"
    "seq_at q (unat (head q) mod 2 ^ k) = unat (head q) + 1"
  shows "pc_ok k (q\<lparr>head := v\<rparr>) P pc"
proof -
  have "unat p \<noteq> unat (head q)" if "seq_at q (unat p mod 2 ^ k) = unat p" for p
    using that assms(3) by (metis add_diff_cancel_left' diff_self_eq_0 zero_neq_one)
  with assms(1,2) show ?thesis by (cases pc) (fastforce simp: Suc_le_eq le_less)+
qed

lemma cell_ok_head: "cell_ok n h P ps p s d \<Longrightarrow> p \<noteq> h + n \<Longrightarrow> cell_ok n (Suc h) P ps p s d"
  by (auto simp: cell_ok_def)

lemma ex_add:
  assumes "(\<exists>u. P (f u)) \<or> b" "b \<Longrightarrow> P x" "P (f t) \<Longrightarrow> P x"
  shows "\<exists>u. P ((f(t := x)) u)"
proof (cases "P x")
  case True
  then show ?thesis by (intro exI[of _ t]) simp
next
  case False
  with assms obtain u where "P (f u)" by blast
  with False assms(3) show ?thesis by (intro exI[of _ u]) auto
qed

lemma log_ok_grow:
  assumes lg: "log_ok h P ps L" and pc: "\<And>m. reading pc m \<longleftrightarrow> m = h" and t: "\<And>m. \<not> reading (ps t) m"
  shows "log_ok (Suc h) P (ps(t := pc)) L"
proof -
  have "m \<notin> fst ` set L" if "reading ((ps(t := pc)) u) m" for u m
    using lg that pc by (cases "u = t") (auto simp: log_ok_def)
  moreover have "m \<in> fst ` set L \<or> (\<exists>u. reading ((ps(t := pc)) u) m)" if "m < Suc h" for m
  proof (cases "m = h")
    case True
    with pc show ?thesis by (intro disjI2 exI[of _ t]) simp
  next
    case False
    with that have "m < h" by simp
    with lg consider "m \<in> fst ` set L" | u where "reading (ps u) m" unfolding log_ok_def by blast
    then show ?thesis
    proof cases
      case 2
      with t show ?thesis by (intro disjI2 exI[of _ u]) auto
    qed simp
  qed
  moreover have "distinct (map fst L)" "\<forall>(n, v) \<in> set L. n < Suc h \<and> v = Some (P ! n)"
    using lg by (auto simp: log_ok_def)
  ultimately show ?thesis unfolding log_ok_def by blast
qed

lemma inv_pull_cas:
  assumes inv: "conc_inv k c" and pc: "pcs c t = Pull_Cas pos" and hd: "head (shared c) = pos"
  shows "conc_inv k \<lparr>shared = (shared c)\<lparr>head := pos + 1\<rparr>, pcs = (pcs c)(t := Pull_Data pos),
    pushes = pushes c, pulls = pulls c\<rparr>"
proof -
  define q P ps where "q = shared c" and "P = pushes c" and "ps = pcs c"
  note defs = q_def[symmetric] P_def[symmetric] ps_def[symmetric]
  note I = conc_invD[OF inv, unfolded defs]
  have hq: "head q = pos" using hd by (simp add: defs)
  have s: "seq_at q (unat pos mod 2 ^ k) = unat pos + 1" and lt: "unat pos < length P"
    using cell_of_head[OF I(1,2)] I(3)[of t] pc hq by (auto simp: defs)
  have lim: "length P + 2 ^ k < 2 ^ 63" and TH: "length P \<le> unat pos + 2 ^ k" using I(1) hq by (simp_all add: q_shape_def)
  have up: "unat (pos + 1) = Suc (unat pos)"
    by (rule unat_Suc_below63[OF refl]) (use lim lt in simp)
  let ?ps = "ps(t := Pull_Data pos)" and ?q = "q\<lparr>head := pos + 1\<rparr>"
  have e1: "(\<exists>u. pushing (?ps u) n) = (\<exists>u. pushing (ps u) n)" for n
    using pc by (intro ex_upd) (simp add: defs)
  have e2: "\<exists>u. pulling (?ps u) n" if "(\<exists>u. pulling (ps u) n) \<or> n = unat pos" for n
    by (rule ex_add[where P = "\<lambda>x. pulling x n", OF that]) (use pc in \<open>simp_all add: defs\<close>)
  have "q_shape k ?q P" using I(1) up lt hq by (simp add: q_shape_def)
  moreover have "q_window k ?q ?ps P"
    unfolding q_window_def
  proof (intro allI impI)
    fix p assume p: "length P \<le> p" "p < length P + 2 ^ k"
    note w = window_cell[OF I(2) p]
    have "cell_ok (2 ^ k) (Suc (unat pos)) P ?ps p (seq_at q (p mod 2 ^ k)) (qdata (buffer q ! (p mod 2 ^ k)))"
    proof (cases "p = unat pos + 2 ^ k")
      case True
      have "\<exists>u. pulling (?ps u) (unat pos)" by (rule e2) simp
      with True w s hq show ?thesis by (auto simp: cell_ok_def)
    next
      case False
      have "cell_ok (2 ^ k) (unat (head q)) P ?ps p (seq_at q (p mod 2 ^ k)) (qdata (buffer q ! (p mod 2 ^ k)))"
        by (rule cell_ok_mono[OF w]) (use e1 e2 in simp_all)
      with False hq show ?thesis by (intro cell_ok_head) simp_all
    qed
    with up show "cell_ok (2 ^ k) (unat (head ?q)) P ?ps p (seq_at ?q (p mod 2 ^ k))
        (qdata (buffer ?q ! (p mod 2 ^ k)))" by simp
  qed
  moreover have "pc_ok k ?q P (?ps u)" for u
    using pc_ok_pull_cas[OF I(3)[of u], of "pos + 1"] s up hq TH by (cases "u = t") simp_all
  moreover have "\<not> pulling (ps u) (unat pos)" for u
    using I(3)[of u] hq by (cases "ps u") auto
  then have "unique_owners ?ps" using I(4) by (auto simp: unique_owners_def)
  moreover have "log_ok (Suc (unat pos)) P ?ps (pulls c)"
    by (rule log_ok_grow) (use I(5) pc hq in \<open>auto simp: defs\<close>)
  ultimately show ?thesis using up by (simp add: conc_inv_def defs)
qed

lemma reading_pulling: "reading pc n \<Longrightarrow> pulling pc n"
  by (cases pc) auto

lemma log_ok_read:
  assumes lg: "log_ok h P ps L" and r: "\<And>m. reading (ps t) m \<longleftrightarrow> m = n"
    and only: "\<And>u. reading (ps u) n \<Longrightarrow> u = t" and n: "n < h" "d = Some (P ! n)"
    and pc: "\<And>m. \<not> reading pc m"
  shows "log_ok h P (ps(t := pc)) (L @ [(n, d)])"
proof -
  have "reading (ps t) n" using r by simp
  then have a: "n \<notin> fst ` set L" using lg unfolding log_ok_def by blast
  have "m \<notin> fst ` set (L @ [(n, d)])" if "reading ((ps(t := pc)) u) m" for u m
  proof -
    from that pc have u: "u \<noteq> t" "reading (ps u) m" by (auto split: if_splits)
    with only have "m \<noteq> n" by blast
    moreover have "m \<notin> fst ` set L" using lg u(2) unfolding log_ok_def by blast
    ultimately show ?thesis by simp
  qed
  moreover have "m \<in> fst ` set (L @ [(n, d)]) \<or> (\<exists>u. reading ((ps(t := pc)) u) m)" if "m < h" for m
  proof -
    from lg that consider "m \<in> fst ` set L" | u where "reading (ps u) m"
      unfolding log_ok_def by blast
    then show ?thesis
    proof cases
      case 2
      with r show ?thesis by (cases "u = t") (auto intro: exI[of _ u])
    qed simp
  qed
  ultimately show ?thesis using lg a n unfolding log_ok_def by simp
qed

text \<open>The read of a pull obtains the value pushed at its position, and no other read has.\<close>

lemma inv_pull_data:
  assumes inv: "conc_inv k c" and pc: "pcs c t = Pull_Data pos"
    and d: "d = qdata (buffer (shared c) ! (unat pos mod 2 ^ k))"
  shows "conc_inv k \<lparr>shared = shared c, pcs = (pcs c)(t := Pull_Store pos d),
    pushes = pushes c, pulls = pulls c @ [(unat pos, d)]\<rparr>"
proof -
  define q P ps where "q = shared c" and "P = pushes c" and "ps = pcs c"
  note defs = q_def[symmetric] P_def[symmetric] ps_def[symmetric]
  note I = conc_invD[OF inv, unfolded defs]
  have ok: "unat pos < unat (head q)" "length P \<le> unat pos + 2 ^ k"
    "seq_at q (unat pos mod 2 ^ k) = unat pos + 1"
    using I(3)[of t] pc by (simp_all add: defs)
  have dv: "d = Some (P ! unat pos)"
    using window_claimed[OF I(2) _ ok(2)] ok I(6) two_le_size[OF I(1)] by (auto simp: cell_ok_def d defs)
  let ?ps = "ps(t := Pull_Store pos d)"
  have e1: "(\<exists>u. pushing (?ps u) n) = (\<exists>u. pushing (ps u) n)" for n
    using pc by (intro ex_upd) (simp add: defs)
  have e2: "(\<exists>u. pulling (?ps u) n) = (\<exists>u. pulling (ps u) n)" for n
    using pc by (intro ex_upd) (simp add: defs)
  have "q_window k q ?ps P"
    using I(2) unfolding q_window_def cell_ok_def e1 e2 .
  moreover have "pc_ok k q P (?ps u)" for u
    using I(3)[of u] ok dv by simp
  moreover have "unique_owners ?ps" using I(4) pc by (auto simp: unique_owners_def defs)
  moreover have "log_ok (unat (head q)) P ?ps (pulls c @ [(unat pos, d)])"
  proof (rule log_ok_read[OF I(5)])
    show "reading (ps t) n \<longleftrightarrow> n = unat pos" for n using pc by (auto simp: defs)
    have "pulling (ps t) (unat pos)" using pc by (simp add: defs)
    then show "reading (ps u) (unat pos) \<Longrightarrow> u = t" for u
      using I(4) reading_pulling[of "ps u"] unfolding unique_owners_def by blast
  qed (use dv ok in simp_all)
  ultimately show ?thesis using I(1) by (simp add: conc_inv_def defs)
qed


lemma pull_next:
  assumes inv: "conc_inv k c" and pc: "pcs c t = Pull_Seq pos"
  shows "unat (pos + 1) = Suc (unat pos)"
proof (rule unat_Suc_below63[OF refl])
  note I = conc_invD[OF inv]
  have "Suc (unat pos) < length (pushes c) + 2 ^ k"
    using I(3)[of t] I(6) pc two_le_size[OF I(1)] by simp
  also have "\<dots> < 2 ^ 63" using I(1) by (simp add: q_shape_def)
  finally show "Suc (unat pos) < 2 ^ 63" .
qed

lemma mpmc_step_inv:
  assumes st: "mpmc_step c c'" and inv: "conc_inv k c" and bd: "length (pushes c') + 2 ^ k < 2 ^ 63"
  shows "conc_inv k c'"
  using st
proof (cases rule: mpmc_step.cases)
  case (call_push t rc v x)
  then show ?thesis using inv_local[OF inv, of "Push_Load x" t] by (simp add: conc_inv_def)
next
  case (call_pull t rc v)
  then show ?thesis using inv_local[OF inv, of Pull_Load t] by (simp add: conc_inv_def)
next
  case (run_push w t pc q)
  note I = conc_invD[OF inv]
  have self: ?thesis if "pc = pcs c t" "q = shared c" "claimed (pcs c t) pc = []"
    using that run_push inv by (simp add: conc_inv_def)
  show ?thesis
  proof (cases "pcs c t")
    case (Push_Load x)
    with run_push show ?thesis
      using inv_local[OF inv, of "Push_Seq x (tail (shared c))" t] I(1) by (auto simp: q_shape_def)
  next
    case (Push_Seq x pos)
    with run_push I(1) have q: "q = shared c" and
      pc: "(pc = Push_Cas x pos \<and> sequence (buffer q ! (unat pos mod 2 ^ k)) = pos) \<or>
        pc = Ret 0 None \<or> pc = Push_Load x" by (auto simp: res_simps dest: pos_diff_zero split: if_splits)
    have "pc_ok k (shared c) (pushes c) pc" using pc I(3)[of t] Push_Seq q by auto
    moreover have "claimed (pcs c t) pc = []" using pc Push_Seq by auto
    ultimately show ?thesis
      using inv_local[OF inv, of pc t] run_push q pc Push_Seq by auto
  next
    case (Push_Cas x pos)
    show ?thesis
    proof (cases "tail (shared c) = pos \<and> \<not> w")
      case True
      with Push_Cas run_push(2) have e: "pc = Push_Data x pos" "q = (shared c)\<lparr>tail := pos + 1\<rparr>"
        by auto
      from run_push(1) bd have "Suc (length (pushes c)) + 2 ^ k < 2 ^ 63" by (simp add: Push_Cas e)
      from inv_push_cas[OF inv Push_Cas conjunct1[OF True] this] show ?thesis
        by (simp add: run_push(1) Push_Cas e)
    next
      case False
      with Push_Cas run_push show ?thesis
        using inv_local[OF inv, of "Push_Seq x (tail (shared c))" t] I(1) by (auto simp: q_shape_def)
    qed
  next
    case (Push_Data x pos)
    with run_push put_data_upd[OF I(1)] show ?thesis
      using inv_push_data[OF inv Push_Data] by simp
  next
    case (Push_Store x pos)
    with run_push put_sequence_upd[OF I(1)] show ?thesis
      using inv_push_store[OF inv Push_Store] by simp
  qed (use self run_push in auto)
next
  case (run_pull w t pc q)
  note I = conc_invD[OF inv]
  have self: ?thesis if "pc = pcs c t" "q = shared c" "taken (pcs c t) pc = []"
    using that run_pull inv by (simp add: conc_inv_def)
  show ?thesis
  proof (cases "pcs c t")
    case Pull_Load
    with run_pull show ?thesis
      using inv_local[OF inv, of "Pull_Seq (head (shared c))" t] by auto
  next
    case (Pull_Seq pos)
    note s = pull_next[OF inv Pull_Seq]
    from Pull_Seq run_pull I(1) have q: "q = shared c" and
      pc: "(pc = Pull_Cas pos \<and> sequence (buffer q ! (unat pos mod 2 ^ k)) = pos + 1) \<or>
        pc = Ret 0 None \<or> pc = Pull_Load" by (auto simp: res_simps dest: pos_diff_zero split: if_splits)
    have "pc_ok k (shared c) (pushes c) pc" using pc I(3)[of t] Pull_Seq q s by auto
    moreover have "taken (pcs c t) pc = []" using pc Pull_Seq by auto
    ultimately show ?thesis
      using inv_local[OF inv, of pc t] run_pull q pc Pull_Seq by auto
  next
    case (Pull_Cas pos)
    show ?thesis
    proof (cases "head (shared c) = pos \<and> \<not> w")
      case True
      with Pull_Cas run_pull inv_pull_cas[OF inv Pull_Cas] show ?thesis by simp
    next
      case False
      with Pull_Cas run_pull show ?thesis
        using inv_local[OF inv, of "Pull_Seq (head (shared c))" t] by auto
    qed
  next
    case (Pull_Data pos)
    with run_pull(2) I(1) have
      e: "pc = Pull_Store pos (qdata (buffer (shared c) ! (unat pos mod 2 ^ k)))" "q = shared c" by auto
    from inv_pull_data[OF inv Pull_Data refl] show ?thesis by (simp add: run_pull(1) Pull_Data e)
  next
    case (Pull_Store pos v)
    with run_pull put_sequence_upd[OF I(1)] show ?thesis
      using inv_pull_store[OF inv Pull_Store] by simp
  qed (use self run_pull in auto)
qed

lemma pushes_grow: "mpmc_step c c' \<Longrightarrow> length (pushes c) \<le> length (pushes c')"
  by (erule mpmc_stepE) auto

lemma conc_init_inv:
  assumes "holds q k []" "tail q = 0" "head q = 0"
  shows "conc_inv k (conc_init q)"
proof -
  have k: "1 \<le> k" "k \<le> 62" and r: "buffer_mask q = 2 ^ k - 1" "length (buffer q) = 2 ^ k"
    using assms by (auto simp: holds_def)
  have p: "(2::nat) ^ k \<le> 2 ^ 62" using k by (intro power_increasing) auto
  have s: "sequence (buffer q ! i) = of_nat i" if "i < 2 ^ k" for i
  proof -
    have "slot k (of_nat i) = i" using that p by (simp add: slot_def unat_of_nat_below)
    with assms that show ?thesis unfolding holds_def by (metis add_0 le0 list.size(3))
  qed
  have "(2::nat) ^ k < 2 ^ 63" using p by (rule le_less_trans) simp
  then have "q_shape k q []" using k r assms by (simp add: q_shape_def)
  moreover have "q_window k q (\<lambda>_. Ret 0 None) ([] :: 'a list)"
  proof -
    have "seq_at q i = i" if "i < 2 ^ k" for i
      using s[OF that] that p by (simp add: unat_of_nat_below)
    then show ?thesis by (simp add: q_window_def cell_ok_def)
  qed
  ultimately show ?thesis
    using assms(3) by (simp add: conc_inv_def conc_init_def unique_owners_def log_ok_def)
qed

lemma reach_inv:
  assumes "mpmc_reach (conc_init q) c" "holds q k []" "tail q = 0" "head q = 0"
    "length (pushes c) + 2 ^ k < 2 ^ 63"
  shows "conc_inv k c"
  using assms
proof (induction rule: mpmc_reach.induct)
  case start
  then show ?case by (intro conc_init_inv)
next
  case (step c c')
  have "length (pushes c) + 2 ^ k < 2 ^ 63" using step.prems(4) pushes_grow[OF step.hyps(2)] by linarith
  then show ?case using step by (intro mpmc_step_inv[OF step.hyps(2)]) auto
qed


section \<open>Refusals\<close>

lemma pos_diff_neg:
  assumes d: "pos_diff s p = Inr d" "d < 0" and s: "unat s < 2 ^ 63"
  shows "unat s < unat p"
proof (rule ccontr)
  assume n: "\<not> unat s < unat p"
  then have "unat p < 2 ^ 63" using s by linarith
  from pos_diff_small[OF s this] d have "s < p" by (simp add: word_less_def)
  with n show False by (simp add: word_less_nat_alt)
qed

text \<open>Sequence numbers of claimed and of pulled positions have moved past them.\<close>

lemma window_rep:
  assumes "n < T" "(0::nat) < N"
  shows "\<exists>p. T \<le> p \<and> p < T + N \<and> p mod N = n mod N \<and> n + N \<le> p"
proof -
  define X where "X = (T - n + N - 1) div N * N"
  have "T - n \<le> X" "X < T - n + N"
    using assms(2) div_mult_mod_eq[of "T - n + N - 1" N] mod_less_divisor[OF assms(2), of "T - n + N - 1"]
    unfolding X_def by linarith+
  moreover have "1 \<le> (T - n + N - 1) div N" using assms by (simp add: div_greater_zero_iff Suc_le_eq)
  then have "N \<le> X" by (simp add: X_def)
  moreover have "(n + X) mod N = n mod N" by (simp add: X_def)
  ultimately show ?thesis using assms by (intro exI[of _ "n + X"] conjI) linarith+
qed

lemma seq_of_claimed:
  assumes inv: "conc_inv k c" and n: "n < length (pushes c)"
  shows "n \<le> seq_at (shared c) (n mod 2 ^ k)"
    "n < unat (head (shared c)) \<Longrightarrow> n < seq_at (shared c) (n mod 2 ^ k)"
proof -
  obtain p where p: "length (pushes c) \<le> p" "p < length (pushes c) + 2 ^ k" "p mod 2 ^ k = n mod 2 ^ k"
    "n + 2 ^ k \<le> p" using window_rep[OF n, of "2 ^ k"] by auto
  have "cell_ok (2 ^ k) (unat (head (shared c))) (pushes c) (pcs c) p (seq_at (shared c) (n mod 2 ^ k))
      (qdata (buffer (shared c) ! (n mod 2 ^ k)))"
    using window_cell[OF conc_invD(2)[OF inv] p(1,2)] unfolding p(3) .
  moreover have "n < p" using p(4) two_le_size[OF conc_invD(1)[OF inv]] by simp
  ultimately show "n \<le> seq_at (shared c) (n mod 2 ^ k)"
    "n < unat (head (shared c)) \<Longrightarrow> n < seq_at (shared c) (n mod 2 ^ k)"
    using p(4) by (auto simp: cell_ok_def)
qed

lemma seq_below63:
  assumes inv: "conc_inv k c"
  shows "seq_at (shared c) (n mod 2 ^ k) < 2 ^ 63"
proof -
  let ?T = "length (pushes c)"
  obtain p where p: "?T \<le> p" "p < ?T + 2 ^ k" "p mod 2 ^ k = n mod 2 ^ k"
  proof (cases "n < ?T")
    case True
    from window_rep[OF True, of "2 ^ k"] that show ?thesis by auto
  next
    case False
    then have "?T + (n - ?T) mod 2 ^ k < ?T + 2 ^ k" by simp
    moreover have "(?T + (n - ?T) mod 2 ^ k) mod 2 ^ k = n mod 2 ^ k"
      using False by (simp add: mod_simps)
    ultimately show ?thesis using that[of "?T + (n - ?T) mod 2 ^ k"] by simp
  qed
  have "seq_at (shared c) (n mod 2 ^ k) \<le> p"
    using window_cell[OF conc_invD(2)[OF inv] p(1,2)] two_le_size[OF conc_invD(1)[OF inv]]
    unfolding p(3) by (auto simp: cell_ok_def)
  also have "p < ?T + 2 ^ k" by (rule p(2))
  also have "\<dots> < 2 ^ 63" using conc_invD(1)[OF inv] by (simp add: q_shape_def)
  finally show ?thesis .
qed

lemma push_refused:
  assumes inv: "conc_inv k c" and pc: "pcs c t = Push_Seq x pos"
    and st: "push_instr w (shared c) (pcs c t) = Inr (Ret 0 v, q)"
  shows "unat pos = length (pushes c) \<and> (length (pushes c) = unat (head (shared c)) + 2 ^ k \<or>
    (2 ^ k \<le> length (pushes c) \<and> (\<exists>u. pulling (pcs c u) (length (pushes c) - 2 ^ k))))"
proof -
  note I = conc_invD[OF inv]
  obtain d where "pos_diff (sequence (buffer (shared c) ! (unat pos mod 2 ^ k))) pos = Inr d" "d < 0"
    using st pc I(1) by (auto simp: res_simps split: if_splits)
  then have lt: "seq_at (shared c) (unat pos mod 2 ^ k) < unat pos"
    by (rule pos_diff_neg) (rule seq_below63[OF inv])
  have eq: "unat pos = length (pushes c)"
    using seq_of_claimed(1)[OF inv, of "unat pos"] lt I(3)[of t] pc by force
  have "cell_ok (2 ^ k) (unat (head (shared c))) (pushes c) (pcs c) (unat pos)
      (seq_at (shared c) (unat pos mod 2 ^ k)) (qdata (buffer (shared c) ! (unat pos mod 2 ^ k)))"
    using window_cell[OF I(2), of "unat pos"] eq by simp
  moreover have "length (pushes c) \<le> unat (head (shared c)) + 2 ^ k" using I(1) by (simp add: q_shape_def)
  ultimately show ?thesis using eq lt by (auto simp: cell_ok_def)
qed

lemma pull_refused:
  assumes inv: "conc_inv k c" and pc: "pcs c t = Pull_Seq pos"
    and st: "pull_instr w (shared c) (pcs c t) = Inr (Ret 0 v, q)"
  shows "unat pos = unat (head (shared c)) \<and> (unat pos = length (pushes c) \<or>
    (\<exists>u. pushing (pcs c u) (unat pos)))"
proof -
  note I = conc_invD[OF inv]
  note s = pull_next[OF inv pc]
  obtain d where "pos_diff (sequence (buffer (shared c) ! (unat pos mod 2 ^ k))) (pos + 1) = Inr d" "d < 0"
    using st pc I(1) by (auto simp: res_simps split: if_splits)
  then have lt: "seq_at (shared c) (unat pos mod 2 ^ k) < Suc (unat pos)"
    using pos_diff_neg[OF _ _ seq_below63[OF inv, of "unat pos"]] s by metis
  have eq: "unat pos = unat (head (shared c))"
    using seq_of_claimed(2)[OF inv, of "unat pos"] lt I(3)[of t] I(6) pc by force
  show ?thesis
  proof (cases "unat pos = length (pushes c)")
    case False
    then have "unat pos < length (pushes c)" "length (pushes c) \<le> unat pos + 2 ^ k"
      using eq I(1) by (auto simp: q_shape_def)
    from window_claimed[OF I(2) this] eq lt show ?thesis by (auto simp: cell_ok_def)
  qed (use eq in simp)
qed


text \<open>When no thread owns a position, the shared queue is a sequential queue again.\<close>

lemma head_offset:
  assumes "q_shape k q P" "i \<le> 2 ^ k"
  shows "unat (head q + of_nat i) = unat (head q) + i"
proof (rule unat_add_below)
  have "unat (head q) + i \<le> length P + 2 ^ k" using assms by (simp add: q_shape_def)
  also have "\<dots> < 2 ^ 63" using assms by (simp add: q_shape_def)
  also have "(2::nat) ^ 63 \<le> 2 ^ LENGTH(64)" by simp
  finally show "unat (head q) + i < 2 ^ LENGTH(64)" .
qed

lemma quiescent_holds:
  assumes inv: "conc_inv k c" and no: "\<And>t n. \<not> pushing (pcs c t) n" "\<And>t n. \<not> pulling (pcs c t) n"
  shows "holds (shared c) k (drop (unat (head (shared c))) (pushes c))"
proof -
  define q P h where "q = shared c" and "P = pushes c" and "h = unat (head q)"
  note I = conc_invD(1,2)[OF inv, folded q_def P_def]
  note pos = head_offset[OF I(1), folded h_def]
  have k: "1 \<le> k" "k \<le> 62" "buffer_mask q = 2 ^ k - 1" "length (buffer q) = 2 ^ k"
    and T: "unat (tail q) = length P" and h: "h \<le> length P" "length P \<le> h + 2 ^ k"
    and lim: "length P + 2 ^ k < 2 ^ 63"
    using I(1) by (simp_all add: q_shape_def h_def)
  have sl: "slot k (head q + of_nat i) = (h + i) mod 2 ^ k" for i
    unfolding h_def by (rule slot_add[OF k(2)])
  have cell: "sequence (buffer q ! ((h + i) mod 2 ^ k)) = head q + of_nat i + 1 \<and>
      qdata (buffer q ! ((h + i) mod 2 ^ k)) = Some (P ! (h + i))" if "h + i < length P" for i
  proof -
    have n: "length P \<le> h + i + 2 ^ k" and i: "i \<le> 2 ^ k" using that h by simp_all
    have "h + i + 1 < 2 ^ 63" using that lim two_le_size[OF I(1)] by linarith
    then have "unat (head q + of_nat i + 1) = h + i + 1"
      using unat_Suc_below63[OF pos[OF i]] by simp
    then show ?thesis
      using window_claimed[OF I(2) that n] no unfolding cell_ok_def h_def by (simp add: word_unat_eq_iff)
  qed
  have free: "sequence (buffer q ! ((h + i) mod 2 ^ k)) = head q + of_nat i"
    if "length P \<le> h + i" "i < 2 ^ k" for i
  proof -
    have "h + i < length P + 2 ^ k" using that h by simp
    note w = window_cell[OF I(2) that(1) this]
    have "\<not> h \<le> h + i - 2 ^ k \<or> \<not> 2 ^ k \<le> h + i" using that(2) by linarith
    with w no have "seq_at q ((h + i) mod 2 ^ k) = h + i" unfolding cell_ok_def h_def by blast
    then show ?thesis using pos[of i] that(2) by (simp add: word_unat_eq_iff)
  qed
  have "tail q = head q + of_nat (length P - h)"
    using pos[of "length P - h"] h T by (simp add: word_unat_eq_iff)
  then have "holds q k (drop h P)"
    unfolding holds_def sl using k h cell free by (simp add: less_diff_conv le_diff_conv add.commute)
  then show ?thesis by (simp add: q_def P_def h_def)
qed

lemma quiescent_log:
  assumes lg: "log_ok h P ps L" and h: "h \<le> length P" and no: "\<And>t n. \<not> reading (ps t) n"
  shows "mset (map snd L) = mset (map Some (take h P))"
proof -
  have D: "distinct (map fst L)" and S: "\<forall>(n, v) \<in> set L. n < h \<and> v = Some (P ! n)"
    and A: "\<forall>n < h. n \<in> fst ` set L"
    using lg no unfolding log_ok_def by blast+
  have "set (map fst L) = {0..<h}" using S A by fastforce
  then have "mset (map fst L) = mset [0..<h]"
    using D by (intro set_eq_iff_mset_eq_distinct[THEN iffD1]) simp_all
  then have "mset (map (\<lambda>n. Some (P ! n)) (map fst L)) = mset (map (\<lambda>n. Some (P ! n)) [0..<h])"
    by (metis mset_map)
  moreover have "map (\<lambda>n. Some (P ! n)) (map fst L) = map snd L"
    using S by auto
  moreover have "map (\<lambda>n. Some (P ! n)) [0..<h] = map Some (take h P)"
    using h by (auto intro!: nth_equalityI)
  ultimately show ?thesis by metis
qed

section \<open>Schedules\<close>

text \<open>
  A schedule makes the steps executable: which thread calls what, or runs its next instruction;
  with \<open>Run_Weak\<close> that instruction fails spuriously if it is a compare-and-exchange.
\<close>

datatype 'a action = Do_Push nat 'a | Do_Pull nat | Run nat | Run_Weak nat

definition is_ret :: "'a mpmc_pc \<Rightarrow> bool" where
  "is_ret pc = (case pc of Ret rc v \<Rightarrow> True | _ \<Rightarrow> False)"

definition is_push_pc :: "'a mpmc_pc \<Rightarrow> bool" where
  "is_push_pc pc = (case pc of Push_Load x \<Rightarrow> True | Push_Seq x p \<Rightarrow> True | Push_Cas x p \<Rightarrow> True
     | Push_Data x p \<Rightarrow> True | Push_Store x p \<Rightarrow> True | _ \<Rightarrow> False)"

definition run_instr :: "bool \<Rightarrow> 'a conc \<Rightarrow> nat \<Rightarrow> 'a conc option" where
  "run_instr w c t =
     (if is_push_pc (pcs c t) then
        (case push_instr w (shared c) (pcs c t) of
           Inl e \<Rightarrow> None
         | Inr (pc, q) \<Rightarrow> Some \<lparr>shared = q, pcs = (pcs c)(t := pc),
             pushes = pushes c @ claimed (pcs c t) pc, pulls = pulls c\<rparr>)
      else
        (case pull_instr w (shared c) (pcs c t) of
           Inl e \<Rightarrow> None
         | Inr (pc, q) \<Rightarrow> Some \<lparr>shared = q, pcs = (pcs c)(t := pc),
             pushes = pushes c, pulls = pulls c @ taken (pcs c t) pc\<rparr>))"

fun act :: "'a conc \<Rightarrow> 'a action \<Rightarrow> 'a conc option" where
  "act c (Do_Push t x) = (if is_ret (pcs c t) then Some (c\<lparr>pcs := (pcs c)(t := Push_Load x)\<rparr>) else None)"
| "act c (Do_Pull t) = (if is_ret (pcs c t) then Some (c\<lparr>pcs := (pcs c)(t := Pull_Load)\<rparr>) else None)"
| "act c (Run t) = run_instr False c t"
| "act c (Run_Weak t) = run_instr True c t"

fun run_schedule :: "'a conc \<Rightarrow> 'a action list \<Rightarrow> 'a conc option" where
  "run_schedule c [] = Some c"
| "run_schedule c (a # as) = (case act c a of None \<Rightarrow> None | Some c' \<Rightarrow> run_schedule c' as)"

lemma run_instr_step: "run_instr w c t = Some c' \<Longrightarrow> mpmc_step c c'"
  by (auto simp: run_instr_def split: if_splits sum.splits prod.splits intro: mpmc_step.run_push mpmc_step.run_pull)

lemma act_step: "act c a = Some c' \<Longrightarrow> mpmc_step c c'"
proof (cases a)
  case (Do_Push t x)
  then show "act c a = Some c' \<Longrightarrow> ?thesis"
    by (auto simp: is_ret_def split: if_splits mpmc_pc.splits intro: mpmc_step.call_push)
next
  case (Do_Pull t)
  then show "act c a = Some c' \<Longrightarrow> ?thesis"
    by (auto simp: is_ret_def split: if_splits mpmc_pc.splits intro: mpmc_step.call_pull)
qed (auto intro: run_instr_step)

text \<open>Running a schedule on a concrete queue.\<close>

lemmas run_simps = run_instr_def is_ret_def is_push_pc_def cell_of_def upt_rec pos_diff_def c_intptr_def guard_res_def

lemma run_reach: "run_schedule c as = Some c' \<Longrightarrow> mpmc_reach c0 c \<Longrightarrow> mpmc_reach c0 c'"
proof (induction as arbitrary: c)
  case (Cons a as)
  then obtain d where "act c a = Some d" "run_schedule d as = Some c'"
    by (auto split: option.splits)
  with Cons show ?case by (blast intro: mpmc_reach.step act_step)
qed simp

section \<open>Properties\<close>

lemma init_holds:
  assumes "mpmc_queue_init (2 ^ k) mem = Inr (0, Some q)" "1 \<le> k" "k \<le> 62"
  shows "holds q k []" "tail q = 0" "head q = 0"
proof -
  have p: "unat (2 ^ k :: u64) = 2 ^ k" using assms by (simp add: unat_pow2_64)
  have q: "q = \<lparr>qmem = mem, buffer_mask = 2 ^ k - 1,
      buffer = map (\<lambda>i. \<lparr>sequence = of_nat i, qdata = None\<rparr>) [0..<2 ^ k], tail = 0, head = 0\<rparr>"
  proof -
    obtain r where r: "memory_alloc mem (16 * 2 ^ k) = Inr r"
      using assms(1) by (auto simp: mpmc_queue_init_def res_simps split: if_splits)
    with assms(1) p show ?thesis by (cases r) (auto simp: mpmc_queue_init_def split: if_splits)
  qed
  show "holds q k []" unfolding q by (rule holds_init[OF assms(2,3)])
  show "tail q = 0" "head q = 0" unfolding q by simp_all
qed

text \<open>Property C1: under any interleaving of pushes and pulls of any number of threads on a fresh
  queue (up to \<open>2 ^ 63\<close> pushes), every value a pull obtains is the value pushed at its
  position, no position is pulled twice, every position the head has passed is pulled or
  about to be read, and never more than \<open>2 ^ k\<close> positions are in flight.\<close>
theorem mpmc_conc_fifo:
  assumes "mpmc_queue_init (2 ^ k) mem = Inr (0, Some q)" "1 \<le> k" "k \<le> 62"
    and "mpmc_reach (conc_init q) c" "length (pushes c) + 2 ^ k < 2 ^ 63"
  shows "distinct (map fst (pulls c)) \<and>
    (\<forall>(n, v) \<in> set (pulls c). n < unat (head (shared c)) \<and> v = Some (pushes c ! n)) \<and>
    (\<forall>n < unat (head (shared c)). n \<in> fst ` set (pulls c) \<or> (\<exists>t p. pcs c t = Pull_Data p \<and> unat p = n)) \<and>
    unat (head (shared c)) \<le> length (pushes c) \<and> length (pushes c) \<le> unat (head (shared c)) + 2 ^ k"
proof -
  have inv: "conc_inv k c" using reach_inv[OF assms(4) init_holds[OF assms(1-3)] assms(5)] .
  have r: "(\<exists>t. reading (pcs c t) n) = (\<exists>t p. pcs c t = Pull_Data p \<and> unat p = n)" for n
  proof -
    have "reading pc n = (\<exists>p. pc = Pull_Data p \<and> unat p = n)" for pc :: "'a mpmc_pc" by (cases pc) auto
    then show ?thesis by simp
  qed
  show ?thesis using conc_invD(5,6)[OF inv] conc_invD(1)[OF inv] unfolding log_ok_def r q_shape_def by blast
qed

definition conc_sample :: "nat action list" where
  "conc_sample = [Do_Push 0 7, Do_Push 1 8, Run 0, Run 1, Run 0, Run 1, Run 0, Run 1, Run 0, Run 0,
     Do_Pull 2, Run 2, Run 2, Run 2, Run 2]"

lemma sample_init: "mpmc_queue_init (2 ^ 1) (memtype_heap sample_sys) = Inr (0, Some sample_queue)"
  by (simp add: mpmc_queue_init_def sample_sys_def sample_queue_def)

lemma conc_sample_run:
  "\<exists>c. run_schedule (conc_init sample_queue) conc_sample = Some c \<and> pushes c = [7] \<and> pulls c = [(0, Some 7)] \<and>
     pcs c 1 = Push_Seq 8 1 \<and> pcs c 2 = Pull_Store 0 (Some 7)"
  by (simp add: conc_sample_def conc_init_def sample_queue_def run_simps
      put_data_def put_sequence_def upt_rec)

theorem mpmc_conc_fifo_witness:
  "\<exists>c. mpmc_reach (conc_init sample_queue) c \<and> pulls c = [(0, Some 7)] \<and>
     (\<forall>(n, v) \<in> set (pulls c). v = Some (pushes c ! n))"
proof -
  obtain c where c: "run_schedule (conc_init sample_queue) conc_sample = Some c"
    "pushes c = [7]" "pulls c = [(0, Some 7)]" using conc_sample_run by blast
  have r: "mpmc_reach (conc_init sample_queue) c" by (rule run_reach[OF c(1) mpmc_reach.start])
  from mpmc_conc_fifo[OF sample_init _ _ r] c r show ?thesis by auto
qed


text \<open>Property C20: two threads never access the data of the same cell at the same time: if one is
  about to store it and another about to store or read it, they are the same thread.\<close>
theorem mpmc_conc_race_free:
  assumes "mpmc_queue_init (2 ^ k) mem = Inr (0, Some q)" "1 \<le> k" "k \<le> 62"
    and "mpmc_reach (conc_init q) c" "length (pushes c) + 2 ^ k < 2 ^ 63"
    and "pcs c t = Push_Data x p" "(\<exists>y. pcs c u = Push_Data y r) \<or> pcs c u = Pull_Data r"
    and "cell_of (shared c) p = cell_of (shared c) r"
  shows "t = u \<and> p = r"
proof -
  have inv: "conc_inv k c" using reach_inv[OF assms(4) init_holds[OF assms(1-3)] assms(5)] .
  note I = conc_invD[OF inv]
  have eq: "unat p mod 2 ^ k = unat r mod 2 ^ k" using assms(8) I(1) by simp
  have p: "unat p < length (pushes c)" "length (pushes c) \<le> unat p + 2 ^ k"
    "seq_at (shared c) (unat p mod 2 ^ k) = unat p"
    using I(3)[of t] assms(6) by simp_all
  have r: "unat r < length (pushes c)" "length (pushes c) \<le> unat r + 2 ^ k"
    using I(3)[of u] I(6) assms(7) by auto
  have pr: "unat p = unat r" by (rule claimed_inj[OF p(2,1) r(2,1) eq])
  then have "p = r" by (simp only: word_unat_eq_iff)
  moreover have "pcs c u \<noteq> Pull_Data r" using I(3)[of u] p(3) pr by auto
  with assms(7) have "pushing (pcs c u) (unat p)" using pr by auto
  moreover have "pushing (pcs c t) (unat p)" using assms(6) by simp
  ultimately show ?thesis using I(4) unfolding unique_owners_def by blast
qed

theorem mpmc_conc_race_free_witness:
  "\<exists>c. mpmc_reach (conc_init sample_queue) c \<and> pcs c 0 = Push_Data 7 0 \<and>
     (\<forall>u r y. pcs c u = Push_Data y r \<longrightarrow> cell_of (shared c) 0 = cell_of (shared c) r \<longrightarrow> 0 = u)"
proof -
  have "\<exists>c. run_schedule (conc_init sample_queue) [Do_Push 0 7, Run 0, Run 0, Run 0] = Some c \<and>
      pushes c = [7] \<and> pcs c 0 = Push_Data 7 0"
    by (simp add: conc_init_def sample_queue_def run_simps)
  then obtain c where c: "run_schedule (conc_init sample_queue) [Do_Push 0 7, Run 0, Run 0, Run 0] = Some c"
    "pushes c = [7]" "pcs c 0 = Push_Data 7 0" by blast
  have r: "mpmc_reach (conc_init sample_queue) c" by (rule run_reach[OF c(1) mpmc_reach.start])
  from mpmc_conc_race_free[OF sample_init _ _ r _ c(3)] c r show ?thesis by auto
qed

text \<open>Property C19: whenever no call is in progress, the shared queue is a bounded first-in first-out
  queue holding exactly the pushed values not yet pulled, in the order their pushes claimed
  their positions; the values pulled are the earlier ones, each once.\<close>
theorem mpmc_conc_quiescent:
  assumes "mpmc_queue_init (2 ^ k) mem = Inr (0, Some q)" "1 \<le> k" "k \<le> 62"
    and "mpmc_reach (conc_init q) c" "length (pushes c) + 2 ^ k < 2 ^ 63"
    and idle: "\<And>t. is_ret (pcs c t)"
  shows "holds (shared c) k (drop (unat (head (shared c))) (pushes c)) \<and>
    mset (map snd (pulls c)) = mset (map Some (take (unat (head (shared c))) (pushes c)))"
proof
  have inv: "conc_inv k c" using reach_inv[OF assms(4) init_holds[OF assms(1-3)] assms(5)] .
  have no: "\<not> pushing (pcs c t) n" "\<not> pulling (pcs c t) n" "\<not> reading (pcs c t) n" for t n
    using idle[of t] by (auto simp: is_ret_def split: mpmc_pc.splits)
  show "holds (shared c) k (drop (unat (head (shared c))) (pushes c))"
    by (rule quiescent_holds[OF inv no(1,2)])
  show "mset (map snd (pulls c)) = mset (map Some (take (unat (head (shared c))) (pushes c)))"
    by (rule quiescent_log[OF conc_invD(5,6)[OF inv] no(3)])
qed

lemma sample_all_ret:
  "\<exists>c. run_schedule (conc_init sample_queue)
      [Do_Push 0 7, Do_Push 1 8, Run 0, Run 1, Run 1, Run 0, Run 1, Run 0, Run 0, Run 0, Run 1, Run 0, Run 1,
       Run 0, Do_Pull 2, Run 2, Run 2, Run 2, Run 2, Run 2] = Some c \<and> pushes c = [8, 7] \<and>
     pulls c = [(0, Some 8)] \<and> unat (head (shared c)) = 1 \<and> (\<forall>t. is_ret (pcs c t))"
  by (simp add: conc_init_def sample_queue_def run_simps
      put_data_def put_sequence_def upt_rec)

theorem mpmc_conc_quiescent_witness:
  "\<exists>c. mpmc_reach (conc_init sample_queue) c \<and> pulls c = [(0, Some 8)] \<and> holds (shared c) 1 [7]"
proof -
  obtain c as where c: "run_schedule (conc_init sample_queue) as = Some c" "pushes c = [8, 7]"
    "pulls c = [(0, Some 8)]" "unat (head (shared c)) = 1" "\<And>t. is_ret (pcs c t)"
    using sample_all_ret by blast
  have r: "mpmc_reach (conc_init sample_queue) c" by (rule run_reach[OF c(1) mpmc_reach.start])
  from mpmc_conc_quiescent[OF sample_init _ _ r _ c(5)] c r show ?thesis by auto
qed

text \<open>A push is refused only at the tail and only if \<open>2 ^ k\<close> positions are unpulled
  or the pull that is to free the next cell has not finished; a pull is refused only at the
  head and only if nothing is unpulled or the push of the next position has not finished.\<close>
theorem mpmc_conc_refusal:
  assumes "mpmc_queue_init (2 ^ k) mem = Inr (0, Some q)" "1 \<le> k" "k \<le> 62"
    and "mpmc_reach (conc_init q) c" "length (pushes c) + 2 ^ k < 2 ^ 63"
  shows "(pcs c t = Push_Seq x pos \<and> push_instr w (shared c) (pcs c t) = Inr (Ret 0 None, q') \<longrightarrow>
      unat pos = length (pushes c) \<and> (length (pushes c) = unat (head (shared c)) + 2 ^ k \<or>
        (2 ^ k \<le> length (pushes c) \<and> (\<exists>u. pulling (pcs c u) (length (pushes c) - 2 ^ k))))) \<and>
    (pcs c t = Pull_Seq pos \<and> pull_instr w (shared c) (pcs c t) = Inr (Ret 0 None, q') \<longrightarrow>
      unat pos = unat (head (shared c)) \<and> (unat pos = length (pushes c) \<or>
        (\<exists>u. pushing (pcs c u) (unat pos))))"
proof -
  have inv: "conc_inv k c" using reach_inv[OF assms(4) init_holds[OF assms(1-3)] assms(5)] .
  show ?thesis using push_refused[OF inv] pull_refused[OF inv] by blast
qed

lemma sample_refusal:
  "\<exists>c. run_schedule (conc_init sample_queue)
      [Do_Push 0 7, Run 0, Run 0, Run 0, Do_Pull 1, Run 1] = Some c \<and> pushes c = [7] \<and>
     pcs c 1 = Pull_Seq 0 \<and> pull_instr False (shared c) (pcs c 1) = Inr (Ret 0 None, shared c) \<and>
     unat (head (shared c)) = 0"
  by (simp add: conc_init_def sample_queue_def run_simps)

theorem mpmc_conc_refusal_witness:
  "\<exists>c. mpmc_reach (conc_init sample_queue) c \<and> pcs c 1 = Pull_Seq 0 \<and> (\<exists>u. pushing (pcs c u) 0)"
proof -
  obtain c as where c: "run_schedule (conc_init sample_queue) as = Some c" "pushes c = [7]"
    "pcs c 1 = Pull_Seq 0" "pull_instr False (shared c) (pcs c 1) = Inr (Ret 0 None, shared c)"
    using sample_refusal by blast
  have r: "mpmc_reach (conc_init sample_queue) c" by (rule run_reach[OF c(1) mpmc_reach.start])
  from mpmc_conc_refusal[OF sample_init _ _ r, of 1 0 0 False "shared c"] c r show ?thesis by auto
qed

end
