(* ===== verification/Checksum.thy ===== *)
theory Checksum
  imports Prelude
begin

text \<open>
  The Internet checksums of \<open>opera-v2/calculate_checksum.h\<close>. Headers are byte ranges of a byte
  object; 16-bit accesses are little endian, so the sums are over swapped words, as on the
  emulator's machine. The reference is the sum of the 16-bit words modulo \<open>2 ^ 16 - 1\<close>.
\<close>

section \<open>Summation and folding\<close>

text \<open>
  The summation loop. The trailing odd byte is read as a whole word and masked, so it reads
  one byte further than it sums.
\<close>

fun sum_words :: "u8 list \<Rightarrow> nat \<Rightarrow> nat \<Rightarrow> u64 \<Rightarrow> u64 res" where
  "sum_words m a (Suc (Suc cnt)) acc = rbind (load16 m a) (\<lambda>w. sum_words m (a + 2) cnt (acc + ucast w))"
| "sum_words m a (Suc 0) acc = rbind (load16 m a) (\<lambda>w. Inr (acc + ucast (w AND htons 0xFF00)))"
| "sum_words m a 0 acc = Inr acc"

text \<open>Adding the carries until none is left.\<close>

lemma fold_decreases:
  fixes s :: u64
  assumes "drop_bit 16 s \<noteq> 0"
  shows "unat ((s AND 0xFFFF) + drop_bit 16 s) = unat s mod 65536 + unat s div 65536"
    "unat ((s AND 0xFFFF) + drop_bit 16 s) < unat s"
proof -
  have m: "s AND 0xFFFF = s AND (2 ^ 16 - 1)" by simp
  have lo: "unat (s AND 0xFFFF) = unat s mod 65536"
    unfolding m by (subst unat_and_mask) simp_all
  have hi: "unat (drop_bit 16 s) = unat s div 65536"
    by (simp add: unat_drop_bit_div)
  from assms have "unat (drop_bit 16 s) \<noteq> 0" by (simp add: unat_eq_zero)
  with hi have pos: "unat s div 65536 > 0" by simp
  have e: "unat s = unat s div 65536 * 65536 + unat s mod 65536" by simp
  from e pos have lt: "unat s mod 65536 + unat s div 65536 < unat s" by linarith
  then have "unat (s AND 0xFFFF) + unat (drop_bit 16 s) < 2 ^ LENGTH(64)"
    using lo hi unat_below[of s] by linarith
  then show eq: "unat ((s AND 0xFFFF) + drop_bit 16 s) = unat s mod 65536 + unat s div 65536"
    using lo hi by (simp only: unat_add_small_sum)
  show "unat ((s AND 0xFFFF) + drop_bit 16 s) < unat s" using eq lt by simp
qed

function fold16 :: "u64 \<Rightarrow> u64" where
  "fold16 acc = (if drop_bit 16 acc \<noteq> 0 then fold16 ((acc AND 0xFFFF) + drop_bit 16 acc) else acc)"
  by pat_completeness auto
termination by (relation "measure unat") (simp_all add: fold_decreases(2))

declare fold16.simps [simp del]

definition compute_checksum :: "u8 list \<Rightarrow> nat \<Rightarrow> nat \<Rightarrow> u16 res" where
  "compute_checksum m a cnt = rbind (sum_words m a cnt 0) (\<lambda>acc. Inr (ucast (NOT (fold16 acc))))"

text \<open>Offsets in an IPv4 header (\<open>struct iphdr\<close>): the header length is the low nibble of byte 0.\<close>

definition ip_ihl :: "u8 \<Rightarrow> nat" where
  "ip_ihl b = unat (b AND 0xF)"

definition compute_ip_checksum :: "u8 list \<Rightarrow> nat \<Rightarrow> u8 list res" where
  "compute_ip_checksum m ip = rbind (store16 m (ip + 10) 0) (\<lambda>m.
     rbind (load8 m ip) (\<lambda>b. rbind (compute_checksum m ip (4 * ip_ihl b)) (\<lambda>c. store16 m (ip + 10) c)))"

text \<open>The pseudo header: both addresses in 16-bit halves, the protocol, the length.\<close>

definition pseudo_sum :: "u32 \<Rightarrow> u32 \<Rightarrow> u16 \<Rightarrow> u16 \<Rightarrow> u64" where
  "pseudo_sum saddr daddr proto len =
     ucast ((drop_bit 16 saddr) AND 0xFFFF) + ucast (saddr AND 0xFFFF) +
     ucast ((drop_bit 16 daddr) AND 0xFFFF) + ucast (daddr AND 0xFFFF) + ucast (htons proto) + ucast len"

definition compute_tcp_checksum :: "u8 list \<Rightarrow> nat \<Rightarrow> nat \<Rightarrow> u8 list res" where
  "compute_tcp_checksum m ip pl =
     rbind (load16 m (ip + 2)) (\<lambda>tot. rbind (load8 m ip) (\<lambda>b.
     rbind (load32 m (ip + 12)) (\<lambda>saddr. rbind (load32 m (ip + 16)) (\<lambda>daddr.
       let tcpLen = htons tot - of_nat (4 * ip_ihl b) in
       rbind (store16 m (pl + 16) 0) (\<lambda>m.
       rbind (sum_words m pl (unat tcpLen) (pseudo_sum saddr daddr 6 (htons tcpLen))) (\<lambda>acc.
         store16 m (pl + 16) (ucast (NOT (fold16 acc)))))))))"

definition compute_udp_checksum :: "u8 list \<Rightarrow> nat \<Rightarrow> nat \<Rightarrow> u8 list res" where
  "compute_udp_checksum m ip pl =
     rbind (load16 m (pl + 4)) (\<lambda>ulen.
     rbind (load32 m (ip + 12)) (\<lambda>saddr. rbind (load32 m (ip + 16)) (\<lambda>daddr.
       rbind (store16 m (pl + 6) 0) (\<lambda>m.
       rbind (sum_words m pl (unat (htons ulen)) (pseudo_sum saddr daddr 17 ulen)) (\<lambda>acc.
         let c = ucast (NOT (fold16 acc)) :: u16 in
         store16 m (pl + 6) (if c = 0 then 0xFFFF else c))))))"


section \<open>The reference sum\<close>

text \<open>The 16-bit words of a byte range added as numbers; a last odd byte is padded with zero.\<close>

fun word_sum :: "u8 list \<Rightarrow> nat \<Rightarrow> nat \<Rightarrow> nat" where
  "word_sum m a (Suc (Suc n)) = unat (word16_of_bytes (m ! a) (m ! Suc a)) + word_sum m (a + 2) n"
| "word_sum m a (Suc 0) = unat (m ! a)"
| "word_sum m a 0 = 0"

lemma unat_u16 [simp]: "unat (w :: u16) < 65536"
  using unat_below[of w] by simp

lemma odd_byte: "word16_of_bytes lo hi AND htons 0xFF00 = ucast lo"
proof -
  have "htons 0xFF00 = mask 8" by (simp add: htons_def byte_of_def word16_of_bytes_def mask_eq_exp_minus_1 drop_bit_eq_div)
  then show ?thesis
    by (auto intro!: bit_word_eqI simp: word16_of_bytes_def bit_simps dest: bit_u8_less)
qed

lemma word_sum_bound: "word_sum m a n \<le> 65536 * n"
proof (induction m a n rule: word_sum.induct)
  case (1 m a n)
  then show ?case using unat_u16[of "word16_of_bytes (m ! a) (m ! Suc a)"] by (simp del: unat_u16)
next
  case (2 m a)
  then show ?case using unat_below[of "m ! a"] by simp
qed simp

lemma sum_words_correct:
  assumes "a + cnt + cnt mod 2 \<le> length m" "unat acc + 65536 * cnt < 2 ^ 64"
  shows "\<exists>s. sum_words m a cnt acc = Inr s \<and> unat s = unat acc + word_sum m a cnt"
  using assms
proof (induction m a cnt acc rule: sum_words.induct)
  case (1 m a cnt acc)
  let ?w = "word16_of_bytes (m ! a) (m ! Suc a)"
  have "unat acc + unat ?w < 2 ^ LENGTH(64)"
    using 1(3) unat_u16[of ?w] by (simp del: unat_u16)
  then have u: "unat (acc + ucast ?w) = unat acc + unat ?w" by (subst unat_add_small_sum) simp_all
  have "unat (acc + ucast ?w) + 65536 * cnt < 2 ^ 64"
    using 1(3) u unat_u16[of ?w] by (simp del: unat_u16)
  with 1(1)[of ?w] 1(2) u show ?case by auto
next
  case (2 m a acc)
  have "unat acc + unat (m ! a) < 2 ^ LENGTH(64)"
    using 2(2) unat_below[of "m ! a"] by simp
  then have "unat (acc + ucast (ucast (m ! a) :: u16)) = unat acc + unat (m ! a)"
    by (subst unat_add_small_sum) simp_all
  with 2(1) show ?case by (simp add: odd_byte)
qed simp

lemma word_sum_cong:
  "(\<And>i. a \<le> i \<Longrightarrow> i < a + n \<Longrightarrow> m ! i = m' ! i) \<Longrightarrow> word_sum m a n = word_sum m' a n"
proof (induction m a n rule: word_sum.induct)
  case (1 m a n)
  then show ?case using 1(2)[of a] 1(2)[of "Suc a"] by simp
qed simp_all

lemma word_sum_put:
  fixes w :: u16
  assumes "2 * i + 2 \<le> n" "a + n \<le> length m"
  shows "word_sum (m[a + 2 * i := byte_of 0 w, Suc (a + 2 * i) := byte_of 1 w]) a n +
      unat (word16_of_bytes (m ! (a + 2 * i)) (m ! Suc (a + 2 * i))) = word_sum m a n + unat w"
  using assms
proof (induction i arbitrary: a n)
  case 0
  then obtain n' where n: "n = Suc (Suc n')" by (metis add_2_eq_Suc le_Suc_ex mult_0_right plus_nat.add_0)
  have "word_sum (m[a := byte_of 0 w, Suc a := byte_of 1 w]) (a + 2) n' = word_sum m (a + 2) n'"
    by (rule word_sum_cong) simp
  with 0 n show ?case by simp
next
  case (Suc i)
  then obtain n' where n: "n = Suc (Suc n')" by (metis add_2_eq_Suc le_Suc_ex add.assoc add.commute)
  then show ?case using Suc.IH[of n' "a + 2"] Suc.prems by simp
qed

section \<open>Folding is reduction modulo \<open>2 ^ 16 - 1\<close>\<close>

lemma fold16_done: "drop_bit 16 s = 0 \<Longrightarrow> fold16 s = s"
  by (subst fold16.simps) (simp only: simp_thms if_False)

lemma fold16_step: "drop_bit 16 s \<noteq> 0 \<Longrightarrow> fold16 s = fold16 ((s AND 0xFFFF) + drop_bit 16 s)"
  by (subst fold16.simps) (simp only: simp_thms if_True)

lemma fold_split: "(x::nat) = x div 65536 * 65535 + (x mod 65536 + x div 65536)"
  using div_mult_mod_eq[of x 65536] by linarith

lemma fold_max:
  assumes "(x::nat) < 65536" "x mod 65535 = 0" "x \<noteq> 0"
  shows "x = 65535"
proof -
  obtain k where k: "x = 65535 * k" using assms(2) by (auto simp: mod_eq_0_iff_dvd elim: dvdE)
  with assms(1,3) have "k < 2" "k \<noteq> 0" by (linarith, auto)
  then have "k = 1" by simp
  with k show ?thesis by simp
qed

lemma fold16_correct:
  "unat (fold16 s) < 65536 \<and> unat (fold16 s) mod 65535 = unat s mod 65535 \<and> (fold16 s = 0 \<longleftrightarrow> s = 0)"
proof (induction s rule: fold16.induct)
  case (1 s)
  show ?case
  proof (cases "drop_bit 16 s = 0")
    case True
    have "unat s div 65536 = unat (drop_bit 16 s)" by (simp only: unat_drop_bit_div) simp
    with True have "unat s < 65536" by (simp only: unat_0)
    with fold16_done[OF True] show ?thesis by simp
  next
    case False
    let ?t = "(s AND 0xFFFF) + drop_bit 16 s"
    have u: "unat ?t = unat s mod 65536 + unat s div 65536" by (rule fold_decreases(1)[OF False])
    have e: "unat s = unat s div 65536 * 65535 + unat ?t" unfolding u by (rule fold_split)
    have "unat s mod 65535 = unat ?t mod 65535" by (subst e) simp
    moreover have "unat ?t = 0 \<longleftrightarrow> unat s = 0" unfolding u by (metis div_mult_mod_eq add_is_0 mult_is_0 mod_0 div_0)
    then have "?t = 0 \<longleftrightarrow> s = 0" by (simp only: unat_eq_zero)
    ultimately show ?thesis using 1[OF False] unfolding fold16_step[OF False] by (simp only: simp_thms)
  qed
qed


text \<open>The complement of a folded sum, and when it vanishes.\<close>

lemma unat_complement:
  assumes "unat (s :: u64) < 65536"
  shows "unat (ucast (NOT s) :: u16) = 65535 - unat s"
proof -
  have n: "(ucast (NOT s) :: u16) = NOT (ucast s)"
    by (rule bit_word_eqI) (simp add: bit_simps)
  have "NOT (ucast s :: u16) = - 1 - ucast s" by (simp add: not_eq_complement)
  moreover have "unat (- 1 - ucast s :: u16) = unat (- 1 :: u16) - unat (ucast s :: u16)"
    by (rule unat_sub) (rule word_order.extremum)
  moreover have "unat (ucast s :: u16) = unat s"
    using assms by (simp add: unsigned_ucast_eq take_bit_nat_eq_self)
  moreover have "unat (- 1 :: u16) = 65535"
    by (simp add: unsigned_minus_1_eq_mask mask_eq_exp_minus_1)
  ultimately show ?thesis unfolding n by (simp only:)
qed

lemma check_unat: "unat (ucast (NOT (fold16 s)) :: u16) = 65535 - unat (fold16 s)"
  by (rule unat_complement) (simp add: fold16_correct)

lemma check_vanishes:
  assumes "unat s mod 65535 = 0" "0 < unat s"
  shows "(ucast (NOT (fold16 s)) :: u16) = 0"
proof -
  have "s \<noteq> 0" using assms(2) by auto
  then have "unat (fold16 s) \<noteq> 0" using fold16_correct[of s] by (simp only: unat_eq_zero) simp
  then have "unat (fold16 s) = 65535"
    using fold16_correct[of s] assms(1) fold_max[of "unat (fold16 s)"] by simp
  then have "unat (ucast (NOT (fold16 s)) :: u16) = 0" by (simp only: check_unat diff_self_eq_0)
  then show ?thesis by (simp only: unat_eq_zero)
qed

text \<open>
  Storing the complement of the sum, taken with the check word zero, makes the sum vanish.
  Storing \<open>0xFFFF\<close> in place of zero does as well.
\<close>

lemma check_put:
  fixes c :: u16
  assumes z: "word16_of_bytes (m ! (a + 2 * i)) (m ! Suc (a + 2 * i)) = 0"
    and r: "2 * i + 2 \<le> n" "a + n \<le> length m" and s: "unat s = P + word_sum m a n"
    and c: "c = ucast (NOT (fold16 s)) \<or> (ucast (NOT (fold16 s)) = (0 :: u16) \<and> c = 0xFFFF)"
    and s': "unat s' = P + word_sum (m[a + 2 * i := byte_of 0 c, Suc (a + 2 * i) := byte_of 1 c]) a n"
  shows "(ucast (NOT (fold16 s')) :: u16) = 0"
proof (rule check_vanishes)
  have eq: "unat s' = unat s + unat c" using word_sum_put[OF r, of c] z s s' by simp
  have f: "unat (fold16 s) < 65536" "unat (fold16 s) mod 65535 = unat s mod 65535"
    "unat (fold16 s) = 0 \<longleftrightarrow> unat s = 0"
    using fold16_correct[of s] by (simp_all only: unat_eq_zero)
  have "unat c = 65535 - unat (fold16 s) \<or> (unat (fold16 s) = 65535 \<and> unat c = 65535)"
    using c
  proof
    assume z: "ucast (NOT (fold16 s)) = (0 :: u16) \<and> c = 0xFFFF"
    then have "65535 - unat (fold16 s) = 0" using check_unat[of s] by (simp only: unat_0)
    then have "unat (fold16 s) = 65535" using f(1) by linarith
    with z show ?thesis by simp
  next
    assume "c = ucast (NOT (fold16 s))"
    then show ?thesis by (simp only: check_unat simp_thms)
  qed
  then have "unat (fold16 s) + unat c = 65535 \<or> (unat (fold16 s) + unat c = 2 * 65535 \<and> unat s \<noteq> 0)"
    using f(1,3) by linarith
  then have m: "(unat (fold16 s) + unat c) mod 65535 = 0" and p: "unat s = 0 \<longrightarrow> 0 < unat c"
    using f(3) by auto
  have "(unat s + unat c) mod 65535 = (unat (fold16 s) + unat c) mod 65535"
    using f(2) by (intro mod_add_cong) simp_all
  with m show "unat s' mod 65535 = 0" unfolding eq by (simp only:)
  show "0 < unat s'" unfolding eq using p by (cases "unat s = 0") simp_all
qed


section \<open>Properties\<close>

lemma ip_ihl_less: "ip_ihl b < 16"
proof -
  have "b AND 0xF \<le> 0xF" by (rule word_and_le1)
  then have "unat (b AND 0xF) \<le> unat (0xF :: u8)" by (simp only: word_le_nat_alt)
  then show ?thesis by (simp add: ip_ihl_def)
qed

lemma unat_add_bound:
  fixes x y :: "'a::len word"
  assumes "unat x \<le> A" "unat y \<le> B"
  shows "unat (x + y) \<le> A + B"
proof -
  have "unat (x + y) \<le> unat x + unat y" by (simp add: unat_word_ariths)
  with assms show ?thesis by linarith
qed

lemma pseudo_sum_bound: "unat (pseudo_sum sa da p len) \<le> 6 * 65535"
proof -
  have h: "unat (ucast (x AND 0xFFFF) :: u64) \<le> 65535" for x :: u32
  proof -
    have "x AND 0xFFFF \<le> 0xFFFF" by (rule word_and_le1)
    then have "unat (x AND 0xFFFF) \<le> unat (0xFFFF :: u32)" by (simp only: word_le_nat_alt)
    then show ?thesis by simp
  qed
  have w: "unat (ucast (x :: u16) :: u64) \<le> 65535" for x using unat_u16[of x] by (simp del: unat_u16)
  have "unat (pseudo_sum sa da p len) \<le> 65535 + 65535 + 65535 + 65535 + 65535 + 65535"
    unfolding pseudo_sum_def by (intro unat_add_bound h w)
  then show ?thesis by linarith
qed

lemma zeroed: "word16_of_bytes 0 0 = 0"
  by (simp add: word16_of_bytes_def)

lemma byte_of_0 [simp]: "byte_of i (0 :: 'a::len word) = 0"
  by (simp add: byte_of_def)

text \<open>The checksum of a byte range is the complement of its one's complement sum: with
  it, the 16-bit words add up to a multiple of \<open>2 ^ 16 - 1\<close>; the summation never overflows and
  the folding ends.\<close>
theorem compute_checksum_ref:
  assumes "a + cnt + cnt mod 2 \<le> length m" "cnt < 2 ^ 32"
  shows "\<exists>c. compute_checksum m a cnt = Inr c \<and> (unat c + word_sum m a cnt) mod 65535 = 0 \<and>
    (unat c = 65535 \<longleftrightarrow> word_sum m a cnt = 0)"
proof -
  obtain s where s: "sum_words m a cnt 0 = Inr s" "unat s = word_sum m a cnt"
    using sum_words_correct[of a cnt m 0] assms by auto
  have f: "unat (fold16 s) < 65536" "unat (fold16 s) mod 65535 = unat s mod 65535"
    "unat (fold16 s) = 0 \<longleftrightarrow> unat s = 0"
    using fold16_correct[of s] by (simp_all only: unat_eq_zero)
  define c :: u16 where "c = ucast (NOT (fold16 s))"
  have c: "unat c = 65535 - unat (fold16 s)" unfolding c_def by (rule check_unat)
  then have "unat c + unat (fold16 s) = 65535" using f(1) by linarith
  then have "(unat c + unat (fold16 s)) mod 65535 = 0" by simp
  moreover have "(unat c + unat s) mod 65535 = (unat c + unat (fold16 s)) mod 65535"
    using f(2) by (intro mod_add_cong) simp_all
  moreover have "unat c = 65535 \<longleftrightarrow> unat s = 0" using c f by linarith
  ultimately show ?thesis
    using s by (intro exI[of _ c]) (simp add: compute_checksum_def c_def)
qed

theorem compute_checksum_ref_witness:
  "\<exists>c. compute_checksum [1, 2, 3, 0] 0 3 = Inr c \<and> (unat c + word_sum [1, 2, 3, 0] 0 3) mod 65535 = 0"
  using compute_checksum_ref[of 0 3 "[1, 2, 3, 0]"] by auto

text \<open>Recomputing the checksum over an IPv4 header that \<open>compute_ip_checksum\<close> has
  filled in yields zero, which is how a receiver verifies it; only the two bytes of the
  check field change.\<close>
theorem ip_checksum_verifies:
  assumes "ip + 4 * ip_ihl (m ! ip) \<le> length m" "5 \<le> ip_ihl (m ! ip)"
  shows "\<exists>m'. compute_ip_checksum m ip = Inr m' \<and> length m' = length m \<and>
    (\<forall>i. i \<noteq> ip + 10 \<longrightarrow> i \<noteq> ip + 11 \<longrightarrow> m' ! i = m ! i) \<and>
    compute_checksum m' ip (4 * ip_ihl (m ! ip)) = Inr 0"
proof -
  define n where "n = 4 * ip_ihl (m ! ip)"
  have n: "n mod 2 = 0" "20 \<le> n" "n < 64" "ip + n \<le> length m"
    using assms ip_ihl_less[of "m ! ip"] by (auto simp: n_def)
  have lim: "65536 * n < 2 ^ 64" using n(3) by simp
  define z where "z = m[ip + 10 := 0, Suc (ip + 10) := 0]"
  have z: "store16 m (ip + 10) 0 = Inr z" "length z = length m" "z ! ip = m ! ip"
    using n by (simp_all add: z_def)
  obtain s where s: "sum_words z ip n 0 = Inr s" "unat s = word_sum z ip n"
    using sum_words_correct[of ip n z 0] n lim z by auto
  define c :: u16 where "c = ucast (NOT (fold16 s))"
  define m' where "m' = z[ip + 10 := byte_of 0 c, Suc (ip + 10) := byte_of 1 c]"
  have st: "store16 z (ip + 10) c = Inr m'" and len: "length m' = length m"
    using n z by (simp_all add: m'_def)
  obtain s' where s': "sum_words m' ip n 0 = Inr s'" "unat s' = word_sum m' ip n"
    using sum_words_correct[of ip n m' 0] n lim len by auto
  have "(ucast (NOT (fold16 s')) :: u16) = 0"
    by (rule check_put[where m = z and a = ip and i = 5 and n = n and s = s and P = 0 and c = c])
      (use n z s s' in \<open>simp_all add: z_def m'_def c_def zeroed\<close>)
  moreover have "compute_ip_checksum m ip = Inr m'"
    using z n s st by (simp add: compute_ip_checksum_def compute_checksum_def n_def[symmetric] c_def)
  moreover have "\<forall>i. i \<noteq> ip + 10 \<longrightarrow> i \<noteq> ip + 11 \<longrightarrow> m' ! i = m ! i"
    by (simp add: m'_def z_def)
  ultimately show ?thesis using s' len by (auto simp: compute_checksum_def n_def[symmetric])
qed

definition sample_ip :: "u8 list" where
  "sample_ip = [0x45, 0, 0, 60, 0, 0, 0, 0, 32, 47, 1, 2, 10, 0, 0, 1, 10, 0, 0, 2]"

theorem ip_checksum_verifies_witness:
  "\<exists>m'. compute_ip_checksum sample_ip 0 = Inr m' \<and> compute_checksum m' 0 20 = Inr 0"
proof -
  have "ip_ihl (sample_ip ! 0) = 5" by (simp add: sample_ip_def ip_ihl_def)
  with ip_checksum_verifies[of 0 sample_ip] show ?thesis by (auto simp: sample_ip_def)
qed


text \<open>Both transport checksums follow one scheme: zero the field, sum, store the complement.\<close>

definition check_for :: "u64 \<Rightarrow> u16 \<Rightarrow> bool" where
  "check_for s c \<longleftrightarrow> c = ucast (NOT (fold16 s)) \<or> (ucast (NOT (fold16 s)) = (0 :: u16) \<and> c = 0xFFFF)"

lemma segment_check:
  fixes n :: nat
  assumes seg: "pl + n + n mod 2 \<le> length m" "2 * i + 2 \<le> n" "n < 65536" and off: "off = pl + 2 * i"
    and z: "store16 m off 0 = Inr z"
  shows "\<exists>s. sum_words z pl n (pseudo_sum sa da p len) = Inr s \<and>
    (\<forall>c. check_for s c \<longrightarrow> (\<exists>m' s'. store16 z off c = Inr m' \<and> length m' = length m \<and>
      (\<forall>j. j \<noteq> off \<longrightarrow> j \<noteq> Suc off \<longrightarrow> m' ! j = m ! j) \<and>
      word16_of_bytes (m' ! off) (m' ! Suc off) = c \<and>
      sum_words m' pl n (pseudo_sum sa da p len) = Inr s' \<and> ucast (NOT (fold16 s')) = (0 :: u16)))"
proof -
  have lim: "unat (pseudo_sum sa da p len) + 65536 * n < 2 ^ 64"
  proof -
    have "unat (pseudo_sum sa da p len) + 65536 * n \<le> 6 * 65535 + 65536 * 65536"
      using pseudo_sum_bound[of sa da p len] seg(3) by linarith
    then show ?thesis by simp
  qed
  have o: "Suc off < length m" using seg off by simp
  then have z': "z = m[off := 0, Suc off := 0]" using z by simp
  have lz: "length z = length m" unfolding z' by simp
  obtain s where s: "sum_words z pl n (pseudo_sum sa da p len) = Inr s"
    "unat s = unat (pseudo_sum sa da p len) + word_sum z pl n"
    using sum_words_correct[OF _ lim, of pl z] seg(1) lz by auto
  moreover have "\<exists>m' s'. store16 z off c = Inr m' \<and> length m' = length m \<and>
      (\<forall>j. j \<noteq> off \<longrightarrow> j \<noteq> Suc off \<longrightarrow> m' ! j = m ! j) \<and> word16_of_bytes (m' ! off) (m' ! Suc off) = c \<and>
      sum_words m' pl n (pseudo_sum sa da p len) = Inr s' \<and> ucast (NOT (fold16 s')) = (0 :: u16)"
    if c: "check_for s c" for c
  proof -
    let ?m' = "z[off := byte_of 0 c, Suc off := byte_of 1 c]"
    obtain s' where s': "sum_words ?m' pl n (pseudo_sum sa da p len) = Inr s'"
      "unat s' = unat (pseudo_sum sa da p len) + word_sum ?m' pl n"
      using sum_words_correct[OF _ lim, of pl ?m'] seg(1) lz by auto
    have "word16_of_bytes (z ! (pl + 2 * i)) (z ! Suc (pl + 2 * i)) = 0"
      using o by (simp add: z' zeroed off[symmetric])
    moreover have "pl + n \<le> length z" using seg(1) lz by simp
    ultimately have "ucast (NOT (fold16 s')) = (0 :: u16)"
      using check_put[of z pl i n s _ c s'] seg(2) s(2) c s'(2) unfolding check_for_def off by blast
    with s'(1) o lz show ?thesis by (intro exI[of _ ?m'] exI[of _ s']) (simp add: z')
  qed
  ultimately show ?thesis by blast
qed

lemma unat_u16_lt: "unat (w :: u16) < 65536"
  using unat_below[of w] by simp

text \<open>Property C26: \<open>compute_tcp_checksum\<close> and \<open>compute_udp_checksum\<close> write only the check field of
  the segment, and the receiver's sum over pseudo header and segment then folds to all ones;
  the UDP field is never zero, which would mean that there is no checksum.\<close>
theorem transport_checksum_verifies:
  assumes "load8 m ip = Inr b" "load16 m (ip + 2) = Inr tot" "load32 m (ip + 12) = Inr sa"
    "load32 m (ip + 16) = Inr da" "load16 m (pl + 4) = Inr ulen"
    "tcpLen = htons tot - of_nat (4 * ip_ihl b)"
  shows "(18 \<le> unat tcpLen \<and> pl + unat tcpLen + unat tcpLen mod 2 \<le> length m \<longrightarrow>
      (\<exists>m' s. compute_tcp_checksum m ip pl = Inr m' \<and> length m' = length m \<and>
        (\<forall>i. i \<noteq> pl + 16 \<longrightarrow> i \<noteq> Suc (pl + 16) \<longrightarrow> m' ! i = m ! i) \<and>
        sum_words m' pl (unat tcpLen) (pseudo_sum sa da 6 (htons tcpLen)) = Inr s \<and>
        ucast (NOT (fold16 s)) = (0 :: u16))) \<and>
    (8 \<le> unat (htons ulen) \<and> pl + unat (htons ulen) + unat (htons ulen) mod 2 \<le> length m \<longrightarrow>
      (\<exists>m' s. compute_udp_checksum m ip pl = Inr m' \<and> length m' = length m \<and>
        (\<forall>i. i \<noteq> pl + 6 \<longrightarrow> i \<noteq> Suc (pl + 6) \<longrightarrow> m' ! i = m ! i) \<and>
        sum_words m' pl (unat (htons ulen)) (pseudo_sum sa da 17 ulen) = Inr s \<and>
        ucast (NOT (fold16 s)) = (0 :: u16) \<and> word16_of_bytes (m' ! (pl + 6)) (m' ! Suc (pl + 6)) \<noteq> 0))"
proof (intro conjI impI; elim conjE)
  assume n: "18 \<le> unat tcpLen" "pl + unat tcpLen + unat tcpLen mod 2 \<le> length m"
  then have "\<exists>z. store16 m (pl + 16) 0 = Inr z" by simp
  then obtain z where z: "store16 m (pl + 16) 0 = Inr z" by blast
  from segment_check[OF n(2) _ unat_u16_lt _ z, of 8 sa da 6 "htons tcpLen"] n(1)
  obtain s where s: "sum_words z pl (unat tcpLen) (pseudo_sum sa da 6 (htons tcpLen)) = Inr s"
    "\<And>c. check_for s c \<Longrightarrow> \<exists>m' s'. store16 z (pl + 16) c = Inr m' \<and> length m' = length m \<and>
      (\<forall>j. j \<noteq> pl + 16 \<longrightarrow> j \<noteq> Suc (pl + 16) \<longrightarrow> m' ! j = m ! j) \<and>
      sum_words m' pl (unat tcpLen) (pseudo_sum sa da 6 (htons tcpLen)) = Inr s' \<and>
      ucast (NOT (fold16 s')) = (0 :: u16)"
    by (simp only: mult_2 numeral_plus_numeral add_num_simps numeral_le_iff) blast
  have "compute_tcp_checksum m ip pl = store16 z (pl + 16) (ucast (NOT (fold16 s)))"
    using assms z s(1) by (simp only: compute_tcp_checksum_def rbind.simps Let_def)
  with s(2)[of "ucast (NOT (fold16 s))"] show "\<exists>m' s. compute_tcp_checksum m ip pl = Inr m' \<and> length m' = length m \<and>
        (\<forall>i. i \<noteq> pl + 16 \<longrightarrow> i \<noteq> Suc (pl + 16) \<longrightarrow> m' ! i = m ! i) \<and>
        sum_words m' pl (unat tcpLen) (pseudo_sum sa da 6 (htons tcpLen)) = Inr s \<and>
        ucast (NOT (fold16 s)) = (0 :: u16)"
    unfolding check_for_def by metis
next
  let ?n = "unat (htons ulen)" and ?P = "pseudo_sum sa da 17 ulen"
  assume n: "8 \<le> ?n" "pl + ?n + ?n mod 2 \<le> length m"
  then have "\<exists>z. store16 m (pl + 6) 0 = Inr z" by simp
  then obtain z where z: "store16 m (pl + 6) 0 = Inr z" by blast
  from segment_check[OF n(2) _ unat_u16_lt _ z, of 3 sa da 17 ulen] n(1)
  obtain s where s: "sum_words z pl ?n ?P = Inr s"
    "\<And>c. check_for s c \<Longrightarrow> \<exists>m' s'. store16 z (pl + 6) c = Inr m' \<and> length m' = length m \<and>
      (\<forall>j. j \<noteq> pl + 6 \<longrightarrow> j \<noteq> Suc (pl + 6) \<longrightarrow> m' ! j = m ! j) \<and>
      word16_of_bytes (m' ! (pl + 6)) (m' ! Suc (pl + 6)) = c \<and>
      sum_words m' pl ?n ?P = Inr s' \<and> ucast (NOT (fold16 s')) = (0 :: u16)"
    by (simp only: mult_2 numeral_plus_numeral add_num_simps numeral_le_iff) blast
  define c :: u16 where "c = (let c = ucast (NOT (fold16 s)) in if c = 0 then 0xFFFF else c)"
  have c: "check_for s c" "c \<noteq> 0" by (auto simp: c_def check_for_def Let_def)
  have "compute_udp_checksum m ip pl = store16 z (pl + 6) c"
    using assms z s(1) by (simp only: compute_udp_checksum_def rbind.simps c_def Let_def)
  with s(2)[OF c(1)] c(2) show "\<exists>m' s. compute_udp_checksum m ip pl = Inr m' \<and> length m' = length m \<and>
        (\<forall>i. i \<noteq> pl + 6 \<longrightarrow> i \<noteq> Suc (pl + 6) \<longrightarrow> m' ! i = m ! i) \<and>
        sum_words m' pl ?n ?P = Inr s \<and>
        ucast (NOT (fold16 s)) = (0 :: u16) \<and> word16_of_bytes (m' ! (pl + 6)) (m' ! Suc (pl + 6)) \<noteq> 0"
    by metis
qed

definition sample_udp :: "u8 list" where
  "sample_udp = sample_ip @ [0, 53, 0, 53, 0, 8, 0, 0]"

theorem transport_checksum_verifies_witness:
  "\<exists>m' s. compute_udp_checksum sample_udp 0 20 = Inr m' \<and>
     sum_words m' 20 8 (pseudo_sum (word32_of_bytes 10 0 0 1) (word32_of_bytes 10 0 0 2) 17
       (word16_of_bytes 0 8)) = Inr s \<and> ucast (NOT (fold16 s)) = (0 :: u16)"
proof -
  have l: "load8 sample_udp 0 = Inr 0x45" "load16 sample_udp (0 + 2) = Inr (word16_of_bytes 0 60)"
    "load32 sample_udp (0 + 12) = Inr (word32_of_bytes 10 0 0 1)"
    "load32 sample_udp (0 + 16) = Inr (word32_of_bytes 10 0 0 2)"
    "load16 sample_udp (20 + 4) = Inr (word16_of_bytes 0 8)" "length sample_udp = 28"
    by (simp_all add: sample_udp_def sample_ip_def)
  have u: "unat (htons (word16_of_bytes 0 8)) = 8"
    by (simp add: htons_def) (simp add: word16_of_bytes_def)
  from transport_checksum_verifies[OF l(1-5) refl] u l(6) show ?thesis by auto
qed

end
