(* ===== verification/Xdp.thy ===== *)
theory Xdp
  imports Prelude
begin

text \<open>
  The packet parsers of \<open>opera-v2/parsing_helpers.h\<close> and the XDP programs of
  \<open>opera-v2/nic_kern.c\<close>, \<open>nic_kern_old.c\<close>, \<open>nic_kern_old2.c\<close> and \<open>veth_kern.c\<close>, which decide in
  the kernel which frames go to the emulator's sockets. A frame is a list of bytes; the
  pointer \<open>data\<close> is offset 0 and \<open>data_end\<close> is its length. A read outside the frame is a
  fault, so that the bounds checks of the source have something to protect.
\<close>

section \<open>Parsers\<close>

record hdr_cursor =
  pos :: nat

text \<open>Constants of the kernel headers, in host byte order.\<close>

definition ETH_P_IP :: u16 where "ETH_P_IP = 0x0800"
definition ETH_P_8021Q :: u16 where "ETH_P_8021Q = 0x8100"
definition ETH_P_8021AD :: u16 where "ETH_P_8021AD = 0x88A8"
definition IPPROTO_GRE :: int where "IPPROTO_GRE = 47"
definition IPPROTO_UDP :: int where "IPPROTO_UDP = 17"

definition VLAN_MAX_DEPTH :: nat where "VLAN_MAX_DEPTH = 2"
definition VLAN_VID_MASK :: u16 where "VLAN_VID_MASK = 0x0fff"

record vlan_hdr =
  h_vlan_TCI :: u16
  h_vlan_encapsulated_proto :: u16

record icmphdr_common =
  icmp_type :: u8
  icmp_code :: u8
  icmp_cksum :: u16

text \<open>\<open>struct collect_vlans\<close>: the identifiers of up to \<open>VLAN_MAX_DEPTH\<close> tags.\<close>

type_synonym collect_vlans = "u16 list"

definition read_vlan_hdr :: "u8 list \<Rightarrow> nat \<Rightarrow> vlan_hdr res" where
  "read_vlan_hdr pkt a = rbind (load16 pkt a) (\<lambda>tci. rbind (load16 pkt (a + 2)) (\<lambda>p.
     Inr \<lparr>h_vlan_TCI = tci, h_vlan_encapsulated_proto = p\<rparr>))"

definition read_icmphdr_common :: "u8 list \<Rightarrow> nat \<Rightarrow> icmphdr_common res" where
  "read_icmphdr_common pkt a = rbind (load8 pkt a) (\<lambda>t. rbind (load8 pkt (a + 1)) (\<lambda>c.
     rbind (load16 pkt (a + 2)) (\<lambda>k. Inr \<lparr>icmp_type = t, icmp_code = c, icmp_cksum = k\<rparr>)))"

definition proto_is_vlan :: "u16 \<Rightarrow> bool" where
  "proto_is_vlan h_proto \<longleftrightarrow> h_proto = htons ETH_P_8021Q \<or> h_proto = htons ETH_P_8021AD"

text \<open>
  Every parser returns the result of the C function, the cursor after the call, and the value
  it stored through its header pointer (\<open>None\<close>: not stored). \<open>vlan_loop\<close> is the unrolled loop
  from iteration \<open>i\<close> on; a \<open>NULL\<close> argument \<open>vlans\<close> is \<open>None\<close>.
\<close>

type_synonym parsed = "(int \<times> hdr_cursor \<times> nat option) res"

function vlan_loop :: "u8 list \<Rightarrow> nat \<Rightarrow> nat \<Rightarrow> u16 \<Rightarrow> collect_vlans option \<Rightarrow>
    (nat \<times> u16 \<times> collect_vlans option) res" where
  "vlan_loop pkt i vlh h_proto vlans =
     (if VLAN_MAX_DEPTH \<le> i then Inr (vlh, h_proto, vlans)
      else if \<not> proto_is_vlan h_proto then Inr (vlh, h_proto, vlans)
      else if length pkt < vlh + 4 then Inr (vlh, h_proto, vlans)
      else rbind (read_vlan_hdr pkt vlh) (\<lambda>v.
        rbind (case vlans of None \<Rightarrow> Inr None
               | Some ids \<Rightarrow> rbind (arr_set ids i (htons (h_vlan_TCI v) AND VLAN_VID_MASK)) (\<lambda>a. Inr (Some a)))
          (\<lambda>vlans'. vlan_loop pkt (Suc i) (vlh + 4) (h_vlan_encapsulated_proto v) vlans')))"
  by pat_completeness auto
termination by (relation "measure (\<lambda>(pkt, i, vlh, p, v). VLAN_MAX_DEPTH - i)") auto

declare vlan_loop.simps [simp del]

definition parse_ethhdr_vlan :: "u8 list \<Rightarrow> hdr_cursor \<Rightarrow> collect_vlans option \<Rightarrow>
    (int \<times> hdr_cursor \<times> nat option \<times> collect_vlans option) res" where
  "parse_ethhdr_vlan pkt nh vlans =
     (let eth = pos nh in
      if length pkt < pos nh + 14 then Inr (-1, nh, None, vlans)
      else rbind (load16 pkt (eth + 12)) (\<lambda>h_proto.
        rbind (vlan_loop pkt 0 (pos nh + 14) h_proto vlans) (\<lambda>(vlh, p, vlans').
          Inr (int (unat p), nh\<lparr>pos := vlh\<rparr>, Some eth, vlans'))))"

definition parse_ethhdr :: "u8 list \<Rightarrow> hdr_cursor \<Rightarrow> parsed" where
  "parse_ethhdr pkt nh = rbind (parse_ethhdr_vlan pkt nh None) (\<lambda>(r, nh', eth, _). Inr (r, nh', eth))"

definition parse_ip6hdr :: "u8 list \<Rightarrow> hdr_cursor \<Rightarrow> parsed" where
  "parse_ip6hdr pkt nh =
     (if length pkt < pos nh + 40 then Inr (-1, nh, None)
      else rbind (load8 pkt (pos nh + 6)) (\<lambda>nexthdr.
        Inr (int (unat nexthdr), nh\<lparr>pos := pos nh + 40\<rparr>, Some (pos nh))))"

text \<open>The header length of the IPv4 header at \<open>iph\<close>, \<open>ihl * 4\<close> (low nibble of byte 0).\<close>

definition ip_hdrsize :: "u8 \<Rightarrow> nat" where
  "ip_hdrsize b = unat (b AND 0xF) * 4"

definition parse_iphdr :: "u8 list \<Rightarrow> hdr_cursor \<Rightarrow> parsed" where
  "parse_iphdr pkt nh =
     (if length pkt < pos nh + 20 then Inr (-1, nh, None)
      else rbind (load8 pkt (pos nh)) (\<lambda>b.
        let hdrsize = ip_hdrsize b in
        if hdrsize < 20 then Inr (-1, nh, None)
        else if length pkt < pos nh + hdrsize then Inr (-1, nh, None)
        else rbind (load8 pkt (pos nh + 9)) (\<lambda>protocol.
          Inr (int (unat protocol), nh\<lparr>pos := pos nh + hdrsize\<rparr>, Some (pos nh)))))"

definition parse_icmp6hdr :: "u8 list \<Rightarrow> hdr_cursor \<Rightarrow> parsed" where
  "parse_icmp6hdr pkt nh =
     (if length pkt < pos nh + 8 then Inr (-1, nh, None)
      else rbind (load8 pkt (pos nh)) (\<lambda>t. Inr (int (unat t), nh\<lparr>pos := pos nh + 8\<rparr>, Some (pos nh))))"

definition parse_icmphdr :: "u8 list \<Rightarrow> hdr_cursor \<Rightarrow> parsed" where
  "parse_icmphdr pkt nh =
     (if length pkt < pos nh + 8 then Inr (-1, nh, None)
      else rbind (load8 pkt (pos nh)) (\<lambda>t. Inr (int (unat t), nh\<lparr>pos := pos nh + 8\<rparr>, Some (pos nh))))"

definition parse_icmphdr_common :: "u8 list \<Rightarrow> hdr_cursor \<Rightarrow> parsed" where
  "parse_icmphdr_common pkt nh =
     (if length pkt < pos nh + 4 then Inr (-1, nh, None)
      else rbind (read_icmphdr_common pkt (pos nh)) (\<lambda>h.
        Inr (int (unat (icmp_type h)), nh\<lparr>pos := pos nh + 4\<rparr>, Some (pos nh))))"

text \<open>The payload length: a 16-bit length minus 8, so an \<open>int\<close> that may be negative.\<close>

definition parse_udphdr :: "u8 list \<Rightarrow> hdr_cursor \<Rightarrow> parsed" where
  "parse_udphdr pkt nh =
     (if length pkt < pos nh + 8 then Inr (-1, nh, None)
      else rbind (load16 pkt (pos nh + 4)) (\<lambda>l.
        let len = int (unat (htons l)) - 8 in
        Inr (if len < 0 then -1 else len, nh\<lparr>pos := pos nh + 8\<rparr>, Some (pos nh))))"

definition parse_tcphdr :: "u8 list \<Rightarrow> hdr_cursor \<Rightarrow> parsed" where
  "parse_tcphdr pkt nh =
     (if length pkt < pos nh + 20 then Inr (-1, nh, None)
      else rbind (load8 pkt (pos nh + 12)) (\<lambda>b.
        let len = unat (drop_bit 4 b) * 4 in
        if len < 20 then Inr (-1, nh, None)
        else if length pkt < pos nh + len then Inr (-1, nh, None)
        else Inr (int len, nh\<lparr>pos := pos nh + len\<rparr>, Some (pos nh))))"

section \<open>The XDP programs\<close>

text \<open>
  The verdict of a program; \<open>XDP_REDIRECT\<close> carries the index of the socket. The helper
  \<open>bpf_redirect_map\<close> with flags 0 aborts if the index has no entry.
\<close>

datatype xdp_action = XDP_ABORTED | XDP_DROP | XDP_PASS | XDP_TX | XDP_REDIRECT int

record xdp_md =
  xdp_data :: "u8 list"
  rx_queue_index :: u32

type_synonym xskmap = "int \<rightharpoonup> nat"

definition bpf_redirect_map :: "xskmap \<Rightarrow> int \<Rightarrow> xdp_action" where
  "bpf_redirect_map xsks_map index = (case xsks_map index of None \<Rightarrow> XDP_ABORTED | Some s \<Rightarrow> XDP_REDIRECT index)"

definition parse_eth_hdr :: "u8 list \<Rightarrow> hdr_cursor \<Rightarrow> parsed" where
  "parse_eth_hdr pkt nh =
     (if length pkt < pos nh + 14 then Inr (-1, nh, None)
      else rbind (load16 pkt (pos nh + 12)) (\<lambda>h_proto.
        Inr (int (unat h_proto), nh\<lparr>pos := pos nh + 14\<rparr>, Some (pos nh))))"

definition parse_ip_hdr :: "u8 list \<Rightarrow> hdr_cursor \<Rightarrow> parsed" where
  "parse_ip_hdr pkt nh =
     (if length pkt < pos nh + 20 then Inr (-1, nh, None)
      else rbind (load8 pkt (pos nh)) (\<lambda>b.
        let hdrsize = ip_hdrsize b in
        if hdrsize < 20 then Inr (-1, nh, None)
        else if length pkt < pos nh + hdrsize then Inr (-1, nh, None)
        else rbind (load8 pkt (pos nh + 9)) (\<lambda>protocol.
          Inr (int (unat protocol), nh\<lparr>pos := pos nh + hdrsize\<rparr>, Some (pos nh)))))"

text \<open>The program on the physical interface passes everything but GRE to the network stack.\<close>

definition xdp_sock_prog :: "xskmap \<Rightarrow> xdp_md \<Rightarrow> xdp_action res" where
  "xdp_sock_prog xsks_map ctx =
     rbind (parse_eth_hdr (xdp_data ctx) \<lparr>pos = 0\<rparr>) (\<lambda>(eth_type, nh, _).
       if eth_type = int (unat (htons ETH_P_IP)) then
         rbind (parse_ip_hdr (xdp_data ctx) nh) (\<lambda>(ip_type, _).
           if ip_type \<noteq> IPPROTO_GRE then Inr XDP_PASS
           else if xsks_map (sint (rx_queue_index ctx)) \<noteq> None
                then Inr (bpf_redirect_map xsks_map (sint (rx_queue_index ctx)))
           else Inr XDP_PASS)
       else Inr XDP_PASS)"

text \<open>Its predecessor in \<open>nic_kern_old.c\<close> takes UDP instead of GRE.\<close>

definition xdp_sock_prog_udp :: "xskmap \<Rightarrow> xdp_md \<Rightarrow> xdp_action res" where
  "xdp_sock_prog_udp xsks_map ctx =
     rbind (parse_eth_hdr (xdp_data ctx) \<lparr>pos = 0\<rparr>) (\<lambda>(eth_type, nh, _).
       if eth_type = int (unat (htons ETH_P_IP)) then
         rbind (parse_ip_hdr (xdp_data ctx) nh) (\<lambda>(ip_type, _).
           if ip_type \<noteq> IPPROTO_UDP then Inr XDP_PASS
           else if xsks_map (sint (rx_queue_index ctx)) \<noteq> None
                then Inr (bpf_redirect_map xsks_map (sint (rx_queue_index ctx)))
           else Inr XDP_PASS)
       else Inr XDP_PASS)"

text \<open>The programs that redirect every frame of a queue with a socket: the first physical one, and the virtual one.\<close>

definition xdp_sock_prog_all :: "xskmap \<Rightarrow> xdp_md \<Rightarrow> xdp_action" where
  "xdp_sock_prog_all xsks_map ctx =
     (if xsks_map (sint (rx_queue_index ctx)) \<noteq> None then bpf_redirect_map xsks_map (sint (rx_queue_index ctx))
      else XDP_PASS)"

definition xdp_sock_prog_0 :: "xskmap \<Rightarrow> xdp_md \<Rightarrow> xdp_action" where
  "xdp_sock_prog_0 xsks_map ctx =
     (if xsks_map (sint (rx_queue_index ctx)) \<noteq> None then bpf_redirect_map xsks_map (sint (rx_queue_index ctx))
      else XDP_PASS)"

section \<open>The parsers stay inside the frame\<close>

text \<open>
  What every parser promises: it does not read outside the frame, and when it succeeds the
  header it found lies inside the frame and the cursor is behind it.
\<close>

definition parses_within :: "u8 list \<Rightarrow> nat \<Rightarrow> nat \<Rightarrow> parsed \<Rightarrow> bool" where
  "parses_within pkt start sz r \<longleftrightarrow> (\<exists>v nh hdr. r = Inr (v, nh, hdr) \<and>
     (hdr = None \<longrightarrow> v = -1 \<and> pos nh = start) \<and>
     (hdr \<noteq> None \<longrightarrow> hdr = Some start \<and> start + sz \<le> pos nh \<and> pos nh \<le> length pkt))"

text \<open>The number of VLAN tags the loop skips, and the type behind them.\<close>

fun tags_from :: "u8 list \<Rightarrow> nat \<Rightarrow> nat \<Rightarrow> u16 \<Rightarrow> nat \<Rightarrow> u16 \<Rightarrow> bool" where
  "tags_from pkt 0 vlh p n q \<longleftrightarrow> n = 0 \<and> q = p"
| "tags_from pkt (Suc d) vlh p n q \<longleftrightarrow>
     (if proto_is_vlan p \<and> vlh + 4 \<le> length pkt
      then 0 < n \<and> tags_from pkt d (vlh + 4) (word16_of_bytes (pkt ! (vlh + 2)) (pkt ! (vlh + 3))) (n - 1) q
      else n = 0 \<and> q = p)"

lemma read_vlan_hdr_in [simp]:
  "a + 4 \<le> length pkt \<Longrightarrow> read_vlan_hdr pkt a = Inr
     \<lparr>h_vlan_TCI = word16_of_bytes (pkt ! a) (pkt ! Suc a),
      h_vlan_encapsulated_proto = word16_of_bytes (pkt ! (a + 2)) (pkt ! (a + 3))\<rparr>"
  by (simp add: read_vlan_hdr_def numeral_3_eq_3)

lemma read_icmphdr_common_in [simp]:
  "a + 4 \<le> length pkt \<Longrightarrow> \<exists>h. read_icmphdr_common pkt a = Inr h \<and> icmp_type h = pkt ! a"
  by (simp add: read_icmphdr_common_def)

text \<open>Tag identifiers collected by the loop, one per skipped tag.\<close>

definition vlan_id :: "u8 list \<Rightarrow> nat \<Rightarrow> u16" where
  "vlan_id pkt a = htons (word16_of_bytes (pkt ! a) (pkt ! Suc a)) AND VLAN_VID_MASK"

lemma vlan_loop_correct:
  assumes "vlh \<le> length pkt" "i + d = VLAN_MAX_DEPTH" "length ids = VLAN_MAX_DEPTH"
  shows "\<exists>n q. n \<le> d \<and> tags_from pkt d vlh p n q \<and> vlh + 4 * n \<le> length pkt \<and>
    vlan_loop pkt i vlh p None = Inr (vlh + 4 * n, q, None) \<and>
    vlan_loop pkt i vlh p (Some ids) = Inr (vlh + 4 * n, q,
      Some (take i ids @ map (\<lambda>j. vlan_id pkt (vlh + 4 * j)) [0..<n] @ drop (i + n) ids))"
  using assms
proof (induction d arbitrary: vlh p i ids)
  case 0
  then show ?case by (subst (1 2) vlan_loop.simps) simp
next
  case (Suc d)
  show ?case
  proof (cases "proto_is_vlan p \<and> vlh + 4 \<le> length pkt")
    case True
    let ?p = "word16_of_bytes (pkt ! (vlh + 2)) (pkt ! (vlh + 3))"
    let ?ids = "ids[i := vlan_id pkt vlh]"
    have i: "i < VLAN_MAX_DEPTH" "i < length ids" using Suc.prems by auto
    obtain n q where IH: "n \<le> d" "tags_from pkt d (vlh + 4) ?p n q" "vlh + 4 + 4 * n \<le> length pkt"
      "vlan_loop pkt (Suc i) (vlh + 4) ?p None = Inr (vlh + 4 + 4 * n, q, None)"
      "vlan_loop pkt (Suc i) (vlh + 4) ?p (Some ?ids) = Inr (vlh + 4 + 4 * n, q,
        Some (take (Suc i) ?ids @ map (\<lambda>j. vlan_id pkt (vlh + 4 + 4 * j)) [0..<n] @ drop (Suc i + n) ?ids))"
      using Suc.IH[of "vlh + 4" "Suc i" ?ids ?p] Suc.prems True by auto
    have r: "vlan_loop pkt i vlh p None = vlan_loop pkt (Suc i) (vlh + 4) ?p None"
      "vlan_loop pkt i vlh p (Some ids) = vlan_loop pkt (Suc i) (vlh + 4) ?p (Some ?ids)"
      using True i by (subst vlan_loop.simps; simp add: vlan_id_def)+
    have l: "take (Suc i) ?ids @ map (\<lambda>j. vlan_id pkt (vlh + 4 + 4 * j)) [0..<n] @ drop (Suc i + n) ?ids =
        take i ids @ map (\<lambda>j. vlan_id pkt (vlh + 4 * j)) [0..<Suc n] @ drop (i + Suc n) ids"
      using i by (simp add: take_Suc_conv_app_nth upt_conv_Cons map_Suc_upt[symmetric] comp_def algebra_simps
          del: upt_Suc)
    show ?thesis
      using IH True l by (intro exI[of _ "Suc n"] exI[of _ q]) (simp add: r add.assoc)
  next
    case False
    with Suc.prems show ?thesis by (intro exI[of _ 0] exI[of _ p]) (subst (1 2) vlan_loop.simps, auto)
  qed
qed


section \<open>Properties\<close>

lemma parses_withinI:
  "r = Inr (v, nh, Some start) \<Longrightarrow> start + sz \<le> pos nh \<Longrightarrow> pos nh \<le> length pkt \<Longrightarrow> parses_within pkt start sz r"
  "r = Inr (-1, nh, None) \<Longrightarrow> pos nh = start \<Longrightarrow> parses_within pkt start sz r"
  by (auto simp: parses_within_def)

lemma parse_iphdr_within: "parses_within pkt (pos nh) 20 (parse_iphdr pkt nh)"
  by (auto simp: parses_within_def parse_iphdr_def Let_def)

lemma parse_tcphdr_within: "parses_within pkt (pos nh) 20 (parse_tcphdr pkt nh)"
  by (auto simp: parses_within_def parse_tcphdr_def Let_def)

lemma parse_udphdr_within: "parses_within pkt (pos nh) 8 (parse_udphdr pkt nh)"
  by (auto simp: parses_within_def parse_udphdr_def Let_def)

lemma parse_icmphdr_common_within: "parses_within pkt (pos nh) 4 (parse_icmphdr_common pkt nh)"
proof (cases "pos nh + 4 \<le> length pkt")
  case True
  from read_icmphdr_common_in[OF True] obtain h where "read_icmphdr_common pkt (pos nh) = Inr h" by blast
  with True show ?thesis by (auto simp: parses_within_def parse_icmphdr_common_def)
qed (simp add: parses_within_def parse_icmphdr_common_def)

lemma parse_ethhdr_vlan_eq:
  assumes "pos nh + 14 \<le> length pkt" "length ids = VLAN_MAX_DEPTH"
  shows "\<exists>n q. n \<le> VLAN_MAX_DEPTH \<and>
    tags_from pkt VLAN_MAX_DEPTH (pos nh + 14) (word16_of_bytes (pkt ! (pos nh + 12)) (pkt ! (pos nh + 13))) n q \<and>
    pos nh + 14 + 4 * n \<le> length pkt \<and>
    parse_ethhdr pkt nh = Inr (int (unat q), nh\<lparr>pos := pos nh + 14 + 4 * n\<rparr>, Some (pos nh)) \<and>
    parse_ethhdr_vlan pkt nh (Some ids) = Inr (int (unat q), nh\<lparr>pos := pos nh + 14 + 4 * n\<rparr>, Some (pos nh),
      Some (map (\<lambda>j. vlan_id pkt (pos nh + 14 + 4 * j)) [0..<n] @ drop n ids))"
proof -
  let ?p = "word16_of_bytes (pkt ! (pos nh + 12)) (pkt ! (pos nh + 13))"
  have "load16 pkt (pos nh + 12) = Inr ?p" using assms(1) by (simp add: eval_nat_numeral)
  moreover obtain n q where n: "n \<le> VLAN_MAX_DEPTH" "tags_from pkt VLAN_MAX_DEPTH (pos nh + 14) ?p n q"
    "pos nh + 14 + 4 * n \<le> length pkt" "vlan_loop pkt 0 (pos nh + 14) ?p None = Inr (pos nh + 14 + 4 * n, q, None)"
    "vlan_loop pkt 0 (pos nh + 14) ?p (Some ids) = Inr (pos nh + 14 + 4 * n, q,
      Some (map (\<lambda>j. vlan_id pkt (pos nh + 14 + 4 * j)) [0..<n] @ drop n ids))"
    using vlan_loop_correct[of "pos nh + 14" pkt 0 VLAN_MAX_DEPTH ids ?p] assms by auto
  ultimately have "parse_ethhdr_vlan pkt nh None = Inr (int (unat q), nh\<lparr>pos := pos nh + 14 + 4 * n\<rparr>, Some (pos nh), None)"
    "parse_ethhdr_vlan pkt nh (Some ids) = Inr (int (unat q), nh\<lparr>pos := pos nh + 14 + 4 * n\<rparr>, Some (pos nh),
      Some (map (\<lambda>j. vlan_id pkt (pos nh + 14 + 4 * j)) [0..<n] @ drop n ids))"
    using assms(1) by (simp_all add: parse_ethhdr_vlan_def Let_def)
  with n(1-3) show ?thesis by (intro exI[of _ n] exI[of _ q]) (simp add: parse_ethhdr_def)
qed

lemma parse_ethhdr_within: "parses_within pkt (pos nh) 14 (parse_ethhdr pkt nh)"
proof (cases "pos nh + 14 \<le> length pkt")
  case True
  from parse_ethhdr_vlan_eq[OF True length_replicate[of VLAN_MAX_DEPTH 0]] obtain n and q :: u16 where
    "pos nh + 14 + 4 * n \<le> length pkt"
    "parse_ethhdr pkt nh = Inr (int (unat q), nh\<lparr>pos := pos nh + 14 + 4 * n\<rparr>, Some (pos nh))"
    by blast
  then show ?thesis by (intro parses_withinI(1)) auto
next
  case False
  then show ?thesis
    by (intro parses_withinI(2)[of _ nh]) (auto simp: parse_ethhdr_def parse_ethhdr_vlan_def Let_def)
qed

text \<open>Property C25: on any frame and from any cursor, no parser reads outside the frame; a parser that
  finds its header leaves the cursor behind that header and inside the frame, and otherwise
  returns -1 with the cursor where it was.\<close>
theorem parsers_stay_inside:
  "parses_within pkt (pos nh) 14 (parse_ethhdr pkt nh) \<and> parses_within pkt (pos nh) 14 (parse_eth_hdr pkt nh) \<and>
   parses_within pkt (pos nh) 20 (parse_iphdr pkt nh) \<and> parses_within pkt (pos nh) 20 (parse_ip_hdr pkt nh) \<and>
   parses_within pkt (pos nh) 40 (parse_ip6hdr pkt nh) \<and> parses_within pkt (pos nh) 8 (parse_icmp6hdr pkt nh) \<and>
   parses_within pkt (pos nh) 8 (parse_icmphdr pkt nh) \<and>
   parses_within pkt (pos nh) 4 (parse_icmphdr_common pkt nh) \<and>
   parses_within pkt (pos nh) 8 (parse_udphdr pkt nh) \<and> parses_within pkt (pos nh) 20 (parse_tcphdr pkt nh)"
  by (intro conjI parse_ethhdr_within parse_iphdr_within parse_udphdr_within parse_tcphdr_within
      parse_icmphdr_common_within)
    (auto simp: parses_within_def parse_eth_hdr_def parse_ip_hdr_def parse_ip6hdr_def parse_icmp6hdr_def
      parse_icmphdr_def Let_def)

text \<open>\<open>parse_ethhdr_vlan\<close> skips up to two complete VLAN tags and no more, returns the
  type behind them in network order, and collects one 12-bit identifier per skipped tag.\<close>
theorem vlan_tags_skipped:
  assumes "pos nh + 14 \<le> length pkt" "length ids = VLAN_MAX_DEPTH"
  shows "\<exists>n q. n \<le> VLAN_MAX_DEPTH \<and>
    tags_from pkt VLAN_MAX_DEPTH (pos nh + 14) (word16_of_bytes (pkt ! (pos nh + 12)) (pkt ! (pos nh + 13))) n q \<and>
    parse_ethhdr_vlan pkt nh (Some ids) = Inr (int (unat q), nh\<lparr>pos := pos nh + 14 + 4 * n\<rparr>, Some (pos nh),
      Some (map (\<lambda>j. vlan_id pkt (pos nh + 14 + 4 * j)) [0..<n] @ drop n ids))"
  using parse_ethhdr_vlan_eq[OF assms] by blast

definition tagged_frame :: "u8 list" where
  "tagged_frame = replicate 12 0 @ [0x81, 0, 0x20, 5, 8, 0, 0, 0]"

theorem vlan_tags_skipped_witness:
  "\<exists>n q. n \<le> 2 \<and> tags_from tagged_frame 2 14 (word16_of_bytes 0x81 0) n q \<and>
     parse_ethhdr_vlan tagged_frame \<lparr>pos = 0\<rparr> (Some [0, 0]) =
       Inr (int (unat q), \<lparr>pos = 14 + 4 * n\<rparr>, Some 0,
         Some (map (\<lambda>j. vlan_id tagged_frame (14 + 4 * j)) [0..<n] @ drop n [0, 0]))"
proof -
  have t: "tagged_frame ! 12 = 0x81" "tagged_frame ! 13 = 0" "length tagged_frame = 20"
    by (simp_all add: tagged_frame_def eval_nat_numeral)
  from vlan_tags_skipped[of "\<lparr>pos = 0\<rparr>" tagged_frame "[0, 0]"] t show ?thesis
    by (simp add: VLAN_MAX_DEPTH_def)
qed

text \<open>A frame that carries an unfragmented-looking IPv4 header of the given protocol.\<close>

definition ip_frame :: "u8 \<Rightarrow> u8 list \<Rightarrow> bool" where
  "ip_frame protocol pkt \<longleftrightarrow> 34 \<le> length pkt \<and> pkt ! 12 = 0x08 \<and> pkt ! 13 = 0x00 \<and>
     20 \<le> ip_hdrsize (pkt ! 14) \<and> 14 + ip_hdrsize (pkt ! 14) \<le> length pkt \<and> pkt ! 23 = protocol"

lemma eth_type_ip [simp]:
  "uint (word16_of_bytes lo hi) = uint (htons ETH_P_IP) \<longleftrightarrow> lo = 0x08 \<and> hi = 0x00"
proof -
  have "byte_of 0 ETH_P_IP = 0" "byte_of 1 ETH_P_IP = 8"
    by (simp_all add: byte_of_def ETH_P_IP_def drop_bit_eq_div)
  then have "htons ETH_P_IP = word16_of_bytes 0x08 0x00" by (simp only: htons_def)
  moreover have "word16_of_bytes lo hi = word16_of_bytes 0x08 0x00 \<longleftrightarrow> lo = 0x08 \<and> hi = 0x00"
    by (metis byte_of_word16_of_bytes)
  ultimately show ?thesis by (simp only: word_uint_eq_iff[symmetric])
qed

lemma neg1_uint [simp]: "- 1 \<noteq> uint (w :: 'a::len word)"
  using uint_ge_0[of w] by linarith

lemma parse_frame:
  assumes "14 \<le> length pkt"
  shows "parse_eth_hdr pkt \<lparr>pos = 0\<rparr> =
    Inr (int (unat (word16_of_bytes (pkt ! 12) (pkt ! 13))), \<lparr>pos = 14\<rparr>, Some 0)"
  using assms by (simp add: parse_eth_hdr_def eval_nat_numeral)

lemma parse_ip_proto:
  assumes "14 \<le> length pkt"
  shows "\<exists>v nh hdr. parse_ip_hdr pkt \<lparr>pos = 14\<rparr> = Inr (v, nh, hdr) \<and>
    (v = int (unat p) \<longleftrightarrow> 34 \<le> length pkt \<and> 20 \<le> ip_hdrsize (pkt ! 14) \<and>
       14 + ip_hdrsize (pkt ! 14) \<le> length pkt \<and> pkt ! 23 = p)"
proof -
  show ?thesis by (auto simp: parse_ip_hdr_def Let_def word_uint_eq_iff)
qed

definition redirect :: "xskmap \<Rightarrow> xdp_md \<Rightarrow> bool \<Rightarrow> xdp_action" where
  "redirect m ctx b = (if b \<and> m (sint (rx_queue_index ctx)) \<noteq> None
     then XDP_REDIRECT (sint (rx_queue_index ctx)) else XDP_PASS)"

lemma xdp_sock_prog_redirect: "xdp_sock_prog m ctx = Inr (redirect m ctx (ip_frame 47 (xdp_data ctx)))"
proof -
  have i: "(IPPROTO_GRE :: int) = int (unat (47 :: u8))" by (simp add: IPPROTO_GRE_def)
  let ?pkt = "xdp_data ctx"
  show ?thesis
    using parse_ip_proto[of ?pkt 47]
    by (cases "14 \<le> length ?pkt")
      (auto simp: xdp_sock_prog_def parse_frame eth_type_ip redirect_def ip_frame_def bpf_redirect_map_def i
        parse_eth_hdr_def[of ?pkt])
qed

lemma xdp_sock_prog_udp_redirect: "xdp_sock_prog_udp m ctx = Inr (redirect m ctx (ip_frame 17 (xdp_data ctx)))"
proof -
  have i: "(IPPROTO_UDP :: int) = int (unat (17 :: u8))" by (simp add: IPPROTO_UDP_def)
  let ?pkt = "xdp_data ctx"
  show ?thesis
    using parse_ip_proto[of ?pkt 17]
    by (cases "14 \<le> length ?pkt")
      (auto simp: xdp_sock_prog_udp_def parse_frame eth_type_ip redirect_def ip_frame_def bpf_redirect_map_def i
        parse_eth_hdr_def[of ?pkt])
qed

lemma xdp_sock_prog_0_redirect: "xdp_sock_prog_0 m ctx = redirect m ctx True"
  by (auto simp: redirect_def xdp_sock_prog_0_def bpf_redirect_map_def)

text \<open>Property C24: the programs decide for every frame without reading outside it: the program on
  the physical interface redirects exactly the IPv4 GRE frames that arrive on a queue with a
  socket (its predecessor the UDP ones), the other two every frame of such a queue, and all
  pass everything else; none aborts or drops.\<close>
theorem xdp_programs_correct:
  "xdp_sock_prog m ctx = Inr (redirect m ctx (ip_frame 47 (xdp_data ctx))) \<and>
    xdp_sock_prog_udp m ctx = Inr (redirect m ctx (ip_frame 17 (xdp_data ctx))) \<and>
    xdp_sock_prog_all m ctx = redirect m ctx True \<and> xdp_sock_prog_0 m ctx = redirect m ctx True"
  by (simp add: xdp_sock_prog_redirect xdp_sock_prog_udp_redirect xdp_sock_prog_0_redirect)
    (auto simp: redirect_def xdp_sock_prog_all_def bpf_redirect_map_def)

end
