(* ===== verification/Xsk_Ring.thy ===== *)
theory Xsk_Ring
  imports Prelude
begin

text \<open>
  The descriptor rings between a program and the kernel, from
  \<open>lib/xdp-tools/headers/xdp/xsk.h\<close>: single-producer single-consumer rings with 32-bit
  positions that wrap around, and a cached copy of the other side's position. A ring record
  holds the program's private fields and the words it shares with the kernel.
\<close>

section \<open>State\<close>

record 'e xsk_ring =
  cached_prod :: u32
  cached_cons :: u32
  ring_mask :: u32
  ring_size :: u32
  producer :: u32
  consumer :: u32
  ring :: "'e list"
  ring_flags :: u32

record xdp_desc =
  desc_addr :: u64
  desc_len :: u32
  desc_options :: u32

section \<open>Operations\<close>

text \<open>
  The four accessors return a pointer to an entry; the program reads the entries of the rings
  it consumes and updates those of the rings it produces, so that the former return the entry
  and the latter apply an update to it.
\<close>

definition xsk_ring_prod__fill_addr :: "u64 xsk_ring \<Rightarrow> u32 \<Rightarrow> (u64 \<Rightarrow> u64) \<Rightarrow> u64 xsk_ring res" where
  "xsk_ring_prod__fill_addr fq idx f = rbind (arr_get (ring fq) (unat (idx AND ring_mask fq)))
     (\<lambda>e. Inr (fq\<lparr>ring := (ring fq)[unat (idx AND ring_mask fq) := f e]\<rparr>))"

definition xsk_ring_cons__comp_addr :: "u64 xsk_ring \<Rightarrow> u32 \<Rightarrow> u64 res" where
  "xsk_ring_cons__comp_addr cq idx = arr_get (ring cq) (unat (idx AND ring_mask cq))"

definition xsk_ring_prod__tx_desc :: "xdp_desc xsk_ring \<Rightarrow> u32 \<Rightarrow> (xdp_desc \<Rightarrow> xdp_desc) \<Rightarrow> xdp_desc xsk_ring res" where
  "xsk_ring_prod__tx_desc tx idx f = rbind (arr_get (ring tx) (unat (idx AND ring_mask tx)))
     (\<lambda>e. Inr (tx\<lparr>ring := (ring tx)[unat (idx AND ring_mask tx) := f e]\<rparr>))"

definition xsk_ring_cons__rx_desc :: "xdp_desc xsk_ring \<Rightarrow> u32 \<Rightarrow> xdp_desc res" where
  "xsk_ring_cons__rx_desc rx idx = arr_get (ring rx) (unat (idx AND ring_mask rx))"

definition XDP_RING_NEED_WAKEUP :: u32 where "XDP_RING_NEED_WAKEUP = 1"

definition xsk_ring_prod__needs_wakeup :: "'e xsk_ring \<Rightarrow> bool" where
  "xsk_ring_prod__needs_wakeup r \<longleftrightarrow> ring_flags r AND XDP_RING_NEED_WAKEUP \<noteq> 0"

definition xsk_prod_nb_free :: "'e xsk_ring \<Rightarrow> u32 \<Rightarrow> u32 \<times> 'e xsk_ring" where
  "xsk_prod_nb_free r nb =
     (let free_entries = cached_cons r - cached_prod r in
      if nb \<le> free_entries then (free_entries, r)
      else (let r' = r\<lparr>cached_cons := consumer r + ring_size r\<rparr> in (cached_cons r' - cached_prod r', r')))"

definition xsk_cons_nb_avail :: "'e xsk_ring \<Rightarrow> u32 \<Rightarrow> u32 \<times> 'e xsk_ring" where
  "xsk_cons_nb_avail r nb =
     (let entries = cached_prod r - cached_cons r;
          r' = (if entries = 0 then r\<lparr>cached_prod := producer r\<rparr> else r);
          entries' = (if entries = 0 then cached_prod r' - cached_cons r' else entries)
      in (if nb < entries' then nb else entries', r'))"

text \<open>The position written through \<open>idx\<close> is returned as an option: it is written on success only.\<close>

definition xsk_ring_prod__reserve :: "'e xsk_ring \<Rightarrow> u32 \<Rightarrow> u32 \<times> u32 option \<times> 'e xsk_ring" where
  "xsk_ring_prod__reserve r nb =
     (let (n, r') = xsk_prod_nb_free r nb in
      if n < nb then (0, None, r')
      else (nb, Some (cached_prod r'), r'\<lparr>cached_prod := cached_prod r' + nb\<rparr>))"

definition xsk_ring_prod__submit :: "'e xsk_ring \<Rightarrow> u32 \<Rightarrow> 'e xsk_ring" where
  "xsk_ring_prod__submit r nb = r\<lparr>producer := producer r + nb\<rparr>"

definition xsk_ring_cons__peek :: "'e xsk_ring \<Rightarrow> u32 \<Rightarrow> u32 \<times> u32 option \<times> 'e xsk_ring" where
  "xsk_ring_cons__peek r nb =
     (let (entries, r') = xsk_cons_nb_avail r nb in
      if 0 < entries then (entries, Some (cached_cons r'), r'\<lparr>cached_cons := cached_cons r' + entries\<rparr>)
      else (entries, None, r'))"

definition xsk_ring_cons__cancel :: "'e xsk_ring \<Rightarrow> u32 \<Rightarrow> 'e xsk_ring" where
  "xsk_ring_cons__cancel r nb = r\<lparr>cached_cons := cached_cons r - nb\<rparr>"

definition xsk_ring_cons__release :: "'e xsk_ring \<Rightarrow> u32 \<Rightarrow> 'e xsk_ring" where
  "xsk_ring_cons__release r nb = r\<lparr>consumer := consumer r + nb\<rparr>"

text \<open>Addresses in the packet buffer area: the upper 16 bits of an address are an offset.\<close>

definition xsk_umem__extract_addr :: "u64 \<Rightarrow> u64" where
  "xsk_umem__extract_addr a = a AND (2 ^ 48 - 1)"

definition xsk_umem__extract_offset :: "u64 \<Rightarrow> u64" where
  "xsk_umem__extract_offset a = drop_bit 48 a"

definition xsk_umem__add_offset_to_addr :: "u64 \<Rightarrow> u64" where
  "xsk_umem__add_offset_to_addr a = xsk_umem__extract_addr a + xsk_umem__extract_offset a"

text \<open>The pointer to a buffer is its offset in the packet buffer area.\<close>

definition xsk_umem__get_data :: "u64 \<Rightarrow> nat" where
  "xsk_umem__get_data a = unat a"

section \<open>The kernel's side\<close>

text \<open>
  What the kernel does to a ring it consumes (it takes the entries from the consumer position
  on) and to a ring it produces (it stores entries from the producer position on).
\<close>

definition kernel_take :: "'e xsk_ring \<Rightarrow> nat \<Rightarrow> 'e list \<times> 'e xsk_ring" where
  "kernel_take r n = (map (\<lambda>i. ring r ! unat ((consumer r + of_nat i) AND ring_mask r)) [0..<n],
     r\<lparr>consumer := consumer r + of_nat n\<rparr>)"

fun kernel_put :: "'e xsk_ring \<Rightarrow> 'e list \<Rightarrow> 'e xsk_ring" where
  "kernel_put r [] = r"
| "kernel_put r (x # xs) = kernel_put (r\<lparr>ring := (ring r)[unat (producer r AND ring_mask r) := x],
     producer := producer r + 1\<rparr>) xs"

section \<open>Ring invariants\<close>

text \<open>
  A ring of \<open>2 ^ k\<close> entries starting at the consumer position is divided into four parts. For
  a ring the program produces: submitted entries, entries reserved but not submitted, entries
  known to be free, entries the kernel has freed meanwhile. For a ring the program consumes:
  entries peeked but not released, entries known to be there, entries the kernel has added
  meanwhile, and free entries.
\<close>

definition ring_shape :: "nat \<Rightarrow> 'e xsk_ring \<Rightarrow> bool" where
  "ring_shape k r \<longleftrightarrow> k \<le> 30 \<and> ring_size r = 2 ^ k \<and> ring_mask r = 2 ^ k - 1 \<and> length (ring r) = 2 ^ k"

definition prod_parts :: "nat \<Rightarrow> 'e xsk_ring \<Rightarrow> nat \<Rightarrow> nat \<Rightarrow> nat \<Rightarrow> nat \<Rightarrow> bool" where
  "prod_parts k r submitted reserved free lag \<longleftrightarrow> ring_shape k r \<and>
     submitted + reserved + free + lag = 2 ^ k \<and>
     producer r = consumer r + of_nat submitted \<and>
     cached_prod r = consumer r + of_nat (submitted + reserved) \<and>
     cached_cons r = consumer r + of_nat (submitted + reserved + free)"

definition cons_parts :: "nat \<Rightarrow> 'e xsk_ring \<Rightarrow> nat \<Rightarrow> nat \<Rightarrow> nat \<Rightarrow> bool" where
  "cons_parts k r held known fresh \<longleftrightarrow> ring_shape k r \<and> held + known + fresh \<le> 2 ^ k \<and>
     cached_cons r = consumer r + of_nat held \<and>
     cached_prod r = consumer r + of_nat (held + known) \<and>
     producer r = consumer r + of_nat (held + known + fresh)"

text \<open>The entry at an offset from the consumer position, and a run of entries.\<close>

definition entry :: "'e xsk_ring \<Rightarrow> nat \<Rightarrow> 'e" where
  "entry r i = ring r ! unat ((consumer r + of_nat i) AND ring_mask r)"

definition entries :: "'e xsk_ring \<Rightarrow> nat \<Rightarrow> nat \<Rightarrow> 'e list" where
  "entries r i n = map (entry r) [i..<i + n]"


section \<open>The operations and the parts\<close>

lemma unat_of_nat_part [simp]: "n \<le> 2 ^ k \<Longrightarrow> k \<le> 30 \<Longrightarrow> unat (of_nat n :: u32) = n"
proof -
  assume "n \<le> 2 ^ k" "k \<le> (30::nat)"
  then have "n \<le> 2 ^ 30" using power_increasing[of k 30 "2::nat"] by simp
  then show ?thesis by (intro unat_of_nat_below) simp
qed

lemma unat_index:
  "ring_shape k r \<Longrightarrow> unat ((p + of_nat i) AND ring_mask r) = (unat p + i) mod 2 ^ k"
  by (simp add: ring_shape_def unat_and_mask unat_add_of_nat_mod_pow2)

lemma index_in: "ring_shape k r \<Longrightarrow> unat (p AND ring_mask r) < length (ring r)"
  by (simp add: ring_shape_def unat_and_mask)

lemma nb_le_of_nat:
  assumes "n \<le> 2 ^ k" "k \<le> 30"
  shows "nb \<le> (of_nat n :: u32) \<longleftrightarrow> unat nb \<le> n"
  using assms by (simp add: word_le_nat_alt)

lemma sub_of_nat_parts: "(c + of_nat (a + b)) - (c + of_nat a) = (of_nat b :: u32)"
  by simp

lemma reserve_parts:
  assumes p: "prod_parts k r s v f l"
  shows "\<exists>r'. ring r' = ring r \<and> consumer r' = consumer r \<and> ring_flags r' = ring_flags r \<and>
    (if unat nb \<le> f \<or> unat nb \<le> f + l
     then xsk_ring_prod__reserve r nb = (nb, Some (consumer r + of_nat (s + v)), r') \<and>
       (if unat nb \<le> f then prod_parts k r' s (v + unat nb) (f - unat nb) l
        else prod_parts k r' s (v + unat nb) (f + l - unat nb) 0)
     else xsk_ring_prod__reserve r nb = (0, None, r') \<and> prod_parts k r' s v (f + l) 0)"
proof -
  have k: "k \<le> 30" and le: "f \<le> 2 ^ k" "f + l \<le> 2 ^ k" and tot: "s + v + f + l = 2 ^ k"
    using p by (auto simp: prod_parts_def ring_shape_def)
  have free: "cached_cons r - cached_prod r = of_nat f"
    using p by (simp add: prod_parts_def)
  have sz: "ring_size r = of_nat (s + v + f + l)" using p tot by (simp add: prod_parts_def ring_shape_def)
  have fresh: "consumer r + ring_size r - cached_prod r = of_nat (f + l)"
  proof -
    have cp: "cached_prod r = consumer r + of_nat (s + v)" using p by (simp add: prod_parts_def)
    have "of_nat (s + v + f + l) = of_nat (s + v) + (of_nat (f + l) :: u32)"
      by (simp only: add.assoc of_nat_add)
    then show ?thesis unfolding sz cp by simp
  qed
  have nb: "cached_prod r + nb = consumer r + of_nat (s + (v + unat nb))"
    using p by (simp add: prod_parts_def add.assoc)
  show ?thesis
  proof (cases "unat nb \<le> f")
    case True
    let ?r = "r\<lparr>cached_prod := cached_prod r + nb\<rparr>"
    have c: "nb \<le> of_nat f" "\<not> of_nat f < nb" using True nb_le_of_nat[OF le(1) k, of nb] by (simp_all add: not_less)
    then have "xsk_prod_nb_free r nb = (of_nat f, r)" by (simp add: xsk_prod_nb_free_def free)
    with c p have "xsk_ring_prod__reserve r nb = (nb, Some (consumer r + of_nat (s + v)), ?r)"
      by (simp add: xsk_ring_prod__reserve_def prod_parts_def)
    moreover have "prod_parts k ?r s (v + unat nb) (f - unat nb) l"
      using p nb True by (simp add: prod_parts_def ring_shape_def of_nat_diff)
    ultimately show ?thesis using True by (intro exI[of _ ?r]) simp
  next
    case False
    let ?q = "r\<lparr>cached_cons := consumer r + ring_size r\<rparr>"
    have cc: "consumer r + ring_size r = consumer r + of_nat (s + v + (f + l))"
      unfolding sz by (simp only: add.assoc)
    have q: "prod_parts k ?q s v (f + l) 0"
      unfolding prod_parts_def ring_shape_def
      by (intro conjI) (use p cc in \<open>simp_all add: prod_parts_def ring_shape_def add.assoc del: of_nat_add\<close>)
    have nf: "xsk_prod_nb_free r nb = (of_nat (f + l), ?q)"
      using False nb_le_of_nat[OF le(1) k, of nb] free fresh by (simp add: xsk_prod_nb_free_def Let_def)
    show ?thesis
    proof (cases "unat nb \<le> f + l")
      case True
      let ?r = "?q\<lparr>cached_prod := cached_prod r + nb\<rparr>"
      have "\<not> (of_nat (f + l) :: u32) < nb" using True le k by (simp add: not_less nb_le_of_nat del: of_nat_add)
      then have "xsk_ring_prod__reserve r nb = (nb, Some (consumer r + of_nat (s + v)), ?r)"
        using nf p by (simp add: xsk_ring_prod__reserve_def prod_parts_def)
      moreover have e: "s + (v + unat nb) + (f + l - unat nb) = s + v + (f + l)" using True by simp
      have "prod_parts k ?r s (v + unat nb) (f + l - unat nb) 0"
        unfolding prod_parts_def ring_shape_def e
        by (intro conjI) (use q nb True in \<open>simp_all add: prod_parts_def ring_shape_def del: of_nat_add\<close>)
      ultimately show ?thesis using True False by (intro exI[of _ ?r]) simp
    next
      case no: False
      have "(of_nat (f + l) :: u32) < nb" using no le k by (simp add: not_le[symmetric] nb_le_of_nat del: of_nat_add)
      then have "xsk_ring_prod__reserve r nb = (0, None, ?q)"
        using nf by (simp add: xsk_ring_prod__reserve_def)
      then show ?thesis using q no by (intro exI[of _ ?q]) simp
    qed
  qed
qed

lemma submit_parts:
  assumes "prod_parts k r s v f l" "n \<le> v"
  shows "prod_parts k (xsk_ring_prod__submit r (of_nat n)) (s + n) (v - n) f l"
  using assms by (simp add: prod_parts_def ring_shape_def xsk_ring_prod__submit_def algebra_simps)

lemma kernel_take_parts:
  assumes "prod_parts k r s v f l" "n \<le> s" "kernel_take r n = (xs, r')"
  shows "prod_parts k r' (s - n) v f (l + n)" "xs = entries r 0 n"
    "\<And>i. entry r' i = entry r (i + n)"
  using assms by (auto simp: prod_parts_def ring_shape_def kernel_take_def entries_def entry_def
      of_nat_diff algebra_simps intro!: arg_cong[of _ _ "\<lambda>x. _ ! unat (x AND _)"])

lemma peek_parts:
  fixes nb :: u32
  assumes p: "cons_parts k r h n m"
  defines "e \<equiv> min (unat nb) (if n = 0 then m else n)"
  shows "\<exists>r'. ring r' = ring r \<and> consumer r' = consumer r \<and> producer r' = producer r \<and>
    xsk_ring_cons__peek r nb = (of_nat e, if e = 0 then None else Some (consumer r + of_nat h), r') \<and>
    (if n = 0 then cons_parts k r' (h + e) (m - e) 0 else cons_parts k r' (h + e) (n - e) m)"
proof -
  have k: "k \<le> 30" and le: "n \<le> 2 ^ k" "m \<le> 2 ^ k" using p by (auto simp: cons_parts_def ring_shape_def)
  have n0: "cached_prod r - cached_cons r = of_nat n" using p by (simp add: cons_parts_def)
  have nz: "(of_nat n :: u32) = 0 \<longleftrightarrow> n = 0" using le k by (metis unat_of_nat_part unat_eq_zero of_nat_0)
  define r1 where "r1 = (if n = 0 then r\<lparr>cached_prod := producer r\<rparr> else r)"
  have r1: "cached_prod r1 - cached_cons r1 = of_nat (if n = 0 then m else n)"
    using p by (auto simp: r1_def cons_parts_def)
  have ee: "e \<le> 2 ^ k" using le by (cases "n = 0") (auto simp: e_def intro: min.coboundedI2)
  have lt: "nb < of_nat (if n = 0 then m else n) \<longleftrightarrow> unat nb < (if n = 0 then m else n)"
    using le k by (simp add: word_less_nat_alt)
  have eq: "(if nb < of_nat (if n = 0 then m else n) then nb else of_nat (if n = 0 then m else n)) = of_nat e"
    unfolding lt by (auto simp: e_def min_def)
  have av: "xsk_cons_nb_avail r nb = (of_nat e, r1)"
  proof (cases "n = 0")
    case True
    then have "producer r - cached_cons r = of_nat m" using r1 by (simp add: r1_def)
    with True eq[symmetric] n0 show ?thesis by (simp add: xsk_cons_nb_avail_def Let_def r1_def)
  next
    case False
    with eq[symmetric] n0 nz show ?thesis by (simp add: xsk_cons_nb_avail_def Let_def r1_def)
  qed
  have ez: "0 < (of_nat e :: u32) \<longleftrightarrow> e \<noteq> 0" using ee k by (simp add: word_less_nat_alt)
  define r' where "r' = (if e = 0 then r1 else r1\<lparr>cached_cons := cached_cons r1 + of_nat e\<rparr>)"
  have "xsk_ring_cons__peek r nb = (of_nat e, if e = 0 then None else Some (consumer r + of_nat h), r')"
    using ez p by (simp add: xsk_ring_cons__peek_def av r'_def r1_def cons_parts_def)
  moreover have "e \<le> (if n = 0 then m else n)" by (simp add: e_def)
  then have "if n = 0 then cons_parts k r' (h + e) (m - e) 0 else cons_parts k r' (h + e) (n - e) m"
    using p by (auto simp: r'_def r1_def cons_parts_def ring_shape_def of_nat_diff algebra_simps)
  moreover have "ring r' = ring r \<and> consumer r' = consumer r \<and> producer r' = producer r"
    by (simp add: r'_def r1_def)
  ultimately show ?thesis by blast
qed

lemma release_parts:
  assumes "cons_parts k r h n m" "e \<le> h"
  shows "cons_parts k (xsk_ring_cons__release r (of_nat e)) (h - e) n m"
    "entry (xsk_ring_cons__release r (of_nat e)) i = entry r (i + e)"
proof -
  have "h - e + n + m \<le> 2 ^ k" using assms unfolding cons_parts_def by linarith
  moreover have "of_nat h = of_nat e + (of_nat (h - e) :: u32)" using assms(2) by (simp flip: of_nat_add)
  ultimately show "cons_parts k (xsk_ring_cons__release r (of_nat e)) (h - e) n m"
    using assms(1) by (simp add: cons_parts_def ring_shape_def xsk_ring_cons__release_def add.assoc)
  show "entry (xsk_ring_cons__release r (of_nat e)) i = entry r (i + e)"
    by (simp add: entry_def xsk_ring_cons__release_def add_ac)
qed

lemma cancel_parts:
  assumes "cons_parts k r h n m" "e \<le> h"
  shows "cons_parts k (xsk_ring_cons__cancel r (of_nat e)) (h - e) (n + e) m"
  using assms by (simp add: cons_parts_def ring_shape_def xsk_ring_cons__cancel_def of_nat_diff algebra_simps)


section \<open>Writing and reading runs of entries\<close>

lemma entry_index: "ring_shape k r \<Longrightarrow> entry r i = ring r ! ((unat (consumer r) + i) mod 2 ^ k)"
  by (simp add: entry_def unat_index)

lemma index_distinct:
  assumes "ring_shape k r" "i < 2 ^ k" "j < 2 ^ k" "i \<noteq> j"
  shows "unat ((p + of_nat i) AND ring_mask r) \<noteq> unat ((p + of_nat j) AND ring_mask r)"
  using mod_shift_inj[of "unat p" i "2 ^ k" j] assms by (auto simp: unat_index)

text \<open>Storing at the position of entry \<open>i\<close> changes entry \<open>i\<close> only.\<close>

lemma entry_store:
  assumes "ring_shape k r" "i < 2 ^ k" "j < 2 ^ k"
  shows "entry (r\<lparr>ring := (ring r)[unat ((consumer r + of_nat i) AND ring_mask r) := x]\<rparr>) j =
    (if j = i then x else entry r j)"
  using assms index_distinct[of k r i j "consumer r"] index_in[OF assms(1), of "consumer r + of_nat i"]
  by (auto simp: entry_def)

lemma parts_store [simp]:
  "prod_parts k (r\<lparr>ring := (ring r)[a := x]\<rparr>) s v f l = prod_parts k r s v f l"
  "ring_shape k (r\<lparr>ring := (ring r)[a := x]\<rparr>) = ring_shape k r"
  by (simp_all add: prod_parts_def ring_shape_def)

lemma entries_length [simp]: "length (entries r i n) = n"
  by (simp add: entries_def)

lemma entries_nth [simp]: "j < n \<Longrightarrow> entries r i n ! j = entry r (i + j)"
  by (simp add: entries_def)

lemma entries_eqI: "length xs = n \<Longrightarrow> (\<And>j. j < n \<Longrightarrow> entry r (i + j) = xs ! j) \<Longrightarrow> entries r i n = xs"
  by (rule nth_equalityI) simp_all

lemma entries_append: "entries r i (n + m) = entries r i n @ entries r (i + n) m"
  by (rule nth_equalityI) (auto simp: nth_append)

text \<open>
  The loop that fills reserved entries from position \<open>pos\<close> on, and the loop that reads
  peeked ones, as the program's loops over \<open>pos + i\<close> do.
\<close>

fun write_run :: "'e xsk_ring \<Rightarrow> u32 \<Rightarrow> ('e \<Rightarrow> 'e) list \<Rightarrow> 'e xsk_ring res" where
  "write_run r p [] = Inr r"
| "write_run r p (f # fs) = rbind (arr_get (ring r) (unat (p AND ring_mask r))) (\<lambda>e.
     write_run (r\<lparr>ring := (ring r)[unat (p AND ring_mask r) := f e]\<rparr>) (p + 1) fs)"

lemma write_run_correct:
  assumes "ring_shape k r" "i + length fs \<le> 2 ^ k"
  shows "\<exists>r'. write_run r (consumer r + of_nat i) fs = Inr r' \<and>
    (\<exists>xs. r' = r\<lparr>ring := xs\<rparr> \<and> length xs = length (ring r)) \<and>
    (\<forall>j < 2 ^ k. entry r' j = (if i \<le> j \<and> j < i + length fs then (fs ! (j - i)) (entry r j) else entry r j))"
  using assms
proof (induction fs arbitrary: r i)
  case (Cons f fs)
  let ?a = "unat ((consumer r + of_nat i) AND ring_mask r)"
  let ?r = "r\<lparr>ring := (ring r)[?a := f (ring r ! ?a)]\<rparr>"
  have sh: "ring_shape k ?r" using Cons.prems by simp
  have st: "consumer r + of_nat i + 1 = consumer ?r + of_nat (Suc i)" by (simp add: add_ac)
  obtain r' xs where r': "write_run ?r (consumer ?r + of_nat (Suc i)) fs = Inr r'"
    "r' = ?r\<lparr>ring := xs\<rparr>" "length xs = length (ring ?r)"
    "\<And>j. j < 2 ^ k \<Longrightarrow> entry r' j =
      (if Suc i \<le> j \<and> j < Suc i + length fs then (fs ! (j - Suc i)) (entry ?r j) else entry ?r j)"
    using Cons.IH[OF sh, of "Suc i"] Cons.prems(2) by auto
  then have w: "write_run r (consumer r + of_nat i) (f # fs) = Inr r'"
    using index_in[OF Cons.prems(1)] by (simp only: write_run.simps st arr_get_Inr rbind.simps)
  have "entry r' j = (if i \<le> j \<and> j < i + length (f # fs) then ((f # fs) ! (j - i)) (entry r j) else entry r j)"
    if "j < 2 ^ k" for j
    using r'(4)[OF that] entry_store[OF Cons.prems(1), of i j] that Cons.prems(2)
    by (auto simp: entry_def[of r i] nth_Cons' Suc_le_eq)
  with w r'(2,3) show ?case by (intro exI[of _ r'] conjI) auto
next
  case Nil
  then show ?case by (intro exI[of _ r] conjI exI[of _ "ring r"]) auto
qed

lemma write_values:
  fixes r :: "'e xsk_ring"
  assumes "ring_shape k r" "i + length xs \<le> 2 ^ k"
  shows "\<exists>ys. length ys = length (ring r) \<and>
    write_run r (consumer r + of_nat i) (map (\<lambda>x _. x) xs) = Inr (r\<lparr>ring := ys\<rparr>) \<and>
    (\<forall>j < 2 ^ k. entry (r\<lparr>ring := ys\<rparr>) j =
      (if i \<le> j \<and> j < i + length xs then xs ! (j - i) else entry r j))"
proof -
  define fs where "fs = map (\<lambda>x (_ :: 'e). x) xs"
  have fs: "i + length fs \<le> 2 ^ k" "length fs = length xs" "\<And>j. j < length xs \<Longrightarrow> fs ! j = (\<lambda>_. xs ! j)"
    using assms(2) by (simp_all add: fs_def)
  from write_run_correct[OF assms(1) fs(1)] obtain ys where ys: "length ys = length (ring r)"
    "write_run r (consumer r + of_nat i) fs = Inr (r\<lparr>ring := ys\<rparr>)" and
    e: "\<And>j. j < 2 ^ k \<Longrightarrow> entry (r\<lparr>ring := ys\<rparr>) j = (if i \<le> j \<and> j < i + length fs
        then (fs ! (j - i)) (entry r j) else entry r j)"
    by metis
  have "entry (r\<lparr>ring := ys\<rparr>) j = (if i \<le> j \<and> j < i + length xs then xs ! (j - i) else entry r j)"
    if "j < 2 ^ k" for j
    using e[OF that] fs(2,3) by auto
  with ys show ?thesis by (intro exI[of _ ys]) (simp add: fs_def)
qed

fun read_run :: "'e xsk_ring \<Rightarrow> u32 \<Rightarrow> nat \<Rightarrow> 'e list res" where
  "read_run r p 0 = Inr []"
| "read_run r p (Suc n) = rbind (arr_get (ring r) (unat (p AND ring_mask r))) (\<lambda>e.
     rbind (read_run r (p + 1) n) (\<lambda>es. Inr (e # es)))"

lemma read_run_correct:
  assumes "ring_shape k r"
  shows "read_run r (consumer r + of_nat i) n = Inr (entries r i n)"
proof (induction n arbitrary: i)
  case (Suc n)
  have st: "consumer r + of_nat i + 1 = consumer r + of_nat (Suc i)" by (simp add: add_ac)
  have "entries r i (Suc n) = entry r i # entries r (Suc i) n"
    by (simp add: entries_def upt_conv_Cons del: upt_Suc)
  with index_in[OF assms] show ?case
    by (simp only: read_run.simps st Suc.IH arr_get_Inr rbind.simps entry_def)
qed (simp add: entries_def)

lemma kernel_put_parts:
  assumes "cons_parts k r h n m" "h + n + m + length xs \<le> 2 ^ k"
  shows "cons_parts k (kernel_put r xs) h n (m + length xs) \<and>
    entries (kernel_put r xs) 0 (h + n + m + length xs) = entries r 0 (h + n + m) @ xs"
  using assms
proof (induction xs arbitrary: r m)
  case (Cons x xs)
  let ?a = "unat (producer r AND ring_mask r)"
  let ?r = "r\<lparr>ring := (ring r)[?a := x], producer := producer r + 1\<rparr>"
  have sh: "ring_shape k r" and pr: "producer r = consumer r + of_nat (h + n + m)"
    using Cons.prems(1) by (auto simp: cons_parts_def)
  have c: "cons_parts k ?r h n (Suc m)"
    using Cons.prems by (simp add: cons_parts_def ring_shape_def add_ac)
  have e: "entry ?r j = (if j = h + n + m then x else entry r j)" if "j < 2 ^ k" for j
    using entry_store[OF sh, of "h + n + m" j x] Cons.prems(2) that unfolding pr
    by (simp add: entry_def del: of_nat_add)
  have "entries ?r 0 (h + n + Suc m) = entries r 0 (h + n + m) @ [x]"
    using e Cons.prems(2) by (intro entries_eqI) (auto simp: nth_append)
  with Cons.IH[OF c] Cons.prems(2) show ?case by (simp add: add_ac)
qed simp

section \<open>Rings between operations\<close>

text \<open>
  Between two operations of the program nothing is reserved or held. The contents of a ring
  are then a list: what the program submitted and the kernel has not taken, or what the kernel
  stored and the program has not released.
\<close>

definition ring_content :: "'e xsk_ring \<Rightarrow> 'e list" where
  "ring_content r = entries r 0 (unat (producer r - consumer r))"

definition prod_idle :: "nat \<Rightarrow> 'e xsk_ring \<Rightarrow> bool" where
  "prod_idle k r \<longleftrightarrow> (\<exists>s f l. prod_parts k r s 0 f l)"

definition cons_idle :: "nat \<Rightarrow> 'e xsk_ring \<Rightarrow> bool" where
  "cons_idle k r \<longleftrightarrow> (\<exists>n m. cons_parts k r 0 n m)"

lemma prod_content: "prod_parts k r s v f l \<Longrightarrow> ring_content r = entries r 0 s"
  using unat_of_nat_part[of s k] by (simp add: ring_content_def prod_parts_def ring_shape_def)

lemma cons_content: "cons_parts k r h n m \<Longrightarrow> ring_content r = entries r 0 (h + n + m)"
  using unat_of_nat_part[of "h + n + m" k]
  by (simp add: ring_content_def cons_parts_def ring_shape_def del: of_nat_add)

lemma prod_idle_bound: "prod_idle k r \<Longrightarrow> length (ring_content r) \<le> 2 ^ k"
  by (auto simp: prod_idle_def prod_content) (auto simp: prod_parts_def)

lemma idle_small: "prod_idle k r \<Longrightarrow> k \<le> 30" "cons_idle k r' \<Longrightarrow> k \<le> 30"
  by (auto simp: prod_idle_def prod_parts_def cons_idle_def cons_parts_def ring_shape_def)

lemma cons_idle_bound: "cons_idle k r \<Longrightarrow> length (ring_content r) \<le> 2 ^ k"
  by (auto simp: cons_idle_def cons_content) (auto simp: cons_parts_def)

lemma idle_reserve:
  assumes "prod_idle k r" "length (ring_content r) + unat nb \<le> 2 ^ k"
  shows "\<exists>s f l r'. xsk_ring_prod__reserve r nb = (nb, Some (consumer r' + of_nat s), r') \<and>
    prod_parts k r' s (unat nb) f l \<and> s = length (ring_content r) \<and> entries r' 0 s = ring_content r"
proof -
  obtain s f l where p: "prod_parts k r s 0 f l" using assms(1) by (auto simp: prod_idle_def)
  have c: "ring_content r = entries r 0 s" by (rule prod_content[OF p])
  have tot: "s + f + l = 2 ^ k" using p by (simp add: prod_parts_def)
  have nb: "unat nb \<le> f + l" using assms(2) c tot by simp
  obtain r' where r': "ring r' = ring r" "consumer r' = consumer r"
    "xsk_ring_prod__reserve r nb = (nb, Some (consumer r + of_nat s), r')"
    "if unat nb \<le> f then prod_parts k r' s (unat nb) (f - unat nb) l
     else prod_parts k r' s (unat nb) (f + l - unat nb) 0"
    using reserve_parts[OF p, of nb] nb unfolding add_0_right add_0_left by auto
  then obtain f' l' where q: "prod_parts k r' s (unat nb) f' l'" by (cases "unat nb \<le> f") auto
  have "entries r' 0 s = entries r 0 s"
    using r'(1,2) p q by (simp add: entries_def entry_def prod_parts_def ring_shape_def)
  with r' q c show ?thesis
    by (intro exI[of _ s] exI[of _ f'] exI[of _ l'] exI[of _ r']) simp
qed

lemma idle_write_submit:
  assumes "prod_parts k r s n f l" "length fs = n"
  shows "\<exists>r'. write_run r (consumer r + of_nat s) fs = Inr r' \<and> prod_idle k (xsk_ring_prod__submit r' (of_nat n)) \<and>
    ring_flags r' = ring_flags r \<and>
    ring_content (xsk_ring_prod__submit r' (of_nat n)) = entries r 0 s @ map (\<lambda>i. (fs ! i) (entry r (s + i))) [0..<n]"
proof -
  have sh: "ring_shape k r" and tot: "s + length fs \<le> 2 ^ k" using assms by (auto simp: prod_parts_def)
  obtain r' ys where r': "write_run r (consumer r + of_nat s) fs = Inr r'" "r' = r\<lparr>ring := ys\<rparr>"
    "length ys = length (ring r)" and
    e: "\<And>j. j < 2 ^ k \<Longrightarrow> entry r' j = (if s \<le> j \<and> j < s + length fs then (fs ! (j - s)) (entry r j) else entry r j)"
    using write_run_correct[OF sh tot] by blast
  have "prod_parts k r' s n f l" using assms(1) r'(2,3) by (simp add: prod_parts_def ring_shape_def)
  note q = submit_parts[OF this le_refl]
  have "entries (xsk_ring_prod__submit r' (of_nat n)) 0 (s + n) =
      entries r 0 s @ map (\<lambda>i. (fs ! i) (entry r (s + i))) [0..<n]"
  proof (rule entries_eqI)
    fix j assume j: "j < s + n"
    have "entry (xsk_ring_prod__submit r' (of_nat n)) (0 + j) = entry r' j"
      by (simp add: entry_def xsk_ring_prod__submit_def)
    with e[of j] j tot assms(2)
    show "entry (xsk_ring_prod__submit r' (of_nat n)) (0 + j) =
        (entries r 0 s @ map (\<lambda>i. (fs ! i) (entry r (s + i))) [0..<n]) ! j"
      by (auto simp: nth_append)
  qed simp
  with q r'(1,2) prod_content[OF q] show ?thesis unfolding prod_idle_def by (intro exI[of _ r']) auto
qed

lemma idle_kernel_take:
  assumes "prod_idle k r" "n \<le> length (ring_content r)" "kernel_take r n = (xs, r')"
  shows "prod_idle k r'" "xs = take n (ring_content r)" "ring_content r' = drop n (ring_content r)"
proof -
  obtain s f l where p: "prod_parts k r s 0 f l" using assms(1) by (auto simp: prod_idle_def)
  have c: "ring_content r = entries r 0 s" by (rule prod_content[OF p])
  then have n: "n \<le> s" using assms(2) by simp
  note t = kernel_take_parts[OF p n assms(3)]
  show "prod_idle k r'" using t(1) by (auto simp: prod_idle_def)
  show "xs = take n (ring_content r)" unfolding t(2) c using n by (auto intro!: nth_equalityI)
  show "ring_content r' = drop n (ring_content r)"
    unfolding prod_content[OF t(1)] c using n t(3) by (auto intro!: nth_equalityI simp: add.commute)
qed

lemma idle_peek_release:
  assumes "cons_idle k r"
  shows "\<exists>e r'. xsk_ring_cons__peek r nb = (of_nat e, if e = 0 then None else Some (consumer r), r') \<and>
    unat (of_nat e :: u32) = e \<and> e \<le> unat nb \<and> e \<le> length (ring_content r) \<and>
    (e = 0 \<longrightarrow> nb = 0 \<or> ring_content r = []) \<and> consumer r' = consumer r \<and>
    read_run r' (consumer r) e = Inr (take e (ring_content r)) \<and>
    cons_idle k (xsk_ring_cons__release r' (of_nat e)) \<and>
    ring_content (xsk_ring_cons__release r' (of_nat e)) = drop e (ring_content r) \<and>
    (e = 0 \<longrightarrow> cons_idle k r' \<and> ring_content r' = ring_content r)"
proof -
  obtain n m where p: "cons_parts k r 0 n m" using assms by (auto simp: cons_idle_def)
  have c: "ring_content r = entries r 0 (n + m)" using cons_content[OF p] by simp
  define e where "e = min (unat nb) (if n = 0 then m else n)"
  obtain r1 where r1: "ring r1 = ring r" "consumer r1 = consumer r"
    "xsk_ring_cons__peek r nb = (of_nat e, if e = 0 then None else Some (consumer r + of_nat 0), r1)"
    "if n = 0 then cons_parts k r1 (0 + e) (m - e) 0 else cons_parts k r1 (0 + e) (n - e) m"
    using peek_parts[OF p, of nb, folded e_def] by blast
  obtain n' m' where q: "cons_parts k r1 e n' m'" "e + n' + m' = n + m"
  proof (cases "n = 0")
    case True
    with r1(4) that[of "m - e" 0] show ?thesis by (auto simp: e_def)
  next
    case False
    with r1(4) that[of "n - e" m] show ?thesis by (auto simp: e_def)
  qed
  have sh: "ring_shape k r1" "ring_shape k r" using q(1) p by (simp_all add: cons_parts_def)
  have en: "entry r1 j = entry r j" for j using r1(1,2) sh by (simp add: entry_index)
  have "e \<le> 2 ^ k" "k \<le> 30" using q p by (auto simp: cons_parts_def ring_shape_def)
  then have ue: "unat (of_nat e :: u32) = e" by simp
  have rd: "read_run r1 (consumer r1 + of_nat 0) e = Inr (entries r1 0 e)" by (rule read_run_correct[OF sh(1)])
  have tk: "entries r1 0 e = take e (ring_content r)"
    unfolding c using q(2) en by (auto intro!: nth_equalityI)
  note rel = release_parts[OF q(1) le_refl]
  have rc: "ring_content (xsk_ring_cons__release r1 (of_nat e)) = drop e (ring_content r)"
    unfolding cons_content[OF rel(1)] c using q(2) en rel(2)
    by (auto intro!: nth_equalityI simp: add.commute)
  have "cons_idle k (xsk_ring_cons__release r1 (of_nat e))" using rel(1) by (auto simp: cons_idle_def)
  moreover have "e = 0 \<longrightarrow> cons_idle k r1 \<and> ring_content r1 = ring_content r"
    using q cons_content[OF q(1)] en c by (auto simp: cons_idle_def entries_def)
  moreover have "e = 0 \<longrightarrow> nb = 0 \<or> ring_content r = []"
    using c by (auto simp: e_def unat_eq_zero entries_def min_def split: if_splits)
  moreover have "e \<le> length (ring_content r)" "e \<le> unat nb" using q(2) c by (auto simp: e_def)
  moreover have "xsk_ring_cons__peek r nb = (of_nat e, if e = 0 then None else Some (consumer r), r1)"
    using r1(3) by (simp only: semiring_1_class.of_nat_0 add_0_right cong: if_cong)
  moreover have "read_run r1 (consumer r) e = Inr (take e (ring_content r))"
    using rd by (simp only: tk r1(2) semiring_1_class.of_nat_0 add_0_right)
  ultimately show ?thesis
    using r1(2) rc ue by - (rule exI[of _ e], rule exI[of _ r1], blast)
qed

lemma idle_kernel_put:
  assumes "cons_idle k r" "length (ring_content r) + length xs \<le> 2 ^ k"
  shows "cons_idle k (kernel_put r xs) \<and> ring_content (kernel_put r xs) = ring_content r @ xs"
proof -
  obtain n m where p: "cons_parts k r 0 n m" using assms(1) by (auto simp: cons_idle_def)
  have c: "ring_content r = entries r 0 (n + m)" using cons_content[OF p] by simp
  have "0 + n + m + length xs \<le> 2 ^ k" using assms(2) c by simp
  note q = kernel_put_parts[OF p this]
  from q cons_content[OF conjunct1[OF q]] c show ?thesis by (auto simp: cons_idle_def add.assoc)
qed

section \<open>Properties\<close>

text \<open>A reservation succeeds exactly when the ring has that many free entries (the
  cached consumer position is refreshed when it has to be); what is written to the reserved
  entries and submitted is what the kernel takes next, in order, behind everything submitted
  before, whatever else was in the ring. Positions may wrap around \<open>2 ^ 32\<close>.\<close>
theorem ring_produce:
  assumes "prod_parts k r s 0 f l" "length xs \<le> 2 ^ k"
  shows "if length xs \<le> f + l
    then \<exists>p r1 r2. xsk_ring_prod__reserve r (of_nat (length xs)) = (of_nat (length xs), Some p, r1) \<and>
      write_run r1 p (map (\<lambda>x _. x) xs) = Inr r2 \<and>
      fst (kernel_take (xsk_ring_prod__submit r2 (of_nat (length xs))) (s + length xs)) = entries r 0 s @ xs \<and>
      (\<exists>f' l'. f' + l' + length xs = f + l \<and> prod_parts k (xsk_ring_prod__submit r2 (of_nat (length xs))) (s + length xs) 0 f' l')
    else \<exists>r1. xsk_ring_prod__reserve r (of_nat (length xs)) = (0, None, r1) \<and> prod_parts k r1 s 0 (f + l) 0"
proof -
  let ?n = "length xs"
  have k: "k \<le> 30" and tot: "s + f + l = 2 ^ k" using assms by (auto simp: prod_parts_def ring_shape_def)
  have u: "unat (of_nat ?n :: u32) = ?n" using assms(2) k by simp
  obtain r1 where r1: "ring r1 = ring r" "consumer r1 = consumer r"
    "if ?n \<le> f \<or> ?n \<le> f + l
     then xsk_ring_prod__reserve r (of_nat ?n) = (of_nat ?n, Some (consumer r + of_nat s), r1) \<and>
       (if ?n \<le> f then prod_parts k r1 s ?n (f - ?n) l else prod_parts k r1 s ?n (f + l - ?n) 0)
     else xsk_ring_prod__reserve r (of_nat ?n) = (0, None, r1) \<and> prod_parts k r1 s 0 (f + l) 0"
    using reserve_parts[OF assms(1), of "of_nat ?n"] unfolding u add_0_right add_0_left by blast
  show ?thesis
  proof (cases "?n \<le> f + l")
    case True
    obtain f' l' where p: "xsk_ring_prod__reserve r (of_nat ?n) = (of_nat ?n, Some (consumer r1 + of_nat s), r1)"
      "prod_parts k r1 s ?n f' l'" "f' + l' + ?n = f + l"
    proof (cases "?n \<le> f")
      case True
      with r1(3) show ?thesis using that[of "f - ?n" l] by (simp add: r1(2))
    next
      case F: False
      with True r1(3) show ?thesis using that[of "f + l - ?n" 0] by (simp add: r1(2))
    qed
    have sh: "ring_shape k r1" using p(2) by (simp add: prod_parts_def)
    have le: "s + length xs \<le> 2 ^ k" using True tot by simp
    obtain ys where ys: "length ys = length (ring r1)"
      "write_run r1 (consumer r1 + of_nat s) (map (\<lambda>x _. x) xs) = Inr (r1\<lparr>ring := ys\<rparr>)"
      "\<And>j. j < 2 ^ k \<Longrightarrow> entry (r1\<lparr>ring := ys\<rparr>) j = (if s \<le> j \<and> j < s + ?n then xs ! (j - s) else entry r1 j)"
      using write_values[OF sh le] by (elim exE conjE) auto
    define r2 where "r2 = r1\<lparr>ring := ys\<rparr>"
    note r2 = ys(2)[folded r2_def] r2_def ys(1) and r24 = ys(3)[folded r2_def]
    have q: "prod_parts k r2 s ?n f' l'" using p(2) r2(2,3) by (simp add: prod_parts_def ring_shape_def)
    let ?r3 = "xsk_ring_prod__submit r2 (of_nat ?n)"
    have q3: "prod_parts k ?r3 (s + ?n) 0 f' l'" using submit_parts[OF q, of ?n] by simp
    have "entries ?r3 0 (s + ?n) = entries r 0 s @ xs"
    proof (rule entries_eqI)
      fix j assume j: "j < s + ?n"
      have "entry ?r3 (0 + j) = entry r2 j" by (simp add: entry_def xsk_ring_prod__submit_def)
      moreover have "entry r1 j = entry r j" if "j < s"
        using r1(1,2) sh assms(1) by (simp add: entry_index prod_parts_def ring_shape_def entry_def)
      ultimately show "entry ?r3 (0 + j) = (entries r 0 s @ xs) ! j"
        using r24[of j] j True tot by (auto simp: nth_append)
    qed simp
    moreover have "fst (kernel_take ?r3 (s + ?n)) = entries ?r3 0 (s + ?n)"
      using kernel_take_parts(2)[OF q3 le_refl] by (metis prod.collapse)
    ultimately have "\<exists>p r1 r2. xsk_ring_prod__reserve r (of_nat ?n) = (of_nat ?n, Some p, r1) \<and>
      write_run r1 p (map (\<lambda>x _. x) xs) = Inr r2 \<and>
      fst (kernel_take (xsk_ring_prod__submit r2 (of_nat ?n)) (s + ?n)) = entries r 0 s @ xs \<and>
      (\<exists>f' l'. f' + l' + ?n = f + l \<and> prod_parts k (xsk_ring_prod__submit r2 (of_nat ?n)) (s + ?n) 0 f' l')"
      using p(1,3) r2(1) q3
      by - (rule exI[of _ "consumer r1 + of_nat s"], rule exI[of _ r1], rule exI[of _ r2], auto)
    with True show ?thesis by (simp only: if_True)
  next
    case False
    with r1(3) show ?thesis by auto
  qed
qed

definition sample_ring :: "nat xsk_ring" where
  "sample_ring = \<lparr>cached_prod = 0, cached_cons = 2, ring_mask = 1, ring_size = 2, producer = 0,
     consumer = 0, ring = [0, 0], ring_flags = 0\<rparr>"

theorem ring_produce_witness:
  "\<exists>p r1 r2. xsk_ring_prod__reserve sample_ring 2 = (2, Some p, r1) \<and>
     write_run r1 p [\<lambda>_. 7, \<lambda>_. 8] = Inr r2 \<and> fst (kernel_take (xsk_ring_prod__submit r2 2) 2) = [7, 8]"
proof -
  have "prod_parts 1 sample_ring 0 0 2 0"
    by (simp add: prod_parts_def ring_shape_def sample_ring_def)
  from ring_produce[OF this, of "[7, 8]"] show ?thesis
    by (auto simp: entries_def numeral_2_eq_2 simp del: write_run.simps)
qed

text \<open>A peek returns entries the kernel has stored, up to the number asked for, none
  only if there are none; reading and releasing them hands over the oldest entries in order,
  and the entries that remain are the same ones.\<close>
theorem ring_consume:
  assumes "cons_parts k r 0 n m"
  shows "\<exists>e r1. xsk_ring_cons__peek r nb = (of_nat e, if e = 0 then None else Some (consumer r), r1) \<and>
    e = min (unat nb) (if n = 0 then m else n) \<and>
    read_run r1 (consumer r) e = Inr (entries r 0 e) \<and>
    (\<exists>n' m'. e + n' + m' = n + m \<and> cons_parts k (xsk_ring_cons__release r1 (of_nat e)) 0 n' m' \<and>
      entries (xsk_ring_cons__release r1 (of_nat e)) 0 (n' + m') = entries r e (n' + m'))"
proof -
  let ?e = "min (unat nb) (if n = 0 then m else n)"
  obtain r1 where r1: "ring r1 = ring r" "consumer r1 = consumer r"
    "xsk_ring_cons__peek r nb = (of_nat ?e, if ?e = 0 then None else Some (consumer r + of_nat 0), r1)"
    "if n = 0 then cons_parts k r1 (0 + ?e) (m - ?e) 0 else cons_parts k r1 (0 + ?e) (n - ?e) m"
    using peek_parts[OF assms, of nb] by blast
  obtain n' m' where p: "cons_parts k r1 ?e n' m'" "?e + n' + m' = n + m"
  proof (cases "n = 0")
    case True
    with r1(4) that[of "m - ?e" 0] show ?thesis by auto
  next
    case False
    with r1(4) that[of "n - ?e" m] show ?thesis by auto
  qed
  have sh: "ring_shape k r1" "ring_shape k r" using p(1) assms by (simp_all add: cons_parts_def)
  have en: "entry r1 j = entry r j" for j using r1(1,2) sh by (simp add: entry_index)
  have "read_run r1 (consumer r1 + of_nat 0) ?e = Inr (entries r1 0 ?e)" by (rule read_run_correct[OF sh(1)])
  then have "read_run r1 (consumer r) ?e = Inr (entries r 0 ?e)" using en r1(2) by (simp add: entries_def)
  moreover note rel = release_parts[OF p(1) le_refl]
  have "cons_parts k (xsk_ring_cons__release r1 (of_nat ?e)) 0 n' m'" using rel(1) by simp
  moreover have "entries (xsk_ring_cons__release r1 (of_nat ?e)) 0 (n' + m') = entries r ?e (n' + m')"
    by (rule entries_eqI) (simp_all add: rel(2) en add.commute)
  moreover have "xsk_ring_cons__peek r nb = (of_nat ?e, if ?e = 0 then None else Some (consumer r), r1)"
    using r1(3) by (simp only: semiring_1_class.of_nat_0 add_0_right cong: if_cong)
  ultimately show ?thesis using p(2)
    by (intro exI[of _ ?e] exI[of _ r1] conjI exI[of _ n'] exI[of _ m'] refl)
qed


definition sample_cons :: "nat xsk_ring" where
  "sample_cons = \<lparr>cached_prod = 0, cached_cons = 0, ring_mask = 1, ring_size = 2, producer = 2,
     consumer = 0, ring = [7, 8], ring_flags = 0\<rparr>"

theorem ring_consume_witness:
  "\<exists>r1. xsk_ring_cons__peek sample_cons 1 = (1, Some 0, r1) \<and> read_run r1 0 1 = Inr [7]"
proof -
  have "cons_parts 1 sample_cons 0 0 2"
    by (simp add: cons_parts_def ring_shape_def sample_cons_def)
  from ring_consume[OF this, of 1] show ?thesis by (auto simp: entries_def entry_def sample_cons_def)
qed

end
