(* ===== verification/Mempool.thy ===== *)
theory Mempool
  imports Xsk_Ring
begin

text \<open>
  The packet buffer pool of \<open>opera-v2/mempool.h\<close> and its per-port caches. Buffers are
  addresses kept in slabs, fixed-size runs of one array; a slab is named by a pointer to its
  first element, here its index in the array, so that two names of one slab see each other's
  writes, as in the code. The mutex makes each operation on the pool one step.
\<close>

section \<open>State\<close>

record bpool_params =
  bp_n_buffers_param :: u32
  buffer_size :: u32
  mmap_flags :: int
  n_users_max :: u32
  n_buffers_per_slab :: u32

record xsk_umem_config =
  fill_size :: u32
  comp_size :: u32
  frame_size :: u32
  frame_headroom :: u32
  umem_flags :: u32

record bpool =
  params :: bpool_params
  slabs :: "nat list"
  buffers :: "u64 list"
  n_slabs :: u64
  n_buffers :: u64
  n_slabs_available :: u64
  umem_cfg :: xsk_umem_config
  umem_size :: u64

record bcache =
  slab_cons :: nat
  slab_prod :: nat
  n_buffers_cons :: u64
  n_buffers_prod :: u64

abbreviation per_slab :: "bpool \<Rightarrow> u64" where
  "per_slab bp \<equiv> ucast (n_buffers_per_slab (params bp))"

section \<open>Operations of a cache\<close>

definition bcache_slab_size :: "bpool \<Rightarrow> u32" where
  "bcache_slab_size bp = n_buffers_per_slab (params bp)"

definition bcache_cons_check :: "bpool \<Rightarrow> bcache \<Rightarrow> u32 \<Rightarrow> (u32 \<times> bpool \<times> bcache) res" where
  "bcache_cons_check bp bc n =
     (if n_buffers_cons bc \<noteq> 0 then
        Inr (if n_buffers_cons bc < ucast n then ucast (n_buffers_cons bc) else n, bp, bc)
      else if n_slabs_available bp = 0 then Inr (0, bp, bc)
      else (let a = n_slabs_available bp - 1 in
        rbind (arr_get (slabs bp) (unat a)) (\<lambda>slab_full.
        rbind (arr_set (slabs bp) (unat a) (slab_cons bc)) (\<lambda>ss.
          Inr (n, bp\<lparr>slabs := ss, n_slabs_available := a\<rparr>,
            bc\<lparr>slab_cons := slab_full, n_buffers_cons := per_slab bp\<rparr>)))))"

text \<open>\<open>calloc\<close> may fail: \<open>alloc_ok\<close>. A \<open>NULL\<close> result is \<open>None\<close>.\<close>

definition bcache_init :: "bool \<Rightarrow> bpool \<Rightarrow> (bpool \<times> bcache option) res" where
  "bcache_init alloc_ok bp =
     (if \<not> alloc_ok then Inr (bp, None)
      else if n_slabs_available bp = 0 then Inr (bp, None)
      else
        rbind (arr_get (slabs bp) (unat (n_slabs_available bp - 1))) (\<lambda>c.
        rbind (arr_get (slabs bp) (unat (n_slabs_available bp - 2))) (\<lambda>p.
          Inr (bp\<lparr>n_slabs_available := n_slabs_available bp - 2\<rparr>,
            Some \<lparr>slab_cons = c, slab_prod = p, n_buffers_cons = per_slab bp, n_buffers_prod = 0\<rparr>))))"

definition bcache_free :: "bpool \<Rightarrow> bcache option \<Rightarrow> bpool" where
  "bcache_free bp bc = (case bc of None \<Rightarrow> bp
     | Some c \<Rightarrow> bp\<lparr>n_slabs_available := n_slabs_available bp + 2\<rparr>)"

definition bcache_cons :: "bpool \<Rightarrow> bcache \<Rightarrow> (u64 \<times> bcache) res" where
  "bcache_cons bp bc =
     (let n = n_buffers_cons bc - 1 in
      rbind (arr_get (buffers bp) (slab_cons bc + unat n)) (\<lambda>b. Inr (b, bc\<lparr>n_buffers_cons := n\<rparr>)))"

definition bcache_prod :: "bpool \<Rightarrow> bcache \<Rightarrow> u64 \<Rightarrow> (bpool \<times> bcache) res" where
  "bcache_prod bp bc b =
     (if n_buffers_prod bc < per_slab bp then
        rbind (arr_set (buffers bp) (slab_prod bc + unat (n_buffers_prod bc)) b) (\<lambda>bs.
          Inr (bp\<lparr>buffers := bs\<rparr>, bc\<lparr>n_buffers_prod := n_buffers_prod bc + 1\<rparr>))
      else
        rbind (arr_get (slabs bp) (unat (n_slabs_available bp))) (\<lambda>slab_empty.
        rbind (arr_set (slabs bp) (unat (n_slabs_available bp)) (slab_prod bc)) (\<lambda>ss.
        rbind (arr_set (buffers bp) slab_empty b) (\<lambda>bs.
          Inr (bp\<lparr>slabs := ss, n_slabs_available := n_slabs_available bp + 1, buffers := bs\<rparr>,
            bc\<lparr>slab_prod := slab_empty, n_buffers_prod := 1\<rparr>)))))"

section \<open>Creating and deleting the pool\<close>

text \<open>What the system answers: \<open>setrlimit\<close>, \<open>calloc\<close>, \<open>pthread_mutex_init\<close>, \<open>mmap\<close>, \<open>xsk_umem__create\<close>.\<close>

record bpool_env =
  rlimit_ok :: bool
  calloc_ok :: bool
  mutex_status :: int
  mmap_ok :: bool
  umem_create :: "u64 \<Rightarrow> int"

text \<open>
  The number of slabs is computed in 32 bits, and so is the size the buffer area is
  registered with, while the area itself is mapped with a 64-bit size.
\<close>

definition bpool_init :: "bpool_env \<Rightarrow> bpool_params \<Rightarrow> xsk_umem_config \<Rightarrow> (bpool option) res" where
  "bpool_init env ps cfg =
     (if \<not> rlimit_ok env then Inr None
      else if n_buffers_per_slab ps = 0 then Inl Div_By_Zero
      else (let ns = ucast ((bp_n_buffers_param ps + n_buffers_per_slab ps - 1) div n_buffers_per_slab ps) :: u64;
                nb = ns * ucast (n_buffers_per_slab ps);
                ps' = ps\<lparr>bp_n_buffers_param := ucast nb\<rparr>;
                sz = bp_n_buffers_param ps' * buffer_size ps'
        in if \<not> calloc_ok env then Inr None
           else if mutex_status env \<noteq> 0 then Inr None
           else if \<not> mmap_ok env then Inr None
           else if umem_create env (ucast sz) \<noteq> 0 then Inr None
           else Inr (Some \<lparr>params = ps',
             slabs = map (\<lambda>i. i * unat (n_buffers_per_slab ps)) [0..<unat ns],
             buffers = map (\<lambda>i. of_nat i * ucast (buffer_size ps)) [0..<unat nb],
             n_slabs = ns, n_buffers = nb, n_slabs_available = ns, umem_cfg = cfg, umem_size = ucast sz\<rparr>)))"

text \<open>Deleting the pool unmaps the size computed in 32 bits; \<open>None\<close> is a \<open>NULL\<close> pool.\<close>

definition bpool_free :: "bpool option \<Rightarrow> u64 option" where
  "bpool_free bp = map_option (\<lambda>b. ucast (bp_n_buffers_param (params b) * buffer_size (params b))) bp"

text \<open>The parameters the emulator starts from.\<close>

definition bpool_params_default :: bpool_params where
  "bpool_params_default = \<lparr>bp_n_buffers_param = 128 * 1024, buffer_size = 4096, mmap_flags = 0,
     n_users_max = 16, n_buffers_per_slab = 2048 * 2\<rparr>"

definition umem_cfg_default :: xsk_umem_config where
  "umem_cfg_default = \<lparr>fill_size = 2048 * 2, comp_size = 2048, frame_size = 4096, frame_headroom = 0,
     umem_flags = 0\<rparr>"

section \<open>The invariant\<close>

text \<open>
  The pool with its caches. The first \<open>m\<close> entries of the slab table are in use; the entries
  above were handed to caches when they were created and still name the caches' slabs. No
  slab has two names among the used entries and the caches.
\<close>

definition slab_names :: "nat \<Rightarrow> bpool \<Rightarrow> bcache list \<Rightarrow> nat list" where
  "slab_names m bp cs = take m (slabs bp) @ concat (map (\<lambda>c. [slab_cons c, slab_prod c]) cs)"

definition pool_inv :: "nat \<Rightarrow> bpool \<Rightarrow> bcache list \<Rightarrow> bool" where
  "pool_inv m bp cs \<longleftrightarrow> (let S = unat (n_buffers_per_slab (params bp)) in
     0 < S \<and> length (slabs bp) < 2 ^ 63 \<and> m \<le> length (slabs bp) \<and> unat (n_slabs_available bp) \<le> m \<and>
     distinct (slab_names m bp cs) \<and>
     (\<forall>p \<in> set (slab_names m bp cs). p mod S = 0 \<and> p + S \<le> length (buffers bp)) \<and>
     (\<forall>c \<in> set cs. unat (n_buffers_cons c) \<le> S \<and> unat (n_buffers_prod c) \<le> S))"

text \<open>The buffers that are in the pool and its caches, with multiplicity.\<close>

definition slab_bufs :: "bpool \<Rightarrow> nat \<Rightarrow> nat \<Rightarrow> u64 multiset" where
  "slab_bufs bp p n = mset (take n (drop p (buffers bp)))"

definition cache_bufs :: "bpool \<Rightarrow> bcache \<Rightarrow> u64 multiset" where
  "cache_bufs bp c = slab_bufs bp (slab_cons c) (unat (n_buffers_cons c)) +
     slab_bufs bp (slab_prod c) (unat (n_buffers_prod c))"

definition pooled :: "bpool \<Rightarrow> bcache list \<Rightarrow> u64 multiset" where
  "pooled bp cs =
     (\<Sum>p \<leftarrow> take (unat (n_slabs_available bp)) (slabs bp). slab_bufs bp p (unat (n_buffers_per_slab (params bp)))) +
     (\<Sum>c \<leftarrow> cs. cache_bufs bp c)"


section \<open>Slabs do not overlap\<close>

lemma slab_disjoint:
  assumes "p mod S = 0" "q mod S = 0" "p \<noteq> q" "(0::nat) < S"
  shows "p + S \<le> q \<or> q + S \<le> p"
proof -
  obtain a b where ab: "p = S * a" "q = S * b" using assms(1,2) by (auto simp: mod_eq_0_iff_dvd elim!: dvdE)
  with assms(3) consider "Suc a \<le> b" | "Suc b \<le> a" by (metis Suc_leI linorder_neqE_nat)
  then show ?thesis
  proof cases
    case 1
    then have "S * Suc a \<le> S * b" by (rule mult_le_mono2)
    with ab show ?thesis by simp
  next
    case 2
    then have "S * Suc b \<le> S * a" by (rule mult_le_mono2)
    with ab show ?thesis by simp
  qed
qed

lemma take_drop_store_out: "j < p \<or> p + n \<le> j \<Longrightarrow> take n (drop p (xs[j := b])) = take n (drop p xs)"
  by (auto simp: drop_update_swap)

lemma take_drop_store_next:
  assumes "p + n < length xs"
  shows "take (Suc n) (drop p (xs[p + n := b])) = take n (drop p xs) @ [b]"
proof -
  have "take n (drop p (xs[p + n := b])) = take n (drop p xs)" by (rule take_drop_store_out) simp
  with assms show ?thesis by (simp add: take_Suc_conv_app_nth)
qed

text \<open>A store into one slab does not change what another slab holds.\<close>

lemma slab_bufs_store_other:
  assumes "p mod S = 0" "q mod S = 0" "p \<noteq> q" "i < S" "n \<le> S"
  shows "slab_bufs (bp\<lparr>buffers := (buffers bp)[q + i := b]\<rparr>) p n = slab_bufs bp p n"
proof -
  have "0 < S" using assms(4) by simp
  from slab_disjoint[OF assms(1-3) this] assms(4,5) have "q + i < p \<or> p + n \<le> q + i" by auto
  then show ?thesis by (simp add: slab_bufs_def take_drop_store_out)
qed

lemma slab_bufs_store_next:
  assumes "p + n < length (buffers bp)"
  shows "slab_bufs (bp\<lparr>buffers := (buffers bp)[p + n := b]\<rparr>) p (Suc n) = add_mset b (slab_bufs bp p n)"
  using take_drop_store_next[OF assms, of b] by (simp add: slab_bufs_def del: drop_update_swap)

lemma slab_bufs_0 [simp]: "slab_bufs bp p 0 = {#}"
  by (simp add: slab_bufs_def)

lemma slab_bufs_Suc:
  assumes "p + n < length (buffers bp)"
  shows "slab_bufs bp p (Suc n) = add_mset (buffers bp ! (p + n)) (slab_bufs bp p n)"
  using assms by (simp add: slab_bufs_def take_Suc_conv_app_nth)

lemma slab_bufs_cong: "buffers bp' = buffers bp \<Longrightarrow> slab_bufs bp' = slab_bufs bp"
  by (intro ext) (simp add: slab_bufs_def)

section \<open>The operations keep the invariant and the buffers\<close>

lemma pool_invD:
  assumes "pool_inv m bp cs"
  defines "S \<equiv> unat (n_buffers_per_slab (params bp))"
  shows "0 < S" "length (slabs bp) < 2 ^ 63" "m \<le> length (slabs bp)" "unat (n_slabs_available bp) \<le> m"
    "distinct (slab_names m bp cs)" "\<And>p. p \<in> set (slab_names m bp cs) \<Longrightarrow> p mod S = 0"
    "\<And>p. p \<in> set (slab_names m bp cs) \<Longrightarrow> p + S \<le> length (buffers bp)"
    "\<And>c. c \<in> set cs \<Longrightarrow> unat (n_buffers_cons c) \<le> S \<and> unat (n_buffers_prod c) \<le> S"
  using assms by (auto simp: pool_inv_def Let_def)

lemma unat_minus_one: "(w :: 'a::len word) \<noteq> 0 \<Longrightarrow> unat (w - 1) = unat w - 1"
  by (metis unat_minus_one)

lemma mset_names_update:
  assumes "a < m" "m \<le> length (slabs bp)" "slabs bp' = (slabs bp)[a := x]"
  shows "mset (slab_names m bp' (as @ c' # bs)) + {#slabs bp ! a#} + {#slab_cons c, slab_prod c#} =
    mset (slab_names m bp (as @ c # bs)) + {#x#} + {#slab_cons c', slab_prod c'#}"
proof -
  have "mset (take m ((slabs bp)[a := x])) + {#slabs bp ! a#} = mset (take m (slabs bp)) + {#x#}"
  proof -
    have "slabs bp ! a \<in> set (take m (slabs bp))"
      using assms(1,2) by (auto simp: in_set_conv_nth intro!: exI[of _ a])
    then show ?thesis using assms by (simp add: take_update_swap mset_update add_mset_commute[of x])
  qed
  then show ?thesis using assms(3) by (simp add: slab_names_def)
qed

lemma names_swap:
  assumes "mset (slab_names m bp' cs') = mset (slab_names m bp cs)"
  shows "set (slab_names m bp' cs') = set (slab_names m bp cs)"
    "distinct (slab_names m bp' cs') = distinct (slab_names m bp cs)"
  using assms by (metis set_mset_mset, metis mset_eq_imp_distinct_iff)

lemma bcache_cons_check_correct:
  assumes inv: "pool_inv m bp (as @ c # bs)"
  shows "\<exists>k bp' c'. bcache_cons_check bp c n = Inr (k, bp', c') \<and> pool_inv m bp' (as @ c' # bs) \<and>
    pooled bp' (as @ c' # bs) = pooled bp (as @ c # bs) \<and> params bp' = params bp \<and> buffers bp' = buffers bp \<and>
    n_buffers_prod c' = n_buffers_prod c \<and> unat k \<le> unat n \<and>
    (unat n \<le> unat (n_buffers_per_slab (params bp)) \<longrightarrow> unat k \<le> unat (n_buffers_cons c')) \<and>
    (k = 0 \<longrightarrow> n = 0 \<or> (n_buffers_cons c = 0 \<and> n_slabs_available bp = 0 \<and> bp' = bp \<and> c' = c))"
proof -
  define S where "S = unat (n_buffers_per_slab (params bp))"
  note I = pool_invD[OF inv, folded S_def]
  consider (local) "n_buffers_cons c \<noteq> 0" | (none) "n_buffers_cons c = 0" "n_slabs_available bp = 0"
    | (trade) "n_buffers_cons c = 0" "n_slabs_available bp \<noteq> 0" by blast
  then show ?thesis
  proof cases
    case local
    let ?k = "if n_buffers_cons c < ucast n then ucast (n_buffers_cons c) else n"
    have un: "unat (ucast n :: u64) = unat n" by simp
    have "unat ?k \<le> unat n \<and> unat ?k \<le> unat (n_buffers_cons c) \<and> (?k = 0 \<longrightarrow> n = 0)"
    proof (cases "n_buffers_cons c < ucast n")
      case True
      then have lt: "unat (n_buffers_cons c) < unat n" using un by (simp only: word_less_nat_alt)
      have "unat n < 2 ^ 32" using unat_below[of n] by simp
      then have u: "unat (ucast (n_buffers_cons c) :: u32) = unat (n_buffers_cons c)"
        using lt by (simp add: unsigned_ucast_eq take_bit_nat_eq_self)
      then have "(ucast (n_buffers_cons c) :: u32) \<noteq> 0" using local by (metis unat_eq_zero unat_0)
      then show ?thesis using True lt u by simp
    next
      case False
      then have "unat n \<le> unat (n_buffers_cons c)" using un by (simp only: word_less_nat_alt not_less)
      with False show ?thesis by simp
    qed
    then show ?thesis using local inv
      by (intro exI[of _ ?k] exI[of _ bp] exI[of _ c]) (simp add: bcache_cons_check_def)
  next
    case none
    then show ?thesis using inv
      by (intro exI[of _ 0] exI[of _ bp] exI[of _ c]) (simp add: bcache_cons_check_def)
  next
    case trade
    define a where "a = unat (n_slabs_available bp - 1)"
    have av: "unat (n_slabs_available bp) = Suc a"
      using unat_minus_one[OF trade(2)] trade(2) by (simp add: a_def unat_gt_0)
    have am: "a < m" "a < length (slabs bp)" using I(3,4) av by simp_all
    let ?bp = "bp\<lparr>slabs := (slabs bp)[a := slab_cons c], n_slabs_available := n_slabs_available bp - 1\<rparr>"
    let ?c = "c\<lparr>slab_cons := slabs bp ! a, n_buffers_cons := per_slab bp\<rparr>"
    have r: "bcache_cons_check bp c n = Inr (n, ?bp, ?c)"
      using trade am by (simp add: bcache_cons_check_def Let_def a_def[symmetric])
    have ms: "mset (slab_names m ?bp (as @ ?c # bs)) = mset (slab_names m bp (as @ c # bs))"
      using mset_names_update[OF am(1) I(3), of ?bp "slab_cons c" as ?c bs c]
      by (simp add: add_mset_commute)
    have S: "unat (per_slab bp) = S" by (simp add: S_def)
    have "pool_inv m ?bp (as @ ?c # bs)"
      using I names_swap[OF ms] av am S unfolding pool_inv_def Let_def
      by (auto simp: a_def[symmetric] S_def[symmetric])
    moreover have "pooled ?bp (as @ ?c # bs) = pooled bp (as @ c # bs)"
    proof -
      have "take (Suc a) (slabs bp) = take a (slabs bp) @ [slabs bp ! a]"
        using am by (simp add: take_Suc_conv_app_nth)
      then show ?thesis
        using trade(1) S av slab_bufs_cong[of ?bp bp] slab_bufs_cong[of bp bp]
        by (simp add: pooled_def cache_bufs_def a_def[symmetric] S_def[symmetric] slab_bufs_def)
    qed
    ultimately show ?thesis using r S
      by (intro exI[of _ n] exI[of _ ?bp] exI[of _ ?c]) (auto simp: S_def)
  qed
qed

lemma bcache_cons_correct:
  assumes inv: "pool_inv m bp (as @ c # bs)" and ne: "0 < unat (n_buffers_cons c)"
  shows "\<exists>b c'. bcache_cons bp c = Inr (b, c') \<and> pool_inv m bp (as @ c' # bs) \<and>
    pooled bp (as @ c # bs) = add_mset b (pooled bp (as @ c' # bs)) \<and>
    unat (n_buffers_cons c) = Suc (unat (n_buffers_cons c')) \<and> n_buffers_prod c' = n_buffers_prod c"
proof -
  define S where "S = unat (n_buffers_per_slab (params bp))"
  note I = pool_invD[OF inv, folded S_def]
  define n where "n = unat (n_buffers_cons c - 1)"
  have nz: "n_buffers_cons c \<noteq> 0" using ne by auto
  have un: "unat (n_buffers_cons c) = Suc n" using unat_minus_one[OF nz] ne by (simp add: n_def)
  have "slab_cons c \<in> set (slab_names m bp (as @ c # bs))" by (simp add: slab_names_def)
  from I(7)[OF this] I(8)[of c] un have len: "slab_cons c + n < length (buffers bp)" by simp
  let ?c = "c\<lparr>n_buffers_cons := n_buffers_cons c - 1\<rparr>" and ?b = "buffers bp ! (slab_cons c + n)"
  have "bcache_cons bp c = Inr (?b, ?c)"
    using len by (simp add: bcache_cons_def Let_def n_def[symmetric])
  moreover have nm: "slab_names m bp (as @ ?c # bs) = slab_names m bp (as @ c # bs)"
    by (simp add: slab_names_def)
  have "pool_inv m bp (as @ ?c # bs)"
    using inv un unfolding pool_inv_def Let_def nm by (auto simp: n_def[symmetric])
  moreover have "pooled bp (as @ c # bs) = add_mset ?b (pooled bp (as @ ?c # bs))"
    using slab_bufs_Suc[OF len] un by (simp add: pooled_def cache_bufs_def n_def[symmetric])
  ultimately show ?thesis using un by (intro exI[of _ ?b] exI[of _ ?c]) (simp add: n_def)
qed


text \<open>
  Returning a buffer. If the producer slab is full, the cache needs an empty slab, and one of
  the used table entries is empty only if not all of them are full.
\<close>

lemma bcache_prod_correct:
  assumes inv: "pool_inv m bp (as @ c # bs)"
    and room: "unat (n_slabs_available bp) < m \<or> unat (n_buffers_prod c) < unat (n_buffers_per_slab (params bp))"
  shows "\<exists>bp' c'. bcache_prod bp c b = Inr (bp', c') \<and> pool_inv m bp' (as @ c' # bs) \<and>
    pooled bp' (as @ c' # bs) = add_mset b (pooled bp (as @ c # bs)) \<and> params bp' = params bp \<and>
    n_buffers_cons c' = n_buffers_cons c \<and> umem_cfg bp' = umem_cfg bp"
proof -
  define S where "S = unat (n_buffers_per_slab (params bp))"
  note I = pool_invD[OF inv, folded S_def]
  have S: "unat (per_slab bp) = S" by (simp add: S_def)
  let ?cs = "as @ c # bs" and ?n = "unat (n_buffers_prod c)"
  have mem: "slab_prod c \<in> set (slab_names m bp ?cs)" "slab_cons c \<in> set (slab_names m bp ?cs)"
    by (simp_all add: slab_names_def)
  have full: "n_buffers_prod c < per_slab bp \<longleftrightarrow> ?n < S" using S by (simp add: word_less_nat_alt)
  have S32: "S < 2 ^ 32" using unat_below[of "n_buffers_per_slab (params bp)"] by (simp add: S_def)
  show ?thesis
  proof (cases "?n < S")
    case True
    have len: "slab_prod c + ?n < length (buffers bp)" using I(7)[OF mem(1)] True by simp
    let ?bp = "bp\<lparr>buffers := (buffers bp)[slab_prod c + ?n := b]\<rparr>"
      and ?c = "c\<lparr>n_buffers_prod := n_buffers_prod c + 1\<rparr>"
    have r: "bcache_prod bp c b = Inr (?bp, ?c)" using len True full by (simp add: bcache_prod_def)
    have un: "unat (n_buffers_prod c + 1) = Suc ?n"
      by (rule unat_Suc_below63[OF refl]) (use True S32 in simp)
    have nm: "slab_names m ?bp (as @ ?c # bs) = slab_names m bp ?cs" by (simp add: slab_names_def)
    have other: "slab_bufs ?bp p n = slab_bufs bp p n"
      if "p \<in> set (slab_names m bp ?cs)" "p \<noteq> slab_prod c" "n \<le> S" for p n
      using slab_bufs_store_other[OF I(6)[OF that(1)] I(6)[OF mem(1)] that(2) True that(3)] .
    have "pool_inv m ?bp (as @ ?c # bs)"
      using inv un True unfolding pool_inv_def Let_def nm by (auto simp: S_def)
    moreover have "pooled ?bp (as @ ?c # bs) = add_mset b (pooled bp ?cs)"
    proof -
      have d: "distinct (take m (slabs bp) @ concat (map (\<lambda>c. [slab_cons c, slab_prod c]) ?cs))"
        using I(5) by (simp add: slab_names_def)
      have tk: "p \<in> set (slab_names m bp ?cs) \<and> p \<noteq> slab_prod c"
        if "p \<in> set (take (unat (n_slabs_available bp)) (slabs bp))" for p
      proof -
        have "p \<in> set (take m (slabs bp))"
          using that I(4) set_take_subset_set_take[of "unat (n_slabs_available bp)" m "slabs bp"] by blast
        then show ?thesis using d by (auto simp: slab_names_def)
      qed
      have "(\<Sum>p \<leftarrow> take (unat (n_slabs_available bp)) (slabs bp). slab_bufs ?bp p S) =
          (\<Sum>p \<leftarrow> take (unat (n_slabs_available bp)) (slabs bp). slab_bufs bp p S)"
        using tk other by (intro arg_cong[of _ _ sum_list] map_cong) auto
      moreover have oc: "cache_bufs ?bp x = cache_bufs bp x" if "x \<in> set as \<union> set bs" for x
      proof -
        have "slab_cons x \<in> set (slab_names m bp ?cs)" "slab_prod x \<in> set (slab_names m bp ?cs)"
          using that by (auto simp: slab_names_def)
        moreover have "slab_cons x \<noteq> slab_prod c" "slab_prod x \<noteq> slab_prod c"
          using d that by auto
        ultimately show ?thesis using other I(8)[of x] that by (simp add: cache_bufs_def)
      qed
      then have "sum_list (map (cache_bufs ?bp) as) = sum_list (map (cache_bufs bp) as)"
        "sum_list (map (cache_bufs ?bp) bs) = sum_list (map (cache_bufs bp) bs)"
        by (auto intro!: arg_cong[of _ _ sum_list])
      moreover have "cache_bufs ?bp ?c = add_mset b (cache_bufs bp c)"
        using slab_bufs_store_next[OF len, of b] un other[OF mem(2), of "unat (n_buffers_cons c)"] d I(8)[of c]
        by (simp add: cache_bufs_def)
      ultimately show ?thesis by (simp add: pooled_def S_def[symmetric])
    qed
    ultimately show ?thesis using r by (intro exI[of _ ?bp] exI[of _ ?c]) simp
  next
    case False
    with I(8)[of c] have nS: "?n = S" by simp
    define a where "a = unat (n_slabs_available bp)"
    have am: "a < m" "a < length (slabs bp)" using room False I(3) by (auto simp: a_def S_def)
    define e where "e = slabs bp ! a"
    have "e \<in> set (take m (slabs bp))" using am by (auto simp: e_def in_set_conv_nth intro!: exI[of _ a])
    then have ein: "e \<in> set (slab_names m bp ?cs)" by (simp add: slab_names_def)
    have len: "e < length (buffers bp)" using I(7)[OF ein] I(1) by simp
    let ?bp = "bp\<lparr>slabs := (slabs bp)[a := slab_prod c], n_slabs_available := n_slabs_available bp + 1,
        buffers := (buffers bp)[e := b]\<rparr>"
      and ?c = "c\<lparr>slab_prod := e, n_buffers_prod := 1\<rparr>"
    have r: "bcache_prod bp c b = Inr (?bp, ?c)"
      using am len False full by (simp add: bcache_prod_def a_def[symmetric] e_def[symmetric])
    have ua: "unat (n_slabs_available bp + 1) = Suc a"
      by (rule unat_Suc_below63) (use am I(2) in \<open>simp_all add: a_def[symmetric]\<close>)
    have ms: "mset (slab_names m ?bp (as @ ?c # bs)) = mset (slab_names m bp ?cs)"
      using mset_names_update[OF am(1) I(3), of ?bp "slab_prod c" as ?c bs c]
      by (simp add: e_def[symmetric] add_mset_commute)
    have other: "slab_bufs ?bp p n = slab_bufs bp p n"
      if "p \<in> set (slab_names m bp ?cs)" "p \<noteq> e" "n \<le> S" for p n
      using slab_bufs_store_other[OF I(6)[OF that(1)] I(6)[OF ein] that(2) I(1) that(3), of bp b]
      by (simp add: slab_bufs_def)
    have "pool_inv m ?bp (as @ ?c # bs)"
      using I names_swap[OF ms] ua am unfolding pool_inv_def Let_def
      by (auto simp: S_def[symmetric])
    moreover have "pooled ?bp (as @ ?c # bs) = add_mset b (pooled bp ?cs)"
    proof -
      have d: "distinct (take m (slabs bp) @ concat (map (\<lambda>c. [slab_cons c, slab_prod c]) ?cs))"
        using I(5) by (simp add: slab_names_def)
      have eT: "e = take m (slabs bp) ! a" using am by (simp add: e_def)
      have tk: "p \<in> set (slab_names m bp ?cs) \<and> p \<noteq> e" if pin: "p \<in> set (take a (slabs bp))" for p
      proof -
        obtain j where j: "j < a" "p = take m (slabs bp) ! j"
          using pin am by (auto simp: in_set_conv_nth)
        have "p \<noteq> e"
          using d j am I(3) unfolding eT j(2) by (subst nth_eq_iff_index_eq) auto
        moreover have "p \<in> set (take m (slabs bp))"
          using j am I(3) by (auto simp: in_set_conv_nth intro!: exI[of _ j])
        ultimately show ?thesis by (simp add: slab_names_def)
      qed
      have eset: "e \<in> set (take m (slabs bp))" by fact
      have t1: "take (Suc a) ((slabs bp)[a := slab_prod c]) = take a (slabs bp) @ [slab_prod c]"
        using am by (simp add: take_Suc_conv_app_nth)
      have t2: "(\<Sum>p \<leftarrow> take a (slabs bp). slab_bufs ?bp p S) = (\<Sum>p \<leftarrow> take a (slabs bp). slab_bufs bp p S)"
        using tk other by (intro arg_cong[of _ _ sum_list] map_cong) auto
      have oc: "cache_bufs ?bp x = cache_bufs bp x" if "x \<in> set as \<union> set bs" for x
      proof -
        have "slab_cons x \<in> set (slab_names m bp ?cs)" "slab_prod x \<in> set (slab_names m bp ?cs)"
          using that by (auto simp: slab_names_def)
        moreover have "slab_cons x \<noteq> e" "slab_prod x \<noteq> e"
          using d that eset by auto
        ultimately show ?thesis using other I(8)[of x] that by (simp add: cache_bufs_def)
      qed
      then have t3: "sum_list (map (cache_bufs ?bp) as) = sum_list (map (cache_bufs bp) as)"
        "sum_list (map (cache_bufs ?bp) bs) = sum_list (map (cache_bufs bp) bs)"
        by (auto intro!: arg_cong[of _ _ sum_list])
      have ce: "slab_cons c \<noteq> e" "slab_prod c \<noteq> e" using d eset by auto
      have "slab_bufs ?bp e 1 = {#b#}"
        using len by (simp add: slab_bufs_def take_Suc_conv_app_nth)
      then have "slab_bufs ?bp (slab_prod c) S + cache_bufs ?bp ?c = add_mset b (cache_bufs bp c)"
        using other[OF mem(1) ce(2), of S] other[OF mem(2) ce(1), of "unat (n_buffers_cons c)"] nS I(8)[of c]
        by (simp add: cache_bufs_def)
      then show ?thesis using t1 t2 t3 ua by (simp add: pooled_def S_def[symmetric] a_def[symmetric])
    qed
    ultimately show ?thesis using r by (intro exI[of _ ?bp] exI[of _ ?c]) simp
  qed
qed


section \<open>Taking several buffers\<close>

fun bcache_cons_many :: "bpool \<Rightarrow> bcache \<Rightarrow> nat \<Rightarrow> (u64 list \<times> bcache) res" where
  "bcache_cons_many bp bc 0 = Inr ([], bc)"
| "bcache_cons_many bp bc (Suc n) = rbind (bcache_cons bp bc) (\<lambda>(b, bc').
     rbind (bcache_cons_many bp bc' n) (\<lambda>(bs, bc''). Inr (b # bs, bc'')))"

lemma bcache_cons_many_correct:
  assumes "pool_inv m bp (as @ c # bs)" "n \<le> unat (n_buffers_cons c)"
  shows "\<exists>xs c'. bcache_cons_many bp c n = Inr (xs, c') \<and> length xs = n \<and> pool_inv m bp (as @ c' # bs) \<and>
    pooled bp (as @ c # bs) = mset xs + pooled bp (as @ c' # bs) \<and>
    unat (n_buffers_cons c) = n + unat (n_buffers_cons c') \<and> n_buffers_prod c' = n_buffers_prod c"
  using assms
proof (induction n arbitrary: c)
  case (Suc n)
  from bcache_cons_correct[OF Suc.prems(1)] Suc.prems(2) obtain b c1 where
    c1: "bcache_cons bp c = Inr (b, c1)" "pool_inv m bp (as @ c1 # bs)"
    "pooled bp (as @ c # bs) = add_mset b (pooled bp (as @ c1 # bs))"
    "unat (n_buffers_cons c) = Suc (unat (n_buffers_cons c1))" "n_buffers_prod c1 = n_buffers_prod c" by auto
  from Suc.IH[OF c1(2)] c1(4) Suc.prems(2) obtain xs c' where
    "bcache_cons_many bp c1 n = Inr (xs, c')" "length xs = n" "pool_inv m bp (as @ c' # bs)"
    "pooled bp (as @ c1 # bs) = mset xs + pooled bp (as @ c' # bs)"
    "unat (n_buffers_cons c1) = n + unat (n_buffers_cons c')" "n_buffers_prod c' = n_buffers_prod c1" by auto
  with c1 show ?case by (intro exI[of _ "b # xs"] exI[of _ c']) simp
qed auto

section \<open>Creation\<close>

lemma chunks_mset:
  "(\<Sum>p \<leftarrow> map (\<lambda>i. i * S) [0..<n]. mset (take S (drop p xs))) = mset (take (n * S) xs)"
proof (induction n)
  case (Suc n)
  have "take (Suc n * S) xs = take (n * S) xs @ take S (drop (n * S) xs)"
    by (simp only: mult_Suc add.commute[of S] take_add)
  with Suc show ?case by (simp add: comp_def)
qed simp

text \<open>A fresh pool: every slab is full and every buffer address is there once.\<close>

definition fresh_addrs :: "u32 \<Rightarrow> nat \<Rightarrow> u64 list" where
  "fresh_addrs sz n = map (\<lambda>i. of_nat i * ucast sz) [0..<n]"

definition fresh_pool :: "bpool_params \<Rightarrow> xsk_umem_config \<Rightarrow> nat \<Rightarrow> bpool" where
  "fresh_pool ps cfg ns = (let nb = ns * unat (n_buffers_per_slab ps); ps' = ps\<lparr>bp_n_buffers_param := of_nat nb\<rparr> in
     \<lparr>params = ps', slabs = map (\<lambda>i. i * unat (n_buffers_per_slab ps)) [0..<ns],
      buffers = fresh_addrs (buffer_size ps) nb, n_slabs = of_nat ns, n_buffers = of_nat nb,
      n_slabs_available = of_nat ns, umem_cfg = cfg, umem_size = ucast (of_nat nb * buffer_size ps :: u32)\<rparr>)"

definition all_ok :: "bpool_env \<Rightarrow> bool" where
  "all_ok env \<longleftrightarrow> rlimit_ok env \<and> calloc_ok env \<and> mutex_status env = 0 \<and> mmap_ok env \<and>
     (\<forall>sz. umem_create env sz = 0)"

lemma bpool_init_fresh:
  assumes ok: "all_ok env" and S: "0 < unat (n_buffers_per_slab ps)"
    and n: "unat (bp_n_buffers_param ps) = ns * unat (n_buffers_per_slab ps)"
    and small: "unat (bp_n_buffers_param ps) + unat (n_buffers_per_slab ps) \<le> 2 ^ 32"
  shows "bpool_init env ps cfg = Inr (Some (fresh_pool ps cfg ns))"
proof -
  define s where "s = unat (n_buffers_per_slab ps)"
  have s0: "n_buffers_per_slab ps \<noteq> 0" using S by auto
  have nb: "ns * s + s \<le> 2 ^ 32" "0 < s" using n small S by (simp_all add: s_def)
  have "unat (bp_n_buffers_param ps + n_buffers_per_slab ps - 1) = ns * s + s - 1"
  proof -
    have p1: "unat (n_buffers_per_slab ps - 1) = s - 1" using unat_minus_one[OF s0] by (simp add: s_def)
    have "unat (bp_n_buffers_param ps + (n_buffers_per_slab ps - 1)) =
        unat (bp_n_buffers_param ps) + unat (n_buffers_per_slab ps - 1)"
      by (rule unat_add_small_sum) (use p1 n nb in \<open>simp add: s_def[symmetric]\<close>)
    then show ?thesis using p1 n nb(2) by (simp add: s_def[symmetric] add_diff_eq)
  qed
  then have "unat ((bp_n_buffers_param ps + n_buffers_per_slab ps - 1) div n_buffers_per_slab ps) = (ns * s + s - 1) div s"
    by (simp add: unat_div s_def)
  also have "ns * s + s - 1 = (s - 1) + ns * s" using nb(2) by linarith
  also have "((s - 1) + ns * s) div s = ns + (s - 1) div s" by (rule div_mult_self1) (use nb in simp)
  also have "ns + (s - 1) div s = ns" using nb(2) by simp
  finally have u0: "unat ((bp_n_buffers_param ps + n_buffers_per_slab ps - 1) div n_buffers_per_slab ps) = ns" .
  let ?d = "ucast ((bp_n_buffers_param ps + n_buffers_per_slab ps - 1) div n_buffers_per_slab ps) :: u64"
  have ud: "unat ?d = ns" using u0 by (subst unat_ucast_up) simp_all
  have "of_nat (unat ?d) = ?d" by simp
  then have w1: "?d = of_nat ns" by (simp only: ud)
  have u1: "unat (of_nat ns :: u64) = ns" using ud unfolding w1 .
  have w2: "of_nat ns * ucast (n_buffers_per_slab ps) = (of_nat (ns * s) :: u64)"
    by (simp add: s_def)
  have "ns * s < 2 ^ LENGTH(64)" using nb by simp
  then have u2: "unat (of_nat (ns * s) :: u64) = ns * s" by (rule unat_of_nat_below)
  have u3: "(ucast (of_nat (ns * s) :: u64) :: u32) = of_nat (ns * s)"
    using \<open>ns * s < 2 ^ LENGTH(64)\<close> by (simp only: unsigned_of_nat take_bit_nat_eq_self)
  show ?thesis
    using ok s0 w1 w2 u1 u2 u3
    by (simp add: bpool_init_def all_ok_def Let_def fresh_pool_def fresh_addrs_def s_def[symmetric] del: of_nat_mult)
qed

end
