(* ===== verification/Port.thy ===== *)
theory Port
  imports Mempool
begin

text \<open>
  The ports of \<open>opera-v2/mempool.h\<close> and their packet bursts in
  \<open>opera-v2/thread_functions_1.h\<close>: an AF\_XDP socket with its receive and transmit rings, the
  fill and completion rings of the packet buffer area, and the port's buffer cache.
\<close>

section \<open>State\<close>

definition MAX_BURST_RX :: nat where "MAX_BURST_RX = 20"
definition MAX_BURST_TX :: nat where "MAX_BURST_TX = 20"

record port_params =
  iface :: string
  iface_queue :: u32
  ns_index :: u32

record port =
  pparams :: port_params
  bc :: bcache
  rxq :: "xdp_desc xsk_ring"
  txq :: "xdp_desc xsk_ring"
  umem_fq :: "u64 xsk_ring"
  umem_cq :: "u64 xsk_ring"
  umem_fq_initialized :: bool
  n_pkts_rx :: u64
  n_pkts_tx :: u64

text \<open>A packet of a burst: buffer address and length.\<close>

type_synonym pkt = "u64 \<times> u32"

section \<open>Creating and deleting a port\<close>

text \<open>
  \<open>xsk_socket__create_shared\<close> reports a status and, on success, provides the four rings. The
  second allocation result is that of \<open>bcache_init\<close>.
\<close>

record port_env =
  port_calloc :: bool
  bcache_calloc :: bool
  create_status :: int
  new_rings :: "xdp_desc xsk_ring \<times> xdp_desc xsk_ring \<times> u64 xsk_ring \<times> u64 xsk_ring"

fun fill_loop :: "bpool \<Rightarrow> bcache \<Rightarrow> u64 xsk_ring \<Rightarrow> u32 \<Rightarrow> nat \<Rightarrow> (bcache \<times> u64 xsk_ring) res" where
  "fill_loop bp c fq p 0 = Inr (c, fq)"
| "fill_loop bp c fq p (Suc n) = rbind (bcache_cons bp c) (\<lambda>(b, c').
     rbind (xsk_ring_prod__fill_addr fq p (\<lambda>_. b)) (\<lambda>fq'. fill_loop bp c' fq' (p + 1) n))"

text \<open>\<open>port_free\<close> leaves the buffers where they are and returns two slab entries to the pool.\<close>

definition port_free :: "bpool \<Rightarrow> bcache option option \<Rightarrow> bpool" where
  "port_free bp p = (case p of None \<Rightarrow> bp | Some c \<Rightarrow> bcache_free bp c)"

definition apply_setsockopt :: "'s \<Rightarrow> 's" where
  "apply_setsockopt s = s"

definition port_init :: "port_env \<Rightarrow> bpool \<Rightarrow> port_params \<Rightarrow> (bpool \<times> port option) res" where
  "port_init env bp ps =
     (if \<not> port_calloc env then Inr (bp, None)
      else (let fq_size = fill_size (umem_cfg bp) in
        rbind (bcache_init (bcache_calloc env) bp) (\<lambda>(bp1, c).
          case c of None \<Rightarrow> Inr (port_free bp1 (Some None), None)
          | Some c1 \<Rightarrow>
            if bcache_slab_size bp1 < fq_size then Inr (port_free bp1 (Some (Some c1)), None)
            else rbind (bcache_cons_check bp1 c1 fq_size) (\<lambda>(k, bp2, c2).
              if k < fq_size then Inr (port_free bp2 (Some (Some c2)), None)
              else if create_status env \<noteq> 0 then Inr (port_free bp2 (Some (Some c2)), None)
              else (let (rx, tx, fq, cq) = new_rings env;
                        (_, pos, fq1) = xsk_ring_prod__reserve fq fq_size
                in rbind (fill_loop bp2 c2 fq1 (case pos of None \<Rightarrow> 0 | Some p \<Rightarrow> p) (unat fq_size)) (\<lambda>(c3, fq2).
                  Inr (bp2, Some \<lparr>pparams = ps, bc = c3, rxq = rx, txq = tx,
                    umem_fq = xsk_ring_prod__submit fq2 fq_size, umem_cq = cq,
                    umem_fq_initialized = True, n_pkts_rx = 0, n_pkts_tx = 0\<rparr>)))))))"

section \<open>Bursts\<close>

text \<open>
  The loop that repeats a reservation until it succeeds. While it repeats, the kernel takes
  entries from the ring: \<open>ks\<close> lists how many before each new attempt, or all that the ring holds if
  it holds fewer. \<open>None\<close> means that the loop is still waiting after all of them. The entries
  taken are returned.
\<close>

fun reserve_loop :: "'e xsk_ring \<Rightarrow> u32 \<Rightarrow> nat list \<Rightarrow> (u32 \<times> 'e xsk_ring \<times> 'e list) option" where
  "reserve_loop r n ks =
     (case xsk_ring_prod__reserve r n of
        (status, pos, r') \<Rightarrow>
          if status = n then Some (case pos of None \<Rightarrow> 0 | Some p \<Rightarrow> p, r', [])
          else (case ks of [] \<Rightarrow> None
            | k # ks' \<Rightarrow> (case kernel_take r' (min k (unat (producer r' - consumer r'))) of (xs, r'') \<Rightarrow>
                map_option (\<lambda>(p, q, ys). (p, q, xs @ ys)) (reserve_loop r'' n ks'))))"

definition port_rx_burst :: "bpool \<Rightarrow> port \<Rightarrow> nat list \<Rightarrow> (pkt list \<times> bpool \<times> port \<times> u64 list) res option" where
  "port_rx_burst bp p ks =
     (case bcache_cons_check bp (bc p) (of_nat MAX_BURST_RX) of
        Inl e \<Rightarrow> Some (Inl e)
      | Inr (n, bp1, c1) \<Rightarrow>
        if n = 0 then Some (Inr ([], bp1, p\<lparr>bc := c1\<rparr>, []))
        else (case xsk_ring_cons__peek (rxq p) n of (n_pkts, pos, rx1) \<Rightarrow>
          if n_pkts = 0 then Some (Inr ([], bp1, p\<lparr>bc := c1, rxq := rx1\<rparr>, []))
          else (case read_run rx1 (the pos) (unat n_pkts) of
              Inl e \<Rightarrow> Some (Inl e)
            | Inr descs \<Rightarrow>
              (case reserve_loop (umem_fq p) n_pkts ks of
                None \<Rightarrow> None
              | Some (fpos, fq1, ys) \<Rightarrow>
                Some (rbind (fill_loop bp1 c1 fq1 fpos (unat n_pkts)) (\<lambda>(c2, fq2).
                  Inr (map (\<lambda>d. (desc_addr d, desc_len d)) descs, bp1,
                    p\<lparr>bc := c2, rxq := xsk_ring_cons__release rx1 n_pkts,
                      umem_fq := xsk_ring_prod__submit fq2 n_pkts,
                      n_pkts_rx := n_pkts_rx p + ucast n_pkts\<rparr>, ys)))))))"

fun comp_loop :: "bpool \<Rightarrow> bcache \<Rightarrow> u64 xsk_ring \<Rightarrow> u32 \<Rightarrow> nat \<Rightarrow> (bpool \<times> bcache) res" where
  "comp_loop bp c cq p 0 = Inr (bp, c)"
| "comp_loop bp c cq p (Suc n) = rbind (xsk_ring_cons__comp_addr cq p) (\<lambda>a.
     rbind (bcache_prod bp c a) (\<lambda>(bp', c'). comp_loop bp' c' cq (p + 1) n))"

fun tx_loop :: "xdp_desc xsk_ring \<Rightarrow> u32 \<Rightarrow> pkt list \<Rightarrow> xdp_desc xsk_ring res" where
  "tx_loop tx p [] = Inr tx"
| "tx_loop tx p (b # bs) = rbind (xsk_ring_prod__tx_desc tx p (\<lambda>d. d\<lparr>desc_addr := fst b\<rparr>)) (\<lambda>tx1.
     rbind (xsk_ring_prod__tx_desc tx1 p (\<lambda>d. d\<lparr>desc_len := snd b\<rparr>)) (\<lambda>tx2. tx_loop tx2 (p + 1) bs))"

text \<open>
  The two transmit bursts: of a collected batch, and of a single packet, whose burst record is
  released if \<open>free_btx\<close> says so (the last component of the result). The wake-up calls have no
  effect on the program's state.
\<close>

definition port_tx_burst_collector :: "bpool \<Rightarrow> port \<Rightarrow> pkt list \<Rightarrow> nat list \<Rightarrow>
    (bpool \<times> port \<times> xdp_desc list) res option" where
  "port_tx_burst_collector bp p b ks =
     (case xsk_ring_cons__peek (umem_cq p) (comp_size (umem_cfg bp)) of (n_done, pos, cq1) \<Rightarrow>
      (case comp_loop bp (bc p) cq1 (case pos of None \<Rightarrow> 0 | Some q \<Rightarrow> q) (unat n_done) of
         Inl e \<Rightarrow> Some (Inl e)
       | Inr (bp1, c1) \<Rightarrow>
         (case reserve_loop (txq p) (of_nat (length b)) ks of
            None \<Rightarrow> None
          | Some (tpos, tx1, ys) \<Rightarrow>
            Some (rbind (tx_loop tx1 tpos b) (\<lambda>tx2.
              Inr (bp1, p\<lparr>bc := c1, umem_cq := xsk_ring_cons__release cq1 n_done,
                txq := xsk_ring_prod__submit tx2 (of_nat (length b)),
                n_pkts_tx := n_pkts_tx p + of_nat (length b)\<rparr>, ys))))))"

definition port_tx_burst :: "bpool \<Rightarrow> port \<Rightarrow> pkt list \<Rightarrow> bool \<Rightarrow> nat list \<Rightarrow>
    (bpool \<times> port \<times> xdp_desc list \<times> bool) res option" where
  "port_tx_burst bp p b free_btx ks =
     (case xsk_ring_cons__peek (umem_cq p) (comp_size (umem_cfg bp)) of (n_done, pos, cq1) \<Rightarrow>
      (case comp_loop bp (bc p) cq1 (case pos of None \<Rightarrow> 0 | Some q \<Rightarrow> q) (unat n_done) of
         Inl e \<Rightarrow> Some (Inl e)
       | Inr (bp1, c1) \<Rightarrow>
         (case reserve_loop (txq p) (of_nat (length b)) ks of
            None \<Rightarrow> None
          | Some (tpos, tx1, ys) \<Rightarrow>
            Some (if 1 < length b then Inl Out_Of_Bounds
              else rbind (tx_loop tx1 tpos b) (\<lambda>tx2.
                Inr (bp1, p\<lparr>bc := c1, umem_cq := xsk_ring_cons__release cq1 n_done,
                  txq := xsk_ring_prod__submit tx2 (of_nat (length b)),
                  n_pkts_tx := n_pkts_tx p + of_nat (length b)\<rparr>, ys, free_btx))))))"

text \<open>\<open>flush_tx\<close> only wakes the kernel up: whether it makes the system call.\<close>

definition flush_tx :: "port \<Rightarrow> bool" where
  "flush_tx p \<longleftrightarrow> xsk_ring_prod__needs_wakeup (txq p)"


section \<open>The loops as runs over the rings\<close>

lemma fill_loop_run:
  "bcache_cons_many bp c n = Inr (xs, c') \<Longrightarrow>
     fill_loop bp c fq p n = rbind (write_run fq p (map (\<lambda>b _. b) xs)) (\<lambda>fq'. Inr (c', fq'))"
proof (induction n arbitrary: c fq p xs)
  case (Suc n)
  from Suc.prems obtain b c1 ys where c1: "bcache_cons bp c = Inr (b, c1)"
    "bcache_cons_many bp c1 n = Inr (ys, c')" "xs = b # ys"
    by (auto simp: res_simps)
  show ?case
  proof (cases "arr_get (ring fq) (unat (p AND ring_mask fq))")
    case (Inl e)
    with c1 show ?thesis by (simp add: xsk_ring_prod__fill_addr_def)
  next
    case (Inr e)
    with c1 Suc.IH[OF c1(2)] show ?thesis by (simp add: xsk_ring_prod__fill_addr_def)
  qed
qed simp

definition put_pkt :: "pkt \<Rightarrow> xdp_desc \<Rightarrow> xdp_desc" where
  "put_pkt b d = d\<lparr>desc_addr := fst b, desc_len := snd b\<rparr>"

lemma tx_loop_run: "tx_loop tx p bs = write_run tx p (map put_pkt bs)"
proof (induction bs arbitrary: tx p)
  case (Cons b bs)
  show ?case
  proof (cases "unat (p AND ring_mask tx) < length (ring tx)")
    case True
    then show ?thesis by (simp add: xsk_ring_prod__tx_desc_def Cons put_pkt_def)
  next
    case False
    then show ?thesis by (simp add: xsk_ring_prod__tx_desc_def arr_get_def)
  qed
qed simp

fun bcache_prod_many :: "bpool \<Rightarrow> bcache \<Rightarrow> u64 list \<Rightarrow> (bpool \<times> bcache) res" where
  "bcache_prod_many bp c [] = Inr (bp, c)"
| "bcache_prod_many bp c (a # as) = rbind (bcache_prod bp c a) (\<lambda>(bp', c'). bcache_prod_many bp' c' as)"

lemma comp_loop_run:
  "read_run cq p n = Inr xs \<Longrightarrow> comp_loop bp c cq p n = bcache_prod_many bp c xs"
proof (induction n arbitrary: bp c p xs)
  case (Suc n)
  from Suc.prems obtain x ys where "xsk_ring_cons__comp_addr cq p = Inr x"
    "read_run cq (p + 1) n = Inr ys" "xs = x # ys"
    unfolding xsk_ring_cons__comp_addr_def by (auto simp: res_simps)
  with Suc.IH show ?case by (cases "bcache_prod bp c x") auto
qed simp

section \<open>How many buffers the pool can hold\<close>

lemma size_slab_bufs: "p + n \<le> length (buffers bp) \<Longrightarrow> size (slab_bufs bp p n) = n"
  by (simp add: slab_bufs_def)

lemma size_sum_list: "size (sum_list xs) = sum_list (map size xs)"
  for xs :: "'a multiset list"
  by (induction xs) auto

lemma sum_list_const: "(\<And>x. x \<in> set xs \<Longrightarrow> f x = (c :: nat)) \<Longrightarrow> (\<Sum>x \<leftarrow> xs. f x) = length xs * c"
  by (induction xs) auto

lemma pooled_size:
  assumes inv: "pool_inv m bp (as @ c # bs)"
  shows "unat (n_slabs_available bp) * unat (n_buffers_per_slab (params bp)) + unat (n_buffers_prod c)
    \<le> size (pooled bp (as @ c # bs))"
proof -
  define S where "S = unat (n_buffers_per_slab (params bp))"
  note I = pool_invD[OF inv, folded S_def]
  let ?t = "take (unat (n_slabs_available bp)) (slabs bp)"
  have "p \<in> set (slab_names m bp (as @ c # bs))" if "p \<in> set ?t" for p
    using that I(4) set_take_subset_set_take[of "unat (n_slabs_available bp)" m "slabs bp"]
    by (auto simp: slab_names_def)
  then have "(\<Sum>p \<leftarrow> ?t. size (slab_bufs bp p S)) = length ?t * S"
    using I(7) by (intro sum_list_const size_slab_bufs) auto
  moreover have "length ?t = unat (n_slabs_available bp)" using I(3,4) by simp
  ultimately have "size (\<Sum>p \<leftarrow> ?t. slab_bufs bp p S) = unat (n_slabs_available bp) * S"
    by (simp add: size_sum_list comp_def)
  moreover have "slab_prod c \<in> set (slab_names m bp (as @ c # bs))" by (simp add: slab_names_def)
  from I(7)[OF this] I(8)[of c] have "size (slab_bufs bp (slab_prod c) (unat (n_buffers_prod c))) = unat (n_buffers_prod c)"
    by (intro size_slab_bufs) auto
  ultimately show ?thesis by (simp add: pooled_def cache_bufs_def S_def[symmetric])
qed

lemma prod_room:
  assumes inv: "pool_inv m bp (as @ c # bs)"
    and few: "size (pooled bp (as @ c # bs)) < Suc m * unat (n_buffers_per_slab (params bp))"
  shows "unat (n_slabs_available bp) < m \<or> unat (n_buffers_prod c) < unat (n_buffers_per_slab (params bp))"
proof (rule ccontr)
  assume "\<not> ?thesis"
  with pool_invD(4)[OF inv] pool_invD(8)[OF inv, of c] have "unat (n_slabs_available bp) = m"
    "unat (n_buffers_prod c) = unat (n_buffers_per_slab (params bp))" by auto
  with pooled_size[OF inv] few show False by simp
qed

lemma bcache_prod_many_correct:
  assumes "pool_inv m bp (as @ c # bs)"
    and "size (pooled bp (as @ c # bs)) + length xs \<le> Suc m * unat (n_buffers_per_slab (params bp))"
  shows "\<exists>bp' c'. bcache_prod_many bp c xs = Inr (bp', c') \<and> pool_inv m bp' (as @ c' # bs) \<and>
    pooled bp' (as @ c' # bs) = mset xs + pooled bp (as @ c # bs) \<and> params bp' = params bp \<and>
    n_buffers_cons c' = n_buffers_cons c \<and> umem_cfg bp' = umem_cfg bp"
  using assms
proof (induction xs arbitrary: bp c)
  case (Cons x xs)
  have "size (pooled bp (as @ c # bs)) < Suc m * unat (n_buffers_per_slab (params bp))"
    using Cons.prems(2) by simp
  from bcache_prod_correct[OF Cons.prems(1) prod_room[OF Cons.prems(1) this], of x]
  obtain bp1 c1 where 1: "bcache_prod bp c x = Inr (bp1, c1)" "pool_inv m bp1 (as @ c1 # bs)"
    "pooled bp1 (as @ c1 # bs) = add_mset x (pooled bp (as @ c # bs))" "params bp1 = params bp"
    "n_buffers_cons c1 = n_buffers_cons c" "umem_cfg bp1 = umem_cfg bp" by blast
  have "size (pooled bp1 (as @ c1 # bs)) + length xs \<le> Suc m * unat (n_buffers_per_slab (params bp1))"
    using 1(3,4) Cons.prems(2) by simp
  from Cons.IH[OF 1(2) this] 1 show ?case by auto
qed auto


section \<open>What a burst does\<close>

text \<open>The rings of a port between operations, with the exponents of their sizes.\<close>

record ring_sizes =
  rx_bits :: nat
  tx_bits :: nat
  fq_bits :: nat
  cq_bits :: nat

definition rings_idle :: "ring_sizes \<Rightarrow> port \<Rightarrow> bool" where
  "rings_idle z p \<longleftrightarrow> cons_idle (rx_bits z) (rxq p) \<and> prod_idle (tx_bits z) (txq p) \<and>
     prod_idle (fq_bits z) (umem_fq p) \<and> cons_idle (cq_bits z) (umem_cq p)"

lemma reserve_now:
  assumes "prod_idle k r" "length (ring_content r) + unat nb \<le> 2 ^ k"
  shows "\<exists>s f l r'. reserve_loop r nb ks = Some (consumer r' + of_nat s, r', []) \<and>
    prod_parts k r' s (unat nb) f l \<and> s = length (ring_content r) \<and> entries r' 0 s = ring_content r"
proof -
  obtain s f l r' where r: "xsk_ring_prod__reserve r nb = (nb, Some (consumer r' + of_nat s), r')"
    "prod_parts k r' s (unat nb) f l" "s = length (ring_content r)" "entries r' 0 s = ring_content r"
    using idle_reserve[OF assms] by blast
  then have "reserve_loop r nb ks = Some (consumer r' + of_nat s, r', [])"
    by (subst reserve_loop.simps) simp
  with r show ?thesis by blast
qed

lemma fill_submit:
  assumes "prod_parts k r s (length xs) f l"
  shows "\<exists>r'. write_run r (consumer r + of_nat s) (map (\<lambda>b _. b) xs) = Inr r' \<and>
    prod_idle k (xsk_ring_prod__submit r' (of_nat (length xs))) \<and>
    ring_content (xsk_ring_prod__submit r' (of_nat (length xs))) = entries r 0 s @ xs"
proof -
  have l: "length (map (\<lambda>b (_ :: 'a). b) xs) = length xs" by simp
  have "map (\<lambda>i. (map (\<lambda>b (_ :: 'a). b) xs ! i) (entry r (s + i))) [0..<length xs] = xs"
    by (rule nth_equalityI) simp_all
  with idle_write_submit[OF assms l] show ?thesis by auto
qed

lemma bcache_cons_check_umem:
  "bcache_cons_check bp c n = Inr (k, bp', c') \<Longrightarrow> umem_cfg bp' = umem_cfg bp"
  by (auto simp: bcache_cons_check_def Let_def res_simps split: if_splits)

lemma unat_take_count [simp]: "unat (of_nat MAX_BURST_RX :: u32) = MAX_BURST_RX"
  by (simp add: MAX_BURST_RX_def)

lemma port_rx_burst_spec:
  assumes inv: "pool_inv m bp (as @ bc p # bs)" and idle: "rings_idle z p"
    and room: "length (ring_content (umem_fq p)) + length (ring_content (rxq p)) \<le> 2 ^ fq_bits z"
    and S: "MAX_BURST_RX \<le> unat (n_buffers_per_slab (params bp))"
  shows "\<exists>pkts bp' p' xs. port_rx_burst bp p ks = Some (Inr (pkts, bp', p', [])) \<and>
    pool_inv m bp' (as @ bc p' # bs) \<and> rings_idle z p' \<and> params bp' = params bp \<and> umem_cfg bp' = umem_cfg bp \<and>
    length pkts \<le> MAX_BURST_RX \<and> length xs = length pkts \<and> txq p' = txq p \<and> umem_cq p' = umem_cq p \<and>
    pkts = map (\<lambda>d. (desc_addr d, desc_len d)) (take (length pkts) (ring_content (rxq p))) \<and>
    ring_content (rxq p') = drop (length pkts) (ring_content (rxq p)) \<and>
    ring_content (umem_fq p') = ring_content (umem_fq p) @ xs \<and>
    pooled bp (as @ bc p # bs) = mset xs + pooled bp' (as @ bc p' # bs) \<and>
    (pkts = [] \<longrightarrow> ring_content (rxq p) = [] \<or> n_buffers_cons (bc p) = 0 \<and> n_slabs_available bp = 0)"
proof -
  have rings: "cons_idle (rx_bits z) (rxq p)" "prod_idle (fq_bits z) (umem_fq p)"
    using idle by (auto simp: rings_idle_def)
  obtain n bp1 c1 where c: "bcache_cons_check bp (bc p) (of_nat MAX_BURST_RX) = Inr (n, bp1, c1)"
    "pool_inv m bp1 (as @ c1 # bs)" "pooled bp1 (as @ c1 # bs) = pooled bp (as @ bc p # bs)"
    "params bp1 = params bp" "unat n \<le> MAX_BURST_RX" "unat n \<le> unat (n_buffers_cons c1)" "umem_cfg bp1 = umem_cfg bp"
    "n = 0 \<longrightarrow> n_buffers_cons (bc p) = 0 \<and> n_slabs_available bp = 0"
    using bcache_cons_check_correct[OF inv, of "of_nat MAX_BURST_RX"] S bcache_cons_check_umem[of bp "bc p" "of_nat MAX_BURST_RX"]
    by (auto simp: MAX_BURST_RX_def)
  show ?thesis
  proof (cases "n = 0")
    case True
    let ?p = "p\<lparr>bc := c1\<rparr>"
    have "port_rx_burst bp p ks = Some (Inr ([], bp1, ?p, []))" using c(1) True by (simp add: port_rx_burst_def)
    with c idle True show ?thesis
      by (intro exI[of _ "[]"] exI[of _ bp1] exI[of _ ?p]) (simp add: rings_idle_def)
  next
    case n0: False
    obtain e rx1 where e: "xsk_ring_cons__peek (rxq p) n = (of_nat e, if e = 0 then None else Some (consumer (rxq p)), rx1)"
      "unat (of_nat e :: u32) = e" "e \<le> unat n" "e \<le> length (ring_content (rxq p))"
      "read_run rx1 (consumer (rxq p)) e = Inr (take e (ring_content (rxq p)))"
      "cons_idle (rx_bits z) (xsk_ring_cons__release rx1 (of_nat e))"
      "ring_content (xsk_ring_cons__release rx1 (of_nat e)) = drop e (ring_content (rxq p))"
      "e = 0 \<longrightarrow> cons_idle (rx_bits z) rx1 \<and> ring_content rx1 = ring_content (rxq p)"
      "e = 0 \<longrightarrow> n = 0 \<or> ring_content (rxq p) = []"
      using idle_peek_release[OF rings(1), of n] by blast
    show ?thesis
    proof (cases "e = 0")
      case True
      let ?p = "p\<lparr>bc := c1, rxq := rx1\<rparr>"
      have "port_rx_burst bp p ks = Some (Inr ([], bp1, ?p, []))"
        using c(1) n0 e(1) True by (simp add: port_rx_burst_def)
      with c idle e(8,9) n0 True show ?thesis
        by (intro exI[of _ "[]"] exI[of _ bp1] exI[of _ ?p]) (simp add: rings_idle_def)
    next
      case False
      have ne: "(of_nat e :: u32) \<noteq> 0" using e(2) False by (metis unat_0)
      have "length (ring_content (umem_fq p)) + unat (of_nat e :: u32) \<le> 2 ^ fq_bits z" using room e(2,4) by simp
      from reserve_now[OF rings(2) this, of ks] obtain s f l fq1 where
        fq1: "reserve_loop (umem_fq p) (of_nat e) ks = Some (consumer fq1 + of_nat s, fq1, [])"
        "prod_parts (fq_bits z) fq1 s e f l" "entries fq1 0 s = ring_content (umem_fq p)"
        unfolding e(2) by blast
      have "e \<le> unat (n_buffers_cons c1)" using e(3) c(6) by simp
      from bcache_cons_many_correct[OF c(2) this] obtain xs c2 where
        xs: "bcache_cons_many bp1 c1 e = Inr (xs, c2)" "length xs = e" "pool_inv m bp1 (as @ c2 # bs)"
        "pooled bp1 (as @ c1 # bs) = mset xs + pooled bp1 (as @ c2 # bs)" by blast
      obtain fq2 where fq2: "write_run fq1 (consumer fq1 + of_nat s) (map (\<lambda>b _. b) xs) = Inr fq2"
        "prod_idle (fq_bits z) (xsk_ring_prod__submit fq2 (of_nat e))"
        "ring_content (xsk_ring_prod__submit fq2 (of_nat e)) = ring_content (umem_fq p) @ xs"
        using fill_submit[of "fq_bits z" fq1 s xs f l] fq1(2,3) xs(2) by auto
      let ?pkts = "map (\<lambda>d. (desc_addr d, desc_len d)) (take e (ring_content (rxq p)))"
      let ?p = "p\<lparr>bc := c2, rxq := xsk_ring_cons__release rx1 (of_nat e),
          umem_fq := xsk_ring_prod__submit fq2 (of_nat e), n_pkts_rx := n_pkts_rx p + ucast (of_nat e :: u32)\<rparr>"
      have "port_rx_burst bp p ks = Some (Inr (?pkts, bp1, ?p, []))"
        using c(1) n0 e(1,2,5) False ne fq1(1) fill_loop_run[OF xs(1)] fq2(1)
        by (simp add: port_rx_burst_def)
      moreover have "rings_idle z ?p" using idle e(6) fq2(2) by (simp add: rings_idle_def)
      moreover have "length ?pkts = e" using e(4) by simp
      moreover have "?pkts \<noteq> []" using False e(4) by auto
      ultimately show ?thesis using c e xs fq2(3)
        by (intro exI[of _ ?pkts] exI[of _ bp1] exI[of _ ?p] exI[of _ xs]) simp
    qed
  qed
qed


text \<open>
  Waiting for the kernel: with a kernel that takes no more than what was submitted, the loop
  ends exactly if enough entries were taken, and then everything taken left the ring in order.
\<close>

lemma reserve_fail:
  assumes "prod_idle k r" "\<not> length (ring_content r) + unat nb \<le> 2 ^ k"
  shows "\<exists>r'. xsk_ring_prod__reserve r nb = (0, None, r') \<and> prod_idle k r' \<and> ring_content r' = ring_content r"
proof -
  obtain s f l where p: "prod_parts k r s 0 f l" using assms(1) by (auto simp: prod_idle_def)
  have c: "ring_content r = entries r 0 s" by (rule prod_content[OF p])
  have tot: "s + f + l = 2 ^ k" using p by (simp add: prod_parts_def)
  have nb: "\<not> unat nb \<le> f" "\<not> unat nb \<le> f + l" using assms(2) c tot by auto
  obtain r' where r': "ring r' = ring r" "consumer r' = consumer r"
    "xsk_ring_prod__reserve r nb = (0, None, r')" "prod_parts k r' s 0 (f + l) 0"
    using reserve_parts[OF p, of nb] nb by auto
  have "entries r' 0 s = entries r 0 s"
    using r'(1,2,4) p by (simp add: entries_def entry_def prod_parts_def ring_shape_def)
  with r' c prod_content[OF r'(4)] show ?thesis by (auto simp: prod_idle_def)
qed

lemma reserve_wait:
  assumes "prod_idle k r" "unat nb \<le> 2 ^ k"
  shows "(reserve_loop r nb ks = None \<and> \<not> length (ring_content r) + unat nb \<le> 2 ^ k + sum_list ks) \<or>
    (\<exists>s f l r' ys. reserve_loop r nb ks = Some (consumer r' + of_nat s, r', ys) \<and>
      prod_parts k r' s (unat nb) f l \<and> ring_content r = ys @ entries r' 0 s)"
  using assms
proof (induction ks arbitrary: r)
  case Nil
  show ?case
  proof (cases "length (ring_content r) + unat nb \<le> 2 ^ k")
    case True
    from reserve_now[OF Nil(1) True, of "[]"] show ?thesis by (metis append_Nil)
  next
    case False
    from reserve_fail[OF Nil(1) False] obtain r' where "xsk_ring_prod__reserve r nb = (0, None, r')" by blast
    moreover have "nb \<noteq> 0"
    proof
      assume "nb = 0"
      with False prod_idle_bound[OF Nil(1)] show "False" by simp
    qed
    ultimately show ?thesis using False by (subst reserve_loop.simps) simp
  qed
next
  case (Cons n ks)
  show ?case
  proof (cases "length (ring_content r) + unat nb \<le> 2 ^ k")
    case True
    from reserve_now[OF Cons.prems(1) True, of "n # ks"] show ?thesis by (metis append_Nil)
  next
    case False
    from reserve_fail[OF Cons.prems(1) False] obtain r1 where
      r1: "xsk_ring_prod__reserve r nb = (0, None, r1)" "prod_idle k r1" "ring_content r1 = ring_content r" by blast
    have nz: "nb \<noteq> 0" using False prod_idle_bound[OF Cons.prems(1)] by auto
    have av: "unat (producer r1 - consumer r1) = length (ring_content r1)" by (simp add: ring_content_def)
    let ?n = "min n (length (ring_content r1))"
    obtain xs r2 where r2: "kernel_take r1 ?n = (xs, r2)" by (cases "kernel_take r1 ?n")
    have n: "?n \<le> length (ring_content r1)" by simp
    note t = idle_kernel_take[OF r1(2) n r2]
    have st: "reserve_loop r nb (n # ks) = map_option (\<lambda>(p, q, ys). (p, q, xs @ ys)) (reserve_loop r2 nb ks)"
      using r1(1) nz r2 by (subst reserve_loop.simps) (simp add: av)
    from Cons.IH[OF t(1) Cons.prems(2)] show ?thesis
    proof (elim disjE conjE exE)
      assume "reserve_loop r2 nb ks = None" "\<not> length (ring_content r2) + unat nb \<le> 2 ^ k + sum_list ks"
      with st t(3) r1(3) Cons.prems(2) show ?thesis by (simp add: min_def split: if_splits)
    next
      fix s f l r' ys
      assume a: "reserve_loop r2 nb ks = Some (consumer r' + of_nat s, r', ys)"
        "prod_parts k r' s (unat nb) f l" "ring_content r2 = ys @ entries r' 0 s"
      have "ring_content r = (xs @ ys) @ entries r' 0 s"
        using t(2,3) a(3) r1(3) by (metis append.assoc append_take_drop_id)
      with a(1,2) st show ?thesis by auto
    qed
  qed
qed

lemma put_pkts_submit:
  assumes "prod_parts k r s (length b) f l"
  shows "\<exists>r'. tx_loop r (consumer r + of_nat s) b = Inr r' \<and> prod_idle k (xsk_ring_prod__submit r' (of_nat (length b))) \<and>
    (\<exists>ds. ring_content (xsk_ring_prod__submit r' (of_nat (length b))) = entries r 0 s @ ds \<and>
      map (\<lambda>d. (desc_addr d, desc_len d)) ds = b)"
proof -
  let ?es = "\<lambda>i. (map put_pkt b ! i) (entry r (s + i))"
  have l: "length (map put_pkt b) = length b" by simp
  have "map (\<lambda>d. (desc_addr d, desc_len d)) (map ?es [0..<length b]) = b"
    by (rule nth_equalityI) (simp_all add: put_pkt_def)
  moreover obtain r' where "write_run r (consumer r + of_nat s) (map put_pkt b) = Inr r'"
    "prod_idle k (xsk_ring_prod__submit r' (of_nat (length b)))"
    "ring_content (xsk_ring_prod__submit r' (of_nat (length b))) = entries r 0 s @ map ?es [0..<length b]"
    using idle_write_submit[OF assms l] by blast
  ultimately show ?thesis unfolding tx_loop_run by blast
qed

lemma port_tx_burst_spec:
  assumes inv: "pool_inv m bp (as @ bc p # bs)" and idle: "rings_idle z p"
    and few: "size (pooled bp (as @ bc p # bs)) + length (ring_content (umem_cq p))
      \<le> Suc m * unat (n_buffers_per_slab (params bp))"
    and b: "length b \<le> 2 ^ tx_bits z"
  shows "(port_tx_burst_collector bp p b ks = None \<and>
      \<not> length (ring_content (txq p)) + length b \<le> 2 ^ tx_bits z + sum_list ks) \<or>
    (\<exists>bp' p' ys ds done. port_tx_burst_collector bp p b ks = Some (Inr (bp', p', ys)) \<and>
      pool_inv m bp' (as @ bc p' # bs) \<and> rings_idle z p' \<and> params bp' = params bp \<and> umem_cfg bp' = umem_cfg bp \<and>
      rxq p' = rxq p \<and> umem_fq p' = umem_fq p \<and>
      ring_content (umem_cq p) = done @ ring_content (umem_cq p') \<and>
      pooled bp' (as @ bc p' # bs) = mset done + pooled bp (as @ bc p # bs) \<and>
      ring_content (txq p) @ ds = ys @ ring_content (txq p') \<and>
      map (\<lambda>d. (desc_addr d, desc_len d)) ds = b \<and>
      (done = [] \<longrightarrow> comp_size (umem_cfg bp) = 0 \<or> ring_content (umem_cq p) = []))"
proof -
  have rings: "cons_idle (cq_bits z) (umem_cq p)" "prod_idle (tx_bits z) (txq p)"
    using idle by (auto simp: rings_idle_def)
  obtain e cq1 where e: "xsk_ring_cons__peek (umem_cq p) (comp_size (umem_cfg bp)) =
      (of_nat e, if e = 0 then None else Some (consumer (umem_cq p)), cq1)"
    "unat (of_nat e :: u32) = e" "e \<le> length (ring_content (umem_cq p))"
    "read_run cq1 (consumer (umem_cq p)) e = Inr (take e (ring_content (umem_cq p)))"
    "cons_idle (cq_bits z) (xsk_ring_cons__release cq1 (of_nat e))"
    "ring_content (xsk_ring_cons__release cq1 (of_nat e)) = drop e (ring_content (umem_cq p))"
    "e = 0 \<longrightarrow> comp_size (umem_cfg bp) = 0 \<or> ring_content (umem_cq p) = []"
    using idle_peek_release[OF rings(1), of "comp_size (umem_cfg bp)"] by blast
  let ?done = "take e (ring_content (umem_cq p))" and ?pos = "case (if e = 0 then None else Some (consumer (umem_cq p)))
      of None \<Rightarrow> 0 | Some q \<Rightarrow> q"
  have cl: "comp_loop bp (bc p) cq1 ?pos e = bcache_prod_many bp (bc p) ?done"
  proof (cases "e = 0")
    case False
    with comp_loop_run[OF e(4)] show ?thesis by simp
  qed simp
  have "size (pooled bp (as @ bc p # bs)) + length ?done \<le> Suc m * unat (n_buffers_per_slab (params bp))"
    using few by simp
  from bcache_prod_many_correct[OF inv this] obtain bp1 c1 where
    c1: "bcache_prod_many bp (bc p) ?done = Inr (bp1, c1)" "pool_inv m bp1 (as @ c1 # bs)"
    "pooled bp1 (as @ c1 # bs) = mset ?done + pooled bp (as @ bc p # bs)" "params bp1 = params bp"
    "umem_cfg bp1 = umem_cfg bp" by blast
  have ub: "unat (of_nat (length b) :: u32) = length b" using b idle_small(1)[OF rings(2)] by simp
  have red: "port_tx_burst_collector bp p b ks = (case reserve_loop (txq p) (of_nat (length b)) ks of
      None \<Rightarrow> None | Some (tpos, tx1, ys) \<Rightarrow> Some (rbind (tx_loop tx1 tpos b) (\<lambda>tx2.
        Inr (bp1, p\<lparr>bc := c1, umem_cq := xsk_ring_cons__release cq1 (of_nat e),
          txq := xsk_ring_prod__submit tx2 (of_nat (length b)),
          n_pkts_tx := n_pkts_tx p + of_nat (length b)\<rparr>, ys))))"
    using e(1,2) cl c1(1) by (simp add: port_tx_burst_collector_def split: option.split)
  have "unat (of_nat (length b) :: u32) \<le> 2 ^ tx_bits z" using b ub by simp
  from reserve_wait[OF rings(2) this, of ks] show ?thesis
  proof (elim disjE conjE exE)
    assume "reserve_loop (txq p) (of_nat (length b)) ks = None"
      "\<not> length (ring_content (txq p)) + unat (of_nat (length b) :: u32) \<le> 2 ^ tx_bits z + sum_list ks"
    then show ?thesis unfolding red ub by simp
  next
    fix s f l tx1 ys
    assume t: "reserve_loop (txq p) (of_nat (length b)) ks = Some (consumer tx1 + of_nat s, tx1, ys)"
      "prod_parts (tx_bits z) tx1 s (unat (of_nat (length b) :: u32)) f l"
      "ring_content (txq p) = ys @ entries tx1 0 s"
    obtain tx2 ds where tx2: "tx_loop tx1 (consumer tx1 + of_nat s) b = Inr tx2"
      "prod_idle (tx_bits z) (xsk_ring_prod__submit tx2 (of_nat (length b)))"
      "ring_content (xsk_ring_prod__submit tx2 (of_nat (length b))) = entries tx1 0 s @ ds"
      "map (\<lambda>d. (desc_addr d, desc_len d)) ds = b"
      using put_pkts_submit[OF t(2)[unfolded ub]] by blast
    let ?p = "p\<lparr>bc := c1, umem_cq := xsk_ring_cons__release cq1 (of_nat e),
          txq := xsk_ring_prod__submit tx2 (of_nat (length b)), n_pkts_tx := n_pkts_tx p + of_nat (length b)\<rparr>"
    have "port_tx_burst_collector bp p b ks = Some (Inr (bp1, ?p, ys))" unfolding red t(1) using tx2(1) by simp
    moreover have "rings_idle z ?p" using idle e(5) tx2(2) by (simp add: rings_idle_def)
    ultimately show ?thesis using c1 e(6,7) t(3) tx2(3,4)
      by (intro disjI2 exI[of _ bp1] exI[of _ ?p] exI[of _ ys] exI[of _ ds] exI[of _ ?done]) simp
  qed
qed

end
