(* ===== verification/Buffers.thy ===== *)
theory Buffers
  imports Port
begin

text \<open>
  Where the packet buffers are: the creation of the ports by the main program
  (\<open>opera-v2/emu_nic.c\<close>), and the pool, the ports, the kernel's side of the rings and the
  packets in flight between the threads as one state machine.
\<close>

section \<open>Creating the ports\<close>

fun init_ports :: "bpool \<Rightarrow> (port_env \<times> port_params) list \<Rightarrow> (bpool \<times> port list option) res" where
  "init_ports bp [] = Inr (bp, Some [])"
| "init_ports bp ((env, ps) # xs) = rbind (port_init env bp ps) (\<lambda>(bp1, p).
     case p of None \<Rightarrow> Inr (bp1, None)
     | Some p1 \<Rightarrow> rbind (init_ports bp1 xs) (\<lambda>(bp2, ps2). Inr (bp2, map_option ((#) p1) ps2)))"

section \<open>The state machine\<close>

text \<open>
  A port with the buffers the kernel holds for it: \<open>krx\<close> taken from the fill ring and not yet
  received into, \<open>ktx\<close> taken from the transmit ring and not yet completed. \<open>flight\<close> are the
  buffers of packets that were received and not yet sent or dropped.

  Each burst and each returned buffer is one step. For the pool that is its mutex; for a cache it
  is an assumption on the schedule, since the code lets two threads use a cache without a lock
  (\<open>Cache_Race\<close> shows what may happen then).
\<close>

record kport =
  kp :: port
  krx :: "u64 multiset"
  ktx :: "u64 multiset"

record psys =
  spool :: bpool
  kports :: "kport list"
  flight :: "u64 multiset"

text \<open>The buffer an address lies in: the kernel places packets at an offset in the buffer.\<close>

definition buf_of :: "bpool \<Rightarrow> u64 \<Rightarrow> nat" where
  "buf_of bp a = unat a div unat (buffer_size (params bp))"

inductive psys_step :: "ring_sizes \<Rightarrow> psys \<Rightarrow> psys \<Rightarrow> bool" for z :: ring_sizes where
  receive: "\<lbrakk>i < length (kports s); k = kports s ! i;
     port_rx_burst (spool s) (kp k) ks = Some (Inr (pkts, bp', p', ys))\<rbrakk> \<Longrightarrow>
     psys_step z s (s\<lparr>spool := bp', kports := (kports s)[i := k\<lparr>kp := p', krx := krx k + mset ys\<rparr>],
       flight := flight s + mset (map fst pkts)\<rparr>)"
| transmit: "\<lbrakk>i < length (kports s); k = kports s ! i; length b \<le> MAX_BURST_TX; mset (map fst b) \<subseteq># flight s;
     port_tx_burst_collector (spool s) (kp k) b ks = Some (Inr (bp', p', ys))\<rbrakk> \<Longrightarrow>
     psys_step z s (s\<lparr>spool := bp', kports := (kports s)[i := k\<lparr>kp := p', ktx := ktx k + mset (map desc_addr ys)\<rparr>],
       flight := flight s - mset (map fst b)\<rparr>)"
| discard: "\<lbrakk>i < length (kports s); k = kports s ! i; a \<in># flight s;
     bcache_prod (spool s) (bc (kp k)) a = Inr (bp', c')\<rbrakk> \<Longrightarrow>
     psys_step z s (s\<lparr>spool := bp', kports := (kports s)[i := k\<lparr>kp := (kp k)\<lparr>bc := c'\<rparr>\<rparr>],
       flight := flight s - {#a#}\<rparr>)"
| kernel_fill: "\<lbrakk>i < length (kports s); k = kports s ! i; n \<le> length (ring_content (umem_fq (kp k)));
     kernel_take (umem_fq (kp k)) n = (xs, fq')\<rbrakk> \<Longrightarrow>
     psys_step z s (s\<lparr>spool := spool s,
       kports := (kports s)[i := k\<lparr>kp := (kp k)\<lparr>umem_fq := fq'\<rparr>, krx := krx k + mset xs\<rparr>], flight := flight s\<rparr>)"
| kernel_receive: "\<lbrakk>i < length (kports s); k = kports s ! i; mset as \<subseteq># krx k;
     map (buf_of (spool s) \<circ> desc_addr) ds = map (buf_of (spool s)) as;
     length (ring_content (rxq (kp k))) + length ds \<le> 2 ^ rx_bits z\<rbrakk> \<Longrightarrow>
     psys_step z s (s\<lparr>spool := spool s,
       kports := (kports s)[i := k\<lparr>kp := (kp k)\<lparr>rxq := kernel_put (rxq (kp k)) ds\<rparr>, krx := krx k - mset as\<rparr>],
       flight := flight s\<rparr>)"
| kernel_transmit: "\<lbrakk>i < length (kports s); k = kports s ! i; n \<le> length (ring_content (txq (kp k)));
     kernel_take (txq (kp k)) n = (xs, tx')\<rbrakk> \<Longrightarrow>
     psys_step z s (s\<lparr>spool := spool s,
       kports := (kports s)[i := k\<lparr>kp := (kp k)\<lparr>txq := tx'\<rparr>, ktx := ktx k + mset (map desc_addr xs)\<rparr>],
       flight := flight s\<rparr>)"
| kernel_complete: "\<lbrakk>i < length (kports s); k = kports s ! i; mset as \<subseteq># ktx k;
     map (buf_of (spool s)) cs = map (buf_of (spool s)) as;
     length (ring_content (umem_cq (kp k))) + length cs \<le> 2 ^ cq_bits z\<rbrakk> \<Longrightarrow>
     psys_step z s (s\<lparr>spool := spool s,
       kports := (kports s)[i := k\<lparr>kp := (kp k)\<lparr>umem_cq := kernel_put (umem_cq (kp k)) cs\<rparr>, ktx := ktx k - mset as\<rparr>],
       flight := flight s\<rparr>)"

section \<open>The invariant\<close>

definition caches :: "psys \<Rightarrow> bcache list" where
  "caches s = map (\<lambda>k. bc (kp k)) (kports s)"

definition port_bufs :: "kport \<Rightarrow> u64 multiset" where
  "port_bufs k = mset (ring_content (umem_fq (kp k))) + krx k + mset (map desc_addr (ring_content (rxq (kp k)))) +
     mset (map desc_addr (ring_content (txq (kp k)))) + ktx k + mset (ring_content (umem_cq (kp k)))"

text \<open>Everything that is somewhere, as addresses.\<close>

definition owned :: "psys \<Rightarrow> u64 multiset" where
  "owned s = pooled (spool s) (caches s) + (\<Sum>k \<leftarrow> kports s. port_bufs k) + flight s"

text \<open>The receive side of a port always holds as many buffers as its fill ring has entries.\<close>

definition port_ok :: "ring_sizes \<Rightarrow> kport \<Rightarrow> bool" where
  "port_ok z k \<longleftrightarrow> rings_idle z (kp k) \<and>
     length (ring_content (umem_fq (kp k))) + size (krx k) + length (ring_content (rxq (kp k))) = 2 ^ fq_bits z"

definition sys_inv :: "nat \<Rightarrow> ring_sizes \<Rightarrow> nat multiset \<Rightarrow> psys \<Rightarrow> bool" where
  "sys_inv m z B s \<longleftrightarrow> pool_inv m (spool s) (caches s) \<and> (\<forall>k \<in> set (kports s). port_ok z k) \<and>
     unat (n_buffers_per_slab (params (spool s))) = 2 ^ fq_bits z \<and> MAX_BURST_RX \<le> 2 ^ fq_bits z \<and>
     MAX_BURST_TX \<le> 2 ^ tx_bits z \<and> image_mset (buf_of (spool s)) (owned s) = B \<and>
     size B \<le> (m + length (kports s)) * 2 ^ fq_bits z"

lemma caches_split:
  assumes "i < length (kports s)"
  shows "caches s = take i (caches s) @ bc (kp (kports s ! i)) # drop (Suc i) (caches s)"
proof -
  have "i < length (caches s)" "caches s ! i = bc (kp (kports s ! i))" using assms by (simp_all add: caches_def)
  then show ?thesis using id_take_nth_drop[of i "caches s"] by simp
qed

lemma caches_update:
  "i < length (kports s) \<Longrightarrow> caches (s\<lparr>spool := bp, kports := (kports s)[i := k], flight := fl\<rparr>) =
     take i (caches s) @ bc (kp k) # drop (Suc i) (caches s)"
  by (simp add: caches_def upd_conv_take_nth_drop take_map drop_map)

lemma sum_list_update_mset:
  fixes f :: "'a \<Rightarrow> 'b multiset"
  assumes "i < length xs"
  shows "(\<Sum>x \<leftarrow> xs[i := y]. f x) + f (xs ! i) = (\<Sum>x \<leftarrow> xs. f x) + f y"
proof -
  have "xs = take i xs @ xs ! i # drop (Suc i) xs" by (rule id_take_nth_drop[OF assms])
  then have "(\<Sum>x \<leftarrow> xs. f x) = (\<Sum>x \<leftarrow> take i xs @ xs ! i # drop (Suc i) xs. f x)" by simp
  then show ?thesis using assms by (simp add: upd_conv_take_nth_drop)
qed

lemma buf_of_cong: "params bp' = params bp \<Longrightarrow> buf_of bp' = buf_of bp"
  by (intro ext) (simp add: buf_of_def)

text \<open>A step of port \<open>i\<close> keeps the invariant if it keeps the port's part of it.\<close>

lemma sys_inv_update:
  assumes inv: "sys_inv m z B s" and i: "i < length (kports s)" and k: "k = kports s ! i"
    and pool: "pool_inv m bp' (take i (caches s) @ bc (kp k') # drop (Suc i) (caches s))"
    and ps: "params bp' = params (spool s)" and ok: "port_ok z k'"
    and bufs: "image_mset (buf_of (spool s)) (pooled bp' (take i (caches s) @ bc (kp k') # drop (Suc i) (caches s)) +
        port_bufs k' + fl) = image_mset (buf_of (spool s)) (pooled (spool s) (caches s) + port_bufs k + flight s)"
  shows "sys_inv m z B (s\<lparr>spool := bp', kports := (kports s)[i := k'], flight := fl\<rparr>)"
proof -
  let ?s = "s\<lparr>spool := bp', kports := (kports s)[i := k'], flight := fl\<rparr>"
  let ?f = "image_mset (buf_of (spool s))" and ?cs = "take i (caches s) @ bc (kp k') # drop (Suc i) (caches s)"
  let ?S = "\<Sum>k \<leftarrow> kports s. port_bufs k" and ?S' = "\<Sum>k \<leftarrow> (kports s)[i := k']. port_bufs k"
  have cs: "caches ?s = ?cs" by (rule caches_update[OF i])
  have "?S' + port_bufs k = ?S + port_bufs k'" unfolding k by (rule sum_list_update_mset[OF i])
  then have S: "?f ?S' + ?f (port_bufs k) = ?f ?S + ?f (port_bufs k')" by (metis image_mset_union)
  have "?f (owned ?s) + ?f (port_bufs k) = (?f (pooled bp' ?cs) + ?f fl) + (?f ?S' + ?f (port_bufs k))"
    by (simp add: owned_def cs)
  also have "\<dots> = ?f (pooled bp' ?cs + port_bufs k' + fl) + ?f ?S" unfolding S by simp
  also have "\<dots> = ?f (owned s) + ?f (port_bufs k)" unfolding bufs by (simp add: owned_def)
  finally have "?f (owned ?s) = ?f (owned s)" by simp
  then have "image_mset (buf_of (spool ?s)) (owned ?s) = B" using inv buf_of_cong[OF ps] by (simp add: sys_inv_def)
  moreover have "\<forall>k \<in> set (kports ?s). port_ok z k"
    using inv ok set_update_subset_insert[of "kports s" i k'] by (auto simp: sys_inv_def)
  ultimately show ?thesis using inv pool ps cs by (simp add: sys_inv_def)
qed

lemma mset_take_drop: "mset (take n xs) + mset (drop n xs) = mset xs"
  by (metis append_take_drop_id mset_append)

text \<open>The pool has room for every buffer that may come back.\<close>

lemma sys_room:
  assumes inv: "sys_inv m z B s"
  shows "size (pooled (spool s) (caches s)) + (\<Sum>k \<leftarrow> kports s. size (ktx k) + length (ring_content (umem_cq (kp k)))) +
      size (flight s) \<le> m * unat (n_buffers_per_slab (params (spool s)))"
proof -
  let ?g = "\<lambda>k. size (ktx k) + length (ring_content (umem_cq (kp k)))"
  have "(\<Sum>k \<leftarrow> ks. 2 ^ fq_bits z + ?g k) \<le> (\<Sum>k \<leftarrow> ks. size (port_bufs k))"
    if "\<forall>k \<in> set ks. port_ok z k" for ks
    using that by (induction ks) (auto simp: port_bufs_def port_ok_def)
  then have "(\<Sum>k \<leftarrow> kports s. 2 ^ fq_bits z + ?g k) \<le> (\<Sum>k \<leftarrow> kports s. size (port_bufs k))"
    using inv by (simp add: sys_inv_def)
  moreover have "(\<Sum>k \<leftarrow> ks. 2 ^ fq_bits z + ?g k) = length ks * 2 ^ fq_bits z + (\<Sum>k \<leftarrow> ks. ?g k)" for ks
    by (induction ks) auto
  ultimately have "length (kports s) * 2 ^ fq_bits z + (\<Sum>k \<leftarrow> kports s. ?g k) \<le> (\<Sum>k \<leftarrow> kports s. size (port_bufs k))"
    by metis
  moreover have "size (pooled (spool s) (caches s)) + (\<Sum>k \<leftarrow> kports s. size (port_bufs k)) + size (flight s) = size B"
  proof -
    have "size (owned s) = size B" using inv by (metis size_image_mset sys_inv_def)
    then show ?thesis by (simp add: owned_def size_sum_list comp_def)
  qed
  moreover have "size B \<le> m * 2 ^ fq_bits z + length (kports s) * 2 ^ fq_bits z"
    using inv by (auto simp: sys_inv_def algebra_simps)
  ultimately have "size (pooled (spool s) (caches s)) + (\<Sum>k \<leftarrow> kports s. ?g k) + size (flight s) \<le> m * 2 ^ fq_bits z"
    by linarith
  then show ?thesis using inv by (simp add: sys_inv_def)
qed

lemma sys_room_port:
  assumes "sys_inv m z B s" "i < length (kports s)" "k = kports s ! i"
  shows "size (pooled (spool s) (caches s)) + length (ring_content (umem_cq (kp k))) + size (flight s)
    \<le> m * unat (n_buffers_per_slab (params (spool s)))"
proof -
  let ?g = "\<lambda>k. size (ktx k) + length (ring_content (umem_cq (kp k)))"
  have "?g k \<le> (\<Sum>k \<leftarrow> kports s. ?g k)" using assms(2,3) by (intro member_le_sum_list) auto
  with sys_room[OF assms(1)] show ?thesis by simp
qed


section \<open>Every step keeps the invariant\<close>

lemma sys_invD:
  assumes "sys_inv m z B s" "i < length (kports s)" "k = kports s ! i"
  shows "pool_inv m (spool s) (take i (caches s) @ bc (kp k) # drop (Suc i) (caches s))" "port_ok z k"
    "rings_idle z (kp k)" "unat (n_buffers_per_slab (params (spool s))) = 2 ^ fq_bits z"
    "MAX_BURST_RX \<le> unat (n_buffers_per_slab (params (spool s)))" "MAX_BURST_TX \<le> 2 ^ tx_bits z"
    "pooled (spool s) (caches s) = pooled (spool s) (take i (caches s) @ bc (kp k) # drop (Suc i) (caches s))"
  using assms caches_split[of i s] by (auto simp: sys_inv_def port_ok_def)

lemma receive_ok:
  assumes inv: "sys_inv m z B s" and i: "i < length (kports s)" and k: "k = kports s ! i"
  shows "\<exists>pkts bp' p'. port_rx_burst (spool s) (kp k) ks = Some (Inr (pkts, bp', p', [])) \<and>
    sys_inv m z B (s\<lparr>spool := bp', kports := (kports s)[i := k\<lparr>kp := p', krx := krx k + mset []\<rparr>],
      flight := flight s + mset (map fst pkts)\<rparr>)"
proof -
  note D = sys_invD[OF inv i k]
  have "length (ring_content (umem_fq (kp k))) + length (ring_content (rxq (kp k))) \<le> 2 ^ fq_bits z"
    using D(2) by (simp add: port_ok_def)
  from port_rx_burst_spec[OF D(1,3) this D(5), of ks] obtain pkts bp' p' xs where
    r: "port_rx_burst (spool s) (kp k) ks = Some (Inr (pkts, bp', p', []))"
    "pool_inv m bp' (take i (caches s) @ bc p' # drop (Suc i) (caches s))" "rings_idle z p'" "params bp' = params (spool s)"
    "length xs = length pkts" "txq p' = txq (kp k)" "umem_cq p' = umem_cq (kp k)"
    "pkts = map (\<lambda>d. (desc_addr d, desc_len d)) (take (length pkts) (ring_content (rxq (kp k))))"
    "ring_content (rxq p') = drop (length pkts) (ring_content (rxq (kp k)))"
    "ring_content (umem_fq p') = ring_content (umem_fq (kp k)) @ xs"
    "pooled (spool s) (take i (caches s) @ bc (kp k) # drop (Suc i) (caches s)) =
      mset xs + pooled bp' (take i (caches s) @ bc p' # drop (Suc i) (caches s))" by blast
  let ?k = "k\<lparr>kp := p', krx := krx k + mset []\<rparr>" and ?n = "length pkts"
  have fst: "map fst pkts = take ?n (map desc_addr (ring_content (rxq (kp k))))"
    by (subst r(8)) (simp add: take_map comp_def)
  have n: "?n \<le> length (ring_content (rxq (kp k)))" using arg_cong[OF r(8), of length] by simp
  have ok: "port_ok z ?k" using D(2) r(3,5,9,10) n by (simp add: port_ok_def)
  have e: "mset (map desc_addr (ring_content (rxq (kp k)))) =
      mset (map fst pkts) + mset (map desc_addr (ring_content (rxq p')))"
    unfolding fst r(9) by (simp only: mset_take_drop drop_map[symmetric])
  have "kp ?k = p'" by simp
  moreover have "port_bufs ?k = mset (ring_content (umem_fq (kp k))) + mset xs + krx k +
      mset (map desc_addr (ring_content (rxq p'))) + mset (map desc_addr (ring_content (txq (kp k)))) + ktx k +
      mset (ring_content (umem_cq (kp k)))"
    using r(6,7,10) by (simp add: port_bufs_def)
  ultimately have e2: "pooled bp' (take i (caches s) @ bc (kp ?k) # drop (Suc i) (caches s)) + port_bufs ?k +
      (flight s + mset (map fst pkts)) = pooled (spool s) (caches s) + port_bufs k + flight s"
    by (simp only: D(7) r(11) port_bufs_def[of k] e ac_simps)
  have "sys_inv m z B (s\<lparr>spool := bp', kports := (kports s)[i := ?k], flight := flight s + mset (map fst pkts)\<rparr>)"
    using r(2,4) ok arg_cong[OF e2, of "image_mset (buf_of (spool s))"]
    by (intro sys_inv_update[OF inv i k]) simp_all
  with r(1) show ?thesis by blast
qed

lemma transmit_ok:
  assumes inv: "sys_inv m z B s" and i: "i < length (kports s)" and k: "k = kports s ! i"
    and b: "length b \<le> MAX_BURST_TX" "mset (map fst b) \<subseteq># flight s"
  shows "port_tx_burst_collector (spool s) (kp k) b ks = None \<or>
    (\<exists>bp' p' ys. port_tx_burst_collector (spool s) (kp k) b ks = Some (Inr (bp', p', ys)) \<and>
      sys_inv m z B (s\<lparr>spool := bp', kports := (kports s)[i := k\<lparr>kp := p', ktx := ktx k + mset (map desc_addr ys)\<rparr>],
        flight := flight s - mset (map fst b)\<rparr>))"
proof -
  note D = sys_invD[OF inv i k]
  have few: "size (pooled (spool s) (take i (caches s) @ bc (kp k) # drop (Suc i) (caches s))) +
      length (ring_content (umem_cq (kp k))) \<le> Suc m * unat (n_buffers_per_slab (params (spool s)))"
    using sys_room_port[OF inv i k] D(7) by simp
  have "length b \<le> 2 ^ tx_bits z" using b(1) D(6) by simp
  from port_tx_burst_spec[OF D(1,3) few this, of ks] show ?thesis
  proof (elim disjE conjE exE)
    fix bp' p' ys ds and cmpl :: "u64 list"
    assume r: "port_tx_burst_collector (spool s) (kp k) b ks = Some (Inr (bp', p', ys))"
      "pool_inv m bp' (take i (caches s) @ bc p' # drop (Suc i) (caches s))" "rings_idle z p'" "params bp' = params (spool s)"
      "rxq p' = rxq (kp k)" "umem_fq p' = umem_fq (kp k)"
      "ring_content (umem_cq (kp k)) = cmpl @ ring_content (umem_cq p')"
      "pooled bp' (take i (caches s) @ bc p' # drop (Suc i) (caches s)) =
        mset cmpl + pooled (spool s) (take i (caches s) @ bc (kp k) # drop (Suc i) (caches s))"
      "ring_content (txq (kp k)) @ ds = ys @ ring_content (txq p')"
      "map (\<lambda>d. (desc_addr d, desc_len d)) ds = b"
    let ?k = "k\<lparr>kp := p', ktx := ktx k + mset (map desc_addr ys)\<rparr>"
    have "port_ok z ?k" using D(2) r(3,5,6) by (simp add: port_ok_def)
    moreover have fst: "map fst b = map desc_addr ds" using r(10) by auto
    have "mset (map desc_addr (ring_content (txq (kp k)))) + mset (map fst b) =
        mset (map desc_addr ys) + mset (map desc_addr (ring_content (txq p')))"
      unfolding fst by (metis map_append mset_append r(9))
    moreover obtain fl where fl: "flight s = mset (map fst b) + fl" using b(2) by (metis subset_mset.add_diff_inverse)
    ultimately have "pooled bp' (take i (caches s) @ bc (kp ?k) # drop (Suc i) (caches s)) + port_bufs ?k +
        (flight s - mset (map fst b)) = pooled (spool s) (caches s) + port_bufs k + flight s"
      unfolding D(7) using r(5,6,7,8) by (simp add: port_bufs_def)
    then have "sys_inv m z B (s\<lparr>spool := bp', kports := (kports s)[i := ?k], flight := flight s - mset (map fst b)\<rparr>)"
      using r(2,4) \<open>port_ok z ?k\<close> by (intro sys_inv_update[OF inv i k]) simp_all
    with r(1) show ?thesis by blast
  qed blast
qed

lemma discard_ok:
  assumes inv: "sys_inv m z B s" and i: "i < length (kports s)" and k: "k = kports s ! i" and a: "a \<in># flight s"
  shows "\<exists>bp' c'. bcache_prod (spool s) (bc (kp k)) a = Inr (bp', c') \<and>
    sys_inv m z B (s\<lparr>spool := bp', kports := (kports s)[i := k\<lparr>kp := (kp k)\<lparr>bc := c'\<rparr>\<rparr>], flight := flight s - {#a#}\<rparr>)"
proof -
  note D = sys_invD[OF inv i k]
  have "0 < unat (n_buffers_per_slab (params (spool s)))" using D(4) by simp
  then have "size (pooled (spool s) (take i (caches s) @ bc (kp k) # drop (Suc i) (caches s))) <
      Suc m * unat (n_buffers_per_slab (params (spool s)))"
    using sys_room_port[OF inv i k] D(7) by simp
  from bcache_prod_correct[OF D(1) prod_room[OF D(1) this], of a] obtain bp' c' where
    r: "bcache_prod (spool s) (bc (kp k)) a = Inr (bp', c')"
    "pool_inv m bp' (take i (caches s) @ c' # drop (Suc i) (caches s))"
    "pooled bp' (take i (caches s) @ c' # drop (Suc i) (caches s)) =
      add_mset a (pooled (spool s) (take i (caches s) @ bc (kp k) # drop (Suc i) (caches s)))"
    "params bp' = params (spool s)" by blast
  let ?k = "k\<lparr>kp := (kp k)\<lparr>bc := c'\<rparr>\<rparr>"
  have "port_ok z ?k" using D(2) by (simp add: port_ok_def rings_idle_def)
  moreover obtain fl where "flight s = add_mset a fl" using a by (metis insert_DiffM)
  then have "pooled bp' (take i (caches s) @ bc (kp ?k) # drop (Suc i) (caches s)) + port_bufs ?k + (flight s - {#a#}) =
      pooled (spool s) (caches s) + port_bufs k + flight s"
    unfolding D(7) using r(3) by (simp add: port_bufs_def)
  ultimately have "sys_inv m z B (s\<lparr>spool := bp', kports := (kports s)[i := ?k], flight := flight s - {#a#}\<rparr>)"
    using r(2,4) by (intro sys_inv_update[OF inv i k]) simp_all
  with r(1) show ?thesis by blast
qed

text \<open>A step of the kernel changes only what is in the rings and in its hands.\<close>

lemma kernel_ok:
  assumes inv: "sys_inv m z B s" and i: "i < length (kports s)" and k: "k = kports s ! i"
    and ok: "port_ok z k'" and bc: "bc (kp k') = bc (kp k)"
    and bufs: "image_mset (buf_of (spool s)) (port_bufs k') = image_mset (buf_of (spool s)) (port_bufs k)"
  shows "sys_inv m z B (s\<lparr>spool := spool s, kports := (kports s)[i := k'], flight := flight s\<rparr>)"
  using sys_invD(1,7)[OF inv i k] ok bufs by (intro sys_inv_update[OF inv i k]) (simp_all add: bc)

lemma image_mset_eq_list: "map f as = map f bs \<Longrightarrow> image_mset f (mset as) = image_mset f (mset bs)"
  by (metis mset_map)

lemma step_keeps_inv:
  assumes "psys_step z s s'" "sys_inv m z B s"
  shows "sys_inv m z B s'"
  using assms
proof cases
  case (receive i k ks pkts bp' p' ys)
  with receive_ok[OF assms(2) receive(2,3), of ks] show ?thesis by auto
next
  case (transmit i k b ks bp' p' ys)
  with transmit_ok[OF assms(2) transmit(2-5), of ks] show ?thesis by auto
next
  case (discard i k a bp' c')
  with discard_ok[OF assms(2) discard(2-4)] show ?thesis by auto
next
  case (kernel_fill i k n xs fq')
  note D = sys_invD[OF assms(2) kernel_fill(2,3)]
  have "prod_idle (fq_bits z) (umem_fq (kp k))" using D(3) by (simp add: rings_idle_def)
  note t = idle_kernel_take[OF this kernel_fill(4,5)]
  show ?thesis unfolding kernel_fill(1)
  proof (rule kernel_ok[OF assms(2) kernel_fill(2,3)])
    show "port_ok z (k\<lparr>kp := (kp k)\<lparr>umem_fq := fq'\<rparr>, krx := krx k + mset xs\<rparr>)"
      using D(2) t kernel_fill(4) by (simp add: port_ok_def rings_idle_def)
    have "mset xs + mset (ring_content fq') = mset (ring_content (umem_fq (kp k)))"
      unfolding t(2,3) by (rule mset_take_drop)
    then have "port_bufs (k\<lparr>kp := (kp k)\<lparr>umem_fq := fq'\<rparr>, krx := krx k + mset xs\<rparr>) = port_bufs k"
      by (simp add: port_bufs_def ac_simps)
    then show "image_mset (buf_of (spool s)) (port_bufs (k\<lparr>kp := (kp k)\<lparr>umem_fq := fq'\<rparr>, krx := krx k + mset xs\<rparr>)) =
        image_mset (buf_of (spool s)) (port_bufs k)" by simp
  qed simp
next
  case (kernel_receive i k as ds)
  note D = sys_invD[OF assms(2) kernel_receive(2,3)]
  have "cons_idle (rx_bits z) (rxq (kp k))" using D(3) by (simp add: rings_idle_def)
  note t = idle_kernel_put[OF this kernel_receive(6)]
  obtain x where x: "krx k = mset as + x" using kernel_receive(4) by (metis subset_mset.add_diff_inverse)
  show ?thesis unfolding kernel_receive(1)
  proof (rule kernel_ok[OF assms(2) kernel_receive(2,3)])
    have "length ds = length as" using kernel_receive(5) by (metis length_map)
    then show "port_ok z (k\<lparr>kp := (kp k)\<lparr>rxq := kernel_put (rxq (kp k)) ds\<rparr>, krx := krx k - mset as\<rparr>)"
      using D(2) t x by (simp add: port_ok_def rings_idle_def)
    have "image_mset (buf_of (spool s)) (image_mset desc_addr (mset ds)) = image_mset (buf_of (spool s)) (mset as)"
      using kernel_receive(5) by (metis image_mset.compositionality mset_map)
    then show "image_mset (buf_of (spool s)) (port_bufs (k\<lparr>kp := (kp k)\<lparr>rxq := kernel_put (rxq (kp k)) ds\<rparr>,
        krx := krx k - mset as\<rparr>)) = image_mset (buf_of (spool s)) (port_bufs k)"
      using t x by (simp add: port_bufs_def ac_simps)
  qed simp
next
  case (kernel_transmit i k n xs tx')
  note D = sys_invD[OF assms(2) kernel_transmit(2,3)]
  have "prod_idle (tx_bits z) (txq (kp k))" using D(3) by (simp add: rings_idle_def)
  note t = idle_kernel_take[OF this kernel_transmit(4,5)]
  show ?thesis unfolding kernel_transmit(1)
  proof (rule kernel_ok[OF assms(2) kernel_transmit(2,3)])
    show "port_ok z (k\<lparr>kp := (kp k)\<lparr>txq := tx'\<rparr>, ktx := ktx k + mset (map desc_addr xs)\<rparr>)"
      using D(2) t by (simp add: port_ok_def rings_idle_def)
    have "mset (map desc_addr xs) + mset (map desc_addr (ring_content tx')) = mset (map desc_addr (ring_content (txq (kp k))))"
      unfolding t(2,3) take_map[symmetric] drop_map[symmetric] by (rule mset_take_drop)
    then have "port_bufs (k\<lparr>kp := (kp k)\<lparr>txq := tx'\<rparr>, ktx := ktx k + mset (map desc_addr xs)\<rparr>) = port_bufs k"
      by (simp add: port_bufs_def ac_simps)
    then show "image_mset (buf_of (spool s)) (port_bufs (k\<lparr>kp := (kp k)\<lparr>txq := tx'\<rparr>, ktx := ktx k + mset (map desc_addr xs)\<rparr>)) =
        image_mset (buf_of (spool s)) (port_bufs k)" by simp
  qed simp
next
  case (kernel_complete i k as cs)
  note D = sys_invD[OF assms(2) kernel_complete(2,3)]
  have "cons_idle (cq_bits z) (umem_cq (kp k))" using D(3) by (simp add: rings_idle_def)
  note t = idle_kernel_put[OF this kernel_complete(6)]
  obtain x where x: "ktx k = mset as + x" using kernel_complete(4) by (metis subset_mset.add_diff_inverse)
  show ?thesis unfolding kernel_complete(1)
  proof (rule kernel_ok[OF assms(2) kernel_complete(2,3)])
    show "port_ok z (k\<lparr>kp := (kp k)\<lparr>umem_cq := kernel_put (umem_cq (kp k)) cs\<rparr>, ktx := ktx k - mset as\<rparr>)"
      using D(2) t by (simp add: port_ok_def rings_idle_def)
    show "image_mset (buf_of (spool s)) (port_bufs (k\<lparr>kp := (kp k)\<lparr>umem_cq := kernel_put (umem_cq (kp k)) cs\<rparr>,
        ktx := ktx k - mset as\<rparr>)) = image_mset (buf_of (spool s)) (port_bufs k)"
      using t x image_mset_eq_list[OF kernel_complete(5)] by (simp add: port_bufs_def ac_simps)
  qed simp
qed


section \<open>The emulator as it is created\<close>

text \<open>What a successful \<open>xsk_socket__create_shared\<close> provides: empty rings of the configured sizes.\<close>

definition env_ok :: "ring_sizes \<Rightarrow> port_env \<Rightarrow> bool" where
  "env_ok z env \<longleftrightarrow> port_calloc env \<and> bcache_calloc env \<and> create_status env = 0 \<and>
     (case new_rings env of (rx, tx, fq, cq) \<Rightarrow>
        cons_idle (rx_bits z) rx \<and> ring_content rx = [] \<and> prod_idle (tx_bits z) tx \<and> ring_content tx = [] \<and>
        prod_idle (fq_bits z) fq \<and> ring_content fq = [] \<and> cons_idle (cq_bits z) cq \<and> ring_content cq = [])"

definition new_port_ok :: "ring_sizes \<Rightarrow> port \<Rightarrow> bool" where
  "new_port_ok z p \<longleftrightarrow> rings_idle z p \<and> ring_content (rxq p) = [] \<and> ring_content (txq p) = [] \<and>
     ring_content (umem_cq p) = [] \<and> length (ring_content (umem_fq p)) = 2 ^ fq_bits z"

lemma bcache_init_full:
  assumes inv: "pool_inv m bp cs" and m: "unat (n_slabs_available bp) = m" "2 \<le> m"
  shows "\<exists>bp' c L. bcache_init True bp = Inr (bp', Some c) \<and> pool_inv (m - 2) bp' (cs @ [c]) \<and>
    unat (n_slabs_available bp') = m - 2 \<and> params bp' = params bp \<and> umem_cfg bp' = umem_cfg bp \<and>
    n_buffers_cons c = per_slab bp \<and> n_buffers_prod c = 0 \<and>
    size L = unat (n_buffers_per_slab (params bp)) \<and> pooled bp cs = pooled bp' (cs @ [c]) + L"
proof -
  define S where "S = unat (n_buffers_per_slab (params bp))"
  note I = pool_invD[OF inv, folded S_def]
  have S: "unat (per_slab bp) = S" by (simp add: S_def)
  obtain a where a: "m = Suc (Suc a)" using m(2) that[of "m - 2"] by simp
  have nz: "n_slabs_available bp \<noteq> 0" using m by auto
  have two: "(2 :: u64) = of_nat 2" by simp
  have u1: "unat (n_slabs_available bp - 1) = Suc a" using unat_minus_one[OF nz] m(1) a by simp
  have u2: "unat (n_slabs_available bp - 2) = a"
  proof -
    have "n_slabs_available bp - 1 \<noteq> 0" using u1 by auto
    from unat_minus_one[OF this] u1 show ?thesis by (simp add: diff_diff_eq)
  qed
  let ?p = "slabs bp ! a" and ?q = "slabs bp ! Suc a"
  let ?bp = "bp\<lparr>n_slabs_available := n_slabs_available bp - 2\<rparr>"
    and ?c = "\<lparr>slab_cons = ?q, slab_prod = ?p, n_buffers_cons = per_slab bp, n_buffers_prod = 0\<rparr>"
  have len: "Suc a < length (slabs bp)" using I(3) a by simp
  have r: "bcache_init True bp = Inr (?bp, Some ?c)"
    using nz len u1 u2 by (simp add: bcache_init_def)
  have tk: "take m (slabs bp) = take a (slabs bp) @ [?p, ?q]"
    unfolding a using len by (simp add: take_Suc_conv_app_nth)
  have ms: "mset (slab_names (m - 2) ?bp (cs @ [?c])) = mset (slab_names m bp cs)"
    by (simp add: slab_names_def tk) (simp add: a)
  have nm: "set (slab_names (m - 2) ?bp (cs @ [?c])) = set (slab_names m bp cs)"
    "distinct (slab_names (m - 2) ?bp (cs @ [?c])) = distinct (slab_names m bp cs)"
    using ms by (metis set_mset_mset, metis mset_eq_imp_distinct_iff)
  have "pool_inv (m - 2) ?bp (cs @ [?c])"
    using I nm u2 a S unfolding pool_inv_def Let_def by (auto simp: S_def[symmetric])
  moreover have "pooled bp cs = pooled ?bp (cs @ [?c]) + slab_bufs bp ?p S"
    using tk m(1) u2 S slab_bufs_cong[of ?bp bp]
    by (simp add: pooled_def cache_bufs_def S_def[symmetric] slab_bufs_def)
  moreover have "?p \<in> set (slab_names m bp cs)" by (simp add: slab_names_def tk)
  from size_slab_bufs[OF I(7)[OF this]] have "size (slab_bufs bp ?p S) = S" .
  ultimately show ?thesis using r u2 a S
    by (intro exI[of _ ?bp] exI[of _ ?c] exI[of _ "slab_bufs bp ?p S"]) (simp add: S_def)
qed

lemma port_init_full:
  assumes env: "env_ok z env" and inv: "pool_inv m bp cs" and m: "unat (n_slabs_available bp) = m" "2 \<le> m"
    and fs: "fill_size (umem_cfg bp) = n_buffers_per_slab (params bp)"
    and S: "unat (n_buffers_per_slab (params bp)) = 2 ^ fq_bits z"
  shows "\<exists>bp' p L. port_init env bp pp = Inr (bp', Some p) \<and> pool_inv (m - 2) bp' (cs @ [bc p]) \<and>
    unat (n_slabs_available bp') = m - 2 \<and> params bp' = params bp \<and> umem_cfg bp' = umem_cfg bp \<and>
    new_port_ok z p \<and> size L = 2 ^ fq_bits z \<and>
    pooled bp cs = pooled bp' (cs @ [bc p]) + mset (ring_content (umem_fq p)) + L"
proof -
  obtain rx tx fq cq where rings: "new_rings env = (rx, tx, fq, cq)" by (metis prod_cases4)
  have E: "port_calloc env" "bcache_calloc env" "create_status env = 0"
    "cons_idle (rx_bits z) rx" "ring_content rx = []" "prod_idle (tx_bits z) tx" "ring_content tx = []"
    "prod_idle (fq_bits z) fq" "ring_content fq = []" "cons_idle (cq_bits z) cq" "ring_content cq = []"
    using env rings by (auto simp: env_ok_def)
  obtain bp1 c1 L where c1: "bcache_init True bp = Inr (bp1, Some c1)" "pool_inv (m - 2) bp1 (cs @ [c1])"
    "unat (n_slabs_available bp1) = m - 2" "params bp1 = params bp" "umem_cfg bp1 = umem_cfg bp"
    "n_buffers_cons c1 = per_slab bp" "size L = 2 ^ fq_bits z" "pooled bp cs = pooled bp1 (cs @ [c1]) + L"
    using bcache_init_full[OF inv m] S by auto
  let ?n = "n_buffers_per_slab (params bp)"
  have nz: "per_slab bp \<noteq> 0"
  proof
    assume "per_slab bp = 0"
    then have "unat (per_slab bp) = 0" by simp
    with S show False by simp
  qed
  have ck: "bcache_cons_check bp1 c1 ?n = Inr (?n, bp1, c1)" using c1(6) nz by (simp add: bcache_cons_check_def)
  have "length (ring_content fq) + unat ?n \<le> 2 ^ fq_bits z" using E(9) S by simp
  from idle_reserve[OF E(8) this] obtain s f l fq1 where
    fq1: "xsk_ring_prod__reserve fq ?n = (?n, Some (consumer fq1 + of_nat s), fq1)"
    "prod_parts (fq_bits z) fq1 s (unat ?n) f l" "entries fq1 0 s = []" unfolding E(9) by blast
  have "unat ?n \<le> unat (n_buffers_cons c1)" using c1(6) by simp
  from bcache_cons_many_correct[OF c1(2) this] obtain xs c2 where
    xs: "bcache_cons_many bp1 c1 (unat ?n) = Inr (xs, c2)" "length xs = unat ?n" "pool_inv (m - 2) bp1 (cs @ [c2])"
    "pooled bp1 (cs @ [c1]) = mset xs + pooled bp1 (cs @ [c2])" by blast
  have un: "of_nat (length xs) = ?n" using xs(2) by simp
  obtain fq2 where fq2: "write_run fq1 (consumer fq1 + of_nat s) (map (\<lambda>b _. b) xs) = Inr fq2"
    "prod_idle (fq_bits z) (xsk_ring_prod__submit fq2 ?n)" "ring_content (xsk_ring_prod__submit fq2 ?n) = xs"
    using fill_submit[of "fq_bits z" fq1 s xs f l] fq1(2,3) unfolding xs(2)[symmetric] un by auto
  let ?p = "\<lparr>pparams = pp, bc = c2, rxq = rx, txq = tx, umem_fq = xsk_ring_prod__submit fq2 ?n, umem_cq = cq,
      umem_fq_initialized = True, n_pkts_rx = 0, n_pkts_tx = 0\<rparr>"
  have fs1: "bcache_slab_size bp1 = ?n" using c1(4) by (simp add: bcache_slab_size_def)
  have "port_init env bp pp = Inr (bp1, Some ?p)"
    using E(1,2,3) c1(1) fs fs1 ck fq1(1) fill_loop_run[OF xs(1)] fq2(1) rings
    by (simp add: port_init_def Let_def)
  moreover have "new_port_ok z ?p" using E fq2(2,3) xs(2) S by (simp add: new_port_ok_def rings_idle_def)
  ultimately show ?thesis using c1(3,4,5,7,8) xs(3,4) fq2(3)
    by (intro exI[of _ bp1] exI[of _ ?p] exI[of _ L]) (simp add: ac_simps)
qed

lemma init_ports_full:
  assumes "\<forall>e \<in> set es. env_ok z (fst e)" "pool_inv m bp cs" "unat (n_slabs_available bp) = m" "2 * length es \<le> m"
    "fill_size (umem_cfg bp) = n_buffers_per_slab (params bp)" "unat (n_buffers_per_slab (params bp)) = 2 ^ fq_bits z"
  shows "\<exists>bp' ps L. init_ports bp es = Inr (bp', Some ps) \<and> length ps = length es \<and>
    pool_inv (m - 2 * length es) bp' (cs @ map bc ps) \<and> params bp' = params bp \<and> (\<forall>p \<in> set ps. new_port_ok z p) \<and>
    size L = length es * 2 ^ fq_bits z \<and>
    pooled bp cs = pooled bp' (cs @ map bc ps) + (\<Sum>p \<leftarrow> ps. mset (ring_content (umem_fq p))) + L \<and>
    unat (n_slabs_available bp') = m - 2 * length es"
  using assms
proof (induction es arbitrary: m bp cs)
  case (Cons e es)
  obtain env pp where e: "e = (env, pp)" by (cases e)
  have "env_ok z env" "2 \<le> m" using Cons.prems(1,4) e by auto
  from port_init_full[OF this(1) Cons.prems(2,3) this(2) Cons.prems(5,6), of pp] obtain bp1 p L1 where
    p: "port_init env bp pp = Inr (bp1, Some p)" "pool_inv (m - 2) bp1 (cs @ [bc p])"
    "unat (n_slabs_available bp1) = m - 2" "params bp1 = params bp" "umem_cfg bp1 = umem_cfg bp"
    "new_port_ok z p" "size L1 = 2 ^ fq_bits z"
    "pooled bp cs = pooled bp1 (cs @ [bc p]) + mset (ring_content (umem_fq p)) + L1" by blast
  have "\<forall>e \<in> set es. env_ok z (fst e)" "2 * length es \<le> m - 2" using Cons.prems(1,4) by auto
  from Cons.IH[OF this(1) p(2,3) this(2)] p(4,5) Cons.prems(5,6) obtain bp' ps L where
    q: "init_ports bp1 es = Inr (bp', Some ps)" "length ps = length es"
    "pool_inv (m - 2 - 2 * length es) bp' ((cs @ [bc p]) @ map bc ps)" "params bp' = params bp1"
    "\<forall>p \<in> set ps. new_port_ok z p" "size L = length es * 2 ^ fq_bits z"
    "pooled bp1 (cs @ [bc p]) = pooled bp' ((cs @ [bc p]) @ map bc ps) + (\<Sum>p \<leftarrow> ps. mset (ring_content (umem_fq p))) + L"
    "unat (n_slabs_available bp') = m - 2 - 2 * length es"
    by auto
  show ?case using p q e
    by (intro exI[of _ bp'] exI[of _ "p # ps"] exI[of _ "L1 + L"]) (simp add: ac_simps)
qed (intro exI, auto)


text \<open>The pool and the ports as the main program creates them, before any thread runs.\<close>

definition start_system :: "bpool_env \<Rightarrow> bpool_params \<Rightarrow> xsk_umem_config \<Rightarrow> (port_env \<times> port_params) list \<Rightarrow> psys option res" where
  "start_system env ps cfg es = rbind (bpool_init env ps cfg) (\<lambda>b. case b of None \<Rightarrow> Inr None
     | Some bp \<Rightarrow> rbind (init_ports bp es) (\<lambda>(bp', q). Inr (map_option (\<lambda>ports.
         \<lparr>spool = bp', kports = map (\<lambda>p. \<lparr>kp = p, krx = {#}, ktx = {#}\<rparr>) ports, flight = {#}\<rparr>) q)))"

definition good_setup :: "ring_sizes \<Rightarrow> bpool_env \<Rightarrow> bpool_params \<Rightarrow> xsk_umem_config \<Rightarrow> (port_env \<times> port_params) list \<Rightarrow> nat \<Rightarrow> bool" where
  "good_setup z env ps cfg es ns \<longleftrightarrow> all_ok env \<and> unat (n_buffers_per_slab ps) = 2 ^ fq_bits z \<and>
     fill_size cfg = n_buffers_per_slab ps \<and> 0 < unat (buffer_size ps) \<and>
     unat (bp_n_buffers_param ps) = ns * 2 ^ fq_bits z \<and> ns * 2 ^ fq_bits z + 2 ^ fq_bits z \<le> 2 ^ 32 \<and>
     2 * length es \<le> ns \<and> (\<forall>e \<in> set es. env_ok z (fst e)) \<and>
     MAX_BURST_RX \<le> 2 ^ fq_bits z \<and> MAX_BURST_TX \<le> 2 ^ tx_bits z"

lemma fresh_pool_inv:
  assumes S: "0 < unat (n_buffers_per_slab ps)" and b: "ns * unat (n_buffers_per_slab ps) < 2 ^ 32"
  shows "pool_inv ns (fresh_pool ps cfg ns) []" "unat (n_slabs_available (fresh_pool ps cfg ns)) = ns"
    "pooled (fresh_pool ps cfg ns) [] = mset (fresh_addrs (buffer_size ps) (ns * unat (n_buffers_per_slab ps)))"
proof -
  define s where "s = unat (n_buffers_per_slab ps)"
  have ns: "ns < 2 ^ 32" using S b by (metis le_less_trans mult.right_neutral mult_le_mono2 Suc_leI One_nat_def)
  then have "ns < 2 ^ LENGTH(64)" by simp
  then show av: "unat (n_slabs_available (fresh_pool ps cfg ns)) = ns"
    by (simp only: fresh_pool_def Let_def bpool.simps unat_of_nat_below)
  have "p + s \<le> ns * s" if pin: "p \<in> (\<lambda>i. i * s) ` {0..<ns}" for p
  proof -
    obtain i where "i < ns" "p = i * s" using pin by auto
    then have "Suc i * s \<le> ns * s" by (intro mult_le_mono1) simp
    with \<open>p = i * s\<close> show ?thesis by simp
  qed
  moreover have "distinct (map (\<lambda>i. i * s) [0..<ns])" using S by (auto simp: distinct_map inj_on_def s_def)
  moreover have "ns < 2 ^ 63" using ns by simp
  ultimately show "pool_inv ns (fresh_pool ps cfg ns) []"
    using S av unfolding pool_inv_def slab_names_def Let_def
    by (auto simp: fresh_pool_def Let_def fresh_addrs_def s_def[symmetric])
  show "pooled (fresh_pool ps cfg ns) [] = mset (fresh_addrs (buffer_size ps) (ns * unat (n_buffers_per_slab ps)))"
    using av chunks_mset[of s "fresh_addrs (buffer_size ps) (ns * s)" ns]
    by (simp add: pooled_def slab_bufs_def fresh_pool_def Let_def s_def[symmetric] comp_def fresh_addrs_def)
qed

lemma fresh_addrs_bufs:
  assumes "0 < unat (buffer_size ps)" "n \<le> 2 ^ 32" "buffer_size (params bp) = buffer_size ps"
  shows "map (buf_of bp) (fresh_addrs (buffer_size ps) n) = [0..<n]"
proof -
  have "buf_of bp (of_nat i * ucast (buffer_size ps)) = i" if "i < n" for i
  proof -
    have i: "i < 2 ^ 32" using that assms(2) by simp
    have z: "unat (buffer_size ps) < 2 ^ 32" using unat_below[of "buffer_size ps"] by simp
    have "i * unat (buffer_size ps) \<le> 2 ^ 32 * unat (buffer_size ps)" using i by (intro mult_le_mono1) simp
    also have "\<dots> < 2 ^ 32 * 2 ^ 32" using z by (intro mult_strict_left_mono) simp_all
    also have "\<dots> = 2 ^ LENGTH(64)" by simp
    finally have lt: "i * unat (buffer_size ps) < 2 ^ LENGTH(64)" .
    have "(of_nat i * ucast (buffer_size ps) :: u64) = of_nat (i * unat (buffer_size ps))" by simp
    then have "unat (of_nat i * ucast (buffer_size ps) :: u64) = i * unat (buffer_size ps)"
      by (simp only: unat_of_nat_below[OF lt])
    then show ?thesis using assms(1,3) by (simp add: buf_of_def)
  qed
  then show ?thesis by (auto intro!: nth_equalityI simp: fresh_addrs_def)
qed

lemma start_ok:
  assumes "good_setup z env ps cfg es ns"
  shows "\<exists>s0 L. start_system env ps cfg es = Inr (Some s0) \<and> length (kports s0) = length es \<and>
    size L = length es * 2 ^ fq_bits z \<and> image_mset (buf_of (spool s0)) (owned s0) + L = mset [0..<ns * 2 ^ fq_bits z] \<and>
    sys_inv (ns - 2 * length es) z (image_mset (buf_of (spool s0)) (owned s0)) s0 \<and>
    (\<forall>k \<in> set (kports s0). new_port_ok z (kp k)) \<and> unat (n_slabs_available (spool s0)) = ns - 2 * length es \<and>
    buffer_size (params (spool s0)) = buffer_size ps"
proof -
  note G = assms[unfolded good_setup_def]
  let ?S = "2 ^ fq_bits z :: nat" and ?f = "fresh_pool ps cfg ns"
  have S: "unat (n_buffers_per_slab ps) = ?S" using G by blast
  have S0: "0 < unat (n_buffers_per_slab ps)" by (simp add: S)
  have lt: "ns * unat (n_buffers_per_slab ps) < 2 ^ 32" unfolding S using G
    by (meson add_lessD1 less_le_trans less_add_same_cancel1 zero_less_numeral zero_less_power)
  have init: "bpool_init env ps cfg = Inr (Some ?f)"
    by (rule bpool_init_fresh) (use G S in auto)
  note F = fresh_pool_inv[OF S0 lt, of cfg]
  have fp: "params ?f = ps\<lparr>bp_n_buffers_param := of_nat (ns * ?S)\<rparr>" "umem_cfg ?f = cfg"
    by (simp_all add: fresh_pool_def Let_def S)
  have fs: "fill_size (umem_cfg ?f) = n_buffers_per_slab (params ?f)" "unat (n_buffers_per_slab (params ?f)) = ?S"
    using G S fp by simp_all
  have es: "\<forall>e \<in> set es. env_ok z (fst e)" "2 * length es \<le> ns" using G by blast+
  obtain bp qs L where q: "init_ports ?f es = Inr (bp, Some qs)" "length qs = length es"
    "pool_inv (ns - 2 * length es) bp (map bc qs)" "params bp = params ?f" "\<forall>p \<in> set qs. new_port_ok z p"
    "size L = length es * ?S"
    "pooled ?f [] = pooled bp (map bc qs) + (\<Sum>p \<leftarrow> qs. mset (ring_content (umem_fq p))) + L"
    "unat (n_slabs_available bp) = ns - 2 * length es"
    using init_ports_full[OF es(1) F(1,2) es(2) fs] by auto
  let ?s = "\<lparr>spool = bp, kports = map (\<lambda>p. \<lparr>kp = p, krx = {#}, ktx = {#}\<rparr>) qs, flight = {#}\<rparr>"
  have start: "start_system env ps cfg es = Inr (Some ?s)" by (simp add: start_system_def init q(1))
  have cs: "caches ?s = map bc qs" by (simp add: caches_def comp_def)
  have "(\<Sum>k \<leftarrow> kports ?s. port_bufs k) = (\<Sum>p \<leftarrow> qs. mset (ring_content (umem_fq p)))"
    using q(5) by (auto simp: port_bufs_def new_port_ok_def comp_def intro!: arg_cong[of _ _ sum_list])
  then have own: "pooled ?f [] = owned ?s + L" using q(7) cs by (simp add: owned_def)
  let ?g = "image_mset (buf_of bp)"
  have "?g (mset (fresh_addrs (buffer_size ps) (ns * ?S))) = mset [0..<ns * ?S]"
  proof -
    have "ns * ?S \<le> 2 ^ 32" using lt S by simp
    moreover have "buffer_size (params bp) = buffer_size ps" using q(4) fp(1) by simp
    ultimately have "map (buf_of bp) (fresh_addrs (buffer_size ps) (ns * ?S)) = [0..<ns * ?S]"
      using G by (intro fresh_addrs_bufs) auto
    then show ?thesis by (simp only: mset_map[symmetric])
  qed
  then have all: "?g (owned ?s) + ?g L = mset [0..<ns * ?S]"
    using F(3) own S by (metis image_mset_union)
  have "size (?g (owned ?s)) + length es * ?S = ns * ?S"
    using arg_cong[OF all, of size] q(6) by (simp only: size_union size_image_mset size_mset length_upt diff_zero)
  then have "size (?g (owned ?s)) \<le> (ns - 2 * length es + length qs) * ?S"
    using es(2) q(2) by (simp add: algebra_simps diff_mult_distrib2)
  moreover have "\<forall>k \<in> set (kports ?s). port_ok z k" using q(5) by (auto simp: port_ok_def new_port_ok_def)
  ultimately have "sys_inv (ns - 2 * length es) z (?g (owned ?s)) ?s"
    using q(3,4) cs fs(2) G by (simp add: sys_inv_def)
  with start all q(2,4,5,6,8) fp(1) show ?thesis
    by (intro exI[of _ ?s] exI[of _ "?g L"]) simp
qed

lemma reachable_inv: "(psys_step z)\<^sup>*\<^sup>* s0 s \<Longrightarrow> sys_inv m z B s0 \<Longrightarrow> sys_inv m z B s"
  by (induction rule: rtranclp_induct) (auto intro: step_keeps_inv)

lemma step_ports: "psys_step z s s' \<Longrightarrow> length (kports s') = length (kports s)"
  by (induction rule: psys_step.induct) auto

lemma reachable_ports: "(psys_step z)\<^sup>*\<^sup>* s0 s \<Longrightarrow> length (kports s) = length (kports s0)"
  by (induction rule: rtranclp_induct) (auto dest: step_ports)


section \<open>A small system\<close>

definition empty_ring :: "'e \<Rightarrow> 'e xsk_ring" where
  "empty_ring e = \<lparr>cached_prod = 0, cached_cons = 32, ring_mask = 31, ring_size = 32, producer = 0, consumer = 0,
     ring = replicate 32 e, ring_flags = 0\<rparr>"

definition empty_cons_ring :: "'e \<Rightarrow> 'e xsk_ring" where
  "empty_cons_ring e = (empty_ring e)\<lparr>cached_cons := 0\<rparr>"

lemma empty_ring_idle: "prod_idle 5 (empty_ring e)" "ring_content (empty_ring e) = []"
  "cons_idle 5 (empty_cons_ring e)" "ring_content (empty_cons_ring e) = []"
proof -
  have p: "prod_parts 5 (empty_ring e) 0 0 32 0" by (simp add: prod_parts_def ring_shape_def empty_ring_def)
  then show "prod_idle 5 (empty_ring e)" by (auto simp: prod_idle_def)
  have c: "cons_parts 5 (empty_cons_ring e) 0 0 0"
    by (simp add: cons_parts_def ring_shape_def empty_ring_def empty_cons_ring_def)
  then show "cons_idle 5 (empty_cons_ring e)" by (auto simp: cons_idle_def)
  show "ring_content (empty_ring e) = []" "ring_content (empty_cons_ring e) = []"
    using prod_content[OF p] cons_content[OF c] by (simp_all add: entries_def)
qed

definition sample_sizes :: ring_sizes where
  "sample_sizes = \<lparr>rx_bits = 5, tx_bits = 5, fq_bits = 5, cq_bits = 5\<rparr>"

definition sample_env :: bpool_env where
  "sample_env = \<lparr>rlimit_ok = True, calloc_ok = True, mutex_status = 0, mmap_ok = True, umem_create = (\<lambda>_. 0)\<rparr>"

definition sample_params :: bpool_params where
  "sample_params = \<lparr>bp_n_buffers_param = 128, buffer_size = 4096, mmap_flags = 0, n_users_max = 16, n_buffers_per_slab = 32\<rparr>"

definition sample_cfg :: xsk_umem_config where
  "sample_cfg = umem_cfg_default\<lparr>fill_size := 32, comp_size := 32\<rparr>"

definition sample_port_env :: port_env where
  "sample_port_env = (let d = \<lparr>desc_addr = 0, desc_len = 0, desc_options = 0\<rparr> in
     \<lparr>port_calloc = True, bcache_calloc = True, create_status = 0,
      new_rings = (empty_cons_ring d, empty_ring d, empty_ring 0, empty_cons_ring 0)\<rparr>)"

definition sample_ports :: "(port_env \<times> port_params) list" where
  "sample_ports = [(sample_port_env, \<lparr>iface = ''nic'', iface_queue = 0, ns_index = 0\<rparr>),
     (sample_port_env, \<lparr>iface = ''vethout2'', iface_queue = 0, ns_index = 0\<rparr>)]"

lemma sample_setup: "good_setup sample_sizes sample_env sample_params sample_cfg sample_ports 4"
  by (simp add: good_setup_def sample_sizes_def sample_env_def sample_params_def sample_cfg_def umem_cfg_default_def
      sample_ports_def sample_port_env_def env_ok_def all_ok_def empty_ring_idle MAX_BURST_RX_def MAX_BURST_TX_def Let_def)


section \<open>Properties\<close>

text \<open>Creating the buffer pool and \<open>p\<close> ports succeeds, and from then on, through any
  sequence of receive and transmit bursts, dropped packets and kernel activity, every buffer is in
  exactly one place (the pool, a cache, a ring, the kernel's hands or a packet in flight), except
  for the buffers of one slab for each port: those are lost when the port is created, because
  \<open>bcache_init\<close> takes a full slab as the port's empty slab.\<close>
theorem buffers_conserved:
  assumes "good_setup z env ps cfg es ns"
  shows "\<exists>s0 L. start_system env ps cfg es = Inr (Some s0) \<and> size L = length es * 2 ^ fq_bits z \<and>
    (\<forall>s. (psys_step z)\<^sup>*\<^sup>* s0 s \<longrightarrow> image_mset (buf_of (spool s)) (owned s) + L = mset [0..<ns * 2 ^ fq_bits z])"
proof -
  obtain s0 L where s0: "start_system env ps cfg es = Inr (Some s0)" "size L = length es * 2 ^ fq_bits z"
    "image_mset (buf_of (spool s0)) (owned s0) + L = mset [0..<ns * 2 ^ fq_bits z]"
    "sys_inv (ns - 2 * length es) z (image_mset (buf_of (spool s0)) (owned s0)) s0"
    using start_ok[OF assms] by blast
  have "image_mset (buf_of (spool s)) (owned s) + L = mset [0..<ns * 2 ^ fq_bits z]"
    if "(psys_step z)\<^sup>*\<^sup>* s0 s" for s
  proof -
    have "image_mset (buf_of (spool s)) (owned s) = image_mset (buf_of (spool s0)) (owned s0)"
      using reachable_inv[OF that s0(4)] by (simp only: sys_inv_def)
    then show ?thesis by (simp only: s0(3))
  qed
  with s0(1,2) show ?thesis by blast
qed

theorem buffers_conserved_witness:
  "\<exists>s0 L. start_system sample_env sample_params sample_cfg sample_ports = Inr (Some s0) \<and>
    size L = length sample_ports * 2 ^ fq_bits sample_sizes \<and>
    (\<forall>s. (psys_step sample_sizes)\<^sup>*\<^sup>* s0 s \<longrightarrow>
      image_mset (buf_of (spool s)) (owned s) + L = mset [0..<4 * 2 ^ fq_bits sample_sizes])"
  by (rule buffers_conserved[OF sample_setup])

text \<open>Property C10: in every state the emulator can reach, a receive burst ends at once without a fault
  (the fill ring always has room for the replacement buffers), a transmit burst never faults and
  waits only while the transmit ring lacks room, and the buffer of a dropped packet can always be
  put back: the producer slab that is taken for it is really empty.\<close>
theorem bursts_never_fault:
  assumes "good_setup z env ps cfg es ns" "start_system env ps cfg es = Inr (Some s0)" "(psys_step z)\<^sup>*\<^sup>* s0 s"
    and "i < length es" "k = kports s ! i"
  shows "(\<exists>pkts bp' p'. port_rx_burst (spool s) (kp k) ks = Some (Inr (pkts, bp', p', []))) \<and>
    (\<forall>b js. length b \<le> MAX_BURST_TX \<and> mset (map fst b) \<subseteq># flight s \<longrightarrow>
      (if port_tx_burst_collector (spool s) (kp k) b js = None
       then 2 ^ tx_bits z + sum_list js < length (ring_content (txq (kp k))) + length b
       else \<exists>r. port_tx_burst_collector (spool s) (kp k) b js = Some (Inr r))) \<and>
    (\<forall>a. a \<in># flight s \<longrightarrow> (\<exists>r. bcache_prod (spool s) (bc (kp k)) a = Inr r))"
proof -
  obtain m B where inv0: "sys_inv m z B s0" "length (kports s0) = length es"
    using start_ok[OF assms(1)] assms(2) by auto
  have inv: "sys_inv m z B s" and i: "i < length (kports s)"
    using reachable_inv[OF assms(3) inv0(1)] reachable_ports[OF assms(3)] inv0(2) assms(4) by simp_all
  note D = sys_invD[OF inv i assms(5)]
  have few: "size (pooled (spool s) (take i (caches s) @ bc (kp k) # drop (Suc i) (caches s))) +
      length (ring_content (umem_cq (kp k))) \<le> Suc m * unat (n_buffers_per_slab (params (spool s)))"
    using sys_room_port[OF inv i assms(5)] D(7) by simp
  have tx: "if port_tx_burst_collector (spool s) (kp k) b js = None
       then 2 ^ tx_bits z + sum_list js < length (ring_content (txq (kp k))) + length b
       else \<exists>r. port_tx_burst_collector (spool s) (kp k) b js = Some (Inr r)"
    if "length b \<le> MAX_BURST_TX" for b js
  proof -
    have "length b \<le> 2 ^ tx_bits z" using that D(6) by simp
    from port_tx_burst_spec[OF D(1,3) few this, of js] show ?thesis by (elim disjE conjE exE) simp_all
  qed
  show ?thesis using receive_ok[OF inv i assms(5), of ks] discard_ok[OF inv i assms(5)] tx by blast
qed

theorem bursts_never_fault_witness:
  "\<exists>s0. start_system sample_env sample_params sample_cfg sample_ports = Inr (Some s0) \<and>
    (\<exists>pkts bp' p'. port_rx_burst (spool s0) (kp (kports s0 ! 1)) [] = Some (Inr (pkts, bp', p', [])))"
proof -
  obtain s0 where s0: "start_system sample_env sample_params sample_cfg sample_ports = Inr (Some s0)"
    using start_ok[OF sample_setup] by blast
  have "1 < length sample_ports" by (simp add: sample_ports_def)
  from bursts_never_fault[OF sample_setup s0 rtranclp.rtrancl_refl this refl, of "[]"] s0 show ?thesis by blast
qed

text \<open>A receive burst delivers the oldest packets of the receive ring, at most
  \<open>MAX_BURST_RX\<close>, in order, and replaces their buffers, one for one, by buffers of the pool
  behind what the fill ring already held. It delivers none only when none is waiting, or when
  cache and pool are empty.\<close>
theorem rx_burst_correct:
  assumes "pool_inv m bp (as @ bc p # bs)" "rings_idle z p"
    and "length (ring_content (umem_fq p)) + length (ring_content (rxq p)) \<le> 2 ^ fq_bits z"
    and "MAX_BURST_RX \<le> unat (n_buffers_per_slab (params bp))"
  shows "\<exists>pkts bp' p' xs. port_rx_burst bp p ks = Some (Inr (pkts, bp', p', [])) \<and> length pkts \<le> MAX_BURST_RX \<and>
    pkts = map (\<lambda>d. (desc_addr d, desc_len d)) (take (length pkts) (ring_content (rxq p))) \<and>
    ring_content (rxq p') = drop (length pkts) (ring_content (rxq p)) \<and>
    length xs = length pkts \<and> ring_content (umem_fq p') = ring_content (umem_fq p) @ xs \<and>
    pool_inv m bp' (as @ bc p' # bs) \<and> pooled bp (as @ bc p # bs) = mset xs + pooled bp' (as @ bc p' # bs) \<and>
    (pkts = [] \<longrightarrow> ring_content (rxq p) = [] \<or> n_buffers_cons (bc p) = 0 \<and> n_slabs_available bp = 0)"
  using port_rx_burst_spec[OF assms, of ks] by (elim exE conjE) (rule exI, rule exI, rule exI, rule exI, (rule conjI, assumption)+, assumption)

theorem rx_burst_correct_witness:
  "\<exists>bp p as bs. (\<exists>pkts bp' p'. port_rx_burst bp p [] = Some (Inr (pkts, bp', p', [])) \<and>
    pkts = map (\<lambda>d. (desc_addr d, desc_len d)) (take (length pkts) (ring_content (rxq p))) \<and>
    pool_inv 0 bp' (as @ bc p' # bs))"
proof -
  obtain s0 where s0: "start_system sample_env sample_params sample_cfg sample_ports = Inr (Some s0)"
    "length (kports s0) = length sample_ports" "sys_inv 0 sample_sizes (image_mset (buf_of (spool s0)) (owned s0)) s0"
    using start_ok[OF sample_setup] by (auto simp: sample_ports_def)
  have i: "0 < length (kports s0)" using s0(2) by (simp add: sample_ports_def)
  note D = sys_invD[OF s0(3) i refl]
  have "length (ring_content (umem_fq (kp (kports s0 ! 0)))) + length (ring_content (rxq (kp (kports s0 ! 0)))) \<le> 2 ^ fq_bits sample_sizes"
    using D(2) by (simp add: port_ok_def)
  from rx_burst_correct[OF D(1,3) this D(5), of "[]"] show ?thesis by blast
qed

text \<open>A transmit burst appends the given packets, in order, to the transmit ring once the
  kernel has made room (and waits otherwise), and returns the buffers the kernel has completed to
  the pool (at least one, if there is one and the configured batch size is not 0).\<close>
theorem tx_burst_correct:
  assumes "pool_inv m bp (as @ bc p # bs)" "rings_idle z p"
    and "size (pooled bp (as @ bc p # bs)) + length (ring_content (umem_cq p)) \<le> Suc m * unat (n_buffers_per_slab (params bp))"
    and "length b \<le> 2 ^ tx_bits z"
  shows "if port_tx_burst_collector bp p b ks = None
    then \<not> length (ring_content (txq p)) + length b \<le> 2 ^ tx_bits z + sum_list ks
    else \<exists>bp' p' ys ds cmpl. port_tx_burst_collector bp p b ks = Some (Inr (bp', p', ys)) \<and>
      ring_content (txq p) @ ds = ys @ ring_content (txq p') \<and> map (\<lambda>d. (desc_addr d, desc_len d)) ds = b \<and>
      ring_content (umem_cq p) = cmpl @ ring_content (umem_cq p') \<and>
      pool_inv m bp' (as @ bc p' # bs) \<and> pooled bp' (as @ bc p' # bs) = mset cmpl + pooled bp (as @ bc p # bs) \<and>
      (cmpl = [] \<longrightarrow> comp_size (umem_cfg bp) = 0 \<or> ring_content (umem_cq p) = [])"
  using port_tx_burst_spec[OF assms, of ks] by (elim disjE exE conjE) (simp_all, blast)

theorem tx_burst_correct_witness:
  "\<exists>bp p. (\<exists>bp' p' ys ds. port_tx_burst_collector bp p [(4096, 60)] [] = Some (Inr (bp', p', ys)) \<and>
    ring_content (txq p) @ ds = ys @ ring_content (txq p') \<and> map (\<lambda>d. (desc_addr d, desc_len d)) ds = [(4096, 60)])"
proof -
  obtain s0 where s0: "start_system sample_env sample_params sample_cfg sample_ports = Inr (Some s0)"
    "length (kports s0) = length sample_ports" "sys_inv 0 sample_sizes (image_mset (buf_of (spool s0)) (owned s0)) s0"
    "\<forall>k \<in> set (kports s0). new_port_ok sample_sizes (kp k)"
    using start_ok[OF sample_setup] by (auto simp: sample_ports_def)
  have i: "0 < length (kports s0)" using s0(2) by (simp add: sample_ports_def)
  have e: "ring_content (txq (kp (kports s0 ! 0))) = []" using s0(4) i by (auto simp: new_port_ok_def)
  let ?p = "kp (kports s0 ! 0)"
  note D = sys_invD[OF s0(3) i refl]
  have few: "size (pooled (spool s0) (take 0 (caches s0) @ bc ?p # drop (Suc 0) (caches s0))) +
      length (ring_content (umem_cq ?p)) \<le> Suc 0 * unat (n_buffers_per_slab (params (spool s0)))"
    using sys_room_port[OF s0(3) i refl] D(7) by simp
  have "length [(4096 :: u64, 60 :: u32)] \<le> 2 ^ tx_bits sample_sizes" by (simp add: sample_sizes_def)
  from tx_burst_correct[OF D(1,3) few this, of "[]"] have
    "\<exists>bp' p' ys ds. port_tx_burst_collector (spool s0) ?p [(4096, 60)] [] = Some (Inr (bp', p', ys)) \<and>
      ring_content (txq ?p) @ ds = ys @ ring_content (txq p') \<and> map (\<lambda>d. (desc_addr d, desc_len d)) ds = [(4096, 60)]"
    unfolding e by (simp add: sample_sizes_def split: if_splits) blast
  then show ?thesis by - (rule exI, rule exI, assumption)
qed


text \<open>When a port cannot be created (no memory, no slabs left, slabs smaller than the fill
  ring, or no socket) the pool is left as it was: the error paths give back the slabs they took.\<close>
theorem port_init_fails_cleanly:
  assumes "unat (n_slabs_available bp) \<noteq> 1" "unat (n_slabs_available bp) \<le> length (slabs bp)"
    and "n_buffers_per_slab (params bp) \<noteq> 0"
    and "\<not> port_calloc env \<or> \<not> bcache_calloc env \<or> n_slabs_available bp = 0 \<or>
      bcache_slab_size bp < fill_size (umem_cfg bp) \<or> create_status env \<noteq> 0"
  shows "port_init env bp ps = Inr (bp, None)"
proof (cases "port_calloc env \<and> bcache_calloc env \<and> n_slabs_available bp \<noteq> 0")
  case False
  then show ?thesis by (auto simp: port_init_def bcache_init_def port_free_def bcache_free_def Let_def)
next
  case True
  have nz: "n_slabs_available bp \<noteq> 0" using True by simp
  have u1: "unat (n_slabs_available bp - 1) < length (slabs bp)"
    using unat_minus_one[OF nz] assms(2) unat_gt_0[THEN iffD2, OF nz] by linarith
  have "n_slabs_available bp - 1 \<noteq> 0" using assms(1) by auto
  from unat_minus_one[OF this] u1 have u2: "unat (n_slabs_available bp - 2) < length (slabs bp)"
    by (simp add: diff_diff_eq)
  let ?bp = "bp\<lparr>n_slabs_available := n_slabs_available bp - 2\<rparr>"
  let ?c = "\<lparr>slab_cons = slabs bp ! unat (n_slabs_available bp - 1), slab_prod = slabs bp ! unat (n_slabs_available bp - 2),
      n_buffers_cons = per_slab bp, n_buffers_prod = 0\<rparr>"
  have i: "bcache_init True bp = Inr (?bp, Some ?c)" using nz u1 u2 by (simp add: bcache_init_def)
  have f: "port_free ?bp (Some (Some ?c)) = bp" by (simp add: port_free_def bcache_free_def)
  have "unat (per_slab bp) = unat (n_buffers_per_slab (params bp))" by simp
  then have "per_slab bp \<noteq> 0" using assms(3) by (metis unat_0 unat_eq_zero)
  moreover have "\<not> per_slab bp < ucast n" if "\<not> n_buffers_per_slab (params bp) < n" for n :: u32
    using that by (simp add: word_less_nat_alt)
  ultimately have k: "bcache_cons_check ?bp ?c n = Inr (n, ?bp, ?c)" if "\<not> n_buffers_per_slab (params bp) < n" for n
    using that by (simp add: bcache_cons_check_def)
  show ?thesis
  proof (cases "bcache_slab_size bp < fill_size (umem_cfg bp)")
    case T: True
    then show ?thesis using True i f by (simp add: port_init_def bcache_slab_size_def)
  next
    case F: False
    then have "create_status env \<noteq> 0" using assms(4) True by blast
    then show ?thesis using True i f F k[of "fill_size (umem_cfg bp)"]
      by (simp add: port_init_def bcache_slab_size_def)
  qed
qed


theorem port_init_fails_cleanly_witness:
  "port_init (sample_port_env\<lparr>create_status := -1\<rparr>) (fresh_pool sample_params sample_cfg 4)
     \<lparr>iface = ''nic'', iface_queue = 0, ns_index = 0\<rparr> = Inr (fresh_pool sample_params sample_cfg 4, None)"
  by (rule port_init_fails_cleanly) (simp_all add: fresh_pool_def sample_params_def Let_def)

text \<open>With exactly one slab left, \<open>bcache_init\<close> does not refuse: it reads the slab table at
  index -1 and \<open>n_slabs_available\<close> underflows.\<close>
theorem port_init_last_slab:
  assumes "n_slabs_available bp = 1" "port_calloc env" "bcache_calloc env" "length (slabs bp) < 2 ^ 63"
  shows "port_init env bp ps = Inl Out_Of_Bounds"
proof -
  have "unat (1 - 2 :: u64) = 2 ^ 64 - 1" by (simp add: unsigned_minus_1_eq_mask mask_eq_exp_minus_1)
  then have "\<not> unat (1 - 2 :: u64) < length (slabs bp)" using assms(4) by simp
  then have "bcache_init True bp = Inl Out_Of_Bounds"
    using assms(1) by (cases "arr_get (slabs bp) 0") (auto simp: bcache_init_def arr_get_def split: if_splits)
  then show ?thesis using assms(2,3) by (simp add: port_init_def)
qed

theorem port_init_last_slab_witness:
  "port_init sample_port_env (fresh_pool sample_params sample_cfg 1) \<lparr>iface = ''nic'', iface_queue = 0, ns_index = 0\<rparr> =
     Inl Out_Of_Bounds"
  by (rule port_init_last_slab) (simp_all add: fresh_pool_def Let_def sample_port_env_def)

text \<open>\<open>bpool_init\<close> creates every buffer once, each in a slab, all slabs available; the
  area registered with the kernel covers all of them exactly if the total size is below
  \<open>2 ^ 32\<close>, since that size is computed in 32 bits (the mapped size is not).\<close>
theorem bpool_init_correct:
  assumes "all_ok env" "0 < unat (n_buffers_per_slab ps)" "0 < unat (buffer_size ps)" "0 < ns"
    and n: "unat (bp_n_buffers_param ps) = ns * unat (n_buffers_per_slab ps)"
    and small: "unat (bp_n_buffers_param ps) + unat (n_buffers_per_slab ps) \<le> 2 ^ 32"
  shows "\<exists>bp. bpool_init env ps cfg = Inr (Some bp) \<and> pool_inv ns bp [] \<and> unat (n_slabs_available bp) = ns \<and>
    image_mset (buf_of bp) (pooled bp []) = mset [0..<unat (bp_n_buffers_param ps)] \<and>
    ((\<forall>a \<in># pooled bp []. unat a + unat (buffer_size ps) \<le> unat (umem_size bp)) \<longleftrightarrow>
      unat (bp_n_buffers_param ps) * unat (buffer_size ps) < 2 ^ 32)"
proof -
  let ?f = "fresh_pool ps cfg ns" and ?n = "unat (bp_n_buffers_param ps)" and ?b = "unat (buffer_size ps)"
  have init: "bpool_init env ps cfg = Inr (Some ?f)" by (rule bpool_init_fresh[OF assms(1,2) n small])
  have lt: "ns * unat (n_buffers_per_slab ps) < 2 ^ 32" using n small assms(2) by linarith
  note F = fresh_pool_inv[OF assms(2) lt, of cfg]
  have n0: "0 < ?n" using n assms(2,4) by simp
  have bufs: "map (buf_of ?f) (fresh_addrs (buffer_size ps) ?n) = [0..<?n]"
    by (rule fresh_addrs_bufs) (use assms(3) lt n in \<open>simp_all add: fresh_pool_def Let_def\<close>)
  have pooled: "pooled ?f [] = mset (fresh_addrs (buffer_size ps) ?n)" using F(3) n by simp
  have us: "unat (umem_size ?f) = (?n * ?b) mod 2 ^ 32"
  proof -
    have "umem_size ?f = ucast (of_nat (?n * ?b) :: u32)"
      by (simp add: fresh_pool_def Let_def n)
    then show ?thesis by (simp add: unat_word_ariths)
  qed
  have ua: "unat (of_nat i * ucast (buffer_size ps) :: u64) = i * ?b" if "i < ?n" for i
  proof -
    have "i * ?b \<le> ?n * ?b" using that by simp
    also have "\<dots> \<le> 2 ^ 32 * ?b" using lt n by (intro mult_le_mono1) simp
    also have "\<dots> < 2 ^ 32 * 2 ^ 32" using unat_below[of "buffer_size ps"] by (intro mult_strict_left_mono) simp_all
    also have "\<dots> = 2 ^ LENGTH(64)" by simp
    finally have "i * ?b < 2 ^ LENGTH(64)" .
    moreover have "(of_nat i * ucast (buffer_size ps) :: u64) = of_nat (i * ?b)" by simp
    ultimately show ?thesis by (simp only: unat_of_nat_below)
  qed
  have "(\<forall>a \<in># pooled ?f []. unat a + ?b \<le> unat (umem_size ?f)) \<longleftrightarrow> (\<forall>i < ?n. i * ?b + ?b \<le> (?n * ?b) mod 2 ^ 32)"
    using ua by (auto simp: pooled us fresh_addrs_def simp del: of_nat_mult)
  also have "\<dots> \<longleftrightarrow> ?n * ?b < 2 ^ 32"
  proof
    assume all: "\<forall>i < ?n. i * ?b + ?b \<le> (?n * ?b) mod 2 ^ 32"
    have "(?n - 1) * ?b + ?b = ?n * ?b" using n0 by (simp add: diff_mult_distrib)
    moreover have "(?n - 1) * ?b + ?b \<le> (?n * ?b) mod 2 ^ 32" using all n0 by simp
    moreover have "(?n * ?b) mod 2 ^ 32 < 2 ^ 32" by simp
    ultimately show "?n * ?b < 2 ^ 32" by linarith
  next
    assume small: "?n * ?b < 2 ^ 32"
    have "Suc i * ?b \<le> ?n * ?b" if "i < ?n" for i using that by (intro mult_le_mono1) simp
    then show "\<forall>i < ?n. i * ?b + ?b \<le> (?n * ?b) mod 2 ^ 32" using small by (simp add: add.commute)
  qed
  finally have area: "(\<forall>a \<in># pooled ?f []. unat a + ?b \<le> unat (umem_size ?f)) \<longleftrightarrow> ?n * ?b < 2 ^ 32" .
  have "image_mset (buf_of ?f) (pooled ?f []) = mset [0..<?n]" unfolding pooled by (simp only: mset_map[symmetric] bufs)
  with init F(1,2) area show ?thesis by blast
qed

theorem bpool_init_correct_witness:
  "\<exists>bp. bpool_init sample_env bpool_params_default umem_cfg_default = Inr (Some bp) \<and>
     (\<forall>a \<in># pooled bp []. unat a + 4096 \<le> unat (umem_size bp))"
proof -
  have "all_ok sample_env" by (simp add: all_ok_def sample_env_def)
  from bpool_init_correct[OF this, of bpool_params_default 32 umem_cfg_default]
  show ?thesis by (auto simp: bpool_params_default_def)
qed

end
