(* ===== verification/Inet.thy ===== *)
theory Inet
  imports Prelude "HOL-Library.Char_ord"
begin

text \<open>
  The C library's conversions between numbers, dotted addresses and strings the emulator uses:
  \<open>%d\<close> of \<open>snprintf\<close>, \<open>strtoul\<close> with base 0, \<open>inet_aton\<close>; and the emulator's way of turning a
  destination address into the address its tables are keyed by (\<open>opera-v2/thread_functions_1.h\<close>).
\<close>

section \<open>Decimal numbers\<close>

definition digit_char :: "nat \<Rightarrow> char" where
  "digit_char d = char_of (48 + d)"

definition char_digit :: "char \<Rightarrow> nat option" where
  "char_digit c = (let n = of_char c :: nat in
     if 48 \<le> n \<and> n \<le> 57 then Some (n - 48)
     else if 97 \<le> n \<and> n \<le> 102 then Some (n - 87)
     else if 65 \<le> n \<and> n \<le> 70 then Some (n - 55) else None)"

definition isdigit :: "char \<Rightarrow> bool" where
  "isdigit c = (48 \<le> (of_char c :: nat) \<and> (of_char c :: nat) \<le> 57)"

fun dec_string :: "nat \<Rightarrow> string" where
  "dec_string n = (if n < 10 then [digit_char n] else dec_string (n div 10) @ [digit_char (n mod 10)])"

declare dec_string.simps [simp del]

text \<open>The longest prefix of digits below the base, and what follows it.\<close>

fun read_digits :: "nat \<Rightarrow> nat \<Rightarrow> string \<Rightarrow> nat \<times> string" where
  "read_digits b acc [] = (acc, [])"
| "read_digits b acc (c # cs) = (case char_digit c of
     None \<Rightarrow> (acc, c # cs)
   | Some d \<Rightarrow> if d < b then read_digits b (acc * b + d) cs else (acc, c # cs))"

text \<open>\<open>strtoul(s, &end, 0)\<close> of a string that starts with a digit, without the range error.\<close>

definition is_hex_prefix :: "string \<Rightarrow> bool" where
  "is_hex_prefix s = (case s of c0 # x # d # _ \<Rightarrow> c0 = CHR ''0'' \<and> (x = CHR ''x'' \<or> x = CHR ''X'') \<and> char_digit d \<noteq> None
     | _ \<Rightarrow> False)"

definition strtoul0 :: "string \<Rightarrow> nat \<times> string" where
  "strtoul0 s = (if is_hex_prefix s then read_digits 16 0 (drop 2 s)
     else if s \<noteq> [] \<and> hd s = CHR ''0'' then read_digits 8 0 s
     else read_digits 10 0 s)"

section \<open>Addresses\<close>

text \<open>
  \<open>inet_aton\<close>: up to four parts separated by dots; the parts before the last are bytes, the last
  one fills the remaining bytes. \<open>bs\<close> are the bytes read so far. The result is the
  address in network byte order, read as a word of the machine; \<open>None\<close> is the result 0.
\<close>

definition isspace :: "char \<Rightarrow> bool" where
  "isspace c = (let n = of_char c :: nat in n = 32 \<or> (9 \<le> n \<and> n \<le> 13))"

definition aton_finish :: "nat list \<Rightarrow> nat \<Rightarrow> u32 option" where
  "aton_finish bs v =
     (if v < 256 ^ (4 - length bs) then
        (let ws = map (of_nat :: nat \<Rightarrow> u8) (bs @ map (\<lambda>i. v div 256 ^ (3 - length bs - i)) [0..<4 - length bs])
         in Some (word32_of_bytes (ws ! 0) (ws ! 1) (ws ! 2) (ws ! 3)))
      else None)"

fun aton_parts :: "nat \<Rightarrow> nat list \<Rightarrow> string \<Rightarrow> u32 option" where
  "aton_parts 0 bs s = None"
| "aton_parts (Suc k) bs s =
     (if s = [] \<or> \<not> isdigit (hd s) then None
      else (case strtoul0 s of (v, rest) \<Rightarrow>
        if 2 ^ 32 \<le> v then None
        else if rest \<noteq> [] \<and> hd rest = CHR ''.'' then
          (if 3 \<le> length bs \<or> 255 < v then None else aton_parts k (bs @ [v]) (tl rest))
        else if rest \<noteq> [] \<and> \<not> isspace (hd rest) then None
        else aton_finish bs v))"

definition inet_aton :: "string \<Rightarrow> u32 option" where
  "inet_aton s = aton_parts 4 [] s"

text \<open>\<open>snprintf(dest_char, 16, "%d.%d.%d.%d", ...)\<close> of four bytes.\<close>

definition dotted :: "u8 \<Rightarrow> u8 \<Rightarrow> u8 \<Rightarrow> u8 \<Rightarrow> string" where
  "dotted a b c d = take 15 (dec_string (unat a) @ ''.'' @ dec_string (unat b) @ ''.'' @ dec_string (unat c) @ ''.'' @ dec_string (unat d))"

text \<open>
  The key of a destination: its address with the last byte replaced by 1, by way of its
  dotted string. If \<open>inet_aton\<close> refused the string, the address would be indeterminate.
\<close>

definition prefix_host :: "u32 \<Rightarrow> u32 res" where
  "prefix_host daddr = (case inet_aton (dotted (ucast (daddr AND 0xFF)) (ucast (drop_bit 8 daddr AND 0xFF))
       (ucast (drop_bit 16 daddr AND 0xFF)) 1) of
     None \<Rightarrow> Inl Uninitialised | Some w \<Rightarrow> Inr w)"

section \<open>Reading back what was printed\<close>

lemma of_char_digit [simp]: "d < 10 \<Longrightarrow> of_char (digit_char d) = (48 + d :: nat)"
  by (simp add: digit_char_def)

lemma char_digit_digit [simp]: "d < 10 \<Longrightarrow> char_digit (digit_char d) = Some d"
  by (simp add: char_digit_def Let_def)

lemma isdigit_digit [simp]: "d < 10 \<Longrightarrow> isdigit (digit_char d)"
  by (simp add: isdigit_def)

definition stops :: "nat \<Rightarrow> string \<Rightarrow> bool" where
  "stops b s \<longleftrightarrow> s = [] \<or> (case char_digit (hd s) of None \<Rightarrow> True | Some d \<Rightarrow> b \<le> d)"

lemma read_digits_stop: "stops b s \<Longrightarrow> read_digits b acc s = (acc, s)"
  by (cases s) (auto simp: stops_def split: option.splits)

lemma read_digits_dec:
  "stops 10 rest \<Longrightarrow> read_digits 10 acc (dec_string n @ rest) = (acc * 10 ^ length (dec_string n) + n, rest)"
proof (induction n arbitrary: acc rest rule: dec_string.induct)
  case (1 n)
  show ?case
  proof (cases "n < 10")
    case True
    then show ?thesis using read_digits_stop[OF 1(2)] by (simp add: dec_string.simps[of n])
  next
    case False
    have "stops 10 (digit_char (n mod 10) # rest) \<or> True" by simp
    have split: "read_digits 10 a (dec_string (n div 10) @ digit_char (n mod 10) # rest) =
        read_digits 10 (a * 10 ^ length (dec_string (n div 10)) + n div 10) (digit_char (n mod 10) # rest)" for a
    proof -
      have gen: "read_digits 10 a (xs @ ys) = (case read_digits 10 a xs of (v, r) \<Rightarrow>
          if r = [] then read_digits 10 v ys else (v, r @ ys))" for a xs ys
        by (induction xs arbitrary: a) (auto split: option.splits)
      have "stops 10 []" by (simp add: stops_def)
      with 1(1)[OF False] have "read_digits 10 a (dec_string (n div 10) @ []) =
          (a * 10 ^ length (dec_string (n div 10)) + n div 10, [])" by blast
      then show ?thesis using gen[of a "dec_string (n div 10)"] by simp
    qed
    then show ?thesis using False read_digits_stop[OF 1(2)]
      by (simp add: dec_string.simps[of n] algebra_simps)
  qed
qed

lemma dec_string_hd: "\<exists>d cs. dec_string n = digit_char d # cs \<and> d < 10 \<and> (d = 0 \<longrightarrow> n = 0 \<and> cs = [])"
proof (induction n rule: dec_string.induct)
  case (1 n)
  show ?case
  proof (cases "n < 10")
    case True
    then show ?thesis by (intro exI[of _ n] exI[of _ "[]"]) (simp add: dec_string.simps[of n])
  next
    case False
    with 1 obtain d cs where "dec_string (n div 10) = digit_char d # cs" "d < 10" "d = 0 \<longrightarrow> n div 10 = 0 \<and> cs = []" by blast
    then show ?thesis using False by (subst dec_string.simps) auto
  qed
qed

lemma char_48: "char_of (48 :: nat) = CHR ''0''"
proof -
  have "(of_char CHR ''0'' :: nat) = 48" by simp
  then show ?thesis by (metis char_of_char)
qed

lemma digit_char_0: "d < 10 \<Longrightarrow> digit_char d = CHR ''0'' \<longleftrightarrow> d = 0"
proof
  assume "d < 10" "digit_char d = CHR ''0''"
  then have "(of_char (digit_char d) :: nat) = of_char CHR ''0''" by simp
  then show "d = 0" using \<open>d < 10\<close> by (simp del: of_char_eq_iff)
qed (simp add: digit_char_def char_48)

lemma strtoul0_dec:
  assumes "stops 10 rest" "rest = [] \<or> hd rest = CHR ''.'' \<or> isspace (hd rest)"
  shows "strtoul0 (dec_string n @ rest) = (n, rest)"
proof -
  obtain d cs where d: "dec_string n = digit_char d # cs" "d < 10" "d = 0 \<longrightarrow> n = 0 \<and> cs = []"
    using dec_string_hd by blast
  show ?thesis
  proof (cases "d = 0")
    case False
    then have "digit_char d \<noteq> CHR ''0''" using digit_char_0[OF d(2)] by simp
    then have "\<not> is_hex_prefix (dec_string n @ rest)" "hd (dec_string n @ rest) \<noteq> CHR ''0''"
      using d(1) by (auto simp: is_hex_prefix_def split: list.splits)
    then show ?thesis using read_digits_dec[OF assms(1), of 0 n] by (simp add: strtoul0_def)
  next
    case True
    then have s: "dec_string n @ rest = CHR ''0'' # rest" "n = 0"
      using d digit_char_0[OF d(2)] by auto
    have "\<not> is_hex_prefix (CHR ''0'' # rest)"
      using assms(2) by (auto simp: is_hex_prefix_def isspace_def split: list.splits)
    moreover have "char_digit CHR ''0'' = Some 0" by (simp add: char_digit_def)
    moreover have "stops 8 rest" using assms by (auto simp: stops_def char_digit_def isspace_def Let_def)
    ultimately have "strtoul0 (CHR ''0'' # rest) = (0, rest)" by (simp add: strtoul0_def read_digits_stop)
    with s show ?thesis by metis
  qed
qed

lemma dec_string_byte_length: "length (dec_string (unat (b :: u8))) \<le> 3"
proof -
  have "unat b < 256" using unat_below[of b] by simp
  moreover have "length (dec_string n) \<le> 3" if "n < 256" for n
    using that by (subst dec_string.simps, simp, subst dec_string.simps, simp, subst dec_string.simps, simp)
  ultimately show ?thesis by blast
qed

lemma dotted_all: "dotted a b c d = dec_string (unat a) @ ''.'' @ dec_string (unat b) @ ''.'' @
    dec_string (unat c) @ ''.'' @ dec_string (unat d)"
  using dec_string_byte_length[of a] dec_string_byte_length[of b] dec_string_byte_length[of c]
    dec_string_byte_length[of d]
  unfolding dotted_def by (intro take_all) simp

lemma stops_dot: "stops 10 (CHR ''.'' # s)" by (simp add: stops_def char_digit_def)

lemma aton_step:
  assumes "length bs < 3"
  shows "aton_parts (Suc k) bs (dec_string (unat (b :: u8)) @ CHR ''.'' # s) = aton_parts k (bs @ [unat b]) s"
proof -
  obtain d cs where "dec_string (unat b) = digit_char d # cs" "d < 10" using dec_string_hd by blast
  moreover have "strtoul0 (dec_string (unat b) @ CHR ''.'' # s) = (unat b, CHR ''.'' # s)"
    by (rule strtoul0_dec) (simp_all add: stops_dot)
  moreover have "unat b < 256" using unat_below[of b] by simp
  ultimately show ?thesis using assms by simp
qed

text \<open>The last part may be followed by a blank.\<close>

definition blank_tail :: "string \<Rightarrow> bool" where
  "blank_tail s \<longleftrightarrow> s = [] \<or> isspace (hd s)"

lemma aton_last:
  assumes "length bs = 3" "blank_tail t"
  shows "aton_parts (Suc k) bs (dec_string (unat (b :: u8)) @ t) = aton_finish bs (unat b)"
proof -
  obtain d cs where "dec_string (unat b) = digit_char d # cs" "d < 10" using dec_string_hd by blast
  moreover have "stops 10 t" using assms(2) by (auto simp: stops_def blank_tail_def char_digit_def isspace_def Let_def)
  then have "strtoul0 (dec_string (unat b) @ t) = (unat b, t)"
    by (rule strtoul0_dec) (use assms(2) in \<open>auto simp: blank_tail_def\<close>)
  moreover have "unat b < 256" using unat_below[of b] by simp
  moreover have "\<not> (t \<noteq> [] \<and> hd t = CHR ''.'')" using assms(2) by (auto simp: blank_tail_def isspace_def)
  ultimately show ?thesis using assms by (auto simp: blank_tail_def)
qed

lemma inet_aton_dotted_tail:
  assumes "blank_tail t"
  shows "inet_aton (dotted a b c d @ t) = Some (word32_of_bytes a b c d)"
proof -
  have "inet_aton (dotted a b c d @ t) = aton_parts 1 [unat a, unat b, unat c] (dec_string (unat d) @ t)"
    unfolding inet_aton_def dotted_all by (simp add: numeral_eq_Suc aton_step del: aton_parts.simps)
  also have "\<dots> = aton_finish [unat a, unat b, unat c] (unat d)"
    using aton_last[of "[unat a, unat b, unat c]" t 0 d] assms by (simp del: aton_parts.simps)
  finally show ?thesis using unat_below[of d] by (simp add: aton_finish_def)
qed

lemma inet_aton_dotted: "inet_aton (dotted a b c d) = Some (word32_of_bytes a b c d)"
  using inet_aton_dotted_tail[of "[]"] by (simp add: blank_tail_def)

lemma byte_ucast: "ucast (drop_bit (8 * i) (w :: u32) AND 0xFF) = byte_of i w"
proof -
  have m: "(0xFF :: u32) = mask 8" by (simp add: mask_eq_exp_minus_1)
  show ?thesis unfolding m by (auto intro!: bit_word_eqI simp: byte_of_def bit_simps)
qed

lemma prefix_host_eq:
  "prefix_host daddr = Inr (word32_of_bytes (byte_of 0 daddr) (byte_of 1 daddr) (byte_of 2 daddr) 1)"
  using byte_ucast[of 0 daddr] byte_ucast[of 1 daddr] byte_ucast[of 2 daddr]
  by (simp add: prefix_host_def inet_aton_dotted)

text \<open>Every address is read back by \<open>inet_aton\<close> from the dotted string the code prints it
  as (which fits the 16-byte buffer), so that the table key of a destination is its address
  with the last byte replaced by 1.\<close>
theorem dotted_roundtrip:
  "inet_aton (dotted a b c d) = Some (word32_of_bytes a b c d) \<and> length (dotted a b c d) < 16 \<and>
   prefix_host w = Inr (word32_of_bytes (byte_of 0 w) (byte_of 1 w) (byte_of 2 w) 1)"
  by (simp add: inet_aton_dotted prefix_host_eq) (simp add: dotted_def)

end
