(* ===== verification/Packet.thy ===== *)
theory Packet
  imports Route_Matrix Mg_Map Port Inet
begin

text \<open>
  What the emulator does to a packet (\<open>opera-v2/thread_functions_1.h\<close>): finding the queue of a
  packet from a namespace or from the network, encapsulating a packet for the path of the
  current time slot, redirecting a packet in transit, and removing the encapsulation. The
  packet buffer area is one byte object \<open>m\<close>; a pointer \<open>data\<close> into it is an offset.
\<close>

section \<open>Copying bytes\<close>

text \<open>
  \<open>memcpy\<close> of \<open>n\<close> bytes inside one object. For overlapping regions the C standard leaves the
  result open; what the platform's implementation leaves in memory is the parameter \<open>ov\<close>.
\<close>

definition copy_bytes :: "u8 list \<Rightarrow> nat \<Rightarrow> nat \<Rightarrow> nat \<Rightarrow> u8 list" where
  "copy_bytes m d s n = take d m @ take n (drop s m) @ drop (d + n) m"

type_synonym overlap = "u8 list \<Rightarrow> nat \<Rightarrow> nat \<Rightarrow> nat \<Rightarrow> u8 list"

definition c_memcpy :: "overlap \<Rightarrow> u8 list \<Rightarrow> nat \<Rightarrow> nat \<Rightarrow> nat \<Rightarrow> u8 list res" where
  "c_memcpy ov m d s n = guard_res Out_Of_Bounds (d + n \<le> length m \<and> s + n \<le> length m)
     (Inr (if d + n \<le> s \<or> s + n \<le> d then copy_bytes m d s n else ov m d s n))"

definition ether_addr_copy_assignment :: "u8 list \<Rightarrow> nat \<Rightarrow> u8 list \<Rightarrow> nat \<Rightarrow> u8 list res" where
  "ether_addr_copy_assignment m dst obj src =
     rbind (load16 obj src) (\<lambda>w0. rbind (store16 m dst w0) (\<lambda>m0.
     rbind (load16 obj (src + 2)) (\<lambda>w1. rbind (store16 m0 (dst + 2) w1) (\<lambda>m1.
     rbind (load16 obj (src + 4)) (\<lambda>w2. store16 m1 (dst + 4) w2)))))"

section \<open>The emulator's tables\<close>

record net =
  nic_iface :: string
  src_ip :: u32
  out_eth_src :: "u8 list"
  ip_table :: mg_Map
  mac_table :: mg_Map
  route_table :: "route_matrix option"
  topo :: u8

text \<open>The telemetry arrays of \<open>structures.h\<close> that the packet functions write.\<close>

definition TELEMETRY_SIZE :: int where "TELEMETRY_SIZE = 30000000"

record telemetry =
  seq :: "int \<Rightarrow> u32"
  src_port :: "int \<Rightarrow> u16"

definition OUTER_VETH_PREFIX :: string where "OUTER_VETH_PREFIX = ''vethout''"

definition prefix :: "string \<Rightarrow> string \<Rightarrow> bool" where
  "prefix pre str \<longleftrightarrow> take (length pre) str = pre"

text \<open>Constants of the kernel headers, in host byte order.\<close>

definition ETH_IP :: u16 where "ETH_IP = 0x0800"
definition ETH_P_TEB :: u16 where "ETH_P_TEB = 0x6558"
definition PROTO_GRE :: u8 where "PROTO_GRE = 47"
definition PROTO_TCP :: u8 where "PROTO_TCP = 6"

text \<open>Arithmetic on \<open>int\<close>: leaving the range is undefined.\<close>

definition c_int :: "int \<Rightarrow> int res" where
  "c_int x = guard_res Signed_Overflow (- (2 ^ 31) \<le> x \<and> x < 2 ^ 31) (Inr x)"

text \<open>The index of a destination: \<open>((struct ip_set *) mg_map_get(&ip_table, key))->index\<close>.\<close>

definition ip_set_index :: "net \<Rightarrow> u32 \<Rightarrow> int res" where
  "ip_set_index net key = rbind (mg_map_get (Some (ip_table net)) key) (\<lambda>r.
     case r of None \<Rightarrow> Inl Null_Deref
     | Some off \<Rightarrow> (case mdat (ip_table net) of None \<Rightarrow> Inl Null_Deref
         | Some d \<Rightarrow> rbind (load32 d (unat off)) (\<lambda>w. Inr (sint w))))"

text \<open>The next hop for a destination in the current slot, and its MAC address, copied to \<open>dst\<close>.\<close>

definition next_mac_index :: "net \<Rightarrow> int \<Rightarrow> int res" where
  "next_mac_index net dest_index = rbind (c_int (dest_index + 1)) (\<lambda>destindex.
     rbind (getRouteElement (route_table net) destindex (uint (topo net)) True) (\<lambda>(_, v).
       case v of None \<Rightarrow> Inl Uninitialised | Some i \<Rightarrow> Inr i))"

definition copy_mac :: "net \<Rightarrow> int \<Rightarrow> u8 list \<Rightarrow> nat \<Rightarrow> u8 list res" where
  "copy_mac net mac_index m dst = rbind (mg_map_get (Some (mac_table net)) (word_of_int mac_index)) (\<lambda>r.
     case r of None \<Rightarrow> Inl Null_Deref
     | Some off \<Rightarrow> (case mdat (mac_table net) of None \<Rightarrow> Inl Null_Deref
         | Some d \<Rightarrow> ether_addr_copy_assignment m dst d (unat off)))"

section \<open>Packets from a namespace\<close>

definition get_destination_queue_index :: "net \<Rightarrow> u8 list \<Rightarrow> nat \<Rightarrow> string \<Rightarrow> int res" where
  "get_destination_queue_index net m data ifc =
     (if prefix OUTER_VETH_PREFIX ifc then
        rbind (load32 m (data + 30)) (\<lambda>daddr. rbind (prefix_host daddr) (\<lambda>key.
        rbind (ip_set_index net key) (\<lambda>i. c_int (i - 1))))
      else Inl Uninitialised)"

definition encap_veth :: "overlap \<Rightarrow> net \<Rightarrow> telemetry \<Rightarrow> int \<Rightarrow> u8 list \<Rightarrow> nat \<Rightarrow> u32 \<Rightarrow> u64 \<Rightarrow> int \<Rightarrow>
    (u8 list \<times> telemetry \<times> int) res" where
  "encap_veth ov net tel dest_index m data len addr debug_index =
     rbind (load8 m (data + 23)) (\<lambda>proto0.
     rbind (if proto0 \<noteq> PROTO_TCP then Inr tel
       else rbind (load32 m (data + 38)) (\<lambda>s. rbind (load16 m (data + 34)) (\<lambda>p.
         guard_res Out_Of_Bounds (0 \<le> debug_index \<and> debug_index < TELEMETRY_SIZE)
           (Inr (tel\<lparr>seq := (seq tel)(debug_index := ntohl s),
             src_port := (src_port tel)(debug_index := htons p)\<rparr>))))) (\<lambda>tel1.
     let olen = 14 + 6 :: int;
         encap_size = 14 + 20 + 6 :: nat;
         new_addr = addr + of_nat encap_size;
         new_len = sint (len + of_nat encap_size);
         new_data = xsk_umem__get_data (xsk_umem__add_offset_to_addr new_addr) in
     rbind (c_memcpy ov m new_data data (unat len)) (\<lambda>m1.
     rbind (next_mac_index net dest_index) (\<lambda>mac_index.
     rbind (copy_mac net mac_index m1 data) (\<lambda>m2.
     rbind (store16 m2 (data + 12) (htons ETH_IP)) (\<lambda>m3.
     rbind (c_memcpy ov m3 (data + 14) (data + 14) 20) (\<lambda>m4.
     rbind (load32 m4 (data + 30)) (\<lambda>daddr. rbind (prefix_host daddr) (\<lambda>key.
     rbind (store8 m4 (data + 23) PROTO_GRE) (\<lambda>m5.
     rbind (load16 m5 (data + 16)) (\<lambda>tot.
     rbind (store16 m5 (data + 16) (htons (word_of_int (olen + uint (htons tot))))) (\<lambda>m6.
     rbind (store32 m6 (data + 30) key) (\<lambda>m7.
     rbind (store16 m7 (data + 36) (htons ETH_P_TEB)) (\<lambda>m8.
     rbind (store16 m8 (data + 38) 0) (\<lambda>m9.
     Inr (m9, tel1, new_len))))))))))))))))"

section \<open>Packets from the network\<close>

record return_process_rx =
  new_len :: int
  ring_buf_index :: int
  which_veth :: int

text \<open>
  The result record of the caller is passed and returned; a packet that is not one of ours
  leaves it as it is. The copy length is a signed number converted to an unsigned one.
\<close>

definition get_queue_index_for_nic_rx :: "overlap \<Rightarrow> net \<Rightarrow> u8 list \<Rightarrow> nat \<Rightarrow> string \<Rightarrow> u32 \<Rightarrow> u64 \<Rightarrow> return_process_rx \<Rightarrow>
    (u8 list \<times> return_process_rx) res" where
  "get_queue_index_for_nic_rx ov net m data ifc len addr rv =
     (if ifc \<noteq> nic_iface net then Inr (m, rv)
      else rbind (load16 m (data + 12)) (\<lambda>h_proto.
        if htons h_proto \<noteq> ETH_IP then Inr (m, rv)
        else rbind (load8 m (data + 23)) (\<lambda>protocol.
        if protocol \<noteq> PROTO_GRE then Inr (m, rv)
        else rbind (load16 m (data + 36)) (\<lambda>gre_proto.
        if htons gre_proto \<noteq> ETH_P_TEB then Inr (m, rv)
        else rbind (load16 m (data + 52)) (\<lambda>inner_proto.
        if htons inner_proto \<noteq> ETH_IP then Inr (m, rv)
        else rbind (load32 m (data + 30)) (\<lambda>outer_daddr.
        rbind (load32 m (data + 70)) (\<lambda>daddr.
        if src_ip net \<noteq> outer_daddr then
          rbind (prefix_host daddr) (\<lambda>key. rbind (ip_set_index net key) (\<lambda>i. rbind (c_int (i - 1)) (\<lambda>q.
            Inr (m, rv\<lparr>ring_buf_index := q, new_len := 1\<rparr>))))
        else
          (let fourthoctec = sint (byte_of 3 daddr);
               cutoff_len = 40 :: nat;
               nl = sint (len - of_nat cutoff_len);
               inner_eth_start_addr = addr + of_nat cutoff_len in
           rbind (c_memcpy ov m (xsk_umem__get_data addr) (xsk_umem__get_data inner_eth_start_addr)
               (nat (nl mod 2 ^ 64))) (\<lambda>m1.
             Inr (m1, rv\<lparr>which_veth := fourthoctec - 2, new_len := nl\<rparr>))))))))))"

text \<open>The destination of a packet in transit changes at every hop; the payload does not.\<close>

definition encap_indirection :: "net \<Rightarrow> int \<Rightarrow> u8 list \<Rightarrow> nat \<Rightarrow> u8 list res" where
  "encap_indirection net dest_index m data =
     rbind (next_mac_index net dest_index) (\<lambda>mac_index.
     rbind (load16 m (data + 38)) (\<lambda>hops.
     rbind (store16 m (data + 38) (hops + 1)) (\<lambda>m1.
     rbind (load32 m1 (data + 70)) (\<lambda>daddr. rbind (prefix_host daddr) (\<lambda>key.
     rbind (copy_mac net mac_index m1 data) (\<lambda>m2.
     rbind (ether_addr_copy_assignment m2 (data + 6) (out_eth_src net) 0) (\<lambda>m3.
     store32 m3 (data + 30) key)))))))"


section \<open>Regions of the buffer area\<close>

definition slice :: "u8 list \<Rightarrow> nat \<Rightarrow> nat \<Rightarrow> u8 list" where
  "slice m a n = take n (drop a m)"

definition splice :: "u8 list \<Rightarrow> nat \<Rightarrow> u8 list \<Rightarrow> u8 list" where
  "splice m a bs = take a m @ bs @ drop (a + length bs) m"

named_theorems region_simps \<open>regions of a byte object\<close>

lemma length_slice [simp]: "a + n \<le> length m \<Longrightarrow> length (slice m a n) = n"
  by (simp add: slice_def)

lemma nth_slice [simp]: "i < n \<Longrightarrow> a + n \<le> length m \<Longrightarrow> slice m a n ! i = m ! (a + i)"
  by (simp add: slice_def)

lemma length_splice [simp]: "a + length bs \<le> length m \<Longrightarrow> length (splice m a bs) = length m"
  by (simp add: splice_def)

lemma nth_splice: "a + length bs \<le> length m \<Longrightarrow> i < length bs \<Longrightarrow> splice m a bs ! (a + i) = bs ! i"
  by (simp add: splice_def nth_append)

lemma nth_splice_outside: "a + length bs \<le> length m \<Longrightarrow> i < a \<or> a + length bs \<le> i \<Longrightarrow> splice m a bs ! i = m ! i"
  by (auto simp: splice_def nth_append)

lemma splice_slice [simp]: "a + n \<le> length m \<Longrightarrow> splice m a (slice m a n) = m"
  using append_take_drop_id[of n "drop a m"] by (simp add: splice_def slice_def add.commute)

lemma slice_splice [simp]: "a + length bs \<le> length m \<Longrightarrow> slice (splice m a bs) a (length bs) = bs"
  by (simp add: splice_def slice_def)

lemma splice_splice [simp]: "a + length bs \<le> length m \<Longrightarrow> length cs = length bs \<Longrightarrow> splice (splice m a bs) a cs = splice m a cs"
  by (simp add: splice_def)

lemma splice_update: "a + length bs \<le> length m \<Longrightarrow> i < length bs \<Longrightarrow> (splice m a bs)[a + i := x] = splice m a (bs[i := x])"
  by (simp add: splice_def list_update_append)

lemma copy_bytes_splice:
  "s + n \<le> length m \<Longrightarrow> copy_bytes m d s n = splice m d (slice m s n)"
  by (simp add: copy_bytes_def splice_def slice_def)

text \<open>Accesses inside a region are accesses to its bytes.\<close>

lemma region_load8 [region_simps]:
  "a + length bs \<le> length m \<Longrightarrow> i < length bs \<Longrightarrow> load8 (splice m a bs) (a + i) = load8 bs i"
  by (simp add: nth_splice)

lemma region_load16 [region_simps]:
  "a + length bs \<le> length m \<Longrightarrow> i + 1 < length bs \<Longrightarrow> load16 (splice m a bs) (a + i) = load16 bs i"
  using nth_splice[of a bs m i] nth_splice[of a bs m "Suc i"] by simp

lemma region_load32 [region_simps]:
  "a + length bs \<le> length m \<Longrightarrow> i + 3 < length bs \<Longrightarrow> load32 (splice m a bs) (a + i) = load32 bs i"
  using nth_splice[of a bs m i] nth_splice[of a bs m "Suc i"] nth_splice[of a bs m "i + 2"] nth_splice[of a bs m "i + 3"]
  by (simp add: add.assoc)

definition upd16 :: "u8 list \<Rightarrow> nat \<Rightarrow> u16 \<Rightarrow> u8 list" where
  "upd16 bs i w = bs[i := byte_of 0 w, Suc i := byte_of 1 w]"

definition upd32 :: "u8 list \<Rightarrow> nat \<Rightarrow> u32 \<Rightarrow> u8 list" where
  "upd32 bs i w = bs[i := byte_of 0 w, Suc i := byte_of 1 w, i + 2 := byte_of 2 w, i + 3 := byte_of 3 w]"

lemma length_upd [simp]: "length (upd16 bs i w) = length bs" "length (upd32 bs i v) = length bs"
  by (simp_all add: upd16_def upd32_def)

lemma region_store8 [region_simps]:
  "a + length bs \<le> length m \<Longrightarrow> i < length bs \<Longrightarrow> store8 (splice m a bs) (a + i) x = Inr (splice m a (bs[i := x]))"
  by (simp add: splice_update)

lemma region_store16 [region_simps]:
  "a + length bs \<le> length m \<Longrightarrow> i + 1 < length bs \<Longrightarrow> store16 (splice m a bs) (a + i) w = Inr (splice m a (upd16 bs i w))"
  using splice_update[of a "bs[i := byte_of 0 w]" m "Suc i" "byte_of 1 w"] by (simp add: splice_update upd16_def)

lemma region_store32 [region_simps]:
  "a + length bs \<le> length m \<Longrightarrow> i + 3 < length bs \<Longrightarrow> store32 (splice m a bs) (a + i) w = Inr (splice m a (upd32 bs i w))"
  using splice_update[of a "bs[i := byte_of 0 w]" m "Suc i" "byte_of 1 w"]
    splice_update[of a "bs[i := byte_of 0 w, Suc i := byte_of 1 w]" m "i + 2" "byte_of 2 w"]
    splice_update[of a "bs[i := byte_of 0 w, Suc i := byte_of 1 w, i + 2 := byte_of 2 w]" m "i + 3" "byte_of 3 w"]
  by (simp add: splice_update upd32_def add.assoc)

text \<open>The copy of a hardware address, as an update of a region.\<close>

lemma region_copy_ether [region_simps]:
  assumes "a + length bs \<le> length m" "i + 5 < length bs" "src + 5 < length obj"
  shows "ether_addr_copy_assignment (splice m a bs) (a + i) obj src =
    Inr (splice m a (take i bs @ slice obj src 6 @ drop (i + 6) bs))"
proof -
  define w where "w k = word16_of_bytes (obj ! (src + k)) (obj ! (src + Suc k))" for k
  have l: "load16 obj (src + k) = Inr (w k)" if "k < 5" for k
    using assms(3) that by (simp add: w_def)
  have l0: "load16 obj src = Inr (w 0)" using l[of 0] by simp
  have "ether_addr_copy_assignment (splice m a bs) (a + i) obj src =
      Inr (splice m a (upd16 (upd16 (upd16 bs i (w 0)) (i + 2) (w 2)) (i + 4) (w 4)))"
    using assms(1,2) l[of 2] l[of 4] l0 region_store16[of a bs m i "w 0"]
      region_store16[of a "upd16 bs i (w 0)" m "i + 2" "w 2"]
      region_store16[of a "upd16 (upd16 bs i (w 0)) (i + 2) (w 2)" m "i + 4" "w 4"]
    by (simp add: ether_addr_copy_assignment_def add.assoc del: store16_in)
  also have "upd16 (upd16 (upd16 bs i (w 0)) (i + 2) (w 2)) (i + 4) (w 4) = take i bs @ slice obj src 6 @ drop (i + 6) bs"
  proof (rule nth_equalityI)
    fix k assume k: "k < length (upd16 (upd16 (upd16 bs i (w 0)) (i + 2) (w 2)) (i + 4) (w 4))"
    consider "k < i" | "k = i" | "k = i + 1" | "k = i + 2" | "k = i + 3" | "k = i + 4" | "k = i + 5" | "i + 6 \<le> k"
      by linarith
    then show "upd16 (upd16 (upd16 bs i (w 0)) (i + 2) (w 2)) (i + 4) (w 4) ! k =
        (take i bs @ slice obj src 6 @ drop (i + 6) bs) ! k"
      using k assms(2,3)
      by cases (auto simp: upd16_def nth_append nth_list_update w_def min_def)
  qed (use assms in simp)
  finally show ?thesis .
qed


section \<open>The tables as lookups\<close>

text \<open>The hardware address of the next hop in the current slot, where the tables have one.\<close>

definition next_mac :: "net \<Rightarrow> int \<Rightarrow> u8 list option" where
  "next_mac net i = (case next_mac_index net i of Inl _ \<Rightarrow> None
     | Inr k \<Rightarrow> (case mg_look (mac_table net) (word_of_int k) of None \<Rightarrow> None
         | Some v \<Rightarrow> if length v < 6 then None else Some (take 6 v)))"

lemma next_macD:
  assumes "next_mac net i = Some mac"
  shows "length mac = 6" "\<exists>k. next_mac_index net i = Inr k \<and> (\<forall>m a bs j. a + length bs \<le> length m \<longrightarrow> j + 5 < length bs \<longrightarrow>
    copy_mac net k (splice m a bs) (a + j) = Inr (splice m a (take j bs @ mac @ drop (j + 6) bs)))"
proof -
  obtain k off where k: "next_mac_index net i = Inr k"
    "mg_map_get (Some (mac_table net)) (word_of_int k) = Inr (Some off)"
    "mac = take 6 (value_at (mac_table net) off)" "\<not> length (value_at (mac_table net) off) < 6"
    using assms by (auto simp: next_mac_def mg_look_def split: sum.splits option.splits if_splits)
  obtain d where d: "mdat (mac_table net) = Some d"
    using k(2) by (cases "mdat (mac_table net)") (auto simp: mg_map_get_def)
  have len: "unat off + 5 < length d" and mac: "mac = slice d (unat off) 6"
    using k(3,4) d by (auto simp: value_at_def slice_def min_def split: if_splits)
  show "length mac = 6" using len by (simp add: mac)
  show "\<exists>k. next_mac_index net i = Inr k \<and> (\<forall>m a bs j. a + length bs \<le> length m \<longrightarrow> j + 5 < length bs \<longrightarrow>
    copy_mac net k (splice m a bs) (a + j) = Inr (splice m a (take j bs @ mac @ drop (j + 6) bs)))"
    using k(1,2) d len by (intro exI[of _ k]) (simp add: copy_mac_def region_copy_ether mac)
qed

text \<open>The queue of a destination, where the table has one.\<close>

definition dest_queue :: "net \<Rightarrow> u32 \<Rightarrow> int option" where
  "dest_queue net key = (case mg_look (ip_table net) key of None \<Rightarrow> None
     | Some v \<Rightarrow> if length v < 4 then None else
        (let i = sint (word32_of_bytes (v ! 0) (v ! 1) (v ! 2) (v ! 3)) in if i = - (2 ^ 31) then None else Some (i - 1)))"

lemma dest_queueD:
  assumes "dest_queue net key = Some q"
  shows "rbind (ip_set_index net key) (\<lambda>i. c_int (i - 1)) = Inr q"
proof -
  obtain off where off: "mg_map_get (Some (ip_table net)) key = Inr (Some off)"
    "\<not> length (value_at (ip_table net) off) < 4"
    "(let v = value_at (ip_table net) off; i = sint (word32_of_bytes (v ! 0) (v ! 1) (v ! 2) (v ! 3)) in i \<noteq> - (2 ^ 31) \<and> q = i - 1)"
    using assms by (auto simp: dest_queue_def mg_look_def Let_def split: option.splits if_splits sum.splits)
  obtain d where d: "mdat (ip_table net) = Some d"
    using off(1) by (cases "mdat (ip_table net)") (auto simp: mg_map_get_def)
  define w where "w = word32_of_bytes (d ! unat off) (d ! (unat off + 1)) (d ! (unat off + 2)) (d ! (unat off + 3))"
  have v: "value_at (ip_table net) off ! j = d ! (unat off + j)" if "j < 4" for j
    using off(2) d that by (auto simp: value_at_def)
  have q: "sint w \<noteq> - (2 ^ 31)" "q = sint w - 1"
    using off(3) v[of 0] v[of 1] v[of 2] v[of 3] by (simp_all add: Let_def w_def)
  have "unat off + 3 < length d" using off(2) d by (auto simp: value_at_def)
  then have "ip_set_index net key = Inr (sint w)" using off(1) d by (simp add: ip_set_index_def w_def)
  moreover have "- (2 ^ 31) \<le> sint w" "sint w < 2 ^ 31" using sint_greater_eq[of w] sint_less[of w] by simp_all
  then have "c_int (sint w - 1) = Inr (sint w - 1)" using q(1) by (simp add: c_int_def)
  ultimately show ?thesis by (simp add: q(2))
qed

section \<open>Encapsulation\<close>

definition be16 :: "u16 \<Rightarrow> u8 list" where
  "be16 w = [byte_of 1 w, byte_of 0 w]"

definition network_host :: "u32 \<Rightarrow> u32" where
  "network_host daddr = word32_of_bytes (byte_of 0 daddr) (byte_of 1 daddr) (byte_of 2 daddr) 1"

text \<open>
  The outer headers, from the first 40 bytes \<open>h\<close> of the packet: Ethernet with the next hop's
  address, IP with the protocol, length and destination changed, GRE with a hop count of 0.
  The source hardware address, the remaining IP fields and the GRE flags keep whatever the
  packet had there.
\<close>

definition encap_header :: "u8 list \<Rightarrow> u8 list \<Rightarrow> u8 list" where
  "encap_header h mac =
     mac @ slice h 6 6 @ be16 ETH_IP @ slice h 14 2 @ be16 (word16_of_bytes (h ! 17) (h ! 16) + 20) @
     slice h 18 5 @ [PROTO_GRE] @ slice h 24 6 @
     bytes_of32 (network_host (word32_of_bytes (h ! 30) (h ! 31) (h ! 32) (h ! 33))) @
     slice h 34 2 @ be16 ETH_P_TEB @ [0, 0]"

lemma less_40_cases: "k < (40 :: nat) \<Longrightarrow> k \<in> {0, 1, 2, 3, 4, 5, 6, 7, 8, 9, 10, 11, 12, 13, 14, 15, 16, 17, 18, 19, 20, 21, 22,
    23, 24, 25, 26, 27, 28, 29, 30, 31, 32, 33, 34, 35, 36, 37, 38, 39}"
  by (simp only: insert_iff empty_iff) arith

lemma length_encap_header: "length h = 40 \<Longrightarrow> length mac = 6 \<Longrightarrow> length (encap_header h mac) = 40"
  by (simp add: encap_header_def be16_def bytes_of32_def)

text \<open>The header writes, one after another, build that header.\<close>

lemma encap_writes:
  fixes h p mac :: "u8 list"
  assumes h: "length h = 40" and mac: "length mac = 6"
  defines "b1 \<equiv> upd16 (mac @ drop 6 (h @ p)) 12 (htons ETH_IP)"
  defines "tot \<equiv> word16_of_bytes (h ! 16) (h ! 17)"
  shows "upd16 (upd16 (upd32 (upd16 (b1[23 := PROTO_GRE]) 16 (htons (word_of_int (20 + uint (htons tot))))) 30
      (network_host (word32_of_bytes (h ! 30) (h ! 31) (h ! 32) (h ! 33)))) 36 (htons ETH_P_TEB)) 38 0 = encap_header h mac @ p"
proof -
  have t: "(word_of_int (20 + uint (htons tot)) :: u16) = word16_of_bytes (h ! 17) (h ! 16) + 20"
    by (simp add: tot_def htons_def)
  show ?thesis unfolding b1_def t
  proof (rule nth_equalityI)
    fix k assume "k < length (upd16 (upd16 (upd32 (upd16 ((upd16 (mac @ drop 6 (h @ p)) 12 (htons ETH_IP))[23 := PROTO_GRE]) 16
      (htons (word16_of_bytes (h ! 17) (h ! 16) + 20))) 30 (network_host (word32_of_bytes (h ! 30) (h ! 31) (h ! 32) (h ! 33))))
      36 (htons ETH_P_TEB)) 38 0)"
    show "upd16 (upd16 (upd32 (upd16 ((upd16 (mac @ drop 6 (h @ p)) 12 (htons ETH_IP))[23 := PROTO_GRE]) 16
      (htons (word16_of_bytes (h ! 17) (h ! 16) + 20))) 30 (network_host (word32_of_bytes (h ! 30) (h ! 31) (h ! 32) (h ! 33))))
      36 (htons ETH_P_TEB)) 38 0 ! k = (encap_header h mac @ p) ! k"
    proof (cases "k < 40")
      case True
      from less_40_cases[OF this] h mac show ?thesis
        apply (simp only: insert_iff empty_iff)
        apply (elim disjE FalseE)
        apply (simp_all add: upd16_def upd32_def encap_header_def be16_def bytes_of32_def nth_append nth_list_update)
        done
    next
      case False
      then show ?thesis using h mac length_encap_header[OF h mac]
        by (auto simp: upd16_def upd32_def nth_append)
    qed
  qed (use h mac length_encap_header[OF h mac] in simp)
qed


lemma add_offset_small: "unat x < 2 ^ 48 \<Longrightarrow> xsk_umem__add_offset_to_addr x = x"
proof -
  assume s: "unat x < 2 ^ 48"
  have "x AND (2 ^ 48 - 1) = take_bit 48 x" by (simp add: take_bit_eq_mask mask_eq_exp_minus_1)
  also have "take_bit 48 x = x" using s by (intro word_unat_eq_iff[THEN iffD2]) (simp add: unsigned_take_bit_eq take_bit_nat_eq_self)
  finally have "xsk_umem__extract_addr x = x" by (simp add: xsk_umem__extract_addr_def)
  moreover have "unat (drop_bit 48 x) = 0" using s by (simp add: unat_drop_bit_div)
  then have "xsk_umem__extract_offset x = 0" by (simp add: xsk_umem__extract_offset_def unat_eq_zero)
  ultimately show ?thesis by (simp add: xsk_umem__add_offset_to_addr_def)
qed

lemma memcpy_region:
  assumes "d + n \<le> length m" "s + n \<le> length m"
  shows "c_memcpy copy_bytes m d s n = Inr (splice m d (slice m s n))"
  using assms by (simp add: c_memcpy_def copy_bytes_splice)

lemma memcpy_self: "d + n \<le> length m \<Longrightarrow> c_memcpy copy_bytes m d d n = Inr m"
  by (simp add: memcpy_region)

lemma sint_small:
  assumes "unat (w :: u32) < 2 ^ 31"
  shows "sint w = int (unat w)"
proof -
  have "int (unat w) < int (2 ^ 31)" using assms by (simp only: of_nat_less_iff)
  then have "uint w < 2 ^ 31" by simp
  moreover have "- (2 ^ 31) \<le> uint w" by (rule order_trans[of _ 0]) simp_all
  ultimately have "signed_take_bit 31 (uint w) = uint w" by (intro signed_take_bit_int_eq_self) simp_all
  then show ?thesis by (simp add: sint_uint)
qed

text \<open>Telemetry records the sequence number and source port of TCP packets.\<close>

definition encap_log :: "telemetry \<Rightarrow> u8 list \<Rightarrow> int \<Rightarrow> telemetry" where
  "encap_log tel h i = (if h ! 23 = PROTO_TCP
     then tel\<lparr>seq := (seq tel)(i := word32_of_bytes (h ! 41) (h ! 40) (h ! 39) (h ! 38)),
       src_port := (src_port tel)(i := word16_of_bytes (h ! 35) (h ! 34))\<rparr> else tel)"

lemma encap_veth_run:
  assumes mac: "next_mac net i = Some mac" and a: "a = unat addr" "a + 40 + unat len < 2 ^ 31"
    and m: "a + 40 + unat len \<le> length m" "a + 42 \<le> length m"
    and dbg: "m ! (a + 23) = PROTO_TCP \<longrightarrow> 0 \<le> dbg \<and> dbg < TELEMETRY_SIZE"
  shows "encap_veth copy_bytes net tel i m a len addr dbg =
    Inr (splice m a (encap_header (slice m a 40) mac @ slice m a (unat len)), encap_log tel (slice m a 42) dbg,
      int (unat len) + 40)"
proof -
  let ?h = "slice m a 40" and ?p = "slice m a (unat len)"
  have h: "length ?h = 40" and p: "length ?p = unat len" using m by simp_all
  obtain k where k: "next_mac_index net i = Inr k"
    and cm: "\<And>m a bs j. a + length bs \<le> length m \<Longrightarrow> j + 5 < length bs \<Longrightarrow>
      copy_mac net k (splice m a bs) (a + j) = Inr (splice m a (take j bs @ mac @ drop (j + 6) bs))"
    using next_macD(2)[OF mac] by blast
  note ml = next_macD(1)[OF mac]
  have hl: "a + 40 + unat len \<le> length m" by fact
  have ua: "unat (addr + 40) = a + 40" using unat_add_below[of addr 40] a by simp
  have "a + 40 < 2 ^ 48" using a(2) by simp
  then have na: "xsk_umem__get_data (xsk_umem__add_offset_to_addr (addr + 40)) = a + 40"
    by (simp add: add_offset_small ua xsk_umem__get_data_def)
  have ul: "unat (len + 40) = unat len + 40" using unat_add_below[of len 40] a(2) by simp
  have nl: "sint (len + 40) = int (unat len) + 40" using sint_small[of "len + 40"] a(2) ul by simp
  have copied: "c_memcpy copy_bytes m (a + 40) a (unat len) = Inr (splice m a (?h @ ?p))"
  proof -
    have "splice m (a + 40) ?p = splice m a (?h @ ?p)" 
      using m by (auto simp: splice_def slice_def min_def take_add add.assoc)
    then show ?thesis using m by (simp add: memcpy_region)
  qed
  let ?b0 = "?h @ ?p"
  have lb0: "a + length ?b0 \<le> length m" "length ?b0 = 40 + unat len" using h p m by simp_all
  define b1 where "b1 = upd16 (mac @ drop 6 ?b0) 12 (htons ETH_IP)"
  have lb1: "length b1 = 40 + unat len" using lb0 ml by (simp add: b1_def)
  have w1: "copy_mac net k (splice m a ?b0) a = Inr (splice m a (mac @ drop 6 ?b0))"
    using cm[of a ?b0 m 0] lb0 by simp
  have w2: "store16 (splice m a (mac @ drop 6 ?b0)) (a + 12) (htons ETH_IP) = Inr (splice m a b1)"
    using region_store16[of a "mac @ drop 6 ?b0" m 12 "htons ETH_IP"] lb0 ml by (simp add: b1_def del: store16_in)
  have w3: "c_memcpy copy_bytes (splice m a b1) (a + 14) (a + 14) 20 = Inr (splice m a b1)"
    using m lb1 by (intro memcpy_self) simp
  have b1n: "b1 ! j = ?h ! j" if "14 \<le> j" "j < 40" for j
    using that ml h p lb0 by (auto simp: b1_def upd16_def nth_append)
  have d: "load32 (splice m a b1) (a + 30) = Inr (word32_of_bytes (?h ! 30) (?h ! 31) (?h ! 32) (?h ! 33))"
    using region_load32[of a b1 m 30] lb1 m b1n[of 30] b1n[of 31] b1n[of 32] b1n[of 33] by (simp del: nth_slice)
  let ?key = "network_host (word32_of_bytes (?h ! 30) (?h ! 31) (?h ! 32) (?h ! 33))"
  have key: "prefix_host (word32_of_bytes (?h ! 30) (?h ! 31) (?h ! 32) (?h ! 33)) = Inr ?key"
    by (simp add: prefix_host_eq network_host_def)
  let ?b2 = "b1[23 := PROTO_GRE]"
  have w4: "store8 (splice m a b1) (a + 23) PROTO_GRE = Inr (splice m a ?b2)"
    using region_store8[of a b1 m 23] lb1 m by (simp del: store8_in)
  have t: "load16 (splice m a ?b2) (a + 16) = Inr (word16_of_bytes (?h ! 16) (?h ! 17))"
    using region_load16[of a ?b2 m 16] lb1 m b1n[of 16] b1n[of 17] by (simp del: nth_slice)
  let ?tot = "word16_of_bytes (?h ! 16) (?h ! 17)"
  have wi: "word_of_int (20 + uint x) = 20 + x" for x :: u16 by simp
  let ?b3 = "upd16 ?b2 16 (htons (20 + htons ?tot))"
  have w5: "store16 (splice m a ?b2) (a + 16) (htons (20 + htons ?tot)) = Inr (splice m a ?b3)"
    using region_store16[of a ?b2 m 16] lb1 m by (simp del: store16_in)
  have w6: "store32 (splice m a ?b3) (a + 30) ?key = Inr (splice m a (upd32 ?b3 30 ?key))"
    using region_store32[of a ?b3 m 30] lb1 m by (simp del: store32_in)
  have w7: "store16 (splice m a (upd32 ?b3 30 ?key)) (a + 36) (htons ETH_P_TEB) =
      Inr (splice m a (upd16 (upd32 ?b3 30 ?key) 36 (htons ETH_P_TEB)))"
    using region_store16[of a "upd32 ?b3 30 ?key" m 36] lb1 m by (simp del: store16_in)
  have w8: "store16 (splice m a (upd16 (upd32 ?b3 30 ?key) 36 (htons ETH_P_TEB))) (a + 38) 0 =
      Inr (splice m a (encap_header ?h mac @ ?p))"
    using region_store16[of a "upd16 (upd32 ?b3 30 ?key) 36 (htons ETH_P_TEB)" m 38 0] lb1 m
      encap_writes[OF h ml, of ?p, folded b1_def, unfolded wi] by (simp del: store16_in nth_slice)
  let ?h2 = "slice m a 42"
  have h2: "?h2 ! j = m ! (a + j)" if "j < 42" for j using that m by simp
  have l0: "load8 m (a + 23) = Inr (?h2 ! 23)" using m by simp
  have ls: "load32 m (a + 38) = Inr (word32_of_bytes (?h2 ! 38) (?h2 ! 39) (?h2 ! 40) (?h2 ! 41))"
    using m by (simp add: add.commute)
  have lp: "load16 m (a + 34) = Inr (word16_of_bytes (?h2 ! 34) (?h2 ! 35))" using m by (simp add: add.commute)
  have log: "(if ?h2 ! 23 \<noteq> PROTO_TCP then Inr tel
       else rbind (load32 m (a + 38)) (\<lambda>s. rbind (load16 m (a + 34)) (\<lambda>p.
         guard_res Out_Of_Bounds (0 \<le> dbg \<and> dbg < TELEMETRY_SIZE)
           (Inr (tel\<lparr>seq := (seq tel)(dbg := ntohl s), src_port := (src_port tel)(dbg := htons p)\<rparr>))))) =
      Inr (encap_log tel ?h2 dbg)"
    unfolding ls lp using dbg h2[of 23] by (simp add: encap_log_def ntohl_def htons_def del: nth_slice)
  show ?thesis
    unfolding encap_veth_def l0 rbind.simps log Let_def
    by (simp add: na nl copied k w1 w2 w3 d key w4 t w5 w6 w7 w8 del: nth_slice drop_append)
qed


section \<open>Packets from the network\<close>

text \<open>A packet of the emulator: IP over GRE over IP, carrying an Ethernet frame with an IP packet.\<close>

definition our_packet :: "u8 list \<Rightarrow> nat \<Rightarrow> bool" where
  "our_packet m a \<longleftrightarrow> slice m (a + 12) 2 = be16 ETH_IP \<and> m ! (a + 23) = PROTO_GRE \<and>
     slice m (a + 36) 2 = be16 ETH_P_TEB \<and> slice m (a + 52) 2 = be16 ETH_IP"

definition addr_at :: "u8 list \<Rightarrow> nat \<Rightarrow> u32" where
  "addr_at m i = word32_of_bytes (m ! i) (m ! (i + 1)) (m ! (i + 2)) (m ! (i + 3))"

lemma slice_2: "a + 2 \<le> length m \<Longrightarrow> slice m a 2 = [m ! a, m ! (a + 1)]"
  by (rule nth_equalityI) (auto simp: less_2_cases_iff)

lemma htons_bytes: "htons (word16_of_bytes x y) = w \<longleftrightarrow> [x, y] = be16 w"
proof
  assume "htons (word16_of_bytes x y) = w"
  then have "word16_of_bytes x y = htons w" by auto
  then have "byte_of 0 (word16_of_bytes x y) = byte_of 0 (htons w)" "byte_of (Suc 0) (word16_of_bytes x y) = byte_of (Suc 0) (htons w)"
    by simp_all
  then show "[x, y] = be16 w" by (simp add: be16_def)
next
  assume "[x, y] = be16 w"
  then show "htons (word16_of_bytes x y) = w" by (simp add: be16_def htons_def)
qed

lemma load_htons: "i + 2 \<le> length m \<Longrightarrow> rbind (load16 m i) f = f (word16_of_bytes (m ! i) (m ! (i + 1)))"
  by simp

lemma load_addr: "i + 4 \<le> length m \<Longrightarrow> load32 m i = Inr (addr_at m i)"
  by (simp add: addr_at_def)

lemma prefix_host_net: "prefix_host w = Inr (network_host w)"
  by (simp add: prefix_host_eq network_host_def)

lemma nic_rx_run:
  assumes m: "a + 74 \<le> length m"
  shows "get_queue_index_for_nic_rx ov net m a (nic_iface net) len addr rv =
    (if \<not> our_packet m a then Inr (m, rv)
     else if addr_at m (a + 30) \<noteq> src_ip net then
       rbind (ip_set_index net (network_host (addr_at m (a + 70)))) (\<lambda>i. rbind (c_int (i - 1)) (\<lambda>q.
         Inr (m, rv\<lparr>ring_buf_index := q, new_len := 1\<rparr>)))
     else rbind (c_memcpy ov m (unat addr) (unat (addr + 40)) (nat (sint (len - 40) mod 2 ^ 64))) (\<lambda>m1.
       Inr (m1, rv\<lparr>which_veth := sint (m ! (a + 73)) - 2, new_len := sint (len - 40)\<rparr>)))"
proof -
  have l: "load16 m (a + 12) = Inr (word16_of_bytes (m ! (a + 12)) (m ! (a + 12 + 1)))"
    "load16 m (a + 36) = Inr (word16_of_bytes (m ! (a + 36)) (m ! (a + 36 + 1)))"
    "load16 m (a + 52) = Inr (word16_of_bytes (m ! (a + 52)) (m ! (a + 52 + 1)))"
    "load8 m (a + 23) = Inr (m ! (a + 23))" "load32 m (a + 30) = Inr (addr_at m (a + 30))"
    "load32 m (a + 70) = Inr (addr_at m (a + 70))"
    using m by (simp_all add: addr_at_def)
  have o: "our_packet m a \<longleftrightarrow> [m ! (a + 12), m ! (a + 12 + 1)] = be16 ETH_IP \<and> m ! (a + 23) = PROTO_GRE \<and>
     [m ! (a + 36), m ! (a + 36 + 1)] = be16 ETH_P_TEB \<and> [m ! (a + 52), m ! (a + 52 + 1)] = be16 ETH_IP"
    using m by (simp only: our_packet_def slice_2)
  have b: "byte_of 3 (addr_at m (a + 70)) = m ! (a + 73)" by (simp add: addr_at_def add.commute)
  show ?thesis
    unfolding get_queue_index_for_nic_rx_def l rbind.simps o
    by (simp add: htons_bytes prefix_host_net Let_def b xsk_umem__get_data_def eq_commute[of "src_ip net"])
qed

lemma nic_rx_transit:
  assumes "a + 74 \<le> length m" "our_packet m a" "addr_at m (a + 30) \<noteq> src_ip net"
    and "dest_queue net (network_host (addr_at m (a + 70))) = Some q"
  shows "get_queue_index_for_nic_rx ov net m a (nic_iface net) len addr rv = Inr (m, rv\<lparr>ring_buf_index := q, new_len := 1\<rparr>)"
proof -
  have "rbind (ip_set_index net (network_host (addr_at m (a + 70)))) (\<lambda>i. rbind (c_int (i - 1)) f) =
      rbind (rbind (ip_set_index net (network_host (addr_at m (a + 70)))) (\<lambda>i. c_int (i - 1))) f"
    for f :: "int \<Rightarrow> (u8 list \<times> return_process_rx) res" by (simp add: rbind_assoc)
  then show ?thesis using assms(2,3) dest_queueD[OF assms(4)] by (simp add: nic_rx_run[OF assms(1)])
qed

lemma nic_rx_local:
  assumes "a + 74 \<le> length m" "our_packet m a" "addr_at m (a + 30) = src_ip net"
    and a: "a = unat addr" and len: "40 \<le> unat len" "a + unat len \<le> length m" "a + unat len < 2 ^ 31"
  shows "get_queue_index_for_nic_rx copy_bytes net m a (nic_iface net) len addr rv =
    Inr (splice m a (slice m (a + 40) (unat len - 40)),
      rv\<lparr>which_veth := sint (m ! (a + 73)) - 2, new_len := int (unat len) - 40\<rparr>)"
proof -
  have ul: "unat (len - 40) = unat len - 40" using len(1) by (subst unat_sub) (simp_all add: word_le_nat_alt)
  have sl: "sint (len - 40) = int (unat len) - 40" using sint_small[of "len - 40"] ul len by simp
  have ua: "unat (addr + 40) = a + 40" using unat_add_below[of addr 40] a len by simp
  have "sint (len - 40) = int (unat len - 40)" using sl len(1) by linarith
  moreover have "int (unat len - 40) mod 2 ^ 64 = int (unat len - 40)"
  proof -
    have "unat len - 40 < 2 ^ 31" using len(3) by linarith
    then have "int (unat len - 40) < int (2 ^ 31)" by (simp only: of_nat_less_iff)
    then show ?thesis by (intro mod_pos_pos_trivial) simp_all
  qed
  ultimately have "nat (sint (len - 40) mod 2 ^ 64) = unat len - 40" by (simp only: nat_int)
  then show ?thesis
    using assms(2,3) len by (simp add: nic_rx_run[OF assms(1)] ua sl memcpy_region a[symmetric])
qed

section \<open>Packets in transit\<close>

text \<open>The 40 bytes of outer headers after a hop. The hop count is incremented in host byte order.\<close>

definition transit_header :: "u8 list \<Rightarrow> u8 list \<Rightarrow> u8 list \<Rightarrow> u32 \<Rightarrow> u8 list" where
  "transit_header h mac src key = (let hops = word16_of_bytes (h ! 38) (h ! 39) + 1 in
     mac @ slice src 0 6 @ slice h 12 18 @ bytes_of32 key @ slice h 34 4 @ [byte_of 0 hops, byte_of 1 hops])"

lemma length_transit_header: "length h = 40 \<Longrightarrow> length mac = 6 \<Longrightarrow> 6 \<le> length src \<Longrightarrow> length (transit_header h mac src key) = 40"
  by (simp add: transit_header_def Let_def bytes_of32_def)

lemma transit_writes:
  assumes h: "length h = 40" and mac: "length mac = 6" and src: "6 \<le> length src"
  shows "upd32 (take 6 (mac @ drop 6 (upd16 (h @ p) 38 (word16_of_bytes (h ! 38) (h ! 39) + 1))) @ slice src 0 6 @
      drop 12 (mac @ drop 6 (upd16 (h @ p) 38 (word16_of_bytes (h ! 38) (h ! 39) + 1)))) 30 key = transit_header h mac src key @ p"
    (is "?l = ?r")
proof (rule nth_equalityI)
  show "length ?l = length ?r" using h mac src length_transit_header[OF h mac src] by simp
  fix k assume "k < length ?l"
  show "?l ! k = ?r ! k"
  proof (cases "k < 40")
    case True
    from less_40_cases[OF this] h mac src show ?thesis
      apply (simp only: insert_iff empty_iff)
      apply (elim disjE FalseE)
      apply (simp_all add: upd16_def upd32_def transit_header_def Let_def bytes_of32_def nth_append nth_list_update)
      done
  next
    case False
    then show ?thesis using h mac src length_transit_header[OF h mac src]
      by (auto simp: upd16_def upd32_def nth_append)
  qed
qed

lemma splice_append_rest: "length t = k \<Longrightarrow> a + k + n \<le> length m \<Longrightarrow> splice m a (t @ slice m (a + k) n) = splice m a t"
  using append_take_drop_id[of n "drop (a + k) m"] by (simp add: splice_def slice_def ac_simps)

lemma encap_indirection_run:
  assumes mac: "next_mac net i = Some mac" and m: "a + 74 \<le> length m" and src: "6 \<le> length (out_eth_src net)"
  shows "encap_indirection net i m a =
    Inr (splice m a (transit_header (slice m a 40) mac (out_eth_src net) (network_host (addr_at m (a + 70)))))"
proof -
  let ?h = "slice m a 40" and ?p = "slice m (a + 40) 34"
  have h: "length ?h = 40" and p: "length ?p = 34" using m by simp_all
  let ?b = "?h @ ?p" and ?hops = "word16_of_bytes (?h ! 38) (?h ! 39) + 1"
  have b: "?b = slice m a 74" using take_add[of 40 34 "drop a m"] by (simp add: slice_def add.commute)
  have lb: "a + length ?b \<le> length m" "length ?b = 74" using h p m by simp_all
  have mb: "m = splice m a ?b" unfolding b using m by simp
  obtain k where k: "next_mac_index net i = Inr k"
    and cm: "\<And>m a bs j. a + length bs \<le> length m \<Longrightarrow> j + 5 < length bs \<Longrightarrow>
      copy_mac net k (splice m a bs) (a + j) = Inr (splice m a (take j bs @ mac @ drop (j + 6) bs))"
    using next_macD(2)[OF mac] by blast
  note ml = next_macD(1)[OF mac]
  have hp: "load16 m (a + 38) = Inr (word16_of_bytes (?h ! 38) (?h ! 39))" using m by (simp add: add.commute)
  let ?b1 = "upd16 ?b 38 ?hops"
  have w1: "store16 m (a + 38) ?hops = Inr (splice m a ?b1)"
    using region_store16[of a ?b m 38 ?hops] lb mb by (simp del: store16_in nth_slice)
  have b1n: "?b1 ! j = ?b ! j" if "j \<noteq> 38" "j \<noteq> 39" for j using that by (simp add: upd16_def)
  have bn: "?b ! j = m ! (a + j)" if "j < 74" for j unfolding b using that m by simp
  have d: "load32 (splice m a ?b1) (a + 70) = Inr (addr_at m (a + 70))"
  proof -
    have "load32 (splice m a ?b1) (a + 70) = load32 ?b1 70" by (rule region_load32) (use lb in simp_all)
    also have "\<dots> = Inr (word32_of_bytes (?b1 ! 70) (?b1 ! Suc 70) (?b1 ! (70 + 2)) (?b1 ! (70 + 3)))"
      by (rule load32_in) (use lb in simp)
    finally show ?thesis using b1n[of 70] b1n[of 71] b1n[of 72] b1n[of 73] bn[of 70] bn[of 71] bn[of 72] bn[of 73]
      by (simp add: addr_at_def add.commute del: nth_slice)
  qed
  let ?key = "network_host (addr_at m (a + 70))"
  have key: "prefix_host (addr_at m (a + 70)) = Inr ?key" by (simp add: prefix_host_eq network_host_def)
  let ?b2 = "mac @ drop 6 ?b1"
  have w2: "copy_mac net k (splice m a ?b1) a = Inr (splice m a ?b2)" using cm[of a ?b1 m 0] lb by simp
  have lb2: "a + length ?b2 \<le> length m" "length ?b2 = 74" using lb ml by simp_all
  let ?b3 = "take 6 ?b2 @ slice (out_eth_src net) 0 6 @ drop 12 ?b2"
  have w3: "ether_addr_copy_assignment (splice m a ?b2) (a + 6) (out_eth_src net) 0 = Inr (splice m a ?b3)"
    using region_copy_ether[OF lb2(1), of 6 0 "out_eth_src net"] lb2(2) src by simp
  have lb3: "a + length ?b3 \<le> length m" "length ?b3 = 74" using lb2 src by simp_all
  have w4: "store32 (splice m a ?b3) (a + 30) ?key = Inr (splice m a (upd32 ?b3 30 ?key))"
    using region_store32[OF lb3(1), of 30 ?key] lb3(2) by (simp del: store32_in)
  let ?t = "transit_header ?h mac (out_eth_src net) ?key"
  have e: "upd32 ?b3 30 ?key = ?t @ ?p" by (rule transit_writes[OF h ml src])
  have "length ?t = 40" by (rule length_transit_header[OF h ml src])
  then have "splice m a (?t @ ?p) = splice m a ?t" by (rule splice_append_rest) (use m in simp)
  moreover have "encap_indirection net i m a = store32 (splice m a ?b3) (a + 30) ?key"
    unfolding encap_indirection_def k rbind.simps hp w1 d key w2 w3 by (rule refl)
  ultimately show ?thesis unfolding w4 e by simp
qed

end
