(* ===== verification/Packet_Path.thy ===== *)
theory Packet_Path
  imports Packet
begin

text \<open>
  What the packet operations of \<open>Packet\<close> achieve together: a packet that is encapsulated at its
  source, redirected by the nodes on its path and decapsulated at its destination.
\<close>

section \<open>A packet on its way\<close>

lemma region_slice: "a + length bs \<le> length m \<Longrightarrow> i + n \<le> length bs \<Longrightarrow> slice (splice m a bs) (a + i) n = slice bs i n"
  by (rule nth_equalityI) (simp_all add: nth_splice add.assoc)

lemma region_addr: "a + length bs \<le> length m \<Longrightarrow> i + 4 \<le> length bs \<Longrightarrow> addr_at (splice m a bs) (a + i) = addr_at bs i"
  using nth_splice[of a bs m i] nth_splice[of a bs m "i + 1"] nth_splice[of a bs m "i + 2"] nth_splice[of a bs m "i + 3"]
  by (simp add: addr_at_def add.assoc)

text \<open>Outer headers of the emulator for a destination.\<close>

definition header_ok :: "u32 \<Rightarrow> u8 list \<Rightarrow> bool" where
  "header_ok key h \<longleftrightarrow> length h = 40 \<and> slice h 12 2 = be16 ETH_IP \<and> h ! 23 = PROTO_GRE \<and>
     slice h 36 2 = be16 ETH_P_TEB \<and> addr_at h 30 = key"

lemma bytes_of32_addr: "addr_at (xs @ bytes_of32 w @ ys) (length xs) = w"
  by (simp add: addr_at_def bytes_of32_def nth_append)

lemma header_ok_encap:
  assumes "length h = 40" "length mac = 6"
  shows "header_ok (network_host (addr_at h 30)) (encap_header h mac)"
  using assms bytes_of32_addr[of "mac @ slice h 6 6 @ be16 ETH_IP @ slice h 14 2 @ be16 (word16_of_bytes (h ! 17) (h ! 16) + 20) @
     slice h 18 5 @ [PROTO_GRE] @ slice h 24 6"]
  by (simp add: header_ok_def length_encap_header)
    (simp add: encap_header_def slice_def[of "_ @ _"] be16_def bytes_of32_def addr_at_def nth_append)

lemma header_ok_transit:
  assumes "header_ok key h" "length mac = 6" "6 \<le> length src"
  shows "header_ok key (transit_header h mac src key)"
proof -
  have h: "length h = 40" using assms(1) by (simp add: header_ok_def)
  have b: "h ! 12 = byte_of 1 ETH_IP" "h ! 13 = byte_of 0 ETH_IP" "h ! 36 = byte_of 1 ETH_P_TEB" "h ! 37 = byte_of 0 ETH_P_TEB"
    using assms(1) h by (simp_all add: header_ok_def slice_2 be16_def)
  show ?thesis
    using assms h b length_transit_header[OF h assms(2,3), of key]
    by (simp add: header_ok_def slice_2 be16_def)
      (simp add: transit_header_def Let_def bytes_of32_def addr_at_def nth_append)
qed

lemma carried_packet:
  assumes "header_ok key h" "a + 40 + length p \<le> length m" "34 \<le> length p" "slice p 12 2 = be16 ETH_IP"
  defines "m' \<equiv> splice m a (h @ p)"
  shows "our_packet m' a" "addr_at m' (a + 30) = key" "addr_at m' (a + 70) = addr_at p 30" "m' ! (a + 73) = p ! 33"
    "slice m' a 40 = h" "slice m' (a + 40) (length p) = p" "length m' = length m"
proof -
  have h: "length h = 40" using assms(1) by (simp add: header_ok_def)
  have l: "a + length (h @ p) \<le> length m" using h assms(2) by simp
  have hs: "slice (h @ p) i n = slice h i n" if "i + n \<le> 40" for i n
    using that h by (simp add: slice_def)
  have ps: "slice (h @ p) (40 + i) n = slice p i n" for i n using h by (simp add: slice_def)
  show "our_packet m' a"
    unfolding our_packet_def m'_def using assms(1,3,4) h l region_slice[OF l, of 12 2] region_slice[OF l, of 36 2]
      region_slice[OF l, of 52 2] ps[of 12 2] hs[of 12 2] hs[of 36 2] nth_splice[OF l, of 23]
    by (simp add: header_ok_def nth_append)
  show "addr_at m' (a + 30) = key" unfolding m'_def using assms(1,3) h region_addr[OF l, of 30]
    by (simp add: header_ok_def addr_at_def nth_append)
  show "addr_at m' (a + 70) = addr_at p 30" unfolding m'_def using assms(3) h region_addr[OF l, of 70]
    by (simp add: addr_at_def nth_append)
  show "m' ! (a + 73) = p ! 33" unfolding m'_def using assms(3) h nth_splice[OF l, of 73] by (simp add: nth_append)
  show "slice m' a 40 = h" unfolding m'_def using region_slice[OF l, of 0 40] hs[of 0 40] h by (simp add: slice_def)
  show "slice m' (a + 40) (length p) = p" unfolding m'_def using region_slice[OF l, of 40 "length p"] ps[of 0 "length p"] h
    by (simp add: slice_def)
  show "length m' = length m" unfolding m'_def using l by simp
qed

text \<open>
  A node on the path of a packet: it stores the packet it received at an address of its buffer
  area, finds that it has to be sent on, redirects it, and sends its bytes.
\<close>

definition forward_hop :: "overlap \<Rightarrow> net \<times> u8 list \<times> u64 \<Rightarrow> u8 list \<Rightarrow> u8 list res" where
  "forward_hop ov node pkt = (case node of (net, m, addr) \<Rightarrow>
     rbind (get_queue_index_for_nic_rx ov net (splice m (unat addr) pkt) (unat addr) (nic_iface net) (of_nat (length pkt)) addr
       \<lparr>new_len = 0, ring_buf_index = 0, which_veth = 0\<rparr>) (\<lambda>(m1, rv).
     guard_res Assert_Failed (new_len rv = 1) (rbind (encap_indirection net (ring_buf_index rv) m1 (unat addr)) (\<lambda>m2.
       Inr (slice m2 (unat addr) (length pkt))))))"

fun forward_path :: "overlap \<Rightarrow> (net \<times> u8 list \<times> u64) list \<Rightarrow> u8 list \<Rightarrow> u8 list res" where
  "forward_path ov [] pkt = Inr pkt"
| "forward_path ov (n # ns) pkt = rbind (forward_hop ov n pkt) (forward_path ov ns)"

text \<open>A node that is not the destination and has a queue and a next hop for it.\<close>

definition on_path :: "u32 \<Rightarrow> nat \<Rightarrow> net \<times> u8 list \<times> u64 \<Rightarrow> bool" where
  "on_path key l node = (case node of (net, m, addr) \<Rightarrow> src_ip net \<noteq> key \<and> 6 \<le> length (out_eth_src net) \<and>
     unat addr + l \<le> length m \<and>
     (case dest_queue net key of None \<Rightarrow> False | Some q \<Rightarrow> next_mac net q \<noteq> None))"

lemma forward_hop_ok:
  assumes "header_ok key h" "34 \<le> length p" "slice p 12 2 = be16 ETH_IP" "key = network_host (addr_at p 30)"
    and "on_path key (40 + length p) node"
  shows "\<exists>h'. forward_hop ov node (h @ p) = Inr (h' @ p) \<and> header_ok key h'"
proof -
  obtain net m addr where n: "node = (net, m, addr)" by (cases node)
  obtain q mac where q: "dest_queue net key = Some q" "next_mac net q = Some mac"
    and o: "src_ip net \<noteq> key" "6 \<le> length (out_eth_src net)" "unat addr + 40 + length p \<le> length m"
    using assms(5) n by (auto simp: on_path_def split: option.splits)
  have h: "length h = 40" using assms(1) by (simp add: header_ok_def)
  let ?a = "unat addr" and ?m = "splice m (unat addr) (h @ p)"
  note C = carried_packet[OF assms(1) o(3) assms(2,3)]
  have l: "?a + 74 \<le> length ?m" using C(7) o(3) assms(2) by simp
  let ?h' = "transit_header h mac (out_eth_src net) key"
  have r: "get_queue_index_for_nic_rx ov net ?m ?a (nic_iface net) (of_nat (length (h @ p))) addr
      \<lparr>new_len = 0, ring_buf_index = 0, which_veth = 0\<rparr> = Inr (?m, \<lparr>new_len = 1, ring_buf_index = q, which_veth = 0\<rparr>)"
    using nic_rx_transit[OF l C(1)] C(2,3) o(1) q(1) assms(4) by simp
  have e: "encap_indirection net q ?m ?a = Inr (splice ?m ?a ?h')"
    using encap_indirection_run[OF q(2) l o(2)] C(3,5) assms(4) by simp
  have ml: "length mac = 6" by (rule next_macD(1)[OF q(2)])
  have h': "length ?h' = 40" by (rule length_transit_header[OF h ml o(2)])
  have "splice ?m ?a ?h' = splice m ?a (?h' @ p)"
    using h h' o(3) by (simp add: splice_def)
  then have "forward_hop ov node (h @ p) = Inr (?h' @ p)"
    using r e h' h o(3) slice_splice[of ?a "?h' @ p" m] by (simp add: forward_hop_def n)
  with header_ok_transit[OF assms(1) ml o(2)] show ?thesis by blast
qed

lemma forward_path_ok:
  assumes "header_ok key h" "34 \<le> length p" "slice p 12 2 = be16 ETH_IP" "key = network_host (addr_at p 30)"
    and "\<forall>n \<in> set ns. on_path key (40 + length p) n"
  shows "\<exists>h'. forward_path ov ns (h @ p) = Inr (h' @ p) \<and> header_ok key h'"
  using assms(1,5)
proof (induction ns arbitrary: h)
  case (Cons n ns)
  from forward_hop_ok[OF Cons.prems(1) assms(2-4), of n ov] Cons.prems(2) obtain h1 where
    "forward_hop ov n (h @ p) = Inr (h1 @ p)" "header_ok key h1" by auto
  with Cons.IH[of h1] Cons.prems(2) show ?case by auto
qed auto


section \<open>A small network\<close>

definition sample_net :: net where
  "sample_net = \<lparr>nic_iface = ''nic'', src_ip = 0, out_eth_src = [2, 2, 2, 2, 2, 2, 0],
     ip_table = \<lparr>mcount = 1, node_size = 8, mdat = Some (flat [(network_host 0, [2, 0, 0, 0])])\<rparr>,
     mac_table = \<lparr>mcount = 1, node_size = 11, mdat = Some (flat [(3, [1, 2, 3, 4, 5, 6, 0])])\<rparr>,
     route_table = Some \<lparr>mrows = 2, mcols = 2, mdata = Some [None, Some 3, None, None]\<rparr>, topo = 1\<rparr>"

definition sample_area :: "u8 list" where
  "sample_area = replicate 12 0 @ [8, 0] @ replicate 100 0"

lemma network_host_0: "network_host 0 \<noteq> 0"
proof
  assume "network_host 0 = 0"
  then have "byte_of 3 (network_host 0) = 0" by (simp only: byte_of_zero)
  then show False by (simp add: network_host_def)
qed

lemma sample_tables: "mg_look (ip_table sample_net) (network_host 0) = Some [2, 0, 0, 0]"
  "mg_look (mac_table sample_net) 3 = Some [1, 2, 3, 4, 5, 6, 0]"
proof -
  have "mg_rep (ip_table sample_net) [(network_host 0, [2, 0, 0, 0])]" by (simp add: mg_rep_def sample_net_def)
  from mg_look_rep[OF this] show "mg_look (ip_table sample_net) (network_host 0) = Some [2, 0, 0, 0]"
    using network_host_0 by (simp add: nodes_map_def)
  have "mg_rep (mac_table sample_net) [(3, [1, 2, 3, 4, 5, 6, 0])]" by (simp add: mg_rep_def sample_net_def)
  from mg_look_rep[OF this] show "mg_look (mac_table sample_net) 3 = Some [1, 2, 3, 4, 5, 6, 0]"
    by (simp add: nodes_map_def)
qed

lemma sample_lookups: "dest_queue sample_net (network_host 0) = Some 1" "next_mac sample_net 1 = Some [1, 2, 3, 4, 5, 6]"
proof -
  have "word32_of_bytes 2 0 0 0 = (2 :: u32)" by (simp add: word32_of_bytes_def)
  then show "dest_queue sample_net (network_host 0) = Some 1"
    using sample_tables(1) by (simp add: dest_queue_def)
  have "next_mac_index sample_net 1 = Inr 3"
    by (simp add: next_mac_index_def c_int_def sample_net_def matrix_ops_def mtx_get_def elem_index_def outside_dims_def res_simps)
  then show "next_mac sample_net 1 = Some [1, 2, 3, 4, 5, 6]"
    using sample_tables(2) by (simp add: next_mac_def)
qed


lemma sample_on_path: "on_path (network_host 0) 74 (sample_net, replicate 74 0, 0)"
proof -
  have "src_ip sample_net \<noteq> network_host 0" using network_host_0 by (simp add: sample_net_def)
  then show ?thesis by (simp add: on_path_def sample_lookups) (simp add: sample_net_def)
qed

lemma sample_area_facts: "length sample_area = 114" "slice sample_area 12 2 = be16 ETH_IP" "addr_at sample_area 30 = 0"
  "sample_area ! 23 = 0" "sample_area ! 33 = 0"
  by (simp_all add: sample_area_def slice_def be16_def ETH_IP_def addr_at_def nth_append word32_of_bytes_def byte_of_def)

section \<open>Properties\<close>

text \<open>\<open>encap_veth\<close> moves the packet up by 40 bytes unchanged, puts the outer headers for
  the next hop of the current time slot in front of it, touches nothing else in the buffer
  area, and returns the new length; TCP packets are recorded in the telemetry arrays.\<close>
theorem encap_veth_correct:
  assumes "next_mac net i = Some mac" "unat addr + 40 + unat len < 2 ^ 31"
    and "unat addr + 40 + unat len \<le> length m" "unat addr + 42 \<le> length m"
    and "m ! (unat addr + 23) = PROTO_TCP \<longrightarrow> 0 \<le> dbg \<and> dbg < TELEMETRY_SIZE"
  shows "encap_veth copy_bytes net tel i m (unat addr) len addr dbg =
    Inr (splice m (unat addr) (encap_header (slice m (unat addr) 40) mac @ slice m (unat addr) (unat len)),
      encap_log tel (slice m (unat addr) 42) dbg, int (unat len) + 40)"
  by (rule encap_veth_run[OF assms(1) refl assms(2-5)])

theorem encap_veth_correct_witness:
  "\<exists>m' tel'. encap_veth copy_bytes sample_net \<lparr>seq = (\<lambda>_. 0), src_port = (\<lambda>_. 0)\<rparr> 1 sample_area 0 34 0 0 = Inr (m', tel', 74)"
  using encap_veth_correct[OF sample_lookups(2), of 0 34 sample_area 0 "\<lparr>seq = (\<lambda>_. 0), src_port = (\<lambda>_. 0)\<rparr>"]
  by (simp add: sample_area_facts PROTO_TCP_def)

text \<open>Property C2: a packet encapsulated at its source, redirected by any number of nodes that have a
  next hop for it, and received by the node whose address is the packet's network, arrives
  there byte by byte as it was sent, with its length and the namespace of its last byte.\<close>
theorem path_delivers:
  assumes "next_mac net i = Some mac" "unat addr + 40 + unat len < 2 ^ 31" "unat addr + 40 + unat len \<le> length m"
    and "34 \<le> unat len" "slice m (unat addr + 12) 2 = be16 ETH_IP"
    and "m ! (unat addr + 23) = PROTO_TCP \<longrightarrow> 0 \<le> dbg \<and> dbg < TELEMETRY_SIZE"
    and "key = network_host (addr_at m (unat addr + 30))"
    and "\<forall>n \<in> set path. on_path key (40 + unat len) n"
    and "src_ip dst = key" "unat addr' + 40 + unat len < 2 ^ 31" "unat addr' + 40 + unat len \<le> length m'"
  shows "\<exists>m1 tel' pkt m2 rv'. encap_veth copy_bytes net tel i m (unat addr) len addr dbg = Inr (m1, tel', int (unat len) + 40) \<and>
    forward_path copy_bytes path (slice m1 (unat addr) (40 + unat len)) = Inr pkt \<and>
    get_queue_index_for_nic_rx copy_bytes dst (splice m' (unat addr') pkt) (unat addr') (nic_iface dst) (len + 40) addr' rv =
      Inr (m2, rv') \<and>
    slice m2 (unat addr') (unat len) = slice m (unat addr) (unat len) \<and>
    new_len rv' = int (unat len) \<and> which_veth rv' = sint (m ! (unat addr + 33)) - 2"
proof -
  let ?a = "unat addr" and ?p = "slice m (unat addr) (unat len)" and ?h = "slice m (unat addr) 40"
  have m42: "?a + 42 \<le> length m" using assms(3,4) by simp
  have ml: "length mac = 6" by (rule next_macD(1)[OF assms(1)])
  have h: "length ?h = 40" and p: "length ?p = unat len" using assms(3) by simp_all
  let ?H = "encap_header ?h mac"
  have H: "length ?H = 40" by (rule length_encap_header[OF h ml])
  note enc = encap_veth_run[OF assms(1) refl assms(2,3) m42 assms(6), of tel]
  have s1: "slice (splice m ?a (?H @ ?p)) ?a (40 + unat len) = ?H @ ?p"
    using slice_splice[of ?a "?H @ ?p" m] H p assms(3) by simp
  have ha: "addr_at ?h 30 = addr_at m (?a + 30)" "addr_at ?p 30 = addr_at m (?a + 30)"
    using assms(3,4) by (simp_all add: addr_at_def add.commute)
  have ok: "header_ok key ?H" using header_ok_encap[OF h ml] ha assms(7) by simp
  have p12: "slice ?p 12 2 = be16 ETH_IP"
    using assms(3,4,5) by (simp add: slice_def min_def take_drop add.commute)
  have pk: "34 \<le> length ?p" "key = network_host (addr_at ?p 30)" "\<forall>n \<in> set path. on_path key (40 + length ?p) n"
    using assms(4,7,8) p ha by simp_all
  obtain H' where H': "forward_path copy_bytes path (?H @ ?p) = Inr (H' @ ?p)" "header_ok key H'"
    using forward_path_ok[OF ok pk(1) p12 pk(2,3)] by blast
  have lm: "unat addr' + 40 + length ?p \<le> length m'" using assms(11) p by simp
  note C = carried_packet[OF H'(2) lm pk(1) p12]
  let ?m = "splice m' (unat addr') (H' @ ?p)"
  have ul: "unat (len + 40) = unat len + 40" using unat_add_below[of len 40] assms(2) by simp
  have rx: "get_queue_index_for_nic_rx copy_bytes dst ?m (unat addr') (nic_iface dst) (len + 40) addr' rv =
      Inr (splice ?m (unat addr') (slice ?m (unat addr' + 40) (unat (len + 40) - 40)),
        rv\<lparr>which_veth := sint (?m ! (unat addr' + 73)) - 2, new_len := int (unat (len + 40)) - 40\<rparr>)"
  proof (rule nic_rx_local)
    show "unat addr' + 74 \<le> length ?m" using C(7) assms(4,11) by simp
    show "addr_at ?m (unat addr' + 30) = src_ip dst" using C(2) assms(9) by simp
    show "unat addr' + unat (len + 40) \<le> length ?m" "unat addr' + unat (len + 40) < 2 ^ 31" "40 \<le> unat (len + 40)"
      using C(7) ul assms(10,11) by simp_all
  qed (rule C(1), rule refl)
  have "slice ?m (unat addr' + 40) (unat (len + 40) - 40) = ?p" using C(6) ul p by simp
  moreover have "slice (splice ?m (unat addr') ?p) (unat addr') (unat len) = ?p"
    using slice_splice[of "unat addr'" ?p ?m] C(7) p lm by simp
  moreover have "?p ! 33 = m ! (?a + 33)" using assms(3,4) by simp
  ultimately show ?thesis using enc s1 H'(1) rx C(4) ul by (simp del: nth_slice)
qed

theorem path_delivers_witness:
  "\<exists>m1 tel' pkt. encap_veth copy_bytes sample_net \<lparr>seq = (\<lambda>_. 0), src_port = (\<lambda>_. 0)\<rparr> 1 sample_area 0 34 0 0 = Inr (m1, tel', 74) \<and>
    forward_path copy_bytes [(sample_net, replicate 74 0, 0)] (slice m1 0 74) = Inr pkt"
  using path_delivers[OF sample_lookups(2), of 0 34 sample_area 0 "network_host 0" "[(sample_net, replicate 74 0, 0)]"
      "sample_net\<lparr>src_ip := network_host 0\<rparr>" 0 "replicate 74 0" "\<lparr>seq = (\<lambda>_. 0), src_port = (\<lambda>_. 0)\<rparr>"]
  by (simp add: sample_area_facts sample_on_path PROTO_TCP_def) blast

text \<open>Property C22: a packet from the network that is not the emulator's (or arrives on another
  interface) is left alone and so is the caller's result record, which keeps what the previous
  packet put there; one for another node gets the queue of its destination, and one for this
  node is decapsulated in place. The namespace number is the last byte of the address read as
  a signed character, so that it is negative from 128 on.\<close>
theorem nic_rx_correct:
  assumes "unat addr + 74 \<le> length m" "40 \<le> unat len" "unat addr + unat len \<le> length m" "unat addr + unat len < 2 ^ 31"
    and "our_packet m (unat addr) \<and> addr_at m (unat addr + 30) \<noteq> src_ip net \<longrightarrow>
      dest_queue net (network_host (addr_at m (unat addr + 70))) = Some q"
  shows "get_queue_index_for_nic_rx copy_bytes net m (unat addr) ifc len addr rv =
    (if ifc \<noteq> nic_iface net \<or> \<not> our_packet m (unat addr) then Inr (m, rv)
     else if addr_at m (unat addr + 30) \<noteq> src_ip net then Inr (m, rv\<lparr>ring_buf_index := q, new_len := 1\<rparr>)
     else Inr (splice m (unat addr) (slice m (unat addr + 40) (unat len - 40)),
       rv\<lparr>which_veth := sint (m ! (unat addr + 73)) - 2, new_len := int (unat len) - 40\<rparr>))"
proof (cases "ifc = nic_iface net")
  case ifc: True
  consider "\<not> our_packet m (unat addr)" | "our_packet m (unat addr)" "addr_at m (unat addr + 30) \<noteq> src_ip net"
    | "our_packet m (unat addr)" "addr_at m (unat addr + 30) = src_ip net" by blast
  then show ?thesis
  proof cases
    case 1
    then show ?thesis using nic_rx_run[OF assms(1), of copy_bytes net len addr rv] ifc by simp
  next
    case 2
    then show ?thesis using nic_rx_transit[OF assms(1) 2, of q copy_bytes len addr rv] assms(5) ifc by simp
  next
    case 3
    then show ?thesis using nic_rx_local[OF assms(1) 3 refl assms(2-4), of rv] ifc by simp
  qed
qed (simp add: get_queue_index_for_nic_rx_def)

theorem nic_rx_correct_witness:
  "get_queue_index_for_nic_rx copy_bytes sample_net sample_area 0 ''nic'' 60 0 \<lparr>new_len = 7, ring_buf_index = 8, which_veth = 9\<rparr> =
     Inr (sample_area, \<lparr>new_len = 7, ring_buf_index = 8, which_veth = 9\<rparr>)"
proof -
  have "\<not> our_packet sample_area 0" by (simp add: our_packet_def sample_area_facts PROTO_GRE_def)
  then show ?thesis
    using nic_rx_correct[of 0 sample_area 60 sample_net 0 "''nic''"] by (simp add: sample_area_facts)
qed

text \<open>A packet from a namespace goes to the queue of its destination network; a packet
  for an unknown network dereferences \<open>NULL\<close>, and on an interface whose name does not start
  with \<open>vethout\<close> the function returns without a value.\<close>
theorem get_destination_queue_correct:
  assumes "a + 34 \<le> length m"
  shows "(prefix OUTER_VETH_PREFIX ifc \<longrightarrow>
      (\<forall>q. dest_queue net (network_host (addr_at m (a + 30))) = Some q \<longrightarrow> get_destination_queue_index net m a ifc = Inr q) \<and>
      (mg_map_get (Some (ip_table net)) (network_host (addr_at m (a + 30))) = Inr None \<longrightarrow>
        get_destination_queue_index net m a ifc = Inl Null_Deref)) \<and>
    (\<not> prefix OUTER_VETH_PREFIX ifc \<longrightarrow> get_destination_queue_index net m a ifc = Inl Uninitialised)"
proof -
  have l: "load32 m (a + 30) = Inr (addr_at m (a + 30))" using assms by (simp add: addr_at_def)
  have "get_destination_queue_index net m a ifc =
      rbind (ip_set_index net (network_host (addr_at m (a + 30)))) (\<lambda>i. c_int (i - 1))" if "prefix OUTER_VETH_PREFIX ifc"
    using that by (simp add: get_destination_queue_index_def l prefix_host_net)
  then show ?thesis using dest_queueD
    by (auto simp: get_destination_queue_index_def ip_set_index_def)
qed

theorem get_destination_queue_correct_witness:
  "get_destination_queue_index sample_net sample_area 0 ''vethout2'' = Inr 1"
  using get_destination_queue_correct[of 0 sample_area "''vethout2''" sample_net]
  by (simp add: sample_area_facts sample_lookups prefix_def OUTER_VETH_PREFIX_def)

text \<open>The total length \<open>encap_veth\<close> writes into the outer IP header is the inner total length
  plus 20, but the outer IP packet is 40 bytes longer than the inner one (an IP header, a GRE
  header and an Ethernet header): the field is always 20 too small.\<close>
theorem encap_total_length:
  assumes "next_mac net i = Some mac" "unat addr + 40 + unat len < 2 ^ 31"
    and "unat addr + 40 + unat len \<le> length m" "unat addr + 42 \<le> length m"
    and "m ! (unat addr + 23) = PROTO_TCP \<longrightarrow> 0 \<le> dbg \<and> dbg < TELEMETRY_SIZE"
    and "tot = word16_of_bytes (m ! (unat addr + 17)) (m ! (unat addr + 16))" "unat len = 14 + unat tot" "unat tot < 2 ^ 16 - 40"
  shows "\<exists>m' tel' l. encap_veth copy_bytes net tel i m (unat addr) len addr dbg = Inr (m', tel', l) \<and>
    int (unat (word16_of_bytes (m' ! (unat addr + 17)) (m' ! (unat addr + 16)))) + 20 = l - 14"
proof -
  let ?a = "unat addr" and ?h = "slice m (unat addr) 40" and ?p = "slice m (unat addr) (unat len)"
  let ?H = "encap_header ?h mac"
  have h: "length ?h = 40" and ml: "length mac = 6" using assms(3) next_macD(1)[OF assms(1)] by simp_all
  have l: "?a + length (?H @ ?p) \<le> length m" using length_encap_header[OF h ml] assms(3) by simp
  have "splice m ?a (?H @ ?p) ! (?a + 16) = byte_of 1 (tot + 20)" "splice m ?a (?H @ ?p) ! (?a + 17) = byte_of 0 (tot + 20)"
    using nth_splice[OF l, of 16] nth_splice[OF l, of 17] length_encap_header[OF h ml] h ml assms(3,6)
    by (simp_all add: encap_header_def be16_def nth_append)
  moreover have "unat (tot + 20) = unat tot + 20" using unat_add_below[of tot 20] assms(8) by simp
  ultimately have "unat (word16_of_bytes (splice m ?a (?H @ ?p) ! (?a + 17)) (splice m ?a (?H @ ?p) ! (?a + 16))) = unat tot + 20"
    by simp
  moreover have "int (unat tot + 20) + 20 = int (unat len) + 40 - 14" using assms(7) by simp
  ultimately show ?thesis using encap_veth_run[OF assms(1) refl assms(2-5), of tel]
    by (intro exI[of _ "splice m ?a (?H @ ?p)"] exI[of _ "encap_log tel (slice m ?a 42) dbg"] exI[of _ "int (unat len) + 40"])
      (simp only: simp_thms)
qed

theorem encap_total_length_witness:
  "\<exists>m' tel' l. encap_veth copy_bytes sample_net \<lparr>seq = (\<lambda>_. 0), src_port = (\<lambda>_. 0)\<rparr> 1
      (sample_area[17 := 46]) 0 60 0 0 = Inr (m', tel', l) \<and>
    int (unat (word16_of_bytes (m' ! 17) (m' ! 16))) + 20 = l - 14"
proof -
  have t: "word16_of_bytes (sample_area[17 := 46] ! 17) (sample_area[17 := 46] ! 16) = 46"
    by (simp add: sample_area_def word16_of_bytes_def nth_append nth_list_update)
  have "sample_area[17 := 46] ! 23 \<noteq> PROTO_TCP" by (simp add: sample_area_facts PROTO_TCP_def)
  then show ?thesis
    using encap_total_length[OF sample_lookups(2), of 0 60 "sample_area[17 := 46]" 0 46 "\<lparr>seq = (\<lambda>_. 0), src_port = (\<lambda>_. 0)\<rparr>"] t
    by (simp add: sample_area_facts)
qed

end
