(* ===== verification/Threads.thy ===== *)
theory Threads
  imports Packet_Path Buffers Mpmc_Queue
begin

text \<open>
  The forwarding threads of \<open>opera-v2/thread_functions_1.h\<close>. A thread's function is a loop; one
  pass of it is a function on the emulator's state. What the kernel and the allocator do during
  a pass is part of its input. Packets travel between threads through the queues of
  \<open>Mpmc_Queue\<close>; a thread names the queues and ports it may use by their index (\<open>None\<close> is \<open>NULL\<close>).
\<close>

section \<open>State\<close>

definition NUM_OF_PER_DEST_QUEUES :: nat where "NUM_OF_PER_DEST_QUEUES = 32"
definition VETH_QUEUES :: nat where "VETH_QUEUES = 13"

record burst_tx =
  tx_addr :: u64
  tx_len :: u32
  tx_n_pkts :: u32

type_synonym timespec = "int \<times> int"

record buff_log =
  buff :: "int \<Rightarrow> int"
  q_num :: "int \<Rightarrow> int"
  buff_time :: "int \<Rightarrow> timespec"
  buff_track :: int

record emu =
  epool :: bpool
  eports :: "port list"
  umem :: "u8 list"
  enet :: net
  etel :: telemetry
  now :: timespec
  local_log :: buff_log
  veth_log :: buff_log
  local_per_dest_queue :: "burst_tx mpmc_queue list"
  non_local_per_dest_queue :: "burst_tx mpmc_queue list"
  veth_side_queue :: "burst_tx mpmc_queue list"
  local_dest_queue_overflow_count :: u64
  non_local_dest_queue_overflow_count :: u64
  veth_queue_overflow_count :: u64

record thread_data =
  ports_rx :: "nat option list"
  ports_tx :: "nat option list"
  local_dest_queue_array :: "nat option list"
  non_local_dest_queue_array :: "nat option list"
  veth_side_queue_array :: "nat option list"
  assigned_queue_count :: int
  assigned_perdest_count :: int

definition port_at :: "nat option list \<Rightarrow> nat \<Rightarrow> nat res" where
  "port_at ps k = rbind (arr_get ps k) (\<lambda>p. case p of None \<Rightarrow> Inl Null_Deref | Some i \<Rightarrow> Inr i)"

section \<open>Shared steps\<close>

text \<open>Giving the buffer of a dropped packet back through the port's cache.\<close>

definition drop_buffer :: "nat \<Rightarrow> u64 \<Rightarrow> emu \<Rightarrow> emu res" where
  "drop_buffer pi addr e = rbind (arr_get (eports e) pi) (\<lambda>p.
     rbind (bcache_prod (epool e) (bc p) addr) (\<lambda>(bp', c').
       Inr (e\<lparr>epool := bp', eports := (eports e)[pi := p\<lparr>bc := c'\<rparr>]\<rparr>)))"

definition push_to :: "burst_tx mpmc_queue list \<Rightarrow> nat \<Rightarrow> burst_tx \<Rightarrow> (int \<times> burst_tx mpmc_queue list) run" where
  "push_to qs i b = rthen (Some (arr_get qs i)) (\<lambda>q.
     rthen (mpmc_queue_push q b) (\<lambda>(ret, q'). Some (Inr (ret, qs[i := q']))))"

section \<open>From a namespace to the queues\<close>

text \<open>
  One packet in \<open>thread_func_veth\<close>; \<open>alloc\<close> is whether \<open>calloc\<close> succeeds. Where the code only
  prints a message the packet's buffer is lost.
\<close>

definition veth_rx_packet :: "thread_data \<Rightarrow> nat \<Rightarrow> bool \<Rightarrow> pkt \<Rightarrow> emu \<Rightarrow> emu run" where
  "veth_rx_packet t pi alloc b e =
     (let addr = xsk_umem__add_offset_to_addr (fst b); pkt = xsk_umem__get_data addr in
      rthen (Some (arr_get (eports e) pi)) (\<lambda>p.
      rthen (Some (get_destination_queue_index (enet e) (umem e) pkt (iface (pparams p)))) (\<lambda>dest_index.
      if \<not> alloc then Some (Inr e)
      else if fst b \<noteq> 0 then
        rthen (Some (idx_get (take NUM_OF_PER_DEST_QUEUES (local_dest_queue_array t)) dest_index)) (\<lambda>q.
          case q of None \<Rightarrow> Some (Inr e)
          | Some i \<Rightarrow>
            rthen (push_to (local_per_dest_queue e) i \<lparr>tx_addr = fst b, tx_len = snd b, tx_n_pkts = 1\<rparr>) (\<lambda>(ret, qs).
            let e1 = e\<lparr>local_per_dest_queue := qs\<rparr> in
            if ret = 0 then Some (drop_buffer pi (fst b)
                (e1\<lparr>local_dest_queue_overflow_count := local_dest_queue_overflow_count e + 1\<rparr>))
            else Some (Inr e1)))
      else Some (drop_buffer pi (fst b) e))))"

fun veth_rx_packets :: "thread_data \<Rightarrow> nat \<Rightarrow> (bool \<times> pkt) list \<Rightarrow> emu \<Rightarrow> emu run" where
  "veth_rx_packets t pi [] e = Some (Inr e)"
| "veth_rx_packets t pi (b # bs) e = rthen (veth_rx_packet t pi (fst b) (snd b) e) (veth_rx_packets t pi bs)"

text \<open>The receive burst of a port, on the emulator's state.\<close>

definition emu_rx_burst :: "nat \<Rightarrow> nat list \<Rightarrow> emu \<Rightarrow> (pkt list \<times> emu) run" where
  "emu_rx_burst pi ks e = rthen (Some (arr_get (eports e) pi)) (\<lambda>p.
     rthen (port_rx_burst (epool e) p ks) (\<lambda>(pkts, bp', p', _).
       Some (Inr (pkts, e\<lparr>epool := bp', eports := (eports e)[pi := p']\<rparr>))))"

text \<open>One pass of the loop, and the loop until \<open>quit\<close> is set: one input for each pass.\<close>

record pass_env =
  kernel :: "nat list"
  allocs :: "nat \<Rightarrow> bool"

definition thread_func_veth_pass :: "thread_data \<Rightarrow> pass_env \<Rightarrow> emu \<Rightarrow> emu run" where
  "thread_func_veth_pass t env e = rthen (Some (port_at (ports_rx t) 0)) (\<lambda>pi.
     rthen (emu_rx_burst pi (kernel env) e) (\<lambda>(pkts, e1).
       veth_rx_packets t pi (zip (map (allocs env) [0..<length pkts]) pkts) e1))"

fun thread_func_veth :: "thread_data \<Rightarrow> pass_env list \<Rightarrow> emu \<Rightarrow> emu run" where
  "thread_func_veth t [] e = Some (Inr e)"
| "thread_func_veth t (x # xs) e = rthen (thread_func_veth_pass t x e) (thread_func_veth t xs)"

section \<open>From the network to the queues\<close>

text \<open>
  One packet in \<open>thread_func_nic\<close>. The result record is passed on from packet to packet. The
  result of \<open>calloc\<close> is used unchecked. Only \<open>n_veth\<close> entries of the local copy of the
  namespace queues are initialised.
\<close>

definition nic_rx_packet :: "overlap \<Rightarrow> thread_data \<Rightarrow> int \<Rightarrow> nat \<Rightarrow> bool \<Rightarrow> pkt \<Rightarrow> emu \<times> return_process_rx \<Rightarrow>
    (emu \<times> return_process_rx) run" where
  "nic_rx_packet ov t n_veth pi alloc b = (\<lambda>(e, rv0).
     (let addr = xsk_umem__add_offset_to_addr (fst b); pkt = xsk_umem__get_data addr in
      rthen (Some (arr_get (eports e) pi)) (\<lambda>p.
      rthen (Some (get_queue_index_for_nic_rx ov (enet e) (umem e) pkt (iface (pparams p)) (snd b) (fst b) rv0)) (\<lambda>(m1, rv).
      let e1 = e\<lparr>umem := m1\<rparr> in
      if \<not> alloc then Some (Inl Null_Deref)
      else if new_len rv = 1 then
        rthen (Some (idx_get (take NUM_OF_PER_DEST_QUEUES (non_local_dest_queue_array t)) (ring_buf_index rv))) (\<lambda>q.
          case q of None \<Rightarrow> Some (Inr (e1, rv))
          | Some i \<Rightarrow>
            rthen (push_to (non_local_per_dest_queue e1) i \<lparr>tx_addr = fst b, tx_len = snd b, tx_n_pkts = 1\<rparr>) (\<lambda>(ret, qs).
            let e2 = e1\<lparr>non_local_per_dest_queue := qs\<rparr> in
            if ret = 0 then Some (rbind (drop_buffer pi (fst b)
                (e2\<lparr>non_local_dest_queue_overflow_count := non_local_dest_queue_overflow_count e + 1\<rparr>)) (\<lambda>e3. Inr (e3, rv)))
            else Some (Inr (e2, rv))))
      else
        rthen (Some (guard_res Out_Of_Bounds (0 \<le> which_veth rv \<and> which_veth rv < int VETH_QUEUES)
            (guard_res Uninitialised (which_veth rv < n_veth) (idx_get (veth_side_queue_array t) (which_veth rv))))) (\<lambda>q.
          case q of None \<Rightarrow> Some (Inr (e1, rv))
          | Some i \<Rightarrow>
            rthen (push_to (veth_side_queue e1) i \<lparr>tx_addr = fst b, tx_len = word_of_int (new_len rv), tx_n_pkts = 1\<rparr>) (\<lambda>(ret, qs).
            let e2 = e1\<lparr>veth_side_queue := qs\<rparr> in
            if ret = 0 then Some (rbind (drop_buffer pi (fst b)
                (e2\<lparr>veth_queue_overflow_count := veth_queue_overflow_count e + 1\<rparr>)) (\<lambda>e3. Inr (e3, rv)))
            else Some (Inr (e2, rv))))))))"

fun nic_rx_packets :: "overlap \<Rightarrow> thread_data \<Rightarrow> int \<Rightarrow> nat \<Rightarrow> (bool \<times> pkt) list \<Rightarrow> emu \<times> return_process_rx \<Rightarrow>
    (emu \<times> return_process_rx) run" where
  "nic_rx_packets ov t n_veth pi [] s = Some (Inr s)"
| "nic_rx_packets ov t n_veth pi (b # bs) s = rthen (nic_rx_packet ov t n_veth pi (fst b) (snd b) s) (nic_rx_packets ov t n_veth pi bs)"

text \<open>One port in one pass: the result record is cleared before the burst, not before each packet.\<close>

definition nic_rx_port :: "overlap \<Rightarrow> thread_data \<Rightarrow> int \<Rightarrow> nat \<Rightarrow> pass_env \<Rightarrow> emu \<times> return_process_rx \<Rightarrow>
    (emu \<times> return_process_rx) run" where
  "nic_rx_port ov t n_veth k env = (\<lambda>(e, rv0). let rv = rv0\<lparr>new_len := 0, ring_buf_index := 0\<rparr> in
     rthen (Some (port_at (ports_rx t) k)) (\<lambda>pi.
     rthen (emu_rx_burst pi (kernel env) e) (\<lambda>(pkts, e1).
       nic_rx_packets ov t n_veth pi (zip (map (allocs env) [0..<length pkts]) pkts) (e1, rv))))"

fun nic_rx_ports :: "overlap \<Rightarrow> thread_data \<Rightarrow> int \<Rightarrow> nat \<Rightarrow> nat \<Rightarrow> (nat \<Rightarrow> pass_env) \<Rightarrow> emu \<times> return_process_rx \<Rightarrow>
    (emu \<times> return_process_rx) run" where
  "nic_rx_ports ov t n_veth k 0 env s = Some (Inr s)"
| "nic_rx_ports ov t n_veth k (Suc n) env s = rthen (nic_rx_port ov t n_veth k (env k) s) (nic_rx_ports ov t n_veth (k + 1) n env)"

definition thread_func_nic_pass :: "overlap \<Rightarrow> thread_data \<Rightarrow> int \<Rightarrow> (nat \<Rightarrow> pass_env) \<Rightarrow> emu \<times> return_process_rx \<Rightarrow>
    (emu \<times> return_process_rx) run" where
  "thread_func_nic_pass ov t n_veth env s = nic_rx_ports ov t n_veth 0 (nat (assigned_queue_count t)) env s"

fun thread_func_nic :: "overlap \<Rightarrow> thread_data \<Rightarrow> int \<Rightarrow> (nat \<Rightarrow> pass_env) list \<Rightarrow> emu \<times> return_process_rx \<Rightarrow>
    (emu \<times> return_process_rx) run" where
  "thread_func_nic ov t n_veth [] s = Some (Inr s)"
| "thread_func_nic ov t n_veth (x # xs) s = rthen (thread_func_nic_pass ov t n_veth x s) (thread_func_nic ov t n_veth xs)"

section \<open>From the queues to the network\<close>

text \<open>
  The local array of a transmit thread: only the assigned queues are copied, all the others are
  indeterminate. A copy past the local array's 32 elements faults.
\<close>

definition assigned_queue :: "nat option list \<Rightarrow> nat \<Rightarrow> nat option res" where
  "assigned_queue qs w = arr_get (take NUM_OF_PER_DEST_QUEUES qs) w"

text \<open>
  Draining a queue of packets in transit into the collector. The loop repeats without progress
  when the queue is not empty and refuses the pull; the length of the collected batch is
  \<open>btx_index\<close>.
\<close>

definition pull_from :: "burst_tx mpmc_queue list \<Rightarrow> nat \<Rightarrow> (int \<times> burst_tx option \<times> burst_tx mpmc_queue list) run" where
  "pull_from qs i = rthen (Some (arr_get qs i)) (\<lambda>q.
     rthen (mpmc_queue_pull q) (\<lambda>(ret, x, q'). Some (Inr (ret, x, qs[i := q']))))"

definition queue_available :: "burst_tx mpmc_queue list \<Rightarrow> nat \<Rightarrow> u64" where
  "queue_available qs i = (if i < length qs then mpmc_queue_available (qs ! i) else 0)"

definition collect_non_local :: "int \<Rightarrow> burst_tx option \<Rightarrow> emu \<times> pkt list \<Rightarrow> (emu \<times> pkt list) res" where
  "collect_non_local w x = (\<lambda>(e, b).
     (case x of None \<Rightarrow> Inl Null_Deref
      | Some btx2 \<Rightarrow>
        let pkt = xsk_umem__get_data (xsk_umem__add_offset_to_addr (tx_addr btx2)) in
        rbind (encap_indirection (enet e) w (umem e) pkt) (\<lambda>m1.
          Inr (e\<lparr>umem := m1\<rparr>, b @ [(tx_addr btx2, tx_len btx2)]))))"

partial_function (option) drain_non_local :: "int \<Rightarrow> nat \<Rightarrow> emu \<times> pkt list \<Rightarrow> (emu \<times> pkt list) run" where
  "drain_non_local w i s =
     (if queue_available (non_local_per_dest_queue (fst s)) i \<noteq> 0 \<and> length (snd s) < MAX_BURST_TX then
        (case pull_from (non_local_per_dest_queue (fst s)) i of
           None \<Rightarrow> None
         | Some (Inl f) \<Rightarrow> Some (Inl f)
         | Some (Inr (ret, x, qs)) \<Rightarrow>
             if ret \<noteq> 0 then
               (case collect_non_local w x ((fst s)\<lparr>non_local_per_dest_queue := qs\<rparr>, snd s) of
                  Inl f \<Rightarrow> Some (Inl f)
                | Inr s' \<Rightarrow> drain_non_local w i s')
             else drain_non_local w i ((fst s)\<lparr>non_local_per_dest_queue := qs\<rparr>, snd s))
      else Some (Inr s))"

text \<open>
  Draining a queue of packets from the namespaces. The occupancy is logged before the pull, and
  the packet is encapsulated with the log position after it.
\<close>

definition log_local :: "int \<Rightarrow> int \<Rightarrow> emu \<Rightarrow> emu res" where
  "log_local buffer_occupancy w e = (let l = local_log e; k = buff_track l in
     guard_res Out_Of_Bounds (0 \<le> k \<and> k < TELEMETRY_SIZE)
       (Inr (e\<lparr>local_log := l\<lparr>buff := (buff l)(k := buffer_occupancy), q_num := (q_num l)(k := w),
          buff_time := (buff_time l)(k := now e), buff_track := k + 1\<rparr>\<rparr>)))"

definition collect_local :: "overlap \<Rightarrow> int \<Rightarrow> burst_tx option \<Rightarrow> emu \<times> pkt list \<Rightarrow> (emu \<times> pkt list) res" where
  "collect_local ov w x = (\<lambda>(e, b).
     (case x of None \<Rightarrow> Inl Null_Deref
      | Some btx2 \<Rightarrow>
        let pkt = xsk_umem__get_data (xsk_umem__add_offset_to_addr (tx_addr btx2)) in
        rbind (encap_veth ov (enet e) (etel e) w (umem e) pkt (tx_len btx2) (tx_addr btx2)
            (buff_track (local_log e))) (\<lambda>(m1, tel1, new_len).
          Inr (e\<lparr>umem := m1, etel := tel1\<rparr>, b @ [(tx_addr btx2, word_of_int new_len)]))))"

text \<open>\<open>buffer_occupancy\<close> is an \<open>int\<close>: the unsigned count is converted.\<close>

definition occupancy :: "burst_tx mpmc_queue list \<Rightarrow> nat \<Rightarrow> int" where
  "occupancy qs i = sint (ucast (queue_available qs i) :: u32)"

partial_function (option) drain_local :: "overlap \<Rightarrow> int \<Rightarrow> nat \<Rightarrow> emu \<times> pkt list \<Rightarrow> (emu \<times> pkt list) run" where
  "drain_local ov w i s =
     (if occupancy (local_per_dest_queue (fst s)) i \<noteq> 0 \<and> length (snd s) < MAX_BURST_TX then
        (case log_local (occupancy (local_per_dest_queue (fst s)) i) w (fst s) of
           Inl f \<Rightarrow> Some (Inl f)
         | Inr e1 \<Rightarrow>
           (case pull_from (local_per_dest_queue e1) i of
              None \<Rightarrow> None
            | Some (Inl f) \<Rightarrow> Some (Inl f)
            | Some (Inr (ret, x, qs)) \<Rightarrow>
                if ret \<noteq> 0 then
                  (case collect_local ov w x (e1\<lparr>local_per_dest_queue := qs\<rparr>, snd s) of
                     Inl f \<Rightarrow> Some (Inl f)
                   | Inr s' \<Rightarrow> drain_local ov w i s')
                else drain_local ov w i (e1\<lparr>local_per_dest_queue := qs\<rparr>, snd s)))
      else Some (Inr s))"

text \<open>The collected batch is sent if it is not empty.\<close>

definition emu_tx_burst :: "nat \<Rightarrow> pkt list \<Rightarrow> nat list \<Rightarrow> emu \<Rightarrow> emu run" where
  "emu_tx_burst pi b ks e = (if b = [] then Some (Inr e)
     else rthen (Some (arr_get (eports e) pi)) (\<lambda>p.
       rthen (port_tx_burst_collector (epool e) p b ks) (\<lambda>(bp', p', _).
         Some (Inr (e\<lparr>epool := bp', eports := (eports e)[pi := p']\<rparr>)))))"

definition nic_tx_non_local :: "thread_data \<Rightarrow> nat \<Rightarrow> nat list \<Rightarrow> nat \<Rightarrow> emu \<Rightarrow> emu run" where
  "nic_tx_non_local t pi ks w e = rthen (Some (assigned_queue (non_local_dest_queue_array t) w)) (\<lambda>q.
     case q of None \<Rightarrow> Some (Inr e)
     | Some i \<Rightarrow> rthen (Some (arr_get (non_local_per_dest_queue e) i)) (\<lambda>_. rthen (drain_non_local (int w) i (e, [])) (\<lambda>(e1, b). emu_tx_burst pi b ks e1)))"

definition nic_tx_local :: "overlap \<Rightarrow> thread_data \<Rightarrow> nat \<Rightarrow> nat list \<Rightarrow> nat \<Rightarrow> emu \<Rightarrow> emu run" where
  "nic_tx_local ov t pi ks w e = rthen (Some (assigned_queue (local_dest_queue_array t) w)) (\<lambda>q.
     case q of None \<Rightarrow> Some (Inr e)
     | Some i \<Rightarrow> rthen (Some (arr_get (local_per_dest_queue e) i)) (\<lambda>_. rthen (drain_local ov (int w) i (e, [])) (\<lambda>(e1, b). emu_tx_burst pi b ks e1)))"

text \<open>Running a step for each index below a bound.\<close>

fun run_upto :: "(nat \<Rightarrow> 'a \<Rightarrow> 'a run) \<Rightarrow> nat \<Rightarrow> nat \<Rightarrow> 'a \<Rightarrow> 'a run" where
  "run_upto f k 0 s = Some (Inr s)"
| "run_upto f k (Suc n) s = rthen (f k s) (run_upto f (k + 1) n)"

text \<open>
  What the kernel takes from the transmit rings is given by port, by kind of queue (\<open>False\<close> for
  the packets in transit) and by queue.
\<close>

type_synonym tx_env = "nat \<Rightarrow> bool \<Rightarrow> nat \<Rightarrow> nat list"

definition nic_tx_port :: "overlap \<Rightarrow> thread_data \<Rightarrow> tx_env \<Rightarrow> nat \<Rightarrow> emu \<Rightarrow> emu run" where
  "nic_tx_port ov t env k e = rthen (Some (port_at (ports_tx t) k)) (\<lambda>pi.
     rthen (run_upto (\<lambda>w. nic_tx_non_local t pi (env k False w) w) 0 (nat (assigned_perdest_count t)) e)
       (run_upto (\<lambda>w. nic_tx_local ov t pi (env k True w) w) 0 (nat (assigned_perdest_count t))))"

definition thread_func_veth_to_nic_tx_pass :: "overlap \<Rightarrow> thread_data \<Rightarrow> tx_env \<Rightarrow> emu \<Rightarrow> emu run" where
  "thread_func_veth_to_nic_tx_pass ov t env =
     run_upto (nic_tx_port ov t env) 0 (nat (assigned_queue_count t))"

fun thread_func_veth_to_nic_tx :: "overlap \<Rightarrow> thread_data \<Rightarrow> tx_env list \<Rightarrow> emu \<Rightarrow> emu run" where
  "thread_func_veth_to_nic_tx ov t [] e = Some (Inr e)"
| "thread_func_veth_to_nic_tx ov t (x # xs) e =
     rthen (thread_func_veth_to_nic_tx_pass ov t x e) (thread_func_veth_to_nic_tx ov t xs)"

section \<open>From the queues to a namespace\<close>

definition log_veth :: "int \<Rightarrow> emu \<Rightarrow> emu res" where
  "log_veth buffer_occupancy e = (let l = veth_log e; k = buff_track l in
     guard_res Out_Of_Bounds (0 \<le> k \<and> k < TELEMETRY_SIZE)
       (Inr (e\<lparr>veth_log := l\<lparr>buff := (buff l)(k := buffer_occupancy),
          buff_time := (buff_time l)(k := now e), buff_track := k + 1\<rparr>\<rparr>)))"

definition collect_veth :: "burst_tx option \<Rightarrow> emu \<times> pkt list \<Rightarrow> (emu \<times> pkt list) res" where
  "collect_veth x = (\<lambda>(e, b). (case x of None \<Rightarrow> Inl Null_Deref
     | Some btx \<Rightarrow> Inr (e, b @ [(tx_addr btx, tx_len btx)])))"

partial_function (option) drain_veth :: "nat \<Rightarrow> emu \<times> pkt list \<Rightarrow> (emu \<times> pkt list) run" where
  "drain_veth i s =
     (if occupancy (veth_side_queue (fst s)) i \<noteq> 0 \<and> length (snd s) < MAX_BURST_TX then
        (case log_veth (occupancy (veth_side_queue (fst s)) i) (fst s) of
           Inl f \<Rightarrow> Some (Inl f)
         | Inr e1 \<Rightarrow>
           (case pull_from (veth_side_queue e1) i of
              None \<Rightarrow> None
            | Some (Inl f) \<Rightarrow> Some (Inl f)
            | Some (Inr (ret, x, qs)) \<Rightarrow>
                if ret \<noteq> 0 then
                  (case collect_veth x (e1\<lparr>veth_side_queue := qs\<rparr>, snd s) of
                     Inl f \<Rightarrow> Some (Inl f)
                   | Inr s' \<Rightarrow> drain_veth i s')
                else drain_veth i (e1\<lparr>veth_side_queue := qs\<rparr>, snd s)))
      else Some (Inr s))"

definition thread_func_nic_to_veth_tx_pass :: "thread_data \<Rightarrow> nat list \<Rightarrow> emu \<Rightarrow> emu run" where
  "thread_func_nic_to_veth_tx_pass t ks e =
     rthen (Some (arr_get (veth_side_queue_array t) 0)) (\<lambda>q.
     rthen (Some (port_at (ports_tx t) 0)) (\<lambda>pi.
       case q of None \<Rightarrow> Some (Inr e)
       | Some i \<Rightarrow> rthen (Some (arr_get (veth_side_queue e) i)) (\<lambda>_. rthen (drain_veth i (e, [])) (\<lambda>(e1, b). emu_tx_burst pi b ks e1))))"

fun thread_func_nic_to_veth_tx :: "thread_data \<Rightarrow> nat list list \<Rightarrow> emu \<Rightarrow> emu run" where
  "thread_func_nic_to_veth_tx t [] e = Some (Inr e)"
| "thread_func_nic_to_veth_tx t (x # xs) e =
     rthen (thread_func_nic_to_veth_tx_pass t x e) (thread_func_nic_to_veth_tx t xs)"

text \<open>\<open>track_topo_change\<close> compares the topology number with the last one printed.\<close>

fun track_topo_change :: "u8 \<Rightarrow> u8 list \<Rightarrow> (u8 \<times> u8) list" where
  "track_topo_change prev [] = []"
| "track_topo_change prev (x # xs) = (if prev \<noteq> x then [(prev, x)] else []) @ track_topo_change x xs"

end
