(* ===== verification/Thread_Run.thy ===== *)
theory Thread_Run
  imports Threads
begin

text \<open>
  What the passes of \<open>Threads\<close> do to the queues, to the packets and to the rings.
\<close>

section \<open>Queues in a table\<close>

text \<open>Queue \<open>i\<close> of a table holds the entries \<open>xs\<close>.\<close>

definition queue_at :: "burst_tx mpmc_queue list \<Rightarrow> nat \<Rightarrow> nat \<Rightarrow> burst_tx list \<Rightarrow> bool" where
  "queue_at qs i k xs \<longleftrightarrow> i < length qs \<and> holds (qs ! i) k xs"

lemma push_to_room:
  assumes "queue_at qs i k xs" "length xs < 2 ^ k"
  shows "\<exists>q'. push_to qs i b = Some (Inr (1, qs[i := q'])) \<and> queue_at (qs[i := q']) i k (xs @ [b])"
  using holds_push[of "qs ! i" k xs b] assms by (auto simp: queue_at_def push_to_def)

lemma push_to_full:
  assumes "queue_at qs i k xs" "length xs = 2 ^ k"
  shows "push_to qs i b = Some (if full_overflows k (head (qs ! i)) then Inl Signed_Overflow else Inr (0, qs))"
  using holds_push_full[of "qs ! i" k xs b] assms by (auto simp: queue_at_def push_to_def)

lemma pull_from_some:
  assumes "queue_at qs i k (x # xs)"
  shows "\<exists>q'. mpmc_queue_pull (qs ! i) = Some (Inr (1, Some x, q')) \<and>
    pull_from qs i = Some (Inr (1, Some x, qs[i := q'])) \<and> queue_at (qs[i := q']) i k xs"
  using holds_pull[of "qs ! i" k x xs] assms by (auto simp: queue_at_def pull_from_def)

lemma queue_available_length: "queue_at qs i k xs \<Longrightarrow> unat (queue_available qs i) = length xs"
  using holds_available[of "qs ! i" k xs] by (auto simp: queue_at_def queue_available_def)

lemma queue_available_0: "queue_at qs i k xs \<Longrightarrow> queue_available qs i = 0 \<longleftrightarrow> xs = []"
  using queue_available_length[of qs i k xs] by (metis length_0_conv unat_eq_0)

section \<open>Draining a queue\<close>

text \<open>
  The three drain loops share a contract: an entry is taken from the queue and worked on until
  the queue is empty or the batch is full. \<open>put v q\<close> is state \<open>v\<close> with the loop's queue
  replaced by \<open>q\<close>; \<open>work n x v\<close> is what the loop does with entry \<open>x\<close> when it found \<open>n\<close>
  entries.
\<close>

fun work_all :: "(nat \<Rightarrow> burst_tx \<Rightarrow> 'v \<Rightarrow> ('v \<times> pkt) res) \<Rightarrow> nat \<Rightarrow> burst_tx list \<Rightarrow> 'v \<Rightarrow> ('v \<times> pkt list) res" where
  "work_all work n [] v = Inr (v, [])"
| "work_all work n (x # xs) v = rbind (work n x v) (\<lambda>(v', p).
     rbind (work_all work (n - 1) xs v') (\<lambda>(v'', ps). Inr (v'', p # ps)))"

locale drain_loop =
  fixes loop :: "'e \<times> pkt list \<Rightarrow> ('e \<times> pkt list) run"
    and put :: "'v \<Rightarrow> burst_tx mpmc_queue \<Rightarrow> 'e"
    and ok :: "'v \<Rightarrow> bool"
    and fits :: "nat \<Rightarrow> bool"
    and work :: "nat \<Rightarrow> burst_tx \<Rightarrow> 'v \<Rightarrow> ('v \<times> pkt) res"
  assumes stop: "ok v \<Longrightarrow> fits k \<Longrightarrow> holds q k xs \<Longrightarrow> xs = [] \<or> MAX_BURST_TX \<le> length b \<Longrightarrow>
      loop (put v q, b) = Some (Inr (put v q, b))"
    and step: "ok v \<Longrightarrow> fits k \<Longrightarrow> holds q k (x # xs) \<Longrightarrow> length b < MAX_BURST_TX \<Longrightarrow>
      work (length (x # xs)) x v = Inr (v', p) \<Longrightarrow>
      ok v' \<and> (\<exists>q'. mpmc_queue_pull q = Some (Inr (1, Some x, q')) \<and> holds q' k xs \<and>
        loop (put v q, b) = loop (put v' q', b @ [p]))"
    and fail: "ok v \<Longrightarrow> fits k \<Longrightarrow> holds q k (x # xs) \<Longrightarrow> length b < MAX_BURST_TX \<Longrightarrow>
      work (length (x # xs)) x v = Inl f \<Longrightarrow> loop (put v q, b) = Some (Inl f)"
begin

lemma drained:
  assumes "ok v" "fits k" "holds q k xs" "work_all work (length xs) (take (MAX_BURST_TX - length b) xs) v = Inr (v', ps)"
  shows "ok v' \<and> (\<exists>q'. holds q' k (drop (MAX_BURST_TX - length b) xs) \<and>
    loop (put v q, b) = Some (Inr (put v' q', b @ ps)))"
  using assms(1,3,4)
proof (induction xs arbitrary: v q b ps)
  case Nil
  then show ?case using stop[OF Nil.prems(1) assms(2) Nil.prems(2), of b] by auto
next
  case (Cons x xs)
  show ?case
  proof (cases "length b < MAX_BURST_TX")
    case False
    then show ?thesis using stop[OF Cons.prems(1) assms(2) Cons.prems(2), of b] Cons.prems by auto
  next
    case True
    then obtain n where n: "MAX_BURST_TX - length b = Suc n" by (metis Suc_diff_Suc)
    then have n': "MAX_BURST_TX - length (b @ [p]) = n" for p :: pkt by simp
    obtain v1 p ps' where w: "work (length (x # xs)) x v = Inr (v1, p)" "work_all work (length xs) (take n xs) v1 = Inr (v', ps')"
      "ps = p # ps'"
      using Cons.prems(3) unfolding n by (auto simp: res_simps)
    obtain q1 where q1: "ok v1" "holds q1 k xs" "loop (put v q, b) = loop (put v1 q1, b @ [p])"
      using step[OF Cons.prems(1) assms(2) Cons.prems(2) True w(1)] by blast
    from Cons.IH[OF q1(1,2), of "b @ [p]" ps'] w(2) show ?thesis unfolding n' n q1(3) w(3) by simp
  qed
qed

lemma drain_fails:
  assumes "ok v" "fits k" "holds q k xs" "work_all work (length xs) (take (MAX_BURST_TX - length b) xs) v = Inl f"
  shows "loop (put v q, b) = Some (Inl f)"
  using assms(1,3,4)
proof (induction xs arbitrary: v q b)
  case (Cons x xs)
  show ?case
  proof (cases "length b < MAX_BURST_TX")
    case True
    then obtain n where n: "MAX_BURST_TX - length b = Suc n" by (metis Suc_diff_Suc)
    then have n': "MAX_BURST_TX - length (b @ [p]) = n" for p :: pkt by simp
    show ?thesis
    proof (cases "work (length (x # xs)) x v")
      case (Inl g)
      then have "f = g" using Cons.prems(3) unfolding n by simp
      then show ?thesis using fail[OF Cons.prems(1) assms(2) Cons.prems(2) True Inl] by simp
    next
      case (Inr r)
      obtain v1 p where r: "r = (v1, p)" by (cases r)
      have w: "work_all work (length xs) (take n xs) v1 = Inl f"
        using Cons.prems(3) Inr unfolding n r by (auto simp: res_simps)
      obtain q1 where q1: "ok v1" "holds q1 k xs" "loop (put v q, b) = loop (put v1 q1, b @ [p])"
        using step[OF Cons.prems(1) assms(2) Cons.prems(2) True Inr[unfolded r]] by blast
      from Cons.IH[OF q1(1,2), of "b @ [p]"] w show ?thesis unfolding n' q1(3) by simp
    qed
  qed (use Cons.prems in simp)
qed simp

end

text \<open>The entry work of the three loops, without the queue.\<close>

definition first_pkt :: "emu \<times> pkt list \<Rightarrow> (emu \<times> pkt) res" where
  "first_pkt s = Inr (fst s, snd s ! 0)"

definition work_non_local :: "int \<Rightarrow> nat \<Rightarrow> burst_tx \<Rightarrow> emu \<Rightarrow> (emu \<times> pkt) res" where
  "work_non_local w n x e = rbind (collect_non_local w (Some x) (e, [])) first_pkt"

definition work_local :: "overlap \<Rightarrow> int \<Rightarrow> nat \<Rightarrow> burst_tx \<Rightarrow> emu \<Rightarrow> (emu \<times> pkt) res" where
  "work_local ov w n x e = rbind (log_local (int n) w e) (\<lambda>e1. rbind (collect_local ov w (Some x) (e1, [])) first_pkt)"

definition work_veth :: "nat \<Rightarrow> burst_tx \<Rightarrow> emu \<Rightarrow> (emu \<times> pkt) res" where
  "work_veth n x e = rbind (log_veth (int n) e) (\<lambda>e1. rbind (collect_veth (Some x) (e1, [])) first_pkt)"

definition put_non_local :: "nat \<Rightarrow> emu \<Rightarrow> burst_tx mpmc_queue \<Rightarrow> emu" where
  "put_non_local i e q = e\<lparr>non_local_per_dest_queue := (non_local_per_dest_queue e)[i := q]\<rparr>"

definition put_local :: "nat \<Rightarrow> emu \<Rightarrow> burst_tx mpmc_queue \<Rightarrow> emu" where
  "put_local i e q = e\<lparr>local_per_dest_queue := (local_per_dest_queue e)[i := q]\<rparr>"

definition put_veth :: "nat \<Rightarrow> emu \<Rightarrow> burst_tx mpmc_queue \<Rightarrow> emu" where
  "put_veth i e q = e\<lparr>veth_side_queue := (veth_side_queue e)[i := q]\<rparr>"

lemma occupancy_length:
  assumes "queue_at qs i k xs" "k \<le> 30"
  shows "occupancy qs i = int (length xs)"
proof -
  have "length xs \<le> 2 ^ k" using assms(1) by (simp add: queue_at_def holds_def)
  also have "(2::nat) ^ k \<le> 2 ^ 30" using assms(2) by (intro power_increasing) simp_all
  finally have l: "length xs < 2 ^ 31" by simp
  have "unat (ucast (queue_available qs i) :: u32) = length xs mod 2 ^ 32"
    using queue_available_length[OF assms(1)] by (simp add: unsigned_ucast_eq take_bit_eq_mod)
  also have "\<dots> = length xs" using l by simp
  finally have u: "unat (ucast (queue_available qs i) :: u32) = length xs" .
  show ?thesis unfolding occupancy_def using sint_small[of "ucast (queue_available qs i) :: u32"] u l by simp
qed

named_theorems put_simps \<open>states with one queue replaced\<close>

lemma put_non_local_simps [put_simps]:
  "umem (put_non_local i e q) = umem e" "enet (put_non_local i e q) = enet e"
  "non_local_per_dest_queue (put_non_local i e q) = (non_local_per_dest_queue e)[i := q]"
  "(put_non_local i e q)\<lparr>non_local_per_dest_queue := (non_local_per_dest_queue e)[i := q']\<rparr> = put_non_local i e q'"
  "(put_non_local i e q)\<lparr>umem := m\<rparr> = put_non_local i (e\<lparr>umem := m\<rparr>) q"
  by (simp_all add: put_non_local_def)

lemma put_local_simps [put_simps]:
  "umem (put_local i e q) = umem e" "enet (put_local i e q) = enet e" "etel (put_local i e q) = etel e"
  "local_log (put_local i e q) = local_log e" "now (put_local i e q) = now e"
  "local_per_dest_queue (put_local i e q) = (local_per_dest_queue e)[i := q]"
  "(put_local i e q)\<lparr>local_per_dest_queue := (local_per_dest_queue e)[i := q']\<rparr> = put_local i e q'"
  "(put_local i e q)\<lparr>umem := m, etel := t\<rparr> = put_local i (e\<lparr>umem := m, etel := t\<rparr>) q"
  "(put_local i e q)\<lparr>local_log := l\<rparr> = put_local i (e\<lparr>local_log := l\<rparr>) q"
  "(put_local i (e\<lparr>local_log := l\<rparr>) q)\<lparr>local_per_dest_queue := (local_per_dest_queue e)[i := q']\<rparr> = put_local i (e\<lparr>local_log := l\<rparr>) q'"
  "(put_local i (e\<lparr>local_log := l\<rparr>) q)\<lparr>local_per_dest_queue := (local_per_dest_queue e)[i := q'], umem := m, etel := t\<rparr> =
    put_local i (e\<lparr>local_log := l, umem := m, etel := t\<rparr>) q'"
  by (simp_all add: put_local_def)

lemma put_veth_simps [put_simps]:
  "veth_log (put_veth i e q) = veth_log e" "now (put_veth i e q) = now e"
  "veth_side_queue (put_veth i e q) = (veth_side_queue e)[i := q]"
  "(put_veth i e q)\<lparr>veth_side_queue := (veth_side_queue e)[i := q']\<rparr> = put_veth i e q'"
  "(put_veth i e q)\<lparr>veth_log := l\<rparr> = put_veth i (e\<lparr>veth_log := l\<rparr>) q"
  "(put_veth i (e\<lparr>veth_log := l\<rparr>) q)\<lparr>veth_side_queue := (veth_side_queue e)[i := q']\<rparr> = put_veth i (e\<lparr>veth_log := l\<rparr>) q'"
  by (simp_all add: put_veth_def)

lemmas work_simps = work_non_local_def work_local_def work_veth_def collect_non_local_def collect_local_def
  collect_veth_def log_local_def log_veth_def first_pkt_def Let_def res_simps put_simps

lemma queue_at_update: "i < length qs \<Longrightarrow> holds q k xs \<Longrightarrow> queue_at (qs[i := q]) i k xs"
  by (simp add: queue_at_def)

interpretation from_non_local: drain_loop "drain_non_local w i" "put_non_local i"
  "\<lambda>e :: emu. i < length (non_local_per_dest_queue e)" "\<lambda>k. True" "work_non_local w" for w i
proof unfold_locales
  fix v :: emu and k q and b :: "pkt list" and xs :: "burst_tx list"
  assume l: "i < length (non_local_per_dest_queue v)" and h: "holds q k xs" and c: "xs = [] \<or> MAX_BURST_TX \<le> length b"
  show "drain_non_local w i (put_non_local i v q, b) = Some (Inr (put_non_local i v q, b))"
    using queue_available_0[OF queue_at_update[OF l h]] c
    by (subst drain_non_local.simps) (auto simp: put_simps)
next
  fix v v' :: emu and k q x p and b :: "pkt list" and xs :: "burst_tx list"
  assume l: "i < length (non_local_per_dest_queue v)" and h: "holds q k (x # xs)" and b: "length b < MAX_BURST_TX"
  note qa = queue_at_update[OF l h]
  obtain q' where q': "pull_from ((non_local_per_dest_queue v)[i := q]) i = Some (Inr (1, Some x, (non_local_per_dest_queue v)[i := q']))"
    "holds q' k xs" "mpmc_queue_pull q = Some (Inr (1, Some x, q'))" using pull_from_some[OF qa] l by (auto simp: queue_at_def)
  have av: "queue_available ((non_local_per_dest_queue v)[i := q]) i \<noteq> 0" using queue_available_0[OF qa] by simp
  note run = drain_non_local.simps[of w i "(put_non_local i v q, b)"]
  {
    assume w: "work_non_local w (length (x # xs)) x v = Inr (v', p)"
    then have "drain_non_local w i (put_non_local i v q, b) = drain_non_local w i (put_non_local i v' q', b @ [p])"
      using q' av b by (subst run) (auto simp: work_simps)
    moreover have "i < length (non_local_per_dest_queue v')" using w l by (auto simp: work_simps)
    ultimately show "i < length (non_local_per_dest_queue v') \<and> (\<exists>q'. mpmc_queue_pull q = Some (Inr (1, Some x, q')) \<and> holds q' k xs \<and>
        drain_non_local w i (put_non_local i v q, b) = drain_non_local w i (put_non_local i v' q', b @ [p]))"
      using q'(2,3) by blast
  }
  fix f
  assume "work_non_local w (length (x # xs)) x v = Inl f"
  then show "drain_non_local w i (put_non_local i v q, b) = Some (Inl f)"
    using q' av b by (subst run) (auto simp: work_simps)
qed

interpretation from_local: drain_loop "drain_local ov w i" "put_local i"
  "\<lambda>e :: emu. i < length (local_per_dest_queue e)" "\<lambda>k. k \<le> 30" "work_local ov w" for ov w i
proof unfold_locales
  fix v :: emu and k q and b :: "pkt list" and xs :: "burst_tx list"
  assume l: "i < length (local_per_dest_queue v)" and h: "holds q k xs" and c: "xs = [] \<or> MAX_BURST_TX \<le> length b" and k: "k \<le> 30"
  show "drain_local ov w i (put_local i v q, b) = Some (Inr (put_local i v q, b))"
    using occupancy_length[OF queue_at_update[OF l h] k] c
    by (subst drain_local.simps) (auto simp: put_simps)
next
  fix v v' :: emu and k q x p and b :: "pkt list" and xs :: "burst_tx list"
  assume l: "i < length (local_per_dest_queue v)" and h: "holds q k (x # xs)" and b: "length b < MAX_BURST_TX" and k: "k \<le> 30"
  note qa = queue_at_update[OF l h]
  obtain q' where q': "pull_from ((local_per_dest_queue v)[i := q]) i = Some (Inr (1, Some x, (local_per_dest_queue v)[i := q']))"
    "holds q' k xs" "mpmc_queue_pull q = Some (Inr (1, Some x, q'))" using pull_from_some[OF qa] l by (auto simp: queue_at_def)
  have av: "occupancy ((local_per_dest_queue v)[i := q]) i = int (length (x # xs))" by (rule occupancy_length[OF qa k])
  note run = drain_local.simps[of ov w i "(put_local i v q, b)"]
  {
    assume w: "work_local ov w (length (x # xs)) x v = Inr (v', p)"
    then have "drain_local ov w i (put_local i v q, b) = drain_local ov w i (put_local i v' q', b @ [p])"
      using q' av b by (subst run) (auto simp: work_simps)
    moreover have "i < length (local_per_dest_queue v')" using w l by (auto simp: work_simps)
    ultimately show "i < length (local_per_dest_queue v') \<and> (\<exists>q'. mpmc_queue_pull q = Some (Inr (1, Some x, q')) \<and> holds q' k xs \<and>
        drain_local ov w i (put_local i v q, b) = drain_local ov w i (put_local i v' q', b @ [p]))"
      using q'(2,3) by blast
  }
  fix f
  assume "work_local ov w (length (x # xs)) x v = Inl f"
  then show "drain_local ov w i (put_local i v q, b) = Some (Inl f)"
    using q' av b by (subst run) (auto simp: work_simps)
qed

interpretation from_veth: drain_loop "drain_veth i" "put_veth i"
  "\<lambda>e :: emu. i < length (veth_side_queue e)" "\<lambda>k. k \<le> 30" work_veth for i
proof unfold_locales
  fix v :: emu and k q and b :: "pkt list" and xs :: "burst_tx list"
  assume l: "i < length (veth_side_queue v)" and h: "holds q k xs" and c: "xs = [] \<or> MAX_BURST_TX \<le> length b" and k: "k \<le> 30"
  show "drain_veth i (put_veth i v q, b) = Some (Inr (put_veth i v q, b))"
    using occupancy_length[OF queue_at_update[OF l h] k] c
    by (subst drain_veth.simps) (auto simp: put_simps)
next
  fix v v' :: emu and k q x p and b :: "pkt list" and xs :: "burst_tx list"
  assume l: "i < length (veth_side_queue v)" and h: "holds q k (x # xs)" and b: "length b < MAX_BURST_TX" and k: "k \<le> 30"
  note qa = queue_at_update[OF l h]
  obtain q' where q': "pull_from ((veth_side_queue v)[i := q]) i = Some (Inr (1, Some x, (veth_side_queue v)[i := q']))"
    "holds q' k xs" "mpmc_queue_pull q = Some (Inr (1, Some x, q'))" using pull_from_some[OF qa] l by (auto simp: queue_at_def)
  have av: "occupancy ((veth_side_queue v)[i := q]) i = int (length (x # xs))" by (rule occupancy_length[OF qa k])
  note run = drain_veth.simps[of i "(put_veth i v q, b)"]
  {
    assume w: "work_veth (length (x # xs)) x v = Inr (v', p)"
    then have "drain_veth i (put_veth i v q, b) = drain_veth i (put_veth i v' q', b @ [p])"
      using q' av b by (subst run) (auto simp: work_simps)
    moreover have "i < length (veth_side_queue v')" using w l by (auto simp: work_simps)
    ultimately show "i < length (veth_side_queue v') \<and> (\<exists>q'. mpmc_queue_pull q = Some (Inr (1, Some x, q')) \<and> holds q' k xs \<and>
        drain_veth i (put_veth i v q, b) = drain_veth i (put_veth i v' q', b @ [p]))"
      using q'(2,3) by blast
  }
  fix f
  assume "work_veth (length (x # xs)) x v = Inl f"
  then show "drain_veth i (put_veth i v q, b) = Some (Inl f)"
    using q' av b by (subst run) (auto simp: work_simps)
qed

section \<open>Rewriting disjoint frames\<close>

definition frame_at :: "burst_tx \<Rightarrow> nat" where
  "frame_at b = unat (tx_addr b)"

definition apart :: "(burst_tx \<Rightarrow> nat) \<Rightarrow> burst_tx \<Rightarrow> burst_tx \<Rightarrow> bool" where
  "apart sp x y \<longleftrightarrow> frame_at x + sp x \<le> frame_at y \<or> frame_at y + sp y \<le> frame_at x"

text \<open>Each frame of the list is replaced in turn, depending only on its own \<open>sp\<close> bytes.\<close>

fun rewrite_frames :: "(burst_tx \<Rightarrow> u8 list \<Rightarrow> u8 list) \<Rightarrow> (burst_tx \<Rightarrow> nat) \<Rightarrow> burst_tx list \<Rightarrow> u8 list \<Rightarrow> u8 list" where
  "rewrite_frames g sp [] m = m"
| "rewrite_frames g sp (x # xs) m =
     rewrite_frames g sp xs (splice m (frame_at x) (g x (slice m (frame_at x) (sp x))))"

lemma slice_splice_apart:
  assumes "a + length bs \<le> length m" "c + n \<le> length m" "c + n \<le> a \<or> a + length bs \<le> c"
  shows "slice (splice m a bs) c n = slice m c n"
  by (rule nth_equalityI) (use assms in \<open>auto simp: nth_splice_outside\<close>)

definition frames_ok :: "(burst_tx \<Rightarrow> u8 list \<Rightarrow> u8 list) \<Rightarrow> (burst_tx \<Rightarrow> nat) \<Rightarrow> nat \<Rightarrow> burst_tx list \<Rightarrow> bool" where
  "frames_ok g sp l xs \<longleftrightarrow> sorted_wrt (apart sp) xs \<and> (\<forall>x \<in> set xs. frame_at x + sp x \<le> l \<and>
     (\<forall>bs. length bs = sp x \<longrightarrow> length (g x bs) \<le> sp x))"

lemma frames_ok_tl: "frames_ok g sp l (x # xs) \<Longrightarrow> frames_ok g sp l xs"
  by (simp add: frames_ok_def)

lemma frames_ok_first:
  assumes "frames_ok g sp (length m) (x # xs)"
  shows "frame_at x + length (g x (slice m (frame_at x) (sp x))) \<le> length m"
    "frame_at x + length (g x (slice m (frame_at x) (sp x))) \<le> frame_at x + sp x"
proof -
  have "length (g x (slice m (frame_at x) (sp x))) \<le> sp x" "frame_at x + sp x \<le> length m"
    using assms by (auto simp: frames_ok_def)
  then show "frame_at x + length (g x (slice m (frame_at x) (sp x))) \<le> length m"
    "frame_at x + length (g x (slice m (frame_at x) (sp x))) \<le> frame_at x + sp x" by linarith+
qed

lemma rewrite_frames_kept:
  assumes "frames_ok g sp (length m) xs" "\<forall>x \<in> set xs. \<forall>bs. length bs = sp x \<longrightarrow> length (g x bs) \<le> w x"
    and "\<forall>x \<in> set xs. c + n \<le> frame_at x \<or> frame_at x + w x \<le> c" "c + n \<le> length m"
  shows "length (rewrite_frames g sp xs m) = length m \<and> slice (rewrite_frames g sp xs m) c n = slice m c n"
  using assms
proof (induction xs arbitrary: m)
  case (Cons x xs)
  let ?bs = "g x (slice m (frame_at x) (sp x))"
  note f = frames_ok_first[OF Cons.prems(1)]
  let ?m = "splice m (frame_at x) ?bs"
  have l: "length ?m = length m" using f(1) by simp
  have "frame_at x + sp x \<le> length m" using Cons.prems(1) by (simp add: frames_ok_def)
  then have w: "length ?bs \<le> w x" using Cons.prems(2) by simp
  have "slice ?m c n = slice m c n"
    by (rule slice_splice_apart[OF f(1) Cons.prems(4)]) (use Cons.prems(3) w in auto)
  moreover have "length (rewrite_frames g sp xs ?m) = length ?m \<and> slice (rewrite_frames g sp xs ?m) c n = slice ?m c n"
    by (rule Cons.IH) (use frames_ok_tl[OF Cons.prems(1)] Cons.prems(2-4) l in simp_all)
  ultimately show ?case using l by simp
qed simp

lemma rewrite_frames_outside:
  assumes "frames_ok g sp (length m) xs" "\<forall>x \<in> set xs. c + n \<le> frame_at x \<or> frame_at x + sp x \<le> c" "c + n \<le> length m"
  shows "length (rewrite_frames g sp xs m) = length m \<and> slice (rewrite_frames g sp xs m) c n = slice m c n"
  using rewrite_frames_kept[OF assms(1) _ assms(2,3)] assms(1) unfolding frames_ok_def by blast

lemma rewrite_frames_at:
  assumes "frames_ok g sp (length m) xs" "x \<in> set xs"
  shows "slice (rewrite_frames g sp xs m) (frame_at x) (length (g x (slice m (frame_at x) (sp x)))) =
    g x (slice m (frame_at x) (sp x))"
  using assms
proof (induction xs arbitrary: m)
  case (Cons y ys)
  let ?bs = "g y (slice m (frame_at y) (sp y))"
  let ?m = "splice m (frame_at y) ?bs"
  note f = frames_ok_first[OF Cons.prems(1)]
  have l: "length ?m = length m" using f(1) by simp
  have tl: "frames_ok g sp (length ?m) ys" using frames_ok_tl[OF Cons.prems(1)] l by simp
  show ?case
  proof (cases "x \<in> set ys")
    case True
    have ap: "apart sp y x" and bx: "frame_at x + sp x \<le> length m" using Cons.prems(1) True by (auto simp: frames_ok_def)
    have "slice ?m (frame_at x) (sp x) = slice m (frame_at x) (sp x)"
      by (rule slice_splice_apart[OF f(1) bx]) (use ap f(2) in \<open>auto simp: apart_def\<close>)
    then show ?thesis using Cons.IH[OF tl True] by simp
  next
    case False
    then have x: "x = y" using Cons.prems(2) by simp
    have "\<forall>z \<in> set ys. frame_at y + sp y \<le> frame_at z \<or> frame_at z + sp z \<le> frame_at y"
      using Cons.prems(1) by (auto simp: frames_ok_def apart_def)
    then have "\<forall>z \<in> set ys. frame_at y + length ?bs \<le> frame_at z \<or> frame_at z + sp z \<le> frame_at y"
      using f(2) le_trans by blast
    then have "slice (rewrite_frames g sp ys ?m) (frame_at y) (length ?bs) = slice ?m (frame_at y) (length ?bs)"
      by (rule rewrite_frames_outside[OF tl, THEN conjunct2]) (simp only: l f(1))
    then show ?thesis using f(1) by (simp add: x)
  qed
qed simp

section \<open>The work on frames\<close>

definition local_span :: "burst_tx \<Rightarrow> nat" where
  "local_span x = max (40 + unat (tx_len x)) 42"

definition local_frame :: "u8 list \<Rightarrow> burst_tx \<Rightarrow> u8 list \<Rightarrow> u8 list" where
  "local_frame mac x bs = encap_header (take 40 bs) mac @ take (unat (tx_len x)) bs"

definition transit_span :: "burst_tx \<Rightarrow> nat" where
  "transit_span x = 74"

definition transit_frame :: "u8 list \<Rightarrow> u8 list \<Rightarrow> burst_tx \<Rightarrow> u8 list \<Rightarrow> u8 list" where
  "transit_frame mac src x bs = transit_header (take 40 bs) mac src (network_host (addr_at bs 70))"

lemma take_slice: "k \<le> n \<Longrightarrow> take k (slice m a n) = slice m a k"
  by (simp add: slice_def min_def)

lemma addr_slice: "a + 74 \<le> length m \<Longrightarrow> addr_at (slice m a 74) 70 = addr_at m (a + 70)"
  by (simp add: addr_at_def add.commute)

lemma frame_data: "frame_at x < 2 ^ 48 \<Longrightarrow> xsk_umem__get_data (xsk_umem__add_offset_to_addr (tx_addr x)) = frame_at x"
  by (simp add: frame_at_def add_offset_small xsk_umem__get_data_def)

lemma work_non_local_run:
  assumes "next_mac (enet e) w = Some mac" "6 \<le> length (out_eth_src (enet e))" "frame_at x < 2 ^ 48"
    and m: "frame_at x + transit_span x \<le> length (umem e)"
  shows "work_non_local w n x e = Inr (e\<lparr>umem := splice (umem e) (frame_at x)
      (transit_frame mac (out_eth_src (enet e)) x (slice (umem e) (frame_at x) (transit_span x)))\<rparr>, (tx_addr x, tx_len x))"
proof -
  have m74: "frame_at x + 74 \<le> length (umem e)" using m by (simp add: transit_span_def)
  show ?thesis
    using encap_indirection_run[OF assms(1) m74 assms(2)] frame_data[OF assms(3)]
    by (simp add: work_simps transit_frame_def transit_span_def take_slice addr_slice m74)
qed

lemma work_local_run:
  assumes mac: "next_mac (enet e) w = Some mac" and a: "frame_at x + 40 + unat (tx_len x) < 2 ^ 31"
    and m: "frame_at x + local_span x \<le> length (umem e)"
    and t: "0 \<le> buff_track (local_log e)" "buff_track (local_log e) + 1 < TELEMETRY_SIZE"
  shows "work_local copy_bytes w n x e = Inr (e\<lparr>local_log := (local_log e)\<lparr>
        buff := (buff (local_log e))(buff_track (local_log e) := int n),
        q_num := (q_num (local_log e))(buff_track (local_log e) := w),
        buff_time := (buff_time (local_log e))(buff_track (local_log e) := now e),
        buff_track := buff_track (local_log e) + 1\<rparr>,
      umem := splice (umem e) (frame_at x) (local_frame mac x (slice (umem e) (frame_at x) (local_span x))),
      etel := encap_log (etel e) (slice (umem e) (frame_at x) 42) (buff_track (local_log e) + 1)\<rparr>,
      (tx_addr x, tx_len x + 40))"
proof -
  have l: "unat (tx_len x) \<le> local_span x" "40 \<le> local_span x" by (simp_all add: local_span_def)
  have m': "frame_at x + 40 + unat (tx_len x) \<le> length (umem e)" "frame_at x + 42 \<le> length (umem e)"
    using m by (simp_all add: local_span_def)
  have "frame_at x < 2 ^ 48" using a by simp
  note d = frame_data[OF this]
  let ?k = "buff_track (local_log e) + 1"
  have dbg: "umem e ! (frame_at x + 23) = PROTO_TCP \<longrightarrow> 0 \<le> ?k \<and> ?k < TELEMETRY_SIZE" using t by simp
  have wi: "word_of_int (int (unat (tx_len x)) + 40) = tx_len x + 40" by simp
  show ?thesis
    using encap_veth_run[OF mac frame_at_def a m' dbg, of "etel e"] t
    by (simp add: work_simps d wi local_frame_def take_slice[OF l(1)] take_slice[OF l(2)])
qed

lemma work_non_local_all:
  assumes "next_mac (enet e) w = Some mac" "6 \<le> length (out_eth_src (enet e))" "\<forall>x \<in> set xs. frame_at x < 2 ^ 48"
    and "frames_ok (transit_frame mac (out_eth_src (enet e))) transit_span (length (umem e)) xs"
  shows "work_all (work_non_local w) n xs e =
    Inr (e\<lparr>umem := rewrite_frames (transit_frame mac (out_eth_src (enet e))) transit_span xs (umem e)\<rparr>,
      map (\<lambda>x. (tx_addr x, tx_len x)) xs)"
  using assms
proof (induction xs arbitrary: e n)
  case (Cons x xs)
  let ?g = "transit_frame mac (out_eth_src (enet e))"
  have x: "frame_at x < 2 ^ 48" "frame_at x + transit_span x \<le> length (umem e)"
    using Cons.prems(3,4) by (simp_all add: frames_ok_def)
  let ?e1 = "e\<lparr>umem := splice (umem e) (frame_at x) (?g x (slice (umem e) (frame_at x) (transit_span x)))\<rparr>"
  note w = work_non_local_run[OF Cons.prems(1,2) x, of n]
  have l: "length (umem ?e1) = length (umem e)" using frames_ok_first(1)[OF Cons.prems(4)] by simp
  have "work_all (work_non_local w) (n - 1) xs ?e1 = Inr (?e1\<lparr>umem := rewrite_frames ?g transit_span xs (umem ?e1)\<rparr>,
      map (\<lambda>x. (tx_addr x, tx_len x)) xs)"
    using Cons.IH[of ?e1 "n - 1"] Cons.prems(1-3) frames_ok_tl[OF Cons.prems(4)] l by simp
  then show ?case using w by simp
qed simp

lemma work_local_all:
  assumes "next_mac (enet e) w = Some mac" "\<forall>x \<in> set xs. frame_at x + 40 + unat (tx_len x) < 2 ^ 31"
    and "frames_ok (local_frame mac) local_span (length (umem e)) xs"
    and "0 \<le> buff_track (local_log e)" "buff_track (local_log e) + int (length xs) < TELEMETRY_SIZE"
  shows "\<exists>l t. work_all (work_local copy_bytes w) n xs e =
      Inr (e\<lparr>local_log := l, umem := rewrite_frames (local_frame mac) local_span xs (umem e), etel := t\<rparr>,
        map (\<lambda>x. (tx_addr x, tx_len x + 40)) xs) \<and>
    buff_track l = buff_track (local_log e) + int (length xs) \<and>
    (\<forall>i < length xs. buff l (buff_track (local_log e) + int i) = int (n - i)) \<and>
    (\<forall>j < buff_track (local_log e). buff l j = buff (local_log e) j)"
  using assms
proof (induction xs arbitrary: e n)
  case Nil
  have "e = e\<lparr>local_log := local_log e, umem := umem e, etel := etel e\<rparr>" by simp
  then show ?case by (auto intro!: exI[of _ "local_log e"] exI[of _ "etel e"])
next
  case (Cons x xs)
  let ?g = "local_frame mac" and ?k = "buff_track (local_log e)"
  have x: "frame_at x + 40 + unat (tx_len x) < 2 ^ 31" "frame_at x + local_span x \<le> length (umem e)"
    using Cons.prems(2,3) by (simp_all add: frames_ok_def)
  have k: "?k + 1 < TELEMETRY_SIZE \<or> xs = [] \<and> ?k + 1 < TELEMETRY_SIZE" using Cons.prems(5) by auto
  then have k: "?k + 1 < TELEMETRY_SIZE" by blast
  obtain e1 where w: "work_local copy_bytes w n x e = Inr (e1, (tx_addr x, tx_len x + 40))"
    and e1: "enet e1 = enet e" "umem e1 = splice (umem e) (frame_at x) (?g x (slice (umem e) (frame_at x) (local_span x)))"
      "buff_track (local_log e1) = ?k + 1" "buff (local_log e1) = (buff (local_log e))(?k := int n)"
      "\<And>l m t. e1\<lparr>local_log := l, umem := m, etel := t\<rparr> = e\<lparr>local_log := l, umem := m, etel := t\<rparr>"
    using work_local_run[OF Cons.prems(1) x Cons.prems(4) k, of n] by auto
  have len: "length (umem e1) = length (umem e)" using frames_ok_first(1)[OF Cons.prems(3)] by (simp add: e1(2))
  have p: "next_mac (enet e1) w = Some mac" "\<forall>x\<in>set xs. frame_at x + 40 + unat (tx_len x) < 2 ^ 31"
    "frames_ok ?g local_span (length (umem e1)) xs" "0 \<le> buff_track (local_log e1)"
    "buff_track (local_log e1) + int (length xs) < TELEMETRY_SIZE"
    using Cons.prems frames_ok_tl[OF Cons.prems(3)] len by (simp_all add: e1)
  from Cons.IH[OF p, of "n - 1"] obtain l t where r: "work_all (work_local copy_bytes w) (n - 1) xs e1 =
      Inr (e\<lparr>local_log := l, umem := rewrite_frames ?g local_span xs (umem e1), etel := t\<rparr>, map (\<lambda>x. (tx_addr x, tx_len x + 40)) xs)"
    "buff_track l = ?k + 1 + int (length xs)" "\<And>i. i < length xs \<Longrightarrow> buff l (?k + 1 + int i) = int (n - 1 - i)"
    "\<And>j. j < ?k + 1 \<Longrightarrow> buff l j = buff (local_log e1) j"
    unfolding e1 by auto
  have b: "buff l (?k + int i) = int (n - i)" if "i < length (x # xs)" for i
  proof (cases i)
    case 0
    then show ?thesis using r(4)[of ?k] by (simp add: e1)
  next
    case (Suc j)
    then have "buff l (?k + int i) = buff l (?k + 1 + int j)" by (intro arg_cong[of _ _ "buff l"]) simp
    also have "\<dots> = int (n - 1 - j)" by (rule r(3)) (use that Suc in simp)
    finally show ?thesis using Suc by simp
  qed
  have b': "buff l j = buff (local_log e) j" if "j < ?k" for j using r(4)[of j] that by (simp add: e1)
  have "work_all (work_local copy_bytes w) n (x # xs) e = Inr (e\<lparr>local_log := l,
      umem := rewrite_frames ?g local_span (x # xs) (umem e), etel := t\<rparr>, map (\<lambda>x. (tx_addr x, tx_len x + 40)) (x # xs))"
    using w r(1) e1(2) by simp
  moreover have "buff_track l = ?k + int (length (x # xs))" using r(2) by simp
  ultimately show ?case using b b' by blast
qed

text \<open>Frames that lie in the buffer area and do not overlap.\<close>

definition frames_in :: "(burst_tx \<Rightarrow> nat) \<Rightarrow> nat \<Rightarrow> burst_tx list \<Rightarrow> bool" where
  "frames_in sp l xs \<longleftrightarrow> sorted_wrt (apart sp) xs \<and> (\<forall>x \<in> set xs. frame_at x + sp x \<le> l)"

lemma local_frame_length: "length bs = local_span x \<Longrightarrow> length mac = 6 \<Longrightarrow> length (local_frame mac x bs) = 40 + unat (tx_len x)"
  by (simp add: local_frame_def local_span_def length_encap_header min_def)

lemma frames_in_local: "length mac = 6 \<Longrightarrow> frames_in local_span l xs \<Longrightarrow> frames_ok (local_frame mac) local_span l xs"
  by (simp add: frames_in_def frames_ok_def local_frame_length) (simp add: local_span_def)

lemma transit_frame_length: "length bs = 74 \<Longrightarrow> length mac = 6 \<Longrightarrow> 6 \<le> length src \<Longrightarrow> length (transit_frame mac src x bs) = 40"
  by (simp add: transit_frame_def length_transit_header)

lemma frames_in_transit: "length mac = 6 \<Longrightarrow> 6 \<le> length src \<Longrightarrow> frames_in transit_span l xs \<Longrightarrow>
    frames_ok (transit_frame mac src) transit_span l xs"
  by (simp add: frames_in_def frames_ok_def transit_frame_length transit_span_def)

definition outside_frames :: "(burst_tx \<Rightarrow> nat) \<Rightarrow> burst_tx list \<Rightarrow> nat \<Rightarrow> nat \<Rightarrow> bool" where
  "outside_frames sp xs c n \<longleftrightarrow> (\<forall>x \<in> set xs. c + n \<le> frame_at x \<or> frame_at x + sp x \<le> c)"

lemma put_local_id: "i < length (local_per_dest_queue e) \<Longrightarrow> put_local i e (local_per_dest_queue e ! i) = e"
  by (simp add: put_local_def)

lemma put_non_local_id: "i < length (non_local_per_dest_queue e) \<Longrightarrow> put_non_local i e (non_local_per_dest_queue e ! i) = e"
  by (simp add: put_non_local_def)

lemma put_veth_id: "i < length (veth_side_queue e) \<Longrightarrow> put_veth i e (veth_side_queue e ! i) = e"
  by (simp add: put_veth_def)

section \<open>An emulator with one packet\<close>

definition one_queue :: "burst_tx \<Rightarrow> burst_tx mpmc_queue" where
  "one_queue b = \<lparr>qmem = memtype_heap sample_sys, buffer_mask = 1,
     buffer = [\<lparr>sequence = 1, qdata = Some b\<rparr>, \<lparr>sequence = 1, qdata = None\<rparr>], tail = 1, head = 0\<rparr>"

lemma one_queue_holds: "holds (one_queue b) 1 [b]"
proof -
  have "Suc 0 \<le> i \<and> i < 2 \<longleftrightarrow> i = 1" for i :: nat by auto
  then have c: "(\<forall>i. Suc 0 \<le> i \<longrightarrow> i < 2 \<longrightarrow> P i) \<longleftrightarrow> P 1" for P :: "nat \<Rightarrow> bool" by metis
  show ?thesis by (simp add: holds_def one_queue_def slot_def c)
qed

definition sample_entry :: burst_tx where
  "sample_entry = \<lparr>tx_addr = 0, tx_len = 34, tx_n_pkts = 1\<rparr>"

definition sample_port :: port where
  "sample_port = \<lparr>pparams = \<lparr>iface = ''vethout2'', iface_queue = 0, ns_index = 0\<rparr>,
     bc = \<lparr>slab_cons = 0, slab_prod = 1, n_buffers_cons = 0, n_buffers_prod = 0\<rparr>,
     rxq = empty_ring \<lparr>desc_addr = 0, desc_len = 0, desc_options = 0\<rparr>, txq = empty_ring \<lparr>desc_addr = 0, desc_len = 0, desc_options = 0\<rparr>,
     umem_fq = empty_ring 0, umem_cq = empty_ring 0, umem_fq_initialized = True, n_pkts_rx = 0, n_pkts_tx = 0\<rparr>"

definition sample_pool :: bpool where
  "sample_pool = \<lparr>params = sample_params, slabs = [0, 1], buffers = [0, 0], n_slabs = 2, n_buffers = 2,
     n_slabs_available = 0, umem_cfg = sample_cfg, umem_size = 128\<rparr>"

definition sample_log :: buff_log where
  "sample_log = \<lparr>buff = (\<lambda>_. 0), q_num = (\<lambda>_. 0), buff_time = (\<lambda>_. (0, 0)), buff_track = 0\<rparr>"

definition sample_emu :: emu where
  "sample_emu = \<lparr>epool = sample_pool, eports = [sample_port], umem = sample_area, enet = sample_net,
     etel = \<lparr>seq = (\<lambda>_. 0), src_port = (\<lambda>_. 0)\<rparr>, now = (0, 0), local_log = sample_log, veth_log = sample_log,
     local_per_dest_queue = [one_queue sample_entry], non_local_per_dest_queue = [one_queue sample_entry],
     veth_side_queue = [one_queue sample_entry],
     local_dest_queue_overflow_count = 0, non_local_dest_queue_overflow_count = 0, veth_queue_overflow_count = 0\<rparr>"

lemma sample_emu_queues: "queue_at (local_per_dest_queue sample_emu) 0 1 [sample_entry]"
  "queue_at (non_local_per_dest_queue sample_emu) 0 1 [sample_entry]" "queue_at (veth_side_queue sample_emu) 0 1 [sample_entry]"
  using one_queue_holds by (simp_all add: queue_at_def sample_emu_def)

lemma sample_emu_facts: "enet sample_emu = sample_net" "umem sample_emu = sample_area" "local_log sample_emu = sample_log"
  "veth_log sample_emu = sample_log" "eports sample_emu = [sample_port]" "epool sample_emu = sample_pool"
  by (simp_all add: sample_emu_def)

lemma sample_entry_facts: "frame_at sample_entry = 0" "unat (tx_len sample_entry) = 34" "tx_addr sample_entry = 0" "tx_len sample_entry = 34"
  by (simp_all add: frame_at_def sample_entry_def)

lemma take_sample: "take MAX_BURST_TX [x] = [x]" "drop MAX_BURST_TX [x] = []"
  by (simp_all add: MAX_BURST_TX_def)

text \<open>Draining a queue of packets from the namespaces.\<close>

lemma drain_local_run:
  assumes "queue_at (local_per_dest_queue e) i k xs" "k \<le> 30" "next_mac (enet e) w = Some mac"
    and "frames_in local_span (length (umem e)) (take MAX_BURST_TX xs)"
    and "\<forall>x \<in> set xs. frame_at x + 40 + unat (tx_len x) < 2 ^ 31"
    and "0 \<le> buff_track (local_log e)" "buff_track (local_log e) + int MAX_BURST_TX < TELEMETRY_SIZE"
  shows "\<exists>q l m t. drain_local copy_bytes w i (e, []) =
      Some (Inr (e\<lparr>local_log := l, umem := m, etel := t, local_per_dest_queue := (local_per_dest_queue e)[i := q]\<rparr>,
        map (\<lambda>x. (tx_addr x, tx_len x + 40)) (take MAX_BURST_TX xs))) \<and>
    holds q k (drop MAX_BURST_TX xs) \<and> length m = length (umem e) \<and>
    (\<forall>x \<in> set (take MAX_BURST_TX xs). slice m (frame_at x) (40 + unat (tx_len x)) =
      encap_header (slice (umem e) (frame_at x) 40) mac @ slice (umem e) (frame_at x) (unat (tx_len x))) \<and>
    (\<forall>c n. c + n \<le> length m \<longrightarrow> outside_frames local_span (take MAX_BURST_TX xs) c n \<longrightarrow> slice m c n = slice (umem e) c n) \<and>
    (\<forall>j < length (take MAX_BURST_TX xs). buff l (buff_track (local_log e) + int j) = int (length xs - j))"
proof -
  let ?xs = "take MAX_BURST_TX xs" and ?g = "local_frame mac"
  let ?m = "rewrite_frames ?g local_span ?xs (umem e)"
  have i: "i < length (local_per_dest_queue e)" "holds (local_per_dest_queue e ! i) k xs"
    using assms(1) by (simp_all add: queue_at_def)
  note mac = next_macD(1)[OF assms(3)]
  note ok = frames_in_local[OF mac assms(4)]
  have "length ?xs \<le> MAX_BURST_TX" by simp
  then have tr: "buff_track (local_log e) + int (length ?xs) < TELEMETRY_SIZE" using assms(7) by linarith
  have "\<forall>x \<in> set ?xs. frame_at x + 40 + unat (tx_len x) < 2 ^ 31" using assms(5) by (auto dest: in_set_takeD)
  from work_local_all[OF assms(3) this ok assms(6) tr, of "length xs"] obtain l t where
    w: "work_all (work_local copy_bytes w) (length xs) ?xs e =
      Inr (e\<lparr>local_log := l, umem := ?m, etel := t\<rparr>, map (\<lambda>x. (tx_addr x, tx_len x + 40)) ?xs)"
    and b: "\<forall>j < length ?xs. buff l (buff_track (local_log e) + int j) = int (length xs - j)" by blast
  obtain q where q: "holds q k (drop MAX_BURST_TX xs)" "drain_local copy_bytes w i (e, []) =
      Some (Inr (put_local i (e\<lparr>local_log := l, umem := ?m, etel := t\<rparr>) q, map (\<lambda>x. (tx_addr x, tx_len x + 40)) ?xs))"
    using from_local.drained[OF i(1) assms(2) i(2), where b = "[]" and ov = copy_bytes and w = w] w put_local_id[OF i(1)] by auto
  have "slice ?m (frame_at x) (40 + unat (tx_len x)) =
      encap_header (slice (umem e) (frame_at x) 40) mac @ slice (umem e) (frame_at x) (unat (tx_len x))" if "x \<in> set ?xs" for x
  proof -
    have "frame_at x + local_span x \<le> length (umem e)" using assms(4) that by (simp add: frames_in_def)
    then have "length (slice (umem e) (frame_at x) (local_span x)) = local_span x" by simp
    note ll = local_frame_length[OF this mac]
    show ?thesis using rewrite_frames_at[OF ok that] unfolding ll
      by (simp add: local_frame_def take_slice local_span_def)
  qed
  moreover have "\<forall>c n. c + n \<le> length ?m \<longrightarrow> outside_frames local_span ?xs c n \<longrightarrow> slice ?m c n = slice (umem e) c n"
    "length ?m = length (umem e)"
    using rewrite_frames_outside[OF ok] rewrite_frames_outside[OF ok, of "length (umem e)" 0] assms(4)
    by (auto simp: outside_frames_def frames_in_def)
  ultimately show ?thesis using q b
    by (intro exI[of _ q] exI[of _ l] exI[of _ ?m] exI[of _ t]) (simp add: put_local_def)
qed

section \<open>Properties\<close>

text \<open>Property C13: draining a queue of packets from the namespaces always ends; it takes the oldest 20
  packets of the queue in order and leaves the others in it; every packet taken is moved up by
  40 bytes behind the outer headers for the next hop of the queue's destination, no byte
  outside these frames changes, and the occupancy found before each pull is logged.\<close>
theorem drain_local_correct:
  assumes "queue_at (local_per_dest_queue e) i k xs" "k \<le> 30" "next_mac (enet e) w = Some mac"
    and "frames_in local_span (length (umem e)) (take MAX_BURST_TX xs)"
    and "\<forall>x \<in> set xs. frame_at x + 40 + unat (tx_len x) < 2 ^ 31"
    and "0 \<le> buff_track (local_log e)" "buff_track (local_log e) + int MAX_BURST_TX < TELEMETRY_SIZE"
  shows "\<exists>q l m t. drain_local copy_bytes w i (e, []) =
      Some (Inr (e\<lparr>local_log := l, umem := m, etel := t, local_per_dest_queue := (local_per_dest_queue e)[i := q]\<rparr>,
        map (\<lambda>x. (tx_addr x, tx_len x + 40)) (take MAX_BURST_TX xs))) \<and>
    holds q k (drop MAX_BURST_TX xs) \<and> length m = length (umem e) \<and>
    (\<forall>x \<in> set (take MAX_BURST_TX xs). slice m (frame_at x) (40 + unat (tx_len x)) =
      encap_header (slice (umem e) (frame_at x) 40) mac @ slice (umem e) (frame_at x) (unat (tx_len x))) \<and>
    (\<forall>c n. c + n \<le> length m \<longrightarrow> outside_frames local_span (take MAX_BURST_TX xs) c n \<longrightarrow> slice m c n = slice (umem e) c n) \<and>
    (\<forall>j < length (take MAX_BURST_TX xs). buff l (buff_track (local_log e) + int j) = int (length xs - j))"
  by (rule drain_local_run[OF assms])

theorem drain_local_correct_witness:
  "\<exists>e' q. drain_local copy_bytes 1 0 (sample_emu, []) = Some (Inr (e', [(0, 74)])) \<and>
    slice (umem e') 0 74 = encap_header (slice sample_area 0 40) [1, 2, 3, 4, 5, 6] @ slice sample_area 0 34 \<and>
    local_per_dest_queue e' = [q] \<and> holds q 1 []"
proof -
  have 1: "frames_in local_span (length (umem sample_emu)) (take MAX_BURST_TX [sample_entry])"
    by (simp add: take_sample frames_in_def local_span_def sample_entry_facts sample_emu_facts sample_area_facts)
  have 2: "next_mac (enet sample_emu) 1 = Some [1, 2, 3, 4, 5, 6]" by (simp add: sample_emu_facts sample_lookups)
  have 3: "local_per_dest_queue sample_emu = [one_queue sample_entry]" by (simp add: sample_emu_def)
  show ?thesis
    using drain_local_correct[OF sample_emu_queues(1) _ 2 1]
    by (fastforce simp: take_sample sample_entry_facts sample_emu_facts sample_log_def MAX_BURST_TX_def TELEMETRY_SIZE_def 3)
qed

lemma drain_non_local_run:
  assumes "queue_at (non_local_per_dest_queue e) i k xs" "next_mac (enet e) w = Some mac" "6 \<le> length (out_eth_src (enet e))"
    and "frames_in transit_span (length (umem e)) (take MAX_BURST_TX xs)" "\<forall>x \<in> set xs. frame_at x < 2 ^ 48"
  shows "\<exists>q m. drain_non_local w i (e, []) =
      Some (Inr (e\<lparr>umem := m, non_local_per_dest_queue := (non_local_per_dest_queue e)[i := q]\<rparr>,
        map (\<lambda>x. (tx_addr x, tx_len x)) (take MAX_BURST_TX xs))) \<and>
    holds q k (drop MAX_BURST_TX xs) \<and> length m = length (umem e) \<and>
    (\<forall>x \<in> set (take MAX_BURST_TX xs). slice m (frame_at x) 40 =
      transit_header (slice (umem e) (frame_at x) 40) mac (out_eth_src (enet e)) (network_host (addr_at (umem e) (frame_at x + 70)))) \<and>
    (\<forall>c n. c + n \<le> length m \<longrightarrow> outside_frames (\<lambda>_. 40) (take MAX_BURST_TX xs) c n \<longrightarrow> slice m c n = slice (umem e) c n)"
proof -
  let ?xs = "take MAX_BURST_TX xs" and ?g = "transit_frame mac (out_eth_src (enet e))"
  let ?m = "rewrite_frames ?g transit_span ?xs (umem e)"
  have i: "i < length (non_local_per_dest_queue e)" "holds (non_local_per_dest_queue e ! i) k xs"
    using assms(1) by (simp_all add: queue_at_def)
  note mac = next_macD(1)[OF assms(2)]
  note ok = frames_in_transit[OF mac assms(3,4)]
  have "\<forall>x \<in> set ?xs. frame_at x < 2 ^ 48" using assms(5) by (auto dest: in_set_takeD)
  note w = work_non_local_all[OF assms(2,3) this ok, of "length xs"]
  obtain q where q: "holds q k (drop MAX_BURST_TX xs)" "drain_non_local w i (e, []) =
      Some (Inr (put_non_local i (e\<lparr>umem := ?m\<rparr>) q, map (\<lambda>x. (tx_addr x, tx_len x)) ?xs))"
    using from_non_local.drained[OF i(1) TrueI i(2), where b = "[]" and w = w] w put_non_local_id[OF i(1)] by auto
  have "slice ?m (frame_at x) 40 =
      transit_header (slice (umem e) (frame_at x) 40) mac (out_eth_src (enet e)) (network_host (addr_at (umem e) (frame_at x + 70)))"
    if "x \<in> set ?xs" for x
  proof -
    have a: "frame_at x + 74 \<le> length (umem e)" using assms(4) that by (simp add: frames_in_def transit_span_def)
    then have "length (slice (umem e) (frame_at x) 74) = 74" by simp
    note ll = transit_frame_length[OF this mac assms(3)]
    show ?thesis using rewrite_frames_at[OF ok that] unfolding transit_span_def ll
      by (simp add: transit_frame_def take_slice addr_slice[OF a])
  qed
  moreover have "length ?m = length (umem e)"
    using rewrite_frames_outside[OF ok, of "length (umem e)" 0] assms(4) by (auto simp: frames_in_def)
  moreover have "length (?g x bs) \<le> 40" if "length bs = transit_span x" for x bs
    using transit_frame_length[OF _ mac assms(3)] that by (simp add: transit_span_def)
  then have "\<forall>x \<in> set ?xs. \<forall>bs. length bs = transit_span x \<longrightarrow> length (?g x bs) \<le> 40" by blast
  from rewrite_frames_kept[OF ok this] calculation have
    "\<forall>c n. c + n \<le> length ?m \<longrightarrow> outside_frames (\<lambda>_. 40) ?xs c n \<longrightarrow> slice ?m c n = slice (umem e) c n"
    by (simp add: outside_frames_def)
  ultimately show ?thesis using q by (intro exI[of _ q] exI[of _ ?m]) (simp add: put_non_local_def)
qed

text \<open>Property C14: draining a queue of packets in transit always ends, takes the oldest 20 packets in
  order with their lengths, and gives each the outer headers of its next hop; no byte outside
  the first 40 bytes of these frames changes.\<close>
theorem drain_non_local_correct:
  assumes "queue_at (non_local_per_dest_queue e) i k xs" "next_mac (enet e) w = Some mac" "6 \<le> length (out_eth_src (enet e))"
    and "frames_in transit_span (length (umem e)) (take MAX_BURST_TX xs)" "\<forall>x \<in> set xs. frame_at x < 2 ^ 48"
  shows "\<exists>q m. drain_non_local w i (e, []) =
      Some (Inr (e\<lparr>umem := m, non_local_per_dest_queue := (non_local_per_dest_queue e)[i := q]\<rparr>,
        map (\<lambda>x. (tx_addr x, tx_len x)) (take MAX_BURST_TX xs))) \<and>
    holds q k (drop MAX_BURST_TX xs) \<and> length m = length (umem e) \<and>
    (\<forall>x \<in> set (take MAX_BURST_TX xs). slice m (frame_at x) 40 =
      transit_header (slice (umem e) (frame_at x) 40) mac (out_eth_src (enet e)) (network_host (addr_at (umem e) (frame_at x + 70)))) \<and>
    (\<forall>c n. c + n \<le> length m \<longrightarrow> outside_frames (\<lambda>_. 40) (take MAX_BURST_TX xs) c n \<longrightarrow> slice m c n = slice (umem e) c n)"
  by (rule drain_non_local_run[OF assms])

theorem drain_non_local_correct_witness:
  "\<exists>e' q. drain_non_local 1 0 (sample_emu, []) = Some (Inr (e', [(0, 34)])) \<and>
    non_local_per_dest_queue e' = [q] \<and> holds q 1 []"
proof -
  have 1: "frames_in transit_span (length (umem sample_emu)) (take MAX_BURST_TX [sample_entry])"
    by (simp add: take_sample frames_in_def transit_span_def sample_entry_facts sample_emu_facts sample_area_facts)
  have 2: "next_mac (enet sample_emu) 1 = Some [1, 2, 3, 4, 5, 6]" by (simp add: sample_emu_facts sample_lookups)
  have 3: "non_local_per_dest_queue sample_emu = [one_queue sample_entry]" by (simp add: sample_emu_def)
  have 4: "6 \<le> length (out_eth_src (enet sample_emu))" by (simp add: sample_emu_facts sample_net_def)
  show ?thesis
    using drain_non_local_correct[OF sample_emu_queues(2) 2 4 1]
    by (fastforce simp: take_sample sample_entry_facts 3)
qed

text \<open>The telemetry arrays have 30 million entries and their position is never
  checked: once they are full, the next packet that a transmit thread takes from a queue is
  logged outside them.\<close>
theorem telemetry_overflow:
  assumes "queue_at (local_per_dest_queue e) i k (x # xs)" "TELEMETRY_SIZE \<le> buff_track (local_log e)"
    and "queue_at (veth_side_queue e) j k (y # ys)" "TELEMETRY_SIZE \<le> buff_track (veth_log e)" "k \<le> 30"
  shows "drain_local ov w i (e, []) = Some (Inl Out_Of_Bounds) \<and> drain_veth j (e, []) = Some (Inl Out_Of_Bounds)"
proof
  have i: "i < length (local_per_dest_queue e)" "holds (local_per_dest_queue e ! i) k (x # xs)"
    and j: "j < length (veth_side_queue e)" "holds (veth_side_queue e ! j) k (y # ys)"
    using assms(1,3) by (simp_all add: queue_at_def)
  have l: "work_all (work_local ov w) (length (x # xs)) (take (MAX_BURST_TX - length ([] :: pkt list)) (x # xs)) e = Inl Out_Of_Bounds"
    and v: "work_all work_veth (length (y # ys)) (take (MAX_BURST_TX - length ([] :: pkt list)) (y # ys)) e = Inl Out_Of_Bounds"
    using assms(2,4) by (simp_all add: MAX_BURST_TX_def take_Cons' work_local_def log_local_def work_veth_def log_veth_def Let_def)
  show "drain_local ov w i (e, []) = Some (Inl Out_Of_Bounds)"
    using from_local.drain_fails[OF i(1) assms(5) i(2) l] by (simp add: put_local_id[OF i(1)])
  show "drain_veth j (e, []) = Some (Inl Out_Of_Bounds)"
    using from_veth.drain_fails[OF j(1) assms(5) j(2) v] by (simp add: put_veth_id[OF j(1)])
qed

theorem telemetry_overflow_witness:
  "drain_veth 0 (sample_emu\<lparr>veth_log := sample_log\<lparr>buff_track := 30000000\<rparr>, local_log := sample_log\<lparr>buff_track := 30000000\<rparr>\<rparr>, []) =
    Some (Inl Out_Of_Bounds)"
  by (rule telemetry_overflow[where i = 0 and k = 1 and x = sample_entry and xs = "[]" and y = sample_entry and ys = "[]", THEN conjunct2])
    (use sample_emu_queues in \<open>simp_all add: TELEMETRY_SIZE_def\<close>)

text \<open>The occupancy of a queue is logged at one position of the telemetry arrays, the
  sequence number and port of the TCP packet it was logged for at the next one.\<close>
theorem telemetry_off_by_one:
  assumes "queue_at (local_per_dest_queue e) i k [x]" "k \<le> 30" "next_mac (enet e) w = Some mac"
    and "frame_at x + local_span x \<le> length (umem e)" "frame_at x + 40 + unat (tx_len x) < 2 ^ 31"
    and "umem e ! (frame_at x + 23) = PROTO_TCP"
    and "0 \<le> buff_track (local_log e)" "buff_track (local_log e) + 1 < TELEMETRY_SIZE"
  shows "\<exists>e' b. drain_local copy_bytes w i (e, []) = Some (Inr (e', b)) \<and>
    buff (local_log e') (buff_track (local_log e)) = 1 \<and>
    seq (etel e') (buff_track (local_log e)) = seq (etel e) (buff_track (local_log e)) \<and>
    seq (etel e') (buff_track (local_log e) + 1) = ntohl (addr_at (umem e) (frame_at x + 38))"
proof -
  have i: "i < length (local_per_dest_queue e)" "holds (local_per_dest_queue e ! i) k [x]"
    using assms(1) by (simp_all add: queue_at_def)
  note w = work_local_run[OF assms(3,5,4,7,8), of "length [x]"]
  then have all: "\<exists>v p. work_all (work_local copy_bytes w) (length [x]) (take (MAX_BURST_TX - length ([] :: pkt list)) [x]) e = Inr (v, [p]) \<and>
      work_local copy_bytes w (length [x]) x e = Inr (v, p)"
    by (simp add: MAX_BURST_TX_def)
  have b: "frame_at x + 42 \<le> length (umem e)" using assms(4) by (simp add: local_span_def)
  have s: "word32_of_bytes (umem e ! (frame_at x + 41)) (umem e ! (frame_at x + 40)) (umem e ! (frame_at x + 39)) (umem e ! (frame_at x + 38)) =
      ntohl (addr_at (umem e) (frame_at x + 38))"
    by (simp add: ntohl_def addr_at_def add.commute)
  from all obtain v p where v: "work_all (work_local copy_bytes w) (length [x]) (take (MAX_BURST_TX - length ([] :: pkt list)) [x]) e = Inr (v, [p])"
    "work_local copy_bytes w (length [x]) x e = Inr (v, p)" by blast
  then obtain q where "drain_local copy_bytes w i (e, []) = Some (Inr (put_local i v q, [p]))"
    using from_local.drained[OF i(1) assms(2) i(2) v(1)] put_local_id[OF i(1)] by auto
  moreover have "buff (local_log v) (buff_track (local_log e)) = 1"
    "seq (etel v) (buff_track (local_log e)) = seq (etel e) (buff_track (local_log e))"
    "seq (etel v) (buff_track (local_log e) + 1) = ntohl (addr_at (umem e) (frame_at x + 38))"
    using v(2) w assms(6) b s by (auto simp: encap_log_def add.commute)
  ultimately show ?thesis by (auto simp: put_local_def)
qed

theorem telemetry_off_by_one_witness:
  "\<exists>e' b. drain_local copy_bytes 1 0 (sample_emu\<lparr>umem := sample_area[23 := 6]\<rparr>, []) = Some (Inr (e', b)) \<and>
    buff (local_log e') 0 = 1 \<and> seq (etel e') 0 = 0 \<and> seq (etel e') 1 = ntohl (addr_at (sample_area[23 := 6]) 38)"
proof -
  let ?e = "sample_emu\<lparr>umem := sample_area[23 := 6]\<rparr>"
  have 1: "queue_at (local_per_dest_queue ?e) 0 1 [sample_entry]" using sample_emu_queues(1) by simp
  have 2: "next_mac (enet ?e) 1 = Some [1, 2, 3, 4, 5, 6]" by (simp add: sample_emu_facts sample_lookups)
  show ?thesis
    using telemetry_off_by_one[OF 1 _ 2]
    by (simp add: sample_entry_facts local_span_def sample_emu_facts sample_area_facts sample_log_def TELEMETRY_SIZE_def PROTO_TCP_def)
      (simp add: sample_emu_def)
qed

section \<open>Receiving\<close>

definition entry :: "pkt \<Rightarrow> burst_tx" where
  "entry b = \<lparr>tx_addr = fst b, tx_len = snd b, tx_n_pkts = 1\<rparr>"

text \<open>Packet \<open>b\<close> received on port \<open>pi\<close> belongs into queue \<open>i\<close>.\<close>

definition veth_dest :: "thread_data \<Rightarrow> nat \<Rightarrow> emu \<Rightarrow> pkt \<Rightarrow> nat \<Rightarrow> bool" where
  "veth_dest t pi e b i \<longleftrightarrow> fst b \<noteq> 0 \<and> rbind (arr_get (eports e) pi) (\<lambda>p.
     rbind (get_destination_queue_index (enet e) (umem e) (xsk_umem__get_data (xsk_umem__add_offset_to_addr (fst b))) (iface (pparams p)))
       (idx_get (take NUM_OF_PER_DEST_QUEUES (local_dest_queue_array t)))) = Inr (Some i)"

lemma veth_rx_packet_run:
  assumes "veth_dest t pi e b i"
  shows "veth_rx_packet t pi True b e = rthen (push_to (local_per_dest_queue e) i (entry b)) (\<lambda>(ret, qs).
    let e1 = e\<lparr>local_per_dest_queue := qs\<rparr> in
    if ret = 0 then Some (drop_buffer pi (fst b) (e1\<lparr>local_dest_queue_overflow_count := local_dest_queue_overflow_count e + 1\<rparr>))
    else Some (Inr e1))"
proof -
  obtain p d where "arr_get (eports e) pi = Inr p" "fst b \<noteq> 0"
    "get_destination_queue_index (enet e) (umem e) (xsk_umem__get_data (xsk_umem__add_offset_to_addr (fst b))) (iface (pparams p)) = Inr d"
    "idx_get (take NUM_OF_PER_DEST_QUEUES (local_dest_queue_array t)) d = Inr (Some i)"
    using assms by (auto simp: veth_dest_def res_simps)
  then show ?thesis unfolding veth_rx_packet_def Let_def rthen.simps entry_def by simp
qed

lemma veth_rx_packets_run:
  assumes "\<forall>b \<in> set pkts. veth_dest t pi e b (d b) \<and> d b < length (local_per_dest_queue e)"
    and "\<forall>i < length (local_per_dest_queue e). queue_at (local_per_dest_queue e) i k (c i) \<and>
      length (c i) + length (filter (\<lambda>b. d b = i) pkts) \<le> 2 ^ k"
  shows "\<exists>qs. veth_rx_packets t pi (map (Pair True) pkts) e = Some (Inr (e\<lparr>local_per_dest_queue := qs\<rparr>)) \<and>
    length qs = length (local_per_dest_queue e) \<and>
    (\<forall>i < length qs. queue_at qs i k (c i @ map entry (filter (\<lambda>b. d b = i) pkts)))"
  using assms
proof (induction pkts arbitrary: e c)
  case Nil
  then show ?case by (auto intro: exI[of _ "local_per_dest_queue e"])
next
  case (Cons b bs)
  let ?q = "local_per_dest_queue e" and ?i = "d b"
  have i: "veth_dest t pi e b ?i" "?i < length ?q" using Cons.prems(1) by simp_all
  have q: "queue_at ?q ?i k (c ?i)" "length (c ?i) < 2 ^ k"
    using Cons.prems(2)[rule_format, OF i(2)] by simp_all
  obtain q' where q': "push_to ?q ?i (entry b) = Some (Inr (1, ?q[?i := q']))" "queue_at (?q[?i := q']) ?i k (c ?i @ [entry b])"
    using push_to_room[OF q] by blast
  let ?e = "e\<lparr>local_per_dest_queue := ?q[?i := q']\<rparr>" and ?c = "c(?i := c ?i @ [entry b])"
  have dst: "veth_dest t pi ?e x j = veth_dest t pi e x j" for x j by (simp add: veth_dest_def)
  have "\<forall>j < length (local_per_dest_queue ?e). queue_at (local_per_dest_queue ?e) j k (?c j) \<and>
      length (?c j) + length (filter (\<lambda>b. d b = j) bs) \<le> 2 ^ k"
  proof (intro allI impI)
    fix j assume j: "j < length (local_per_dest_queue ?e)"
    then have j': "j < length ?q" by simp
    show "queue_at (local_per_dest_queue ?e) j k (?c j) \<and> length (?c j) + length (filter (\<lambda>b. d b = j) bs) \<le> 2 ^ k"
      using Cons.prems(2)[rule_format, OF j'] q'(2) by (cases "j = ?i") (auto simp: queue_at_def)
  qed
  from Cons.IH[of ?e ?c] Cons.prems(1) this obtain qs where qs:
    "veth_rx_packets t pi (map (Pair True) bs) ?e = Some (Inr (?e\<lparr>local_per_dest_queue := qs\<rparr>))"
    "length qs = length ?q" "\<forall>j < length qs. queue_at qs j k (?c j @ map entry (filter (\<lambda>b. d b = j) bs))"
    by (auto simp: dst)
  have "veth_rx_packets t pi (map (Pair True) (b # bs)) e = Some (Inr (e\<lparr>local_per_dest_queue := qs\<rparr>))"
    using qs(1) q'(1) by (simp add: veth_rx_packet_run[OF i(1)])
  moreover have "queue_at qs j k (c j @ map entry (filter (\<lambda>b. d b = j) (b # bs)))" if "j < length qs" for j
    using qs(3) that by (cases "j = ?i") auto
  ultimately show ?case using qs(2) by blast
qed

text \<open>Property C12: the packets of a burst from a namespace each enter the queue of their destination
  if there is room, in the order in which they arrived; none is lost and nothing else changes.\<close>
theorem veth_rx_correct:
  assumes "\<forall>b \<in> set pkts. veth_dest t pi e b (d b) \<and> d b < length (local_per_dest_queue e)"
    and "\<forall>i < length (local_per_dest_queue e). queue_at (local_per_dest_queue e) i k (c i) \<and>
      length (c i) + length (filter (\<lambda>b. d b = i) pkts) \<le> 2 ^ k"
  shows "\<exists>qs. veth_rx_packets t pi (map (Pair True) pkts) e = Some (Inr (e\<lparr>local_per_dest_queue := qs\<rparr>)) \<and>
    length qs = length (local_per_dest_queue e) \<and>
    (\<forall>i < length qs. queue_at qs i k (c i @ map entry (filter (\<lambda>b. d b = i) pkts)))"
  by (rule veth_rx_packets_run[OF assms])

definition sample_thread :: thread_data where
  "sample_thread = \<lparr>ports_rx = [Some 0], ports_tx = [Some 0], local_dest_queue_array = [Some 0, Some 0],
     non_local_dest_queue_array = [Some 0, Some 0], veth_side_queue_array = [Some 0], assigned_queue_count = 1, assigned_perdest_count = 2\<rparr>"

text \<open>When the allocation of a burst record fails, the packet's buffer is neither queued
  nor given back; when the queue is full, the packet is dropped, counted, and its buffer given
  back to the port's cache.\<close>
theorem veth_rx_drops:
  assumes "veth_dest t pi e b i"
  shows "veth_rx_packet t pi False b e = Some (Inr e) \<and>
    (\<forall>k xs. queue_at (local_per_dest_queue e) i k xs \<longrightarrow> length xs = 2 ^ k \<longrightarrow>
      \<not> full_overflows k (head (local_per_dest_queue e ! i)) \<longrightarrow> veth_rx_packet t pi True b e = Some (drop_buffer pi (fst b)
        (e\<lparr>local_dest_queue_overflow_count := local_dest_queue_overflow_count e + 1\<rparr>)))"
proof (intro conjI allI impI)
  show "veth_rx_packet t pi False b e = Some (Inr e)"
    using assms by (auto simp: veth_dest_def veth_rx_packet_def res_simps Let_def)
  fix k xs assume "queue_at (local_per_dest_queue e) i k xs" "length xs = 2 ^ k"
    "\<not> full_overflows k (head (local_per_dest_queue e ! i))"
  then show "veth_rx_packet t pi True b e = Some (drop_buffer pi (fst b)
        (e\<lparr>local_dest_queue_overflow_count := local_dest_queue_overflow_count e + 1\<rparr>))"
    using push_to_full[of "local_per_dest_queue e" i k xs] by (simp add: veth_rx_packet_run[OF assms] Let_def)
qed

text \<open>A namespace port receives only IP packets to hosts of the table.\<close>

lemma veth_destI:
  assumes "fst b \<noteq> 0" "frame_at (entry b) < 2 ^ 48" "pi < length (eports e)"
    and "get_destination_queue_index (enet e) (umem e) (frame_at (entry b)) (iface (pparams (eports e ! pi))) = Inr (int q)"
    and "q < NUM_OF_PER_DEST_QUEUES" "q < length (local_dest_queue_array t)" "local_dest_queue_array t ! q = Some i"
  shows "veth_dest t pi e b i"
  using frame_data[OF assms(2)] assms by (simp add: veth_dest_def entry_def)

section \<open>Packets from the network\<close>

definition nic_entry :: "u64 \<Rightarrow> u32 \<Rightarrow> burst_tx" where
  "nic_entry a len = \<lparr>tx_addr = a, tx_len = len, tx_n_pkts = 1\<rparr>"

text \<open>
  Where a packet of the result record goes: \<open>enter_transit\<close> puts it into a queue for the
  network, \<open>enter_veth\<close> into a namespace's.
\<close>

definition enter_transit :: "nat \<Rightarrow> nat \<Rightarrow> pkt \<Rightarrow> return_process_rx \<Rightarrow> emu \<Rightarrow> (emu \<times> return_process_rx) run" where
  "enter_transit pi i b rv e = rthen (push_to (non_local_per_dest_queue e) i (nic_entry (fst b) (snd b))) (\<lambda>(ret, qs).
     let e1 = e\<lparr>non_local_per_dest_queue := qs\<rparr> in
     if ret = 0 then Some (rbind (drop_buffer pi (fst b)
         (e1\<lparr>non_local_dest_queue_overflow_count := non_local_dest_queue_overflow_count e + 1\<rparr>)) (\<lambda>e2. Inr (e2, rv)))
     else Some (Inr (e1, rv)))"

definition enter_veth :: "nat \<Rightarrow> nat \<Rightarrow> pkt \<Rightarrow> return_process_rx \<Rightarrow> emu \<Rightarrow> (emu \<times> return_process_rx) run" where
  "enter_veth pi i b rv e = rthen (push_to (veth_side_queue e) i (nic_entry (fst b) (word_of_int (new_len rv)))) (\<lambda>(ret, qs).
     let e1 = e\<lparr>veth_side_queue := qs\<rparr> in
     if ret = 0 then Some (rbind (drop_buffer pi (fst b)
         (e1\<lparr>veth_queue_overflow_count := veth_queue_overflow_count e + 1\<rparr>)) (\<lambda>e2. Inr (e2, rv)))
     else Some (Inr (e1, rv)))"

definition nic_port :: "nat \<Rightarrow> emu \<Rightarrow> bool" where
  "nic_port pi e \<longleftrightarrow> pi < length (eports e) \<and> iface (pparams (eports e ! pi)) = nic_iface (enet e)"

lemma nic_rx_packet_transit:
  assumes "nic_port pi e" "unat (fst b) < 2 ^ 48"
    and "get_queue_index_for_nic_rx ov (enet e) (umem e) (unat (fst b)) (nic_iface (enet e)) (snd b) (fst b) rv0 = Inr (m, rv)"
    and "new_len rv = 1" "ring_buf_index rv = int q" "q < NUM_OF_PER_DEST_QUEUES"
    and "q < length (non_local_dest_queue_array t)" "non_local_dest_queue_array t ! q = Some i"
  shows "nic_rx_packet ov t n pi True b (e, rv0) = enter_transit pi i b rv (e\<lparr>umem := m\<rparr>)"
  using frame_data[of "entry b"] assms
  by (simp add: nic_rx_packet_def enter_transit_def nic_port_def frame_at_def entry_def nic_entry_def Let_def cong: if_cong)

lemma nic_rx_packet_veth:
  assumes "nic_port pi e" "unat (fst b) < 2 ^ 48"
    and "get_queue_index_for_nic_rx ov (enet e) (umem e) (unat (fst b)) (nic_iface (enet e)) (snd b) (fst b) rv0 = Inr (m, rv)"
    and "new_len rv \<noteq> 1" "which_veth rv = int v" "v < VETH_QUEUES" "int v < n"
    and "v < length (veth_side_queue_array t)" "veth_side_queue_array t ! v = Some i"
  shows "nic_rx_packet ov t n pi True b (e, rv0) = enter_veth pi i b rv (e\<lparr>umem := m\<rparr>)"
  using frame_data[of "entry b"] assms
  by (simp add: nic_rx_packet_def enter_veth_def nic_port_def frame_at_def entry_def nic_entry_def Let_def cong: if_cong)

lemma nic_rx_packet_local:
  assumes "nic_port pi e" "fst b = addr" "unat addr + 74 \<le> length (umem e)" "unat addr + unat (snd b) \<le> length (umem e)"
    and "length (umem e) < 2 ^ 31" "our_packet (umem e) (unat addr)" "addr_at (umem e) (unat addr + 30) = src_ip (enet e)"
    and "41 < unat (snd b)" "sint (umem e ! (unat addr + 73)) = int v + 2" "int v < n" "v < VETH_QUEUES"
    and "v < length (veth_side_queue_array t)" "veth_side_queue_array t ! v = Some j"
  shows "nic_rx_packet copy_bytes t n pi True b (e, rv) =
    enter_veth pi j b (rv\<lparr>which_veth := int v, new_len := int (unat (snd b)) - 40\<rparr>)
       (e\<lparr>umem := splice (umem e) (unat addr) (slice (umem e) (unat addr + 40) (unat (snd b) - 40))\<rparr>)"
proof -
  have u: "unat (fst b) < 2 ^ 48" using assms(2,3,5) by simp
  let ?rv = "rv\<lparr>which_veth := sint (umem e ! (unat addr + 73)) - 2, new_len := int (unat (snd b)) - 40\<rparr>"
  have r: "get_queue_index_for_nic_rx copy_bytes (enet e) (umem e) (unat addr) (nic_iface (enet e)) (snd b) addr rv =
      Inr (splice (umem e) (unat addr) (slice (umem e) (unat addr + 40) (unat (snd b) - 40)), ?rv)"
    by (rule nic_rx_local[OF assms(3,6,7) refl _ assms(4)]) (use assms(4,5,8) in linarith)+
  have "int (unat (snd b)) - 40 \<noteq> 1" using assms(8) by linarith
  then have "new_len ?rv \<noteq> 1" "which_veth ?rv = int v" using assms(9) by simp_all
  then have "nic_rx_packet copy_bytes t n pi True b (e, rv) = enter_veth pi j b ?rv
      (e\<lparr>umem := splice (umem e) (unat addr) (slice (umem e) (unat addr + 40) (unat (snd b) - 40))\<rparr>)"
    using r assms(2) by (intro nic_rx_packet_veth[OF assms(1) u _ _ _ assms(11,10,12,13)]) simp_all
  then show ?thesis using assms(9) by simp
qed

text \<open>Property C11: an emulator packet that is not for this node enters the queue of its destination
  unchanged; one for this node is decapsulated in place and enters the queue of the namespace
  its inner destination names, with the length of the inner packet.\<close>
theorem nic_rx_packet_correct:
  assumes "nic_port pi e" "fst b = addr" "unat addr + 74 \<le> length (umem e)" "unat addr + unat (snd b) \<le> length (umem e)"
    and "length (umem e) < 2 ^ 31" "our_packet (umem e) (unat addr)"
    and "dest_queue (enet e) (network_host (addr_at (umem e) (unat addr + 70))) = Some (int q)" "q < NUM_OF_PER_DEST_QUEUES"
    and "q < length (non_local_dest_queue_array t)" "non_local_dest_queue_array t ! q = Some i"
    and "41 < unat (snd b)" "sint (umem e ! (unat addr + 73)) = int v + 2" "int v < n" "v < VETH_QUEUES"
    and "v < length (veth_side_queue_array t)" "veth_side_queue_array t ! v = Some j"
  shows "nic_rx_packet copy_bytes t n pi True b (e, rv) =
    (if addr_at (umem e) (unat addr + 30) \<noteq> src_ip (enet e)
     then enter_transit pi i b (rv\<lparr>ring_buf_index := int q, new_len := 1\<rparr>) e
     else enter_veth pi j b (rv\<lparr>which_veth := int v, new_len := int (unat (snd b)) - 40\<rparr>)
       (e\<lparr>umem := splice (umem e) (unat addr) (slice (umem e) (unat addr + 40) (unat (snd b) - 40))\<rparr>))"
proof (cases "addr_at (umem e) (unat addr + 30) = src_ip (enet e)")
  case False
  have u: "unat (fst b) < 2 ^ 48" using assms(2,3,5) by simp
  have e: "e\<lparr>umem := umem e\<rparr> = e" by simp
  note r = nic_rx_transit[OF assms(3,6) False assms(7), of copy_bytes "snd b" addr rv]
  show ?thesis
    using nic_rx_packet_transit[OF assms(1) u, of copy_bytes rv "umem e" "rv\<lparr>ring_buf_index := int q, new_len := 1\<rparr>" q t i n] r False assms(2,8-10)
    by simp
next
  case True
  with nic_rx_packet_local[OF assms(1-6) True assms(11,12,13,14,15,16)] show ?thesis by simp
qed

text \<open>The result record is cleared once for a burst, not for every packet: a packet that
  is not the emulator's goes wherever the packet before it went, whatever its contents. Alone
  in its burst it goes to namespace 0 (or the one of an earlier burst) with length 0.\<close>
theorem nic_rx_stale_result:
  assumes "nic_port pi e" "unat (fst b) + 74 \<le> length (umem e)" "length (umem e) < 2 ^ 48" "\<not> our_packet (umem e) (unat (fst b))"
    and "new_len rv = 1 \<Longrightarrow> \<exists>q. ring_buf_index rv = int q \<and> q < NUM_OF_PER_DEST_QUEUES \<and>
      q < length (non_local_dest_queue_array t) \<and> non_local_dest_queue_array t ! q = Some i"
    and "new_len rv \<noteq> 1 \<Longrightarrow> \<exists>v. which_veth rv = int v \<and> v < VETH_QUEUES \<and> int v < n \<and>
      v < length (veth_side_queue_array t) \<and> veth_side_queue_array t ! v = Some i"
  shows "nic_rx_packet ov t n pi True b (e, rv) = (if new_len rv = 1 then enter_transit pi i b rv e else enter_veth pi i b rv e)"
proof -
  have u: "unat (fst b) < 2 ^ 48" using assms(2,3) by simp
  have r: "get_queue_index_for_nic_rx ov (enet e) (umem e) (unat (fst b)) (nic_iface (enet e)) (snd b) (fst b) rv = Inr (umem e, rv)"
    using assms(4) by (simp add: nic_rx_run[OF assms(2)])
  show ?thesis
  proof (cases "new_len rv = 1")
    case True
    from assms(5)[OF True] obtain q where q: "ring_buf_index rv = int q" "q < NUM_OF_PER_DEST_QUEUES"
      "q < length (non_local_dest_queue_array t)" "non_local_dest_queue_array t ! q = Some i" by blast
    show ?thesis using nic_rx_packet_transit[OF assms(1) u r True q] True by simp
  next
    case False
    from assms(6)[OF False] obtain v where v: "which_veth rv = int v" "v < VETH_QUEUES" "int v < n"
      "v < length (veth_side_queue_array t)" "veth_side_queue_array t ! v = Some i" by blast
    show ?thesis using nic_rx_packet_veth[OF assms(1) u r False v] False by simp
  qed
qed

section \<open>Witnesses\<close>

text \<open>Two copies of the sample packet; the second one arrives from a namespace.\<close>

definition sample_veth_emu :: emu where
  "sample_veth_emu = sample_emu\<lparr>umem := sample_area @ sample_area\<rparr>"

lemma sample_veth_dest: "veth_dest sample_thread 0 sample_veth_emu (114, 34) 0"
proof (rule veth_destI[where q = 1])
  have l: "frame_at (entry (114, 34)) = 114" by (simp add: frame_at_def entry_def)
  have "addr_at (sample_area @ sample_area) 144 = 0"
    using sample_area_facts(1,3) by (simp add: addr_at_def nth_append)
  moreover have "prefix OUTER_VETH_PREFIX ''vethout2''" by (simp add: prefix_def OUTER_VETH_PREFIX_def)
  ultimately show "get_destination_queue_index (enet sample_veth_emu) (umem sample_veth_emu) (frame_at (entry (114, 34)))
      (iface (pparams (eports sample_veth_emu ! 0))) = Inr (int 1)"
    using get_destination_queue_correct[of 114 "sample_area @ sample_area" "''vethout2''" sample_net] sample_lookups
    by (simp add: l sample_veth_emu_def sample_emu_facts sample_port_def sample_area_facts)
qed (simp_all add: sample_veth_emu_def sample_emu_facts sample_thread_def NUM_OF_PER_DEST_QUEUES_def frame_at_def entry_def)

lemma sample_veth_queue: "queue_at (local_per_dest_queue sample_veth_emu) 0 1 [sample_entry]"
  using sample_emu_queues(1) by (simp add: sample_veth_emu_def)

theorem veth_rx_correct_witness:
  "\<exists>qs. veth_rx_packets sample_thread 0 [(True, (114, 34))] sample_veth_emu = Some (Inr (sample_veth_emu\<lparr>local_per_dest_queue := qs\<rparr>)) \<and>
    queue_at qs 0 1 [sample_entry, entry (114, 34)]"
proof -
  have 1: "length (local_per_dest_queue sample_veth_emu) = 1" by (simp add: sample_veth_emu_def sample_emu_def)
  have 2: "\<forall>b \<in> set [(114, 34)]. veth_dest sample_thread 0 sample_veth_emu b 0 \<and> 0 < length (local_per_dest_queue sample_veth_emu)"
    using sample_veth_dest 1 by simp
  have 3: "\<forall>i < length (local_per_dest_queue sample_veth_emu). queue_at (local_per_dest_queue sample_veth_emu) i 1 [sample_entry] \<and>
      length [sample_entry] + length (filter (\<lambda>b. 0 = i) [(114, 34)]) \<le> 2 ^ 1"
    using sample_veth_queue by (simp add: 1)
  from veth_rx_correct[OF 2 3] show ?thesis by (auto simp: 1)
qed

theorem veth_rx_drops_witness:
  "veth_rx_packet sample_thread 0 False (114, 34) sample_veth_emu = Some (Inr sample_veth_emu)"
  using veth_rx_drops[OF sample_veth_dest] by blast

text \<open>An emulator packet for namespace 0 of this node, on the network port.\<close>

definition sample_gre :: "u8 list" where
  "sample_gre = replicate 12 0 @ [8, 0] @ replicate 9 0 @ [47] @ replicate 12 0 @ [0x65, 0x58] @ replicate 14 0 @ [8, 0] @
     replicate 19 0 @ [2] @ replicate 40 0"

definition sample_nic_emu :: emu where
  "sample_nic_emu = sample_emu\<lparr>umem := sample_gre, eports := [sample_port\<lparr>pparams := \<lparr>iface = ''nic'', iface_queue = 0, ns_index = 0\<rparr>\<rparr>]\<rparr>"

lemma sample_gre_facts: "length sample_gre = 114" "our_packet sample_gre 0" "addr_at sample_gre 30 = 0" "sample_gre ! 73 = 2"
  "network_host (addr_at sample_gre 70) = network_host 0"
  by (simp_all add: sample_gre_def our_packet_def slice_def be16_def ETH_IP_def ETH_P_TEB_def PROTO_GRE_def addr_at_def
      nth_append word32_of_bytes_def byte_of_def network_host_def)

lemma sample_net_src: "src_ip sample_net = 0"
  by (simp add: sample_net_def)

lemma sample_nic_facts: "enet sample_nic_emu = sample_net" "umem sample_nic_emu = sample_gre" "nic_port 0 sample_nic_emu"
  by (simp_all add: sample_nic_emu_def nic_port_def sample_emu_def sample_net_def)

definition sample_rv :: return_process_rx where
  "sample_rv = \<lparr>new_len = 0, ring_buf_index = 0, which_veth = 0\<rparr>"

theorem nic_rx_packet_correct_witness:
  "nic_rx_packet copy_bytes sample_thread 1 0 True (0, 74) (sample_nic_emu, sample_rv) =
    enter_veth 0 0 (0, 74) (sample_rv\<lparr>which_veth := 0, new_len := 34\<rparr>)
      (sample_nic_emu\<lparr>umem := splice sample_gre 0 (slice sample_gre 40 34)\<rparr>)"
  using nic_rx_packet_correct[OF sample_nic_facts(3), of "(0, 74)" 0 1 sample_thread 0 0 1 0 sample_rv]
  by (simp add: sample_nic_facts sample_gre_facts sample_lookups NUM_OF_PER_DEST_QUEUES_def VETH_QUEUES_def sample_thread_def sample_net_src)

theorem nic_rx_stale_result_witness:
  "nic_rx_packet copy_bytes sample_thread 1 0 True (0, 74)
      (sample_nic_emu\<lparr>umem := replicate 114 0\<rparr>, sample_rv\<lparr>new_len := 1, ring_buf_index := 1\<rparr>) =
    enter_transit 0 0 (0, 74) (sample_rv\<lparr>new_len := 1, ring_buf_index := 1\<rparr>) (sample_nic_emu\<lparr>umem := replicate 114 0\<rparr>)"
proof -
  have 1: "nic_port 0 (sample_nic_emu\<lparr>umem := replicate 114 0\<rparr>)" using sample_nic_facts(3) by (simp add: nic_port_def)
  have 2: "\<not> our_packet (replicate 114 0) 0" by (simp add: our_packet_def PROTO_GRE_def)
  show ?thesis
    using nic_rx_stale_result[OF 1, of "(0, 74)" "sample_rv\<lparr>new_len := 1, ring_buf_index := 1\<rparr>" sample_thread 0 1 copy_bytes] 2
    by (simp add: NUM_OF_PER_DEST_QUEUES_def sample_thread_def)
qed

end
