(* ===== verification/Topo_Time.thy ===== *)
theory Topo_Time
  imports Packet_Path
begin

text \<open>
  The time slots of \<open>opera-v2/emu_nic.c\<close>: the topology number is the current slot of a cycle of
  a PTP clock, and selects the column of the routing matrix. The clock's answers are parameters.
\<close>

section \<open>The clock\<close>

type_synonym timespec = "int \<times> int"

definition CLOCK_INVALID :: "32 word" where "CLOCK_INVALID = -1"
definition CLOCKFD :: "32 word" where "CLOCKFD = 3"

definition FD_TO_CLOCKID :: "int \<Rightarrow> 32 word" where
  "FD_TO_CLOCKID fd = (push_bit 3 (NOT (word_of_int fd)) OR CLOCKFD)"

text \<open>A clock identifier is a signed number: the shift keeps its sign.\<close>

definition CLOCKID_TO_FD :: "32 word \<Rightarrow> 32 word" where
  "CLOCKID_TO_FD clk = NOT (word_of_int (drop_bit 3 (sint clk)))"

text \<open>\<open>fd\<close> is what \<open>open\<close> returned.\<close>

definition get_nic_clock_id :: "int \<Rightarrow> 32 word" where
  "get_nic_clock_id fd =
     (if fd < 0 then -1
      else let clkid = FD_TO_CLOCKID fd in if CLOCK_INVALID = clkid then -1 else clkid)"

definition get_nsec :: "timespec \<Rightarrow> u64" where
  "get_nsec ts = word_of_int (fst ts) * 1000000000 + word_of_int (snd ts)"

text \<open>\<open>clock_gettime\<close> fills the record if it succeeds; otherwise it stays indeterminate.\<close>

definition get_nicclock :: "timespec option \<Rightarrow> timespec res" where
  "get_nicclock t = (case t of None \<Rightarrow> Inl Uninitialised | Some ts \<Rightarrow> Inr ts)"

section \<open>The current slot\<close>

definition slot_time_ns :: u64 where "slot_time_ns = 200000"
definition cycle_time_ns :: u64 where "cycle_time_ns = 6400000"
definition TOPO_LOG_SIZE :: int where "TOPO_LOG_SIZE = 20000000"

record topo_state =
  clock_now :: timespec
  time_into_cycle_ns :: u64
  topo_num :: u8
  prev_topo :: int
  topo_curr :: "int \<Rightarrow> u8"
  topo_change_time :: "int \<Rightarrow> timespec"
  topo_track_index :: int

definition read_time :: "timespec option \<Rightarrow> topo_state \<Rightarrow> topo_state res" where
  "read_time t s = rbind (get_nicclock t) (\<lambda>ts.
     let tin = get_nsec ts mod cycle_time_ns;
         tp = ucast (tin div slot_time_ns + 1);
         s1 = s\<lparr>clock_now := ts, time_into_cycle_ns := tin, topo_num := tp\<rparr>;
         k = topo_track_index s
     in if prev_topo s \<noteq> uint tp then
          guard_res Out_Of_Bounds (0 \<le> k \<and> k < TOPO_LOG_SIZE)
            (Inr (s1\<lparr>topo_curr := (topo_curr s)(k := tp), topo_change_time := (topo_change_time s)(k := ts),
               prev_topo := uint tp, topo_track_index := k + 1\<rparr>))
        else Inr s1)"

text \<open>The main loop reads the clock over and over.\<close>

fun read_times :: "timespec option list \<Rightarrow> topo_state \<Rightarrow> topo_state res" where
  "read_times [] s = Inr s"
| "read_times (t # ts) s = rbind (read_time t s) (read_times ts)"

section \<open>The slot of a time\<close>

definition slot_of :: "nat \<Rightarrow> nat" where
  "slot_of ns = ns mod 6400000 div 200000 + 1"

lemma slot_of_range: "1 \<le> slot_of ns" "slot_of ns \<le> 32"
proof -
  have "ns mod 6400000 < 32 * 200000" by simp
  then have "ns mod 6400000 div 200000 < 32" by (rule less_mult_imp_div_less)
  then show "1 \<le> slot_of ns" "slot_of ns \<le> 32" by (simp_all add: slot_of_def)
qed

definition slot_at :: "timespec \<Rightarrow> nat" where
  "slot_at ts = slot_of (unat (get_nsec ts))"

definition topo_at :: "timespec \<Rightarrow> u8" where
  "topo_at ts = ucast (get_nsec ts mod cycle_time_ns div slot_time_ns + 1)"

lemma topo_at: "unat (topo_at ts) = slot_at ts"
proof -
  let ?w = "get_nsec ts mod cycle_time_ns div slot_time_ns"
  have w: "unat ?w = unat (get_nsec ts) mod 6400000 div 200000"
    by (simp add: unat_div unat_mod cycle_time_ns_def slot_time_ns_def)
  then have s: "unat ?w + 1 = slot_at ts" by (simp add: slot_at_def slot_of_def)
  have le: "slot_at ts \<le> 32" unfolding slot_at_def by (rule slot_of_range)
  have "unat (?w + 1) = slot_at ts" using unat_add_below[of ?w 1] s le by simp
  then show ?thesis using le by (simp add: topo_at_def unsigned_ucast_eq take_bit_eq_mod)
qed

lemma topo_at_bounds: "1 \<le> unat (topo_at ts)" "unat (topo_at ts) \<le> 32" "topo_at ts \<noteq> 0"
  using slot_of_range[of "unat (get_nsec ts)"] topo_at[of ts] by (auto simp: slot_at_def)

lemma uint_topo_at: "uint (topo_at ts) = int (slot_at ts)"
  by (simp flip: topo_at)

lemma read_time_run: "read_time (Some ts) s =
    (let s1 = s\<lparr>clock_now := ts, time_into_cycle_ns := get_nsec ts mod cycle_time_ns, topo_num := topo_at ts\<rparr>;
         k = topo_track_index s
     in if prev_topo s = int (slot_at ts) then Inr s1
        else guard_res Out_Of_Bounds (0 \<le> k \<and> k < TOPO_LOG_SIZE)
          (Inr (s1\<lparr>topo_curr := (topo_curr s)(k := topo_at ts), topo_change_time := (topo_change_time s)(k := ts),
             prev_topo := int (slot_at ts), topo_track_index := k + 1\<rparr>)))"
  by (simp add: read_time_def get_nicclock_def topo_at_def[symmetric] uint_topo_at Let_def)

section \<open>The log of changes\<close>

definition topo_log :: "topo_state \<Rightarrow> nat list" where
  "topo_log s = map (\<lambda>i. unat (topo_curr s (int i))) [0..<nat (topo_track_index s)]"

definition topo_inv :: "nat list \<Rightarrow> topo_state \<Rightarrow> bool" where
  "topo_inv slots s \<longleftrightarrow> 0 \<le> topo_track_index s \<and> topo_log s = remdups_adj slots \<and>
     prev_topo s = (if slots = [] then 0 else int (last slots)) \<and>
     (slots \<noteq> [] \<longrightarrow> unat (topo_num s) = last slots)"

lemma remdups_adj_snoc: "remdups_adj (xs @ [x]) = (if xs \<noteq> [] \<and> last xs = x then remdups_adj xs else remdups_adj xs @ [x])"
  by (induction xs rule: remdups_adj.induct) auto

lemma topo_inv_read:
  assumes "topo_inv slots s" "topo_track_index s < TOPO_LOG_SIZE"
  shows "\<exists>s'. read_time (Some ts) s = Inr s' \<and> topo_inv (slots @ [slot_at ts]) s' \<and> topo_track_index s' \<le> topo_track_index s + 1"
proof -
  have pos: "slot_at ts \<noteq> 0" using slot_of_range[of "unat (get_nsec ts)"] by (simp add: slot_at_def)
  let ?k = "topo_track_index s"
  have k: "0 \<le> ?k" using assms(1) by (simp add: topo_inv_def)
  show ?thesis
  proof (cases "prev_topo s = int (slot_at ts)")
    case True
    then have "slots \<noteq> []" "last slots = slot_at ts" using assms(1) pos by (auto simp: topo_inv_def split: if_splits)
    then show ?thesis using assms True by (auto simp: read_time_run Let_def topo_inv_def topo_log_def remdups_adj_snoc topo_at)
  next
    case False
    let ?s = "s\<lparr>clock_now := ts, time_into_cycle_ns := get_nsec ts mod cycle_time_ns, topo_num := topo_at ts,
      topo_curr := (topo_curr s)(?k := topo_at ts), topo_change_time := (topo_change_time s)(?k := ts),
      prev_topo := int (slot_at ts), topo_track_index := ?k + 1\<rparr>"
    have "\<not> (slots \<noteq> [] \<and> last slots = slot_at ts)" using assms(1) False by (auto simp: topo_inv_def)
    moreover have "topo_log ?s = topo_log s @ [slot_at ts]"
      using k by (auto simp: topo_log_def nat_add_distrib topo_at)
    ultimately have "topo_inv (slots @ [slot_at ts]) ?s"
      using assms(1) k by (simp add: topo_inv_def remdups_adj_snoc topo_at)
    moreover have "read_time (Some ts) s = Inr ?s" using False k assms(2) by (simp add: read_time_run Let_def)
    ultimately show ?thesis by auto
  qed
qed

lemma topo_inv_reads:
  assumes "topo_inv slots s" "topo_track_index s + int (length ts) \<le> TOPO_LOG_SIZE"
  shows "\<exists>s'. read_times (map Some ts) s = Inr s' \<and> topo_inv (slots @ map slot_at ts) s'"
  using assms
proof (induction ts arbitrary: slots s)
  case (Cons t ts)
  from topo_inv_read[OF Cons.prems(1), of t] Cons.prems(2) obtain s' where
    s': "read_time (Some t) s = Inr s'" "topo_inv (slots @ [slot_at t]) s'" "topo_track_index s' \<le> topo_track_index s + 1" by auto
  from Cons.IH[OF s'(2)] s'(3) Cons.prems(2) s'(1) show ?case by auto
qed simp

section \<open>Properties\<close>

text \<open>However often the clock is read, the topology number is the slot of the time read
  last, always between 1 and 32, and the log holds the sequence of slots without repetitions.\<close>
theorem topo_log_correct:
  assumes "prev_topo s = 0" "topo_track_index s = 0" "ts \<noteq> []" "int (length ts) \<le> TOPO_LOG_SIZE"
  shows "\<exists>s'. read_times (map Some ts) s = Inr s' \<and> unat (topo_num s') = slot_of (unat (get_nsec (last ts))) \<and>
    1 \<le> unat (topo_num s') \<and> unat (topo_num s') \<le> 32 \<and>
    topo_log s' = remdups_adj (map (\<lambda>t. slot_of (unat (get_nsec t))) ts)"
proof -
  have "topo_inv [] s" using assms(1,2) by (simp add: topo_inv_def topo_log_def)
  from topo_inv_reads[OF this, of ts] assms obtain s' where s': "read_times (map Some ts) s = Inr s'" "topo_inv (map slot_at ts) s'" by auto
  then have "unat (topo_num s') = slot_at (last ts)" using assms(3) by (simp add: topo_inv_def last_map)
  with s' show ?thesis using slot_of_range[of "unat (get_nsec (last ts))"]
    by (auto simp: topo_inv_def slot_at_def[abs_def])
qed

definition sample_topo :: topo_state where
  "sample_topo = \<lparr>clock_now = (0, 0), time_into_cycle_ns = 0, topo_num = 0, prev_topo = 0, topo_curr = (\<lambda>_. 0),
     topo_change_time = (\<lambda>_. (0, 0)), topo_track_index = 0\<rparr>"

theorem topo_log_correct_witness:
  "\<exists>s'. read_times (map Some [(1, 0), (1, 100000), (1, 200000), (1, 6400000)]) sample_topo = Inr s' \<and>
    unat (topo_num s') = 9 \<and> topo_log s' = [9, 10, 9]"
  using topo_log_correct[of sample_topo "[(1, 0), (1, 100000), (1, 200000), (1, 6400000)]"]
  by (force simp: sample_topo_def TOPO_LOG_SIZE_def get_nsec_def slot_of_def)

text \<open>After reading the clock, the next hop of each of the 32 destinations is the entry of
  a completely filled routing matrix for the current slot: the lookup never leaves the matrix.\<close>
theorem slot_selects_route:
  assumes "matrix_wf m" "mrows m = 32" "mcols m = 32" "\<forall>r c. 0 < r \<longrightarrow> r \<le> 32 \<longrightarrow> 0 < c \<longrightarrow> c \<le> 32 \<longrightarrow> cell m r c = Some (f r c)"
    and "route_table net = Some m" "read_time (Some ts) s = Inr s'" "0 \<le> i" "i < 32"
  shows "next_mac_index (net\<lparr>topo := topo_num s'\<rparr>) i = Inr (f (i + 1) (int (slot_of (unat (get_nsec ts)))))"
proof -
  have t: "topo_num s' = topo_at ts" using assms(6) by (auto simp: read_time_run Let_def res_simps split: if_splits)
  let ?c = "int (slot_at ts)"
  have c: "0 < ?c" "?c \<le> 32" using slot_of_range[of "unat (get_nsec ts)"] by (simp_all add: slot_at_def)
  have "\<not> outside_dims m (i + 1) ?c" using assms(2,3,7,8) c by (simp add: outside_dims_def)
  from mtx_get_ok[OF assms(1) this] have "getRouteElement (Some m) (i + 1) ?c True = Inr (0, Some (f (i + 1) ?c))"
    using assms(4,7,8) c by (simp add: getRouteElement_def)
  moreover have "c_int (i + 1) = Inr (i + 1)" using assms(7,8) by (simp add: c_int_def)
  ultimately show ?thesis using assms(5) by (simp add: next_mac_index_def t uint_topo_at) (simp add: slot_at_def)
qed

theorem slot_selects_route_witness:
  "\<exists>s'. read_time (Some (1, 0)) sample_topo = Inr s' \<and>
    next_mac_index (sample_net\<lparr>route_table := Some \<lparr>mrows = 32, mcols = 32, mdata = Some (replicate 1024 (Some 7))\<rparr>, topo := topo_num s'\<rparr>) 5 = Inr 7"
proof -
  let ?m = "\<lparr>mrows = 32, mcols = 32, mdata = Some (replicate 1024 (Some 7))\<rparr> :: route_matrix"
  have wf: "matrix_wf ?m" by (simp add: matrix_wf_def)
  have "\<exists>s'. read_time (Some (1, 0)) sample_topo = Inr s'"
    by (simp add: read_time_run sample_topo_def Let_def TOPO_LOG_SIZE_def)
  then obtain s' where s': "read_time (Some (1, 0)) sample_topo = Inr s'" by blast
  have "cell ?m r c = Some 7" if "0 < r" "r \<le> 32" "0 < c" "c \<le> 32" for r c
  proof -
    have "\<not> outside_dims ?m r c" using that by (simp add: outside_dims_def)
    from elem_index_less[OF wf this] show ?thesis by (simp add: cell_def)
  qed
  with slot_selects_route[OF wf, of "\<lambda>_ _. 7" "sample_net\<lparr>route_table := Some ?m\<rparr>" "(1, 0)" sample_topo s' 5] s'
  show ?thesis by auto
qed

lemma FD_TO_CLOCKID_int:
  assumes "0 \<le> fd" "fd < 2 ^ 28"
  shows "FD_TO_CLOCKID fd = word_of_int (- 8 * fd - 5)" "sint (FD_TO_CLOCKID fd) = - 8 * fd - 5"
proof -
  have "push_bit 3 (NOT (word_of_int fd)) AND CLOCKFD = take_bit 2 (push_bit 3 (NOT (word_of_int fd) :: 32 word))"
    by (simp add: CLOCKFD_def take_bit_eq_mask mask_eq_exp_minus_1)
  also have "\<dots> = 0" by (simp add: take_bit_push_bit)
  finally have "FD_TO_CLOCKID fd = push_bit 3 (NOT (word_of_int fd)) + CLOCKFD"
    using word_plus_and_or[of "push_bit 3 (NOT (word_of_int fd))" CLOCKFD] by (simp add: FD_TO_CLOCKID_def)
  also have "\<dots> = word_of_int (- 8 * fd - 5)"
    by (simp add: push_bit_eq_mult not_eq_complement CLOCKFD_def algebra_simps)
  finally show w: "FD_TO_CLOCKID fd = word_of_int (- 8 * fd - 5)" .
  show "sint (FD_TO_CLOCKID fd) = - 8 * fd - 5"
    unfolding w sint_sbintrunc' by (rule signed_take_bit_int_eq_self) (use assms in simp_all)
qed

text \<open>The identifier made from a file descriptor gives the descriptor back, and is never
  the invalid one, so the second error check of \<open>get_nic_clock_id\<close> can never fail.\<close>
theorem clock_id_roundtrip:
  assumes "0 \<le> fd" "fd < 2 ^ 28"
  shows "get_nic_clock_id fd \<noteq> CLOCK_INVALID \<and> uint (CLOCKID_TO_FD (get_nic_clock_id fd)) = fd"
proof -
  note f = FD_TO_CLOCKID_int(2)[OF assms]
  have "sint CLOCK_INVALID = -1" by (simp add: CLOCK_INVALID_def)
  moreover have "- 8 * fd - 5 \<noteq> -1" using assms(1) by presburger
  ultimately have "FD_TO_CLOCKID fd \<noteq> CLOCK_INVALID" using f by metis
  then have g: "get_nic_clock_id fd = FD_TO_CLOCKID fd" using assms(1) by (auto simp: get_nic_clock_id_def Let_def)
  have "drop_bit 3 (- 8 * fd - 5) = - fd - 1" by (simp add: drop_bit_eq_div)
  then have "CLOCKID_TO_FD (FD_TO_CLOCKID fd) = word_of_int fd"
    by (simp add: CLOCKID_TO_FD_def f not_eq_complement)
  moreover have "uint (word_of_int fd :: 32 word) = fd" using assms by (simp add: uint_word_of_int)
  ultimately show ?thesis using g \<open>FD_TO_CLOCKID fd \<noteq> CLOCK_INVALID\<close> by simp
qed

theorem clock_id_roundtrip_witness: "uint (CLOCKID_TO_FD (get_nic_clock_id 5)) = 5"
  using clock_id_roundtrip[of 5] by simp

end
