(* ===== verification/Route_File.thy ===== *)
theory Route_File
  imports Route_Matrix Inet
begin

text \<open>
  Reading files in \<open>opera-v2/emu_nic.c\<close>: \<open>fgets\<close> and \<open>strtol\<close> on a line buffer, and the loading
  of the routing matrix. A buffer is a list of characters; \<open>None\<close> is a character that was
  never written.
\<close>

section \<open>Line buffers\<close>

type_synonym cbuf = "char option list"

definition NUL :: char where "NUL = char_of (0 :: nat)"
definition NL :: char where "NL = char_of (10 :: nat)"

text \<open>\<open>fgets\<close> reads up to a newline or \<open>n\<close> characters, and terminates the string in the buffer.\<close>

fun fgets_take :: "nat \<Rightarrow> string \<Rightarrow> string \<times> string" where
  "fgets_take 0 s = ([], s)"
| "fgets_take (Suc n) [] = ([], [])"
| "fgets_take (Suc n) (c # s) =
     (if c = NL then ([c], s) else (case fgets_take n s of (l, r) \<Rightarrow> (c # l, r)))"

definition fgets :: "cbuf \<Rightarrow> string \<Rightarrow> (cbuf \<times> string) option" where
  "fgets buf s = (if s = [] then None
     else (case fgets_take (length buf - 1) s of (l, r) \<Rightarrow>
       Some (map Some l @ [Some NUL] @ drop (length l + 1) buf, r)))"

text \<open>
  \<open>strtol(p, &end, 10)\<close> on the characters from \<open>p\<close> on: the value and how many characters were
  read. Without digits nothing is read.
\<close>

fun strtol_space :: "cbuf \<Rightarrow> nat \<Rightarrow> (nat \<times> cbuf) res" where
  "strtol_space [] n = Inl Out_Of_Bounds"
| "strtol_space (None # bs) n = Inl Uninitialised"
| "strtol_space (Some c # bs) n = (if isspace c then strtol_space bs (n + 1) else Inr (n, Some c # bs))"

fun strtol_digits :: "cbuf \<Rightarrow> nat \<Rightarrow> nat \<Rightarrow> (nat \<times> nat) res" where
  "strtol_digits [] acc k = Inl Out_Of_Bounds"
| "strtol_digits (None # bs) acc k = Inl Uninitialised"
| "strtol_digits (Some c # bs) acc k =
     (if isdigit c then strtol_digits bs (acc * 10 + (of_char c - 48)) (k + 1) else Inr (acc, k))"

definition strtol :: "cbuf \<Rightarrow> (int \<times> nat) res" where
  "strtol bs = rbind (strtol_space bs 0) (\<lambda>(n, r).
     let minus = (r \<noteq> [] \<and> hd r = Some (CHR ''-''));
         sgn = (if minus \<or> (r \<noteq> [] \<and> hd r = Some (CHR ''+'')) then 1 else 0 :: nat) in
     rbind (strtol_digits (drop sgn r) 0 0) (\<lambda>(v, k).
       if k = 0 then Inr (0, 0)
       else Inr (max (- (2 ^ 63)) (min (2 ^ 63 - 1) (if minus then - int v else int v)), n + sgn + k)))"

section \<open>The routing matrix\<close>

definition BUFSIZ :: nat where "BUFSIZ = 8192"

text \<open>The 32 values of a line; after each of them one character is skipped.\<close>

fun route_row :: "cbuf \<Rightarrow> int \<Rightarrow> nat \<Rightarrow> int \<Rightarrow> nat \<Rightarrow> route_matrix option \<Rightarrow> route_matrix option res" where
  "route_row buf row 0 j p t = Inr t"
| "route_row buf row (Suc n) j p t = rbind (strtol (drop p buf)) (\<lambda>(v, k).
     let val = sint (word_of_int v :: 32 word) in
     rbind (setRouteElement t row (j + 1) val) (\<lambda>(_, t').
       route_row buf row n (j + 1) (p + k + 1) t'))"

lemma fgets_take_le: "length (snd (fgets_take n s)) \<le> length s"
proof (induction n s rule: fgets_take.induct)
  case (3 n c s)
  then show ?case by (cases "fgets_take n s") auto
qed simp_all

lemma fgets_take_less: "0 < n \<Longrightarrow> s \<noteq> [] \<Longrightarrow> length (snd (fgets_take n s)) < length s"
  using fgets_take_le[of "n - 1" "tl s"]
  by (cases n; cases s; cases "fgets_take (n - 1) (tl s)") (auto simp: less_Suc_eq_le)

lemma fgets_less: "2 \<le> length buf \<Longrightarrow> fgets buf s = Some (b, r) \<Longrightarrow> length r < length s"
  using fgets_take_less[of "length buf - 1" s] by (auto simp: fgets_def split: if_splits prod.splits)

text \<open>The lines of the file; a buffer of at least two characters makes progress on each.\<close>

function read_routes :: "string \<Rightarrow> cbuf \<Rightarrow> int \<Rightarrow> route_matrix option \<Rightarrow> route_matrix option res" where
  "read_routes s buf i t = (if length buf < 2 then Inr t
     else (case fgets buf s of None \<Rightarrow> Inr t
       | Some (buf1, r) \<Rightarrow> rbind (route_row buf1 (i + 1) 32 0 0 t) (read_routes r buf1 (i + 1))))"
  by auto
termination
  by (relation "measure (\<lambda>(s, buf, i, t). length s)") (auto simp: not_less dest: fgets_less)

declare read_routes.simps [simp del]

text \<open>\<open>None\<close> is a file that cannot be opened.\<close>

definition load_routes :: "bool \<Rightarrow> bool \<Rightarrow> string option \<Rightarrow> route_matrix option res" where
  "load_routes struct_ok data_ok file = rbind (newRouteMatrix struct_ok data_ok 32 32) (\<lambda>t.
     case file of None \<Rightarrow> Inr t | Some s \<Rightarrow> read_routes s (replicate BUFSIZ None) 0 t)"

section \<open>Reading numbers\<close>

lemma isspace_digit [simp]: "d < 10 \<Longrightarrow> \<not> isspace (digit_char d)"
  by (simp add: isspace_def Let_def)

lemma digit_char_other:
  assumes "d < 10" "(of_char c :: nat) < 48"
  shows "digit_char d \<noteq> c"
proof
  assume "digit_char d = c"
  then have "(of_char (digit_char d) :: nat) = of_char c" by simp
  then show False using assms by (simp del: of_char_eq_iff)
qed

lemma digit_char_sign: "d < 10 \<Longrightarrow> digit_char d \<noteq> CHR ''-'' \<and> digit_char d \<noteq> CHR ''+''"
  by (simp add: digit_char_other)

lemma strtol_digits_dec:
  "strtol_digits (map Some (dec_string n) @ rest) acc k =
    strtol_digits rest (acc * 10 ^ length (dec_string n) + n) (k + length (dec_string n))"
proof (induction n arbitrary: acc k rest rule: dec_string.induct)
  case (1 n)
  show ?case
  proof (cases "n < 10")
    case True
    then show ?thesis by (simp add: dec_string.simps[of n])
  next
    case False
    have m: "n mod 10 < 10" by simp
    show ?thesis
      using False 1[OF False, where rest = "Some (digit_char (n mod 10)) # rest"] of_char_digit[OF m] isdigit_digit[OF m]
      by (simp add: dec_string.simps[of n] algebra_simps)
  qed
qed

lemma strtol_dec:
  assumes "\<not> isdigit c" "n < 2 ^ 31"
  shows "strtol (map Some (dec_string n) @ Some c # rest) = Inr (int n, length (dec_string n))"
proof -
  obtain d cs where d: "dec_string n = digit_char d # cs" "d < 10" using dec_string_hd by blast
  have sp: "strtol_space (map Some (dec_string n) @ Some c # rest) 0 = Inr (0, map Some (dec_string n) @ Some c # rest)"
    using d by simp
  have ds: "strtol_digits (map Some (dec_string n) @ Some c # rest) 0 0 = Inr (n, length (dec_string n))"
    using assms(1) by (simp add: strtol_digits_dec)
  have "hd (map Some (dec_string n) @ Some c # rest) = Some (digit_char d)" "length (dec_string n) \<noteq> 0" using d by simp_all
  moreover have "int n < 2 ^ 31" using assms(2) by simp
  ultimately show ?thesis using digit_char_sign[OF d(2)] sp ds by (simp add: strtol_def Let_def)
qed

text \<open>The file of a routing matrix: a line for each destination, a value for each slot.\<close>

fun row_text :: "nat list \<Rightarrow> string" where
  "row_text [] = []"
| "row_text [v] = dec_string v @ [NL]"
| "row_text (v # vs) = dec_string v @ CHR '','' # row_text vs"

definition routes_text :: "nat list list \<Rightarrow> string" where
  "routes_text rows = concat (map row_text rows)"

section \<open>Filling the matrix\<close>

definition table32 :: "route_matrix \<Rightarrow> bool" where
  "table32 m \<longleftrightarrow> matrix_wf m \<and> mrows m = 32 \<and> mcols m = 32"

definition inside32 :: "int \<Rightarrow> int \<Rightarrow> bool" where
  "inside32 r c \<longleftrightarrow> 0 < r \<and> r \<le> 32 \<and> 0 < c \<and> c \<le> 32"

lemma set_element:
  assumes "table32 m" "inside32 r c"
  shows "\<exists>m'. setRouteElement (Some m) r c v = Inr (0, Some m') \<and> table32 m' \<and>
    (\<forall>r' c'. inside32 r' c' \<longrightarrow> cell m' r' c' = (if r' = r \<and> c' = c then Some v else cell m r' c'))"
proof -
  have wf: "matrix_wf m" and i: "\<not> outside_dims m r c" if "inside32 r c" for r c
    using assms(1) that by (auto simp: table32_def inside32_def outside_dims_def)
  let ?m = "m\<lparr>mdata := Some ((the (mdata m))[elem_index m r c := Some v])\<rparr>"
  have "setRouteElement (Some m) r c v = Inr (0, Some ?m)"
    using mtx_set_ok[OF wf[OF assms(2)] i[OF assms(2)]] by (simp add: setRouteElement_def)
  moreover have "table32 ?m" using assms(1) by (simp add: table32_def matrix_wf_update)
  moreover have "cell ?m r' c' = (if r' = r \<and> c' = c then Some v else cell m r' c')" if "inside32 r' c'" for r' c'
    using cell_set_same[OF wf[OF assms(2)] i[OF assms(2)]] cell_set_other[OF wf[OF assms(2)] i[OF assms(2)] i[OF that]] by auto
  ultimately show ?thesis by blast
qed

lemma separators [simp]: "\<not> isdigit NL" "\<not> isdigit (CHR '','')" "\<not> isdigit NUL" "isspace NL" "\<not> isspace NUL"
  by (simp_all add: isdigit_def NL_def NUL_def isspace_def)

lemma sint_small_nat: "v < 2 ^ 31 \<Longrightarrow> sint (word_of_int (int v) :: 32 word) = int v"
  unfolding sint_sbintrunc' by (rule signed_take_bit_int_eq_self) simp_all

lemma row_text_Cons: "\<exists>c. \<not> isdigit c \<and> row_text (v # vs) = dec_string v @ c # (if vs = [] then [] else row_text vs)"
  by (cases vs) auto

definition row_written :: "route_matrix \<Rightarrow> int \<Rightarrow> nat \<Rightarrow> nat list \<Rightarrow> route_matrix \<Rightarrow> bool" where
  "row_written m row j vs m' \<longleftrightarrow> (\<forall>r c. inside32 r c \<longrightarrow> cell m' r c =
     (if r = row \<and> int j < c \<and> c \<le> int (j + length vs) then Some (int (vs ! (nat c - j - 1))) else cell m r c))"

lemma route_row_text:
  assumes "table32 m" "0 < row" "row \<le> 32" "j + length vs \<le> 32" "\<forall>v \<in> set vs. v < 2 ^ 31"
    and "drop p buf = map Some (row_text vs) @ tail"
  shows "\<exists>m'. route_row buf row (length vs + n) (int j) p (Some m) =
      route_row buf row n (int (j + length vs)) (p + length (row_text vs)) (Some m') \<and> table32 m' \<and> row_written m row j vs m'"
  using assms(1,4-6)
proof (induction vs arbitrary: m j p)
  case Nil
  then show ?case by (auto simp: row_written_def)
next
  case (Cons v vs)
  obtain c where c: "\<not> isdigit c" "row_text (v # vs) = dec_string v @ c # (if vs = [] then [] else row_text vs)"
    using row_text_Cons by blast
  have d: "drop p buf = map Some (dec_string v) @ Some c # map Some (if vs = [] then [] else row_text vs) @ tail"
    using Cons.prems(4) c(2) by simp
  have v: "v < 2 ^ 31" using Cons.prems(3) by simp
  have st: "strtol (drop p buf) = Inr (int v, length (dec_string v))"
    unfolding d by (rule strtol_dec[OF c(1) v])
  have in32: "inside32 row (int j + 1)" using assms(2,3) Cons.prems(2) by (simp add: inside32_def)
  from set_element[OF Cons.prems(1) in32, of "int v"] obtain m1 where
    m1: "setRouteElement (Some m) row (int j + 1) (int v) = Inr (0, Some m1)" "table32 m1"
    "\<forall>r c. inside32 r c \<longrightarrow> cell m1 r c = (if r = row \<and> c = int j + 1 then Some (int v) else cell m r c)" by blast
  have dr: "drop (p + length (dec_string v) + 1) buf = map Some (row_text vs) @ tail"
  proof -
    have "drop (p + length (dec_string v) + 1) buf = drop (length (dec_string v) + 1) (drop p buf)" by (simp add: add.commute)
    also have "\<dots> = map Some (if vs = [] then [] else row_text vs) @ tail" unfolding d by simp
    finally show ?thesis by (cases vs) simp_all
  qed
  from Cons.IH[OF m1(2), of "Suc j", OF _ _ dr] Cons.prems(2,3) obtain m' where
    m': "route_row buf row (length vs + n) (int (Suc j)) (p + length (dec_string v) + 1) (Some m1) =
      route_row buf row n (int (Suc j + length vs)) (p + length (dec_string v) + 1 + length (row_text vs)) (Some m')" "table32 m'"
    "row_written m1 row (Suc j) vs m'" by auto
  have lr: "length (row_text (v # vs)) = length (dec_string v) + 1 + length (row_text vs)" using c(2) by (cases vs) simp_all
  have "route_row buf row (length (v # vs) + n) (int j) p (Some m) =
      route_row buf row (length vs + n) (int (Suc j)) (p + length (dec_string v) + 1) (Some m1)"
    using m1(1) st sint_small_nat[OF v] by (simp add: Let_def add.commute)
  also have "\<dots> = route_row buf row n (int (j + length (v # vs))) (p + length (row_text (v # vs))) (Some m')"
    unfolding m'(1) lr by (simp add: add.assoc)
  finally have "route_row buf row (length (v # vs) + n) (int j) p (Some m) =
      route_row buf row n (int (j + length (v # vs))) (p + length (row_text (v # vs))) (Some m')" .
  moreover have "row_written m row j (v # vs) m'"
    unfolding row_written_def
  proof (intro allI impI)
    fix r c assume i: "inside32 r c"
    then have c0: "0 < c" by (simp add: inside32_def)
    have a: "cell m' r c = (if r = row \<and> int (Suc j) < c \<and> c \<le> int (Suc j + length vs) then Some (int (vs ! (nat c - Suc j - 1))) else cell m1 r c)"
      using m'(3) i by (simp add: row_written_def)
    have b: "cell m1 r c = (if r = row \<and> c = int j + 1 then Some (int v) else cell m r c)" using m1(3) i by blast
    consider "r \<noteq> row \<or> c \<le> int j \<or> int (j + length (v # vs)) < c" | "r = row" "c = int j + 1"
      | "r = row" "int (Suc j) < c" "c \<le> int (j + length (v # vs))" by force
    then show "cell m' r c = (if r = row \<and> int j < c \<and> c \<le> int (j + length (v # vs)) then Some (int ((v # vs) ! (nat c - j - 1))) else cell m r c)"
    proof cases
      case 3
      then have "nat c - j - 1 = Suc (nat c - Suc j - 1)" by linarith
      then show ?thesis using a 3 by simp
    next
      case 2
      then have "nat c - j - 1 = 0" by linarith
      then show ?thesis using a b 2 by simp
    qed (use a b in auto)
  qed
  ultimately show ?case using m'(2) by blast
qed

section \<open>Reading the lines\<close>

lemma dec_string_no_NL: "NL \<notin> set (dec_string n)"
proof (induction n rule: dec_string.induct)
  case (1 n)
  have "NL \<noteq> digit_char d" if "d < 10" for d using digit_char_other[OF that, of NL] by (auto simp: NL_def)
  then show ?case using 1 by (subst dec_string.simps) auto
qed

lemma NUL_sign: "NUL \<noteq> CHR ''-''" "NUL \<noteq> CHR ''+''"
proof -
  have n: "NUL \<noteq> c" if "(of_char c :: nat) \<noteq> 0" for c
  proof
    assume "NUL = c"
    then have "(of_char NUL :: nat) = of_char c" by simp
    then show False using that by (simp add: NUL_def del: of_char_eq_iff)
  qed
  show "NUL \<noteq> CHR ''-''" "NUL \<noteq> CHR ''+''" by (rule n, simp)+
qed

lemma comma_NL: "CHR '','' \<noteq> NL"
proof
  assume "CHR '','' = NL"
  then have "(of_char (CHR '','') :: nat) = of_char NL" by simp
  then show False by (simp add: NL_def del: of_char_eq_iff)
qed

lemma row_text_line: "vs \<noteq> [] \<Longrightarrow> \<exists>l. row_text vs = l @ [NL] \<and> NL \<notin> set l"
proof (induction vs rule: row_text.induct)
  case (3 v w vs)
  then obtain l where "row_text (w # vs) = l @ [NL]" "NL \<notin> set l" by auto
  moreover have "CHR '','' \<noteq> NL" by (rule comma_NL)
  ultimately show ?case using dec_string_no_NL[of v]
    by (intro exI[of _ "dec_string v @ CHR '','' # l"]) auto
qed (use dec_string_no_NL in auto)

lemma fgets_take_line: "NL \<notin> set l \<Longrightarrow> length l < n \<Longrightarrow> fgets_take n (l @ NL # s) = (l @ [NL], s)"
proof (induction l arbitrary: n)
  case Nil
  then show ?case by (cases n) auto
next
  case (Cons c l)
  then show ?case by (cases n) auto
qed

lemma fgets_row:
  assumes "vs \<noteq> []" "length (row_text vs) < length buf"
  shows "fgets buf (row_text vs @ s) = Some (map Some (row_text vs) @ [Some NUL] @ drop (length (row_text vs) + 1) buf, s)"
proof -
  obtain l where l: "row_text vs = l @ [NL]" "NL \<notin> set l" using row_text_line[OF assms(1)] by blast
  then have "fgets_take (length buf - 1) (row_text vs @ s) = (row_text vs, s)"
    using fgets_take_line[of l "length buf - 1" s] assms(2) by simp
  then show ?thesis using l by (simp add: fgets_def)
qed

lemma length_dec_string: "n < 10 ^ Suc k \<Longrightarrow> length (dec_string n) \<le> Suc k"
proof (induction k arbitrary: n)
  case 0
  then show ?case by (simp add: dec_string.simps[of n])
next
  case (Suc k)
  then have "n div 10 < 10 ^ Suc k" by (simp add: less_mult_imp_div_less)
  from Suc.IH[OF this] show ?case by (subst dec_string.simps) simp
qed

lemma length_row_text: "\<forall>v \<in> set vs. v < 2 ^ 31 \<Longrightarrow> length (row_text vs) \<le> 11 * length vs"
proof (induction vs rule: row_text.induct)
  case (2 v)
  then show ?case using length_dec_string[of v 9] by simp
next
  case (3 v w vs)
  then show ?case using length_dec_string[of v 9] by simp
qed simp

lemma read_routes_text:
  assumes "table32 m" "i + length rows \<le> 32" "\<forall>vs \<in> set rows. length vs = 32 \<and> (\<forall>v \<in> set vs. v < 2 ^ 31)" "353 < length buf"
  shows "\<exists>m'. read_routes (routes_text rows) buf (int i) (Some m) = Inr (Some m') \<and> table32 m' \<and>
    (\<forall>r c. inside32 r c \<longrightarrow> cell m' r c =
      (if int i < r \<and> r \<le> int (i + length rows) then Some (int (rows ! (nat r - i - 1) ! (nat c - 1))) else cell m r c))"
  using assms
proof (induction rows arbitrary: m i buf)
  case Nil
  then show ?case by (subst read_routes.simps) (auto simp: routes_text_def fgets_def)
next
  case (Cons vs rows)
  have vs: "length vs = 32" "\<forall>v \<in> set vs. v < 2 ^ 31" "vs \<noteq> []" using Cons.prems(3) by auto
  have lt: "length (row_text vs) \<le> 352" using length_row_text[OF vs(2)] vs(1) by simp
  let ?b = "map Some (row_text vs) @ [Some NUL] @ drop (length (row_text vs) + 1) buf"
  have fg: "fgets buf (routes_text (vs # rows)) = Some (?b, routes_text rows)"
    using fgets_row[OF vs(3), of buf "routes_text rows"] lt Cons.prems(4) by (simp add: routes_text_def)
  have j0: "0 + length vs \<le> 32" using vs(1) by simp
  have "\<exists>m1. route_row ?b (int i + 1) (length vs + 0) (int 0) 0 (Some m) =
      route_row ?b (int i + 1) 0 (int (0 + length vs)) (0 + length (row_text vs)) (Some m1) \<and> table32 m1 \<and> row_written m (int i + 1) 0 vs m1"
    by (rule route_row_text[OF Cons.prems(1) _ _ j0 vs(2)]) (use Cons.prems(2) in auto)
  then obtain m1 where
    m1: "route_row ?b (int i + 1) 32 0 0 (Some m) = Inr (Some m1)" "table32 m1" "row_written m (int i + 1) 0 vs m1"
    using vs(1) by auto
  have lb: "353 < length ?b" using lt Cons.prems(4) by simp
  from Cons.IH[OF m1(2), of "Suc i" ?b] Cons.prems(2,3) lb obtain m' where
    m': "read_routes (routes_text rows) ?b (int i + 1) (Some m1) = Inr (Some m')" "table32 m'"
    "\<forall>r c. inside32 r c \<longrightarrow> cell m' r c =
      (if int (Suc i) < r \<and> r \<le> int (Suc i + length rows) then Some (int (rows ! (nat r - Suc i - 1) ! (nat c - 1))) else cell m1 r c)"
    by (auto simp: add.commute)
  have "read_routes (routes_text (vs # rows)) buf (int i) (Some m) = Inr (Some m')"
    using fg m1(1) m'(1) Cons.prems(4) by (subst read_routes.simps) simp
  moreover have "cell m' r c = (if int i < r \<and> r \<le> int (i + length (vs # rows)) then Some (int ((vs # rows) ! (nat r - i - 1) ! (nat c - 1))) else cell m r c)"
    if in32: "inside32 r c" for r c
  proof -
    have a: "cell m' r c = (if int (Suc i) < r \<and> r \<le> int (Suc i + length rows) then Some (int (rows ! (nat r - Suc i - 1) ! (nat c - 1))) else cell m1 r c)"
      using m'(3) in32 by blast
    have b: "cell m1 r c = (if r = int i + 1 then Some (int (vs ! (nat c - 1))) else cell m r c)"
      using m1(3) in32 vs(1) by (simp add: row_written_def inside32_def)
    consider "r \<le> int i \<or> int (i + length (vs # rows)) < r" | "r = int i + 1" | "int (Suc i) < r" "r \<le> int (i + length (vs # rows))" by force
    then show ?thesis
    proof cases
      case 3
      then have "nat r - i - 1 = Suc (nat r - Suc i - 1)" by linarith
      then show ?thesis using a 3 by simp
    next
      case 2
      then have "nat r - i - 1 = 0" by linarith
      then show ?thesis using a b 2 by simp
    qed (use a b in auto)
  qed
  ultimately show ?case using m'(2) by blast
qed

section \<open>Properties\<close>

text \<open>A file with 32 lines of 32 numbers is read into the routing matrix number by
  number: afterwards every element of the matrix is set, to the number at its place.\<close>
theorem route_file_roundtrip:
  assumes "length rows = 32" "\<forall>vs \<in> set rows. length vs = 32 \<and> (\<forall>v \<in> set vs. v < 2 ^ 31)"
  shows "\<exists>m. load_routes True True (Some (routes_text rows)) = Inr (Some m) \<and> matrix_wf m \<and> mrows m = 32 \<and> mcols m = 32 \<and>
    (\<forall>r c. 0 < r \<longrightarrow> r \<le> 32 \<longrightarrow> 0 < c \<longrightarrow> c \<le> 32 \<longrightarrow> cell m r c = Some (int (rows ! nat (r - 1) ! nat (c - 1))))"
proof -
  let ?m = "\<lparr>mrows = 32, mcols = 32, mdata = Some (replicate (nat (32 * 32)) None)\<rparr> :: route_matrix"
  have n: "newRouteMatrix True True 32 32 = Inr (Some ?m)" by (simp add: newRouteMatrix_def mtx_new_def)
  have t: "table32 ?m" by (simp add: table32_def matrix_wf_def)
  have b: "353 < length (replicate BUFSIZ (None :: char option))" by (simp add: BUFSIZ_def)
  obtain m where
    m: "read_routes (routes_text rows) (replicate BUFSIZ None) (int 0) (Some ?m) = Inr (Some m)" "table32 m"
    "\<forall>r c. inside32 r c \<longrightarrow> cell m r c =
      (if int 0 < r \<and> r \<le> int (0 + length rows) then Some (int (rows ! (nat r - 0 - 1) ! (nat c - 1))) else cell ?m r c)"
    using read_routes_text[OF t _ assms(2) b, of 0] assms(1) by auto
  have "nat (r - 1) = nat r - 1" for r :: int by simp
  with m(3) assms(1) have "cell m r c = Some (int (rows ! nat (r - 1) ! nat (c - 1)))" if "0 < r" "r \<le> 32" "0 < c" "c \<le> 32" for r c
    using that by (simp add: inside32_def)
  moreover have "load_routes True True (Some (routes_text rows)) = Inr (Some m)" using m(1) n by (simp add: load_routes_def)
  ultimately show ?thesis using m(2) by (auto simp: table32_def)
qed

theorem route_file_roundtrip_witness:
  "\<exists>m. load_routes True True (Some (routes_text (replicate 32 (replicate 32 7)))) = Inr (Some m) \<and> cell m 32 1 = Some 7"
  using route_file_roundtrip[of "replicate 32 (replicate 32 7)"] by fastforce

text \<open>A first line with fewer than 32 numbers sends the reader past the end of the line:
  it reads characters of the buffer that were never written.\<close>
theorem route_file_short_line:
  assumes "vs \<noteq> []" "length vs < 31" "\<forall>v \<in> set vs. v < 2 ^ 31"
  shows "load_routes True True (Some (row_text vs)) = Inl Uninitialised"
proof -
  let ?m = "\<lparr>mrows = 32, mcols = 32, mdata = Some (replicate (nat (32 * 32)) None)\<rparr> :: route_matrix"
  let ?buf = "replicate BUFSIZ (None :: char option)"
  let ?b = "map Some (row_text vs) @ [Some NUL] @ drop (length (row_text vs) + 1) ?buf"
  have n: "newRouteMatrix True True 32 32 = Inr (Some ?m)" by (simp add: newRouteMatrix_def mtx_new_def)
  have t: "table32 ?m" by (simp add: table32_def matrix_wf_def)
  have lt: "length (row_text vs) < 341" using length_row_text[OF assms(3)] assms(2) by simp
  have fg: "fgets ?buf (row_text vs) = Some (?b, [])"
    using fgets_row[OF assms(1), of ?buf "[]"] lt by (simp add: BUFSIZ_def)
  define k where "k = 30 - length vs"
  then have k: "32 = length vs + Suc (Suc k)" using assms(2) by simp
  have "0 + length vs \<le> 32" using assms(2) by simp
  have "\<exists>m1. route_row ?b 1 (length vs + Suc (Suc k)) (int 0) 0 (Some ?m) =
      route_row ?b 1 (Suc (Suc k)) (int (0 + length vs)) (0 + length (row_text vs)) (Some m1) \<and> table32 m1 \<and> row_written ?m 1 0 vs m1"
    by (rule route_row_text[OF t _ _ \<open>0 + length vs \<le> 32\<close> assms(3)]) auto
  then obtain m1 where m1: "route_row ?b 1 32 0 0 (Some ?m) =
      route_row ?b 1 (Suc (Suc k)) (int (length vs)) (length (row_text vs)) (Some m1)" "table32 m1"
    unfolding k[symmetric] by auto
  have s1: "strtol (drop (length (row_text vs)) ?b) = Inr (0, 0)" by (simp add: strtol_def Let_def NUL_sign)
  have "inside32 1 (int (length vs) + 1)" using assms(2) by (simp add: inside32_def)
  from set_element[OF m1(2) this, of 0] obtain m2 where m2: "setRouteElement (Some m1) 1 (int (length vs) + 1) 0 = Inr (0, Some m2)" by blast
  have "strtol (drop (length (row_text vs) + 1) ?b) = Inl Uninitialised"
  proof -
    define q where "q = BUFSIZ - (length (row_text vs) + 2)"
    then have q: "BUFSIZ - (length (row_text vs) + 1) = Suc q" using lt by (simp add: BUFSIZ_def)
    have "drop (length (row_text vs) + 1) ?b = None # replicate q None" using q by simp
    then show ?thesis by (simp add: strtol_def)
  qed
  then have "route_row ?b 1 32 0 0 (Some ?m) = Inl Uninitialised" using s1 m2 unfolding m1(1) by (simp add: Let_def)
  moreover have "\<not> length ?buf < 2" by (simp add: BUFSIZ_def)
  ultimately have "read_routes (row_text vs) ?buf 0 (Some ?m) = Inl Uninitialised"
    using fg by (subst read_routes.simps) simp
  then show ?thesis using n by (simp add: load_routes_def)
qed

theorem route_file_short_line_witness: "load_routes True True (Some (row_text [1, 2])) = Inl Uninitialised"
  by (rule route_file_short_line) simp_all

end
