(* ===== verification/Setup.thy ===== *)
theory Setup
  imports Thread_Run Topo_Time Route_File
begin

text \<open>
  The setup in \<open>main\<close> of \<open>opera-v2/emu_nic.c\<close>: the ports' parameters, the queues, and which
  thread serves which port and queue. The numbers of network queues \<open>n\<close> and of namespaces \<open>v\<close>
  come from the command line and are not checked.
\<close>

section \<open>Loops over arrays\<close>

fun for_loop :: "int \<Rightarrow> nat \<Rightarrow> (int \<Rightarrow> 's \<Rightarrow> 's res) \<Rightarrow> 's \<Rightarrow> 's res" where
  "for_loop i 0 f s = Inr s"
| "for_loop i (Suc k) f s = rbind (f i s) (for_loop (i + 1) k f)"

definition for_range :: "int \<Rightarrow> int \<Rightarrow> (int \<Rightarrow> 's \<Rightarrow> 's res) \<Rightarrow> 's \<Rightarrow> 's res" where
  "for_range lo hi f s = for_loop lo (nat (hi - lo)) f s"

definition idx_set :: "'a list \<Rightarrow> int \<Rightarrow> 'a \<Rightarrow> 'a list res" where
  "idx_set xs i v = guard_res Out_Of_Bounds (0 \<le> i) (arr_set xs (nat i) v)"

section \<open>Ports\<close>

definition MAX_PORTS :: nat where "MAX_PORTS = 12"
definition MAX_THREADS :: nat where "MAX_THREADS = 64"
definition MAX_PORTS_PER_THREAD :: nat where "MAX_PORTS_PER_THREAD = 16"
definition MAX_BURST_TX_OBJS :: u64 where "MAX_BURST_TX_OBJS = 4096"

definition out_veth_arr :: "string list" where
  "out_veth_arr = [''vethout2'', ''vethout3'', ''vethout4'', ''vethout5'', ''vethout6'', ''vethout7'', ''vethout8'', ''vethout9'']"

text \<open>The interface of the given address: an entry has an address family, an address and a name.\<close>

record ifaddr =
  ifa_family :: "int option"
  ifa_inaddr :: u32
  ifa_name :: string

definition AF_INET :: int where "AF_INET = 2"

fun find_interface :: "ifaddr list \<Rightarrow> u32 \<Rightarrow> string option \<Rightarrow> string option" where
  "find_interface [] addr nic = nic"
| "find_interface (a # as) addr nic =
     (case ifa_family a of None \<Rightarrow> find_interface as addr nic
      | Some f \<Rightarrow> if f \<noteq> AF_INET then find_interface as addr nic
          else if ifa_inaddr a = addr then find_interface as addr (Some (ifa_name a))
          else find_interface as addr nic)"

record port_slot =
  slot_iface :: "string option"
  slot_queue :: u32

definition port_params_default :: port_slot where
  "port_params_default = \<lparr>slot_iface = None, slot_queue = 0\<rparr>"

definition set_slot :: "port_slot list \<Rightarrow> int \<Rightarrow> string option \<Rightarrow> int \<Rightarrow> port_slot list res" where
  "set_slot ps i name q = rbind (idx_get ps i) (\<lambda>s. idx_set ps i (s\<lparr>slot_iface := name, slot_queue := word_of_int q\<rparr>))"

definition default_ports :: "int \<Rightarrow> port_slot list \<Rightarrow> port_slot list res" where
  "default_ports n_ports ps = for_range 0 n_ports (\<lambda>i ps. idx_set ps i port_params_default) ps"

definition name_ports :: "string option \<Rightarrow> int \<Rightarrow> int \<Rightarrow> port_slot list \<Rightarrow> port_slot list res" where
  "name_ports nic n v ps1 =
     rbind (for_range 0 n (\<lambda>y ps. set_slot ps y nic y) ps1) (\<lambda>ps2.
     rbind (for_range n (v + n) (\<lambda>x (ps, z). rbind (idx_get out_veth_arr z) (\<lambda>nm.
         rbind (set_slot ps x (Some nm) 0) (\<lambda>ps'. Inr (ps', z + 1)))) (ps2, 0)) (\<lambda>(ps3, _). Inr ps3))"

text \<open>Between the two, \<open>main\<close> loads the XDP programs, which does not depend on the ports.\<close>

definition setup_ports :: "string option \<Rightarrow> int \<Rightarrow> int \<Rightarrow> port_slot list \<Rightarrow> port_slot list res" where
  "setup_ports nic n v ps = rbind (default_ports (v + n) ps) (name_ports nic n v)"

text \<open>The thread records get consecutive CPU cores, from 6 on.\<close>

definition START_THREAD_CORE_ID :: int where "START_THREAD_CORE_ID = 6"

definition assign_cores :: "int \<Rightarrow> u32 list res" where
  "assign_cores n_threads = rbind (for_range 0 n_threads (\<lambda>x (ts, core). rbind (idx_set ts x (word_of_int core)) (\<lambda>ts'. Inr (ts', core + 1)))
     (replicate MAX_THREADS 0, START_THREAD_CORE_ID)) (\<lambda>(ts, _). Inr ts)"

section \<open>Queues\<close>

text \<open>The results of \<open>mpmc_queue_init\<close> are ignored; \<open>None\<close> is a queue that was not initialised.\<close>

fun init_queues :: "memtype \<Rightarrow> nat \<Rightarrow> burst_tx mpmc_queue option list res" where
  "init_queues mem 0 = Inr []"
| "init_queues mem (Suc k) = rbind (mpmc_queue_init MAX_BURST_TX_OBJS mem) (\<lambda>(_, q).
     rbind (init_queues mem k) (\<lambda>qs. Inr (q # qs)))"

section \<open>Threads\<close>

definition no_thread :: thread_data where
  "no_thread = \<lparr>ports_rx = replicate MAX_PORTS_PER_THREAD None, ports_tx = replicate MAX_PORTS_PER_THREAD None,
     local_dest_queue_array = replicate NUM_OF_PER_DEST_QUEUES None,
     non_local_dest_queue_array = replicate NUM_OF_PER_DEST_QUEUES None,
     veth_side_queue_array = replicate VETH_QUEUES None, assigned_queue_count = 0, assigned_perdest_count = 0\<rparr>"

text \<open>
  Copying \<open>k\<close> entries of the array of ports or of queues, starting at a position that is counted
  up. (The code copies the two kinds of queues of a transmit thread in one loop.)
\<close>

definition copy_array :: "nat option list \<Rightarrow> int \<Rightarrow> nat option list \<times> int \<Rightarrow> (nat option list \<times> int) res" where
  "copy_array src k = for_range 0 k (\<lambda>j (dst, q). rbind (idx_get src q) (\<lambda>x.
     rbind (idx_set dst j x) (\<lambda>dst'. Inr (dst', q + 1))))"

definition nic_tx_thread :: "nat option list \<Rightarrow> nat option list \<Rightarrow> int \<Rightarrow> int \<Rightarrow> int \<Rightarrow> thread_data list \<times> int \<Rightarrow> (thread_data list \<times> int) res" where
  "nic_tx_thread ports queues aq per i = (\<lambda>(ts, q). rbind (idx_get ts i) (\<lambda>t.
     rbind (copy_array ports aq (ports_tx t, q)) (\<lambda>(ps, q').
     rbind (copy_array queues per (local_dest_queue_array t, per * i)) (\<lambda>(ls, _).
     rbind (copy_array queues per (non_local_dest_queue_array t, per * i)) (\<lambda>(ns, _).
     rbind (idx_set ts i (t\<lparr>ports_tx := ps, assigned_queue_count := aq, assigned_perdest_count := per,
         local_dest_queue_array := ls, non_local_dest_queue_array := ns\<rparr>)) (\<lambda>ts'. Inr (ts', q')))))))"

definition nic_rx_thread :: "nat option list \<Rightarrow> nat option list \<Rightarrow> nat option list \<Rightarrow> int \<Rightarrow> int \<Rightarrow> int \<Rightarrow> thread_data list \<times> int \<Rightarrow> (thread_data list \<times> int) res" where
  "nic_rx_thread ports queues vqueues aq v i = (\<lambda>(ts, q). rbind (idx_get ts i) (\<lambda>t.
     rbind (copy_array ports aq (ports_rx t, q)) (\<lambda>(ps, q').
     rbind (copy_array queues (int NUM_OF_PER_DEST_QUEUES) (non_local_dest_queue_array t, 0)) (\<lambda>(ns, _).
     rbind (copy_array vqueues v (veth_side_queue_array t, 0)) (\<lambda>(vs, _).
     rbind (idx_set ts i (t\<lparr>ports_rx := ps, assigned_queue_count := aq,
         non_local_dest_queue_array := ns, veth_side_queue_array := vs\<rparr>)) (\<lambda>ts'. Inr (ts', q')))))))"

definition veth_rx_thread :: "nat option list \<Rightarrow> nat option list \<Rightarrow> int \<Rightarrow> thread_data list \<times> int \<Rightarrow> (thread_data list \<times> int) res" where
  "veth_rx_thread ports queues i = (\<lambda>(ts, q). rbind (idx_get ts i) (\<lambda>t. rbind (idx_get ports q) (\<lambda>p.
     rbind (idx_set (ports_rx t) 0 p) (\<lambda>ps.
     rbind (copy_array queues (int NUM_OF_PER_DEST_QUEUES) (local_dest_queue_array t, 0)) (\<lambda>(ls, _).
     rbind (idx_set ts i (t\<lparr>ports_rx := ps, local_dest_queue_array := ls\<rparr>)) (\<lambda>ts'. Inr (ts', q + 1)))))))"

definition veth_tx_thread :: "nat option list \<Rightarrow> nat option list \<Rightarrow> int \<Rightarrow> int \<Rightarrow> thread_data list \<times> int \<Rightarrow> (thread_data list \<times> int) res" where
  "veth_tx_thread ports vqueues n i = (\<lambda>(ts, g). rbind (idx_get ts i) (\<lambda>t. rbind (idx_get ports (n + g)) (\<lambda>p.
     rbind (idx_set (ports_tx t) 0 p) (\<lambda>ps. rbind (idx_get vqueues g) (\<lambda>x.
     rbind (idx_set (veth_side_queue_array t) 0 x) (\<lambda>vs.
     rbind (idx_set ts i (t\<lparr>ports_tx := ps, veth_side_queue_array := vs\<rparr>)) (\<lambda>ts'. Inr (ts', g + 1))))))))"

text \<open>
  All threads: \<open>n\<close> to send to and \<open>n\<close> to receive from the network, \<open>v\<close> to receive from and \<open>v\<close>
  to send to the namespaces.
\<close>

definition port_array :: "int \<Rightarrow> nat option list" where
  "port_array k = map (\<lambda>i. if int i < k then Some i else None) [0..<MAX_PORTS]"

definition dest_queues :: "nat option list" where
  "dest_queues = map Some [0..<NUM_OF_PER_DEST_QUEUES]"

definition veth_queues :: "int \<Rightarrow> nat option list" where
  "veth_queues v = map (\<lambda>i. if int i < v then Some i else None) [0..<VETH_QUEUES]"

definition assign_threads :: "int \<Rightarrow> int \<Rightarrow> thread_data list res" where
  "assign_threads n v = (let ports = port_array (v + n); total = 2 * n; ts0 = replicate MAX_THREADS no_thread in
     guard_res Div_By_Zero (n \<noteq> 0) (
     let aq = n div n; per = (sgn n) * (int NUM_OF_PER_DEST_QUEUES div \<bar>n\<bar>) in
     rbind (for_range 0 n (nic_tx_thread ports dest_queues aq per) (ts0, 0)) (\<lambda>(ts1, _).
     rbind (for_range n total (nic_rx_thread ports dest_queues (veth_queues v) aq v) (ts1, 0)) (\<lambda>(ts2, _).
     rbind (for_range total (total + v) (veth_rx_thread ports dest_queues) (ts2, n)) (\<lambda>(ts3, _).
     rbind (for_range (total + v) (total + v + v) (veth_tx_thread ports (veth_queues v) n) (ts3, 0)) (\<lambda>(ts4, _).
       Inr ts4))))))"

section \<open>Filling arrays\<close>

lemma idx_set_in [simp]: "0 \<le> i \<Longrightarrow> i < int (length xs) \<Longrightarrow> idx_set xs i v = Inr (xs[nat i := v])"
  by (simp add: idx_set_def)

lemma idx_get_int [simp]: "0 \<le> i \<Longrightarrow> i < int (length xs) \<Longrightarrow> idx_get xs i = Inr (xs ! nat i)"
  by (simp add: idx_get_def)

text \<open>A loop whose step \<open>i\<close> sets element \<open>i\<close> of an array.\<close>

definition filled :: "int \<Rightarrow> int \<Rightarrow> (int \<Rightarrow> 'a) \<Rightarrow> 'a list \<Rightarrow> 'a list" where
  "filled lo hi e xs = map (\<lambda>j. if lo \<le> int j \<and> int j < hi then e (int j) else xs ! j) [0..<length xs]"

lemma length_filled [simp]: "length (filled lo hi e xs) = length xs"
  by (simp add: filled_def)

lemma nth_filled [simp]: "j < length xs \<Longrightarrow> filled lo hi e xs ! j = (if lo \<le> int j \<and> int j < hi then e (int j) else xs ! j)"
  by (simp add: filled_def)

lemma filled_empty: "hi \<le> lo \<Longrightarrow> filled lo hi e xs = xs"
  by (rule nth_equalityI) auto

lemma for_loop_fill:
  assumes "0 \<le> lo" "lo + int k \<le> int (length xs)"
    and "\<And>i ys. lo \<le> i \<Longrightarrow> i < lo + int k \<Longrightarrow> length ys = length xs \<Longrightarrow> ys ! nat i = xs ! nat i \<Longrightarrow>
      f i (ys, a i) = Inr (ys[nat i := e i], a (i + 1))"
  shows "for_loop lo k f (xs, a lo) = Inr (filled lo (lo + int k) e xs, a (lo + int k))"
  using assms
proof (induction k arbitrary: lo xs)
  case 0
  then show ?case by (simp add: filled_empty)
next
  case (Suc k)
  let ?ys = "xs[nat lo := e lo]"
  have s: "f lo (xs, a lo) = Inr (?ys, a (lo + 1))" using Suc.prems(3)[of lo xs] by simp
  have "for_loop (lo + 1) k f (?ys, a (lo + 1)) = Inr (filled (lo + 1) (lo + 1 + int k) e ?ys, a (lo + 1 + int k))"
  proof (rule Suc.IH)
    fix i ys assume i: "lo + 1 \<le> i" "i < lo + 1 + int k" "length ys = length ?ys" "ys ! nat i = ?ys ! nat i"
    then have "nat i \<noteq> nat lo" using Suc.prems(1) by simp
    then show "f i (ys, a i) = Inr (ys[nat i := e i], a (i + 1))" using Suc.prems(3)[of i ys] i by simp
  qed (use Suc.prems in simp_all)
  moreover have "filled (lo + 1) (lo + 1 + int k) e ?ys = filled lo (lo + int (Suc k)) e xs"
  proof (rule nth_equalityI)
    fix j assume "j < length (filled (lo + 1) (lo + 1 + int k) e ?ys)"
    then show "filled (lo + 1) (lo + 1 + int k) e ?ys ! j = filled lo (lo + int (Suc k)) e xs ! j"
      using Suc.prems(1) by (cases "j = nat lo") auto
  qed simp
  ultimately show ?case using s by (simp add: ac_simps)
qed

lemma for_range_fill:
  assumes "0 \<le> lo" "lo \<le> hi" "hi \<le> int (length xs)" "a0 = a lo"
    and "\<And>i ys. lo \<le> i \<Longrightarrow> i < hi \<Longrightarrow> length ys = length xs \<Longrightarrow> ys ! nat i = xs ! nat i \<Longrightarrow>
      f i (ys, a i) = Inr (ys[nat i := e i], a (i + 1))"
  shows "for_range lo hi f (xs, a0) = Inr (filled lo hi e xs, a hi)"
  using for_loop_fill[of lo "nat (hi - lo)" xs f a e] assms by (simp add: for_range_def)

lemma copy_array_run:
  assumes "0 \<le> k" "k \<le> int (length dst)" "0 \<le> q" "q + k \<le> int (length src)"
  shows "copy_array src k (dst, q) = Inr (filled 0 k (\<lambda>j. src ! nat (q + j)) dst, q + k)"
  unfolding copy_array_def
  by (rule for_range_fill[where a = "\<lambda>i. q + i"]) (use assms in auto)

lemma assign_cores_run: "0 \<le> k \<Longrightarrow> k \<le> 64 \<Longrightarrow> assign_cores k = Inr (filled 0 k (\<lambda>i. word_of_int (6 + i)) (replicate MAX_THREADS 0))"
proof -
  assume k: "0 \<le> k" "k \<le> 64"
  have l: "length (replicate MAX_THREADS (0 :: u32)) = 64" by (simp add: MAX_THREADS_def)
  have "for_range 0 k (\<lambda>x (ts, core). rbind (idx_set ts x (word_of_int core)) (\<lambda>ts'. Inr (ts', core + 1))) (replicate MAX_THREADS (0 :: u32), START_THREAD_CORE_ID) =
      Inr (filled 0 k (\<lambda>i. word_of_int (6 + i)) (replicate MAX_THREADS 0), 6 + k)"
    by (rule for_range_fill[where a = "\<lambda>i. 6 + i"]) (use k l in \<open>auto simp: START_THREAD_CORE_ID_def\<close>)
  then show ?thesis by (simp add: assign_cores_def)
qed

section \<open>The assignment\<close>

definition tx_data :: "int \<Rightarrow> int \<Rightarrow> thread_data" where
  "tx_data per i = no_thread\<lparr>ports_tx := filled 0 1 (\<lambda>_. Some (nat i)) (ports_tx no_thread),
     assigned_queue_count := 1, assigned_perdest_count := per,
     local_dest_queue_array := filled 0 per (\<lambda>j. Some (nat (per * i + j))) (local_dest_queue_array no_thread),
     non_local_dest_queue_array := filled 0 per (\<lambda>j. Some (nat (per * i + j))) (non_local_dest_queue_array no_thread)\<rparr>"

definition rx_data :: "int \<Rightarrow> int \<Rightarrow> int \<Rightarrow> thread_data" where
  "rx_data n v i = no_thread\<lparr>ports_rx := filled 0 1 (\<lambda>_. Some (nat (i - n))) (ports_rx no_thread), assigned_queue_count := 1,
     non_local_dest_queue_array := dest_queues, veth_side_queue_array := veth_queues v\<rparr>"

definition vrx_data :: "int \<Rightarrow> int \<Rightarrow> thread_data" where
  "vrx_data n i = no_thread\<lparr>ports_rx := filled 0 1 (\<lambda>_. Some (nat (i - n))) (ports_rx no_thread), local_dest_queue_array := dest_queues\<rparr>"

definition vtx_data :: "int \<Rightarrow> int \<Rightarrow> int \<Rightarrow> thread_data" where
  "vtx_data n v i = no_thread\<lparr>ports_tx := filled 0 1 (\<lambda>_. Some (nat (i - v - n))) (ports_tx no_thread),
     veth_side_queue_array := filled 0 1 (\<lambda>_. Some (nat (i - (2 * n + v)))) (veth_side_queue_array no_thread)\<rparr>"

lemma array_lengths [simp]: "length (port_array k) = 12" "length dest_queues = 32" "length (veth_queues v) = 13"
  "length (ports_rx no_thread) = 16" "length (ports_tx no_thread) = 16" "length (local_dest_queue_array no_thread) = 32"
  "length (non_local_dest_queue_array no_thread) = 32" "length (veth_side_queue_array no_thread) = 13"
  by (simp_all add: port_array_def dest_queues_def veth_queues_def no_thread_def MAX_PORTS_def NUM_OF_PER_DEST_QUEUES_def
      VETH_QUEUES_def MAX_PORTS_PER_THREAD_def)

lemma array_entries [simp]: "0 \<le> i \<Longrightarrow> i < k \<Longrightarrow> i < 12 \<Longrightarrow> port_array k ! nat i = Some (nat i)"
  "0 \<le> i \<Longrightarrow> i < 32 \<Longrightarrow> dest_queues ! nat i = Some (nat i)"
  "0 \<le> i \<Longrightarrow> i < v \<Longrightarrow> i < 13 \<Longrightarrow> veth_queues v ! nat i = Some (nat i)"
  by (simp_all add: port_array_def dest_queues_def veth_queues_def MAX_PORTS_def NUM_OF_PER_DEST_QUEUES_def VETH_QUEUES_def nat_less_iff)

lemma filled_cong: "(\<And>j. lo \<le> j \<Longrightarrow> j < hi \<Longrightarrow> e j = e' j) \<Longrightarrow> filled lo hi e xs = filled lo hi e' xs"
  by (simp add: filled_def)

lemma filled_all: "length xs = length ys \<Longrightarrow> int (length xs) \<le> hi \<Longrightarrow> filled 0 hi (\<lambda>j. ys ! nat j) xs = ys"
  by (rule nth_equalityI) auto

lemma copy_all: "length dst = length src \<Longrightarrow> copy_array src (int (length src)) (dst, 0) = Inr (src, int (length src))"
  using copy_array_run[of "int (length src)" dst 0 src] filled_all[of dst src "int (length src)"] by simp

lemma set_first: "xs \<noteq> [] \<Longrightarrow> xs[0 := x] = filled 0 1 (\<lambda>_. x) xs"
  by (rule nth_equalityI) (auto simp: nth_list_update)

text \<open>The four steps on an empty thread record.\<close>

lemma nic_tx_step:
  assumes "0 \<le> i" "i < n" "n \<le> v + n" "v + n \<le> 12" "0 < per" "per * n \<le> 32"
    and "i < int (length ts)" "ts ! nat i = no_thread"
  shows "nic_tx_thread (port_array (v + n)) dest_queues 1 per i (ts, i) = Inr (ts[nat i := tx_data per i], i + 1)"
proof -
  have le: "per * i + per \<le> per * n"
    using mult_left_mono[of "i + 1" n per] assms(2,5) by (simp add: algebra_simps)
  have pi: "0 \<le> per * i" using assms(1,5) by simp
  have "1 * per \<le> per * n" using mult_right_mono[of 1 n per] assms(1,2,5) by (simp add: mult.commute)
  then have p: "per \<le> 32" using assms(6) by simp
  have c: "copy_array dest_queues per (dst, per * i) = Inr (filled 0 per (\<lambda>j. Some (nat (per * i + j))) dst, per * i + per)"
    if "length dst = 32" for dst
  proof -
    have "filled 0 per (\<lambda>j. dest_queues ! nat (per * i + j)) dst = filled 0 per (\<lambda>j. Some (nat (per * i + j))) dst"
      by (rule filled_cong) (use le pi assms(6) in auto)
    then show ?thesis using copy_array_run[of per dst "per * i" dest_queues] that p pi le assms(5,6) by simp
  qed
  have "copy_array (port_array (v + n)) 1 (ports_tx no_thread, i) = Inr (filled 0 1 (\<lambda>_. Some (nat i)) (ports_tx no_thread), i + 1)"
  proof -
    have "filled 0 1 (\<lambda>j. port_array (v + n) ! nat (i + j)) (ports_tx no_thread) = filled 0 1 (\<lambda>_. Some (nat i)) (ports_tx no_thread)"
      by (rule filled_cong) (use assms in auto)
    then show ?thesis using copy_array_run[of 1 "ports_tx no_thread" i "port_array (v + n)"] assms by simp
  qed
  then show ?thesis using assms(1,7,8) c by (simp add: nic_tx_thread_def tx_data_def)
qed

lemma nic_rx_step:
  assumes "n \<le> i" "i < 2 * n" "0 \<le> v" "v + n \<le> 12"
    and "i < int (length ts)" "ts ! nat i = no_thread"
  shows "nic_rx_thread (port_array (v + n)) dest_queues (veth_queues v) 1 v i (ts, i - n) = Inr (ts[nat i := rx_data n v i], i + 1 - n)"
proof -
  have p: "copy_array (port_array (v + n)) 1 (ports_rx no_thread, i - n) =
      Inr (filled 0 1 (\<lambda>_. Some (nat (i - n))) (ports_rx no_thread), i - n + 1)"
  proof -
    have "filled 0 1 (\<lambda>j. port_array (v + n) ! nat (i - n + j)) (ports_rx no_thread) = filled 0 1 (\<lambda>_. Some (nat (i - n))) (ports_rx no_thread)"
      by (rule filled_cong) (use assms in auto)
    then show ?thesis using copy_array_run[of 1 "ports_rx no_thread" "i - n" "port_array (v + n)"] assms by simp
  qed
  have d: "copy_array dest_queues (int NUM_OF_PER_DEST_QUEUES) (non_local_dest_queue_array no_thread, 0) = Inr (dest_queues, 32)"
    using copy_all[of "non_local_dest_queue_array no_thread" dest_queues] by (simp add: NUM_OF_PER_DEST_QUEUES_def)
  have "filled 0 v (\<lambda>j. veth_queues v ! nat (0 + j)) (veth_side_queue_array no_thread) = veth_queues v"
    by (rule nth_equalityI) (auto simp: veth_queues_def no_thread_def VETH_QUEUES_def)
  then have "copy_array (veth_queues v) v (veth_side_queue_array no_thread, 0) = Inr (veth_queues v, v)"
    using copy_array_run[of v "veth_side_queue_array no_thread" 0 "veth_queues v"] assms by simp
  then show ?thesis using assms(1,2,5,6) p d by (simp add: nic_rx_thread_def rx_data_def)
qed

lemma veth_rx_step:
  assumes "2 * n \<le> i" "i < 2 * n + v" "0 < n" "v + n \<le> 12" "i < int (length ts)" "ts ! nat i = no_thread"
  shows "veth_rx_thread (port_array (v + n)) dest_queues i (ts, i - n) = Inr (ts[nat i := vrx_data n i], i + 1 - n)"
proof -
  have d: "copy_array dest_queues (int NUM_OF_PER_DEST_QUEUES) (local_dest_queue_array no_thread, 0) = Inr (dest_queues, 32)"
    using copy_all[of "local_dest_queue_array no_thread" dest_queues] by (simp add: NUM_OF_PER_DEST_QUEUES_def)
  have "(ports_rx no_thread)[0 := Some (nat (i - n))] = filled 0 1 (\<lambda>_. Some (nat (i - n))) (ports_rx no_thread)"
    by (rule set_first) (simp flip: length_greater_0_conv)
  then show ?thesis using assms d by (simp add: veth_rx_thread_def vrx_data_def)
qed

lemma veth_tx_step:
  assumes "2 * n + v \<le> i" "i < 2 * n + v + v" "0 < n" "v + n \<le> 12" "i < int (length ts)" "ts ! nat i = no_thread"
  shows "veth_tx_thread (port_array (v + n)) (veth_queues v) n i (ts, i - (2 * n + v)) = Inr (ts[nat i := vtx_data n v i], i + 1 - (2 * n + v))"
proof -
  have a: "(ports_tx no_thread)[0 := x] = filled 0 1 (\<lambda>_. x) (ports_tx no_thread)"
    "(veth_side_queue_array no_thread)[0 := x] = filled 0 1 (\<lambda>_. x) (veth_side_queue_array no_thread)" for x
    by (rule set_first, simp flip: length_greater_0_conv)+
  have "n + (i - (2 * n + v)) = i - v - n" by simp
  then show ?thesis using assms by (simp add: veth_tx_thread_def vtx_data_def a)
qed

definition all_threads :: "int \<Rightarrow> int \<Rightarrow> thread_data list" where
  "all_threads n v = filled (2 * n + v) (2 * n + v + v) (vtx_data n v) (filled (2 * n) (2 * n + v) (vrx_data n)
     (filled n (2 * n) (rx_data n v) (filled 0 n (tx_data (32 div n)) (replicate MAX_THREADS no_thread))))"

lemma assign_threads_run:
  assumes n: "0 < n" "0 \<le> v" "v + n \<le> 12"
  shows "assign_threads n v = Inr (all_threads n v)"
proof -
  let ?per = "32 div n"
  have per: "0 < ?per" using n by (simp add: pos_imp_zdiv_pos_iff)
  have per32: "?per * n \<le> 32" using div_mult_mod_eq[of 32 n] pos_mod_sign[of n 32] n(1) by linarith
  let ?t0 = "replicate MAX_THREADS no_thread"
  let ?t1 = "filled 0 n (tx_data ?per) ?t0"
  let ?t2 = "filled n (2 * n) (rx_data n v) ?t1"
  let ?t3 = "filled (2 * n) (2 * n + v) (vrx_data n) ?t2"
  have len: "length ?t0 = 64" by (simp add: MAX_THREADS_def)
  have 1: "for_range 0 n (nic_tx_thread (port_array (v + n)) dest_queues 1 ?per) (?t0, 0) = Inr (?t1, n)"
    by (rule for_range_fill[where a = "\<lambda>i. i"]) (use n len per per32 in \<open>auto intro!: nic_tx_step\<close>)
  have 2: "for_range n (2 * n) (nic_rx_thread (port_array (v + n)) dest_queues (veth_queues v) 1 v) (?t1, 0) = Inr (?t2, 2 * n - n)"
    by (rule for_range_fill[where a = "\<lambda>i. i - n"]) (use n len in \<open>auto intro!: nic_rx_step\<close>)
  have 3: "for_range (2 * n) (2 * n + v) (veth_rx_thread (port_array (v + n)) dest_queues) (?t2, n) = Inr (?t3, 2 * n + v - n)"
    by (rule for_range_fill[where a = "\<lambda>i. i - n"]) (use n len in \<open>auto intro!: veth_rx_step\<close>)
  have 4: "for_range (2 * n + v) (2 * n + v + v) (veth_tx_thread (port_array (v + n)) (veth_queues v) n) (?t3, 0) =
      Inr (all_threads n v, 2 * n + v + v - (2 * n + v))"
    unfolding all_threads_def
    by (rule for_range_fill[where a = "\<lambda>i. i - (2 * n + v)"]) (use n len in \<open>auto intro!: veth_tx_step\<close>)
  have "sgn n * (int NUM_OF_PER_DEST_QUEUES div \<bar>n\<bar>) = ?per" "n div n = 1" using n by (simp_all add: NUM_OF_PER_DEST_QUEUES_def)
  then show ?thesis using n 1 2 3 4 by (simp add: assign_threads_def Let_def)
qed

section \<open>Properties\<close>

definition assigned :: "nat \<Rightarrow> thread_data \<Rightarrow> nat \<Rightarrow> bool" where
  "assigned q t w \<longleftrightarrow> int w < assigned_perdest_count t \<and> assigned_queue (local_dest_queue_array t) w = Inr (Some q)"

text \<open>Property C29: with at least one network queue and at most 12 ports, the setup succeeds: network
  transmit and receive thread \<open>i\<close> serve network port \<open>i\<close>, the namespace threads their
  namespace's port, receiving threads reach every queue under its own number, and transmit
  thread \<open>i\<close> drains the \<open>32 div n\<close> queues from \<open>32 div n * i\<close> on.\<close>
theorem assign_threads_correct:
  assumes "0 < n" "0 \<le> v" "v + n \<le> 12"
  shows "\<exists>ts. assign_threads n v = Inr ts \<and> length ts = 64 \<and>
    (\<forall>i. 0 \<le> i \<longrightarrow> i < n \<longrightarrow> port_at (ports_tx (ts ! nat i)) 0 = Inr (nat i) \<and> port_at (ports_rx (ts ! nat (n + i))) 0 = Inr (nat i) \<and>
      assigned_queue_count (ts ! nat i) = 1 \<and> assigned_queue_count (ts ! nat (n + i)) = 1 \<and>
      assigned_perdest_count (ts ! nat i) = 32 div n \<and>
      (\<forall>w. 0 \<le> w \<longrightarrow> w < 32 div n \<longrightarrow> assigned_queue (local_dest_queue_array (ts ! nat i)) (nat w) = Inr (Some (nat (32 div n * i + w))) \<and>
        assigned_queue (non_local_dest_queue_array (ts ! nat i)) (nat w) = Inr (Some (nat (32 div n * i + w)))) \<and>
      (\<forall>q < 32. non_local_dest_queue_array (ts ! nat (n + i)) ! q = Some q) \<and>
      (\<forall>g. 0 \<le> g \<longrightarrow> g < v \<longrightarrow> veth_side_queue_array (ts ! nat (n + i)) ! nat g = Some (nat g))) \<and>
    (\<forall>g. 0 \<le> g \<longrightarrow> g < v \<longrightarrow> port_at (ports_rx (ts ! nat (2 * n + g))) 0 = Inr (nat (n + g)) \<and>
      port_at (ports_tx (ts ! nat (2 * n + v + g))) 0 = Inr (nat (n + g)) \<and>
      (\<forall>q < 32. local_dest_queue_array (ts ! nat (2 * n + g)) ! q = Some q) \<and>
      veth_side_queue_array (ts ! nat (2 * n + v + g)) ! 0 = Some (nat g))"
proof -
  let ?ts = "all_threads n v" and ?per = "32 div n"
  have len: "length ?ts = 64" by (simp add: all_threads_def MAX_THREADS_def)
  have tx: "?ts ! nat i = tx_data ?per i" if "0 \<le> i" "i < n" for i
    using that assms by (simp add: all_threads_def MAX_THREADS_def)
  have rx: "?ts ! nat (n + i) = rx_data n v (n + i)" if "0 \<le> i" "i < n" for i
    using that assms by (simp add: all_threads_def MAX_THREADS_def)
  have vrx: "?ts ! nat (2 * n + g) = vrx_data n (2 * n + g)" if "0 \<le> g" "g < v" for g
    using that assms by (simp add: all_threads_def MAX_THREADS_def)
  have vtx: "?ts ! nat (2 * n + v + g) = vtx_data n v (2 * n + v + g)" if "0 \<le> g" "g < v" for g
    using that assms by (simp add: all_threads_def MAX_THREADS_def)
  have per: "?per \<le> 32" using assms(1) zdiv_mono2[of 32 1 n] by simp
  have dq: "dest_queues ! q = Some q" if "q < 32" for q using that by (simp add: dest_queues_def NUM_OF_PER_DEST_QUEUES_def)
  have aq: "assigned_queue (filled 0 ?per e (local_dest_queue_array no_thread)) (nat w) = Inr (e w)"
    "assigned_queue (filled 0 ?per e (non_local_dest_queue_array no_thread)) (nat w) = Inr (e w)" if "0 \<le> w" "w < ?per" for w e
    using that per by (simp_all add: assigned_queue_def NUM_OF_PER_DEST_QUEUES_def)
  show ?thesis
    apply (rule exI[of _ ?ts])
    apply (intro conjI allI impI)
    apply (simp_all add: assign_threads_run[OF assms] len tx rx vrx vtx dq aq port_at_def tx_data_def rx_data_def vrx_data_def vtx_data_def)
    using assms apply simp_all
    done
qed

theorem assign_threads_correct_witness:
  "\<exists>ts. assign_threads 2 3 = Inr ts \<and> port_at (ports_tx (ts ! 1)) 0 = Inr 1 \<and>
    assigned_queue (local_dest_queue_array (ts ! 1)) 1 = Inr (Some 17)"
  using assign_threads_correct[of 2 3] by (auto dest!: spec[of _ 1])

lemma tx_thread_data:
  assumes "0 < n" "0 \<le> v" "v + n \<le> 12" "assign_threads n v = Inr ts" "0 \<le> i" "i < n"
  shows "ts ! nat i = tx_data (32 div n) i"
proof -
  have "ts = all_threads n v" using assign_threads_run[OF assms(1-3)] assms(4) by simp
  then show ?thesis using assms by (simp add: all_threads_def MAX_THREADS_def)
qed

lemma assigned_tx:
  assumes "0 < n" "0 \<le> i"
  shows "assigned q (tx_data (32 div n) i) w \<longleftrightarrow> int w < 32 div n \<and> int q = 32 div n * i + int w"
proof -
  have "32 div n \<le> 32" using zdiv_mono2[of 32 1 n] assms(1) by simp
  moreover have "0 \<le> 32 div n" using assms(1) by (simp add: pos_imp_zdiv_nonneg_iff)
  then have "0 \<le> 32 div n * i" using assms(2) by simp
  ultimately show ?thesis
    by (auto simp: assigned_def tx_data_def assigned_queue_def NUM_OF_PER_DEST_QUEUES_def)
qed

text \<open>A queue is drained by at most one transmit thread; those from \<open>n * (32 div n)\<close> on are
  drained by none, so every destination is served only if the number of network queues
  divides 32.\<close>
theorem served_queues:
  assumes "0 < n" "0 \<le> v" "v + n \<le> 12" "assign_threads n v = Inr ts" "q < 32"
  shows "((\<exists>i w. 0 \<le> i \<and> i < n \<and> assigned q (ts ! nat i) w) \<longleftrightarrow> int q < n * (32 div n)) \<and>
    (\<forall>i j w x. 0 \<le> i \<longrightarrow> i < n \<longrightarrow> 0 \<le> j \<longrightarrow> j < n \<longrightarrow> assigned q (ts ! nat i) w \<longrightarrow> assigned q (ts ! nat j) x \<longrightarrow> i = j \<and> w = x)"
proof -
  let ?per = "32 div n"
  have per: "0 < ?per" using assms(1-3) by (simp add: pos_imp_zdiv_pos_iff)
  have a: "assigned q (ts ! nat i) w \<longleftrightarrow> int w < ?per \<and> int q = ?per * i + int w" if "0 \<le> i" "i < n" for i w
    using tx_thread_data[OF assms(1-4) that] assigned_tx[OF assms(1) that(1)] by simp
  have dm: "i = int q div ?per \<and> int w = int q mod ?per" if "int w < ?per" "int q = ?per * i + int w" for i w
    using that per by (simp add: div_mult_self4)
  have "\<exists>i w. 0 \<le> i \<and> i < n \<and> assigned q (ts ! nat i) w" if "int q < n * ?per"
  proof -
    let ?i = "int q div ?per" and ?w = "nat (int q mod ?per)"
    have "?per * ?i \<le> int q" using div_mult_mod_eq[of "int q" ?per] pos_mod_sign[OF per, of "int q"] mult.commute[of ?per ?i] by linarith
    then have "?per * ?i < ?per * n" using that mult.commute[of n ?per] by linarith
    then have "?i < n" using per by simp
    then have i: "0 \<le> ?i" "?i < n" using per by (simp_all add: pos_imp_zdiv_nonneg_iff)
    moreover have "assigned q (ts ! nat ?i) ?w" using a[OF i, of ?w] per by simp
    ultimately show ?thesis by blast
  qed
  moreover have "int q < n * ?per" if "0 \<le> i" "i < n" "assigned q (ts ! nat i) w" for i w
  proof -
    have w: "int w < ?per" "int q = ?per * i + int w" using a[OF that(1,2)] that(3) by auto
    have "?per * (i + 1) \<le> ?per * n" using mult_left_mono[of "i + 1" n ?per] that(2) per by simp
    then show ?thesis using w by (simp add: algebra_simps)
  qed
  moreover have "i = j \<and> w = x" if "0 \<le> i" "i < n" "0 \<le> j" "j < n" "assigned q (ts ! nat i) w" "assigned q (ts ! nat j) x" for i j w x
    using a[OF that(1,2)] a[OF that(3,4)] that(5,6) dm by (metis of_nat_eq_iff)
  ultimately show ?thesis by blast
qed

theorem served_queues_witness:
  "\<exists>ts. assign_threads 3 1 = Inr ts \<and> \<not> (\<exists>i w. 0 \<le> i \<and> i < 3 \<and> assigned 31 (ts ! nat i) w)"
  using assign_threads_run[of 3 1] served_queues[of 3 1 "all_threads 3 1" 31] by simp

text \<open>Property C37: A transmit thread passes the position of a queue in its own list, not the queue's
  number, to the encapsulation: all threads but the first send the packets of destination
  \<open>32 div n * i + w\<close> to the next hop of destination \<open>w\<close>.\<close>
theorem tx_thread_wrong_destination:
  assumes "0 < n" "0 \<le> v" "v + n \<le> 12" "assign_threads n v = Inr ts" "0 < i" "i < n" "int w < 32 div n"
    and "length (local_per_dest_queue e) = 32" "length (non_local_per_dest_queue e) = 32"
  shows "\<exists>q < 32. q \<noteq> w \<and> int q = 32 div n * i + int w \<and>
    nic_tx_local ov (ts ! nat i) pi ks w e = rthen (drain_local ov (int w) q (e, [])) (\<lambda>(e1, b). emu_tx_burst pi b ks e1) \<and>
    nic_tx_non_local (ts ! nat i) pi ks w e = rthen (drain_non_local (int w) q (e, [])) (\<lambda>(e1, b). emu_tx_burst pi b ks e1)"
proof -
  let ?per = "32 div n"
  have per: "0 < ?per" using assms(1-3) by (simp add: pos_imp_zdiv_pos_iff)
  have per32: "?per * n \<le> 32" using div_mult_mod_eq[of 32 n] pos_mod_sign[of n 32] assms(1) by linarith
  have "?per * (i + 1) \<le> ?per * n" using mult_left_mono[of "i + 1" n ?per] assms(6) per by simp
  then have le: "?per * i + ?per \<le> 32" using per32 by (simp add: algebra_simps)
  define q where "q = nat (?per * i + int w)"
  have pos: "0 < ?per * i" using per assms(5) by simp
  have q: "int q = ?per * i + int w" "q < 32" "q \<noteq> w" using pos le assms(7) by (auto simp: q_def)
  have t: "ts ! nat i = tx_data ?per i" using tx_thread_data[OF assms(1-4)] assms(5,6) by simp
  have w: "w < 32" using le pos assms(7) by linarith
  have "assigned_queue (local_dest_queue_array (ts ! nat i)) w = Inr (Some q)"
    "assigned_queue (non_local_dest_queue_array (ts ! nat i)) w = Inr (Some q)"
    using w assms(7) by (simp_all add: t tx_data_def assigned_queue_def NUM_OF_PER_DEST_QUEUES_def q_def)
  then show ?thesis using q assms(8,9)
    by (intro exI[of _ q]) (simp add: nic_tx_local_def nic_tx_non_local_def)
qed

theorem tx_thread_wrong_destination_witness:
  "\<exists>ts q. assign_threads 2 1 = Inr ts \<and> q = 16 \<and>
    nic_tx_local (\<lambda>xs _ _ _. xs) (ts ! 1) 1 [] 0 (sample_emu\<lparr>local_per_dest_queue := replicate 32 (one_queue sample_entry), non_local_per_dest_queue := replicate 32 (one_queue sample_entry)\<rparr>) =
      rthen (drain_local (\<lambda>xs _ _ _. xs) 0 q (sample_emu\<lparr>local_per_dest_queue := replicate 32 (one_queue sample_entry), non_local_per_dest_queue := replicate 32 (one_queue sample_entry)\<rparr>, []))
        (\<lambda>(e1, b). emu_tx_burst 1 b [] e1)"
  using assign_threads_run[of 2 1] tx_thread_wrong_destination[of 2 1 "all_threads 2 1" 1 0
      "sample_emu\<lparr>local_per_dest_queue := replicate 32 (one_queue sample_entry), non_local_per_dest_queue := replicate 32 (one_queue sample_entry)\<rparr>" "\<lambda>xs _ _ _. xs" 1 "[]"]
  by auto

section \<open>The ports' parameters\<close>

definition slot_for :: "string option \<Rightarrow> int \<Rightarrow> int \<Rightarrow> port_slot" where
  "slot_for nic n x = (if x < n then \<lparr>slot_iface = nic, slot_queue = word_of_int x\<rparr>
     else \<lparr>slot_iface = Some (out_veth_arr ! nat (x - n)), slot_queue = 0\<rparr>)"

lemma out_veth_facts: "length out_veth_arr = 8" "g < 8 \<Longrightarrow> prefix OUTER_VETH_PREFIX (out_veth_arr ! g)"
proof -
  show "length out_veth_arr = 8" by (simp add: out_veth_arr_def)
  have "\<forall>s \<in> set out_veth_arr. prefix OUTER_VETH_PREFIX s"
    by (simp add: out_veth_arr_def prefix_def OUTER_VETH_PREFIX_def)
  then show "g < 8 \<Longrightarrow> prefix OUTER_VETH_PREFIX (out_veth_arr ! g)" using \<open>length out_veth_arr = 8\<close> by simp
qed

lemma for_loop_fault: "f i s = Inl x \<Longrightarrow> for_loop i (Suc k) f s = Inl x"
  by simp

lemma for_range_split:
  assumes "lo \<le> mid" "mid \<le> hi"
  shows "for_range lo hi f s = rbind (for_range lo mid f s) (for_range mid hi f)"
proof -
  have "for_loop lo (a + b) f s = rbind (for_loop lo a f s) (for_loop (lo + int a) b f)" for a b
  proof (induction a arbitrary: lo s)
    case (Suc a)
    have l: "lo + int (Suc a) = lo + 1 + int a" by simp
    have "for_loop (lo + 1) (a + b) f = (\<lambda>x. rbind (for_loop (lo + 1) a f x) (for_loop (lo + 1 + int a) b f))"
      by (rule ext) (rule Suc.IH)
    then show ?case unfolding l by (simp add: rbind_assoc)
  qed simp
  from this[of "nat (mid - lo)" "nat (hi - mid)"] show ?thesis using assms by (simp add: for_range_def[abs_def] flip: nat_add_distrib)
qed

lemma for_range_first_fault: "lo < hi \<Longrightarrow> f lo s = Inl x \<Longrightarrow> for_range lo hi f s = Inl x"
  by (cases "nat (hi - lo)") (auto simp: for_range_def)

lemma for_range_fill_list:
  assumes "0 \<le> lo" "lo \<le> hi" "hi \<le> int (length xs)"
    and "\<And>i ys. lo \<le> i \<Longrightarrow> i < hi \<Longrightarrow> length ys = length xs \<Longrightarrow> f i ys = Inr (ys[nat i := e i])"
  shows "for_range lo hi f xs = Inr (filled lo hi e xs)"
proof -
  let ?g = "\<lambda>i (ps, u). rbind (f i ps) (\<lambda>p. Inr (p, u :: nat))"
  have pair: "for_loop lo k ?g (s, u) = rbind (for_loop lo k f s) (\<lambda>p. Inr (p, u))" for lo k s u
    by (induction k arbitrary: lo s) (auto simp: rbind_assoc)
  have "for_range lo hi ?g (xs, 0) = Inr (filled lo hi e xs, 0)"
    by (rule for_range_fill[where a = "\<lambda>_. 0"]) (use assms in auto)
  then show ?thesis by (auto simp: for_range_def pair res_simps)
qed

lemma set_slot_in:
  assumes "0 \<le> i" "i < int (length ps)"
  shows "set_slot ps i name q = Inr (ps[nat i := \<lparr>slot_iface = name, slot_queue = word_of_int q\<rparr>])"
  using assms by (cases "ps ! nat i") (simp add: set_slot_def)

definition veth_slot :: "int \<Rightarrow> port_slot list \<times> int \<Rightarrow> (port_slot list \<times> int) res" where
  "veth_slot x = (\<lambda>(ps, z). rbind (idx_get out_veth_arr z) (\<lambda>name. rbind (set_slot ps x (Some name) 0) (\<lambda>ps'. Inr (ps', z + 1))))"

lemma veth_slots_run:
  assumes "0 \<le> n" "n \<le> m" "m \<le> n + 8" "m \<le> int (length ps)"
  shows "for_range n m veth_slot (ps, 0) = Inr (filled n m (\<lambda>x. \<lparr>slot_iface = Some (out_veth_arr ! nat (x - n)), slot_queue = 0\<rparr>) ps, m - n)"
  by (rule for_range_fill[where a = "\<lambda>x. x - n"]) (use assms in \<open>auto simp: veth_slot_def set_slot_in out_veth_facts\<close>)

lemma first_slots_run:
  assumes "0 \<le> n" "n \<le> m" "m \<le> int (length ps)" "length qs = length ps"
  shows "for_range 0 m (\<lambda>i ps. idx_set ps i port_params_default) ps = Inr (filled 0 m (\<lambda>_. port_params_default) ps)"
    "for_range 0 n (\<lambda>y ps. set_slot ps y nic y) qs = Inr (filled 0 n (\<lambda>y. \<lparr>slot_iface = nic, slot_queue = word_of_int y\<rparr>) qs)"
  by (rule for_range_fill_list; use assms in \<open>auto simp: set_slot_in\<close>)+

lemma default_ports_many:
  assumes "length ps = 12" "12 < k"
  shows "default_ports k ps = Inl Out_Of_Bounds"
proof -
  let ?f = "\<lambda>i ps. idx_set ps i port_params_default"
  have "for_range 0 12 ?f ps = Inr (filled 0 12 (\<lambda>_. port_params_default) ps)"
    using first_slots_run(1)[of 0 12 ps ps] assms(1) by simp
  moreover have "?f 12 (filled 0 12 (\<lambda>_. port_params_default) ps) = Inl Out_Of_Bounds"
    using assms(1) by (simp add: idx_set_def arr_set_def)
  then have "for_range 12 k ?f (filled 0 12 (\<lambda>_. port_params_default) ps) = Inl Out_Of_Bounds"
    using for_range_first_fault[of 12 k ?f] assms(2) by blast
  ultimately show ?thesis using for_range_split[of 0 12 k ?f ps] assms(2) by (simp add: default_ports_def)
qed

lemma setup_ports_eq:
  "setup_ports nic n v ps = rbind (for_range 0 (v + n) (\<lambda>i ps. idx_set ps i port_params_default) ps) (\<lambda>ps1.
     rbind (for_range 0 n (\<lambda>y ps. set_slot ps y nic y) ps1) (\<lambda>ps2.
     rbind (for_range n (v + n) veth_slot (ps2, 0)) (\<lambda>(ps3, _). Inr ps3)))"
  by (simp add: setup_ports_def default_ports_def name_ports_def[abs_def] veth_slot_def[abs_def])

lemma setup_ports_two:
  assumes "0 \<le> n" "0 \<le> v" "length ps = 12" "v + n \<le> 12"
  shows "setup_ports nic n v ps = rbind (for_range n (v + n) veth_slot
    (filled 0 n (\<lambda>y. \<lparr>slot_iface = nic, slot_queue = word_of_int y\<rparr>) (filled 0 (v + n) (\<lambda>_. port_params_default) ps), 0))
    (\<lambda>(ps3, _). Inr ps3)"
  using first_slots_run[of n "v + n" ps] assms by (simp add: setup_ports_eq)

lemma setup_ports_run:
  assumes "0 \<le> n" "0 \<le> v" "length ps = 12" "v + n \<le> 12" "v \<le> 8"
  shows "\<exists>ps'. setup_ports nic n v ps = Inr ps' \<and> length ps' = 12 \<and> (\<forall>x. 0 \<le> x \<longrightarrow> x < v + n \<longrightarrow> ps' ! nat x = slot_for nic n x)"
proof -
  let ?p2 = "filled 0 n (\<lambda>y. \<lparr>slot_iface = nic, slot_queue = word_of_int y\<rparr>) (filled 0 (v + n) (\<lambda>_. port_params_default) ps)"
  let ?p3 = "filled n (v + n) (\<lambda>x. \<lparr>slot_iface = Some (out_veth_arr ! nat (x - n)), slot_queue = 0\<rparr>) ?p2"
  have "setup_ports nic n v ps = Inr ?p3" using veth_slots_run[of n "v + n" ?p2] assms by (simp add: setup_ports_two)
  moreover have "length ?p3 = 12" using assms(3) by simp
  moreover have "?p3 ! nat x = slot_for nic n x" if "0 \<le> x" "x < v + n" for x
    using that assms(3,4) by (simp add: slot_for_def)
  ultimately show ?thesis by blast
qed

text \<open>Property C33: With at most 12 ports, 8 of them for namespaces, the setup gives every port its
  interface and queue, and the names of the namespace interfaces have the prefix that the
  packet functions expect; with more ports or namespaces it writes or reads outside its arrays.\<close>
theorem setup_ports_correct:
  assumes "0 \<le> n" "0 \<le> v" "length ps = MAX_PORTS"
  shows "if v + n \<le> 12 \<and> v \<le> 8
    then \<exists>ps'. setup_ports nic n v ps = Inr ps' \<and> length ps' = 12 \<and>
      (\<forall>x. 0 \<le> x \<longrightarrow> x < v + n \<longrightarrow> ps' ! nat x = slot_for nic n x) \<and>
      (\<forall>g. 0 \<le> g \<longrightarrow> g < v \<longrightarrow> (\<exists>nm. slot_iface (ps' ! nat (n + g)) = Some nm \<and> prefix OUTER_VETH_PREFIX nm))
    else setup_ports nic n v ps = Inl Out_Of_Bounds"
proof -
  have l: "length ps = 12" using assms(3) by (simp add: MAX_PORTS_def)
  consider (many) "\<not> v + n \<le> 12" | (names) "v + n \<le> 12" "\<not> v \<le> 8" | (fine) "v + n \<le> 12" "v \<le> 8" by blast
  then show ?thesis
  proof cases
    case many
    have "default_ports (v + n) ps = Inl Out_Of_Bounds" using many l by (intro default_ports_many) simp_all
    then show ?thesis using many by (simp add: setup_ports_def)
  next
    case names
    let ?p2 = "filled 0 n (\<lambda>y. \<lparr>slot_iface = nic, slot_queue = word_of_int y\<rparr>) (filled 0 (v + n) (\<lambda>_. port_params_default) ps)"
    have "for_range n (v + n) veth_slot (?p2, 0) = Inl Out_Of_Bounds"
      using names assms l veth_slots_run[of n "n + 8" ?p2] for_range_first_fault[of "n + 8" "v + n" veth_slot]
      by (subst for_range_split[of n "n + 8"]) (simp_all add: veth_slot_def idx_get_def arr_get_def out_veth_facts)
    then show ?thesis using names assms l by (simp add: setup_ports_two)
  next
    case fine
    obtain ps' where p: "setup_ports nic n v ps = Inr ps'" "length ps' = 12"
      "\<forall>x. 0 \<le> x \<longrightarrow> x < v + n \<longrightarrow> ps' ! nat x = slot_for nic n x"
      using setup_ports_run[OF assms(1,2) l fine] by blast
    have "\<exists>nm. slot_iface (ps' ! nat (n + g)) = Some nm \<and> prefix OUTER_VETH_PREFIX nm" if "0 \<le> g" "g < v" for g
      using that p(3) assms(1) fine(2) out_veth_facts(2)[of "nat g"] by (simp add: slot_for_def)
    with p fine show ?thesis by simp
  qed
qed

theorem setup_ports_correct_witness:
  "setup_ports (Some ''nic'') 4 9 (replicate 12 port_params_default) = Inl Out_Of_Bounds"
  using setup_ports_correct[of 4 9 "replicate 12 port_params_default" "Some ''nic''"] by (simp add: MAX_PORTS_def)

end
