(* ===== verification/Plumbing.thy ===== *)
theory Plumbing
  imports Setup Xdp
begin

text \<open>
  Installing and removing the XDP programs and their socket maps: \<open>opera-v2/plumbing.h\<close>. The
  answers of the kernel and of the library calls that only talk to it are parameters, collected
  in a record; what the calls change (programs on interfaces, open descriptors, entries of the
  socket maps) is the state.
\<close>

section \<open>The kernel's side\<close>

text \<open>A program object: the file and section it was opened from, and the slot it was opened for.\<close>

record xprog =
  prog_file :: string
  prog_sec :: string
  prog_slot :: nat

record bpf_map_info =
  map_name :: string
  key_size :: u32
  value_size :: u32

text \<open>
  \<open>maps1\<close> and \<open>maps2\<close> are the maps of the program with the given descriptor when its
  information is read first and again; the other fields are results of the calls they are named
  after, zero for success. A new descriptor may depend on the open ones.
\<close>

type_synonym fd_tab = "(int \<times> u32) list"

record bpf_env =
  if_index :: "string \<Rightarrow> int"
  open_err :: "string \<Rightarrow> string \<Rightarrow> int"
  attach_err :: "xprog \<Rightarrow> int \<Rightarrow> int"
  query_err :: "int \<Rightarrow> int"
  detach_err :: "int \<Rightarrow> int"
  prog_fd :: "xprog \<Rightarrow> int"
  info_err1 :: "int \<Rightarrow> int"
  info_err2 :: "int \<Rightarrow> int"
  maps1 :: "int \<Rightarrow> u32 list"
  maps2 :: "int \<Rightarrow> u32 list"
  ids_calloc :: bool
  map_fd :: "fd_tab \<Rightarrow> u32 \<Rightarrow> int"
  map_info :: "u32 \<Rightarrow> int \<times> bpf_map_info"
  update_err :: "u32 \<Rightarrow> int \<Rightarrow> nat \<Rightarrow> int"

record bpf_state =
  xdp_prog :: "xprog option list"
  attached :: "int \<Rightarrow> (xprog \<times> u32) list"
  fd_table :: fd_tab
  xskmaps :: "u32 \<Rightarrow> xskmap"

definition ENOENT :: int where "ENOENT = 2"
definition EBADF :: int where "EBADF = 9"
definition ENOMEM :: int where "ENOMEM = 12"

section \<open>Loading the programs\<close>

definition XDP_FLAGS_UPDATE_IF_NOEXIST :: u32 where "XDP_FLAGS_UPDATE_IF_NOEXIST = 1"
definition XDP_FLAGS_SKB_MODE :: u32 where "XDP_FLAGS_SKB_MODE = 2"
definition XDP_FLAGS_DRV_MODE :: u32 where "XDP_FLAGS_DRV_MODE = 4"
definition XDP_FLAGS_HW_MODE :: u32 where "XDP_FLAGS_HW_MODE = 8"

definition XDP_MODE_UNSPEC :: int where "XDP_MODE_UNSPEC = 0"
definition XDP_MODE_NATIVE :: int where "XDP_MODE_NATIVE = 1"
definition XDP_MODE_SKB :: int where "XDP_MODE_SKB = 2"
definition XDP_MODE_HW :: int where "XDP_MODE_HW = 3"

text \<open>The flags with which \<open>xdp_attach_fd\<close> of \<open>libxdp.c\<close> asks the kernel for a mode.\<close>

definition xdp_attach_flags :: "bool \<Rightarrow> int \<Rightarrow> u32" where
  "xdp_attach_flags no_old mode =
     (let xdp_flags = (if no_old then XDP_FLAGS_UPDATE_IF_NOEXIST else 0) in
      if mode = XDP_MODE_SKB then xdp_flags OR XDP_FLAGS_SKB_MODE
      else if mode = XDP_MODE_NATIVE then xdp_flags OR XDP_FLAGS_DRV_MODE
      else if mode = XDP_MODE_HW then xdp_flags OR XDP_FLAGS_HW_MODE
      else xdp_flags)"

definition xdp_program__attach :: "bpf_env \<Rightarrow> xprog \<Rightarrow> int \<Rightarrow> int \<Rightarrow> bpf_state \<Rightarrow> int \<times> bpf_state" where
  "xdp_program__attach env p ifindex mode s = (let err = attach_err env p ifindex in
     if err \<noteq> 0 then (err, s)
     else (0, s\<lparr>attached := (attached s)(ifindex := (p, xdp_attach_flags (attached s ifindex = []) mode) # attached s ifindex)\<rparr>))"

record config =
  cfg_ifindex :: int
  cfg_ifname :: string
  xsk_if_queue :: int
  cfg_filename :: string
  cfg_progsec :: string

definition nic_cfg :: "bpf_env \<Rightarrow> string \<Rightarrow> int \<Rightarrow> config" where
  "nic_cfg env nic y = \<lparr>cfg_ifindex = if_index env nic, cfg_ifname = nic, xsk_if_queue = y,
     cfg_filename = ''nic_kern.o'', cfg_progsec = ''xdp_sock_1''\<rparr>"

definition veth_cfg :: "bpf_env \<Rightarrow> string \<Rightarrow> config" where
  "veth_cfg env nm = \<lparr>cfg_ifindex = if_index env nm, cfg_ifname = nm, xsk_if_queue = 0,
     cfg_filename = ''veth_kern.o'', cfg_progsec = ''xdp_sock_0''\<rparr>"

definition XDP_PROGS :: nat where "XDP_PROGS = 26"

definition build_configs :: "bpf_env \<Rightarrow> string \<Rightarrow> int \<Rightarrow> int \<Rightarrow> config option list res" where
  "build_configs env nic n v =
     rbind (for_range 0 n (\<lambda>y cs. idx_set cs y (Some (nic_cfg env nic y))) (replicate XDP_PROGS None)) (\<lambda>cs1.
     rbind (for_range n (v + n) (\<lambda>x (cs, z). rbind (idx_get out_veth_arr z) (\<lambda>nm.
         rbind (idx_set cs x (Some (veth_cfg env nm))) (\<lambda>cs'. Inr (cs', z + 1)))) (cs1, 0)) (\<lambda>(cs2, _). Inr cs2))"

text \<open>Opening and attaching the program of slot \<open>i\<close>; an error ends the emulator.\<close>

definition load_slot :: "bpf_env \<Rightarrow> config option list \<Rightarrow> int \<Rightarrow> bpf_state \<Rightarrow> bpf_state res" where
  "load_slot env cs i s = rbind (idx_get cs i) (\<lambda>c. case c of None \<Rightarrow> Inl Uninitialised
     | Some c \<Rightarrow>
       let p = \<lparr>prog_file = cfg_filename c, prog_sec = cfg_progsec c, prog_slot = nat i\<rparr> in
       rbind (idx_set (xdp_prog s) i (Some p)) (\<lambda>ps.
       if open_err env (cfg_filename c) (cfg_progsec c) \<noteq> 0 then Inl Exited
       else (case xdp_program__attach env p (cfg_ifindex c) (uint XDP_FLAGS_DRV_MODE) (s\<lparr>xdp_prog := ps\<rparr>) of
         (err, s1) \<Rightarrow> if err \<noteq> 0 then Inl Exited else Inr s1)))"

definition load_xdp_program :: "bpf_env \<Rightarrow> string option \<Rightarrow> int \<Rightarrow> int \<Rightarrow> bpf_state \<Rightarrow> bpf_state res" where
  "load_xdp_program env nic n v s = (case nic of None \<Rightarrow> Inl Null_Deref
     | Some nm \<Rightarrow> rbind (build_configs env nm n v) (\<lambda>cs.
         rbind (load_slot env cs 0 s) (for_range n (v + n) (load_slot env cs))))"

section \<open>Removing them\<close>

text \<open>Without a program on the interface the result is an encoded error, not a pointer.\<close>

definition xdp_multiprog__get_from_ifindex :: "bpf_env \<Rightarrow> int \<Rightarrow> bpf_state \<Rightarrow> int + int" where
  "xdp_multiprog__get_from_ifindex env ifindex s =
     (if query_err env ifindex \<noteq> 0 then Inl (query_err env ifindex)
      else if attached s ifindex = [] then Inl (- ENOENT)
      else Inr ifindex)"

text \<open>It tests its argument for \<open>NULL\<close> and otherwise reads it.\<close>

definition xdp_multiprog__detach :: "bpf_env \<Rightarrow> int + int \<Rightarrow> bpf_state \<Rightarrow> (int \<times> bpf_state) res" where
  "xdp_multiprog__detach env mp s = (case mp of Inl e \<Rightarrow> Inl Null_Deref
     | Inr i \<Rightarrow> if detach_err env i \<noteq> 0 then Inr (detach_err env i, s)
         else Inr (0, s\<lparr>attached := (attached s)(i := [])\<rparr>))"

definition remove_xdp_program_nic :: "bpf_env \<Rightarrow> string option \<Rightarrow> bpf_state \<Rightarrow> bpf_state res" where
  "remove_xdp_program_nic env nic s = (case nic of None \<Rightarrow> Inl Null_Deref
     | Some nm \<Rightarrow> let mp = xdp_multiprog__get_from_ifindex env (if_index env nm) s in
         rbind (xdp_multiprog__detach env mp s) (\<lambda>(err, s'). Inr s'))"

definition remove_xdp_program_veth :: "bpf_env \<Rightarrow> port_slot list \<Rightarrow> int \<Rightarrow> int \<Rightarrow> bpf_state \<Rightarrow> bpf_state res" where
  "remove_xdp_program_veth env port_params n n_ports s = for_range n n_ports (\<lambda>i s.
     rbind (idx_get port_params i) (\<lambda>p. case slot_iface p of None \<Rightarrow> Inl Null_Deref
       | Some nm \<Rightarrow> let mp = xdp_multiprog__get_from_ifindex env (if_index env nm) s in
           (case mp of Inl e \<Rightarrow> Inr s
            | Inr _ \<Rightarrow> rbind (xdp_multiprog__detach env mp s) (\<lambda>(err, s'). Inr s')))) s"

section \<open>The socket maps\<close>

text \<open>\<open>strncmp\<close> on strings without \<open>NUL\<close> characters.\<close>

fun strncmp :: "nat \<Rightarrow> string \<Rightarrow> string \<Rightarrow> int" where
  "strncmp 0 a b = 0"
| "strncmp (Suc n) [] [] = 0"
| "strncmp (Suc n) (a # as) [] = int (of_char a)"
| "strncmp (Suc n) [] (b # bs) = - int (of_char b)"
| "strncmp (Suc n) (a # as) (b # bs) = (if a = b then strncmp n as bs else int (of_char a) - int (of_char b))"

definition close_fd :: "int \<Rightarrow> fd_tab \<Rightarrow> fd_tab" where
  "close_fd fd t = filter (\<lambda>e. fst e \<noteq> fd) t"

definition fd_info :: "bpf_env \<Rightarrow> fd_tab \<Rightarrow> int \<Rightarrow> int \<times> bpf_map_info" where
  "fd_info env t fd = (case map_of t fd of None \<Rightarrow> (- EBADF, \<lparr>map_name = [], key_size = 0, value_size = 0\<rparr>)
     | Some i \<Rightarrow> map_info env i)"

definition is_xsks_map :: "bpf_map_info \<Rightarrow> bool" where
  "is_xsks_map m \<longleftrightarrow> strncmp 16 (map_name m) ''xsks_map'' = 0 \<and> key_size m = 4 \<and> value_size m = 4"

fun map_loop :: "bpf_env \<Rightarrow> u32 list \<Rightarrow> nat \<Rightarrow> nat \<Rightarrow> fd_tab \<Rightarrow> (int \<times> fd_tab) res" where
  "map_loop env map_ids i 0 t = Inr (- ENOENT, t)"
| "map_loop env map_ids i (Suc n) t = rbind (arr_get map_ids i) (\<lambda>id.
     let fd = map_fd env t id; t1 = (fd, id) # t in
     if fd < 0 then map_loop env map_ids (i + 1) n t
     else (case fd_info env t1 fd of (err, info) \<Rightarrow>
       if err \<noteq> 0 then map_loop env map_ids (i + 1) n (close_fd fd t1)
       else if is_xsks_map info then Inr (fd, t1)
       else map_loop env map_ids (i + 1) n (close_fd fd t1)))"

text \<open>
  The array of identifiers has room for the number of maps reported first; the kernel fills it
  and reports the number of maps again.
\<close>

definition lookup_bpf_map :: "bpf_env \<Rightarrow> int \<Rightarrow> fd_tab \<Rightarrow> (int \<times> fd_tab) res" where
  "lookup_bpf_map env fd t =
     (if info_err1 env fd \<noteq> 0 then Inr (info_err1 env fd, t)
      else let num_maps = length (maps1 env fd) in
        if \<not> ids_calloc env then Inr (- ENOMEM, t)
        else if info_err2 env fd \<noteq> 0 then Inr (info_err2 env fd, t)
        else let map_ids = take num_maps (maps2 env fd) @ replicate (num_maps - length (maps2 env fd)) 0 in
          map_loop env map_ids 0 (length (maps2 env fd)) t)"

definition bpf_map_update_elem :: "bpf_env \<Rightarrow> int \<Rightarrow> int \<Rightarrow> nat \<Rightarrow> bpf_state \<Rightarrow> int \<times> bpf_state" where
  "bpf_map_update_elem env mfd key sock s = (case map_of (fd_table s) mfd of None \<Rightarrow> (- EBADF, s)
     | Some i \<Rightarrow> if update_err env i key sock \<noteq> 0 then (update_err env i key sock, s)
         else (0, s\<lparr>xskmaps := (xskmaps s)(i := (xskmaps s i)(key \<mapsto> sock))\<rparr>))"

text \<open>The socket of a port; \<open>None\<close> is a \<open>NULL\<close> port.\<close>

type_synonym socks = "nat option list"

definition enter_socket :: "bpf_env \<Rightarrow> int \<Rightarrow> socks \<Rightarrow> int \<Rightarrow> int \<Rightarrow> bpf_state \<Rightarrow> bpf_state res" where
  "enter_socket env xsks_map ports i key s = rbind (idx_get ports i) (\<lambda>p. case p of None \<Rightarrow> Inl Null_Deref
     | Some fd \<Rightarrow> (case bpf_map_update_elem env xsks_map key fd s of (ret, s') \<Rightarrow>
         if ret \<noteq> 0 then Inl Exited else Inr s'))"

definition xdp_program__fd :: "bpf_env \<Rightarrow> xprog option \<Rightarrow> int" where
  "xdp_program__fd env p = (case p of None \<Rightarrow> -1 | Some p \<Rightarrow> prog_fd env p)"

definition enter_xsks_into_map_for_nic :: "bpf_env \<Rightarrow> socks \<Rightarrow> int \<Rightarrow> bpf_state \<Rightarrow> bpf_state res" where
  "enter_xsks_into_map_for_nic env ports n s = rbind (idx_get (xdp_prog s) 0) (\<lambda>p.
     rbind (lookup_bpf_map env (xdp_program__fd env p) (fd_table s)) (\<lambda>(xsks_map, t).
     if xsks_map < 0 then Inl Exited
     else for_range 0 n (\<lambda>y. enter_socket env xsks_map ports y y) (s\<lparr>fd_table := t\<rparr>)))"

definition enter_xsks_into_map :: "bpf_env \<Rightarrow> socks \<Rightarrow> int \<Rightarrow> bpf_state \<Rightarrow> bpf_state res" where
  "enter_xsks_into_map env ports index s = rbind (idx_get (xdp_prog s) index) (\<lambda>p.
     rbind (lookup_bpf_map env (xdp_program__fd env p) (fd_table s)) (\<lambda>(xsks_map, t).
     if xsks_map < 0 then Inl Exited
     else enter_socket env xsks_map ports index 0 (s\<lparr>fd_table := t\<rparr>)))"

text \<open>The entries for all ports, as \<open>main\<close> makes them.\<close>

definition install_sockets :: "bpf_env \<Rightarrow> socks \<Rightarrow> int \<Rightarrow> int \<Rightarrow> bpf_state \<Rightarrow> bpf_state res" where
  "install_sockets env ports n n_ports s =
     rbind (enter_xsks_into_map_for_nic env ports n s) (for_range n n_ports (enter_xsks_into_map env ports))"

section \<open>Loops with an invariant\<close>

lemma for_range_inv:
  assumes "lo \<le> hi" "P lo s" "\<And>i s. lo \<le> i \<Longrightarrow> i < hi \<Longrightarrow> P i s \<Longrightarrow> \<exists>s'. f i s = Inr s' \<and> P (i + 1) s'"
  shows "\<exists>s'. for_range lo hi f s = Inr s' \<and> P hi s'"
proof -
  have "\<exists>s'. for_loop lo k f s = Inr s' \<and> P (lo + int k) s'" if "lo + int k \<le> hi" "P lo s" "\<And>i s. lo \<le> i \<Longrightarrow> i < hi \<Longrightarrow> P i s \<Longrightarrow> \<exists>s'. f i s = Inr s' \<and> P (i + 1) s'" for k lo s
    using that
  proof (induction k arbitrary: lo s)
    case (Suc k)
    obtain s1 where s1: "f lo s = Inr s1" "P (lo + 1) s1" using Suc.prems(1,2) Suc.prems(3)[of lo s] by auto
    obtain s2 where "for_loop (lo + 1) k f s1 = Inr s2" "P (lo + 1 + int k) s2"
      using Suc.IH[of "lo + 1" s1] Suc.prems s1(2) by auto
    then show ?case using s1(1) by (simp add: add.assoc)
  qed simp
  from this[of lo "nat (hi - lo)" s] assms show ?thesis by (simp add: for_range_def)
qed

section \<open>Programs\<close>

definition nic_prog :: xprog where
  "nic_prog = \<lparr>prog_file = ''nic_kern.o'', prog_sec = ''xdp_sock_1'', prog_slot = 0\<rparr>"

definition veth_prog :: "int \<Rightarrow> xprog" where
  "veth_prog x = \<lparr>prog_file = ''veth_kern.o'', prog_sec = ''xdp_sock_0'', prog_slot = nat x\<rparr>"

text \<open>The interface of port \<open>x\<close>, if \<open>n\<close> ports come first.\<close>

definition veth_if :: "bpf_env \<Rightarrow> int \<Rightarrow> int \<Rightarrow> int" where
  "veth_if env n x = if_index env (out_veth_arr ! nat (x - n))"

lemma build_configs_run:
  assumes "0 \<le> n" "0 \<le> v" "v \<le> 8" "v + n \<le> 26"
  shows "\<exists>cs. build_configs env nm n v = Inr cs \<and> length cs = 26 \<and> (\<forall>y. 0 \<le> y \<longrightarrow> y < n \<longrightarrow> cs ! nat y = Some (nic_cfg env nm y)) \<and>
    (\<forall>x. n \<le> x \<longrightarrow> x < v + n \<longrightarrow> cs ! nat x = Some (veth_cfg env (out_veth_arr ! nat (x - n))))"
proof -
  let ?c1 = "filled 0 n (\<lambda>y. Some (nic_cfg env nm y)) (replicate XDP_PROGS None)"
  let ?c2 = "filled n (v + n) (\<lambda>x. Some (veth_cfg env (out_veth_arr ! nat (x - n)))) ?c1"
  have l: "length (replicate XDP_PROGS (None :: config option)) = 26" by (simp add: XDP_PROGS_def)
  have "for_range 0 n (\<lambda>y cs. idx_set cs y (Some (nic_cfg env nm y))) (replicate XDP_PROGS None) = Inr ?c1"
    by (rule for_range_fill_list) (use assms l in auto)
  moreover have "for_range n (v + n) (\<lambda>x (cs, z). rbind (idx_get out_veth_arr z) (\<lambda>nm. rbind (idx_set cs x (Some (veth_cfg env nm))) (\<lambda>cs'. Inr (cs', z + 1)))) (?c1, 0) = Inr (?c2, v + n - n)"
    by (rule for_range_fill[where a = "\<lambda>x. x - n"]) (use assms l in \<open>auto simp: out_veth_facts\<close>)
  ultimately have "build_configs env nm n v = Inr ?c2" by (simp add: build_configs_def)
  moreover have "length ?c2 = 26" using l by simp
  moreover have "?c2 ! nat y = Some (nic_cfg env nm y)" if "0 \<le> y" "y < n" for y using that assms l by simp
  moreover have "?c2 ! nat x = Some (veth_cfg env (out_veth_arr ! nat (x - n)))" if "n \<le> x" "x < v + n" for x using that assms l by simp
  ultimately show ?thesis by blast
qed

text \<open>The mode asked for is none of the modes of the library, so no mode is asked of the kernel.\<close>

lemma driver_mode_not_requested: "xdp_attach_flags b (uint XDP_FLAGS_DRV_MODE) AND XDP_FLAGS_DRV_MODE = 0"
  "xdp_attach_flags True (uint XDP_FLAGS_DRV_MODE) = 1"
  by (auto simp: xdp_attach_flags_def Let_def XDP_FLAGS_DRV_MODE_def XDP_MODE_SKB_def XDP_MODE_NATIVE_def XDP_MODE_HW_def XDP_FLAGS_UPDATE_IF_NOEXIST_def)

text \<open>After the slots below \<open>i\<close> have been loaded.\<close>

definition loaded :: "bpf_env \<Rightarrow> string \<Rightarrow> int \<Rightarrow> bpf_state \<Rightarrow> int \<Rightarrow> bpf_state \<Rightarrow> bool" where
  "loaded env nm n s0 i s \<longleftrightarrow> length (xdp_prog s) = 26 \<and> xdp_prog s ! 0 = Some nic_prog \<and>
     (\<forall>x. n \<le> x \<longrightarrow> x < i \<longrightarrow> xdp_prog s ! nat x = Some (veth_prog x)) \<and>
     attached s (if_index env nm) = [(nic_prog, 1)] \<and>
     (\<forall>x. n \<le> x \<longrightarrow> x < i \<longrightarrow> attached s (veth_if env n x) = [(veth_prog x, 1)]) \<and>
     (\<forall>k. k \<noteq> if_index env nm \<longrightarrow> (\<forall>x. n \<le> x \<longrightarrow> x < i \<longrightarrow> k \<noteq> veth_if env n x) \<longrightarrow> attached s k = []) \<and>
     fd_table s = fd_table s0 \<and> xskmaps s = xskmaps s0"

text \<open>No call fails, and the interfaces are different.\<close>

definition load_ok :: "bpf_env \<Rightarrow> string \<Rightarrow> int \<Rightarrow> int \<Rightarrow> bool" where
  "load_ok env nm n v \<longleftrightarrow> (\<forall>f g. open_err env f g = 0) \<and> (\<forall>p i. attach_err env p i = 0) \<and>
     (\<forall>x. n \<le> x \<longrightarrow> x < v + n \<longrightarrow> veth_if env n x \<noteq> if_index env nm) \<and>
     (\<forall>x y. n \<le> x \<longrightarrow> x < y \<longrightarrow> y < v + n \<longrightarrow> veth_if env n x \<noteq> veth_if env n y)"

lemma load_run:
  assumes n: "0 < n" "0 \<le> v" "v \<le> 8" "v + n \<le> 26" and ok: "load_ok env nm n v"
    and s: "length (xdp_prog s) = 26" "attached s = (\<lambda>_. [])"
  shows "\<exists>s1. load_xdp_program env (Some nm) n v s = Inr s1 \<and> loaded env nm n s (v + n) s1"
proof -
  obtain cs where cs: "build_configs env nm n v = Inr cs" "length cs = 26" "\<And>y. 0 \<le> y \<Longrightarrow> y < n \<Longrightarrow> cs ! nat y = Some (nic_cfg env nm y)"
    "\<And>x. n \<le> x \<Longrightarrow> x < v + n \<Longrightarrow> cs ! nat x = Some (veth_cfg env (out_veth_arr ! nat (x - n)))"
    using build_configs_run[of n v env nm] n by auto
  have e: "open_err env f g = 0" "attach_err env p i = 0" for f g p i using ok by (simp_all add: load_ok_def)
  define s1 where "s1 = s\<lparr>xdp_prog := (xdp_prog s)[0 := Some nic_prog], attached := (attached s)(if_index env nm := [(nic_prog, 1)])\<rparr>"
  have first: "load_slot env cs 0 s = Inr s1"
    using cs(2) cs(3)[of 0] n s e driver_mode_not_requested(2)
    by (simp add: load_slot_def s1_def nic_cfg_def nic_prog_def xdp_program__attach_def Let_def)
  have "loaded env nm n s n s1" using s by (auto simp: loaded_def s1_def)
  moreover have "\<exists>t'. load_slot env cs x t = Inr t' \<and> loaded env nm n s (x + 1) t'" if x: "n \<le> x" "x < v + n" "loaded env nm n s x t" for x t
  proof -
    have f: "veth_if env n x \<noteq> if_index env nm" "\<And>y. n \<le> y \<Longrightarrow> y < x \<Longrightarrow> veth_if env n y \<noteq> veth_if env n x"
      using ok x(1,2) by (auto simp: load_ok_def)
    then have none: "attached t (veth_if env n x) = []" using x(3) by (force simp: loaded_def)
    let ?t = "t\<lparr>xdp_prog := (xdp_prog t)[nat x := Some (veth_prog x)], attached := (attached t)(veth_if env n x := [(veth_prog x, 1)])\<rparr>"
    have "load_slot env cs x t = Inr ?t"
      using cs(2) cs(4)[OF x(1,2)] x n e none driver_mode_not_requested(2)
      by (simp add: load_slot_def veth_cfg_def veth_prog_def xdp_program__attach_def veth_if_def loaded_def Let_def)
    moreover have "loaded env nm n s (x + 1) ?t"
      unfolding loaded_def
    proof (intro conjI allI impI)
      fix y assume y: "n \<le> y" "y < x + 1"
      show "xdp_prog ?t ! nat y = Some (veth_prog y)"
        using y x n by (cases "y = x") (auto simp: loaded_def nth_list_update)
      show "attached ?t (veth_if env n y) = [(veth_prog y, 1)]"
        using y x f by (cases "y = x") (auto simp: loaded_def)
    qed (use x f n in \<open>auto simp: loaded_def\<close>)
    ultimately show ?thesis by blast
  qed
  ultimately obtain s2 where "for_range n (v + n) (load_slot env cs) s1 = Inr s2" "loaded env nm n s (v + n) s2"
    using for_range_inv[of n "v + n" "loaded env nm n s" s1 "load_slot env cs"] n by auto
  then show ?thesis using cs(1) first by (simp add: load_xdp_program_def)
qed

section \<open>Properties\<close>

text \<open>Removing the programs of the namespaces below \<open>i\<close> and of the network interface.\<close>

lemma remove_nic_run:
  assumes "attached s (if_index env nm) \<noteq> []" "query_err env (if_index env nm) = 0" "detach_err env (if_index env nm) = 0"
  shows "remove_xdp_program_nic env (Some nm) s = Inr (s\<lparr>attached := (attached s)(if_index env nm := [])\<rparr>)"
  using assms by (simp add: remove_xdp_program_nic_def xdp_multiprog__get_from_ifindex_def xdp_multiprog__detach_def Let_def)

lemma remove_veth_run:
  assumes "0 \<le> n" "n \<le> m" "m \<le> int (length slots)" "\<And>x. n \<le> x \<Longrightarrow> x < m \<Longrightarrow> slots ! nat x = slot_for nic n x"
    and "\<And>i. query_err env i = 0" "\<And>i. detach_err env i = 0"
  shows "\<exists>s'. remove_xdp_program_veth env slots n m s = Inr s' \<and> (\<forall>x. n \<le> x \<longrightarrow> x < m \<longrightarrow> attached s' (veth_if env n x) = []) \<and>
    (\<forall>k. attached s k = [] \<longrightarrow> attached s' k = []) \<and> (\<forall>k. (\<forall>x. n \<le> x \<longrightarrow> x < m \<longrightarrow> k \<noteq> veth_if env n x) \<longrightarrow> attached s' k = attached s k) \<and>
    s'\<lparr>attached := attached s\<rparr> = s"
  unfolding remove_xdp_program_veth_def
proof (rule for_range_inv[where P = "\<lambda>i s'. (\<forall>x. n \<le> x \<longrightarrow> x < i \<longrightarrow> attached s' (veth_if env n x) = []) \<and>
    (\<forall>k. attached s k = [] \<longrightarrow> attached s' k = []) \<and> (\<forall>k. (\<forall>x. n \<le> x \<longrightarrow> x < i \<longrightarrow> k \<noteq> veth_if env n x) \<longrightarrow> attached s' k = attached s k) \<and>
    s'\<lparr>attached := attached s\<rparr> = s"], goal_cases)
  case (3 x t)
  let ?k = "veth_if env n x"
  let ?t = "t\<lparr>attached := (attached t)(?k := [])\<rparr>"
  have sl: "slots ! nat x = \<lparr>slot_iface = Some (out_veth_arr ! nat (x - n)), slot_queue = 0\<rparr>"
    using assms(4)[of x] 3 by (simp add: slot_for_def)
  have "(attached t)(?k := []) = attached t" if "attached t ?k = []" using that by auto
  then have step: "rbind (idx_get slots x) (\<lambda>p. case slot_iface p of None \<Rightarrow> Inl Null_Deref
      | Some nm \<Rightarrow> let mp = xdp_multiprog__get_from_ifindex env (if_index env nm) t in
          (case mp of Inl e \<Rightarrow> Inr t | Inr _ \<Rightarrow> rbind (xdp_multiprog__detach env mp t) (\<lambda>(err, s'). Inr s'))) = Inr ?t"
    using 3 assms(1,3,5,6) sl
    by (auto simp: xdp_multiprog__get_from_ifindex_def xdp_multiprog__detach_def Let_def veth_if_def)
  have "(\<forall>y. n \<le> y \<longrightarrow> y < x + 1 \<longrightarrow> attached ?t (veth_if env n y) = [])"
  proof (intro allI impI)
    fix y assume "n \<le> y" "y < x + 1"
    then show "attached ?t (veth_if env n y) = []" using 3 by (cases "y = x") auto
  qed
  moreover have "\<forall>k. (\<forall>y. n \<le> y \<longrightarrow> y < x + 1 \<longrightarrow> k \<noteq> veth_if env n y) \<longrightarrow> attached ?t k = attached s k"
    using 3 by auto
  moreover have "?t\<lparr>attached := attached s\<rparr> = s" "\<forall>k. attached s k = [] \<longrightarrow> attached ?t k = []" using 3 by auto
  ultimately show ?case using step by blast
qed (use assms(2) in auto)

lemma remove_run:
  assumes "0 < n" "0 \<le> v" "v + n \<le> 12" "loaded env nm n s0 (v + n) s1" "attached b = attached s1"
    and "\<And>i. query_err env i = 0" "\<And>i. detach_err env i = 0"
    and slots: "length slots = 12" "\<And>x. 0 \<le> x \<Longrightarrow> x < v + n \<Longrightarrow> slots ! nat x = slot_for (Some nm) n x"
  shows "\<exists>b1 s2. remove_xdp_program_nic env (Some nm) b = Inr b1 \<and>
    remove_xdp_program_veth env slots n (v + n) b1 = Inr s2 \<and> attached s2 = (\<lambda>_. [])"
proof -
  let ?s = "b\<lparr>attached := (attached b)(if_index env nm := [])\<rparr>"
  have r: "remove_xdp_program_nic env (Some nm) b = Inr ?s"
    using remove_nic_run[of b env nm] assms(4-7) by (simp add: loaded_def)
  obtain s2 where s2: "remove_xdp_program_veth env slots n (v + n) ?s = Inr s2" "\<forall>x. n \<le> x \<longrightarrow> x < v + n \<longrightarrow> attached s2 (veth_if env n x) = []"
    "\<forall>k. attached ?s k = [] \<longrightarrow> attached s2 k = []" "\<forall>k. (\<forall>x. n \<le> x \<longrightarrow> x < v + n \<longrightarrow> k \<noteq> veth_if env n x) \<longrightarrow> attached s2 k = attached ?s k"
    using remove_veth_run[of n "v + n" slots "Some nm" env ?s] assms(1,2,3,6,7) slots by auto
  have "attached s2 k = []" for k
  proof (cases "\<exists>x. n \<le> x \<and> x < v + n \<and> k = veth_if env n x")
    case True
    then show ?thesis using s2(2) by auto
  next
    case False
    then have "k = if_index env nm \<or> attached b k = []" using assms(4,5) by (auto simp: loaded_def)
    then have "attached ?s k = []" by auto
    then show ?thesis using s2(3) by blast
  qed
  then have "attached s2 = (\<lambda>_. [])" by auto
  with r s2(1) show ?thesis by blast
qed

text \<open>Property C31: the setup attaches the network program to the network interface and the namespace
  program to every namespace interface, with one program each, and the removal at the end
  leaves no program on any interface. The driver mode the code asks for is not passed on to the
  kernel (flags 1), and removing the network program again reads through an error code.\<close>
theorem programs_installed_and_removed:
  assumes "0 < n" "0 \<le> v" "v \<le> 8" "v + n \<le> 12" "load_ok env nm n v" "\<forall>i. query_err env i = 0" "\<forall>i. detach_err env i = 0"
    and "length (xdp_prog s) = 26" "attached s = (\<lambda>_. [])" "length ps = 12" "setup_ports (Some nm) n v ps = Inr slots"
  shows "\<exists>s1 s2. load_xdp_program env (Some nm) n v s = Inr s1 \<and> attached s1 (if_index env nm) = [(nic_prog, 1)] \<and>
    (\<forall>x. n \<le> x \<longrightarrow> x < v + n \<longrightarrow> attached s1 (veth_if env n x) = [(veth_prog x, 1)]) \<and>
    rbind (remove_xdp_program_nic env (Some nm) s1) (remove_xdp_program_veth env slots n (v + n)) = Inr s2 \<and>
    attached s2 = (\<lambda>_. []) \<and> remove_xdp_program_nic env (Some nm) s2 = Inl Null_Deref"
proof -
  obtain s1 where s1: "load_xdp_program env (Some nm) n v s = Inr s1" "loaded env nm n s (v + n) s1"
    using load_run[of n v env nm s] assms by auto
  have slots: "length slots = 12" "\<And>x. 0 \<le> x \<Longrightarrow> x < v + n \<Longrightarrow> slots ! nat x = slot_for (Some nm) n x"
    using setup_ports_run[of n v ps "Some nm"] assms(1-4,10,11) by auto
  obtain b1 s2 where s2: "remove_xdp_program_nic env (Some nm) s1 = Inr b1" "remove_xdp_program_veth env slots n (v + n) b1 = Inr s2"
    "attached s2 = (\<lambda>_. [])"
    using remove_run[OF assms(1,2,4) s1(2) refl _ _ slots] assms(6,7) by blast
  from s2(3) have "remove_xdp_program_nic env (Some nm) s2 = Inl Null_Deref"
    using assms(6) by (simp add: remove_xdp_program_nic_def xdp_multiprog__get_from_ifindex_def xdp_multiprog__detach_def Let_def)
  then show ?thesis using s1 s2 by (auto simp: loaded_def)
qed

section \<open>Finding the socket map\<close>

text \<open>A map the loop stops at: a descriptor can be had for it, its information read, and it is a socket map.\<close>

definition usable_map :: "bpf_env \<Rightarrow> fd_tab \<Rightarrow> u32 \<Rightarrow> bool" where
  "usable_map env t i \<longleftrightarrow> 0 \<le> map_fd env t i \<and> fst (map_info env i) = 0 \<and> is_xsks_map (snd (map_info env i))"

text \<open>A new descriptor is not one of the open ones.\<close>

definition fresh_fds :: "bpf_env \<Rightarrow> bool" where
  "fresh_fds env \<longleftrightarrow> (\<forall>t i. map_fd env t i \<notin> fst ` set t)"

definition found_map :: "bpf_env \<Rightarrow> fd_tab \<Rightarrow> u32 option \<Rightarrow> int \<times> fd_tab" where
  "found_map env t m = (case m of None \<Rightarrow> (- ENOENT, t) | Some i \<Rightarrow> (map_fd env t i, (map_fd env t i, i) # t))"

lemma close_new: "fd \<notin> fst ` set t \<Longrightarrow> close_fd fd ((fd, i) # t) = t"
  by (auto simp: close_fd_def filter_id_conv)

lemma map_loop_run:
  assumes "fresh_fds env" "i + n \<le> length map_ids"
  shows "map_loop env map_ids i n t = Inr (found_map env t (find (usable_map env t) (take n (drop i map_ids))))"
  using assms(2)
proof (induction n arbitrary: i)
  case (Suc n)
  let ?id = "map_ids ! i"
  have f: "map_fd env t ?id \<notin> fst ` set t" using assms(1) by (simp add: fresh_fds_def)
  have d: "take (Suc n) (drop i map_ids) = ?id # take n (drop (i + 1) map_ids)"
    using Suc.prems by (simp add: Cons_nth_drop_Suc[symmetric])
  have m: "fd_info env ((map_fd env t ?id, ?id) # t) (map_fd env t ?id) = map_info env ?id" by (simp add: fd_info_def)
  show ?case
    using Suc.IH[of "i + 1"] Suc.prems close_new[OF f]
    by (cases "map_info env ?id") (auto simp: d m Let_def usable_map_def found_map_def)
qed (simp add: found_map_def)

lemma map_loop_overrun:
  assumes "fresh_fds env" "\<forall>k \<in> set (drop i map_ids). \<not> usable_map env t k" "length map_ids < i + n" "i \<le> length map_ids"
  shows "map_loop env map_ids i n t = Inl Out_Of_Bounds"
  using assms(2-)
proof (induction n arbitrary: i)
  case (Suc n)
  show ?case
  proof (cases "i = length map_ids")
    case False
    let ?id = "map_ids ! i"
    have f: "map_fd env t ?id \<notin> fst ` set t" using assms(1) by (simp add: fresh_fds_def)
    have m: "fd_info env ((map_fd env t ?id, ?id) # t) (map_fd env t ?id) = map_info env ?id" by (simp add: fd_info_def)
    have d: "drop i map_ids = ?id # drop (i + 1) map_ids" using False Suc.prems by (simp add: Cons_nth_drop_Suc)
    have u: "\<not> usable_map env t ?id" "\<forall>k \<in> set (drop (i + 1) map_ids). \<not> usable_map env t k" using Suc.prems(1) by (simp_all add: d)
    show ?thesis
      using Suc.IH[of "i + 1"] Suc.prems False u close_new[OF f]
      by (cases "map_info env ?id") (auto simp: m Let_def usable_map_def)
  qed (simp add: arr_get_def)
qed simp

text \<open>The lookup finds the first socket map of the program that can be read, and leaves
  open its descriptor and no other; without one it reports \<open>-ENOENT\<close> with no descriptor left
  open. It relies on the number of maps not growing between its two calls: if it has grown and
  none of the maps seen first is a socket map, it reads outside its array.\<close>
theorem lookup_bpf_map_correct:
  assumes "fresh_fds env" "info_err1 env fd = 0" "info_err2 env fd = 0" "ids_calloc env"
  shows "if length (maps2 env fd) \<le> length (maps1 env fd)
    then lookup_bpf_map env fd t = Inr (found_map env t (find (usable_map env t) (maps2 env fd)))
    else (\<forall>i \<in> set (take (length (maps1 env fd)) (maps2 env fd)). \<not> usable_map env t i) \<longrightarrow> lookup_bpf_map env fd t = Inl Out_Of_Bounds"
proof (cases "length (maps2 env fd) \<le> length (maps1 env fd)")
  case True
  let ?ids = "take (length (maps1 env fd)) (maps2 env fd) @ replicate (length (maps1 env fd) - length (maps2 env fd)) 0"
  have "take (length (maps2 env fd)) ?ids = maps2 env fd" using True by simp
  then show ?thesis using True map_loop_run[OF assms(1), of 0 "length (maps2 env fd)" ?ids t] assms(2-4)
    by (simp add: lookup_bpf_map_def Let_def)
next
  case False
  then show ?thesis using map_loop_overrun[OF assms(1), of 0 "take (length (maps1 env fd)) (maps2 env fd)" t "length (maps2 env fd)"] assms(2-4)
    by (simp add: lookup_bpf_map_def Let_def)
qed

section \<open>Entering the sockets\<close>

definition xsks_of :: "bpf_env \<Rightarrow> fd_tab \<Rightarrow> xprog \<Rightarrow> u32 option" where
  "xsks_of env t p = find (usable_map env t) (maps2 env (prog_fd env p))"

text \<open>No call fails, every program has its own socket map, and the maps have room for 16 queues.\<close>

definition maps_ok :: "bpf_env \<Rightarrow> int \<Rightarrow> int \<Rightarrow> u32 \<Rightarrow> (int \<Rightarrow> u32) \<Rightarrow> bool" where
  "maps_ok env n v m0 mv \<longleftrightarrow> fresh_fds env \<and> (\<forall>f. info_err1 env f = 0 \<and> info_err2 env f = 0 \<and> length (maps2 env f) \<le> length (maps1 env f)) \<and>
     ids_calloc env \<and> (\<forall>i k c. 0 \<le> k \<longrightarrow> k < 16 \<longrightarrow> update_err env i k c = 0) \<and>
     (\<forall>t. xsks_of env t nic_prog = Some m0) \<and> (\<forall>t x. n \<le> x \<longrightarrow> x < v + n \<longrightarrow> xsks_of env t (veth_prog x) = Some (mv x)) \<and>
     (\<forall>x. n \<le> x \<longrightarrow> x < v + n \<longrightarrow> mv x \<noteq> m0) \<and> (\<forall>x y. n \<le> x \<longrightarrow> x < y \<longrightarrow> y < v + n \<longrightarrow> mv x \<noteq> mv y)"

lemma lookup_run:
  assumes "maps_ok env n v m0 mv" "xsks_of env t p = Some m"
  shows "lookup_bpf_map env (prog_fd env p) t = Inr (map_fd env t m, (map_fd env t m, m) # t)" "0 \<le> map_fd env t m"
proof -
  let ?fd = "prog_fd env p"
  let ?ids = "take (length (maps1 env ?fd)) (maps2 env ?fd) @ replicate (length (maps1 env ?fd) - length (maps2 env ?fd)) 0"
  have ok: "fresh_fds env" "info_err1 env ?fd = 0" "info_err2 env ?fd = 0" "ids_calloc env" "length (maps2 env ?fd) \<le> length (maps1 env ?fd)"
    using assms(1) by (auto simp: maps_ok_def)
  have "take (length (maps2 env ?fd)) ?ids = maps2 env ?fd" using ok(5) by simp
  then show "lookup_bpf_map env ?fd t = Inr (map_fd env t m, (map_fd env t m, m) # t)"
    using map_loop_run[OF ok(1), of 0 "length (maps2 env ?fd)" ?ids t] ok(2-5) assms(2)
    by (simp add: lookup_bpf_map_def Let_def found_map_def xsks_of_def)
  show "0 \<le> map_fd env t m" using assms(2) by (auto simp: xsks_of_def find_Some_iff usable_map_def)
qed

lemma enter_socket_run:
  assumes "maps_ok env n v m0 mv" "map_of (fd_table s) mfd = Some m" "0 \<le> i" "i < int (length ports)" "ports ! nat i = Some c"
    and "0 \<le> key" "key < 16"
  shows "enter_socket env mfd ports i key s = Inr (s\<lparr>xskmaps := (xskmaps s)(m := (xskmaps s m)(key \<mapsto> c))\<rparr>)"
  using assms by (simp add: enter_socket_def bpf_map_update_elem_def maps_ok_def)

lemma enter_nic_run:
  assumes ok: "maps_ok env n v m0 mv" and n: "0 < n" "n \<le> 12" and ports: "n \<le> int (length ports)" "\<And>y. 0 \<le> y \<Longrightarrow> y < n \<Longrightarrow> ports ! nat y \<noteq> None"
    and s: "length (xdp_prog s) = 26" "xdp_prog s ! 0 = Some nic_prog"
  shows "\<exists>s'. enter_xsks_into_map_for_nic env ports n s = Inr s' \<and> xdp_prog s' = xdp_prog s \<and> attached s' = attached s \<and>
    xskmaps s' = (xskmaps s)(m0 := (\<lambda>k. if 0 \<le> k \<and> k < n then ports ! nat k else xskmaps s m0 k))"
proof -
  have m: "xsks_of env (fd_table s) nic_prog = Some m0" using ok by (simp add: maps_ok_def)
  let ?fd = "map_fd env (fd_table s) m0"
  let ?s = "s\<lparr>fd_table := (?fd, m0) # fd_table s\<rparr>"
  let ?P = "\<lambda>i (s' :: bpf_state). xdp_prog s' = xdp_prog s \<and> attached s' = attached s \<and> fd_table s' = (?fd, m0) # fd_table s \<and>
    xskmaps s' = (xskmaps s)(m0 := (\<lambda>k. if 0 \<le> k \<and> k < i then ports ! nat k else xskmaps s m0 k))"
  have "\<exists>s'. for_range 0 n (\<lambda>y. enter_socket env ?fd ports y y) ?s = Inr s' \<and> ?P n s'"
  proof (rule for_range_inv[where P = ?P])
    fix y and t :: bpf_state assume y: "0 \<le> y" "y < n" "?P y t"
    obtain c where c: "ports ! nat y = Some c" using ports(2)[OF y(1,2)] by auto
    have "enter_socket env ?fd ports y y t = Inr (t\<lparr>xskmaps := (xskmaps t)(m0 := (xskmaps t m0)(y \<mapsto> c))\<rparr>)"
      by (rule enter_socket_run[OF ok _ y(1) _ c]) (use y n ports(1) in auto)
    moreover have "?P (y + 1) (t\<lparr>xskmaps := (xskmaps t)(m0 := (xskmaps t m0)(y \<mapsto> c))\<rparr>)"
      using y c by (auto intro!: ext)
    ultimately show "\<exists>s'. enter_socket env ?fd ports y y t = Inr s' \<and> ?P (y + 1) s'" by blast
  qed (use n in \<open>auto intro!: ext\<close>)
  then show ?thesis using lookup_run[OF ok m] s
    by (auto simp: enter_xsks_into_map_for_nic_def xdp_program__fd_def)
qed

lemma enter_veth_run:
  assumes ok: "maps_ok env n v m0 mv" and x: "0 < n" "n \<le> x" "x < v + n" "v + n \<le> 12" and ports: "v + n \<le> int (length ports)" "ports ! nat x = Some c"
    and s: "length (xdp_prog s) = 26" "xdp_prog s ! nat x = Some (veth_prog x)"
  shows "\<exists>s'. enter_xsks_into_map env ports x s = Inr s' \<and> xdp_prog s' = xdp_prog s \<and> attached s' = attached s \<and>
    xskmaps s' = (xskmaps s)(mv x := (xskmaps s (mv x))(0 \<mapsto> c))"
proof -
  have m: "xsks_of env (fd_table s) (veth_prog x) = Some (mv x)" using ok x by (simp add: maps_ok_def)
  have "enter_socket env (map_fd env (fd_table s) (mv x)) ports x 0 (s\<lparr>fd_table := (map_fd env (fd_table s) (mv x), mv x) # fd_table s\<rparr>) =
      Inr ((s\<lparr>fd_table := (map_fd env (fd_table s) (mv x), mv x) # fd_table s\<rparr>)\<lparr>xskmaps := (xskmaps s)(mv x := (xskmaps s (mv x))(0 \<mapsto> c))\<rparr>)"
    using enter_socket_run[OF ok _ _ _ ports(2), of "s\<lparr>fd_table := (map_fd env (fd_table s) (mv x), mv x) # fd_table s\<rparr>" "map_fd env (fd_table s) (mv x)" "mv x" 0] x ports(1) by simp
  then show ?thesis using lookup_run[OF ok m] s x
    by (simp add: enter_xsks_into_map_def xdp_program__fd_def)
qed

lemma install_run:
  assumes "0 < n" "0 \<le> v" "v \<le> 8" "v + n \<le> 12" "load_ok env nm n v" "maps_ok env n v m0 mv"
    and "length (xdp_prog s) = 26" "attached s = (\<lambda>_. [])" "xskmaps s = (\<lambda>_. Map.empty)"
    and "v + n \<le> int (length ports)" "\<forall>x. 0 \<le> x \<longrightarrow> x < v + n \<longrightarrow> ports ! nat x = Some (sock x)"
  shows "\<exists>s1 s'. load_xdp_program env (Some nm) n v s = Inr s1 \<and> loaded env nm n s (v + n) s1 \<and>
    install_sockets env ports n (v + n) s1 = Inr s' \<and> attached s' = attached s1 \<and>
    xskmaps s' m0 = (\<lambda>y. if 0 \<le> y \<and> y < n then Some (sock y) else None) \<and>
    (\<forall>x. n \<le> x \<longrightarrow> x < v + n \<longrightarrow> xskmaps s' (mv x) = [0 \<mapsto> sock x])"
proof -
  obtain s1 where s1: "load_xdp_program env (Some nm) n v s = Inr s1" "loaded env nm n s (v + n) s1"
    using load_run[of n v env nm s] assms by auto
  have p: "length (xdp_prog s1) = 26" "xdp_prog s1 ! 0 = Some nic_prog" "\<And>x. n \<le> x \<Longrightarrow> x < v + n \<Longrightarrow> xdp_prog s1 ! nat x = Some (veth_prog x)"
    "xskmaps s1 = (\<lambda>_. Map.empty)" using s1(2) assms(9) by (simp_all add: loaded_def)
  let ?nic = "\<lambda>y. if 0 \<le> y \<and> y < n then Some (sock y) else None"
  obtain s2 where s2: "enter_xsks_into_map_for_nic env ports n s1 = Inr s2" "xdp_prog s2 = xdp_prog s1" "attached s2 = attached s1" "xskmaps s2 = (\<lambda>_. Map.empty)(m0 := ?nic)"
  proof -
    have "(\<lambda>k. if 0 \<le> k \<and> k < n then ports ! nat k else xskmaps s1 m0 k) = ?nic" using assms(2,11) p(4) by auto
    then show thesis using that enter_nic_run[OF assms(6,1) _ _ _ p(1,2), of ports] assms(1-4,10,11) p(4) by auto
  qed
  let ?P = "\<lambda>i (t :: bpf_state). xdp_prog t = xdp_prog s1 \<and> attached t = attached s1 \<and> xskmaps t m0 = ?nic \<and>
    (\<forall>x. n \<le> x \<longrightarrow> x < i \<longrightarrow> xskmaps t (mv x) = [0 \<mapsto> sock x]) \<and> (\<forall>x. i \<le> x \<longrightarrow> x < v + n \<longrightarrow> xskmaps t (mv x) = Map.empty)"
  have mv: "mv x \<noteq> m0" if "n \<le> x" "x < v + n" for x using assms(6) that by (simp add: maps_ok_def)
  have mvv: "mv x \<noteq> mv y" if "n \<le> x" "x < v + n" "n \<le> y" "y < v + n" "x \<noteq> y" for x y
  proof -
    have lt: "mv a \<noteq> mv b" if "n \<le> a" "a < b" "b < v + n" for a b using assms(6) that by (simp add: maps_ok_def)
    show ?thesis using lt[of x y] lt[of y x] that by (cases "x < y") auto
  qed
  have "\<exists>t. for_range n (v + n) (enter_xsks_into_map env ports) s2 = Inr t \<and> ?P (v + n) t"
  proof (rule for_range_inv[where P = ?P])
    fix x and t :: bpf_state assume x: "n \<le> x" "x < v + n" "?P x t"
    obtain t' where t': "enter_xsks_into_map env ports x t = Inr t'" "xdp_prog t' = xdp_prog t" "attached t' = attached t" "xskmaps t' = (xskmaps t)(mv x := (xskmaps t (mv x))(0 \<mapsto> sock x))"
      using enter_veth_run[OF assms(6,1) x(1,2) assms(4,10), of "sock x" t] assms(1,11) x p by auto
    have "?P (x + 1) t'"
    proof (intro conjI allI impI)
      fix y assume y: "n \<le> y" "y < x + 1"
      show "xskmaps t' (mv y) = [0 \<mapsto> sock y]"
      proof (cases "y = x")
        case False
        then show ?thesis using y x mvv[of y x] t'(4) by simp
      qed (use x t'(4) in simp)
    next
      fix y assume y: "x + 1 \<le> y" "y < v + n"
      then show "xskmaps t' (mv y) = Map.empty" using x mvv[of y x] t'(4) by simp
    next
      show "xskmaps t' m0 = ?nic" using x mv[of x] t'(4) by simp
    qed (use x t' in simp_all)
    with t'(1) show "\<exists>t'. enter_xsks_into_map env ports x t = Inr t' \<and> ?P (x + 1) t'" by blast
  qed (use assms(2) s2 mv in auto)
  then obtain s3 where s3: "for_range n (v + n) (enter_xsks_into_map env ports) s2 = Inr s3" "?P (v + n) s3" by blast
  have "install_sockets env ports n (v + n) s1 = Inr s3" using s2(1) s3(1) by (simp add: install_sockets_def)
  then show ?thesis using s1 s3(2) by blast
qed

text \<open>Property C23: after the setup, a GRE packet that arrives on a network queue with a port is
  redirected to that port's socket, other packets and queues are left to the network stack, and
  every packet from a namespace is redirected to the socket of the namespace's port.\<close>
theorem packets_reach_their_port:
  assumes "0 < n" "0 \<le> v" "v \<le> 8" "v + n \<le> 12" "load_ok env nm n v" "maps_ok env n v m0 mv"
    and "length (xdp_prog s) = 26" "attached s = (\<lambda>_. [])" "xskmaps s = (\<lambda>_. Map.empty)"
    and "v + n \<le> int (length ports)" "\<forall>x. 0 \<le> x \<longrightarrow> x < v + n \<longrightarrow> ports ! nat x = Some (sock x)"
  shows "\<exists>s'. rbind (load_xdp_program env (Some nm) n v s) (install_sockets env ports n (v + n)) = Inr s' \<and>
    xskmaps s' m0 = (\<lambda>y. if 0 \<le> y \<and> y < n then Some (sock y) else None) \<and>
    (\<forall>x. n \<le> x \<longrightarrow> x < v + n \<longrightarrow> xskmaps s' (mv x) = [0 \<mapsto> sock x]) \<and>
    (\<forall>ctx. xdp_sock_prog (xskmaps s' m0) ctx = Inr (if ip_frame 47 (xdp_data ctx) \<and> 0 \<le> sint (rx_queue_index ctx) \<and> sint (rx_queue_index ctx) < n
      then XDP_REDIRECT (sint (rx_queue_index ctx)) else XDP_PASS)) \<and>
    (\<forall>x ctx. n \<le> x \<longrightarrow> x < v + n \<longrightarrow> rx_queue_index ctx = 0 \<longrightarrow> xdp_sock_prog_0 (xskmaps s' (mv x)) ctx = XDP_REDIRECT 0)"
proof -
  obtain s1 s' where i: "load_xdp_program env (Some nm) n v s = Inr s1" "install_sockets env ports n (v + n) s1 = Inr s'"
    "xskmaps s' m0 = (\<lambda>y. if 0 \<le> y \<and> y < n then Some (sock y) else None)"
    "\<forall>x. n \<le> x \<longrightarrow> x < v + n \<longrightarrow> xskmaps s' (mv x) = [0 \<mapsto> sock x]"
    using install_run[OF assms] by blast
  then have "rbind (load_xdp_program env (Some nm) n v s) (install_sockets env ports n (v + n)) = Inr s'" by simp
  then show ?thesis using i(3,4)
    by (intro exI[of _ s']) (auto simp: xdp_sock_prog_redirect xdp_sock_prog_0_redirect redirect_def)
qed

section \<open>Witnesses\<close>

text \<open>A kernel in which every program has one map, a socket map named after the program's slot.\<close>

definition sample_bpf :: bpf_env where
  "sample_bpf = \<lparr>if_index = (\<lambda>s. if s = ''vethout2'' then 7 else if s = ''vethout3'' then 8 else 5), open_err = (\<lambda>_ _. 0), attach_err = (\<lambda>_ _. 0),
     query_err = (\<lambda>_. 0), detach_err = (\<lambda>_. 0), prog_fd = (\<lambda>p. int (prog_slot p)), info_err1 = (\<lambda>_. 0), info_err2 = (\<lambda>_. 0),
     maps1 = (\<lambda>fd. [word_of_int fd]), maps2 = (\<lambda>fd. [word_of_int fd]), ids_calloc = True,
     map_fd = (\<lambda>t i. Max (insert 0 (fst ` set t)) + 1), map_info = (\<lambda>_. (0, \<lparr>map_name = ''xsks_map'', key_size = 4, value_size = 4\<rparr>)),
     update_err = (\<lambda>_ k _. if k < 16 then 0 else -7)\<rparr>"

definition sample_bpf_state :: bpf_state where
  "sample_bpf_state = \<lparr>xdp_prog = replicate 26 None, attached = (\<lambda>_. []), fd_table = [], xskmaps = (\<lambda>_. Map.empty)\<rparr>"

lemma slots_12: "1 \<le> (x :: int) \<Longrightarrow> x < 2 + 1 \<Longrightarrow> x = 1 \<or> x = 2"
  by auto

lemma sample_bpf_ifs: "veth_if sample_bpf 1 1 = 7" "veth_if sample_bpf 1 2 = 8" "if_index sample_bpf ''nic'' = 5"
  by (simp_all add: veth_if_def sample_bpf_def out_veth_arr_def)

lemma sample_bpf_load: "load_ok sample_bpf ''nic'' 1 2"
  unfolding load_ok_def
proof (intro conjI allI impI)
  fix x y :: int assume "1 \<le> x" "x < y" "y < 2 + 1"
  then have "x = 1" "y = 2" by auto
  then show "veth_if sample_bpf 1 x \<noteq> veth_if sample_bpf 1 y" by (simp add: sample_bpf_ifs)
next
  fix x :: int assume "1 \<le> x" "x < 2 + 1"
  then show "veth_if sample_bpf 1 x \<noteq> if_index sample_bpf ''nic''" using slots_12[of x] by (auto simp: sample_bpf_ifs)
qed (simp_all add: sample_bpf_def)

lemma sample_bpf_fresh: "fresh_fds sample_bpf"
  unfolding fresh_fds_def
proof (intro allI notI)
  fix t i assume "map_fd sample_bpf t i \<in> fst ` set t"
  moreover have "finite (insert 0 (fst ` set t))" by simp
  ultimately have "map_fd sample_bpf t i \<le> Max (insert 0 (fst ` set t))" by (intro Max_ge) auto
  then show False by (simp add: sample_bpf_def)
qed

lemma sample_bpf_fd: "0 \<le> map_fd sample_bpf t i"
proof -
  have "0 \<le> Max (insert 0 (fst ` set t))" by (rule Max_ge) auto
  then show ?thesis by (simp add: sample_bpf_def)
qed

lemma sample_bpf_usable: "usable_map sample_bpf t i"
  using sample_bpf_fd[of t i] by (simp add: usable_map_def) (simp add: sample_bpf_def is_xsks_map_def eval_nat_numeral)

lemma sample_bpf_maps: "maps_ok sample_bpf 1 2 0 of_int"
proof -
  have x: "xsks_of sample_bpf t p = Some (word_of_int (int (prog_slot p)))" for t p
    using sample_bpf_usable by (simp add: xsks_of_def) (simp add: sample_bpf_def)
  show ?thesis
    unfolding maps_ok_def
  proof (intro conjI allI impI)
    fix x y :: int assume "1 \<le> x" "x < y" "y < 2 + 1"
    then have "x = 1" "y = 2" by auto
    then show "(of_int x :: u32) \<noteq> of_int y" by simp
  next
    fix x :: int assume "1 \<le> x" "x < 2 + 1"
    then show "(of_int x :: u32) \<noteq> 0" using slots_12[of x] by auto
  next
    fix t and x :: int assume "1 \<le> x" "x < 2 + 1"
    then show "xsks_of sample_bpf t (veth_prog x) = Some (of_int x)" using x[of t "veth_prog x"] by (simp add: veth_prog_def)
  next
    fix t show "xsks_of sample_bpf t nic_prog = Some 0" using x[of t nic_prog] by (simp add: nic_prog_def)
  qed (use sample_bpf_fresh in \<open>simp_all add: sample_bpf_def\<close>)
qed

theorem programs_installed_and_removed_witness:
  "\<exists>slots s1 s2. setup_ports (Some ''nic'') 1 2 (replicate 12 port_params_default) = Inr slots \<and>
    load_xdp_program sample_bpf (Some ''nic'') 1 2 sample_bpf_state = Inr s1 \<and> attached s1 7 = [(veth_prog 1, 1)] \<and>
    rbind (remove_xdp_program_nic sample_bpf (Some ''nic'') s1) (remove_xdp_program_veth sample_bpf slots 1 3) = Inr s2 \<and>
    attached s2 = (\<lambda>_. [])"
proof -
  obtain slots where sl: "setup_ports (Some ''nic'') 1 2 (replicate 12 port_params_default) = Inr slots"
    using setup_ports_run[of 1 2 "replicate 12 port_params_default" "Some ''nic''"] by auto
  have s: "length (xdp_prog sample_bpf_state) = 26" "attached sample_bpf_state = (\<lambda>_. [])" by (simp_all add: sample_bpf_state_def)
  have e: "\<forall>i. query_err sample_bpf i = 0" "\<forall>i. detach_err sample_bpf i = 0" by (simp_all add: sample_bpf_def)
  have i: "veth_if sample_bpf 1 1 = 7" by (simp add: veth_if_def sample_bpf_def out_veth_arr_def)
  show ?thesis
    using programs_installed_and_removed[OF _ _ _ _ sample_bpf_load e s _ sl] i sl by auto
qed

theorem lookup_bpf_map_correct_witness: "\<exists>fd. lookup_bpf_map sample_bpf 3 [] = Inr (fd, [(fd, 3)])"
proof -
  have m: "maps1 sample_bpf 3 = [3]" "maps2 sample_bpf 3 = [3]" "info_err1 sample_bpf 3 = 0" "info_err2 sample_bpf 3 = 0" "ids_calloc sample_bpf"
    by (simp_all add: sample_bpf_def)
  show ?thesis using lookup_bpf_map_correct[OF sample_bpf_fresh m(3-5), of "[]"] sample_bpf_usable[of "[]" 3]
    by (simp add: found_map_def m)
qed

theorem packets_reach_their_port_witness:
  "\<exists>s'. rbind (load_xdp_program sample_bpf (Some ''nic'') 1 2 sample_bpf_state)
      (install_sockets sample_bpf [Some 10, Some 11, Some 12] 1 3) = Inr s' \<and> xskmaps s' 2 = [0 \<mapsto> 12]"
proof -
  let ?ports = "[Some 10, Some 11, Some 12] :: socks"
  have p: "\<forall>x. 0 \<le> x \<longrightarrow> x < 2 + 1 \<longrightarrow> ?ports ! nat x = Some (10 + nat x)"
  proof (intro allI impI)
    fix x :: int assume "0 \<le> x" "x < 2 + 1"
    then have "x = 0 \<or> x = 1 \<or> x = 2" by auto
    then show "?ports ! nat x = Some (10 + nat x)" by auto
  qed
  have s: "length (xdp_prog sample_bpf_state) = 26" "attached sample_bpf_state = (\<lambda>_. [])" "xskmaps sample_bpf_state = (\<lambda>_. Map.empty)"
    by (simp_all add: sample_bpf_state_def)
  from packets_reach_their_port[OF _ _ _ _ sample_bpf_load sample_bpf_maps s _ p]
  obtain s' where "rbind (load_xdp_program sample_bpf (Some ''nic'') 1 2 sample_bpf_state) (install_sockets sample_bpf ?ports 1 (2 + 1)) = Inr s'"
    "\<forall>x. 1 \<le> x \<longrightarrow> x < 2 + 1 \<longrightarrow> xskmaps s' (of_int x) = [0 \<mapsto> 10 + nat x]" by auto
  then show ?thesis by (intro exI[of _ s']) (force dest: spec[of _ 2])
qed

end
