(* ===== verification/Worker_File.thy ===== *)
theory Worker_File
  imports Route_File Mg_Map
begin

text \<open>
  Loading the table of the emulator's nodes in \<open>main\<close> of \<open>opera-v2/emu_nic.c\<close>: a file with a line
  for each node, whose third column is the node's hardware address and whose eighth column is
  the address of its network.
\<close>

section \<open>Columns\<close>

text \<open>\<open>strtok\<close>: the next token, and the text after the delimiter that ends it.\<close>

definition strtok_by :: "(char \<Rightarrow> bool) \<Rightarrow> string \<Rightarrow> (string \<times> string) option" where
  "strtok_by d s = (let s' = dropWhile d s in
     if s' = [] then None else Some (takeWhile (\<lambda>c. \<not> d c) s', drop 1 (dropWhile (\<lambda>c. \<not> d c) s')))"

definition is_comma :: "char \<Rightarrow> bool" where "is_comma c \<longleftrightarrow> c = CHR '',''"

abbreviation strtok :: "string \<Rightarrow> (string \<times> string) option" where "strtok \<equiv> strtok_by is_comma"

definition inet_addr :: "string \<Rightarrow> u32" where
  "inet_addr s = (case inet_aton s of None \<Rightarrow> 0xFFFFFFFF | Some w \<Rightarrow> w)"

section \<open>Hardware addresses\<close>

text \<open>\<open>%x\<close> of \<open>sscanf\<close>: the number and the rest of the string, if there is one.\<close>

definition scan_hex :: "string \<Rightarrow> (u32 \<times> string) option" where
  "scan_hex s = (let s1 = dropWhile isspace s;
       minus = (s1 \<noteq> [] \<and> hd s1 = CHR ''-'');
       s2 = (if minus \<or> (s1 \<noteq> [] \<and> hd s1 = CHR ''+'') then tl s1 else s1);
       pre = (2 \<le> length s2 \<and> hd s2 = CHR ''0'' \<and> (s2 ! 1 = CHR ''x'' \<or> s2 ! 1 = CHR ''X''));
       s3 = (if pre then drop 2 s2 else s2) in
     case read_digits 16 0 s3 of (v, r) \<Rightarrow>
       if r = s3 then None
       else Some (word_of_int (if minus then - int (min v (2 ^ 64 - 1)) else int (min v (2 ^ 64 - 1))), r))"

text \<open>
  \<open>sscanf(ptr, "%x:%x:%x:%x:%x:%x", &mac_addr[0], ...)\<close>: each conversion stores four bytes at the
  address of one byte of the array of six; a store that does not fit into the array faults.
\<close>

definition store_u32 :: "u8 option list \<Rightarrow> nat \<Rightarrow> u32 \<Rightarrow> u8 option list res" where
  "store_u32 a k v = guard_res Out_Of_Bounds (k + 4 \<le> length a)
     (Inr (take k a @ map Some (bytes_of32 v) @ drop (k + 4) a))"

fun scan_mac :: "nat \<Rightarrow> nat \<Rightarrow> string \<Rightarrow> u8 option list \<Rightarrow> u8 option list res" where
  "scan_mac 0 k s a = Inr a"
| "scan_mac (Suc n) k s a = (case scan_hex s of None \<Rightarrow> Inr a
     | Some (v, r) \<Rightarrow> rbind (store_u32 a k v) (\<lambda>a'.
         if n \<noteq> 0 \<and> r \<noteq> [] \<and> hd r = CHR '':'' then scan_mac n (k + 1) (tl r) a' else Inr a'))"

definition mac_bytes :: "u8 option list \<Rightarrow> u8 list res" where
  "mac_bytes a = guard_res Uninitialised (None \<notin> set (take 6 a)) (Inr (map the (take 6 a)))"

section \<open>The tables\<close>

record loader =
  lheap :: heap_env
  calloc_ok :: bool

type_synonym tables = "mg_Map option \<times> mg_Map option"

definition ip_column :: "loader \<Rightarrow> nat \<Rightarrow> string \<Rightarrow> mg_Map option \<Rightarrow> mg_Map option res" where
  "ip_column l dest_index ptr ip = (let dest = inet_addr ptr in
     rbind (mg_map_add (lheap l) ip dest (Some (bytes_of32 (of_nat dest_index)))) (\<lambda>(_, ip1).
     rbind (mg_map_get ip1 dest) (\<lambda>_. Inr ip1)))"

definition mac_column :: "loader \<Rightarrow> nat \<Rightarrow> string \<Rightarrow> mg_Map option \<Rightarrow> mg_Map option res" where
  "mac_column l dest_index ptr mac =
     rbind (scan_mac 6 0 ptr (replicate 6 None)) (\<lambda>a.
     guard_res Null_Deref (calloc_ok l) (rbind (mac_bytes a) (\<lambda>bs.
     rbind (mg_map_add (lheap l) mac (of_nat dest_index) (Some (bs @ [0]))) (\<lambda>(_, mac1). Inr mac1))))"

definition worker_column :: "loader \<Rightarrow> nat \<Rightarrow> nat \<Rightarrow> string \<Rightarrow> tables \<Rightarrow> tables res" where
  "worker_column l dest_index col_index ptr = (\<lambda>(ip, mac).
     rbind (if col_index = 8 then ip_column l dest_index ptr ip else Inr ip) (\<lambda>ip1.
     rbind (if col_index = 3 then mac_column l dest_index ptr mac else Inr mac) (\<lambda>mac1. Inr (ip1, mac1))))"

lemma strtok_less: "strtok_by d s = Some (tok, rest) \<Longrightarrow> length rest < length s"
proof -
  assume "strtok_by d s = Some (tok, rest)"
  then have s: "dropWhile d s \<noteq> []" "rest = drop 1 (dropWhile (\<lambda>c. \<not> d c) (dropWhile d s))"
    by (auto simp: strtok_by_def Let_def split: if_splits)
  have c: "\<not> d (hd (dropWhile d s))" using hd_dropWhile[OF s(1)] .
  have "length (dropWhile (\<lambda>c. \<not> d c) (dropWhile d s)) < length (dropWhile d s)"
    using s(1) c length_dropWhile_le[of "\<lambda>c. \<not> d c" "tl (dropWhile d s)"]
    by (cases "dropWhile d s") auto
  then show ?thesis using s(2) length_dropWhile_le[of d s] by simp
qed

function worker_columns :: "loader \<Rightarrow> nat \<Rightarrow> nat \<Rightarrow> string \<Rightarrow> tables \<Rightarrow> tables res" where
  "worker_columns l dest_index col_index s t = (case strtok s of None \<Rightarrow> Inr t
     | Some (ptr, rest) \<Rightarrow> rbind (worker_column l dest_index col_index ptr t)
         (worker_columns l dest_index (col_index + 1) rest))"
  by auto
termination
  by (relation "measure (\<lambda>(l, i, c, s, t). length s)") (auto dest: strtok_less)

declare worker_columns.simps [simp del]

text \<open>The lines of the file, read into a buffer of 1024 characters; a line ends the string at a NUL.\<close>

function worker_lines :: "loader \<Rightarrow> nat \<Rightarrow> string \<Rightarrow> tables \<Rightarrow> tables res" where
  "worker_lines l dest_index s t = (if s = [] then Inr t
     else rbind (worker_columns l dest_index 1 (takeWhile (\<lambda>c. c \<noteq> NUL) (fst (fgets_take 1023 s))) t)
         (worker_lines l (dest_index + 1) (snd (fgets_take 1023 s))))"
  by auto
termination
  by (relation "measure (\<lambda>(l, i, s, t). length s)") (auto intro: fgets_take_less)

declare worker_lines.simps [simp del]

text \<open>The results of the initialisations are ignored.\<close>

definition load_workers :: "loader \<Rightarrow> string option \<Rightarrow> tables \<Rightarrow> tables res" where
  "load_workers l file = (\<lambda>(ip, mac).
     rbind (mg_map_init (lheap l) mac 7 32) (\<lambda>(_, mac1).
     rbind (mg_map_init (lheap l) ip 4 32) (\<lambda>(_, ip1).
       case file of None \<Rightarrow> Inr (ip1, mac1) | Some s \<Rightarrow> worker_lines l 1 s (ip1, mac1))))"

section \<open>Reading a hardware address\<close>

definition hex_char :: "nat \<Rightarrow> char" where
  "hex_char d = char_of (if d < 10 then 48 + d else 87 + d)"

definition hex2 :: "u8 \<Rightarrow> string" where
  "hex2 b = [hex_char (unat b div 16), hex_char (unat b mod 16)]"

fun mac_text :: "u8 list \<Rightarrow> string" where
  "mac_text [] = []"
| "mac_text [b] = hex2 b"
| "mac_text (b # bs) = hex2 b @ CHR '':'' # mac_text bs"

lemma of_hex_char: "d < 16 \<Longrightarrow> of_char (hex_char d) = (if d < 10 then 48 + d else 87 + d :: nat)"
  by (simp add: hex_char_def)

lemma char_digit_hex [simp]: "d < 16 \<Longrightarrow> char_digit (hex_char d) = Some d"
  by (simp add: char_digit_def of_hex_char Let_def)

lemma hex_char_other: "d < 16 \<Longrightarrow> char_digit c = None \<Longrightarrow> hex_char d \<noteq> c"
  using char_digit_hex[of d] by auto

lemma not_digits: "char_digit CHR ''-'' = None" "char_digit CHR ''+'' = None" "char_digit CHR ''x'' = None"
  "char_digit CHR ''X'' = None" "char_digit CHR '':'' = None" "char_digit CHR '','' = None" "char_digit NL = None" "char_digit NUL = None"
  by (simp_all add: char_digit_def NL_def NUL_def)

lemma isspace_hex [simp]: "d < 16 \<Longrightarrow> \<not> isspace (hex_char d)"
  by (simp add: isspace_def of_hex_char Let_def)

lemma scan_hex2:
  assumes "stops 16 rest"
  shows "scan_hex (hex2 b @ rest) = Some (ucast b, rest)"
proof -
  have b: "unat b < 256" using unat_below[of b] by simp
  then have d: "unat b div 16 < 16" "unat b mod 16 < 16" by (simp_all add: less_mult_imp_div_less)
  have r: "read_digits 16 0 (hex2 b @ rest) = (unat b, rest)"
    using d read_digits_stop[OF assms] by (simp add: hex2_def)
  have o: "hex_char k \<noteq> CHR ''-''" "hex_char k \<noteq> CHR ''+''" "hex_char k \<noteq> CHR ''x''" "hex_char k \<noteq> CHR ''X''" if "k < 16" for k
    using that by (simp_all add: hex_char_other not_digits)
  have w: "word_of_int (int (min (unat b) 18446744073709551615)) = (ucast b :: u32)" using b by simp
  have "rest \<noteq> hex2 b @ rest" by (simp add: hex2_def)
  then show ?thesis using d r o[OF d(1)] o[OF d(2)] w
    by (simp add: scan_hex_def Let_def) (simp add: hex2_def)
qed

lemma stops_colon: "stops 16 (CHR '':'' # s)" "stops 16 []"
  by (simp_all add: stops_def not_digits)

lemma scan_mac_step: "n \<noteq> 0 \<Longrightarrow> scan_mac (Suc n) k (hex2 b @ CHR '':'' # s) a = rbind (store_u32 a k (ucast b)) (scan_mac n (k + 1) s)"
  by (simp add: scan_hex2 stops_colon)

lemma scan_mac_last: "scan_mac (Suc n) k (hex2 b) a = store_u32 a k (ucast b)"
  using scan_hex2[OF stops_colon(2), of b] by (cases "store_u32 a k (ucast b)") auto

lemma scan_mac_steps: "n \<noteq> 0 \<Longrightarrow> scan_mac (Suc n) k (hex2 b @ CHR '':'' # s) = (\<lambda>a. rbind (store_u32 a k (ucast b)) (scan_mac n (k + 1) s))"
  "scan_mac (Suc n) k (hex2 b) = (\<lambda>a. store_u32 a k (ucast b))"
  by (rule ext, rule scan_mac_step scan_mac_last, simp?)+

lemma bytes_of_byte: "bytes_of32 (ucast (b :: u8)) = [b, 0, 0, 0]"
proof -
  have "byte_of i (ucast b :: u32) = (if i = 0 then b else 0)" for i
    by (rule bit_word_eqI) (auto simp: byte_of_def bit_simps dest: bit_imp_le_length)
  then show ?thesis by (simp add: bytes_of32_def)
qed

lemma six_bytes: "length bs = 6 \<Longrightarrow> \<exists>a b c d e f. bs = [a, b, c, d, e, f]"
  by (auto simp: numeral_eq_Suc length_Suc_conv)

lemma mac_text_six: "mac_text [a, b, c, d, e, f] = hex2 a @ CHR '':'' # hex2 b @ CHR '':'' # hex2 c @ CHR '':'' #
    hex2 d @ CHR '':'' # hex2 e @ CHR '':'' # hex2 f"
  by simp

lemma store_u32_at: "length p = k \<Longrightarrow> store_u32 (p @ w # x # y # z # q) k (ucast (b :: u8)) = Inr (p @ Some b # Some 0 # Some 0 # Some 0 # q)"
  by (simp add: store_u32_def bytes_of_byte)

text \<open>A full address overruns the array; one of three numbers just fills it.\<close>

lemma scan_mac_six:
  assumes "length bs = 6"
  shows "scan_mac 6 0 (mac_text bs) (replicate 6 None) = Inl Out_Of_Bounds"
proof -
  obtain a b c d e f where bs: "bs = [a, b, c, d, e, f]" using six_bytes[OF assms] by blast
  have "scan_mac 6 0 (mac_text bs) m = rbind (store_u32 m 0 (ucast a)) (\<lambda>m. rbind (store_u32 m 1 (ucast b)) (\<lambda>m.
      rbind (store_u32 m 2 (ucast c)) (\<lambda>m. rbind (store_u32 m 3 (ucast d)) (\<lambda>m. rbind (store_u32 m 4 (ucast e)) (\<lambda>m. store_u32 m 5 (ucast f))))))" for m
    unfolding bs mac_text_six
    by (simp add: eval_nat_numeral scan_mac_steps del: scan_mac.simps)
  then show ?thesis by (simp add: store_u32_def bytes_of_byte)
qed

lemma three_bytes: "length bs = 3 \<Longrightarrow> \<exists>a b c. bs = [a, b, c]"
  by (auto simp: numeral_eq_Suc length_Suc_conv)

lemma scan_mac_three:
  assumes "length bs = 3"
  shows "scan_mac 6 0 (mac_text bs) (replicate 6 None) = Inr (map Some (bs @ [0, 0, 0]))"
proof -
  obtain a b c where bs: "bs = [a, b, c]" using three_bytes[OF assms] by blast
  have "mac_text bs = hex2 a @ CHR '':'' # hex2 b @ CHR '':'' # hex2 c" by (simp add: bs)
  then have "scan_mac 6 0 (mac_text bs) m = rbind (store_u32 m 0 (ucast a)) (\<lambda>m. rbind (store_u32 m 1 (ucast b)) (\<lambda>m. store_u32 m 2 (ucast c)))" for m
    by (simp add: eval_nat_numeral scan_mac_steps del: scan_mac.simps)
  then show ?thesis by (simp add: store_u32_def bytes_of_byte bs eval_nat_numeral)
qed

text \<open>What is stored for an address: zero bytes stand for missing numbers.\<close>

definition stored_mac :: "u8 list \<Rightarrow> u8 list" where
  "stored_mac bs = take 6 (bs @ [0, 0, 0])"

lemma stored_mac_three: "length bs = 3 \<Longrightarrow> stored_mac bs = bs @ [0, 0, 0]"
  by (simp add: stored_mac_def)

lemma stored_mac_six: "length bs = 6 \<Longrightarrow> stored_mac bs = bs"
  by (simp add: stored_mac_def)

lemma stored_mac_length: "length bs = 3 \<or> length bs = 6 \<Longrightarrow> length (stored_mac bs) = 6"
  by (auto simp: stored_mac_def)

section \<open>Filling a table\<close>

definition frees :: "(u32 \<times> u8 list) list \<Rightarrow> nat" where
  "frees nodes = length (filter (\<lambda>n. fst n = 0) nodes)"

text \<open>A table with values of \<open>vs\<close> bytes, the entries \<open>kvs\<close>, and room for \<open>k\<close> more.\<close>

definition table_of :: "mg_Map \<Rightarrow> nat \<Rightarrow> (u32 \<times> u8 list) list \<Rightarrow> nat \<Rightarrow> bool" where
  "table_of m vs kvs k \<longleftrightarrow> (\<exists>nodes. mg_rep m nodes \<and> keys_distinct nodes \<and> unat (node_size m) = vs + 4 \<and>
     k \<le> frees nodes \<and> nodes_map nodes = map_of kvs)"

lemma find_idx_free: "0 < frees nodes \<Longrightarrow> \<exists>j. find_idx 0 nodes = Some j"
  using find_idx_None[of 0 nodes] by (cases "find_idx 0 nodes") (force simp: frees_def filter_empty_conv)+

lemma frees_fill: "find_idx 0 nodes = Some j \<Longrightarrow> key \<noteq> 0 \<Longrightarrow> Suc (frees (nodes[j := (key, v)])) = frees nodes"
proof (induction nodes arbitrary: j)
  case (Cons x xs)
  then show ?case by (cases j) (auto simp: frees_def split: if_splits)
qed simp

lemma table_add:
  assumes "table_of m vs kvs (Suc k)" "key \<noteq> 0" "map_of kvs key = None" "length v = vs"
  shows "\<exists>m'. mg_map_add h (Some m) key (Some v) = Inr (0, Some m') \<and> table_of m' vs ((key, v) # kvs) k"
proof -
  obtain nodes where n: "mg_rep m nodes" "keys_distinct nodes" "unat (node_size m) = vs + 4" "Suc k \<le> frees nodes" "nodes_map nodes = map_of kvs"
    using assms(1) by (auto simp: table_of_def)
  obtain j where j: "find_idx 0 nodes = Some j" using find_idx_free[of nodes] n(4) by auto
  have key: "key \<notin> fst ` set nodes"
    using fun_cong[OF n(5), of key] assms(2,3) by (auto simp: nodes_map_def map_of_eq_None_iff)
  have v: "length v = unat (node_size m) - 4" using n(3) assms(4) by simp
  from mg_map_add_free[OF n(1,2) j assms(2) key v] obtain m' where
    m': "mg_map_add h (Some m) key (Some v) = Inr (0, Some m')" "mg_rep m' (nodes[j := (key, v)])" "keys_distinct (nodes[j := (key, v)])"
    "nodes_map (nodes[j := (key, v)]) = (nodes_map nodes)(key \<mapsto> v)" "node_size m' = node_size m" by blast
  have "k \<le> frees (nodes[j := (key, v)])" using frees_fill[OF j assms(2), of v] n(4) by simp
  then have "table_of m' vs ((key, v) # kvs) k" using m' n(3,5) by (auto simp: table_of_def)
  with m'(1) show ?thesis by blast
qed

lemma table_get: "table_of m vs kvs k \<Longrightarrow> key \<noteq> 0 \<Longrightarrow> \<exists>r. mg_map_get (Some m) key = Inr r"
  using mg_map_get_rep by (auto simp: table_of_def)

lemma table_look: "table_of m vs kvs k \<Longrightarrow> mg_look m = map_of kvs"
  using mg_look_rep by (auto simp: table_of_def)

lemma table_init:
  assumes "mdat m = None" "vs \<noteq> 0" "unat vs < 100" "grants h ((vs + 4) * 32)"
  shows "\<exists>m'. mg_map_init h (Some m) vs 32 = Inr (0, Some m') \<and> table_of m' (unat vs) [] 32"
proof -
  from mg_map_init_rep[OF assms(1,2) _ _ assms(4)] assms(3) obtain m' where
    m': "mg_map_init h (Some m) vs 32 = Inr (0, Some m')" "mg_rep m' (free_nodes (unat vs + 4) 32)" "node_size m' = vs + 4" by auto
  have "unat (node_size m') = unat vs + 4" using m'(3) assms(3) unat_add_below[of vs 4] by simp
  moreover have "frees (free_nodes (unat vs + 4) 32) = 32" by (simp add: frees_def free_nodes_def)
  moreover have "nodes_map (free_nodes (unat vs + 4) 32) = map_of []" by (auto simp: nodes_map_def map_of_free_nodes fun_eq_iff)
  ultimately have "table_of m' (unat vs) [] 32" using m'(2) keys_distinct_free_nodes by (auto simp: table_of_def)
  then show ?thesis using m'(1) by blast
qed

section \<open>The lines of the file\<close>

type_synonym worker = "string list \<times> u8 list \<times> (u8 \<times> u8 \<times> u8 \<times> u8)"

definition plain :: "string \<Rightarrow> bool" where
  "plain s \<longleftrightarrow> s \<noteq> [] \<and> (\<forall>c \<in> set s. \<not> is_comma c \<and> c \<noteq> NL \<and> c \<noteq> NUL)"

definition worker_key :: "worker \<Rightarrow> u32" where
  "worker_key w = (case w of (cs, mac, (a, b, c, d)) \<Rightarrow> word32_of_bytes a b c d)"

definition worker_text :: "worker \<Rightarrow> string" where
  "worker_text w = (case w of (cs, mac, (a, b, c, d)) \<Rightarrow>
     cs ! 0 @ CHR '','' # cs ! 1 @ CHR '','' # mac_text mac @ CHR '','' # cs ! 2 @ CHR '','' # cs ! 3 @ CHR '','' #
     cs ! 4 @ CHR '','' # cs ! 5 @ CHR '','' # dotted a b c d @ [NL])"

text \<open>A line with a full hardware address, or with one of three numbers.\<close>

definition worker_ok :: "worker \<Rightarrow> bool" where
  "worker_ok w \<longleftrightarrow> (case w of (cs, mac, ip) \<Rightarrow> length cs = 6 \<and> (\<forall>c \<in> set cs. plain c) \<and> (length mac = 3 \<or> length mac = 6)) \<and>
     worker_key w \<noteq> 0 \<and> length (worker_text w) \<le> 1023"

lemma strtok_plain: "plain s \<Longrightarrow> strtok (s @ CHR '','' # r) = Some (s, r)"
  by (cases s) (auto simp: strtok_by_def plain_def is_comma_def Let_def takeWhile_append dropWhile_append3)

lemma strtok_last: "s \<noteq> [] \<Longrightarrow> \<forall>c \<in> set s. \<not> is_comma c \<Longrightarrow> strtok s = Some (s, [])"
  by (cases s) (auto simp: strtok_by_def Let_def dropWhile_eq_Nil_conv[THEN iffD2] takeWhile_eq_all_conv[THEN iffD2])

lemma strtok_Nil: "strtok [] = None"
  by (simp add: strtok_by_def)

lemma plain_hex: "d < 16 \<Longrightarrow> \<not> is_comma (hex_char d) \<and> hex_char d \<noteq> NL \<and> hex_char d \<noteq> NUL"
  unfolding is_comma_def using hex_char_other[OF _ not_digits(6)] hex_char_other[OF _ not_digits(7)] hex_char_other[OF _ not_digits(8)] by blast

lemma plain_hex2: "plain (hex2 b)"
proof -
  have "unat b < 256" using unat_below[of b] by simp
  then have "unat b div 16 < 16" "unat b mod 16 < 16" by (simp_all add: less_mult_imp_div_less)
  then show ?thesis using plain_hex by (simp add: plain_def hex2_def)
qed

lemma code_neq: "(of_char c :: nat) \<noteq> of_char d \<Longrightarrow> c \<noteq> d"
  by auto

lemma punctuation: "\<not> is_comma CHR '':''" "CHR '':'' \<noteq> NL" "CHR '':'' \<noteq> NUL" "\<not> is_comma CHR ''.''" "CHR ''.'' \<noteq> NL" "CHR ''.'' \<noteq> NUL" "NL \<noteq> NUL"
  unfolding is_comma_def by (rule code_neq, simp add: NL_def NUL_def del: of_char_eq_iff)+

lemma plain_mac: "bs \<noteq> [] \<Longrightarrow> plain (mac_text bs)"
proof (induction bs rule: mac_text.induct)
  case (3 b c bs)
  then show ?case using plain_hex2[of b] punctuation(2,3)[symmetric] punctuation(1-3) by (auto simp: plain_def)
qed (simp_all add: plain_hex2)

lemma digit_facts: "d < 10 \<Longrightarrow> \<not> is_comma (digit_char d) \<and> digit_char d \<noteq> NL \<and> digit_char d \<noteq> NUL"
  unfolding is_comma_def using digit_char_other[of d "CHR '',''"] digit_char_other[of d NL] digit_char_other[of d NUL]
  by (simp add: NL_def NUL_def)

lemma plain_dec: "plain (dec_string n)"
proof (induction n rule: dec_string.induct)
  case (1 n)
  then show ?case using digit_facts by (subst dec_string.simps) (auto simp: plain_def)
qed

lemma plain_dotted: "plain (dotted a b c d)"
  using plain_dec punctuation(4-6) unfolding dotted_all by (auto simp: plain_def)

lemma NL_not_comma: "\<not> is_comma NL"
  using comma_NL by (auto simp: is_comma_def)

lemma worker_columns_run:
  assumes "worker_ok (cs, mac, (a, b, c, d))"
  shows "worker_columns l i 1 (worker_text (cs, mac, (a, b, c, d))) (ip, mc) =
    rbind (mac_column l i (mac_text mac) mc) (\<lambda>mc1. rbind (ip_column l i (dotted a b c d @ [NL]) ip) (\<lambda>ip1. Inr (ip1, mc1)))"
proof -
  have cs: "length cs = 6" "\<And>j. j < 6 \<Longrightarrow> plain (cs ! j)" "mac \<noteq> []" using assms by (auto simp: worker_ok_def)
  have last: "strtok (dotted a b c d @ [NL]) = Some (dotted a b c d @ [NL], [])"
    by (rule strtok_last) (use plain_dotted NL_not_comma in \<open>auto simp: plain_def\<close>)
  note st = strtok_plain[OF cs(2)] strtok_plain[OF plain_mac[OF cs(3)]] last strtok_Nil
  show ?thesis
    unfolding worker_text_def prod.case
    by (simp add: worker_columns.simps st worker_column_def rbind_assoc split_def)
qed

text \<open>The two columns that matter.\<close>

lemma mac_column_run:
  assumes "calloc_ok l" "length bs = 3"
    and "table_of m 7 kvs (Suc k)" "of_nat i \<noteq> (0 :: u32)" "map_of kvs (of_nat i) = None"
  shows "\<exists>m'. mac_column l i (mac_text bs) (Some m) = Inr (Some m') \<and> table_of m' 7 ((of_nat i, stored_mac bs @ [0]) # kvs) k"
proof -
  have s: "length (stored_mac bs) = 6" using assms(2) stored_mac_length by blast
  have "mac_bytes (map Some (bs @ [0, 0, 0])) = Inr (stored_mac bs)"
    using assms(2) by (auto simp: mac_bytes_def comp_def stored_mac_def)
  moreover obtain m' where "mg_map_add (lheap l) (Some m) (of_nat i) (Some (stored_mac bs @ [0])) = Inr (0, Some m')"
    "table_of m' 7 ((of_nat i, stored_mac bs @ [0]) # kvs) k"
    using table_add[OF assms(3,4,5), of "stored_mac bs @ [0]" "lheap l"] s by auto
  ultimately show ?thesis using assms(1) scan_mac_three[OF assms(2)] by (simp add: mac_column_def)
qed

text \<open>
  \<open>sscanf\<close> stores each of the six numbers of a full address as an \<open>int\<close>, into an array of single
  bytes: the fourth store does not fit.
\<close>

theorem mac_array_overrun: "length bs = 6 \<Longrightarrow> mac_column l i (mac_text bs) m = Inl Out_Of_Bounds"
  by (simp add: mac_column_def scan_mac_six)

lemma ip_column_run:
  assumes "table_of m 4 kvs (Suc k)" "word32_of_bytes a b c d \<noteq> (0 :: u32)" "map_of kvs (word32_of_bytes a b c d) = None"
  shows "\<exists>m'. ip_column l i (dotted a b c d @ [NL]) (Some m) = Inr (Some m') \<and>
    table_of m' 4 ((word32_of_bytes a b c d, bytes_of32 (of_nat i)) # kvs) k"
proof -
  have "inet_addr (dotted a b c d @ [NL]) = word32_of_bytes a b c d"
    by (simp add: inet_addr_def inet_aton_dotted_tail blank_tail_def)
  moreover obtain m' where "mg_map_add (lheap l) (Some m) (word32_of_bytes a b c d) (Some (bytes_of32 (of_nat i))) = Inr (0, Some m')"
    "table_of m' 4 ((word32_of_bytes a b c d, bytes_of32 (of_nat i)) # kvs) k"
    using table_add[OF assms, of "bytes_of32 (of_nat i)" "lheap l"] by auto
  moreover obtain r where "mg_map_get (Some m') (word32_of_bytes a b c d) = Inr r" using table_get[OF _ assms(2)] calculation(3) by blast
  ultimately show ?thesis by (simp add: ip_column_def Let_def)
qed

lemma worker_line:
  assumes "worker_ok w"
  shows "fgets_take 1023 (worker_text w @ s) = (worker_text w, s)" "takeWhile (\<lambda>c. c \<noteq> NUL) (worker_text w) = worker_text w" "worker_text w \<noteq> []"
proof -
  obtain cs mac a b c d where w: "w = (cs, mac, (a, b, c, d))" by (metis surj_pair)
  have cs: "length cs = 6" "\<And>j. j < 6 \<Longrightarrow> plain (cs ! j)" "mac \<noteq> []" and len: "length (worker_text w) \<le> 1023"
    using assms by (auto simp: worker_ok_def w)
  have no: "NL \<notin> set x \<and> NUL \<notin> set x" if "plain x" for x using that by (auto simp: plain_def)
  note n = no[OF cs(2)] no[OF plain_mac[OF cs(3)]] no[OF plain_dotted]
  have comma: "CHR '','' \<noteq> NL" "CHR '','' \<noteq> NUL" by (rule comma_NL, rule code_neq, simp add: NUL_def del: of_char_eq_iff)
  define x where "x = cs ! 0 @ CHR '','' # cs ! 1 @ CHR '','' # mac_text mac @ CHR '','' # cs ! 2 @ CHR '','' # cs ! 3 @ CHR '','' #
     cs ! 4 @ CHR '','' # cs ! 5 @ CHR '','' # dotted a b c d"
  have x: "worker_text w = x @ [NL]" by (simp add: x_def w worker_text_def)
  have nx: "NL \<notin> set x" "NUL \<notin> set x" using n comma by (auto simp: x_def)
  show "fgets_take 1023 (worker_text w @ s) = (worker_text w, s)"
    using fgets_take_line[OF nx(1), of 1023 s] len x by simp
  show "takeWhile (\<lambda>c. c \<noteq> NUL) (worker_text w) = worker_text w" "worker_text w \<noteq> []"
    using nx(2) punctuation(7) by (auto simp: x takeWhile_eq_all_conv)
qed

text \<open>The entries of the tables after the lines of \<open>ws\<close>, the first of which has number \<open>i\<close>.\<close>

fun ip_entries :: "nat \<Rightarrow> worker list \<Rightarrow> (u32 \<times> u8 list) list" where
  "ip_entries i [] = []"
| "ip_entries i (w # ws) = (worker_key w, bytes_of32 (of_nat i)) # ip_entries (i + 1) ws"

fun mac_entries :: "nat \<Rightarrow> worker list \<Rightarrow> (u32 \<times> u8 list) list" where
  "mac_entries i [] = []"
| "mac_entries i (w # ws) = (of_nat i, stored_mac (fst (snd w)) @ [0]) # mac_entries (i + 1) ws"

definition short_mac :: "worker \<Rightarrow> bool" where
  "short_mac w \<longleftrightarrow> length (fst (snd w)) = 3"

lemma worker_lines_run:
  assumes "calloc_ok l" "\<forall>w \<in> set ws. worker_ok w \<and> short_mac w" "distinct (map worker_key ws)"
    and "table_of ip 4 ipk (length ws + k)" "table_of mc 7 mck (length ws + k)" "0 < i" "i + length ws < 1000"
    and "\<forall>w \<in> set ws. map_of ipk (worker_key w) = None" "\<forall>j \<ge> i. j < 1000 \<longrightarrow> map_of mck (of_nat j) = None"
  shows "\<exists>ip' mc'. worker_lines l i (concat (map worker_text ws) @ rest) (Some ip, Some mc) =
      worker_lines l (i + length ws) rest (Some ip', Some mc') \<and>
    table_of ip' 4 (rev (ip_entries i ws) @ ipk) k \<and> table_of mc' 7 (rev (mac_entries i ws) @ mck) k"
  using assms(2-)
proof (induction ws arbitrary: i ip mc ipk mck)
  case Nil
  then show ?case by auto
next
  case (Cons w ws)
  obtain cs mac a b c d where w: "w = (cs, mac, (a, b, c, d))" by (metis surj_pair)
  have ok: "worker_ok w" "worker_ok (cs, mac, (a, b, c, d))" using Cons.prems(1) w by auto
  have key: "worker_key w = word32_of_bytes a b c d" by (simp add: w worker_key_def)
  have ni: "of_nat i \<noteq> (0 :: u32)" "length mac = 3" "worker_key w \<noteq> 0"
  proof -
    have "unat (of_nat i :: u32) = i" using Cons.prems(6) by (simp add: unat_of_nat)
    then show "of_nat i \<noteq> (0 :: u32)" using Cons.prems(5) by (metis less_irrefl unsigned_0)
    show "length mac = 3" "worker_key w \<noteq> 0" using ok Cons.prems(1) by (auto simp: worker_ok_def short_mac_def w)
  qed
  obtain mc1 where mc1: "mac_column l i (mac_text mac) (Some mc) = Inr (Some mc1)" "table_of mc1 7 ((of_nat i, stored_mac mac @ [0]) # mck) (length ws + k)"
    using mac_column_run[OF assms(1) ni(2) _ ni(1), of mc mck "length ws + k"] Cons.prems(4,6,8) by auto
  obtain ip1 where ip1: "ip_column l i (dotted a b c d @ [NL]) (Some ip) = Inr (Some ip1)"
    "table_of ip1 4 ((worker_key w, bytes_of32 (of_nat i)) # ipk) (length ws + k)"
    using ip_column_run[of ip ipk "length ws + k" a b c d l i] Cons.prems(3,7) ni(3) key by auto
  have line: "worker_lines l i (concat (map worker_text (w # ws)) @ rest) (Some ip, Some mc) =
      worker_lines l (i + 1) (concat (map worker_text ws) @ rest) (Some ip1, Some mc1)"
    unfolding w using mc1(1) ip1(1)
    by (subst worker_lines.simps) (simp add: worker_line[OF ok(2)] worker_columns_run[OF ok(2), unfolded One_nat_def])
  have wi: "(of_nat j :: u32) \<noteq> of_nat i" if "i < j" "j < 1000" for j
  proof -
    have "unat (of_nat j :: u32) = j" "unat (of_nat i :: u32) = i" using that by (simp_all add: unat_of_nat)
    then show ?thesis using that by auto
  qed
  have p1: "\<forall>w \<in> set ws. worker_ok w \<and> short_mac w" "distinct (map worker_key ws)" "0 < i + 1" "i + 1 + length ws < 1000"
    using Cons.prems(1,2,6) by auto
  have other: "worker_key x \<noteq> worker_key w" if "x \<in> set ws" for x
  proof -
    have "worker_key x \<in> worker_key ` set ws" using that by (rule imageI)
    then show ?thesis using Cons.prems(2) by auto
  qed
  have p2: "\<forall>x \<in> set ws. map_of ((worker_key w, bytes_of32 (of_nat i)) # ipk) (worker_key x) = None"
    using other Cons.prems(7) by simp
  have p3: "\<forall>j \<ge> i + 1. j < 1000 \<longrightarrow> map_of ((of_nat i, stored_mac mac @ [0]) # mck) (of_nat j) = None"
  proof (intro allI impI)
    fix j assume "i + 1 \<le> j" "j < 1000"
    then show "map_of ((of_nat i, stored_mac mac @ [0]) # mck) (of_nat j) = None"
      using wi[of j] Cons.prems(8) by simp
  qed
  from Cons.IH[OF p1(1,2) ip1(2) mc1(2) p1(3,4) p2 p3] show ?case unfolding line by (simp add: w)
qed

text \<open>The first full address ends the loading.\<close>

lemma worker_lines_overrun:
  assumes "calloc_ok l" "\<forall>w \<in> set ws. worker_ok w" "distinct (map worker_key ws)" "\<exists>w \<in> set ws. \<not> short_mac w"
    and "table_of ip 4 [] (length ws)" "table_of mc 7 [] (length ws)" "length ws < 999"
  shows "worker_lines l 1 (concat (map worker_text ws)) (Some ip, Some mc) = Inl Out_Of_Bounds"
proof -
  obtain us v vs where ws: "ws = us @ v # vs" "\<not> short_mac v" "\<forall>u \<in> set us. short_mac u"
    using split_list_first_prop[of ws "\<lambda>w. \<not> short_mac w"] assms(4) by blast
  obtain cs mac a b c d where v: "v = (cs, mac, (a, b, c, d))" by (metis surj_pair)
  have ok: "worker_ok (cs, mac, (a, b, c, d))" using assms(2) ws(1) v by simp
  then have six: "length mac = 6" using ws(2) by (auto simp: worker_ok_def short_mac_def v)
  have us: "\<forall>w \<in> set us. worker_ok w \<and> short_mac w" "distinct (map worker_key us)" "1 + length us < 1000"
    using assms(2,3,7) ws(1,3) by auto
  have n: "length ws = length us + Suc (length vs)" by (simp add: ws(1))
  obtain ip' mc' where l: "worker_lines l 1 (concat (map worker_text us) @ worker_text v @ concat (map worker_text vs)) (Some ip, Some mc) =
      worker_lines l (1 + length us) (worker_text v @ concat (map worker_text vs)) (Some ip', Some mc')"
    using worker_lines_run[OF assms(1) us(1,2) assms(5)[unfolded n] assms(6)[unfolded n] _ us(3)] by fastforce
  also have "\<dots> = Inl Out_Of_Bounds"
    unfolding v by (subst worker_lines.simps) (simp add: worker_line[OF ok] worker_columns_run[OF ok, unfolded One_nat_def] mac_array_overrun[OF six])
  finally show ?thesis by (simp add: ws(1))
qed

lemma map_of_ip_entries:
  "distinct (map worker_key ws) \<Longrightarrow> j < length ws \<Longrightarrow> map_of (rev (ip_entries i ws)) (worker_key (ws ! j)) = Some (bytes_of32 (of_nat (i + j)))"
  "k \<notin> worker_key ` set ws \<Longrightarrow> map_of (rev (ip_entries i ws)) k = None"
proof -
  have none: "k \<notin> worker_key ` set ws \<Longrightarrow> map_of (rev (ip_entries i ws)) k = None" for k i
    by (induction ws arbitrary: i) (auto simp: map_add_def)
  then show "k \<notin> worker_key ` set ws \<Longrightarrow> map_of (rev (ip_entries i ws)) k = None" .
  have none': "k \<notin> worker_key ` set ws \<Longrightarrow> map_of (rev (ip_entries i ws)) k = None" for k i ws
    by (induction ws arbitrary: i) (auto simp: map_add_def)
  show "distinct (map worker_key ws) \<Longrightarrow> j < length ws \<Longrightarrow> map_of (rev (ip_entries i ws)) (worker_key (ws ! j)) = Some (bytes_of32 (of_nat (i + j)))"
  proof (induction ws arbitrary: i j)
    case (Cons w ws)
    show ?case
    proof (cases j)
      case 0
      then show ?thesis using Cons.prems none'[of "worker_key w" ws "Suc i"] by (simp add: map_add_def)
    next
      case (Suc m)
      then show ?thesis using Cons.IH[of m "Suc i"] Cons.prems by (simp add: map_add_def)
    qed
  qed simp
qed

lemma map_of_mac_entries:
  "j < length ws \<Longrightarrow> i + length ws < 1000 \<Longrightarrow> map_of (rev (mac_entries i ws)) (of_nat (i + j)) = Some (stored_mac (fst (snd (ws ! j))) @ [0])"
proof (induction ws arbitrary: i j)
  case (Cons w ws)
  have ne: "(of_nat i :: u32) \<notin> fst ` set (mac_entries m ws)" if "i < m" "m + length ws < 1000" for m
    using that
  proof (induction ws arbitrary: m)
    case (Cons v vs)
    have "unat (of_nat m :: u32) = m" "unat (of_nat i :: u32) = i" using Cons.prems by (simp_all add: unat_of_nat)
    then have "(of_nat m :: u32) \<noteq> of_nat i" using Cons.prems(1) by auto
    then show ?case using Cons.IH[of "Suc m"] Cons.prems by auto
  qed simp
  show ?case
  proof (cases j)
    case 0
    have "map_of (rev (mac_entries (Suc i) ws)) (of_nat i) = None"
      using ne[of "Suc i"] Cons.prems(2) by (simp add: map_of_eq_None_iff)
    then show ?thesis using 0 by (simp add: map_add_def)
  next
    case (Suc m)
    then show ?thesis using Cons.IH[of m "Suc i"] Cons.prems by (simp add: map_add_def)
  qed
qed simp

section \<open>Properties\<close>

text \<open>The tables of a list of nodes: node \<open>i\<close>'s network has index \<open>i\<close> in the address table, and index \<open>i\<close> has
  node \<open>i\<close>'s hardware address; no other network is in the table.\<close>

definition tables_hold :: "worker list \<Rightarrow> mg_Map \<Rightarrow> mg_Map \<Rightarrow> bool" where
  "tables_hold ws ip mac \<longleftrightarrow>
     (\<forall>i < length ws. mg_look ip (worker_key (ws ! i)) = Some (bytes_of32 (of_nat (i + 1))) \<and>
       mg_look mac (of_nat (i + 1)) = Some (stored_mac (fst (snd (ws ! i))) @ [0])) \<and>
     (\<forall>k. k \<notin> worker_key ` set ws \<longrightarrow> mg_look ip k = None)"

text \<open>A file with lines for at most 32 nodes with different network addresses is loaded
  completely if every hardware address in it has only three numbers. \<open>sscanf\<close> stores each number
  as an \<open>int\<close>, into an array of single bytes: the first full address is written outside the
  array.\<close>
theorem load_workers_correct:
  assumes "calloc_ok l" "grants (lheap l) (11 * 32)" "grants (lheap l) (8 * 32)"
    and "mdat ip0 = None" "mdat mac0 = None" "length ws \<le> 32" "\<forall>w \<in> set ws. worker_ok w" "distinct (map worker_key ws)"
  shows "if \<forall>w \<in> set ws. short_mac w
    then \<exists>ip mac. load_workers l (Some (concat (map worker_text ws))) (Some ip0, Some mac0) = Inr (Some ip, Some mac) \<and> tables_hold ws ip mac
    else load_workers l (Some (concat (map worker_text ws))) (Some ip0, Some mac0) = Inl Out_Of_Bounds"
proof -
  have g: "grants (lheap l) ((7 + 4) * 32)" "grants (lheap l) ((4 + 4) * 32)" using assms(2,3) by simp_all
  obtain m1 where m1: "mg_map_init (lheap l) (Some mac0) 7 32 = Inr (0, Some m1)" "table_of m1 7 [] 32"
    using table_init[OF assms(5) _ _ g(1)] by auto
  obtain i1 where i1: "mg_map_init (lheap l) (Some ip0) 4 32 = Inr (0, Some i1)" "table_of i1 4 [] 32"
    using table_init[OF assms(4) _ _ g(2)] by auto
  have r: "32 = length ws + (32 - length ws)" using assms(6) by simp
  show ?thesis
  proof (cases "\<forall>w \<in> set ws. short_mac w")
    case True
    then have short: "\<forall>w \<in> set ws. worker_ok w \<and> short_mac w" using assms(7) by blast
    have e: "worker_lines l j [] t = Inr t" for j t by (subst worker_lines.simps) simp
    obtain ip mac where f: "worker_lines l 1 (concat (map worker_text ws)) (Some i1, Some m1) = Inr (Some ip, Some mac)"
      "table_of ip 4 (rev (ip_entries 1 ws)) (32 - length ws)" "table_of mac 7 (rev (mac_entries 1 ws)) (32 - length ws)"
      using worker_lines_run[OF assms(1) short assms(8), of i1 "[]" "32 - length ws" m1 "[]" 1 "[]"] i1(2) m1(2) r assms(6) by (auto simp: e)
    have "load_workers l (Some (concat (map worker_text ws))) (Some ip0, Some mac0) = Inr (Some ip, Some mac)"
      using m1(1) i1(1) f(1) by (simp add: load_workers_def)
    moreover have "mg_look ip (worker_key (ws ! i)) = Some (bytes_of32 (of_nat (i + 1)))"
      "mg_look mac (of_nat (i + 1)) = Some (stored_mac (fst (snd (ws ! i))) @ [0])" if "i < length ws" for i
      using table_look[OF f(2)] table_look[OF f(3)] map_of_ip_entries(1)[OF assms(8) that, of 1] map_of_mac_entries[OF that, of 1] assms(6)
      by (simp_all add: add.commute)
    moreover have "mg_look ip k = None" if "k \<notin> worker_key ` set ws" for k
      using table_look[OF f(2)] map_of_ip_entries(2)[OF that, of 1] by simp
    ultimately show ?thesis using True by (auto simp: tables_hold_def)
  next
    case False
    have t: "table_of i1 4 [] (length ws)" "table_of m1 7 [] (length ws)"
      using i1(2) m1(2) assms(6) by (auto simp: table_of_def intro: order_trans)
    from worker_lines_overrun[OF assms(1,7,8) _ t] False assms(6) show ?thesis
      using m1(1) i1(1) by (auto simp: load_workers_def)
  qed
qed

definition sample_worker :: worker where
  "sample_worker = (replicate 6 ''x'', [1, 2, 3], (10, 1, 2, 1))"

definition full_worker :: worker where
  "full_worker = (replicate 6 ''x'', [1, 2, 3, 4, 5, 6], (10, 1, 2, 1))"

definition sample_loader :: loader where
  "sample_loader = \<lparr>lheap = \<lparr>grants = (\<lambda>_. True), junk = (\<lambda>_. 0)\<rparr>, calloc_ok = True\<rparr>"

lemma sample_worker_ok: "worker_ok sample_worker" "worker_ok full_worker" "short_mac sample_worker" "\<not> short_mac full_worker"
proof -
  have x: "plain ''x''"
  proof -
    have "CHR ''x'' \<noteq> NL" "CHR ''x'' \<noteq> NUL" by (rule code_neq, simp add: NL_def NUL_def del: of_char_eq_iff)+
    then show ?thesis by (simp add: plain_def is_comma_def)
  qed
  have k: "worker_key (cs, mac, (10, 1, 2, 1)) \<noteq> 0" for cs mac
  proof
    assume "worker_key (cs, mac, (10, 1, 2, 1)) = 0"
    then have "byte_of 3 (worker_key (cs, mac, (10, 1, 2, 1))) = 0" by (simp only: byte_of_zero)
    then show False by (simp add: worker_key_def)
  qed
  have "length (dotted 10 1 2 1) < 16" by (simp add: dotted_def)
  moreover have "length (hex2 b) = 2" for b by (simp add: hex2_def)
  ultimately have "length (worker_text sample_worker) \<le> 1023" "length (worker_text full_worker) \<le> 1023"
    by (simp_all add: worker_text_def sample_worker_def full_worker_def eval_nat_numeral)
  then show "worker_ok sample_worker" "worker_ok full_worker" using k x
    by (simp_all add: worker_ok_def) (simp_all add: sample_worker_def full_worker_def)
  show "short_mac sample_worker" "\<not> short_mac full_worker" by (simp_all add: short_mac_def sample_worker_def full_worker_def)
qed

theorem load_workers_correct_witness:
  "(\<exists>ip mac. load_workers sample_loader (Some (worker_text sample_worker)) (Some \<lparr>mcount = 0, node_size = 0, mdat = None\<rparr>, Some \<lparr>mcount = 0, node_size = 0, mdat = None\<rparr>) =
      Inr (Some ip, Some mac) \<and> mg_look ip (worker_key sample_worker) = Some [1, 0, 0, 0] \<and> mg_look mac 1 = Some [1, 2, 3, 0, 0, 0, 0]) \<and>
   load_workers sample_loader (Some (worker_text full_worker)) (Some \<lparr>mcount = 0, node_size = 0, mdat = None\<rparr>, Some \<lparr>mcount = 0, node_size = 0, mdat = None\<rparr>) =
     Inl Out_Of_Bounds"
proof -
  have b: "bytes_of32 1 = [1, 0, 0, 0]" by (simp add: bytes_of32_def byte_of_def)
  have g: "calloc_ok sample_loader" "grants (lheap sample_loader) (11 * 32)" "grants (lheap sample_loader) (8 * 32)" by (simp_all add: sample_loader_def)
  note L = load_workers_correct[OF g, of "\<lparr>mcount = 0, node_size = 0, mdat = None\<rparr>" "\<lparr>mcount = 0, node_size = 0, mdat = None\<rparr>"]
  have s: "stored_mac (fst (snd sample_worker)) = [1, 2, 3, 0, 0, 0]" by (simp add: stored_mac_def sample_worker_def)
  show ?thesis
  proof
    show "\<exists>ip mac. load_workers sample_loader (Some (worker_text sample_worker)) (Some \<lparr>mcount = 0, node_size = 0, mdat = None\<rparr>, Some \<lparr>mcount = 0, node_size = 0, mdat = None\<rparr>) =
      Inr (Some ip, Some mac) \<and> mg_look ip (worker_key sample_worker) = Some [1, 0, 0, 0] \<and> mg_look mac 1 = Some [1, 2, 3, 0, 0, 0, 0]"
      using L[of "[sample_worker]"] sample_worker_ok(1,3) by (auto simp: tables_hold_def s b)
    show "load_workers sample_loader (Some (worker_text full_worker)) (Some \<lparr>mcount = 0, node_size = 0, mdat = None\<rparr>, Some \<lparr>mcount = 0, node_size = 0, mdat = None\<rparr>) =
      Inl Out_Of_Bounds" using L[of "[full_worker]"] sample_worker_ok(2,4) by simp
  qed
qed

theorem mac_array_overrun_witness: "mac_column sample_loader 1 (mac_text [1, 2, 3, 4, 5, 6]) None = Inl Out_Of_Bounds"
  by (rule mac_array_overrun) simp

end
