(* ===== verification/Common_Funcs.thy ===== *)
theory Common_Funcs
  imports Worker_File
begin

text \<open>
  The helpers of \<open>opera-v2/common_funcs.h\<close>: the addresses of an interface, the parsing of a dotted
  address into its bytes, and the selection of a field of a line. The answers of the system
  calls are parameters.
\<close>

section \<open>The addresses of an interface\<close>

definition IFNAMSIZ :: nat where "IFNAMSIZ = 16"

text \<open>
  \<open>hwaddr\<close> are the bytes the kernel reports for the interface, if it knows it. The name is copied
  with \<open>strcpy\<close> into an array of \<open>IFNAMSIZ\<close> characters.
\<close>

definition getMACAddress :: "(string \<Rightarrow> u8 list option) \<Rightarrow> string \<Rightarrow> u8 list \<Rightarrow> (int \<times> u8 list) res" where
  "getMACAddress hwaddr ifname chMAC = guard_res Out_Of_Bounds (length ifname < IFNAMSIZ)
     (case hwaddr ifname of None \<Rightarrow> Inr (1, chMAC)
      | Some sa_data \<Rightarrow> guard_res Out_Of_Bounds (6 \<le> length chMAC) (Inr (0, take 6 sa_data @ drop 6 chMAC)))"

text \<open>The name is cut to 15 characters; when the call fails, the record has no address.\<close>

definition inet_ntoa :: "u32 \<Rightarrow> string" where
  "inet_ntoa a = dotted (byte_of 0 a) (byte_of 1 a) (byte_of 2 a) (byte_of 3 a)"

definition getIpAddress :: "(string \<Rightarrow> u32 option) \<Rightarrow> string \<Rightarrow> u32 res" where
  "getIpAddress ifaddr ifname = (case ifaddr (take (IFNAMSIZ - 1) ifname) of None \<Rightarrow> Inl Uninitialised
     | Some a \<Rightarrow> Inr (inet_addr (inet_ntoa a)))"

section \<open>The bytes of a dotted address\<close>

record octets =
  oct :: "u8 list"
  cnt :: u8
  cnt1 :: u8
  obuf :: cbuf

definition octets_start :: octets where
  "octets_start = \<lparr>oct = [0, 0, 0, 0], cnt = 0, cnt1 = 0, obuf = replicate 5 None\<rparr>"

definition octet_char :: "char \<Rightarrow> octets \<Rightarrow> octets res" where
  "octet_char c s = (if c \<noteq> CHR ''.'' then
       rbind (arr_set (obuf s) (unat (cnt s)) (Some c)) (\<lambda>b. Inr (s\<lparr>obuf := b, cnt := cnt s + 1\<rparr>))
     else Inr s)"

definition octet_end :: "octets \<Rightarrow> octets res" where
  "octet_end s = rbind (arr_set (obuf s) (unat (cnt s)) (Some NUL)) (\<lambda>b.
     rbind (strtol b) (\<lambda>(v, _).
     rbind (arr_set (oct s) (unat (cnt1 s)) (word_of_int v)) (\<lambda>os.
     Inr (s\<lparr>oct := os, cnt := 0, cnt1 := cnt1 s + 1, obuf := b\<rparr>))))"

text \<open>The loop: its counter is a byte, the length 16 bits wide.\<close>

definition octet_step :: "string \<Rightarrow> u16 \<Rightarrow> u8 \<Rightarrow> octets \<Rightarrow> octets res" where
  "octet_step src len i s = rbind (arr_get src (unat i)) (\<lambda>c. rbind (octet_char c s) (\<lambda>s1.
     if c = CHR ''.'' \<or> int (unat i) = int (unat len) - 1 then octet_end s1 else Inr s1))"

partial_function (option) octet_loop :: "string \<Rightarrow> u16 \<Rightarrow> u8 \<Rightarrow> octets \<Rightarrow> octets res option" where
  "octet_loop src len i s =
     (if unat i < unat len then
        (case octet_step src len i s of Inl e \<Rightarrow> Some (Inl e) | Inr s' \<Rightarrow> octet_loop src len (i + 1) s')
      else Some (Inr s))"

definition extractIpAddress :: "string \<Rightarrow> u16 list res option" where
  "extractIpAddress src = (case octet_loop src (of_nat (length src)) 0 octets_start of
     None \<Rightarrow> None
   | Some (Inl e) \<Rightarrow> Some (Inl e)
   | Some (Inr s) \<Rightarrow> Some (Inr (map ucast (oct s))))"

section \<open>Fields of a line\<close>

text \<open>After the first token, the delimiters include the newline.\<close>

function field_loop :: "(char \<Rightarrow> bool) \<Rightarrow> string \<Rightarrow> int \<Rightarrow> string option res" where
  "field_loop d s num = (case strtok_by d s of None \<Rightarrow> Inr None
     | Some (tok, rest) \<Rightarrow> guard_res Signed_Overflow (- (2 ^ 31) < num)
         (if num - 1 = 0 then Inr (Some tok) else field_loop d rest (num - 1)))"
  by auto
termination
  by (relation "measure (\<lambda>(d, s, num). length s)") (auto dest: strtok_less)

declare field_loop.simps [simp del]

definition field_of :: "char \<Rightarrow> string \<Rightarrow> int \<Rightarrow> string option res" where
  "field_of c line num = (case strtok_by (\<lambda>x. x = c) line of None \<Rightarrow> Inr None
     | Some (tok, rest) \<Rightarrow> guard_res Signed_Overflow (- (2 ^ 31) < num)
         (if num - 1 = 0 then Inr (Some tok) else field_loop (\<lambda>x. x = c \<or> x = NL) rest (num - 1)))"

definition getfield :: "string \<Rightarrow> int \<Rightarrow> string option res" where
  "getfield line num = field_of CHR '','' line num"

definition getroutefield :: "string \<Rightarrow> int \<Rightarrow> string option res" where
  "getroutefield line num = field_of CHR '' '' line num"

section \<open>The parser ends\<close>

definition octets_wf :: "octets \<Rightarrow> bool" where
  "octets_wf s \<longleftrightarrow> length (oct s) = 4 \<and> length (obuf s) = 5 \<and> unat (cnt s) \<le> 5 \<and> unat (cnt1 s) \<le> 4"

text \<open>Every step uses up room in the buffer or one of the four results.\<close>

definition octets_room :: "octets \<Rightarrow> nat" where
  "octets_room s = 6 * (4 - unat (cnt1 s)) + (5 - unat (cnt s))"

lemma unat_Suc_below: "unat (w :: u8) < 255 \<Longrightarrow> unat (w + 1) = Suc (unat w)"
  using unat_add_below[of w 1] by simp

lemma octet_char_wf:
  assumes "octets_wf s" "octet_char c s = Inr s'"
  shows "octets_wf s' \<and> oct s' = oct s \<and> cnt1 s' = cnt1 s \<and> unat (cnt s') = (if c = CHR ''.'' then unat (cnt s) else unat (cnt s) + 1)"
  using assms by (auto simp: octet_char_def octets_wf_def res_simps unat_Suc_below split: if_splits)

lemma octet_end_wf:
  assumes "octets_wf s" "octet_end s = Inr s'"
  shows "octets_wf s' \<and> unat (cnt s') = 0 \<and> unat (cnt1 s') = unat (cnt1 s) + 1"
  using assms by (auto simp: octet_end_def octets_wf_def res_simps unat_Suc_below)

lemma octet_step_room:
  assumes "octets_wf s" "octet_step src len i s = Inr s'"
  shows "octets_wf s' \<and> octets_room s' < octets_room s"
proof -
  obtain c s1 where c: "octet_char c s = Inr s1" "(if c = CHR ''.'' \<or> int (unat i) = int (unat len) - 1 then octet_end s1 else Inr s1) = Inr s'"
    using assms(2) by (auto simp: octet_step_def res_simps)
  note w = octet_char_wf[OF assms(1) c(1)]
  show ?thesis
  proof (cases "c = CHR ''.'' \<or> int (unat i) = int (unat len) - 1")
    case True
    then have "octet_end s1 = Inr s'" using c(2) by simp
    with w octet_end_wf[of s1 s'] assms(1) show ?thesis by (auto simp: octets_room_def octets_wf_def)
  next
    case False
    with w c(2) show ?thesis by (auto simp: octets_room_def octets_wf_def)
  qed
qed

lemma octet_loop_ends: "octets_wf s \<Longrightarrow> \<exists>r. octet_loop src len i s = Some r"
proof (induction "octets_room s" arbitrary: s i rule: less_induct)
  case less
  show ?case
  proof (cases "octet_step src len i s")
    case (Inr s')
    with octet_step_room[OF less.prems Inr] less.hyps[of s' "i + 1"] show ?thesis
      by (subst octet_loop.simps) auto
  qed (subst octet_loop.simps, simp)
qed

section \<open>Parsing a dotted address\<close>

lemma digit_not_dot: "c \<in> set (dec_string n) \<Longrightarrow> c \<noteq> CHR ''.''"
proof (induction n rule: dec_string.induct)
  case (1 n)
  have d: "digit_char k \<noteq> CHR ''.''" if "k < 10" for k using that by (simp add: digit_char_other)
  show ?case
  proof (cases "n < 10")
    case True
    then show ?thesis using 1(2) d[of n] by (simp add: dec_string.simps[of n])
  next
    case False
    have "n mod 10 < 10" by simp
    then show ?thesis using 1 False d[of "n mod 10"] by (auto simp: dec_string.simps[of n])
  qed
qed

lemma octet_loop_step:
  assumes "length src < 256" "k < length src" "octet_step src (of_nat (length src)) (of_nat k) s = Inr s'"
  shows "octet_loop src (of_nat (length src)) (of_nat k) s = octet_loop src (of_nat (length src)) (of_nat (Suc k)) s'"
proof -
  have "unat (of_nat k :: u8) = k" "unat (of_nat (length src) :: u16) = length src" using assms(1,2) by (simp_all add: unat_of_nat)
  then show ?thesis using assms by (subst octet_loop.simps) (simp add: add.commute)
qed

lemma octet_digits:
  assumes "\<forall>c \<in> set ds. c \<noteq> CHR ''.''" "length (pre @ ds @ post) < 256" "post \<noteq> []" "length (obuf s) = 5" "unat (cnt s) + length ds \<le> 4"
  shows "octet_loop (pre @ ds @ post) (of_nat (length (pre @ ds @ post))) (of_nat (length pre)) s =
    octet_loop (pre @ ds @ post) (of_nat (length (pre @ ds @ post))) (of_nat (length pre + length ds))
      (s\<lparr>obuf := take (unat (cnt s)) (obuf s) @ map Some ds @ drop (unat (cnt s) + length ds) (obuf s), cnt := cnt s + of_nat (length ds)\<rparr>)"
  using assms
proof (induction ds arbitrary: pre s)
  case (Cons d ds)
  let ?src = "pre @ (d # ds) @ post"
  let ?s = "s\<lparr>obuf := (obuf s)[unat (cnt s) := Some d], cnt := cnt s + 1\<rparr>"
  have k: "unat (of_nat (length pre) :: u8) = length pre" "unat (of_nat (length ?src) :: u16) = length ?src"
    using Cons.prems(2) by (simp_all only: unat_of_nat) simp_all
  have "int (length pre) \<noteq> int (length ?src) - 1" using Cons.prems(3) by (cases post) auto
  then have "octet_step ?src (of_nat (length ?src)) (of_nat (length pre)) s = Inr ?s"
    using Cons.prems k by (simp add: octet_step_def octet_char_def nth_append)
  then have step: "octet_loop ?src (of_nat (length ?src)) (of_nat (length pre)) s = octet_loop ?src (of_nat (length ?src)) (of_nat (Suc (length pre))) ?s"
    using octet_loop_step[of ?src "length pre"] Cons.prems(2) by simp
  have u: "unat (cnt s + 1) = Suc (unat (cnt s))" using Cons.prems(5) by (intro unat_Suc_below) simp
  have t: "take (Suc (unat (cnt s))) ((obuf s)[unat (cnt s) := Some d]) = take (unat (cnt s)) (obuf s) @ [Some d]"
    using Cons.prems(4,5) by (simp add: take_Suc_conv_app_nth)
  show ?case
    using step Cons.IH[of "pre @ [d]" ?s] Cons.prems u t by (simp add: ac_simps)
qed simp

text \<open>The end of a part whose digits are in the buffer.\<close>

lemma octet_end_run:
  assumes "obuf s = map Some (dec_string n) @ r" "r \<noteq> []" "cnt s = of_nat (length (dec_string n))" "length (dec_string n) \<le> 3" "n < 256"
    and "length (oct s) = 4" "unat (cnt1 s) < 4"
  shows "octet_end s = Inr (s\<lparr>oct := (oct s)[unat (cnt1 s) := of_nat n], cnt := 0, cnt1 := cnt1 s + 1, obuf := map Some (dec_string n) @ Some NUL # tl r\<rparr>)"
proof -
  have c: "unat (cnt s) = length (dec_string n)" using assms(3,4) by (simp add: unat_of_nat)
  have "(obuf s)[unat (cnt s) := Some NUL] = map Some (dec_string n) @ Some NUL # tl r"
    using assms(1,2) c by (cases r) (simp_all add: list_update_append)
  moreover have "strtol (map Some (dec_string n) @ Some NUL # tl r) = Inr (int n, length (dec_string n))"
    by (rule strtol_dec) (use assms(5) in \<open>simp_all add: isdigit_def NUL_def\<close>)
  moreover have "unat (cnt s) < length (obuf s)" using assms(1,2) c by (cases r) auto
  ultimately show ?thesis using assms(6,7) by (simp add: octet_end_def)
qed

definition octets_at :: "octets \<Rightarrow> u8 list \<Rightarrow> nat \<Rightarrow> bool" where
  "octets_at s os k \<longleftrightarrow> oct s = os \<and> length os = 4 \<and> cnt s = 0 \<and> cnt1 s = of_nat k \<and> length (obuf s) = 5"

lemma octet_part:
  assumes "octets_at s os k" "k < 4" "length (pre @ dec_string (unat b) @ CHR ''.'' # post) < 256"
  shows "\<exists>s'. octet_loop (pre @ dec_string (unat b) @ CHR ''.'' # post) (of_nat (length (pre @ dec_string (unat b) @ CHR ''.'' # post))) (of_nat (length pre)) s =
    octet_loop (pre @ dec_string (unat b) @ CHR ''.'' # post) (of_nat (length (pre @ dec_string (unat b) @ CHR ''.'' # post)))
      (of_nat (length (pre @ dec_string (unat b) @ [CHR ''.'']))) s' \<and> octets_at s' (os[k := b]) (k + 1)"
proof -
  let ?ds = "dec_string (unat b)"
  let ?src = "pre @ ?ds @ CHR ''.'' # post"
  have len: "length ?ds \<le> 3" by (rule dec_string_byte_length)
  have s: "oct s = os" "length os = 4" "cnt s = 0" "cnt1 s = of_nat k" "length (obuf s) = 5" using assms(1) by (simp_all add: octets_at_def)
  define s1 where "s1 = s\<lparr>obuf := map Some ?ds @ drop (length ?ds) (obuf s), cnt := of_nat (length ?ds)\<rparr>"
  have run1: "octet_loop ?src (of_nat (length ?src)) (of_nat (length pre)) s = octet_loop ?src (of_nat (length ?src)) (of_nat (length pre + length ?ds)) s1"
    using octet_digits[of ?ds pre "CHR ''.'' # post" s] digit_not_dot assms(3) s len by (simp add: s1_def)
  have k: "unat (of_nat k :: u8) = k" using assms(2) by (simp add: unat_of_nat)
  define s2 where "s2 = s1\<lparr>oct := os[k := b], cnt := 0, cnt1 := of_nat k + 1, obuf := map Some ?ds @ Some NUL # tl (drop (length ?ds) (obuf s))\<rparr>"
  have "octet_end s1 = Inr s2"
    using octet_end_run[of s1 "unat b" "drop (length ?ds) (obuf s)"] s len k assms(2) unat_below[of b] by (simp add: s1_def s2_def)
  moreover have "unat (of_nat (length pre + length ?ds) :: u8) = length pre + length ?ds" using assms(3) by (simp only: unat_of_nat) simp
  ultimately have "octet_step ?src (of_nat (length ?src)) (of_nat (length pre + length ?ds)) s1 = Inr s2"
    by (simp add: octet_step_def octet_char_def nth_append)
  then have run2: "octet_loop ?src (of_nat (length ?src)) (of_nat (length pre + length ?ds)) s1 = octet_loop ?src (of_nat (length ?src)) (of_nat (Suc (length pre + length ?ds))) s2"
    by (intro octet_loop_step[OF assms(3)]) simp
  have "octets_at s2 (os[k := b]) (k + 1)" using s len by (simp add: octets_at_def s2_def s1_def add.commute)
  moreover have "length (pre @ ?ds @ [CHR ''.'']) = Suc (length pre + length ?ds)" by simp
  ultimately show ?thesis using run1 run2 by metis
qed

lemma octet_next:
  assumes "src = pre @ dec_string (unat b) @ CHR ''.'' # post" "mid = pre @ dec_string (unat b) @ [CHR ''.'']" "length src < 256"
    and "octets_at s os k" "k < 4"
  obtains s' where "octet_loop src (of_nat (length src)) (of_nat (length pre)) s = octet_loop src (of_nat (length src)) (of_nat (length mid)) s'"
    "octets_at s' (os[k := b]) (k + 1)"
  using octet_part[OF assms(4,5) assms(3)[unfolded assms(1)]] unfolding assms(1,2) by blast

lemma octet_last_part:
  assumes "octets_at s os k" "k < 4" "length (pre @ dec_string (unat b)) < 256"
  shows "\<exists>s'. octet_loop (pre @ dec_string (unat b)) (of_nat (length (pre @ dec_string (unat b)))) (of_nat (length pre)) s = Some (Inr s') \<and> oct s' = os[k := b]"
proof -
  let ?ds = "dec_string (unat b)"
  let ?src = "pre @ ?ds"
  have len: "length ?ds \<le> 3" by (rule dec_string_byte_length)
  have ne: "?ds \<noteq> []" using dec_string_hd[of "unat b"] by auto
  have s: "oct s = os" "length os = 4" "cnt s = 0" "cnt1 s = of_nat k" "length (obuf s) = 5" using assms(1) by (simp_all add: octets_at_def)
  define i where "i = butlast ?ds"
  define c where "c = last ?ds"
  have ic: "?ds = i @ [c]" using ne by (simp add: i_def c_def)
  have dots: "\<forall>x \<in> set i. x \<noteq> CHR ''.''" "c \<noteq> CHR ''.''" using digit_not_dot[of _ "unat b"] unfolding ic by auto
  define s1 where "s1 = s\<lparr>obuf := map Some i @ drop (length i) (obuf s), cnt := of_nat (length i)\<rparr>"
  define s2 where "s2 = s\<lparr>obuf := map Some ?ds @ drop (length ?ds) (obuf s), cnt := of_nat (length ?ds)\<rparr>"
  have run1: "octet_loop ?src (of_nat (length ?src)) (of_nat (length pre)) s = octet_loop ?src (of_nat (length ?src)) (of_nat (length pre + length i)) s1"
    using octet_digits[of i pre "[c]" s] dots assms(3) s len by (simp add: s1_def ic)
  have li: "length i < 5" using len unfolding ic by simp
  have ci: "unat (of_nat (length i) :: u8) = length i" using li by (simp add: unat_of_nat)
  have "(map Some i @ drop (length i) (obuf s))[length i := Some c] = map Some (i @ [c]) @ drop (Suc (length i)) (obuf s)"
    using li s(5) by (simp add: list_update_append Cons_nth_drop_Suc[symmetric])
  then have ch: "octet_char c s1 = Inr s2"
    using dots(2) s(5) li ci by (simp add: octet_char_def s1_def s2_def ic add.commute)
  have k: "unat (of_nat k :: u8) = k" using assms(2) by (simp add: unat_of_nat)
  obtain s3 where s3: "octet_end s2 = Inr s3" "oct s3 = os[k := b]"
    using octet_end_run[of s2 "unat b" "drop (length ?ds) (obuf s)"] s len k assms(2) unat_below[of b] by (simp add: s2_def)
  have p: "unat (of_nat (length pre + length i) :: u8) = length pre + length i" "unat (of_nat (length ?src) :: u16) = length ?src"
    using assms(3) unfolding ic by (simp_all only: unat_of_nat) simp_all
  have "octet_step ?src (of_nat (length ?src)) (of_nat (length pre + length i)) s1 = Inr s3"
    using ch s3(1) p by (simp add: octet_step_def ic nth_append)
  then have run2: "octet_loop ?src (of_nat (length ?src)) (of_nat (length pre + length i)) s1 = octet_loop ?src (of_nat (length ?src)) (of_nat (Suc (length pre + length i))) s3"
    by (intro octet_loop_step[OF assms(3)]) (simp_all add: ic)
  have e: "Suc (length pre + length i) = length ?src" by (simp add: ic)
  have "octet_loop ?src (of_nat (length ?src)) (of_nat (length ?src)) s3 = Some (Inr s3)"
  proof -
    have "unat (of_nat (length ?src) :: u8) = length ?src" using assms(3) by (simp only: unat_of_nat) simp
    then show ?thesis using p(2) by (subst octet_loop.simps) simp
  qed
  then show ?thesis using run1 run2 s3(2) unfolding e by simp
qed

section \<open>Selecting a field\<close>

fun line_of :: "char \<Rightarrow> string list \<Rightarrow> string" where
  "line_of c [] = []"
| "line_of c [f] = f @ [NL]"
| "line_of c (f # fs) = f @ c # line_of c fs"

lemma strtok_by_token: "f \<noteq> [] \<Longrightarrow> \<forall>x \<in> set f. \<not> d x \<Longrightarrow> d y \<Longrightarrow> strtok_by d (f @ y # r) = Some (f, r)"
  by (cases f) (auto simp: strtok_by_def Let_def takeWhile_append dropWhile_append3)

text \<open>Field \<open>k\<close> of a line is returned without its newline, unless it is the only one.\<close>

lemma field_loop_fields:
  assumes "\<forall>f \<in> set fs. f \<noteq> [] \<and> c \<notin> set f \<and> NL \<notin> set f" "k < length fs"
  shows "field_loop (\<lambda>x. x = c \<or> x = NL) (line_of c fs) (int k + 1) = Inr (Some (fs ! k))"
  using assms
proof (induction fs arbitrary: k)
  case (Cons f fs)
  let ?d = "\<lambda>x. x = c \<or> x = NL"
  obtain y r where y: "line_of c (f # fs) = f @ y # r" "?d y" "fs \<noteq> [] \<longrightarrow> r = line_of c fs" by (cases fs) auto
  have t: "strtok_by ?d (f @ y # r) = Some (f, r)" using Cons.prems(1) y(2) by (intro strtok_by_token) auto
  show ?case
  proof (cases k)
    case 0
    then show ?thesis using t by (subst field_loop.simps) (simp add: y(1))
  next
    case (Suc j)
    then have "field_loop ?d r (int j + 1) = Inr (Some (fs ! j))" using Cons.IH[of j] Cons.prems y(3) by (cases fs) auto
    then show ?thesis using t Suc by (subst field_loop.simps) (simp add: y(1) add.commute)
  qed
qed simp

lemma getfield_fields:
  assumes "\<forall>f \<in> set fs. f \<noteq> [] \<and> CHR '','' \<notin> set f \<and> NL \<notin> set f" "k < length fs" "2 \<le> length fs"
  shows "getfield (line_of CHR '','' fs) (int k + 1) = Inr (Some (fs ! k))"
proof -
  obtain f g gs where fs: "fs = f # g # gs" using assms(3) by (cases fs; cases "tl fs") auto
  have t: "strtok_by (\<lambda>x. x = CHR '','') (f @ CHR '','' # line_of CHR '','' (g # gs)) = Some (f, line_of CHR '','' (g # gs))"
    using assms(1) fs by (intro strtok_by_token) auto
  show ?thesis
  proof (cases k)
    case 0
    then show ?thesis using t by (simp add: fs getfield_def field_of_def)
  next
    case (Suc j)
    then show ?thesis using t field_loop_fields[of "g # gs" "CHR '',''" j] assms(1,2)
      by (simp add: fs getfield_def field_of_def add.commute)
  qed
qed

section \<open>Properties\<close>

text \<open>The address of an interface that is known is returned as it is: printing and reading it back changes nothing.\<close>

lemma getIpAddress_known: "ifaddr (take 15 ifname) = Some a \<Longrightarrow> getIpAddress ifaddr ifname = Inr a"
  by (simp add: getIpAddress_def IFNAMSIZ_def inet_ntoa_def inet_addr_def inet_aton_dotted)

lemma getMACAddress_known:
  "length ifname < 16 \<Longrightarrow> hwaddr ifname = Some sa \<Longrightarrow> 6 \<le> length mac \<Longrightarrow> getMACAddress hwaddr ifname mac = Inr (0, take 6 sa @ drop 6 mac)"
  by (simp add: getMACAddress_def IFNAMSIZ_def)

text \<open>The parser of dotted addresses ends on every string, although its counter is a byte and
  may be smaller than the length: it ends with a result or by leaving one of its buffers. On
  every address that the code prints it returns its four bytes.\<close>
theorem extract_ip_correct:
  "(\<exists>r. extractIpAddress src = Some r) \<and> extractIpAddress (dotted a b c d) = Some (Inr [ucast a, ucast b, ucast c, ucast d])"
proof
  have "octets_wf octets_start" by (simp add: octets_wf_def octets_start_def)
  then obtain r where "octet_loop src (of_nat (length src)) 0 octets_start = Some r" using octet_loop_ends by blast
  then show "\<exists>r. extractIpAddress src = Some r" by (cases r) (auto simp: extractIpAddress_def)
next
  let ?t = "dotted a b c d"
  have t: "?t = dec_string (unat a) @ CHR ''.'' # dec_string (unat b) @ CHR ''.'' # dec_string (unat c) @ CHR ''.'' # dec_string (unat d)"
    by (simp add: dotted_all)
  have len: "length ?t < 256" by (simp add: dotted_def)
  let ?L = "of_nat (length ?t) :: u16"
  have s0: "octets_at octets_start [0, 0, 0, 0] 0" by (simp add: octets_at_def octets_start_def)
  define p1 where "p1 = dec_string (unat a) @ [CHR ''.'']"
  define p2 where "p2 = p1 @ dec_string (unat b) @ [CHR ''.'']"
  define p3 where "p3 = p2 @ dec_string (unat c) @ [CHR ''.'']"
  have e: "?t = [] @ dec_string (unat a) @ CHR ''.'' # (dec_string (unat b) @ CHR ''.'' # dec_string (unat c) @ CHR ''.'' # dec_string (unat d))"
    "?t = p1 @ dec_string (unat b) @ CHR ''.'' # (dec_string (unat c) @ CHR ''.'' # dec_string (unat d))"
    "?t = p2 @ dec_string (unat c) @ CHR ''.'' # dec_string (unat d)" "?t = p3 @ dec_string (unat d)" "p1 = [] @ dec_string (unat a) @ [CHR ''.'']"
    by (simp_all add: t p1_def p2_def p3_def)
  have k: "0 < (4 :: nat)" "0 + 1 < (4 :: nat)" "0 + 1 + 1 < (4 :: nat)" "0 + 1 + 1 + 1 < (4 :: nat)" by simp_all
  obtain s1 where s1: "octet_loop ?t ?L (of_nat (length ([] :: string))) octets_start = octet_loop ?t ?L (of_nat (length p1)) s1" "octets_at s1 ([0, 0, 0, 0][0 := a]) (0 + 1)"
    using octet_next[OF e(1,5) len s0] k by blast
  obtain s2 where s2: "octet_loop ?t ?L (of_nat (length p1)) s1 = octet_loop ?t ?L (of_nat (length p2)) s2"
    "octets_at s2 ([0, 0, 0, 0][0 := a, 0 + 1 := b]) (0 + 1 + 1)"
    using octet_next[OF e(2) p2_def len s1(2)] k by blast
  obtain s3 where s3: "octet_loop ?t ?L (of_nat (length p2)) s2 = octet_loop ?t ?L (of_nat (length p3)) s3"
    "octets_at s3 ([0, 0, 0, 0][0 := a, 0 + 1 := b, 0 + 1 + 1 := c]) (0 + 1 + 1 + 1)"
    using octet_next[OF e(3) p3_def len s2(2)] k by blast
  obtain s4 where s4: "octet_loop ?t ?L (of_nat (length p3)) s3 = Some (Inr s4)" "oct s4 = [0, 0, 0, 0][0 := a, 0 + 1 := b, 0 + 1 + 1 := c, 0 + 1 + 1 + 1 := d]"
    using octet_last_part[OF s3(2) k(4) len[unfolded e(4)]] unfolding e(4)[symmetric] by blast
  show "extractIpAddress ?t = Some (Inr [ucast a, ucast b, ucast c, ucast d])"
    using s1(1) s2(1) s3(1) s4 by (simp add: extractIpAddress_def numeral_2_eq_2 numeral_3_eq_3)
qed

end
