(* ===== verification/Network.thy ===== *)
theory Network
  imports Plumbing Worker_File
begin

text \<open>
  The parts of a node together: the tables loaded from the node file and the route file, the
  clock, and the packet functions that look things up in them.
\<close>

section \<open>Loaded tables\<close>

lemma ucast_bytes: "word32_of_bytes (bytes_of32 w ! 0) (bytes_of32 w ! 1) (bytes_of32 w ! 2) (bytes_of32 w ! 3) = w"
  by (simp add: bytes_of32_def numeral_2_eq_2[symmetric] numeral_3_eq_3[symmetric])

lemma dest_queue_loaded:
  assumes "mg_look (ip_table net) key = Some (bytes_of32 (of_nat n))" "n < 2 ^ 31"
  shows "dest_queue net key = Some (int n - 1)"
proof -
  have "sint (of_nat n :: u32) = int n" using assms(2) by (simp add: sint_uint signed_take_bit_int_eq_self unsigned_of_nat take_bit_nat_eq_self)
  moreover have "length (bytes_of32 (of_nat n)) = 4" by (simp add: bytes_of32_def)
  ultimately show ?thesis using assms by (simp add: dest_queue_def ucast_bytes[unfolded One_nat_def] Let_def)
qed

lemma next_mac_loaded:
  assumes "next_mac_index net i = Inr (int k)" "mg_look (mac_table net) (of_nat k) = Some (mac @ [0])" "length mac = 6"
  shows "next_mac net i = Some mac"
  using assms by (simp add: next_mac_def)

lemma network_host_bytes: "network_host (word32_of_bytes a b c d) = word32_of_bytes a b c 1"
  by (simp add: network_host_def)

section \<open>Properties\<close>

text \<open>Property C15: a file of node lines is loaded into the tables if every hardware address in it has only
  three numbers (zeros stand for the others); the first full address ends the program's defined
  behaviour, since it is stored outside an array of six bytes. A node whose tables hold the
  nodes, however they got there, and which has loaded a route file and read its clock, sends a
  packet for an address of node \<open>d\<close>'s network to queue \<open>d\<close>, and the next hop of that queue is
  the hardware address stored for the node which the route file names for destination \<open>d\<close> in the
  current slot.\<close>
theorem configured_node_routes:
  assumes l: "calloc_ok l" "grants (lheap l) (11 * 32)" "grants (lheap l) (8 * 32)" "mdat ip0 = None" "mdat mac0 = None"
    and ws: "length ws \<le> 32" "\<forall>w \<in> set ws. worker_ok w" "distinct (map worker_key ws)"
    and rows: "length rows = 32" "\<forall>vs \<in> set rows. length vs = 32 \<and> (\<forall>v \<in> set vs. v < 2 ^ 31)"
    and d: "d < length ws" "ws ! d = (cs, hw, (a, b, c, 1))"
    and hop: "hop = rows ! d ! (slot_of (unat (get_nsec ts)) - 1)" "0 < hop" "hop \<le> length ws"
    and time: "read_time (Some ts) s = Inr s'"
  shows "(if \<forall>w \<in> set ws. short_mac w
      then \<exists>ip mac. load_workers l (Some (concat (map worker_text ws))) (Some ip0, Some mac0) = Inr (Some ip, Some mac) \<and> tables_hold ws ip mac
      else load_workers l (Some (concat (map worker_text ws))) (Some ip0, Some mac0) = Inl Out_Of_Bounds) \<and>
    (\<exists>m. load_routes True True (Some (routes_text rows)) = Inr (Some m) \<and>
      (\<forall>net ip mac x. tables_hold ws ip mac \<and> ip_table net = ip \<and> mac_table net = mac \<and> route_table net = Some m \<and>
          topo net = topo_num s' \<longrightarrow>
        dest_queue net (network_host (word32_of_bytes a b c x)) = Some (int d) \<and>
        next_mac net (int d) = Some (stored_mac (fst (snd (ws ! (hop - 1)))))))"
proof -
  obtain m where m: "load_routes True True (Some (routes_text rows)) = Inr (Some m)" "matrix_wf m" "mrows m = 32" "mcols m = 32"
    "\<forall>r c. 0 < r \<longrightarrow> r \<le> 32 \<longrightarrow> 0 < c \<longrightarrow> c \<le> 32 \<longrightarrow> cell m r c = Some (int (rows ! nat (r - 1) ! nat (c - 1)))"
    using route_file_roundtrip[OF rows] by blast
  have key: "worker_key (ws ! d) = word32_of_bytes a b c 1" using d(2) by (simp add: worker_key_def)
  have ok: "length (stored_mac (fst (snd (ws ! i)))) = 6" if "i < length ws" for i
    using ws(2) that nth_mem[OF that] stored_mac_length[of "fst (snd (ws ! i))"] by (fastforce simp: worker_ok_def)
  have "dest_queue net (network_host (word32_of_bytes a b c x)) = Some (int d) \<and> next_mac net (int d) = Some (stored_mac (fst (snd (ws ! (hop - 1)))))"
    if t: "tables_hold ws ip mac" and n: "ip_table net = ip" "mac_table net = mac" "route_table net = Some m" "topo net = topo_num s'"
    for net ip mac x
  proof
    have "mg_look ip (worker_key (ws ! d)) = Some (bytes_of32 (of_nat (d + 1)))" using t d(1) unfolding tables_hold_def by blast
    then show "dest_queue net (network_host (word32_of_bytes a b c x)) = Some (int d)"
      using dest_queue_loaded[of net "word32_of_bytes a b c 1" "d + 1"] n(1) d(1) ws(1) key by (simp add: network_host_bytes)
    have "next_mac_index (net\<lparr>topo := topo_num s'\<rparr>) (int d) = Inr (int (rows ! nat (int d + 1 - 1) ! nat (int (slot_of (unat (get_nsec ts))) - 1)))"
      using slot_selects_route[OF m(2-5) n(3) time, of "int d"] d(1) ws(1) by simp
    moreover have "net\<lparr>topo := topo_num s'\<rparr> = net" using n(4) by (cases net) simp
    moreover have "nat (int k - 1) = k - 1" for k by simp
    ultimately have "next_mac_index net (int d) = Inr (int hop)" using hop(1) by simp
    moreover have "hop - 1 < length ws" "hop - 1 + 1 = hop" using hop(2,3) by simp_all
    then have "mg_look mac (of_nat hop) = Some (stored_mac (fst (snd (ws ! (hop - 1)))) @ [0])" using t unfolding tables_hold_def by metis
    then have "mg_look (mac_table net) (of_nat hop) = Some (stored_mac (fst (snd (ws ! (hop - 1)))) @ [0])" using n(2) by simp
    ultimately show "next_mac net (int d) = Some (stored_mac (fst (snd (ws ! (hop - 1)))))" using next_mac_loaded ok[of "hop - 1"] hop(2,3) by simp
  qed
  with load_workers_correct[OF l ws] m(1) show ?thesis by blast
qed

theorem configured_node_routes_witness:
  "\<exists>ip mac m. load_workers sample_loader (Some (worker_text sample_worker)) (Some \<lparr>mcount = 0, node_size = 0, mdat = None\<rparr>, Some \<lparr>mcount = 0, node_size = 0, mdat = None\<rparr>) =
      Inr (Some ip, Some mac) \<and> load_routes True True (Some (routes_text (replicate 32 (replicate 32 1)))) = Inr (Some m) \<and>
    (\<forall>net. ip_table net = ip \<and> mac_table net = mac \<and> route_table net = Some m \<and> topo net = topo_at (1, 0) \<longrightarrow>
      dest_queue net (network_host (word32_of_bytes 10 1 2 99)) = Some 0 \<and> next_mac net 0 = Some [1, 2, 3, 0, 0, 0])"
proof -
  let ?m = "\<lparr>mcount = 0, node_size = 0, mdat = None\<rparr> :: mg_Map"
  obtain s' where s': "read_time (Some (1, 0)) sample_topo = Inr s'" "topo_num s' = topo_at (1, 0)"
  proof -
    have "slot_at (1, 0) \<noteq> 0" using slot_of_range(1)[of "unat (get_nsec (1, 0))"] by (simp add: slot_at_def)
    then show thesis using that by (simp add: read_time_run sample_topo_def TOPO_LOG_SIZE_def Let_def)
  qed
  have "slot_of (unat (get_nsec (1, 0))) - 1 < 32" using slot_of_range[of "unat (get_nsec (1, 0))"] by simp
  then have h: "(1 :: nat) = replicate 32 (replicate 32 1) ! 0 ! (slot_of (unat (get_nsec (1, 0))) - 1)" by simp
  have l: "calloc_ok sample_loader" "grants (lheap sample_loader) (11 * 32)" "grants (lheap sample_loader) (8 * 32)"
    by (simp_all add: sample_loader_def)
  have w: "[sample_worker] ! 0 = (replicate 6 ''x'', [1, 2, 3], (10, 1, 2, 1))" by (simp add: sample_worker_def)
  have sm: "stored_mac [1, 2, 3] = [1, 2, 3, 0, 0, 0]" by (simp add: stored_mac_def)
  have short: "\<forall>w \<in> set [sample_worker]. short_mac w" using sample_worker_ok(3) by simp
  note R = configured_node_routes[OF l, of ?m ?m "[sample_worker]" "replicate 32 (replicate 32 1)" 0, OF _ _ _ _ _ _ _ _ w h _ _ s'(1),
      unfolded if_P[OF short]]
  show ?thesis using R sample_worker_ok(1) s'(2) by (fastforce simp: w[simplified] sm)
qed

end
