(* ===== verification/Cache_Race.thy ===== *)
theory Cache_Race
  imports Setup
begin

text \<open>
  The caches of packet buffers under concurrent use. In \<open>opera-v2/mempool.h\<close> only the pool has a
  mutex; \<open>bcache_prod\<close> is modelled here one memory access at a time, so that two threads that
  put buffers into one cache can be interleaved. In the theory of the pool the operation is a
  single step.
\<close>

section \<open>Putting a buffer back, step by step\<close>

datatype prod_pc = Prod_Load u64 | Prod_Test u64 u64 | Prod_Count u64 | Prod_Trade u64 | Prod_First u64 nat | Prod_Slab nat | Prod_One | Prod_Done

text \<open>The section under the mutex is one step.\<close>

fun prod_instr :: "prod_pc \<Rightarrow> bpool \<times> bcache \<Rightarrow> (prod_pc \<times> bpool \<times> bcache) res" where
  "prod_instr (Prod_Load b) (bp, c) = Inr (Prod_Test b (n_buffers_prod c), bp, c)"
| "prod_instr (Prod_Test b n) (bp, c) = (if n < per_slab bp then
     rbind (arr_set (buffers bp) (slab_prod c + unat n) b) (\<lambda>bs. Inr (Prod_Count n, bp\<lparr>buffers := bs\<rparr>, c))
   else Inr (Prod_Trade b, bp, c))"
| "prod_instr (Prod_Count n) (bp, c) = Inr (Prod_Done, bp, c\<lparr>n_buffers_prod := n + 1\<rparr>)"
| "prod_instr (Prod_Trade b) (bp, c) =
     rbind (arr_get (slabs bp) (unat (n_slabs_available bp))) (\<lambda>slab_empty.
     rbind (arr_set (slabs bp) (unat (n_slabs_available bp)) (slab_prod c)) (\<lambda>ss.
     Inr (Prod_First b slab_empty, bp\<lparr>slabs := ss, n_slabs_available := n_slabs_available bp + 1\<rparr>, c)))"
| "prod_instr (Prod_First b slab_empty) (bp, c) =
     rbind (arr_set (buffers bp) slab_empty b) (\<lambda>bs. Inr (Prod_Slab slab_empty, bp\<lparr>buffers := bs\<rparr>, c))"
| "prod_instr (Prod_Slab slab_empty) (bp, c) = Inr (Prod_One, bp, c\<lparr>slab_prod := slab_empty\<rparr>)"
| "prod_instr Prod_One (bp, c) = Inr (Prod_Done, bp, c\<lparr>n_buffers_prod := 1\<rparr>)"
| "prod_instr Prod_Done (bp, c) = Inr (Prod_Done, bp, c)"

fun prod_steps :: "nat \<Rightarrow> prod_pc \<Rightarrow> bpool \<times> bcache \<Rightarrow> (prod_pc \<times> bpool \<times> bcache) res" where
  "prod_steps 0 pc s = Inr (pc, s)"
| "prod_steps (Suc k) pc s = rbind (prod_instr pc s) (\<lambda>(pc', s'). prod_steps k pc' s')"

text \<open>A thread that is not disturbed performs the operation of the pool's theory.\<close>

lemma prod_alone: "prod_steps 6 (Prod_Load b) (bp, c) = rbind (bcache_prod bp c b) (\<lambda>s. Inr (Prod_Done, s))"
  by (cases bp; cases c) (auto simp: eval_nat_numeral bcache_prod_def rbind_assoc arr_get_def arr_set_def)

section \<open>Two threads\<close>

text \<open>A schedule says for each step whether the second thread makes it.\<close>

fun run_two :: "bool list \<Rightarrow> prod_pc \<times> prod_pc \<times> bpool \<times> bcache \<Rightarrow> (prod_pc \<times> prod_pc \<times> bpool \<times> bcache) res" where
  "run_two [] s = Inr s"
| "run_two (b # bs) (p, q, s) =
     (if b then rbind (prod_instr q s) (\<lambda>(q', s'). run_two bs (p, q', s'))
      else rbind (prod_instr p s) (\<lambda>(p', s'). run_two bs (p', q, s')))"

text \<open>The buffers in the slab that is being filled.\<close>

definition filling :: "bpool \<Rightarrow> bcache \<Rightarrow> u64 list" where
  "filling bp c = take (unat (n_buffers_prod c)) (drop (slab_prod c) (buffers bp))"

lemma filling_snoc:
  assumes "slab_prod c + unat n < length (buffers bp)" "unat n < 2 ^ 63"
  shows "filling (bp\<lparr>buffers := (buffers bp)[slab_prod c + unat n := b]\<rparr>) (c\<lparr>n_buffers_prod := n + 1\<rparr>) =
    take (unat n) (drop (slab_prod c) (buffers bp)) @ [b]"
proof -
  have u: "unat (n + 1) = Suc (unat n)" using unat_add_below[of n 1] assms(2) by simp
  have "drop (slab_prod c) ((buffers bp)[slab_prod c + unat n := b]) = (drop (slab_prod c) (buffers bp))[unat n := b]"
    using assms(1) by (simp add: drop_update_swap)
  then show ?thesis using assms(1) by (simp add: filling_def u take_Suc_conv_app_nth)
qed

section \<open>Property\<close>

text \<open>Property C32: the thread that receives on a network port and the thread that sends on it share the
  port's buffer cache. When both put a buffer into it one after the other, both are kept; in an
  interleaving of their memory accesses the buffer of one overwrites that of the other, which
  is then in no slab.\<close>
theorem shared_cache_loses_buffer:
  assumes "0 < n" "0 \<le> v" "v + n \<le> 12" "assign_threads n v = Inr ts" "0 \<le> i" "i < n"
    and "k = unat (n_buffers_prod c)" "k + 1 < unat (per_slab bp)" "slab_prod c + k + 1 < length (buffers bp)"
  shows "ports_tx (ts ! nat i) ! 0 = Some (nat i) \<and> ports_rx (ts ! nat (n + i)) ! 0 = Some (nat i) \<and>
    (\<exists>bp' c'. run_two [False, False, False, True, True, True] (Prod_Load b1, Prod_Load b2, bp, c) = Inr (Prod_Done, Prod_Done, bp', c') \<and>
      filling bp' c' = filling bp c @ [b1, b2]) \<and>
    (\<exists>bp' c'. run_two [False, True, False, False, True, True] (Prod_Load b1, Prod_Load b2, bp, c) = Inr (Prod_Done, Prod_Done, bp', c') \<and>
      filling bp' c' = filling bp c @ [b2] \<and> n_slabs_available bp' = n_slabs_available bp)"
proof -
  let ?n = "n_buffers_prod c" and ?a = "slab_prod c"
  have u: "unat (?n + 1) = k + 1"
    using unat_add_below[of ?n 1] assms(7,8) unat_below[of "per_slab bp"] by simp
  have "unat (per_slab bp) = unat (n_buffers_per_slab (params bp))" by simp
  then have small: "unat (per_slab bp) < 2 ^ 32" using unat_below[of "n_buffers_per_slab (params bp)"] by simp
  have k: "unat ?n = k" "k + 1 < 2 ^ 63" "?n < per_slab bp" "?n + 1 < per_slab bp"
    using assms(7,8) u small by (simp_all add: word_less_nat_alt)
  have t: "ts = all_threads n v" using assign_threads_run[OF assms(1-3)] assms(4) by simp
  have shared: "ports_tx (ts ! nat i) ! 0 = Some (nat i)" "ports_rx (ts ! nat (n + i)) ! 0 = Some (nat i)"
    using assms(1-3,5,6) by (simp_all add: t all_threads_def MAX_THREADS_def tx_data_def rx_data_def)
  define bs1 where "bs1 = (buffers bp)[?a + k := b1]"
  have l: "?a + unat ?n < length (buffers bp)" "?a + unat (?n + 1) < length bs1" "?a + unat ?n < length bs1"
    using assms(9) k(1) u by (simp_all add: bs1_def)
  define bpA where "bpA = bp\<lparr>buffers := bs1[?a + unat (?n + 1) := b2]\<rparr>"
  define bpB where "bpB = bp\<lparr>buffers := (buffers bp)[?a + k := b2]\<rparr>"
  have A: "run_two [False, False, False, True, True, True] (Prod_Load b1, Prod_Load b2, bp, c) =
      Inr (Prod_Done, Prod_Done, bpA, c\<lparr>n_buffers_prod := ?n + 1 + 1\<rparr>)"
    using k l u by (simp add: bpA_def bs1_def)
  have B: "run_two [False, True, False, False, True, True] (Prod_Load b1, Prod_Load b2, bp, c) =
      Inr (Prod_Done, Prod_Done, bpB, c\<lparr>n_buffers_prod := ?n + 1\<rparr>)"
    using k l by (simp add: bpB_def)
  have fB: "filling bpB (c\<lparr>n_buffers_prod := ?n + 1\<rparr>) = filling bp c @ [b2]"
    using filling_snoc[of c ?n bp b2] l(1) k by (simp add: bpB_def filling_def)
  have f1: "filling (bp\<lparr>buffers := bs1\<rparr>) (c\<lparr>n_buffers_prod := ?n + 1\<rparr>) = filling bp c @ [b1]"
    using filling_snoc[of c ?n bp b1] l(1) k by (simp add: bs1_def filling_def)
  have "filling bpA (c\<lparr>n_buffers_prod := ?n + 1 + 1\<rparr>) = filling (bp\<lparr>buffers := bs1\<rparr>) (c\<lparr>n_buffers_prod := ?n + 1\<rparr>) @ [b2]"
    using filling_snoc[of "c\<lparr>n_buffers_prod := ?n + 1\<rparr>" "?n + 1" "bp\<lparr>buffers := bs1\<rparr>" b2] l(2) k u by (simp add: bpA_def filling_def)
  then have fA: "filling bpA (c\<lparr>n_buffers_prod := ?n + 1 + 1\<rparr>) = filling bp c @ [b1, b2]" using f1 by simp
  show ?thesis using shared A B fA fB by (auto simp: bpB_def)
qed

theorem shared_cache_loses_buffer_witness:
  "\<exists>bp' c'. run_two [False, True, False, False, True, True] (Prod_Load 8, Prod_Load 9, sample_pool\<lparr>params := bpool_params_default\<rparr>,
      \<lparr>slab_cons = 0, slab_prod = 0, n_buffers_cons = 0, n_buffers_prod = 0\<rparr>) = Inr (Prod_Done, Prod_Done, bp', c') \<and>
    filling bp' c' = [9]"
proof -
  let ?c = "\<lparr>slab_cons = 0, slab_prod = 0, n_buffers_cons = 0, n_buffers_prod = 0\<rparr> :: bcache"
  let ?p = "sample_pool\<lparr>params := bpool_params_default\<rparr>"
  have f: "filling ?p ?c = []" by (simp add: filling_def)
  have b: "0 = unat (n_buffers_prod ?c)" "0 + 1 < unat (per_slab ?p)" "slab_prod ?c + 0 + 1 < length (buffers ?p)"
    by (simp_all add: bpool_params_default_def) (simp add: sample_pool_def)
  have a: "assign_threads 1 0 = Inr (all_threads 1 0)" by (rule assign_threads_run) simp_all
  show ?thesis
    using shared_cache_loses_buffer[OF _ _ _ a _ _ b, of 0 8 9] unfolding f by (simp del: run_two.simps) blast
qed

end
