(* ===== verification/Main_Program.thy ===== *)
theory Main_Program
  imports Network Buffers Common_Funcs
begin

text \<open>
  The main program of \<open>opera-v2/emu_nic.c\<close>: the setup in the order of \<open>main\<close>, the start of the
  threads, the loop that reads the clock, and the shutdown. Everything the system answers is a
  parameter, collected in a record; a setup that gives up returns the exit status.
\<close>

section \<open>Arguments\<close>

definition atoi :: "string \<Rightarrow> int res" where
  "atoi s = rbind (strtol (map Some s @ [Some NUL])) (\<lambda>(v, _). Inr (sint (word_of_int v :: u32)))"

text \<open>
  The environment: the list of \<open>getifaddrs\<close>, if it succeeds, the kernel's answers for programs,
  pool, ports and sockets, the descriptor of a clock device, the addresses of interfaces, the
  files, and memory.
\<close>

record main_env =
  if_addrs :: "ifaddr list option"
  bpf_sys :: bpf_env
  pool_sys :: bpool_env
  port_sys :: "int \<Rightarrow> port_env"
  sock_fd :: "int \<Rightarrow> nat"
  clock_fd :: "string \<Rightarrow> int"
  if_hwaddr :: "string \<Rightarrow> u8 list option"
  if_ipaddr :: "string \<Rightarrow> u32 option"
  files :: "string \<Rightarrow> string option"
  table_sys :: loader
  matrix_struct_ok :: bool
  matrix_data_ok :: bool
  mem_sys :: sys_mem

record main_args =
  nic_iface :: "string option"
  route_filename :: string
  ptp_clock_name :: string
  running_time :: int
  num_of_nses :: int
  n_nic_ports :: int

text \<open>A step of \<open>main\<close> gives the exit status or a value to go on with.\<close>

type_synonym 'a status = "(int + 'a) res"

definition sbind :: "'a status \<Rightarrow> ('a \<Rightarrow> 'b status) \<Rightarrow> 'b status" where
  "sbind r f = rbind r (\<lambda>x. case x of Inl code \<Rightarrow> Inr (Inl code) | Inr a \<Rightarrow> f a)"

definition EXIT_FAILURE :: int where "EXIT_FAILURE = 1"
definition WORKER_INFO_CSV :: string where "WORKER_INFO_CSV = ''/tmp/all_worker_info.csv''"

definition parse_args :: "main_env \<Rightarrow> string list \<Rightarrow> main_args status" where
  "parse_args env argv =
     (if length argv \<noteq> 7 then Inr (Inl EXIT_FAILURE)
      else (case inet_aton (argv ! 1) of None \<Rightarrow> Inr (Inl EXIT_FAILURE)
      | Some addr \<Rightarrow> (case if_addrs env of None \<Rightarrow> Inr (Inl EXIT_FAILURE)
      | Some ifs \<Rightarrow>
          rbind (atoi (argv ! 4)) (\<lambda>secs. rbind (atoi (argv ! 5)) (\<lambda>v. rbind (atoi (argv ! 6)) (\<lambda>n.
          Inr (Inr \<lparr>nic_iface = find_interface ifs addr None, route_filename = argv ! 2,
            ptp_clock_name = argv ! 3, running_time = secs, num_of_nses = v, n_nic_ports = n\<rparr>)))))))"

section \<open>Ports, programs and sockets\<close>

text \<open>A port is created for an interface by name; the library reads the name.\<close>

fun port_list :: "main_env \<Rightarrow> port_slot list \<Rightarrow> int \<Rightarrow> nat \<Rightarrow> (port_env \<times> port_params) list res" where
  "port_list env slots i 0 = Inr []"
| "port_list env slots i (Suc k) = rbind (idx_get slots i) (\<lambda>s. case slot_iface s of None \<Rightarrow> Inl Null_Deref
     | Some nm \<Rightarrow> rbind (port_list env slots (i + 1) k) (\<lambda>es.
         Inr ((port_sys env i, \<lparr>iface = nm, iface_queue = slot_queue s, ns_index = 0\<rparr>) # es)))"

definition port_socks :: "main_env \<Rightarrow> int \<Rightarrow> socks" where
  "port_socks env k = map (\<lambda>i. if int i < k then Some (sock_fd env (int i)) else None) [0..<MAX_PORTS]"

definition thread_count :: "int \<Rightarrow> int \<Rightarrow> int res" where
  "thread_count n v = rbind (c_int (n * 2)) (\<lambda>a. rbind (c_int (v * 2)) (\<lambda>b. c_int (a + b)))"

record port_setup =
  ps_slots :: "port_slot list"
  ps_cores :: "u32 list"
  ps_bpf :: bpf_state
  ps_sys :: psys

definition create_ports :: "main_env \<Rightarrow> main_args \<Rightarrow> bpf_state \<Rightarrow> port_setup status" where
  "create_ports env a b0 = (let n = n_nic_ports a; v = num_of_nses a in
     rbind (c_int (v + n)) (\<lambda>n_ports.
     rbind (default_ports n_ports (replicate MAX_PORTS port_params_default)) (\<lambda>ps1.
     rbind (load_xdp_program (bpf_sys env) (nic_iface a) n v b0) (\<lambda>b1.
     rbind (name_ports (nic_iface a) n v ps1) (\<lambda>slots.
     rbind (thread_count n v) (\<lambda>n_threads.
     rbind (assign_cores n_threads) (\<lambda>cores.
     rbind (port_list env slots 0 (nat n_ports)) (\<lambda>es.
     rbind (start_system (pool_sys env) bpool_params_default umem_cfg_default es) (\<lambda>s. case s of
         None \<Rightarrow> Inr (Inl (-1))
       | Some s0 \<Rightarrow> rbind (install_sockets (bpf_sys env) (port_socks env n_ports) n n_ports b1) (\<lambda>b2.
           Inr (Inr \<lparr>ps_slots = slots, ps_cores = cores, ps_bpf = b2, ps_sys = s0\<rparr>)))))))))))"

section \<open>Addresses, tables and queues\<close>

definition empty_table :: mg_Map where
  "empty_table = \<lparr>mcount = 0, node_size = 0, mdat = None\<rparr>"

record node_info =
  ni_clkid :: u32
  ni_eth_src :: "u8 list"
  ni_src_ip :: u32
  ni_ip_table :: "mg_Map option"
  ni_mac_table :: "mg_Map option"
  ni_route_table :: "route_matrix option"

definition load_tables :: "main_env \<Rightarrow> main_args \<Rightarrow> node_info res" where
  "load_tables env a = (case nic_iface a of None \<Rightarrow> Inl Null_Deref
     | Some nm \<Rightarrow>
         rbind (getMACAddress (if_hwaddr env) nm (replicate 6 0)) (\<lambda>(_, mac).
         rbind (getIpAddress (if_ipaddr env) nm) (\<lambda>ip.
         rbind (load_workers (table_sys env) (files env WORKER_INFO_CSV) (Some empty_table, Some empty_table)) (\<lambda>(ipt, mact).
         rbind (load_routes (matrix_struct_ok env) (matrix_data_ok env) (files env (route_filename a))) (\<lambda>rt.
         Inr \<lparr>ni_clkid = get_nic_clock_id (clock_fd env (ptp_clock_name a)), ni_eth_src = mac, ni_src_ip = ip,
           ni_ip_table = ipt, ni_mac_table = mact, ni_route_table = rt\<rparr>)))))"

type_synonym queue_array = "burst_tx mpmc_queue option list"

definition make_queues :: "main_env \<Rightarrow> int \<Rightarrow> (queue_array \<times> queue_array \<times> queue_array) res" where
  "make_queues env v = (let mem = memtype_heap (mem_sys env) in
     rbind (init_queues mem NUM_OF_PER_DEST_QUEUES) (\<lambda>ls.
     rbind (init_queues mem NUM_OF_PER_DEST_QUEUES) (\<lambda>ns.
     guard_res Out_Of_Bounds (v \<le> int VETH_QUEUES) (
     rbind (init_queues mem (nat v)) (\<lambda>vs. Inr (ls, ns, vs))))))"

section \<open>The setup\<close>

record node =
  nd_args :: main_args
  nd_ports :: port_setup
  nd_info :: node_info
  nd_local :: queue_array
  nd_non_local :: queue_array
  nd_veth :: queue_array
  nd_threads :: "thread_data list"

definition emu_setup :: "main_env \<Rightarrow> string list \<Rightarrow> bpf_state \<Rightarrow> node status" where
  "emu_setup env argv b0 = sbind (parse_args env argv) (\<lambda>a. sbind (create_ports env a b0) (\<lambda>p.
     rbind (load_tables env a) (\<lambda>info.
     rbind (make_queues env (num_of_nses a)) (\<lambda>(ls, ns, vs).
     rbind (assign_threads (n_nic_ports a) (num_of_nses a)) (\<lambda>ts.
     Inr (Inr \<lparr>nd_args = a, nd_ports = p, nd_info = info, nd_local = ls, nd_non_local = ns, nd_veth = vs, nd_threads = ts\<rparr>))))))"

section \<open>Starting the threads\<close>

datatype thread_func = thread_func_veth_to_nic_tx | thread_func_nic | thread_func_veth | thread_func_nic_to_veth_tx

definition start_range :: "thread_func \<Rightarrow> int \<Rightarrow> int \<Rightarrow> thread_func option list \<Rightarrow> thread_func option list res" where
  "start_range f lo hi = for_range lo hi (\<lambda>i ts. idx_set ts i (Some f))"

definition start_threads :: "int \<Rightarrow> int \<Rightarrow> thread_func option list res" where
  "start_threads n v = (let total = n * 2 in
     rbind (start_range thread_func_veth_to_nic_tx 0 n (replicate MAX_THREADS None)) (\<lambda>t1.
     rbind (start_range thread_func_nic n total t1) (\<lambda>t2.
     rbind (start_range thread_func_veth total (total + v) t2) (\<lambda>t3.
     start_range thread_func_nic_to_veth_tx (total + v) (total + v + v) t3))))"

section \<open>The main loop\<close>

text \<open>
  The loop reads the clock until the time is over: the answers of \<open>time\<close> and of the clock before
  each turn. \<open>None\<close> is a loop that is still running after all of them.
\<close>

fun main_loop :: "int \<Rightarrow> int \<Rightarrow> (int \<times> timespec option) list \<Rightarrow> topo_state \<Rightarrow> topo_state res option" where
  "main_loop secs start [] s = None"
| "main_loop secs start ((t, clock) # xs) s =
     (if t - start < secs then (case read_time clock s of Inl e \<Rightarrow> Some (Inl e) | Inr s' \<Rightarrow> main_loop secs start xs s')
      else Some (Inr s))"

section \<open>The shutdown\<close>

text \<open>A queue whose memory was refused has a \<open>NULL\<close> buffer, which is released without effect.\<close>

definition destroy_queue :: "memtype \<Rightarrow> burst_tx mpmc_queue option \<Rightarrow> int res" where
  "destroy_queue mem q = (case q of None \<Rightarrow> memory_free mem (MAX_BURST_TX_OBJS * 8) | Some q \<Rightarrow> mpmc_queue_destroy q)"

fun destroy_queues :: "memtype \<Rightarrow> queue_array \<Rightarrow> int list res" where
  "destroy_queues mem [] = Inr []"
| "destroy_queues mem (q # qs) = rbind (destroy_queue mem q) (\<lambda>r. rbind (destroy_queues mem qs) (\<lambda>rs. Inr (r # rs)))"

definition free_ports :: "bpool \<Rightarrow> port list \<Rightarrow> bpool" where
  "free_ports bp ports = fold (\<lambda>p b. port_free b (Some (Some (bc p)))) ports bp"

record down =
  dn_pool :: bpool
  dn_unmapped :: "u64 option"
  dn_bpf :: bpf_state
  dn_tables :: "mg_Map option \<times> mg_Map option"
  dn_queues :: "int list"

text \<open>The two kinds of destination queues are destroyed in turn; the results are only printed.\<close>

definition emu_shutdown :: "main_env \<Rightarrow> node \<Rightarrow> (int \<times> down) res" where
  "emu_shutdown env nd = (let a = nd_args nd; p = nd_ports nd; n = n_nic_ports a; v = num_of_nses a;
       bp = free_ports (spool (ps_sys p)) (map kp (kports (ps_sys p))); mem = memtype_heap (mem_sys env) in
     rbind (remove_xdp_program_nic (bpf_sys env) (nic_iface a) (ps_bpf p)) (\<lambda>b1.
     rbind (remove_xdp_program_veth (bpf_sys env) (ps_slots p) n (v + n) b1) (\<lambda>b2.
     rbind (deleteRouteMatrix (ni_route_table (nd_info nd))) (\<lambda>_.
     rbind (mg_map_cleanup False (ni_ip_table (nd_info nd))) (\<lambda>(_, _, ipt).
     rbind (mg_map_cleanup False (ni_mac_table (nd_info nd))) (\<lambda>(_, _, mact).
     rbind (destroy_queues mem (nd_veth nd)) (\<lambda>rs1.
     rbind (destroy_queues mem (concat (map (\<lambda>(l, n). [l, n]) (zip (nd_local nd) (nd_non_local nd))))) (\<lambda>rs2.
     Inr (0, \<lparr>dn_pool = bp, dn_unmapped = bpool_free (Some bp), dn_bpf = b2, dn_tables = (ipt, mact), dn_queues = rs1 @ rs2\<rparr>)))))))))"

section \<open>The parts of the setup\<close>

lemma sbind_simps [simp]: "sbind (Inr (Inr x)) f = f x" "sbind (Inr (Inl e)) f = Inr (Inl e)" "sbind (Inl x0) f = Inl x0"
  by (simp_all add: sbind_def)

lemma atoi_dec: "n < 2 ^ 31 \<Longrightarrow> atoi (dec_string n) = Inr (int n)"
proof -
  assume n: "n < 2 ^ 31"
  have "\<not> isdigit NUL" by (simp add: isdigit_def NUL_def)
  from strtol_dec[OF this n] have "strtol (map Some (dec_string n) @ [Some NUL]) = Inr (int n, length (dec_string n))" by simp
  moreover have "sint (word_of_int (int n) :: u32) = int n"
    using n by (simp add: sint_uint signed_take_bit_int_eq_self unsigned_of_nat take_bit_nat_eq_self)
  ultimately show ?thesis by (simp add: atoi_def)
qed

lemma port_list_run:
  assumes "\<And>j. j < k \<Longrightarrow> i + j < length slots \<and> slots ! (i + j) = slot_for (Some nm) n (int (i + j))"
  shows "\<exists>es. port_list env slots (int i) k = Inr es \<and> length es = k \<and> (\<forall>e \<in> set es. \<exists>j. fst e = port_sys env j)"
  using assms
proof (induction k arbitrary: i)
  case (Suc k)
  have s: "i < length slots" "slots ! i = slot_for (Some nm) n (int i)" using Suc.prems[of 0] by simp_all
  obtain x where x: "slot_iface (slot_for (Some nm) n (int i)) = Some x" by (cases "int i < n") (auto simp: slot_for_def)
  have "\<exists>es. port_list env slots (int (Suc i)) k = Inr es \<and> length es = k \<and> (\<forall>e \<in> set es. \<exists>j. fst e = port_sys env j)"
    by (rule Suc.IH) (use Suc.prems[of "Suc _"] in simp)
  then show ?case using s x by (auto simp: add.commute)
qed simp

lemma thread_count_run: "0 \<le> n \<Longrightarrow> 0 \<le> v \<Longrightarrow> v + n \<le> 12 \<Longrightarrow> thread_count n v = Inr (n * 2 + v * 2)"
  by (simp add: thread_count_def c_int_def)

lemma init_queues_run:
  assumes "malloc_grants s (16 * 4096)"
  shows "\<exists>qs. init_queues (memtype_heap s) k = Inr qs \<and> length qs = k \<and>
    (\<forall>q \<in> set qs. \<exists>q'. q = Some q' \<and> q_inv q' \<and> q_content q' = [] \<and> length (buffer q') = 4096 \<and> qmem q' = memtype_heap s)"
proof (induction k)
  case (Suc k)
  have p: "(2 ^ 12 :: u64) = 4096" by simp
  obtain q :: "burst_tx mpmc_queue" where "mpmc_queue_init MAX_BURST_TX_OBJS (memtype_heap s) = Inr (0, Some q)" "q_inv q" "q_content q = []"
    "length (buffer q) = 4096" "qmem q = memtype_heap s"
    using mpmc_init_correct[of 12 s] assms unfolding p by (auto simp: MAX_BURST_TX_OBJS_def)
  with Suc.IH show ?case by auto
qed simp

text \<open>The pool with its 32 slabs of 4096 buffers has room for 12 ports.\<close>

definition node_sizes :: ring_sizes where
  "node_sizes = \<lparr>rx_bits = 11, tx_bits = 11, fq_bits = 12, cq_bits = 11\<rparr>"

lemma node_setup:
  assumes "all_ok env" "length es \<le> 12" "\<forall>e \<in> set es. env_ok node_sizes (fst e)"
  shows "good_setup node_sizes env bpool_params_default umem_cfg_default es 32"
  using assms by (simp add: good_setup_def node_sizes_def bpool_params_default_def umem_cfg_default_def MAX_BURST_RX_def MAX_BURST_TX_def)

text \<open>The kernel grants programs, maps, memory and sockets with empty rings.\<close>

definition ports_env_ok :: "main_env \<Rightarrow> string \<Rightarrow> int \<Rightarrow> int \<Rightarrow> u32 \<Rightarrow> (int \<Rightarrow> u32) \<Rightarrow> bool" where
  "ports_env_ok env nm n v m0 mv \<longleftrightarrow> load_ok (bpf_sys env) nm n v \<and> maps_ok (bpf_sys env) n v m0 mv \<and>
     all_ok (pool_sys env) \<and> (\<forall>i. env_ok node_sizes (port_sys env i))"

definition no_programs :: "bpf_state \<Rightarrow> bool" where
  "no_programs b \<longleftrightarrow> length (xdp_prog b) = 26 \<and> attached b = (\<lambda>_. []) \<and> xskmaps b = (\<lambda>_. Map.empty)"

definition args_ok :: "main_args \<Rightarrow> string \<Rightarrow> int \<Rightarrow> int \<Rightarrow> bool" where
  "args_ok a nm n v \<longleftrightarrow> nic_iface a = Some nm \<and> n_nic_ports a = n \<and> num_of_nses a = v \<and>
     0 < n \<and> 0 \<le> v \<and> v \<le> 8 \<and> v + n \<le> 12"

text \<open>What the setup of the ports establishes.\<close>

definition ports_ready :: "main_env \<Rightarrow> string \<Rightarrow> int \<Rightarrow> int \<Rightarrow> u32 \<Rightarrow> (int \<Rightarrow> u32) \<Rightarrow> bpf_state \<Rightarrow> port_setup \<Rightarrow> bool" where
  "ports_ready env nm n v m0 mv b0 p \<longleftrightarrow> length (ps_slots p) = 12 \<and>
     (\<forall>x. 0 \<le> x \<longrightarrow> x < v + n \<longrightarrow> ps_slots p ! nat x = slot_for (Some nm) n x) \<and>
     ps_cores p = filled 0 (n * 2 + v * 2) (\<lambda>i. word_of_int (6 + i)) (replicate MAX_THREADS 0) \<and>
     (\<exists>s1. loaded (bpf_sys env) nm n b0 (v + n) s1 \<and> attached (ps_bpf p) = attached s1) \<and>
     xskmaps (ps_bpf p) m0 = (\<lambda>y. if 0 \<le> y \<and> y < n then Some (sock_fd env y) else None) \<and>
     (\<forall>x. n \<le> x \<longrightarrow> x < v + n \<longrightarrow> xskmaps (ps_bpf p) (mv x) = [0 \<mapsto> sock_fd env x]) \<and>
     length (kports (ps_sys p)) = nat (v + n) \<and>
     (\<exists>B. sys_inv (32 - 2 * nat (v + n)) node_sizes B (ps_sys p))"

lemma create_ports_run:
  assumes a: "args_ok a nm n v" and env: "ports_env_ok env nm n v m0 mv" and b0: "no_programs b0"
  shows "\<exists>p. create_ports env a b0 = Inr (Inr p) \<and> ports_ready env nm n v m0 mv b0 p"
proof -
  have A: "nic_iface a = Some nm" "n_nic_ports a = n" "num_of_nses a = v" "0 < n" "0 \<le> v" "v \<le> 8" "v + n \<le> 12"
    using a by (simp_all add: args_ok_def)
  have n0: "0 \<le> n" using A(4) by simp
  obtain slots where slots: "setup_ports (Some nm) n v (replicate MAX_PORTS port_params_default) = Inr slots" "length slots = 12"
    "\<forall>x. 0 \<le> x \<longrightarrow> x < v + n \<longrightarrow> slots ! nat x = slot_for (Some nm) n x"
    using setup_ports_run[OF n0 A(5) _ A(7,6), of "replicate MAX_PORTS port_params_default" "Some nm"] by (auto simp: MAX_PORTS_def)
  obtain ps1 where ps1: "default_ports (v + n) (replicate MAX_PORTS port_params_default) = Inr ps1" "name_ports (Some nm) n v ps1 = Inr slots"
    using slots(1) by (auto simp: setup_ports_def res_simps)
  have E: "load_ok (bpf_sys env) nm n v" "maps_ok (bpf_sys env) n v m0 mv" "all_ok (pool_sys env)" "\<And>i. env_ok node_sizes (port_sys env i)"
    using env by (simp_all add: ports_env_ok_def)
  have B: "length (xdp_prog b0) = 26" "attached b0 = (\<lambda>_. [])" "xskmaps b0 = (\<lambda>_. Map.empty)" using b0 by (simp_all add: no_programs_def)
  have socks: "v + n \<le> int (length (port_socks env (v + n)))" "\<forall>x. 0 \<le> x \<longrightarrow> x < v + n \<longrightarrow> port_socks env (v + n) ! nat x = Some (sock_fd env x)"
    using A(7) by (auto simp: port_socks_def MAX_PORTS_def)
  obtain s1 s2 where bpf: "load_xdp_program (bpf_sys env) (Some nm) n v b0 = Inr s1" "loaded (bpf_sys env) nm n b0 (v + n) s1"
    "install_sockets (bpf_sys env) (port_socks env (v + n)) n (v + n) s1 = Inr s2" "attached s2 = attached s1"
    "xskmaps s2 m0 = (\<lambda>y. if 0 \<le> y \<and> y < n then Some (sock_fd env y) else None)"
    "\<forall>x. n \<le> x \<longrightarrow> x < v + n \<longrightarrow> xskmaps s2 (mv x) = [0 \<mapsto> sock_fd env x]"
    using install_run[OF A(4-7) E(1,2) B socks] by blast
  obtain es where es: "port_list env slots 0 (nat (v + n)) = Inr es" "length es = nat (v + n)" "\<forall>e \<in> set es. \<exists>j. fst e = port_sys env j"
  proof -
    have "0 + j < length slots \<and> slots ! (0 + j) = slot_for (Some nm) n (int (0 + j))" if "j < nat (v + n)" for j
      using that slots(2) slots(3)[rule_format, of "int j"] A(7) by auto
    from port_list_run[OF this, of "nat (v + n)" env] show thesis using that by auto
  qed
  have "good_setup node_sizes (pool_sys env) bpool_params_default umem_cfg_default es 32"
    by (rule node_setup) (use E(3,4) es(2,3) A(7) in auto)
  from start_ok[OF this] obtain s0 B where s0: "start_system (pool_sys env) bpool_params_default umem_cfg_default es = Inr (Some s0)"
    "length (kports s0) = length es" "sys_inv (32 - 2 * length es) node_sizes B s0" by blast
  let ?p = "\<lparr>ps_slots = slots, ps_cores = filled 0 (n * 2 + v * 2) (\<lambda>i. word_of_int (6 + i)) (replicate MAX_THREADS 0), ps_bpf = s2, ps_sys = s0\<rparr>"
  have "c_int (v + n) = Inr (v + n)" using A by (simp add: c_int_def)
  then have "create_ports env a b0 = Inr (Inr ?p)"
    using A thread_count_run[of n v] assign_cores_run[of "n * 2 + v * 2"] ps1 bpf es s0(1) by (simp add: create_ports_def Let_def)
  moreover have "ports_ready env nm n v m0 mv b0 ?p"
    using slots bpf s0 es(2) by (auto simp: ports_ready_def)
  ultimately show ?thesis by blast
qed

text \<open>The interface has addresses, and the files describe up to 32 nodes and all 32 slots.\<close>

definition tables_env_ok :: "main_env \<Rightarrow> string \<Rightarrow> string \<Rightarrow> worker list \<Rightarrow> nat list list \<Rightarrow> u8 list \<Rightarrow> u32 \<Rightarrow> bool" where
  "tables_env_ok env nm route ws rows hw ip \<longleftrightarrow> length nm < 16 \<and> if_hwaddr env nm = Some hw \<and> length hw = 6 \<and>
     if_ipaddr env (take 15 nm) = Some ip \<and>
     loader.calloc_ok (table_sys env) \<and>
     grants (lheap (table_sys env)) (11 * 32) \<and> grants (lheap (table_sys env)) (8 * 32) \<and>
     files env WORKER_INFO_CSV = Some (concat (map worker_text ws)) \<and>
     length ws \<le> 32 \<and> (\<forall>w \<in> set ws. worker_ok w) \<and> distinct (map worker_key ws) \<and>
     matrix_struct_ok env \<and> matrix_data_ok env \<and> files env route = Some (routes_text rows) \<and>
     length rows = 32 \<and> (\<forall>vs \<in> set rows. length vs = 32 \<and> (\<forall>v \<in> set vs. v < 2 ^ 31))"

definition info_ready :: "worker list \<Rightarrow> nat list list \<Rightarrow> u8 list \<Rightarrow> u32 \<Rightarrow> node_info \<Rightarrow> bool" where
  "info_ready ws rows hw ip info \<longleftrightarrow> ni_eth_src info = hw \<and> ni_src_ip info = ip \<and>
     (\<exists>ipt mact m. ni_ip_table info = Some ipt \<and> ni_mac_table info = Some mact \<and> ni_route_table info = Some m \<and>
       tables_hold ws ipt mact \<and>
       matrix_wf m \<and> mrows m = 32 \<and> mcols m = 32 \<and>
       (\<forall>r c. 0 < r \<longrightarrow> r \<le> 32 \<longrightarrow> 0 < c \<longrightarrow> c \<le> 32 \<longrightarrow> cell m r c = Some (int (rows ! nat (r - 1) ! nat (c - 1)))))"

lemma load_tables_run:
  assumes "nic_iface a = Some nm" "tables_env_ok env nm (route_filename a) ws rows hw ip"
  shows "if \<forall>w \<in> set ws. short_mac w then \<exists>info. load_tables env a = Inr info \<and> info_ready ws rows hw ip info
    else load_tables env a = Inl Out_Of_Bounds"
proof -
  note T = assms(2)[unfolded tables_env_ok_def]
  have m: "mdat empty_table = None" by (simp add: empty_table_def)
  have mac: "getMACAddress (if_hwaddr env) nm (replicate 6 0) = Inr (0, hw)"
    using getMACAddress_known[of nm "if_hwaddr env" hw "replicate 6 0"] T by simp
  have addr: "getIpAddress (if_ipaddr env) nm = Inr ip" by (rule getIpAddress_known) (use T in blast)
  have w: "loader.calloc_ok (table_sys env)" "grants (lheap (table_sys env)) (11 * 32)" "grants (lheap (table_sys env)) (8 * 32)"
    "length ws \<le> 32" "\<forall>w \<in> set ws. worker_ok w" "distinct (map worker_key ws)" "files env WORKER_INFO_CSV = Some (concat (map worker_text ws))"
    using T by simp_all
  note L = load_workers_correct[OF w(1-3) m m w(4-6), folded w(7)]
  obtain r where r: "load_routes (matrix_struct_ok env) (matrix_data_ok env) (files env (route_filename a)) = Inr (Some r)"
    "matrix_wf r" "mrows r = 32" "mcols r = 32"
    "\<forall>i c. 0 < i \<longrightarrow> i \<le> 32 \<longrightarrow> 0 < c \<longrightarrow> c \<le> 32 \<longrightarrow> cell r i c = Some (int (rows ! nat (i - 1) ! nat (c - 1)))"
    using route_file_roundtrip[of rows] T by auto
  show ?thesis
  proof (cases "\<forall>w \<in> set ws. short_mac w")
    case True
    then obtain ipt mact where "load_workers (table_sys env) (files env WORKER_INFO_CSV) (Some empty_table, Some empty_table) = Inr (Some ipt, Some mact)"
      "tables_hold ws ipt mact" using L by auto
    with True show ?thesis using assms(1) mac addr r by (auto simp: load_tables_def info_ready_def)
  next
    case False
    then show ?thesis using L assms(1) mac addr by (auto simp: load_tables_def)
  qed
qed

text \<open>A queue array as \<open>main\<close> leaves it, and as it may be later.\<close>

definition queues_ready :: "main_env \<Rightarrow> nat \<Rightarrow> queue_array \<Rightarrow> bool" where
  "queues_ready env k qs \<longleftrightarrow> length qs = k \<and> (\<forall>q \<in> set qs. \<exists>q'. q = Some q' \<and> q_inv q' \<and> q_content q' = [] \<and>
     length (buffer q') = 4096 \<and> qmem q' = memtype_heap (mem_sys env))"

lemma make_queues_run:
  assumes "malloc_grants (mem_sys env) (16 * 4096)" "0 \<le> v" "v \<le> 8"
  shows "\<exists>ls ns vs. make_queues env v = Inr (ls, ns, vs) \<and> queues_ready env 32 ls \<and> queues_ready env 32 ns \<and> queues_ready env (nat v) vs"
  using init_queues_run[OF assms(1), of NUM_OF_PER_DEST_QUEUES] init_queues_run[OF assms(1), of "nat v"] assms(2,3)
  by (auto simp: make_queues_def queues_ready_def Let_def NUM_OF_PER_DEST_QUEUES_def VETH_QUEUES_def)

definition node_ready :: "main_env \<Rightarrow> string \<Rightarrow> int \<Rightarrow> int \<Rightarrow> u32 \<Rightarrow> (int \<Rightarrow> u32) \<Rightarrow> bpf_state \<Rightarrow>
    worker list \<Rightarrow> nat list list \<Rightarrow> u8 list \<Rightarrow> u32 \<Rightarrow> node \<Rightarrow> bool" where
  "node_ready env nm n v m0 mv b0 ws rows hw ip nd \<longleftrightarrow> args_ok (nd_args nd) nm n v \<and>
     ports_ready env nm n v m0 mv b0 (nd_ports nd) \<and> info_ready ws rows hw ip (nd_info nd) \<and>
     queues_ready env 32 (nd_local nd) \<and> queues_ready env 32 (nd_non_local nd) \<and> queues_ready env (nat v) (nd_veth nd) \<and>
     nd_threads nd = all_threads n v"

lemma parse_args_run:
  assumes "argv = [prog, addr, route, clock, dec_string secs, dec_string v, dec_string n]" "secs < 2 ^ 31" "v < 2 ^ 31" "n < 2 ^ 31"
    and "inet_aton addr = Some w" "if_addrs env = Some ifs"
  shows "parse_args env argv = Inr (Inr \<lparr>nic_iface = find_interface ifs w None, route_filename = route,
    ptp_clock_name = clock, running_time = int secs, num_of_nses = int v, n_nic_ports = int n\<rparr>)"
  using assms by (simp add: parse_args_def atoi_dec numeral_2_eq_2[symmetric] numeral_3_eq_3[symmetric])

section \<open>The parts of the shutdown\<close>

lemma free_ports_slabs: "free_ports bp ports = bp\<lparr>n_slabs_available := n_slabs_available bp + 2 * of_nat (length ports)\<rparr>"
proof (induction ports arbitrary: bp)
  case (Cons p ps)
  have "free_ports bp (p # ps) = free_ports (bp\<lparr>n_slabs_available := n_slabs_available bp + 2\<rparr>) ps"
    by (simp add: free_ports_def port_free_def bcache_free_def)
  then show ?case by (simp add: Cons.IH algebra_simps)
qed (simp add: free_ports_def)

lemma free_ports_available:
  assumes "sys_inv m z B s" "m + 2 * length (kports s) < 2 ^ 63"
  shows "unat (n_slabs_available (free_ports (spool s) (map kp (kports s)))) = unat (n_slabs_available (spool s)) + 2 * length (kports s)"
proof -
  have "unat (n_slabs_available (spool s)) \<le> m" using assms(1) by (auto simp: sys_inv_def pool_inv_def Let_def)
  then have le: "unat (n_slabs_available (spool s)) + 2 * length (kports s) < 2 ^ LENGTH(64)" using assms(2) by simp
  have e: "n_slabs_available (free_ports (spool s) (map kp (kports s))) =
      (of_nat (unat (n_slabs_available (spool s)) + 2 * length (kports s)) :: u64)" by (simp add: free_ports_slabs)
  show ?thesis by (simp only: e unat_of_nat_below[OF le])
qed

definition heap_queues :: "main_env \<Rightarrow> queue_array \<Rightarrow> bool" where
  "heap_queues env qs \<longleftrightarrow> (\<forall>q. Some q \<in> set qs \<longrightarrow> qmem q = memtype_heap (mem_sys env))"

lemma destroy_queues_run: "heap_queues env qs \<Longrightarrow> destroy_queues (memtype_heap (mem_sys env)) qs = Inr (replicate (length qs) 0)"
proof (induction qs)
  case (Cons q qs)
  have "destroy_queue (memtype_heap (mem_sys env)) q = Inr 0"
    using Cons.prems by (cases q) (auto simp: destroy_queue_def mpmc_queue_destroy_def heap_queues_def)
  moreover have "heap_queues env qs" using Cons.prems by (simp add: heap_queues_def)
  ultimately show ?case using Cons.IH by simp
qed simp

lemma heap_queues_zip:
  assumes "heap_queues env ls" "heap_queues env ns"
  shows "heap_queues env (concat (map (\<lambda>(l, n). [l, n]) (zip ls ns)))"
  using assms by (auto simp: heap_queues_def dest: set_zip_leftD set_zip_rightD)

lemma cleanup_run: "mg_look m k \<noteq> None \<Longrightarrow> \<exists>m'. mg_map_cleanup False (Some m) = Inr (0, True, Some m') \<and> mcount m' = 0"
  by (cases "mdat m") (auto simp: mg_map_cleanup_def mg_look_def mg_map_get_def)

section \<open>Properties\<close>

text \<open>Property C16: with a network interface that has the given address, at most 8 namespaces and 12 ports, and
  files that describe the nodes and the routes, what the setup does depends on the hardware
  addresses in the node file. With a full address in it, the setup writes outside the array of
  six bytes that it reads the address into, after the programs and the ports are set up: the C
  program has no defined behaviour from there on. Where every address has only three numbers, or
  the file has no lines, the setup ends with a node that is ready: one program on each interface
  and every port's socket in its map, a port for every queue and namespace with all its buffers
  accounted for, loaded tables, empty queues, and threads that serve them.\<close>
theorem emulator_starts:
  assumes argv: "argv = [prog, addr, route, clock, dec_string secs, dec_string v, dec_string n]" "secs < 2 ^ 31"
    and nic: "inet_aton addr = Some w" "if_addrs env = Some ifs" "find_interface ifs w None = Some nm"
    and size: "0 < n" "v \<le> 8" "v + n \<le> 12"
    and env: "ports_env_ok env nm (int n) (int v) m0 mv" "tables_env_ok env nm route ws rows hw ip" "malloc_grants (mem_sys env) (16 * 4096)"
    and b0: "no_programs b0"
  shows "if \<forall>w \<in> set ws. short_mac w
    then \<exists>nd. emu_setup env argv b0 = Inr (Inr nd) \<and> node_ready env nm (int n) (int v) m0 mv b0 ws rows hw ip nd
    else emu_setup env argv b0 = Inl Out_Of_Bounds"
proof -
  let ?a = "\<lparr>nic_iface = Some nm, route_filename = route, ptp_clock_name = clock, running_time = int secs,
    num_of_nses = int v, n_nic_ports = int n\<rparr>"
  have a: "parse_args env argv = Inr (Inr ?a)" using parse_args_run[OF argv _ _ nic(1,2)] size nic(3) by simp
  have ok: "args_ok ?a nm (int n) (int v)" using size by (simp add: args_ok_def)
  obtain p where p: "create_ports env ?a b0 = Inr (Inr p)" "ports_ready env nm (int n) (int v) m0 mv b0 p"
    using create_ports_run[OF ok env(1) b0] by blast
  have i: "if \<forall>w \<in> set ws. short_mac w then \<exists>info. load_tables env ?a = Inr info \<and> info_ready ws rows hw ip info
    else load_tables env ?a = Inl Out_Of_Bounds"
    using load_tables_run[of ?a nm env ws rows hw ip] env(2) by simp
  obtain ls ns vs where q: "make_queues env (int v) = Inr (ls, ns, vs)" "queues_ready env 32 ls" "queues_ready env 32 ns" "queues_ready env (nat (int v)) vs"
    using make_queues_run[OF env(3), of "int v"] size by auto
  have t: "assign_threads (int n) (int v) = Inr (all_threads (int n) (int v))" using assign_threads_run[of "int n" "int v"] size by simp
  show ?thesis
  proof (cases "\<forall>w \<in> set ws. short_mac w")
    case True
    then obtain info where "load_tables env ?a = Inr info" "info_ready ws rows hw ip info" using i by auto
    with True show ?thesis using a ok p q t by (simp add: emu_setup_def node_ready_def)
  next
    case False
    then show ?thesis using i a p by (auto simp: emu_setup_def)
  qed
qed

text \<open>Property C17: a node that was ready can always be shut down, whatever the threads have done with
  buffers and queues: no program stays attached to an interface, every cache's two slab entries
  are given back, both tables are empty and every queue's memory is released without error.\<close>
theorem emulator_stops:
  assumes ready: "node_ready env nm n v m0 mv b0 ws rows hw ip nd" "ws \<noteq> []"
    and ok: "\<And>i. query_err (bpf_sys env) i = 0" "\<And>i. detach_err (bpf_sys env) i = 0"
    and run: "(psys_step node_sizes)\<^sup>*\<^sup>* (ps_sys (nd_ports nd)) s"
    and qs: "heap_queues env ls" "heap_queues env ns" "heap_queues env vs"
  shows "\<exists>dn. emu_shutdown env (nd\<lparr>nd_ports := (nd_ports nd)\<lparr>ps_sys := s\<rparr>, nd_local := ls, nd_non_local := ns, nd_veth := vs\<rparr>) = Inr (0, dn) \<and>
    attached (dn_bpf dn) = (\<lambda>_. []) \<and>
    unat (n_slabs_available (dn_pool dn)) = unat (n_slabs_available (spool s)) + 2 * nat (v + n) \<and>
    unat (n_slabs_available (dn_pool dn)) \<le> 32 \<and>
    (\<exists>ipt mact. dn_tables dn = (Some ipt, Some mact) \<and> mcount ipt = 0 \<and> mcount mact = 0) \<and>
    set (dn_queues dn) \<subseteq> {0}"
proof -
  let ?p = "nd_ports nd"
  have A: "nic_iface (nd_args nd) = Some nm" "n_nic_ports (nd_args nd) = n" "num_of_nses (nd_args nd) = v"
    "0 < n" "0 \<le> v" "v + n \<le> 12" using ready(1) by (simp_all add: node_ready_def args_ok_def)
  have P: "ports_ready env nm n v m0 mv b0 ?p" and I: "info_ready ws rows hw ip (nd_info nd)" using ready(1) by (simp_all add: node_ready_def)
  obtain s1 B where s1: "loaded (bpf_sys env) nm n b0 (v + n) s1" "attached (ps_bpf ?p) = attached s1"
    "sys_inv (32 - 2 * nat (v + n)) node_sizes B (ps_sys ?p)" "length (kports (ps_sys ?p)) = nat (v + n)"
    "length (ps_slots ?p) = 12" "\<forall>x. 0 \<le> x \<longrightarrow> x < v + n \<longrightarrow> ps_slots ?p ! nat x = slot_for (Some nm) n x"
    using P by (auto simp: ports_ready_def)
  obtain b1 b2 where b: "remove_xdp_program_nic (bpf_sys env) (Some nm) (ps_bpf ?p) = Inr b1"
    "remove_xdp_program_veth (bpf_sys env) (ps_slots ?p) n (v + n) b1 = Inr b2" "attached b2 = (\<lambda>_. [])"
    using remove_run[OF A(4-6) s1(1,2) ok s1(5)] s1(6) by blast
  have inv: "sys_inv (32 - 2 * nat (v + n)) node_sizes B s" using reachable_inv[OF run s1(3)] .
  have len: "length (kports s) = nat (v + n)" using reachable_ports[OF run] s1(4) by simp
  have m: "unat (n_slabs_available (spool s)) \<le> 32 - 2 * nat (v + n)" using inv by (auto simp: sys_inv_def pool_inv_def Let_def)
  have slabs: "unat (n_slabs_available (free_ports (spool s) (map kp (kports s)))) = unat (n_slabs_available (spool s)) + 2 * nat (v + n)"
    using free_ports_available[OF inv] len A(6) by simp
  obtain ipt mact r where t: "ni_ip_table (nd_info nd) = Some ipt" "ni_mac_table (nd_info nd) = Some mact" "ni_route_table (nd_info nd) = Some r"
    "mg_look ipt (worker_key (ws ! 0)) \<noteq> None" "mg_look mact (of_nat 1) \<noteq> None" "matrix_wf r"
    using I ready(2) by (fastforce simp: info_ready_def tables_hold_def)
  obtain ipt' where c1: "mg_map_cleanup False (Some ipt) = Inr (0, True, Some ipt')" "mcount ipt' = 0" using cleanup_run[OF t(4)] by blast
  obtain mact' where c2: "mg_map_cleanup False (Some mact) = Inr (0, True, Some mact')" "mcount mact' = 0" using cleanup_run[OF t(5)] by blast
  have d: "deleteRouteMatrix (Some r) = Inr 0" using t(6) by (auto simp: deleteRouteMatrix_def mtx_delete_def matrix_wf_def)
  note q = destroy_queues_run[OF qs(3)] destroy_queues_run[OF heap_queues_zip[OF qs(1,2)]]
  show ?thesis using A b c1 c2 d q t(1-3) slabs m by (simp add: emu_shutdown_def Let_def) auto
qed

text \<open>Property C30: the main loop keeps running until the running time is over and then ends; until then it reads the
  clock once a turn, and the topology number it leaves is the slot of its last reading.\<close>
theorem main_loop_correct:
  assumes "prev_topo s = 0" "topo_track_index s = 0" "int (length xs) \<le> TOPO_LOG_SIZE"
    and ts: "ts = takeWhile (\<lambda>(t, c). t - start < secs) xs"
  shows "if \<exists>(t, c) \<in> set xs. secs \<le> t - start
    then \<exists>s'. main_loop secs start (map (\<lambda>(t, c). (t, Some c)) xs) s = Some (Inr s') \<and>
      topo_log s' = remdups_adj (map (\<lambda>(t, c). slot_of (unat (get_nsec c))) ts) \<and>
      (ts \<noteq> [] \<longrightarrow> unat (topo_num s') = slot_of (unat (get_nsec (snd (last ts)))))
    else main_loop secs start (map (\<lambda>(t, c). (t, Some c)) xs) s = None"
proof -
  have split: "main_loop secs start (map (\<lambda>(t, c). (t, Some c)) xs) u =
    (if \<exists>(t, c) \<in> set xs. secs \<le> t - start then Some (read_times (map Some (map snd (takeWhile (\<lambda>(t, c). t - start < secs) xs))) u) else None)"
    if "topo_inv sl u" "topo_track_index u + int (length xs) \<le> TOPO_LOG_SIZE" for xs sl u
    using that
  proof (induction xs arbitrary: u sl)
    case (Cons x xs)
    obtain t c where x: "x = (t, c)" by (cases x)
    show ?case
    proof (cases "t - start < secs")
      case True
      obtain u' where u': "read_time (Some c) u = Inr u'" "topo_inv (sl @ [slot_at c]) u'" "topo_track_index u' \<le> topo_track_index u + 1"
        using topo_inv_read[OF Cons.prems(1), of c] Cons.prems(2) by auto
      have "topo_track_index u' + int (length xs) \<le> TOPO_LOG_SIZE" using u'(3) Cons.prems(2) by simp
      from Cons.IH[OF u'(2) this] show ?thesis using True u'(1) by (auto simp: x)
    qed (simp add: x)
  qed simp
  have i: "topo_inv [] s" using assms(1,2) by (simp add: topo_inv_def topo_log_def)
  have "length ts \<le> length xs" unfolding ts by (rule length_takeWhile_le)
  then obtain s' where s': "read_times (map Some (map snd ts)) s = Inr s'" "topo_inv (map slot_at (map snd ts)) s'"
    using topo_inv_reads[OF i, of "map snd ts"] assms(2,3) by auto
  have m: "map slot_at (map snd ts) = map (\<lambda>(t, c). slot_of (unat (get_nsec c))) ts" by (auto simp: slot_at_def)
  then have "ts \<noteq> [] \<longrightarrow> unat (topo_num s') = slot_of (unat (get_nsec (snd (last ts))))"
    using s'(2) by (simp add: topo_inv_def last_map slot_at_def)
  moreover have "topo_log s' = remdups_adj (map slot_at (map snd ts))" using s'(2) unfolding topo_inv_def by blast
  then have "topo_log s' = remdups_adj (map (\<lambda>(t, c). slot_of (unat (get_nsec c))) ts)" unfolding m .
  ultimately show ?thesis using split[OF i, of xs] s'(1) assms(2,3) by (simp flip: ts)
qed

text \<open>Every thread is started with the function that its thread record was set up for, on a CPU core of
  its own, and no other thread is started.\<close>
theorem threads_started:
  assumes "0 < n" "0 \<le> v" "v + n \<le> 12"
  shows "\<exists>fs ts cores. start_threads n v = Inr fs \<and> assign_threads n v = Inr ts \<and> assign_cores (n * 2 + v * 2) = Inr cores \<and>
    length fs = 64 \<and> length ts = 64 \<and>
    (\<forall>i < 64. (fs ! i, ts ! i) = (if int i < n then (Some thread_func_veth_to_nic_tx, tx_data (32 div n) (int i))
      else if int i < 2 * n then (Some thread_func_nic, rx_data n v (int i))
      else if int i < 2 * n + v then (Some thread_func_veth, vrx_data n (int i))
      else if int i < 2 * n + 2 * v then (Some thread_func_nic_to_veth_tx, vtx_data n v (int i))
      else (None, no_thread))) \<and>
    (\<forall>i j. i < j \<longrightarrow> int j < n * 2 + v * 2 \<longrightarrow> cores ! i \<noteq> cores ! j)"
proof -
  let ?none = "replicate MAX_THREADS (None :: thread_func option)"
  let ?f = "filled (n * 2 + v) (n * 2 + v + v) (\<lambda>_. Some thread_func_nic_to_veth_tx) (filled (n * 2) (n * 2 + v) (\<lambda>_. Some thread_func_veth)
    (filled n (n * 2) (\<lambda>_. Some thread_func_nic) (filled 0 n (\<lambda>_. Some thread_func_veth_to_nic_tx) ?none)))"
  have r: "start_range f lo hi xs = Inr (filled lo hi (\<lambda>_. Some f) xs)" if "0 \<le> lo" "lo \<le> hi" "hi \<le> int (length xs)" for f lo hi xs
    unfolding start_range_def by (rule for_range_fill_list) (use that in auto)
  have l: "length ?none = 64" by (simp add: MAX_THREADS_def)
  have s: "start_threads n v = Inr ?f" using assms l by (simp add: start_threads_def r Let_def)
  have c: "assign_cores (n * 2 + v * 2) = Inr (filled 0 (n * 2 + v * 2) (\<lambda>i. word_of_int (6 + i)) (replicate MAX_THREADS 0))"
    by (rule assign_cores_run) (use assms in auto)
  have u: "uint (word_of_int (6 + int k) :: u32) = 6 + int k" if "k < 100" for k
    using that by (subst uint_word_of_int) simp
  have ne: "(word_of_int (6 + int i) :: u32) \<noteq> word_of_int (6 + int j)" if "i < j" "int j < n * 2 + v * 2" for i j
  proof
    assume "(word_of_int (6 + int i) :: u32) = word_of_int (6 + int j)"
    then have "uint (word_of_int (6 + int i) :: u32) = uint (word_of_int (6 + int j) :: u32)" by simp
    then show False using that assms u[of i] u[of j] by simp
  qed
  show ?thesis using s c assign_threads_run[OF assms] assms ne
    by (intro exI[of _ ?f] exI) (auto simp: all_threads_def MAX_THREADS_def)
qed

text \<open>\<open>main\<close> gives up with a status: on a wrong number of arguments, an address that is none, or
  without the list of interfaces (1), and when the pool cannot be created (-1). When no interface
  has the given address the name of the interface stays \<open>NULL\<close>, which is read when the programs
  are loaded; with more than 12 ports the port table is overrun.\<close>
theorem emulator_refuses:
  "(length argv \<noteq> 7 \<longrightarrow> emu_setup env argv b0 = Inr (Inl 1)) \<and>
   (inet_aton (argv ! 1) = None \<longrightarrow> length argv = 7 \<longrightarrow> emu_setup env argv b0 = Inr (Inl 1)) \<and>
   (if_addrs env = None \<longrightarrow> inet_aton (argv ! 1) \<noteq> None \<longrightarrow> length argv = 7 \<longrightarrow> emu_setup env argv b0 = Inr (Inl 1)) \<and>
   (\<forall>a. parse_args env argv = Inr (Inr a) \<longrightarrow> 0 \<le> n_nic_ports a \<longrightarrow> 0 \<le> num_of_nses a \<longrightarrow>
     (12 < num_of_nses a + n_nic_ports a \<and> num_of_nses a + n_nic_ports a < 2 ^ 31 \<longrightarrow> emu_setup env argv b0 = Inl Out_Of_Bounds) \<and>
     (num_of_nses a + n_nic_ports a \<le> 12 \<and> nic_iface a = None \<longrightarrow> emu_setup env argv b0 = Inl Null_Deref))"
proof -
  have p: "default_ports k (replicate MAX_PORTS port_params_default) = Inl Out_Of_Bounds" if "12 < k" for k
    using that by (intro default_ports_many) (simp_all add: MAX_PORTS_def)
  have d: "default_ports k (replicate MAX_PORTS port_params_default) = Inr (filled 0 k (\<lambda>_. port_params_default) (replicate MAX_PORTS port_params_default))"
    if "0 \<le> k" "k \<le> 12" for k
    using that first_slots_run(1)[of 0 k "replicate MAX_PORTS port_params_default" "replicate MAX_PORTS port_params_default"]
    by (simp add: default_ports_def MAX_PORTS_def)
  show ?thesis
    using p d by (auto simp: emu_setup_def parse_args_def EXIT_FAILURE_def create_ports_def Let_def c_int_def load_xdp_program_def split: option.splits)
qed

section \<open>Witnesses\<close>

definition new_ring :: "nat \<Rightarrow> u32 \<Rightarrow> 'e \<Rightarrow> 'e xsk_ring" where
  "new_ring k c e = \<lparr>cached_prod = 0, cached_cons = c, ring_mask = 2 ^ k - 1, ring_size = 2 ^ k, producer = 0, consumer = 0,
     ring = replicate (2 ^ k) e, ring_flags = 0\<rparr>"

lemma new_ring_idle:
  assumes "k \<le> 30"
  shows "prod_idle k (new_ring k (2 ^ k) e)" "cons_idle k (new_ring k 0 e)" "ring_content (new_ring k c e) = []"
proof -
  have "prod_parts k (new_ring k (2 ^ k) e) 0 0 (2 ^ k) 0" using assms by (simp add: prod_parts_def ring_shape_def new_ring_def)
  then show "prod_idle k (new_ring k (2 ^ k) e)" by (auto simp: prod_idle_def)
  have "cons_parts k (new_ring k 0 e) 0 0 0" using assms by (simp add: cons_parts_def ring_shape_def new_ring_def)
  then show "cons_idle k (new_ring k 0 e)" by (auto simp: cons_idle_def)
  show "ring_content (new_ring k c e) = []" by (simp add: ring_content_def new_ring_def entries_def)
qed

definition sample_main :: main_env where
  "sample_main = \<lparr>if_addrs = Some [\<lparr>ifa_family = Some 2, ifa_inaddr = word32_of_bytes 10 0 0 1, ifa_name = ''nic''\<rparr>],
     bpf_sys = sample_bpf, pool_sys = sample_env,
     port_sys = (\<lambda>_. let d = \<lparr>desc_addr = 0, desc_len = 0, desc_options = 0\<rparr> in
       \<lparr>port_calloc = True, bcache_calloc = True, create_status = 0,
        new_rings = (new_ring 11 0 d, new_ring 11 (2 ^ 11) d, new_ring 12 (2 ^ 12) 0, new_ring 11 0 0)\<rparr>),
     sock_fd = (\<lambda>i. nat i + 10), clock_fd = (\<lambda>_. 4), if_hwaddr = (\<lambda>_. Some [1, 2, 3, 4, 5, 6]), if_ipaddr = (\<lambda>_. Some 5),
     files = (\<lambda>f. Some (if f = WORKER_INFO_CSV then worker_text sample_worker else routes_text (replicate 32 (replicate 32 1)))),
     table_sys = sample_loader, matrix_struct_ok = True, matrix_data_ok = True, mem_sys = sample_sys\<rparr>"

definition sample_argv :: "string list" where
  "sample_argv = [''emu'', dotted 10 0 0 1, ''route.csv'', ''ptp'', dec_string 60, dec_string 2, dec_string 1]"

lemma sample_main_ports: "ports_env_ok sample_main ''nic'' (int 1) (int 2) 0 of_int"
proof -
  have "load_ok (bpf_sys sample_main) ''nic'' 1 2" using sample_bpf_load by (simp add: sample_main_def)
  moreover have "maps_ok (bpf_sys sample_main) 1 2 0 of_int" using sample_bpf_maps by (simp add: sample_main_def)
  moreover have "all_ok (pool_sys sample_main)" by (simp add: sample_main_def all_ok_def sample_env_def)
  moreover have "env_ok node_sizes (port_sys sample_main i)" for i
    by (simp add: sample_main_def env_ok_def node_sizes_def Let_def new_ring_idle[of 11, simplified] new_ring_idle[of 12, simplified])
  ultimately show ?thesis by (simp add: ports_env_ok_def)
qed

lemma sample_main_tables:
  "tables_env_ok sample_main ''nic'' ''route.csv'' [sample_worker] (replicate 32 (replicate 32 1)) [1, 2, 3, 4, 5, 6] 5"
proof -
  have "''route.csv'' \<noteq> WORKER_INFO_CSV" by (simp add: WORKER_INFO_CSV_def)
  then show ?thesis using sample_worker_ok(1) by (simp add: tables_env_ok_def sample_main_def sample_loader_def)
qed

text \<open>The same, with a full hardware address in the node file.\<close>

definition full_main :: main_env where
  "full_main = sample_main\<lparr>files := (\<lambda>f. Some (if f = WORKER_INFO_CSV then worker_text full_worker else routes_text (replicate 32 (replicate 32 1))))\<rparr>"

lemma full_main_env:
  "ports_env_ok full_main ''nic'' (int 1) (int 2) 0 of_int"
  "tables_env_ok full_main ''nic'' ''route.csv'' [full_worker] (replicate 32 (replicate 32 1)) [1, 2, 3, 4, 5, 6] 5"
proof -
  show "ports_env_ok full_main ''nic'' (int 1) (int 2) 0 of_int" using sample_main_ports by (simp add: ports_env_ok_def full_main_def)
  have "''route.csv'' \<noteq> WORKER_INFO_CSV" by (simp add: WORKER_INFO_CSV_def)
  then show "tables_env_ok full_main ''nic'' ''route.csv'' [full_worker] (replicate 32 (replicate 32 1)) [1, 2, 3, 4, 5, 6] 5"
    using sample_worker_ok(2) by (simp add: tables_env_ok_def full_main_def sample_main_def sample_loader_def)
qed

lemma sample_main_args: "inet_aton (dotted 10 0 0 1) = Some (word32_of_bytes 10 0 0 1)"
  "if_addrs sample_main = Some [\<lparr>ifa_family = Some 2, ifa_inaddr = word32_of_bytes 10 0 0 1, ifa_name = ''nic''\<rparr>]"
  "find_interface [\<lparr>ifa_family = Some 2, ifa_inaddr = word32_of_bytes 10 0 0 1, ifa_name = ''nic''\<rparr>] (word32_of_bytes 10 0 0 1) None = Some ''nic''"
  "malloc_grants (mem_sys sample_main) (16 * 4096)" "no_programs sample_bpf_state"
  by (simp_all add: inet_aton_dotted sample_main_def AF_INET_def sample_sys_def no_programs_def sample_bpf_state_def)

lemma sample_sizes_ok: "(0 :: nat) < 1" "(2 :: nat) \<le> 8" "(2 :: nat) + 1 \<le> 12" "(60 :: nat) < 2 ^ 31"
  by simp_all

theorem emulator_starts_witness:
  "(\<exists>nd. emu_setup sample_main sample_argv sample_bpf_state = Inr (Inr nd) \<and>
    node_ready sample_main ''nic'' (int 1) (int 2) 0 of_int sample_bpf_state [sample_worker] (replicate 32 (replicate 32 1)) [1, 2, 3, 4, 5, 6] 5 nd) \<and>
   emu_setup full_main sample_argv sample_bpf_state = Inl Out_Of_Bounds"
proof -
  have s: "\<forall>w \<in> set [sample_worker]. short_mac w" "\<not> (\<forall>w \<in> set [full_worker]. short_mac w)" using sample_worker_ok(3,4) by simp_all
  have f: "if_addrs full_main = if_addrs sample_main" "mem_sys full_main = mem_sys sample_main" by (simp_all add: full_main_def)
  note S = emulator_starts[OF sample_argv_def sample_sizes_ok(4) sample_main_args(1-3) sample_sizes_ok(1-3) sample_main_ports sample_main_tables
    sample_main_args(4,5), unfolded if_P[OF s(1)]]
  note F = emulator_starts[OF sample_argv_def sample_sizes_ok(4) sample_main_args(1) sample_main_args(2)[folded f(1)] sample_main_args(3)
    sample_sizes_ok(1-3) full_main_env sample_main_args(4)[folded f(2)] sample_main_args(5), unfolded if_not_P[OF s(2)]]
  show ?thesis using S F by blast
qed

theorem main_loop_correct_witness:
  "\<exists>s'. main_loop 2 100 [(100, Some (1, 0)), (101, Some (1, 200000)), (102, Some (9, 9))] sample_topo = Some (Inr s') \<and> topo_log s' = [9, 10]"
proof -
  let ?xs = "[(100, (1, 0)), (101, (1, 200000)), (102, (9, 9))] :: (int \<times> timespec) list"
  let ?ts = "[(100, (1, 0)), (101, (1, 200000))] :: (int \<times> timespec) list"
  have t: "?ts = takeWhile (\<lambda>(t, c). t - 100 < 2) ?xs" by simp
  have w: "slot_of (unat (get_nsec (1, 0))) = 9" "slot_of (unat (get_nsec (1, 200000))) = 10" by (simp_all add: get_nsec_def slot_of_def)
  have s: "prev_topo sample_topo = 0" "topo_track_index sample_topo = 0" "int (length ?xs) \<le> TOPO_LOG_SIZE"
    by (simp_all add: sample_topo_def TOPO_LOG_SIZE_def)
  have m: "map (\<lambda>(t, c). (t, Some c)) ?xs = [(100, Some (1, 0)), (101, Some (1, 200000)), (102, Some (9, 9))]" by simp
  have e: "\<exists>(t, c) \<in> set ?xs. 2 \<le> t - 100" by simp
  obtain s' where a: "main_loop 2 100 (map (\<lambda>(t, c). (t, Some c)) ?xs) sample_topo = Some (Inr s')"
    and b: "topo_log s' = remdups_adj (map (\<lambda>(t, c). slot_of (unat (get_nsec c))) ?ts)"
    using main_loop_correct[OF s t, unfolded if_P[OF e]] by blast
  have c: "remdups_adj (map (\<lambda>(t, c). slot_of (unat (get_nsec c))) ?ts) = [9, 10]"
    by (simp only: list.map prod.case w) simp
  show ?thesis by (rule exI[of _ s'], rule conjI, rule a[unfolded m], rule b[unfolded c])
qed

theorem threads_started_witness:
  "\<exists>fs ts. start_threads 1 2 = Inr fs \<and> assign_threads 1 2 = Inr ts \<and> fs ! 4 = Some thread_func_nic_to_veth_tx \<and> ts ! 4 = vtx_data 1 2 4"
proof -
  have n: "(0 :: int) < 1" "(0 :: int) \<le> 2" "(2 :: int) + 1 \<le> 12" by simp_all
  obtain fs ts where t: "start_threads 1 2 = Inr fs" "assign_threads 1 2 = Inr ts"
    "\<forall>i < 64. (fs ! i, ts ! i) = (if int i < 1 then (Some thread_func_veth_to_nic_tx, tx_data (32 div 1) (int i))
      else if int i < 2 * 1 then (Some thread_func_nic, rx_data 1 2 (int i))
      else if int i < 2 * 1 + 2 then (Some thread_func_veth, vrx_data 1 (int i))
      else if int i < 2 * 1 + 2 * 2 then (Some thread_func_nic_to_veth_tx, vtx_data 1 2 (int i))
      else (None, no_thread))"
    using threads_started[OF n] by blast
  from t(3)[rule_format, of 4] have "fs ! 4 = Some thread_func_nic_to_veth_tx" "ts ! 4 = vtx_data 1 2 4" by simp_all
  with t(1,2) show ?thesis by blast
qed

theorem emulator_refuses_witness: "emu_setup sample_main [''emu''] sample_bpf_state = Inr (Inl 1)"
  using emulator_refuses[of "[''emu'']" sample_main sample_bpf_state] by simp

lemma sample_node:
  "\<exists>nd. node_ready sample_main ''nic'' 1 2 0 of_int sample_bpf_state [sample_worker] (replicate 32 (replicate 32 1)) [1, 2, 3, 4, 5, 6] 5 nd"
proof -
  let ?a = "\<lparr>nic_iface = Some ''nic'', route_filename = ''route.csv'', ptp_clock_name = ''ptp'', running_time = 60,
    num_of_nses = 2, n_nic_ports = 1\<rparr>"
  have a: "args_ok ?a ''nic'' 1 2" by (simp add: args_ok_def)
  obtain p where p: "ports_ready sample_main ''nic'' 1 2 0 of_int sample_bpf_state p"
    using create_ports_run[OF a] sample_main_ports sample_main_args(5) by fastforce
  obtain info where i: "info_ready [sample_worker] (replicate 32 (replicate 32 1)) [1, 2, 3, 4, 5, 6] 5 info"
    using load_tables_run[of ?a "''nic''" sample_main "[sample_worker]"] sample_main_tables sample_worker_ok(3) by fastforce
  obtain ls ns vs where q: "queues_ready sample_main 32 ls" "queues_ready sample_main 32 ns" "queues_ready sample_main (nat 2) vs"
    using make_queues_run[OF sample_main_args(4), of 2] by auto
  let ?n = "\<lparr>nd_args = ?a, nd_ports = p, nd_info = info, nd_local = ls, nd_non_local = ns, nd_veth = vs, nd_threads = all_threads 1 2\<rparr>"
  show ?thesis by (rule exI[of _ ?n]) (use a p i q in \<open>simp add: node_ready_def\<close>)
qed

lemma ready_heap: "queues_ready env k qs \<Longrightarrow> heap_queues env qs"
  by (auto simp: queues_ready_def heap_queues_def)

theorem emulator_stops_witness:
  "\<exists>nd dn. node_ready sample_main ''nic'' 1 2 0 of_int sample_bpf_state [sample_worker] (replicate 32 (replicate 32 1)) [1, 2, 3, 4, 5, 6] 5 nd \<and>
    emu_shutdown sample_main nd = Inr (0, dn) \<and> attached (dn_bpf dn) = (\<lambda>_. [])"
proof -
  obtain nd where nd: "node_ready sample_main ''nic'' 1 2 0 of_int sample_bpf_state [sample_worker] (replicate 32 (replicate 32 1)) [1, 2, 3, 4, 5, 6] 5 nd"
    using sample_node by blast
  have k: "\<And>i. query_err (bpf_sys sample_main) i = 0" "\<And>i. detach_err (bpf_sys sample_main) i = 0"
    by (simp_all add: sample_main_def sample_bpf_def)
  have q: "heap_queues sample_main (nd_local nd)" "heap_queues sample_main (nd_non_local nd)" "heap_queues sample_main (nd_veth nd)"
    using nd by (auto simp: node_ready_def intro: ready_heap)
  have e: "nd\<lparr>nd_ports := (nd_ports nd)\<lparr>ps_sys := ps_sys (nd_ports nd)\<rparr>, nd_local := nd_local nd, nd_non_local := nd_non_local nd, nd_veth := nd_veth nd\<rparr> = nd"
    by simp
  have w: "[sample_worker] \<noteq> []" by simp
  from emulator_stops[OF nd w k rtranclp.rtrancl_refl q, unfolded e] nd show ?thesis by blast
qed

end
