(* ===== verification/Mpmc_Live.thy ===== *)
theory Mpmc_Live
  imports Mpmc_Conc
begin

text \<open>
  Progress of the queue of \<open>opera-v2/mpmc_queue.c\<close>: whatever the other threads are in the middle
  of, a thread that runs alone finishes its call within six instructions, and two more for each
  of its weak exchanges that fails spuriously. No thread waits for another one, so a thread that is
  stopped in a call cannot block the rest of the emulator.
\<close>

section \<open>Running alone\<close>

text \<open>The next instructions of a thread; the flags say which exchanges fail spuriously.\<close>

definition alone :: "nat \<Rightarrow> bool list \<Rightarrow> 'a action list" where
  "alone t ws = map (\<lambda>w. if w then Run_Weak t else Run t) ws"

text \<open>The call ends within \<open>n\<close> instructions, and two more for each of up to \<open>f\<close> failures.\<close>

definition returns :: "'a conc \<Rightarrow> nat \<Rightarrow> nat \<Rightarrow> nat \<Rightarrow> bool" where
  "returns c t n f \<longleftrightarrow> (\<forall>ws. count_list ws True \<le> f \<longrightarrow> n + 2 * f \<le> length ws \<longrightarrow>
     (\<exists>m \<le> n + 2 * f. \<exists>c'. run_schedule c (alone t (take m ws)) = Some c' \<and> is_ret (pcs c' t)))"

lemma returns_now: "is_ret (pcs c t) \<Longrightarrow> returns c t n f"
  unfolding returns_def by (intro allI impI exI[of _ 0]) (simp add: alone_def)

lemma alone_Cons: "run_schedule c (alone t (take (Suc m) (w # ws))) =
    (case run_instr w c t of None \<Rightarrow> None | Some c' \<Rightarrow> run_schedule c' (alone t (take m ws)))"
  by (cases w; cases "run_instr w c t") (simp_all add: alone_def)

lemma returns_step:
  assumes "run_instr False c t = Some c1" "returns c1 t n f"
    and "0 < f \<Longrightarrow> \<exists>c2. run_instr True c t = Some c2 \<and> returns c2 t (n + 2) (f - 1)"
  shows "returns c t (Suc n) f"
  unfolding returns_def
proof (intro allI impI)
  fix ws assume c: "count_list ws True \<le> f" and l: "Suc n + 2 * f \<le> length ws"
  then obtain w vs where ws: "ws = w # vs" by (cases ws) auto
  have "\<exists>m \<le> n + 2 * f. \<exists>c'. run_schedule c (alone t (take (Suc m) (w # vs))) = Some c' \<and> is_ret (pcs c' t)"
  proof (cases w)
    case True
    then have f: "0 < f" "count_list vs True \<le> f - 1" using c ws by auto
    have e: "n + 2 + 2 * (f - 1) = n + 2 * f" using f(1) by linarith
    obtain c2 where c2: "run_instr True c t = Some c2" "returns c2 t (n + 2) (f - 1)" using assms(3) f(1) by blast
    have "n + 2 * f \<le> length vs" using l ws by simp
    with c2(2) f(2) obtain m c' where "m \<le> n + 2 * f" "run_schedule c2 (alone t (take m vs)) = Some c'" "is_ret (pcs c' t)"
      unfolding returns_def e by blast
    then show ?thesis using c2(1) True unfolding alone_Cons by auto
  next
    case False
    then show ?thesis using assms(1,2) c l ws unfolding returns_def alone_Cons by auto
  qed
  then obtain m c' where m: "m \<le> n + 2 * f" "run_schedule c (alone t (take (Suc m) (w # vs))) = Some c'" "is_ret (pcs c' t)" by blast
  show "\<exists>m \<le> Suc n + 2 * f. \<exists>c'. run_schedule c (alone t (take m ws)) = Some c' \<and> is_ret (pcs c' t)"
    unfolding ws by (rule exI[of _ "Suc m"]) (use m in auto)
qed

lemma returns_mono: "returns c t n f \<Longrightarrow> n \<le> m \<Longrightarrow> returns c t m f"
  unfolding returns_def by (meson add_le_mono1 le_trans)

text \<open>A failure that does not happen leaves two instructions.\<close>

lemma returns_fewer:
  assumes "returns c t n f" "0 < f"
  shows "returns c t (n + 2) (f - 1)"
proof -
  have e: "n + 2 + 2 * (f - 1) = n + 2 * f" using assms(2) by linarith
  show ?thesis unfolding returns_def e
  proof (intro allI impI)
    fix ws assume "count_list ws True \<le> f - 1" "n + 2 * f \<le> length ws"
    then have "count_list ws True \<le> f" "n + 2 * f \<le> length ws" by simp_all
    with assms(1) show "\<exists>m \<le> n + 2 * f. \<exists>c'. run_schedule c (alone t (take m ws)) = Some c' \<and> is_ret (pcs c' t)"
      unfolding returns_def by blast
  qed
qed

text \<open>The invariant with room for one more push, before and after a step of the thread.\<close>

definition live_inv :: "nat \<Rightarrow> nat \<Rightarrow> 'a conc \<Rightarrow> bool" where
  "live_inv k d c \<longleftrightarrow> conc_inv k c \<and> length (pushes c) + d + 2 ^ k < 2 ^ 63"

lemma live_step:
  assumes "live_inv k d c" "run_instr w c t = Some c'" "length (pushes c') + d' \<le> length (pushes c) + d"
  shows "live_inv k d' c'"
proof -
  have b: "length (pushes c') + d' + 2 ^ k < 2 ^ 63" using assms(1,3) by (simp add: live_inv_def)
  then have "length (pushes c') + 2 ^ k < 2 ^ 63" by simp
  from mpmc_step_inv[OF run_instr_step[OF assms(2)] _ this] show ?thesis using assms(1) b by (simp add: live_inv_def)
qed

text \<open>An instruction that is no exchange, after which the rest of the call returns.\<close>

lemma push_returns:
  assumes "live_inv k d c" "is_push_pc (pcs c t)" "\<And>w. push_instr w (shared c) (pcs c t) = Inr (pc, q)"
    and "length (claimed (pcs c t) pc) + d' \<le> d"
    and rest: "\<And>c'. live_inv k d' c' \<Longrightarrow> pcs c' t = pc \<Longrightarrow> shared c' = q \<Longrightarrow> returns c' t n f"
  shows "returns c t (Suc n) f"
proof -
  let ?c = "\<lparr>shared = q, pcs = (pcs c)(t := pc), pushes = pushes c @ claimed (pcs c t) pc, pulls = pulls c\<rparr>"
  have a: "run_instr w c t = Some ?c" for w using assms(2,3) by (simp add: run_instr_def)
  have "live_inv k d' ?c" by (rule live_step[OF assms(1) a]) (use assms(4) in simp)
  then have "returns ?c t n f" by (rule rest) simp_all
  then show ?thesis using returns_step[OF a] returns_fewer a by blast
qed

lemma pull_returns:
  assumes "live_inv k d c" "\<not> is_push_pc (pcs c t)" "\<And>w. pull_instr w (shared c) (pcs c t) = Inr (pc, q)"
    and rest: "\<And>c'. live_inv k d c' \<Longrightarrow> pcs c' t = pc \<Longrightarrow> shared c' = q \<Longrightarrow> returns c' t n f"
  shows "returns c t (Suc n) f"
proof -
  let ?c = "\<lparr>shared = q, pcs = (pcs c)(t := pc), pushes = pushes c, pulls = pulls c @ taken (pcs c t) pc\<rparr>"
  have a: "run_instr w c t = Some ?c" for w using assms(2,3) by (simp add: run_instr_def)
  have "live_inv k d ?c" by (rule live_step[OF assms(1) a]) simp
  then have "returns ?c t n f" by (rule rest) simp_all
  then show ?thesis using returns_step[OF a] returns_fewer a by blast
qed

lemma ret_returns: "pcs c t = Ret rc v \<Longrightarrow> returns c t n f"
  by (rule returns_now) (simp add: is_ret_def)

lemma live_shape: "live_inv k d c \<Longrightarrow> q_shape k (shared c) (pushes c)"
  by (simp add: live_inv_def conc_inv_def)

text \<open>The position that an instruction compares is below the largest signed number, and so is the
  sequence number that it reads.\<close>

lemma uint_unat: "uint a < uint b \<longleftrightarrow> unat a < unat b" "uint a = uint b \<longleftrightarrow> unat a = unat b" for a b :: u64
  by (simp_all add: word_less_nat_alt[symmetric] word_less_def[symmetric] word_unat_eq_iff[symmetric] word_uint_eq_iff[symmetric])

lemma live_diff:
  assumes "live_inv k d c" "unat p < 2 ^ 63"
  shows "pos_diff (sequence (buffer (shared c) ! (n mod 2 ^ k))) p = Inr (uint (sequence (buffer (shared c) ! (n mod 2 ^ k))) - uint p)"
proof -
  have "conc_inv k c" using assms(1) by (simp add: live_inv_def)
  from pos_diff_small[OF seq_below63[OF this, of n] assms(2)] show ?thesis .
qed

section \<open>Pushes\<close>

lemma push_store_returns:
  assumes "live_inv k 0 c" "pcs c t = Push_Store x p"
  shows "returns c t (Suc 0) f"
  by (rule push_returns[OF assms(1), where pc = "Ret 1 None" and d' = 0])
    (use assms(2) put_sequence_upd[OF live_shape[OF assms(1)]] in \<open>auto simp: is_push_pc_def intro: ret_returns\<close>)

lemma push_data_returns:
  assumes "live_inv k 0 c" "pcs c t = Push_Data x p"
  shows "returns c t (Suc (Suc 0)) f"
  by (rule push_returns[OF assms(1), where pc = "Push_Store x p" and d' = 0])
    (use assms(2) put_data_upd[OF live_shape[OF assms(1)]] in \<open>auto simp: is_push_pc_def intro: push_store_returns\<close>)

text \<open>The exchange at the tail takes the position, or fails spuriously and is repeated.\<close>

lemma push_cas_tail_returns:
  fixes c :: "'a conc"
  assumes l: "live_inv k 1 c" and pc: "pcs c t = Push_Cas x (tail (shared c))"
    and again: "\<And>c' :: 'a conc. live_inv k 1 c' \<Longrightarrow> pcs c' t = Push_Seq x (tail (shared c')) \<Longrightarrow> 0 < f \<Longrightarrow> returns c' t 4 (f - 1)"
  shows "returns c t 3 f"
proof -
  let ?q = "shared c"
  let ?c1 = "\<lparr>shared = ?q\<lparr>tail := tail ?q + 1\<rparr>, pcs = (pcs c)(t := Push_Data x (tail ?q)), pushes = pushes c @ [x], pulls = pulls c\<rparr>"
  let ?c2 = "\<lparr>shared = ?q, pcs = (pcs c)(t := Push_Seq x (tail ?q)), pushes = pushes c, pulls = pulls c\<rparr>"
  have s: "run_instr False c t = Some ?c1" "run_instr True c t = Some ?c2" using pc by (simp_all add: run_instr_def is_push_pc_def)
  have "live_inv k 0 ?c1" by (rule live_step[OF l s(1)]) simp
  then have 1: "returns ?c1 t 2 f" using push_data_returns[of k ?c1 t x "tail ?q" f] by (simp add: numeral_2_eq_2)
  have "live_inv k 1 ?c2" by (rule live_step[OF l s(2)]) simp
  then have "0 < f \<Longrightarrow> returns ?c2 t (2 + 2) (f - 1)" using again[of ?c2] by simp
  with returns_step[OF s(1) 1] s(2) show ?thesis by (simp add: numeral_3_eq_3 numeral_2_eq_2)
qed

lemma push_seq_instr:
  assumes "live_inv k d c" "unat pos < 2 ^ 63"
  shows "push_instr w (shared c) (Push_Seq x pos) = (let s = seq_at (shared c) (unat pos mod 2 ^ k) in
     Inr (if s = unat pos then Push_Cas x pos else if s < unat pos then Ret 0 None else Push_Load x, shared c))"
  using live_shape[OF assms(1)] by (simp add: Let_def live_diff[OF assms] uint_unat)

text \<open>At the tail the sequence number is never ahead of the position.\<close>

lemma push_tail_returns:
  "live_inv k 1 c \<Longrightarrow> pcs c t = Push_Seq x (tail (shared c)) \<Longrightarrow> returns c t 4 f"
proof (induction f arbitrary: c rule: less_induct)
  case (less f)
  let ?p = "tail (shared c)" and ?s = "seq_at (shared c) (unat (tail (shared c)) mod 2 ^ k)"
  have inv: "conc_inv k c" using less.prems(1) by (simp add: live_inv_def)
  note I = conc_invD[OF inv]
  have T: "unat ?p = length (pushes c)" "unat ?p < 2 ^ 63"
    using I(1) less.prems(1) by (simp_all add: q_shape_def live_inv_def)
  define pc where "pc = (if ?s = unat ?p then Push_Cas x ?p else Ret 0 None)"
  have "?s < unat ?p" if "?s \<noteq> unat ?p"
    using cell_of_tail[OF I(1,2)] T(1) that by (cases "length (pushes c) \<le> ?s") simp_all
  then have i: "push_instr w (shared c) (Push_Seq x ?p) = Inr (pc, shared c)" for w
    using push_seq_instr[OF less.prems(1) T(2)] by (simp add: Let_def pc_def)
  have cas: "returns c' t 3 f" if "live_inv k 1 c'" "pcs c' t = Push_Cas x (tail (shared c'))" for c'
    by (rule push_cas_tail_returns[OF that]) (use less.IH in auto)
  have "returns c t (Suc 3) f"
    by (rule push_returns[OF less.prems(1), where pc = pc and q = "shared c" and d' = 1])
      (use less.prems(2) i cas in \<open>auto simp: is_push_pc_def pc_def split: if_splits intro: ret_returns\<close>)
  then show ?case by simp
qed

lemma push_cas_returns:
  assumes "live_inv k 1 c" "pcs c t = Push_Cas x p"
  shows "returns c t 5 f"
proof (cases "tail (shared c) = p")
  case True
  have "returns c t 3 f" by (rule push_cas_tail_returns[OF assms(1)]) (use assms(2) True push_tail_returns in auto)
  then show ?thesis by (rule returns_mono) simp
next
  case False
  have "returns c t (Suc 4) f"
    by (rule push_returns[OF assms(1), where pc = "Push_Seq x (tail (shared c))" and q = "shared c" and d' = 1])
      (use assms(2) False in \<open>auto simp: is_push_pc_def intro: push_tail_returns\<close>)
  then show ?thesis by simp
qed

lemma push_load_returns:
  assumes "live_inv k 1 c" "pcs c t = Push_Load x"
  shows "returns c t 5 f"
proof -
  have "returns c t (Suc 4) f"
    by (rule push_returns[OF assms(1), where pc = "Push_Seq x (tail (shared c))" and q = "shared c" and d' = 1])
      (use assms(2) in \<open>auto simp: is_push_pc_def intro: push_tail_returns\<close>)
  then show ?thesis by simp
qed

lemma push_seq_returns:
  assumes "live_inv k 1 c" "pcs c t = Push_Seq x p"
  shows "returns c t 6 f"
proof -
  have inv: "conc_inv k c" using assms(1) by (simp add: live_inv_def)
  have "unat p \<le> length (pushes c)" using conc_invD(3)[OF inv, of t] assms(2) by simp
  then have "unat p < 2 ^ 63" using assms(1) by (simp add: live_inv_def)
  then obtain pc where i: "\<And>w. push_instr w (shared c) (Push_Seq x p) = Inr (pc, shared c)"
    "pc = Push_Cas x p \<or> pc = Ret 0 None \<or> pc = Push_Load x"
    using push_seq_instr[OF assms(1)] by (auto simp: Let_def)
  have "returns c t (Suc 5) f"
    by (rule push_returns[OF assms(1), where pc = pc and q = "shared c" and d' = 1])
      (use assms(2) i in \<open>auto simp: is_push_pc_def intro: ret_returns push_cas_returns push_load_returns\<close>)
  then show ?thesis by simp
qed

section \<open>Pulls\<close>

lemma pull_store_returns:
  assumes "live_inv k d c" "pcs c t = Pull_Store p v"
  shows "returns c t (Suc 0) f"
  by (rule pull_returns[OF assms(1), where pc = "Ret 1 v"])
    (use assms(2) put_sequence_upd[OF live_shape[OF assms(1)]] in \<open>auto simp: is_push_pc_def intro: ret_returns\<close>)

lemma pull_data_returns:
  assumes "live_inv k d c" "pcs c t = Pull_Data p"
  shows "returns c t (Suc (Suc 0)) f"
  by (rule pull_returns[OF assms(1), where pc = "Pull_Store p (qdata (buffer (shared c) ! (unat p mod 2 ^ k)))" and q = "shared c"])
    (use assms(2) live_shape[OF assms(1)] in \<open>auto simp: is_push_pc_def intro: pull_store_returns\<close>)

lemma pull_cas_head_returns:
  fixes c :: "'a conc"
  assumes l: "live_inv k d c" and pc: "pcs c t = Pull_Cas (head (shared c))"
    and again: "\<And>c' :: 'a conc. live_inv k d c' \<Longrightarrow> pcs c' t = Pull_Seq (head (shared c')) \<Longrightarrow> 0 < f \<Longrightarrow> returns c' t 4 (f - 1)"
  shows "returns c t 3 f"
proof -
  let ?q = "shared c"
  let ?c1 = "\<lparr>shared = ?q\<lparr>head := head ?q + 1\<rparr>, pcs = (pcs c)(t := Pull_Data (head ?q)), pushes = pushes c, pulls = pulls c\<rparr>"
  let ?c2 = "\<lparr>shared = ?q, pcs = (pcs c)(t := Pull_Seq (head ?q)), pushes = pushes c, pulls = pulls c\<rparr>"
  have s: "run_instr False c t = Some ?c1" "run_instr True c t = Some ?c2" using pc by (simp_all add: run_instr_def is_push_pc_def)
  have "live_inv k d ?c1" by (rule live_step[OF l s(1)]) simp
  then have 1: "returns ?c1 t 2 f" using pull_data_returns[of k d ?c1 t "head ?q" f] by (simp add: numeral_2_eq_2)
  have "live_inv k d ?c2" by (rule live_step[OF l s(2)]) simp
  then have "0 < f \<Longrightarrow> returns ?c2 t (2 + 2) (f - 1)" using again[of ?c2] by simp
  with returns_step[OF s(1) 1] s(2) show ?thesis by (simp add: numeral_3_eq_3 numeral_2_eq_2)
qed

lemma pull_seq_instr:
  assumes "live_inv k d c" "unat (pos + 1) < 2 ^ 63"
  shows "pull_instr w (shared c) (Pull_Seq pos) = (let s = seq_at (shared c) (unat pos mod 2 ^ k) in
     Inr (if s = unat (pos + 1) then Pull_Cas pos else if s < unat (pos + 1) then Ret 0 None else Pull_Load, shared c))"
  using live_shape[OF assms(1)] by (simp add: Let_def live_diff[OF assms] uint_unat)

text \<open>The next position of a pull is below the largest signed number, too.\<close>

lemma pull_next_small:
  assumes l: "live_inv k d c" and pc: "pcs c t = Pull_Seq p"
  shows "unat (p + 1) = Suc (unat p)" "unat (p + 1) < 2 ^ 63"
proof -
  have inv: "conc_inv k c" using l by (simp add: live_inv_def)
  note I = conc_invD[OF inv]
  show n: "unat (p + 1) = Suc (unat p)" by (rule pull_next[OF inv pc])
  have "unat p \<le> unat (head (shared c))" using I(3)[of t] pc by simp
  moreover have "length (pushes c) + 2 ^ k < 2 ^ 63" using I(1) by (simp add: q_shape_def)
  ultimately show "unat (p + 1) < 2 ^ 63" using I(6) n two_le_size[OF I(1)] by linarith
qed

lemma pull_head_returns:
  fixes c :: "'a conc"
  shows "live_inv k d c \<Longrightarrow> pcs c t = Pull_Seq (head (shared c)) \<Longrightarrow> returns c t 4 f"
proof (induction f arbitrary: c rule: less_induct)
  case (less f)
  let ?h = "head (shared c)" and ?s = "seq_at (shared c) (unat (head (shared c)) mod 2 ^ k)"
  have inv: "conc_inv k c" using less.prems(1) by (simp add: live_inv_def)
  note I = conc_invD[OF inv]
  note n = pull_next_small[OF less.prems]
  define pc where "pc = (if ?s = unat (?h + 1) then Pull_Cas ?h else Ret 0 None :: 'a mpmc_pc)"
  have "?s < unat (?h + 1)" if "?s \<noteq> unat (?h + 1)"
    using cell_of_head[OF I(1,2)] n(1) that by (cases "unat ?h < ?s") simp_all
  then have i: "pull_instr w (shared c) (Pull_Seq ?h) = Inr (pc, shared c)" for w
    using pull_seq_instr[OF less.prems(1) n(2)] by (simp add: Let_def pc_def)
  have cas: "returns c' t 3 f" if "live_inv k d c'" "pcs c' t = Pull_Cas (head (shared c'))" for c' :: "'a conc"
    by (rule pull_cas_head_returns[OF that]) (use less.IH in auto)
  have "returns c t (Suc 3) f"
    by (rule pull_returns[OF less.prems(1), where pc = pc and q = "shared c"])
      (use less.prems(2) i cas in \<open>auto simp: is_push_pc_def pc_def split: if_splits intro: ret_returns\<close>)
  then show ?case by simp
qed

lemma pull_cas_returns:
  assumes "live_inv k d c" "pcs c t = Pull_Cas p"
  shows "returns c t 5 f"
proof (cases "head (shared c) = p")
  case True
  have "returns c t 3 f" by (rule pull_cas_head_returns[OF assms(1)]) (use assms(2) True pull_head_returns in auto)
  then show ?thesis by (rule returns_mono) simp
next
  case False
  have "returns c t (Suc 4) f"
    by (rule pull_returns[OF assms(1), where pc = "Pull_Seq (head (shared c))" and q = "shared c"])
      (use assms(2) False in \<open>auto simp: is_push_pc_def intro: pull_head_returns\<close>)
  then show ?thesis by simp
qed

lemma pull_load_returns:
  assumes "live_inv k d c" "pcs c t = Pull_Load"
  shows "returns c t 5 f"
proof -
  have "returns c t (Suc 4) f"
    by (rule pull_returns[OF assms(1), where pc = "Pull_Seq (head (shared c))" and q = "shared c"])
      (use assms(2) in \<open>auto simp: is_push_pc_def intro: pull_head_returns\<close>)
  then show ?thesis by simp
qed

lemma pull_seq_returns:
  assumes "live_inv k d c" "pcs c t = Pull_Seq p"
  shows "returns c t 6 f"
proof -
  obtain pc :: "'a mpmc_pc" where i: "\<And>w. pull_instr w (shared c) (Pull_Seq p) = Inr (pc, shared c)"
    "pc = Pull_Cas p \<or> pc = Ret 0 None \<or> pc = Pull_Load"
    using pull_seq_instr[OF assms(1) pull_next_small(2)[OF assms]] by (auto simp: Let_def)
  have "returns c t (Suc 5) f"
    by (rule pull_returns[OF assms(1), where pc = pc and q = "shared c"])
      (use assms(2) i in \<open>auto simp: is_push_pc_def intro: ret_returns pull_cas_returns pull_load_returns\<close>)
  then show ?thesis by simp
qed

section \<open>Properties\<close>

text \<open>Property C18: in every state that interleaved calls can reach, a thread that then runs alone returns from its call
  within six instructions, whatever calls the other threads are in the middle of; each of its weak
  exchanges that fails spuriously costs it two instructions more. \<open>ws\<close> says for its next
  instructions whether they fail spuriously.\<close>
theorem mpmc_alone_returns:
  assumes "mpmc_queue_init (2 ^ k) mem = Inr (0, Some q)" "1 \<le> k" "k \<le> 62"
    and "mpmc_reach (conc_init q) c" "length (pushes c) + 1 + 2 ^ k < 2 ^ 63"
    and "6 + 2 * count_list ws True \<le> length ws"
  shows "\<exists>m \<le> 6 + 2 * count_list ws True. \<exists>c'. run_schedule c (alone t (take m ws)) = Some c' \<and> is_ret (pcs c' t)"
proof -
  let ?f = "count_list ws True"
  have "conc_inv k c" using reach_inv[OF assms(4) init_holds[OF assms(1-3)]] assms(5) by simp
  then have l: "live_inv k 1 c" "live_inv k 0 c" using assms(5) by (simp_all add: live_inv_def)
  note r0 = push_store_returns[OF l(2)] push_data_returns[OF l(2)]
  note r = push_cas_returns[OF l(1)] push_load_returns[OF l(1)] push_seq_returns[OF l(1)]
    pull_store_returns[OF l(1)] pull_data_returns[OF l(1)] pull_cas_returns[OF l(1)] pull_load_returns[OF l(1)] pull_seq_returns[OF l(1)]
  have "returns c t 6 ?f"
  proof (cases "pcs c t")
    case (Ret rc v)
    then show ?thesis by (rule ret_returns)
  qed (rule returns_mono, (erule r | erule r0), simp)+
  then show ?thesis using assms(6) unfolding returns_def by simp
qed

text \<open>
  The thread that runs alone pulls, while a push has claimed the next position and is not finished;
  and the thread that pushes finishes although its exchange fails twice.
\<close>

theorem mpmc_alone_returns_witness:
  "\<exists>c m c' m' c''. run_schedule (conc_init sample_queue) [Do_Push 0 7, Run 0, Do_Pull 1, Run 1] = Some c \<and>
     pcs c 0 = Push_Seq 7 0 \<and> m \<le> 6 \<and> run_schedule c (alone 1 (take m (replicate 6 False))) = Some c' \<and> is_ret (pcs c' 1) \<and>
     m' \<le> 10 \<and> run_schedule c (alone 0 (take m' ([False, True, False, True] @ replicate 6 False))) = Some c'' \<and> is_ret (pcs c'' 0)"
proof -
  let ?a = "[Do_Push 0 7, Run 0, Do_Pull 1, Run 1] :: nat action list" and ?w = "[False, True, False, True] @ replicate 6 False"
  have "\<exists>c. run_schedule (conc_init sample_queue) ?a = Some c \<and> pushes c = [] \<and> pcs c 0 = Push_Seq 7 0"
    by (simp add: conc_init_def sample_queue_def run_simps)
  then obtain c where c: "run_schedule (conc_init sample_queue) ?a = Some c" "pushes c = []" "pcs c 0 = Push_Seq 7 0" by blast
  have r: "mpmc_reach (conc_init sample_queue) c" by (rule run_reach[OF c(1) mpmc_reach.start])
  have b: "length (pushes c) + 1 + 2 ^ 1 < 2 ^ 63" using c(2) by simp
  note A = mpmc_alone_returns[OF sample_init _ _ r b]
  have "6 + 2 * count_list (replicate 6 False) True \<le> length (replicate 6 False)" "6 + 2 * count_list ?w True \<le> length ?w"
    "6 + 2 * count_list (replicate 6 False) True = 6" "6 + 2 * count_list ?w True = 10" by (simp_all add: eval_nat_numeral)
  with A[of "replicate 6 False" 1] A[of ?w 0] c(1,3) show ?thesis by auto
qed

end
