(* ===== verification/Emulator.thy ===== *)
theory Emulator
  imports Thread_Run
begin

text \<open>
  The whole emulator as a transition system: bursts, dropped packets, pushes and pulls of the
  threads, and the kernel, in any order. It simulates the buffer machine of \<open>Buffers\<close>: what a
  thread holds in its hands, what it has forgotten and what the queues hold are that machine's
  packets in flight. The passes of \<open>Threads\<close> are sequences of these steps.

  A burst, a dropped packet, a push or a pull is one step. So the results below are about runs
  in which no two threads are inside operations on the cache of the same port at the same time.
  The program does not ensure this, since the receiving and the sending thread of a port share
  its cache without a lock: what may happen otherwise is in \<open>Cache_Race\<close>. (For the queues the
  grain does not matter: see \<open>Mpmc_Conc\<close>.)
\<close>

section \<open>Simulation\<close>

text \<open>A transition system whose steps are, seen through \<open>abs\<close>, steps of another one.\<close>

locale simulation =
  fixes inv :: "'c \<Rightarrow> bool"
    and cstep :: "'c \<Rightarrow> 'c \<Rightarrow> bool"
    and astep :: "'a \<Rightarrow> 'a \<Rightarrow> bool"
    and abs :: "'c \<Rightarrow> 'a"
  assumes simulates: "inv s \<Longrightarrow> cstep s s' \<Longrightarrow> inv s' \<and> astep\<^sup>*\<^sup>* (abs s) (abs s')"
begin

lemma reachable: "cstep\<^sup>*\<^sup>* s s' \<Longrightarrow> inv s \<Longrightarrow> inv s' \<and> astep\<^sup>*\<^sup>* (abs s) (abs s')"
proof (induction rule: rtranclp_induct)
  case (step y z)
  then show ?case using simulates[of y z] by (metis rtranclp_trans)
qed simp

lemmas keeps_inv = reachable[THEN conjunct1] and refines = reachable[THEN conjunct2]

end

section \<open>The emulator's steps\<close>

datatype queue_kind = Local_Dest | Transit_Dest | Veth_Side

fun queues_of :: "queue_kind \<Rightarrow> emu \<Rightarrow> burst_tx mpmc_queue list" where
  "queues_of Local_Dest e = local_per_dest_queue e"
| "queues_of Transit_Dest e = non_local_per_dest_queue e"
| "queues_of Veth_Side e = veth_side_queue e"

fun with_queues :: "queue_kind \<Rightarrow> burst_tx mpmc_queue list \<Rightarrow> emu \<Rightarrow> emu" where
  "with_queues Local_Dest qs e = e\<lparr>local_per_dest_queue := qs\<rparr>"
| "with_queues Transit_Dest qs e = e\<lparr>non_local_per_dest_queue := qs\<rparr>"
| "with_queues Veth_Side qs e = e\<lparr>veth_side_queue := qs\<rparr>"

text \<open>
  The emulator with, for each port, the buffers the kernel holds, with the buffers in the
  threads' hands: received or pulled, and not yet pushed, sent or dropped; and with the buffers
  that a thread has lost: it went on to the next packet without any of these.
\<close>

record esys =
  em :: emu
  kheld :: "(u64 multiset \<times> u64 multiset) list"
  hand :: "u64 multiset"
  lost :: "u64 multiset"

definition queue_bufs :: "burst_tx mpmc_queue list \<Rightarrow> u64 multiset" where
  "queue_bufs qs = (\<Sum>q \<leftarrow> qs. mset (map tx_addr (q_content q)))"

definition queued :: "emu \<Rightarrow> u64 multiset" where
  "queued e = queue_bufs (local_per_dest_queue e) + queue_bufs (non_local_per_dest_queue e) + queue_bufs (veth_side_queue e)"

definition kport_of :: "port \<Rightarrow> u64 multiset \<times> u64 multiset \<Rightarrow> kport" where
  "kport_of p x = \<lparr>kp = p, krx = fst x, ktx = snd x\<rparr>"

definition view :: "esys \<Rightarrow> psys" where
  "view s = \<lparr>spool = epool (em s), kports = map2 kport_of (eports (em s)) (kheld s), flight = queued (em s) + lost s + hand s\<rparr>"

text \<open>Everything but the buffers may change: packet contents, tables, clock, logs, counters.\<close>

definition same_buffers :: "emu \<Rightarrow> emu \<Rightarrow> bool" where
  "same_buffers e e' \<longleftrightarrow> epool e' = epool e \<and> eports e' = eports e \<and> (\<forall>k. queues_of k e' = queues_of k e)"

inductive emu_step :: "ring_sizes \<Rightarrow> esys \<Rightarrow> esys \<Rightarrow> bool" for z :: ring_sizes where
  receive: "emu_rx_burst pi ks (em s) = Some (Inr (pkts, e')) \<Longrightarrow>
     emu_step z s (s\<lparr>em := e', hand := hand s + mset (map fst pkts)\<rparr>)"
| send: "\<lbrakk>pi < length (eports (em s)); length b \<le> MAX_BURST_TX; mset (map fst b) \<subseteq># hand s;
     port_tx_burst_collector (epool (em s)) (eports (em s) ! pi) b ks = Some (Inr (bp', p', ys)); x = kheld s ! pi\<rbrakk> \<Longrightarrow>
     emu_step z s (s\<lparr>em := (em s)\<lparr>epool := bp', eports := (eports (em s))[pi := p']\<rparr>,
       kheld := (kheld s)[pi := (fst x, snd x + mset (map desc_addr ys))], hand := hand s - mset (map fst b)\<rparr>)"
| discard: "\<lbrakk>a \<in># hand s; drop_buffer pi a (em s) = Inr e'\<rbrakk> \<Longrightarrow>
     emu_step z s (s\<lparr>em := e', hand := hand s - {#a#}\<rparr>)"
| push: "\<lbrakk>tx_addr b \<in># hand s; push_to (queues_of k (em s)) i b = Some (Inr (ret, qs))\<rbrakk> \<Longrightarrow>
     emu_step z s (s\<lparr>em := with_queues k qs (em s), hand := hand s - (if ret = 0 then {#} else {#tx_addr b#})\<rparr>)"
| pull: "pull_from (queues_of k (em s)) i = Some (Inr (ret, x, qs)) \<Longrightarrow>
     emu_step z s (s\<lparr>em := with_queues k qs (em s), hand := hand s + (if ret = 0 then {#} else {#tx_addr (the x)#})\<rparr>)"
| forget: "a \<in># hand s \<Longrightarrow> emu_step z s (s\<lparr>hand := hand s - {#a#}, lost := lost s + {#a#}\<rparr>)"
| kernel: "\<lbrakk>psys_step z (view s) p; spool p = spool (view s); flight p = flight (view s)\<rbrakk> \<Longrightarrow>
     emu_step z s (s\<lparr>em := (em s)\<lparr>eports := map kp (kports p)\<rparr>, kheld := map (\<lambda>k. (krx k, ktx k)) (kports p)\<rparr>)"
| other: "same_buffers (em s) e' \<Longrightarrow> emu_step z s (s\<lparr>em := e'\<rparr>)"

section \<open>The invariant\<close>

definition queue_ok :: "burst_tx mpmc_queue \<Rightarrow> bool" where
  "queue_ok q \<longleftrightarrow> (\<exists>k \<le> 30. holds q k (q_content q))"

definition emu_inv :: "nat \<Rightarrow> ring_sizes \<Rightarrow> nat multiset \<Rightarrow> esys \<Rightarrow> bool" where
  "emu_inv m z B s \<longleftrightarrow> sys_inv m z B (view s) \<and> (\<forall>k. \<forall>q \<in> set (queues_of k (em s)). queue_ok q) \<and>
     length (kheld s) = length (eports (em s))"

lemma queues_with [simp]: "queues_of j (with_queues k qs e) = (if j = k then qs else queues_of j e)"
  "epool (with_queues k qs e) = epool e" "eports (with_queues k qs e) = eports e"
  by (cases k; cases j; simp)+

lemma queue_okI: "holds q k xs \<Longrightarrow> k \<le> 30 \<Longrightarrow> queue_ok q"
  using q_content_holds[of q k xs] by (auto simp: queue_ok_def)

lemma queued_kinds: "queued e = queue_bufs (queues_of Local_Dest e) + queue_bufs (queues_of Transit_Dest e) +
    queue_bufs (queues_of Veth_Side e)"
  by (simp add: queued_def)

lemma queue_bufs_update:
  "i < length qs \<Longrightarrow> queue_bufs (qs[i := q]) + mset (map tx_addr (q_content (qs ! i))) =
     queue_bufs qs + mset (map tx_addr (q_content q))"
  unfolding queue_bufs_def by (rule sum_list_update_mset)

lemma queued_update:
  assumes "i < length (queues_of k e)"
  shows "queued (with_queues k ((queues_of k e)[i := q]) e) + mset (map tx_addr (q_content (queues_of k e ! i))) =
    queued e + mset (map tx_addr (q_content q))"
  using queue_bufs_update[OF assms, of q] by (cases k) (simp_all add: queued_kinds ac_simps)

lemma queued_same: "same_buffers e e' \<Longrightarrow> queued e' = queued e"
  by (simp add: same_buffers_def queued_kinds)

lemma view_ports:
  assumes "length (kheld s) = length (eports (em s))"
  shows "length (kports (view s)) = length (eports (em s))" "map kp (kports (view s)) = eports (em s)"
    "map (\<lambda>k. (krx k, ktx k)) (kports (view s)) = kheld s"
    "i < length (eports (em s)) \<Longrightarrow> kports (view s) ! i = kport_of (eports (em s) ! i) (kheld s ! i)"
  using assms by (auto simp: view_def kport_of_def intro!: nth_equalityI)

lemma view_update:
  "view (s\<lparr>em := (em s)\<lparr>epool := bp, eports := (eports (em s))[i := p]\<rparr>, kheld := (kheld s)[i := x], hand := h\<rparr>) =
    (view s)\<lparr>spool := bp, kports := (kports (view s))[i := kport_of p x], flight := queued (em s) + lost s + h\<rparr>"
  by (simp add: view_def zip_update map_update queued_def)

text \<open>The same, when the kernel holds what it held.\<close>

lemma view_update_port:
  "view (s\<lparr>em := (em s)\<lparr>epool := bp, eports := (eports (em s))[i := p]\<rparr>, hand := h\<rparr>) =
    (view s)\<lparr>spool := bp, kports := (kports (view s))[i := kport_of p (kheld s ! i)], flight := queued (em s) + lost s + h\<rparr>"
  using view_update[where s = s and bp = bp and i = i and p = p and x = "kheld s ! i" and h = h] by simp

lemma queues_ports [simp]: "queues_of k (e\<lparr>epool := bp, eports := ps\<rparr>) = queues_of k e"
  "queues_of k (e\<lparr>eports := ps\<rparr>) = queues_of k e" "queues_of k (e\<lparr>epool := bp\<rparr>) = queues_of k e"
  by (cases k; simp)+

section \<open>Every step is a step of the buffer machine\<close>

lemma emu_rx_burst_iff:
  "emu_rx_burst pi ks e = Some (Inr (pkts, e')) \<longleftrightarrow> pi < length (eports e) \<and>
    (\<exists>bp' p' ys. port_rx_burst (epool e) (eports e ! pi) ks = Some (Inr (pkts, bp', p', ys)) \<and>
      e' = e\<lparr>epool := bp', eports := (eports e)[pi := p']\<rparr>)"
  by (auto simp: emu_rx_burst_def rthen_Inr_iff arr_get_def split: if_splits)

lemma drop_buffer_iff:
  "drop_buffer pi a e = Inr e' \<longleftrightarrow> pi < length (eports e) \<and>
    (\<exists>bp' c'. bcache_prod (epool e) (bc (eports e ! pi)) a = Inr (bp', c') \<and>
      e' = e\<lparr>epool := bp', eports := (eports e)[pi := (eports e ! pi)\<lparr>bc := c'\<rparr>]\<rparr>)"
  by (auto simp: drop_buffer_def res_simps arr_get_def split: if_splits)

lemma emu_invD:
  assumes "emu_inv m z B s" "i < length (eports (em s))"
  shows "sys_inv m z B (view s)" "i < length (kports (view s))" "kports (view s) ! i = kport_of (eports (em s) ! i) (kheld s ! i)"
    "length (kheld s) = length (eports (em s))"
  using assms view_ports[of s] by (simp_all add: emu_inv_def)

text \<open>A step on port \<open>i\<close> that the buffer machine can make.\<close>

lemma port_step_sim:
  assumes inv: "emu_inv m z B s" and step: "psys_step z (view s) (view s')"
    and q: "\<And>k. queues_of k (em s') = queues_of k (em s)" and l: "length (kheld s') = length (eports (em s'))"
  shows "emu_inv m z B s' \<and> (psys_step z)\<^sup>*\<^sup>* (view s) (view s')"
  using step_keeps_inv[OF step] inv step q l by (auto simp: emu_inv_def)

lemma receive_sim:
  assumes inv: "emu_inv m z B s" and r: "emu_rx_burst pi ks (em s) = Some (Inr (pkts, e'))"
  shows "psys_step z (view s) (view (s\<lparr>em := e', hand := hand s + mset (map fst pkts)\<rparr>))"
proof -
  obtain bp' p' ys where r': "pi < length (eports (em s))"
    "port_rx_burst (epool (em s)) (eports (em s) ! pi) ks = Some (Inr (pkts, bp', p', ys))"
    "e' = (em s)\<lparr>epool := bp', eports := (eports (em s))[pi := p']\<rparr>" using r by (auto simp: emu_rx_burst_iff)
  note D = emu_invD[OF inv r'(1)]
  let ?k = "kport_of (eports (em s) ! pi) (kheld s ! pi)"
  have k: "?k = kports (view s) ! pi" using D(3) by simp
  have rx: "port_rx_burst (spool (view s)) (kp ?k) ks = Some (Inr (pkts, bp', p', ys))"
    using r'(2) by (simp add: view_def kport_of_def)
  then have "ys = []" using receive_ok[OF D(1,2) k, of ks] by auto
  with psys_step.receive[OF D(2) k rx] show ?thesis
    unfolding r'(3) view_update_port by (simp add: kport_of_def) (simp add: view_def add.assoc)
qed

lemma send_sim:
  assumes inv: "emu_inv m z B s" and pi: "pi < length (eports (em s))" and b: "length b \<le> MAX_BURST_TX" "mset (map fst b) \<subseteq># hand s"
    and r: "port_tx_burst_collector (epool (em s)) (eports (em s) ! pi) b ks = Some (Inr (bp', p', ys))"
    and x: "x = kheld s ! pi"
  shows "psys_step z (view s) (view (s\<lparr>em := (em s)\<lparr>epool := bp', eports := (eports (em s))[pi := p']\<rparr>,
       kheld := (kheld s)[pi := (fst x, snd x + mset (map desc_addr ys))], hand := hand s - mset (map fst b)\<rparr>))"
proof -
  note D = emu_invD[OF inv pi]
  let ?k = "kport_of (eports (em s) ! pi) (kheld s ! pi)"
  have k: "?k = kports (view s) ! pi" using D(3) by simp
  have tx: "port_tx_burst_collector (spool (view s)) (kp ?k) b ks = Some (Inr (bp', p', ys))"
    using r by (simp add: view_def kport_of_def)
  obtain h where h: "hand s = mset (map fst b) + h" using b(2) by (metis subset_mset.add_diff_inverse)
  have "mset (map fst b) \<subseteq># flight (view s)" by (simp add: view_def h)
  from psys_step.transmit[OF D(2) k b(1) this tx] show ?thesis
    unfolding view_update by (simp add: kport_of_def x) (simp add: view_def h add.assoc)
qed

lemma discard_sim:
  assumes inv: "emu_inv m z B s" and a: "a \<in># hand s" and r: "drop_buffer pi a (em s) = Inr e'"
  shows "psys_step z (view s) (view (s\<lparr>em := e', hand := hand s - {#a#}\<rparr>))"
proof -
  obtain bp' c' where r': "pi < length (eports (em s))"
    "bcache_prod (epool (em s)) (bc (eports (em s) ! pi)) a = Inr (bp', c')"
    "e' = (em s)\<lparr>epool := bp', eports := (eports (em s))[pi := (eports (em s) ! pi)\<lparr>bc := c'\<rparr>]\<rparr>"
    using r by (auto simp: drop_buffer_iff)
  note D = emu_invD[OF inv r'(1)]
  let ?k = "kport_of (eports (em s) ! pi) (kheld s ! pi)"
  have k: "?k = kports (view s) ! pi" using D(3) by simp
  have d: "bcache_prod (spool (view s)) (bc (kp ?k)) a = Inr (bp', c')" using r'(2) by (simp add: view_def kport_of_def)
  obtain h where h: "hand s = add_mset a h" using a by (metis insert_DiffM)
  have "a \<in># flight (view s)" by (simp add: view_def h)
  from psys_step.discard[OF D(2) k this d] show ?thesis
    unfolding r'(3) view_update_port by (simp add: kport_of_def) (simp add: view_def h)
qed

text \<open>A push or a pull on a well-formed queue.\<close>

lemma with_queues_id [simp]: "with_queues k (queues_of k e) e = e"
  by (cases k) simp_all

lemma push_to_ok:
  assumes "\<forall>q \<in> set qs. queue_ok q" "i < length qs"
  shows "push_to qs i b = Some (Inl Signed_Overflow) \<or> push_to qs i b = Some (Inr (0, qs)) \<or> (\<exists>q'. push_to qs i b = Some (Inr (1, qs[i := q'])) \<and> queue_ok q' \<and>
    q_content q' = q_content (qs ! i) @ [b])"
proof -
  obtain k where k: "k \<le> 30" "holds (qs ! i) k (q_content (qs ! i))"
    using assms(1)[rule_format, OF nth_mem[OF assms(2)]] by (auto simp: queue_ok_def)
  then have at: "queue_at qs i k (q_content (qs ! i))" using assms(2) by (simp add: queue_at_def)
  show ?thesis
  proof (cases "length (q_content (qs ! i)) < 2 ^ k")
    case True
    from push_to_room[OF at this, of b] obtain q' where
      "push_to qs i b = Some (Inr (1, qs[i := q']))" "holds q' k (q_content (qs ! i) @ [b])"
      using assms(2) by (auto simp: queue_at_def)
    then show ?thesis using queue_okI[OF _ k(1)] q_content_holds by blast
  next
    case False
    then have "length (q_content (qs ! i)) = 2 ^ k" using k(2) by (simp add: holds_def)
    then show ?thesis using push_to_full[OF at] by simp
  qed
qed

lemma pull_from_ok:
  assumes "\<forall>q \<in> set qs. queue_ok q" "i < length qs"
  shows "pull_from qs i = Some (Inl Signed_Overflow) \<or> pull_from qs i = Some (Inr (0, None, qs)) \<or> (\<exists>x q'. pull_from qs i = Some (Inr (1, Some x, qs[i := q'])) \<and>
    queue_ok q' \<and> q_content (qs ! i) = x # q_content q')"
proof -
  obtain k where k: "k \<le> 30" "holds (qs ! i) k (q_content (qs ! i))"
    using assms(1)[rule_format, OF nth_mem[OF assms(2)]] by (auto simp: queue_ok_def)
  show ?thesis
  proof (cases "q_content (qs ! i)")
    case Nil
    then show ?thesis using holds_pull_empty[of "qs ! i" k] k(2) assms(2) by (simp add: pull_from_def)
  next
    case (Cons x xs)
    then have "queue_at qs i k (x # xs)" using k(2) assms(2) by (simp add: queue_at_def)
    from pull_from_some[OF this] obtain q' where
      "pull_from qs i = Some (Inr (1, Some x, qs[i := q']))" "holds q' k xs" using assms(2) by (auto simp: queue_at_def)
    then show ?thesis using queue_okI[OF _ k(1)] q_content_holds Cons by metis
  qed
qed

lemma push_to_outside: "\<not> i < length qs \<Longrightarrow> push_to qs i b = Some (Inl Out_Of_Bounds)"
  by (simp add: push_to_def arr_get_def)

lemma pull_from_outside: "\<not> i < length qs \<Longrightarrow> pull_from qs i = Some (Inl Out_Of_Bounds)"
  by (simp add: pull_from_def arr_get_def)

text \<open>Steps that move a buffer between a queue and a hand, or no buffer at all, are not seen.\<close>

lemma queue_step_sim:
  assumes inv: "emu_inv m z B s" and i: "i < length (queues_of k (em s))" and q: "queue_ok q"
    and bufs: "mset (map tx_addr (q_content q)) + h = mset (map tx_addr (q_content (queues_of k (em s) ! i))) + hand s"
  shows "emu_inv m z B (s\<lparr>em := with_queues k ((queues_of k (em s))[i := q]) (em s), hand := h\<rparr>) \<and>
    view (s\<lparr>em := with_queues k ((queues_of k (em s))[i := q]) (em s), hand := h\<rparr>) = view s"
proof -
  let ?e = "with_queues k ((queues_of k (em s))[i := q]) (em s)" and ?old = "mset (map tx_addr (q_content (queues_of k (em s) ! i)))"
  have "(queued ?e + h) + ?old = (queued ?e + ?old) + h" by simp
  also have "\<dots> = (queued (em s) + mset (map tx_addr (q_content q))) + h" by (simp only: queued_update[OF i, of q])
  also have "\<dots> = queued (em s) + (?old + hand s)" by (simp only: add.assoc bufs)
  also have "\<dots> = (queued (em s) + hand s) + ?old" by simp
  finally have "queued ?e + h = queued (em s) + hand s" by (rule add_right_imp_eq)
  then have "queued ?e + lost s + h = queued (em s) + lost s + hand s" by (simp add: add.commute add.left_commute)
  then have v: "view (s\<lparr>em := ?e, hand := h\<rparr>) = view s" by (simp add: view_def)
  have "queue_ok x" if "x \<in> set (queues_of j ?e)" for x j
    using that inv q set_update_subset_insert[of "queues_of k (em s)" i q] by (auto simp: emu_inv_def split: if_splits)
  then show ?thesis using v inv by (simp add: emu_inv_def)
qed

lemma push_sim:
  assumes inv: "emu_inv m z B s" and b: "tx_addr b \<in># hand s" and r: "push_to (queues_of k (em s)) i b = Some (Inr (ret, qs))"
  defines "s' \<equiv> s\<lparr>em := with_queues k qs (em s), hand := hand s - (if ret = 0 then {#} else {#tx_addr b#})\<rparr>"
  shows "emu_inv m z B s' \<and> view s' = view s"
proof -
  have i: "i < length (queues_of k (em s))" using r push_to_outside[of i "queues_of k (em s)" b] by fastforce
  have "\<forall>q \<in> set (queues_of k (em s)). queue_ok q" using inv by (simp add: emu_inv_def)
  from push_to_ok[OF this i, of b] show ?thesis
  proof (elim disjE exE conjE)
    assume "push_to (queues_of k (em s)) i b = Some (Inl Signed_Overflow)"
    then show ?thesis using r by simp
  next
    assume "push_to (queues_of k (em s)) i b = Some (Inr (0, queues_of k (em s)))"
    then have "s' = s" using r by (simp add: s'_def)
    then show ?thesis using inv by simp
  next
    fix q assume q: "push_to (queues_of k (em s)) i b = Some (Inr (1, (queues_of k (em s))[i := q]))" "queue_ok q"
      "q_content q = q_content (queues_of k (em s) ! i) @ [b]"
    then have s': "s' = s\<lparr>em := with_queues k ((queues_of k (em s))[i := q]) (em s), hand := hand s - {#tx_addr b#}\<rparr>"
      using r by (simp add: s'_def)
    obtain h where "hand s = add_mset (tx_addr b) h" using b by (metis insert_DiffM)
    then show ?thesis unfolding s' by (intro queue_step_sim[OF inv i q(2)]) (simp add: q(3))
  qed
qed

lemma pull_sim:
  assumes inv: "emu_inv m z B s" and r: "pull_from (queues_of k (em s)) i = Some (Inr (ret, x, qs))"
  defines "s' \<equiv> s\<lparr>em := with_queues k qs (em s), hand := hand s + (if ret = 0 then {#} else {#tx_addr (the x)#})\<rparr>"
  shows "emu_inv m z B s' \<and> view s' = view s"
proof -
  have i: "i < length (queues_of k (em s))" using r pull_from_outside[of i "queues_of k (em s)"] by fastforce
  have "\<forall>q \<in> set (queues_of k (em s)). queue_ok q" using inv by (simp add: emu_inv_def)
  from pull_from_ok[OF this i] show ?thesis
  proof (elim disjE exE conjE)
    assume "pull_from (queues_of k (em s)) i = Some (Inl Signed_Overflow)"
    then show ?thesis using r by simp
  next
    assume "pull_from (queues_of k (em s)) i = Some (Inr (0, None, queues_of k (em s)))"
    then have "s' = s" using r by (simp add: s'_def)
    then show ?thesis using inv by simp
  next
    fix y q assume q: "pull_from (queues_of k (em s)) i = Some (Inr (1, Some y, (queues_of k (em s))[i := q]))" "queue_ok q"
      "q_content (queues_of k (em s) ! i) = y # q_content q"
    then have s': "s' = s\<lparr>em := with_queues k ((queues_of k (em s))[i := q]) (em s), hand := hand s + {#tx_addr y#}\<rparr>"
      using r by (simp add: s'_def)
    show ?thesis unfolding s' by (intro queue_step_sim[OF inv i q(2)]) (simp add: q(3))
  qed
qed

lemma kport_of_parts: "kport_of (kp k) (krx k, ktx k) = k"
  by (simp add: kport_of_def)

lemma emu_step_sim:
  assumes "emu_inv m z B s" "emu_step z s s'"
  shows "emu_inv m z B s' \<and> (psys_step z)\<^sup>*\<^sup>* (view s) (view s')"
  using assms(2)
proof cases
  case (receive pi ks pkts e')
  from receive_sim[OF assms(1) receive(2)] show ?thesis unfolding receive(1)
    by (rule port_step_sim[OF assms(1)]) (use receive(2) assms(1) in \<open>auto simp: emu_rx_burst_iff emu_inv_def\<close>)
next
  case (send pi b ks bp' p' ys x)
  from send_sim[OF assms(1) send(2-6)] show ?thesis unfolding send(1)
    by (rule port_step_sim[OF assms(1)]) (use assms(1) in \<open>auto simp: emu_inv_def\<close>)
next
  case (discard a pi e')
  from discard_sim[OF assms(1) discard(2,3)] show ?thesis unfolding discard(1)
    by (rule port_step_sim[OF assms(1)]) (use discard(3) assms(1) in \<open>auto simp: drop_buffer_iff emu_inv_def\<close>)
next
  case (push b k i ret qs)
  then show ?thesis using push_sim[OF assms(1) push(2,3)] by simp
next
  case (pull k i ret x qs)
  then show ?thesis using pull_sim[OF assms(1) pull(2)] by simp
next
  case (forget a)
  obtain h where "hand s = add_mset a h" using forget(2) by (metis insert_DiffM)
  then have "view s' = view s" by (simp add: forget(1) view_def)
  then show ?thesis using assms(1) by (simp add: forget(1) emu_inv_def)
next
  case (kernel p)
  have "map2 kport_of (map kp (kports p)) (map (\<lambda>k. (krx k, ktx k)) (kports p)) = kports p"
    by (rule nth_equalityI) (simp_all add: kport_of_parts)
  then have v: "view s' = p" using kernel(3,4) by (simp add: kernel(1) view_def queued_kinds)
  show ?thesis by (rule port_step_sim[OF assms(1)]) (use kernel(2) v in \<open>simp_all add: kernel(1)\<close>)
next
  case (other e')
  then have "view s' = view s" using queued_same[of "em s" e'] by (simp add: view_def same_buffers_def)
  then show ?thesis using other assms(1) by (simp add: emu_inv_def same_buffers_def)
qed

interpretation emulator: simulation "emu_inv m z B" "emu_step z" "psys_step z" view for m z B
  by unfold_locales (rule emu_step_sim)

section \<open>The thread functions are sequences of steps\<close>

text \<open>
  What a piece of a thread's function does: stop with a fault for which \<open>F\<close> holds, wait (only
  where \<open>w\<close> holds), or return a value with \<open>P\<close>.
\<close>

definition outcome :: "(fault \<Rightarrow> bool) \<Rightarrow> bool \<Rightarrow> ('a \<Rightarrow> bool) \<Rightarrow> 'a run \<Rightarrow> bool" where
  "outcome F w P r \<longleftrightarrow> (case r of None \<Rightarrow> w | Some (Inl f) \<Rightarrow> F f | Some (Inr x) \<Rightarrow> P x)"

text \<open>
  Steps lead to emulator \<open>e\<close> with exactly the buffers \<open>h\<close> in hand; if \<open>k\<close>, no further buffer is
  lost on the way.
\<close>

definition reaches :: "ring_sizes \<Rightarrow> esys \<Rightarrow> bool \<Rightarrow> u64 multiset \<Rightarrow> emu \<Rightarrow> bool" where
  "reaches z s k h e \<longleftrightarrow> (\<exists>s'. (emu_step z)\<^sup>*\<^sup>* s s' \<and> em s' = e \<and> hand s' = h \<and> lost s \<subseteq># lost s' \<and> (k \<longrightarrow> lost s' = lost s))"

text \<open>Steps lead to emulator \<open>e\<close> while a thread has buffer \<open>a\<close> in hand.\<close>

definition handling :: "ring_sizes \<Rightarrow> esys \<Rightarrow> u64 \<Rightarrow> emu \<Rightarrow> bool" where
  "handling z s a e \<longleftrightarrow> (\<exists>s'. (emu_step z)\<^sup>*\<^sup>* s s' \<and> em s' = e \<and> a \<in># hand s')"

text \<open>
  A thread waits only with a batch in hand, beside the buffers \<open>h\<close>, for a port whose transmit
  ring lacks the room for it.
\<close>

definition waits :: "ring_sizes \<Rightarrow> esys \<Rightarrow> u64 multiset \<Rightarrow> bool" where
  "waits z s h \<longleftrightarrow> (\<exists>s' pi b ks. (emu_step z)\<^sup>*\<^sup>* s s' \<and> pi < length (eports (em s')) \<and> hand s' = h + mset (map fst b) \<and>
     length b \<le> MAX_BURST_TX \<and> emu_tx_burst pi b ks (em s') = None \<and>
     2 ^ tx_bits z < length (ring_content (txq (eports (em s') ! pi))) + length b)"

text \<open>The first \<open>n\<close> ports, or queues, of a thread's table exist.\<close>

definition ports_exist :: "nat option list \<Rightarrow> nat \<Rightarrow> emu \<Rightarrow> bool" where
  "ports_exist ps n e \<longleftrightarrow> (\<forall>k < n. \<exists>pi. port_at ps k = Inr pi \<and> pi < length (eports e))"

definition queues_exist :: "nat option list \<Rightarrow> nat \<Rightarrow> burst_tx mpmc_queue list \<Rightarrow> bool" where
  "queues_exist qa n qs \<longleftrightarrow> (\<forall>w < n. \<exists>q. arr_get qa w = Inr q \<and> (\<forall>i. q = Some i \<longrightarrow> i < length qs))"

lemma outcome_simps [simp]: "outcome F w P (Some (Inr x)) = P x" "outcome F w P (Some (Inl f)) = F f" "outcome F w P None = w"
  by (simp_all add: outcome_def)

lemma outcome_rthen: "outcome F w P r \<Longrightarrow> (\<And>x. P x \<Longrightarrow> outcome F w Q (f x)) \<Longrightarrow> outcome F w Q (rthen r f)"
  by (cases "(r, f)" rule: rthen.cases) auto

lemma outcome_res: "(\<And>f. r = Inl f \<Longrightarrow> F f) \<Longrightarrow> (\<And>x. r = Inr x \<Longrightarrow> outcome F w Q (f x)) \<Longrightarrow> outcome F w Q (rthen (Some r) f)"
  by (cases r) auto

lemma outcome_rbind: "outcome F w P (Some r) \<Longrightarrow> (\<And>x. P x \<Longrightarrow> outcome F w Q (Some (f x))) \<Longrightarrow> outcome F w Q (Some (rbind r f))"
  by (cases r) auto

lemma outcome_mono: "outcome F w P r \<Longrightarrow> (\<And>x. P x \<Longrightarrow> Q x) \<Longrightarrow> outcome F w Q r"
  by (auto simp: outcome_def split: option.splits sum.splits)

lemma outcome_faults: "outcome (\<lambda>_. True) False P r \<Longrightarrow> (\<And>f. r = Some (Inl f) \<Longrightarrow> F f) \<Longrightarrow> outcome F w P r"
  by (auto simp: outcome_def split: option.splits sum.splits)

lemma outcome_run_upto:
  assumes "\<And>j x. k \<le> j \<Longrightarrow> j < k + n \<Longrightarrow> P x \<Longrightarrow> outcome F w P (f j x)" "P x"
  shows "outcome F w P (run_upto f k n x)"
  using assms
proof (induction n arbitrary: k x)
  case (Suc n)
  have "outcome F w P (f k x)" using Suc.prems(1)[of k x] Suc.prems(2) by simp
  moreover have "outcome F w P (run_upto f (k + 1) n y)" if "P y" for y
    by (rule Suc.IH[OF Suc.prems(1) that]) simp_all
  ultimately show ?case unfolding run_upto.simps by (rule outcome_rthen)
qed simp

lemma reaches_start: "reaches z s k (hand s) (em s)"
  by (auto simp: reaches_def)

lemma reaches_handling: "reaches z s k (add_mset a h) e \<Longrightarrow> handling z s a e"
  by (auto simp: reaches_def handling_def)

lemma reaches_step:
  fixes s :: esys
  assumes "reaches z s k h e"
    and "\<And>s' :: esys. em s' = e \<Longrightarrow> hand s' = h \<Longrightarrow> \<exists>s''. emu_step z s' s'' \<and> em s'' = e' \<and> hand s'' = h' \<and>
      lost s' \<subseteq># lost s'' \<and> (k \<longrightarrow> lost s'' = lost s')"
  shows "reaches z s k h' e'"
proof -
  obtain s' where s': "(emu_step z)\<^sup>*\<^sup>* s s'" "em s' = e" "hand s' = h" "lost s \<subseteq># lost s'" "k \<longrightarrow> lost s' = lost s"
    using assms(1) by (auto simp: reaches_def)
  then obtain s'' where s'': "emu_step z s' s''" "em s'' = e'" "hand s'' = h'" "lost s' \<subseteq># lost s''" "k \<longrightarrow> lost s'' = lost s'"
    using assms(2) by blast
  have "lost s \<subseteq># lost s''" using s'(4) s''(4) by (rule subset_mset.order_trans)
  moreover have "k \<longrightarrow> lost s'' = lost s" using s'(5) s''(5) by simp
  ultimately show ?thesis unfolding reaches_def
    using rtranclp.rtrancl_into_rtrancl[OF s'(1) s''(1)] s''(2,3) by blast
qed

lemma reaches_other: "reaches z s k h e \<Longrightarrow> same_buffers e e' \<Longrightarrow> reaches z s k h e'"
  by (erule reaches_step, rule exI, rule conjI, rule emu_step.other) auto

text \<open>A thread that forgets a packet loses its buffer.\<close>

lemma reaches_forget:
  assumes "reaches z s k (add_mset a h) e" "\<not> k"
  shows "reaches z s k h e"
proof (rule reaches_step[OF assms(1)])
  fix t :: esys assume t: "em t = e" "hand t = add_mset a h"
  then have "a \<in># hand t" by simp
  then show "\<exists>s''. emu_step z t s'' \<and> em s'' = e \<and> hand s'' = h \<and> lost t \<subseteq># lost s'' \<and> (k \<longrightarrow> lost s'' = lost t)"
    using t assms(2) by (intro exI[of _ "t\<lparr>hand := hand t - {#a#}, lost := lost t + {#a#}\<rparr>"] conjI emu_step.forget) auto
qed

lemma reaches_queues:
  assumes "emu_inv m z B s" "reaches z s k h e"
  shows "\<forall>q \<in> set (queues_of kd e). queue_ok q"
  using assms emulator.keeps_inv by (auto simp: reaches_def emu_inv_def)

text \<open>The ports and the queues stay where they are.\<close>

lemma reaches_ports:
  assumes inv: "emu_inv m z B s" and r: "reaches z s k h e"
  shows "length (eports e) = length (eports (em s))"
proof -
  obtain s' where s': "(emu_step z)\<^sup>*\<^sup>* s s'" "em s' = e" using r by (auto simp: reaches_def)
  have "length (kports (view s')) = length (kports (view s))" by (rule reachable_ports[OF emulator.refines[OF s'(1) inv]])
  moreover have "length (kheld s') = length (eports (em s'))" "length (kheld s) = length (eports (em s))"
    using emulator.keeps_inv[OF s'(1) inv] inv by (simp_all add: emu_inv_def)
  ultimately show ?thesis using s'(2) by (simp add: view_ports(1))
qed

lemma step_queues: "emu_step z s s' \<Longrightarrow> length (queues_of kd (em s')) = length (queues_of kd (em s))"
proof (induction rule: emu_step.induct)
  case (send pi s b ks bp' p' ys x)
  then show ?case by (cases kd) simp_all
next
  case (kernel s p)
  then show ?case by (cases kd) simp_all
qed (auto simp: emu_rx_burst_iff drop_buffer_iff push_to_def pull_from_def arr_get_def rthen_Inr_iff same_buffers_def split: if_splits)

lemma reaches_lengths: "reaches z s k h e \<Longrightarrow> length (queues_of kd e) = length (queues_of kd (em s))"
proof -
  have "(emu_step z)\<^sup>*\<^sup>* s s' \<Longrightarrow> length (queues_of kd (em s')) = length (queues_of kd (em s))" for s' s
    by (induction rule: rtranclp_induct) (simp_all add: step_queues)
  then show "reaches z s k h e \<Longrightarrow> ?thesis" by (auto simp: reaches_def)
qed

lemma reaches_receive:
  assumes inv: "emu_inv m z B s" and r: "reaches z s k h e" and pi: "pi < length (eports e)"
  shows "outcome F w (\<lambda>(pkts, e'). reaches z s k (h + mset (map fst pkts)) e') (emu_rx_burst pi ks e)"
proof -
  obtain s' where s': "(emu_step z)\<^sup>*\<^sup>* s s'" "em s' = e" "hand s' = h" using r by (auto simp: reaches_def)
  note D = emu_invD[OF emulator.keeps_inv[OF s'(1) inv]]
  have k: "kport_of (eports e ! pi) (kheld s' ! pi) = kports (view s') ! pi" "pi < length (kports (view s'))"
    using D(2,3)[of pi] pi s'(2) by simp_all
  obtain pkts bp' p' where "port_rx_burst (spool (view s')) (kp (kport_of (eports e ! pi) (kheld s' ! pi))) ks = Some (Inr (pkts, bp', p', []))"
    using receive_ok[OF D(1)[of pi] k(2) k(1), of ks] pi s'(2) by auto
  then have "port_rx_burst (epool e) (eports e ! pi) ks = Some (Inr (pkts, bp', p', []))"
    using s'(2) by (simp add: view_def kport_of_def)
  then have rx: "emu_rx_burst pi ks e = Some (Inr (pkts, e\<lparr>epool := bp', eports := (eports e)[pi := p']\<rparr>))"
    using pi by (simp add: emu_rx_burst_def)
  have "reaches z s k (h + mset (map fst pkts)) (e\<lparr>epool := bp', eports := (eports e)[pi := p']\<rparr>)"
  proof (rule reaches_step[OF r])
    fix t :: esys assume t: "em t = e" "hand t = h"
    show "\<exists>s''. emu_step z t s'' \<and> em s'' = e\<lparr>epool := bp', eports := (eports e)[pi := p']\<rparr> \<and>
        hand s'' = h + mset (map fst pkts) \<and> lost t \<subseteq># lost s'' \<and> (k \<longrightarrow> lost s'' = lost t)"
      using emu_step.receive[of pi ks t] rx t by (intro exI conjI) auto
  qed
  then show ?thesis by (simp add: rx)
qed

lemma reaches_drop:
  assumes "reaches z s k (add_mset a h) e"
  shows "outcome (\<lambda>_. True) w (reaches z s k h) (Some (drop_buffer pi a e))"
proof (cases "drop_buffer pi a e")
  case (Inr e')
  have "reaches z s k h e'"
  proof (rule reaches_step[OF assms])
    fix t :: esys assume t: "em t = e" "hand t = add_mset a h"
    then have a: "a \<in># hand t" by simp
    show "\<exists>s''. emu_step z t s'' \<and> em s'' = e' \<and> hand s'' = h \<and> lost t \<subseteq># lost s'' \<and> (k \<longrightarrow> lost s'' = lost t)"
      using emu_step.discard[OF a, of pi e'] Inr t by (intro exI conjI) auto
  qed
  then show ?thesis by (simp add: Inr)
qed simp

text \<open>Giving back a buffer in hand through the cache of a port never faults.\<close>

lemma drop_buffer_ok:
  assumes inv: "emu_inv m z B s" and a: "a \<in># hand s" and pi: "pi < length (eports (em s))"
  shows "\<exists>e'. drop_buffer pi a (em s) = Inr e'"
proof -
  note D = emu_invD[OF inv pi]
  have "a \<in># flight (view s)" using a by (simp add: view_def)
  from discard_ok[OF D(1,2) D(3)[symmetric] this] show ?thesis
    using pi unfolding drop_buffer_iff by (auto simp: view_def kport_of_def)
qed

lemma reaches_push:
  assumes inv: "emu_inv m z B s" and r: "reaches z s k (add_mset (tx_addr b) h) e"
  shows "outcome (\<lambda>_. True) w (\<lambda>(ret, qs). reaches z s k (if ret = 0 then add_mset (tx_addr b) h else h) (with_queues kd qs e))
    (push_to (queues_of kd e) i b)"
proof (cases "push_to (queues_of kd e) i b")
  case None
  then show ?thesis using push_to_ok[OF reaches_queues[OF inv r, of kd], of i b] push_to_outside[of i "queues_of kd e" b]
    by (cases "i < length (queues_of kd e)") auto
next
  case (Some res)
  show ?thesis
  proof (cases res)
    case (Inr x)
    obtain ret qs where p: "push_to (queues_of kd e) i b = Some (Inr (ret, qs))" using Some Inr by (cases x) auto
    have "reaches z s k (if ret = 0 then add_mset (tx_addr b) h else h) (with_queues kd qs e)"
    proof (rule reaches_step[OF r])
      fix t :: esys assume t: "em t = e" "hand t = add_mset (tx_addr b) h"
      then have a: "tx_addr b \<in># hand t" by simp
      show "\<exists>s''. emu_step z t s'' \<and> em s'' = with_queues kd qs e \<and>
          hand s'' = (if ret = 0 then add_mset (tx_addr b) h else h) \<and> lost t \<subseteq># lost s'' \<and> (k \<longrightarrow> lost s'' = lost t)"
        using emu_step.push[OF a, of kd i ret qs] p t by (intro exI conjI) auto
    qed
    then show ?thesis by (simp add: p)
  qed (simp add: Some)
qed

lemma reaches_pull:
  assumes "reaches z s k h e" "pull_from (queues_of kd e) i = Some (Inr (1, Some x, qs))"
  shows "reaches z s k (add_mset (tx_addr x) h) (with_queues kd qs e)"
proof (rule reaches_step[OF assms(1)])
  fix t :: esys assume t: "em t = e" "hand t = h"
  show "\<exists>s''. emu_step z t s'' \<and> em s'' = with_queues kd qs e \<and> hand s'' = add_mset (tx_addr x) h \<and>
      lost t \<subseteq># lost s'' \<and> (k \<longrightarrow> lost s'' = lost t)"
    using emu_step.pull[of kd t i 1 "Some x" qs z] assms(2) t by (intro exI conjI) auto
qed

lemma reaches_send:
  assumes inv: "emu_inv m z B s" and r: "reaches z s k (h + mset (map fst b)) e" and b: "length b \<le> MAX_BURST_TX"
    and pi: "pi < length (eports e)"
  shows "outcome F (waits z s h) (reaches z s k h) (emu_tx_burst pi b ks e)"
proof (cases "b = []")
  case True
  then show ?thesis using r by (simp add: emu_tx_burst_def)
next
  case False
  obtain s' where s': "(emu_step z)\<^sup>*\<^sup>* s s'" "em s' = e" "hand s' = h + mset (map fst b)" using r by (auto simp: reaches_def)
  have pi': "pi < length (eports (em s'))" using pi s'(2) by simp
  note D = emu_invD[OF emulator.keeps_inv[OF s'(1) inv] pi']
  let ?k = "kport_of (eports e ! pi) (kheld s' ! pi)"
  have k: "?k = kports (view s') ! pi" using D(3) s'(2) by simp
  have sub: "mset (map fst b) \<subseteq># flight (view s')" "mset (map fst b) \<subseteq># hand s'" by (simp_all add: view_def s'(3))
  have burst: "port_tx_burst_collector (spool (view s')) (kp ?k) b ks = port_tx_burst_collector (epool e) (eports e ! pi) b ks"
    using s'(2) by (simp add: view_def kport_of_def)
  show ?thesis
  proof (cases "port_tx_burst_collector (epool e) (eports e ! pi) b ks")
    case None
    note I = sys_invD[OF D(1,2) k]
    have few: "size (pooled (spool (view s')) (take pi (caches (view s')) @ bc (kp ?k) # drop (Suc pi) (caches (view s')))) +
        length (ring_content (umem_cq (kp ?k))) \<le> Suc m * unat (n_buffers_per_slab (params (spool (view s'))))"
      using sys_room_port[OF D(1,2) k] I(7) by simp
    have "length b \<le> 2 ^ tx_bits z" using b I(6) by simp
    from port_tx_burst_spec[OF I(1,3) few this, of ks] None burst
    have "2 ^ tx_bits z < length (ring_content (txq (eports e ! pi))) + length b" by (auto simp: kport_of_def)
    moreover have t: "emu_tx_burst pi b ks e = None" using None False pi by (simp add: emu_tx_burst_def)
    ultimately have "waits z s h" unfolding waits_def using s' pi b
      by (intro exI[of _ s'] exI[of _ pi] exI[of _ b] exI[of _ ks] conjI) simp_all
    then show ?thesis by (simp add: t)
  next
    case (Some res)
    obtain bp' p' ys where t: "port_tx_burst_collector (epool e) (eports e ! pi) b ks = Some (Inr (bp', p', ys))"
      using transmit_ok[OF D(1,2) k b sub(1), of ks] burst Some by auto
    have "reaches z s k h (e\<lparr>epool := bp', eports := (eports e)[pi := p']\<rparr>)"
    proof (rule reaches_step[OF r])
      fix u :: esys assume u: "em u = e" "hand u = h + mset (map fst b)"
      have 1: "pi < length (eports (em u))" "mset (map fst b) \<subseteq># hand u"
        "port_tx_burst_collector (epool (em u)) (eports (em u) ! pi) b ks = Some (Inr (bp', p', ys))" using u pi t by simp_all
      show "\<exists>s''. emu_step z u s'' \<and> em s'' = e\<lparr>epool := bp', eports := (eports e)[pi := p']\<rparr> \<and> hand s'' = h \<and>
          lost u \<subseteq># lost s'' \<and> (k \<longrightarrow> lost s'' = lost u)"
        using emu_step.send[OF 1(1) b 1(2,3) refl, of z] u by (intro exI conjI) auto
    qed
    then show ?thesis using t False pi by (simp add: emu_tx_burst_def)
  qed
qed

lemma same_buffersI: "epool e' = epool e \<Longrightarrow> eports e' = eports e \<Longrightarrow> local_per_dest_queue e' = local_per_dest_queue e \<Longrightarrow>
    non_local_per_dest_queue e' = non_local_per_dest_queue e \<Longrightarrow> veth_side_queue e' = veth_side_queue e \<Longrightarrow> same_buffers e e'"
  unfolding same_buffers_def by (intro conjI allI) (simp, simp, case_tac k, auto)

lemmas push_local = reaches_push[where kd = Local_Dest, unfolded queues_of.simps with_queues.simps]
  and push_transit = reaches_push[where kd = Transit_Dest, unfolded queues_of.simps with_queues.simps]
  and push_veth = reaches_push[where kd = Veth_Side, unfolded queues_of.simps with_queues.simps]

subsection \<open>Receiving\<close>

lemma map_zip_snd: "length xs = length ys \<Longrightarrow> map (\<lambda>x. f (snd x)) (zip xs ys) = map f ys"
  by (induction xs ys rule: list_induct2) simp_all

text \<open>
  A loop over the packets of a burst. \<open>emu_of\<close> is the emulator in the loop's state; each packet
  makes only steps, and uses only its own buffer; where \<open>good\<close> holds it does not lose it.
\<close>

locale packet_loop =
  fixes loop :: "(bool \<times> pkt) list \<Rightarrow> 'x \<Rightarrow> 'x run"
    and packet :: "bool \<Rightarrow> pkt \<Rightarrow> 'x \<Rightarrow> 'x run"
    and emu_of :: "'x \<Rightarrow> emu"
    and good :: "bool \<Rightarrow> bool"
  assumes loop_Nil: "loop [] x = Some (Inr x)"
    and loop_Cons: "loop (b # bs) x = rthen (packet (fst b) (snd b) x) (loop bs)"
    and packet_steps: "emu_inv m z B s \<Longrightarrow> reaches z s k (add_mset (fst c) h) (emu_of x) \<Longrightarrow> (k \<Longrightarrow> good alloc) \<Longrightarrow>
      outcome (\<lambda>_. True) False (\<lambda>y. reaches z s k h (emu_of y)) (packet alloc c x)"
begin

lemma loop_steps:
  assumes inv: "emu_inv m z B s"
    and F: "\<And>alloc c x f. handling z s (fst c) (emu_of x) \<Longrightarrow> packet alloc c x = Some (Inl f) \<Longrightarrow> F f"
  shows "reaches z s k (mset (map (\<lambda>b. fst (snd b)) bs) + h) (emu_of x) \<Longrightarrow> (k \<Longrightarrow> \<forall>b \<in> set bs. good (fst b)) \<Longrightarrow>
    outcome F False (\<lambda>y. reaches z s k h (emu_of y)) (loop bs x)"
proof (induction bs arbitrary: x)
  case Nil
  then show ?case by (simp add: loop_Nil)
next
  case (Cons b bs)
  have r: "reaches z s k (add_mset (fst (snd b)) (mset (map (\<lambda>b. fst (snd b)) bs) + h)) (emu_of x)" using Cons.prems(1) by simp
  have "outcome F False (\<lambda>y. reaches z s k (mset (map (\<lambda>b. fst (snd b)) bs) + h) (emu_of y)) (packet (fst b) (snd b) x)"
    using Cons.prems(2) by (intro outcome_faults[OF packet_steps[OF inv r]] F[OF reaches_handling[OF r]]) simp_all
  from outcome_rthen[OF this Cons.IH] Cons.prems(2) show ?case unfolding loop_Cons by simp
qed

lemma burst_steps:
  assumes inv: "emu_inv m z B s" and r: "reaches z s k h e" and mk: "\<And>e1. emu_of (mk e1) = e1" and pi: "pi < length (eports (em s))"
    and F: "\<And>alloc c x f. handling z s (fst c) (emu_of x) \<Longrightarrow> packet alloc c x = Some (Inl f) \<Longrightarrow> F f"
    and good: "k \<Longrightarrow> \<forall>i. good (al i)"
  shows "outcome F False (\<lambda>y. reaches z s k h (emu_of y))
    (rthen (emu_rx_burst pi ks e) (\<lambda>(pkts, e1). loop (zip (map al [0..<length pkts]) pkts) (mk e1)))"
proof (rule outcome_rthen[OF reaches_receive[OF inv r]], simp add: reaches_ports[OF inv r] pi, clarify)
  fix pkts :: "pkt list" and e1 assume "reaches z s k (h + mset (map fst pkts)) e1"
  moreover have "\<forall>b \<in> set (zip (map al [0..<length pkts]) pkts). good (fst b)" if k using good[OF that] by (auto simp: in_set_zip)
  ultimately show "outcome F False (\<lambda>y. reaches z s k h (emu_of y)) (loop (zip (map al [0..<length pkts]) pkts) (mk e1))"
    using F by (intro loop_steps[OF inv]) (simp_all add: mk map_zip_snd add.commute del: mset_map)
qed

end

lemma idx_get_elem: "idx_get xs i = Inr x \<Longrightarrow> x \<in> set xs"
  by (auto simp: idx_get_def arr_get_def guard_res_def split: if_splits)

text \<open>After a push: the packet is in the queue, or its buffer goes back to the cache.\<close>

lemma refused_drop:
  assumes "reaches z s k (if ret = 0 then add_mset a h else h) e1" "same_buffers e1 e2"
  shows "outcome (\<lambda>_. True) w (reaches z s k h) (if ret = 0 then Some (drop_buffer pi a e2) else Some (Inr e1))"
  using assms reaches_drop[OF reaches_other[OF _ assms(2)], of z s k a h w pi] by (cases "ret = 0") simp_all

text \<open>The queues of a table's array are all there: no packet is forgotten for want of a queue.\<close>

definition no_null :: "nat option list \<Rightarrow> bool" where
  "no_null qa \<longleftrightarrow> None \<notin> set (take NUM_OF_PER_DEST_QUEUES qa)"

lemma veth_rx_packet_steps:
  assumes inv: "emu_inv m z B s" and r: "reaches z s k (add_mset (fst b) h) e"
    and good: "k \<Longrightarrow> alloc \<and> no_null (local_dest_queue_array t)"
  shows "outcome (\<lambda>_. True) False (reaches z s k h) (veth_rx_packet t pi alloc b e)"
proof -
  have lost: "\<not> k \<Longrightarrow> reaches z s k h e" by (rule reaches_forget[OF r])
  have noalloc: "reaches z s k h e" if "\<not> alloc"
  proof -
    have "\<not> k" using good that by blast
    then show ?thesis by (rule lost)
  qed
  have null: "reaches z s k h e" if "idx_get (take NUM_OF_PER_DEST_QUEUES (local_dest_queue_array t)) d = Inr None" for d
  proof -
    have "\<not> k" using good idx_get_elem[OF that] by (auto simp: no_null_def)
    then show ?thesis by (rule lost)
  qed
  have a: "tx_addr (Thread_Run.entry b) = fst b" by (simp add: Thread_Run.entry_def)
  have push: "outcome (\<lambda>_. True) False (\<lambda>(ret, qs). reaches z s k (if ret = 0 then add_mset (fst b) h else h) (e\<lparr>local_per_dest_queue := qs\<rparr>))
      (push_to (local_per_dest_queue e) i (Thread_Run.entry b))" for i
    using push_local[OF inv, of k "Thread_Run.entry b" h e] r by (simp only: a)
  have "outcome (\<lambda>_. True) False (reaches z s k h) (rthen (push_to (local_per_dest_queue e) i (Thread_Run.entry b)) (\<lambda>(ret, qs).
      if ret = 0 then Some (drop_buffer pi (fst b)
          (e\<lparr>local_per_dest_queue := qs, local_dest_queue_overflow_count := local_dest_queue_overflow_count e + 1\<rparr>))
      else Some (Inr (e\<lparr>local_per_dest_queue := qs\<rparr>))))" for i
    by (rule outcome_rthen[OF push]) (auto intro!: refused_drop same_buffersI)
  then show ?thesis unfolding veth_rx_packet_def Let_def Thread_Run.entry_def
    using noalloc null reaches_drop[OF r] by (intro outcome_res) (auto intro!: outcome_res split: option.split)
qed

interpretation veth_burst: packet_loop "veth_rx_packets t pi" "veth_rx_packet t pi" "\<lambda>e. e"
    "\<lambda>alloc. alloc \<and> no_null (local_dest_queue_array t)" for t pi
  by unfold_locales (simp_all add: veth_rx_packet_steps)

text \<open>
  A fault of the thread is a fault of its work on one packet, whose buffer it has in hand. By
  \<open>drop_buffer_ok\<close> giving that buffer back is not what faults.
\<close>

definition veth_faults :: "ring_sizes \<Rightarrow> esys \<Rightarrow> thread_data \<Rightarrow> fault \<Rightarrow> bool" where
  "veth_faults z s t f \<longleftrightarrow> (\<exists>pi alloc b e. handling z s (fst b) e \<and> veth_rx_packet t pi alloc b e = Some (Inl f))"

lemma veth_faultsI: "handling z s (fst b) e \<Longrightarrow> veth_rx_packet t pi alloc b e = Some (Inl f) \<Longrightarrow> veth_faults z s t f"
  unfolding veth_faults_def by metis

lemma veth_pass_steps:
  assumes inv: "emu_inv m z B s" and r: "reaches z s k h e" and p: "ports_exist (ports_rx t) 1 (em s)"
    and good: "k \<Longrightarrow> (\<forall>i. allocs env i) \<and> no_null (local_dest_queue_array t)"
  shows "outcome (veth_faults z s t) False (reaches z s k h) (thread_func_veth_pass t env e)"
proof -
  obtain pi where pi: "port_at (ports_rx t) 0 = Inr pi" "pi < length (eports (em s))" using p by (auto simp: ports_exist_def)
  show ?thesis unfolding thread_func_veth_pass_def pi(1) rthen.simps
    by (rule veth_burst.burst_steps[OF inv r _ pi(2), where mk = "\<lambda>e. e"]) (use good in \<open>auto intro: veth_faultsI\<close>)
qed

lemma veth_thread_steps:
  assumes inv: "emu_inv m z B s" and p: "ports_exist (ports_rx t) 1 (em s)"
  shows "reaches z s k h e \<Longrightarrow> (k \<Longrightarrow> (\<forall>x \<in> set envs. \<forall>i. allocs x i) \<and> no_null (local_dest_queue_array t)) \<Longrightarrow>
    outcome (veth_faults z s t) False (reaches z s k h) (thread_func_veth t envs e)"
proof (induction envs arbitrary: e)
  case (Cons x xs)
  have "outcome (veth_faults z s t) False (reaches z s k h) (thread_func_veth_pass t x e)"
    using Cons.prems by (intro veth_pass_steps[OF inv _ p]) simp_all
  from outcome_rthen[OF this Cons.IH] Cons.prems(2) show ?case by simp
qed simp

lemma refused_drop_rv:
  assumes "reaches z s k (if ret = 0 then add_mset a h else h) e1" "same_buffers e1 e2"
  shows "outcome (\<lambda>_. True) w (\<lambda>x. reaches z s k h (fst x)) (if ret = 0 then Some (rbind (drop_buffer pi a e2) (\<lambda>e3. Inr (e3, rv)))
    else Some (Inr (e1, rv)))"
  using assms outcome_rbind[OF reaches_drop[OF reaches_other[OF _ assms(2)], of z s k a h], of w "\<lambda>x. reaches z s k h (fst x)" "\<lambda>e. Inr (e, rv)"]
  by (cases "ret = 0") simp_all

lemma nic_rx_packet_enter:
  "nic_rx_packet ov t n pi alloc b (e, rv0) = rthen (Some (arr_get (eports e) pi)) (\<lambda>p.
     rthen (Some (get_queue_index_for_nic_rx ov (enet e) (umem e) (xsk_umem__get_data (xsk_umem__add_offset_to_addr (fst b)))
       (iface (pparams p)) (snd b) (fst b) rv0)) (\<lambda>(m1, rv).
     if \<not> alloc then Some (Inl Null_Deref)
     else if new_len rv = 1 then rthen (Some (idx_get (take NUM_OF_PER_DEST_QUEUES (non_local_dest_queue_array t)) (ring_buf_index rv)))
       (\<lambda>q. case q of None \<Rightarrow> Some (Inr (e\<lparr>umem := m1\<rparr>, rv)) | Some i \<Rightarrow> enter_transit pi i b rv (e\<lparr>umem := m1\<rparr>))
     else rthen (Some (guard_res Out_Of_Bounds (0 \<le> which_veth rv \<and> which_veth rv < int VETH_QUEUES)
         (guard_res Uninitialised (which_veth rv < n) (idx_get (veth_side_queue_array t) (which_veth rv)))))
       (\<lambda>q. case q of None \<Rightarrow> Some (Inr (e\<lparr>umem := m1\<rparr>, rv)) | Some i \<Rightarrow> enter_veth pi i b rv (e\<lparr>umem := m1\<rparr>))))"
  by (simp add: nic_rx_packet_def enter_transit_def enter_veth_def nic_entry_def Let_def cong: if_cong option.case_cong)

lemma nic_rx_packet_steps:
  assumes inv: "emu_inv m z B s" and r: "reaches z s k (add_mset (fst b) h) (fst x)"
    and good: "k \<Longrightarrow> no_null (non_local_dest_queue_array t) \<and> None \<notin> set (veth_side_queue_array t)"
  shows "outcome (\<lambda>_. True) False (\<lambda>y. reaches z s k h (fst y)) (nic_rx_packet ov t n pi alloc b x)"
proof -
  obtain e rv0 where x: "x = (e, rv0)" by (cases x)
  have r1: "reaches z s k (add_mset (fst b) h) (e\<lparr>umem := m1\<rparr>)" for m1
    by (rule reaches_other[OF r]) (simp add: x same_buffersI)
  have lost: "\<not> k \<Longrightarrow> reaches z s k h (e\<lparr>umem := m1\<rparr>)" for m1 by (rule reaches_forget[OF r1])
  have null: "reaches z s k h (e\<lparr>umem := m1\<rparr>)"
    if "idx_get (take NUM_OF_PER_DEST_QUEUES (non_local_dest_queue_array t)) d = Inr None \<or> idx_get (veth_side_queue_array t) d = Inr None" for d m1
  proof -
    have "\<not> k" using good idx_get_elem that by (fastforce simp: no_null_def)
    then show ?thesis by (rule lost)
  qed
  have transit: "outcome (\<lambda>_. True) False (\<lambda>y. reaches z s k h (fst y)) (enter_transit pi i b rv (e\<lparr>umem := m1\<rparr>))" for i rv m1
    unfolding enter_transit_def Let_def nic_entry_def
    by (rule outcome_rthen[OF push_transit[OF inv]]) (use r1[of m1] in \<open>auto intro!: refused_drop_rv same_buffersI\<close>)
  have veth: "outcome (\<lambda>_. True) False (\<lambda>y. reaches z s k h (fst y)) (enter_veth pi i b rv (e\<lparr>umem := m1\<rparr>))" for i rv m1
    unfolding enter_veth_def Let_def nic_entry_def
    by (rule outcome_rthen[OF push_veth[OF inv]]) (use r1[of m1] in \<open>auto intro!: refused_drop_rv same_buffersI\<close>)
  show ?thesis unfolding x nic_rx_packet_enter
    using transit veth null[OF disjI1] null[OF disjI2] by (intro outcome_res) (auto intro!: outcome_res simp: guard_res_def split: option.split if_splits)
qed

abbreviation reaches_rv :: "ring_sizes \<Rightarrow> esys \<Rightarrow> bool \<Rightarrow> u64 multiset \<Rightarrow> emu \<times> return_process_rx \<Rightarrow> bool" where
  "reaches_rv z s k h x \<equiv> reaches z s k h (fst x)"

interpretation nic_burst: packet_loop "nic_rx_packets ov t n pi" "nic_rx_packet ov t n pi" fst
    "\<lambda>alloc. no_null (non_local_dest_queue_array t) \<and> None \<notin> set (veth_side_queue_array t)" for ov t n pi
  by unfold_locales (simp_all add: nic_rx_packet_steps)

definition nic_faults :: "ring_sizes \<Rightarrow> esys \<Rightarrow> overlap \<Rightarrow> thread_data \<Rightarrow> int \<Rightarrow> fault \<Rightarrow> bool" where
  "nic_faults z s ov t n f \<longleftrightarrow> (\<exists>pi alloc b e rv. handling z s (fst b) e \<and> nic_rx_packet ov t n pi alloc b (e, rv) = Some (Inl f))"

lemma nic_faultsI: "handling z s (fst b) (fst x) \<Longrightarrow> nic_rx_packet ov t n pi alloc b x = Some (Inl f) \<Longrightarrow> nic_faults z s ov t n f"
  unfolding nic_faults_def by (cases x) (metis fst_conv)

lemma nic_rx_port_steps:
  assumes inv: "emu_inv m z B s" and r: "reaches_rv z s k h x" and p: "port_at (ports_rx t) j = Inr pi" "pi < length (eports (em s))"
    and good: "k \<Longrightarrow> no_null (non_local_dest_queue_array t) \<and> None \<notin> set (veth_side_queue_array t)"
  shows "outcome (nic_faults z s ov t n) False (reaches_rv z s k h) (nic_rx_port ov t n j env x)"
  unfolding nic_rx_port_def case_prod_beta Let_def p(1) rthen.simps
  by (rule nic_burst.burst_steps[OF inv r _ p(2), where mk = "\<lambda>e. (e, (snd x)\<lparr>new_len := 0, ring_buf_index := 0\<rparr>)",
      unfolded case_prod_beta]) (use good in \<open>auto intro: nic_faultsI\<close>)

lemma nic_pass_steps:
  assumes inv: "emu_inv m z B s" and r: "reaches_rv z s k h x" and p: "ports_exist (ports_rx t) (nat (assigned_queue_count t)) (em s)"
    and good: "k \<Longrightarrow> no_null (non_local_dest_queue_array t) \<and> None \<notin> set (veth_side_queue_array t)"
  shows "outcome (nic_faults z s ov t n) False (reaches_rv z s k h) (thread_func_nic_pass ov t n env x)"
proof -
  have "reaches_rv z s k h x \<Longrightarrow> j + c \<le> nat (assigned_queue_count t) \<Longrightarrow>
      outcome (nic_faults z s ov t n) False (reaches_rv z s k h) (nic_rx_ports ov t n j c env x)" for j c
  proof (induction c arbitrary: j x)
    case (Suc c)
    obtain pi where pi: "port_at (ports_rx t) j = Inr pi" "pi < length (eports (em s))"
      using p Suc.prems(2) unfolding ports_exist_def by (metis Suc_le_eq add_Suc_right le_add1 order_less_le_trans le_imp_less_Suc)
    from outcome_rthen[OF nic_rx_port_steps[OF inv Suc.prems(1) pi good] Suc.IH] Suc.prems(2)
    show ?case unfolding nic_rx_ports.simps by simp
  qed simp
  with r show ?thesis by (simp add: thread_func_nic_pass_def)
qed

lemma nic_thread_steps:
  assumes inv: "emu_inv m z B s" and p: "ports_exist (ports_rx t) (nat (assigned_queue_count t)) (em s)"
    and good: "k \<Longrightarrow> no_null (non_local_dest_queue_array t) \<and> None \<notin> set (veth_side_queue_array t)"
  shows "reaches_rv z s k h x \<Longrightarrow> outcome (nic_faults z s ov t n) False (reaches_rv z s k h) (thread_func_nic ov t n envs x)"
proof (induction envs arbitrary: x)
  case (Cons y ys)
  from outcome_rthen[OF nic_pass_steps[OF inv Cons.prems p good] Cons.IH] show ?case unfolding thread_func_nic.simps .
qed simp

subsection \<open>Sending\<close>

text \<open>
  A drain loop whose queue is one of the emulator's: every entry taken is a pull, and the work on
  it touches no buffer and does not look at the queue.
\<close>

locale buffer_drain = drain_loop loop put "\<lambda>e. i < length (queues_of kind e)" fits work
  for loop :: "emu \<times> pkt list \<Rightarrow> (emu \<times> pkt list) run"
    and put :: "emu \<Rightarrow> burst_tx mpmc_queue \<Rightarrow> emu"
    and kind :: queue_kind
    and i :: nat
    and fits :: "nat \<Rightarrow> bool"
    and work :: "nat \<Rightarrow> burst_tx \<Rightarrow> emu \<Rightarrow> (emu \<times> pkt) res" +
  assumes put_queue: "put v q = with_queues kind ((queues_of kind v)[i := q]) v"
    and work_same: "work n x v = Inr (v', p) \<Longrightarrow> same_buffers v v' \<and> fst p = tx_addr x"
    and work_put: "work n x v = Inl f \<Longrightarrow> work n x (put v q) = Inl f"
    and fits_small: "k \<le> 30 \<Longrightarrow> fits k"
begin

lemma pulled:
  assumes h: "holds q k (x # xs)" and i: "i < length (queues_of kind v)" and r: "reaches z s c (h + mset (map fst b)) (put v q)"
  shows "\<exists>q'. mpmc_queue_pull q = Some (Inr (1, Some x, q')) \<and> reaches z s c (add_mset (tx_addr x) (h + mset (map fst b))) (put v q')"
proof -
  obtain q' where q': "mpmc_queue_pull q = Some (Inr (1, Some x, q'))" using holds_pull[OF h] by blast
  then have pl: "pull_from (queues_of kind (put v q)) i = Some (Inr (1, Some x, (queues_of kind v)[i := q']))"
    using i by (simp add: put_queue pull_from_def)
  have "reaches z s c (add_mset (tx_addr x) (h + mset (map fst b))) (put v q')"
    using reaches_pull[OF r pl] by (cases kind) (simp_all add: put_queue)
  with q' show ?thesis by blast
qed

lemma drain_steps:
  assumes F: "\<And>n x e f. handling z s (tx_addr x) e \<Longrightarrow> work n x e = Inl f \<Longrightarrow> F f"
    and "k \<le> 30" "holds q k xs" "i < length (queues_of kind v)" "reaches z s c (h + mset (map fst b)) (put v q)" "length b \<le> MAX_BURST_TX"
  shows "outcome F w (\<lambda>(e, b'). reaches z s c (h + mset (map fst b')) e \<and> length b' \<le> MAX_BURST_TX) (loop (put v q, b))"
  using assms(3-)
proof (induction xs arbitrary: v q b)
  case Nil
  then show ?case using stop[OF Nil.prems(2) fits_small[OF assms(2)] Nil.prems(1), of b] by simp
next
  case (Cons x xs)
  note f = fits_small[OF assms(2)]
  show ?case
  proof (cases "length b < MAX_BURST_TX")
    case False
    then show ?thesis using stop[OF Cons.prems(2) f Cons.prems(1), of b] Cons.prems(3,4) by simp
  next
    case True
    obtain q' where q': "mpmc_queue_pull q = Some (Inr (1, Some x, q'))"
      "reaches z s c (add_mset (tx_addr x) (h + mset (map fst b))) (put v q')" using pulled[OF Cons.prems(1-3)] by blast
    show ?thesis
    proof (cases "work (length (x # xs)) x v")
      case (Inl g)
      then have "F g" using F[OF reaches_handling[OF q'(2)] work_put[OF Inl]] by blast
      then show ?thesis using fail[OF Cons.prems(2) f Cons.prems(1) True Inl] by simp
    next
      case (Inr y)
      obtain v' p where y: "y = (v', p)" by (cases y)
      have same: "same_buffers v v'" "fst p = tx_addr x" using work_same[OF Inr[unfolded y]] by simp_all
      have st: "i < length (queues_of kind v')" "holds q' k xs" "loop (put v q, b) = loop (put v' q', b @ [p])"
        using step[OF Cons.prems(2) f Cons.prems(1) True Inr[unfolded y]] q'(1) by auto
      have "same_buffers (put v q') (put v' q')" using same(1) by (auto simp: same_buffers_def put_queue)
      then have "reaches z s c (h + mset (map fst (b @ [p]))) (put v' q')"
        using reaches_other[OF q'(2)] same(2) by fastforce
      from Cons.IH[OF st(2,1) this] True show ?thesis by (simp add: st(3))
    qed
  qed
qed

text \<open>From the queue as it is.\<close>

lemma drain_queue:
  assumes inv: "emu_inv m z B s" and r: "reaches z s c h e" and i: "i < length (queues_of kind (em s))"
    and F: "\<And>n x e f. handling z s (tx_addr x) e \<Longrightarrow> work n x e = Inl f \<Longrightarrow> F f"
  shows "outcome F w (\<lambda>(e, b'). reaches z s c (h + mset (map fst b')) e \<and> length b' \<le> MAX_BURST_TX) (loop (e, []))"
proof -
  have i': "i < length (queues_of kind e)" using i reaches_lengths[OF r, of kind] by simp
  have "queue_ok (queues_of kind e ! i)" using reaches_queues[OF inv r, of kind] nth_mem[OF i'] by blast
  then obtain k where k: "k \<le> 30" "holds (queues_of kind e ! i) k (q_content (queues_of kind e ! i))" by (auto simp: queue_ok_def)
  have p: "put e (queues_of kind e ! i) = e" by (simp add: put_queue)
  show ?thesis using drain_steps[OF F k i', where h = h and b = "[]" and c = c] r by (simp add: p)
qed

text \<open>The batch is then sent: the buffers pulled leave the thread's hand.\<close>

lemma drain_then_send:
  assumes inv: "emu_inv m z B s" and r: "reaches z s c h e" and i: "i < length (queues_of kind (em s))"
    and F: "\<And>n x e f. handling z s (tx_addr x) e \<Longrightarrow> work n x e = Inl f \<Longrightarrow> F f" and pi: "pi < length (eports (em s))"
  shows "outcome F (waits z s h) (reaches z s c h) (rthen (loop (e, [])) (\<lambda>(e1, b). emu_tx_burst pi b ks e1))"
proof (rule outcome_rthen[OF drain_queue[OF inv r i]])
  show "F f" if "handling z s (tx_addr x) e" "work n x e = Inl f" for n x e f by (rule F[OF that])
  fix y :: "emu \<times> pkt list" assume "case y of (e, b') \<Rightarrow> reaches z s c (h + mset (map fst b')) e \<and> length b' \<le> MAX_BURST_TX"
  then have y: "reaches z s c (h + mset (map fst (snd y))) (fst y)" "length (snd y) \<le> MAX_BURST_TX" by (simp_all add: case_prod_beta)
  have "pi < length (eports (fst y))" using pi reaches_ports[OF inv y(1)] by simp
  from reaches_send[OF inv y this] show "outcome F (waits z s h) (reaches z s c h) (case y of (e1, b) \<Rightarrow> emu_tx_burst pi b ks e1)"
    by (simp add: case_prod_beta)
qed

text \<open>The same, after the queue is looked up.\<close>

lemma table_then_send:
  assumes inv: "emu_inv m z B s" and r: "reaches z s c h e"
    and i: "i < length (queues_of kind (em s))"
    and F: "\<And>n x e f. handling z s (tx_addr x) e \<Longrightarrow> work n x e = Inl f \<Longrightarrow> F f" and pi: "pi < length (eports (em s))"
  shows "outcome F (waits z s h) (reaches z s c h) (rthen (Some (arr_get (queues_of kind e) i))
      (\<lambda>_. rthen (loop (e, [])) (\<lambda>(e1, b). emu_tx_burst pi b ks e1)))"
  using drain_then_send[OF inv r i F pi] i reaches_lengths[OF r, of kind] by simp

end

interpretation transit_drain: buffer_drain "drain_non_local w i" "put_non_local i" Transit_Dest i "\<lambda>k. True" "work_non_local w" for w i
  unfolding buffer_drain_def buffer_drain_axioms_def queues_of.simps
  by (intro conjI from_non_local.drain_loop_axioms) (auto simp: put_non_local_def work_simps intro!: same_buffersI)

interpretation local_drain: buffer_drain "drain_local ov w i" "put_local i" Local_Dest i "\<lambda>k. k \<le> 30" "work_local ov w" for ov w i
  unfolding buffer_drain_def buffer_drain_axioms_def queues_of.simps
  by (intro conjI from_local.drain_loop_axioms) (auto simp: put_local_def work_simps intro!: same_buffersI)

interpretation veth_drain: buffer_drain "drain_veth i" "put_veth i" Veth_Side i "\<lambda>k. k \<le> 30" work_veth for i
  unfolding buffer_drain_def buffer_drain_axioms_def queues_of.simps
  by (intro conjI from_veth.drain_loop_axioms) (auto simp: put_veth_def work_simps intro!: same_buffersI)

text \<open>A fault of a sending thread is a fault of its work on an entry that it has pulled.\<close>

definition nic_tx_faults :: "ring_sizes \<Rightarrow> esys \<Rightarrow> overlap \<Rightarrow> fault \<Rightarrow> bool" where
  "nic_tx_faults z s ov f \<longleftrightarrow> (\<exists>w n x e. handling z s (tx_addr x) e \<and> (work_local ov w n x e = Inl f \<or> work_non_local w n x e = Inl f))"

definition veth_tx_faults :: "ring_sizes \<Rightarrow> esys \<Rightarrow> fault \<Rightarrow> bool" where
  "veth_tx_faults z s f \<longleftrightarrow> (\<exists>n x e. handling z s (tx_addr x) e \<and> work_veth n x e = Inl f)"

lemma nic_tx_faultsI: "handling z s (tx_addr x) e \<Longrightarrow> work_non_local w n x e = Inl f \<Longrightarrow> nic_tx_faults z s ov f"
  "handling z s (tx_addr x) e \<Longrightarrow> work_local ov w n x e = Inl f \<Longrightarrow> nic_tx_faults z s ov f"
  by (auto simp: nic_tx_faults_def)

lemma veth_tx_faultsI: "handling z s (tx_addr x) e \<Longrightarrow> work_veth n x e = Inl f \<Longrightarrow> veth_tx_faults z s f"
  by (auto simp: veth_tx_faults_def)

text \<open>What a thread that sends to the network needs of its tables.\<close>

definition nic_tx_tables :: "thread_data \<Rightarrow> emu \<Rightarrow> bool" where
  "nic_tx_tables t e \<longleftrightarrow> ports_exist (ports_tx t) (nat (assigned_queue_count t)) e \<and>
     queues_exist (take NUM_OF_PER_DEST_QUEUES (non_local_dest_queue_array t)) (nat (assigned_perdest_count t)) (non_local_per_dest_queue e) \<and>
     queues_exist (take NUM_OF_PER_DEST_QUEUES (local_dest_queue_array t)) (nat (assigned_perdest_count t)) (local_per_dest_queue e)"

lemma nic_tx_non_local_steps:
  assumes inv: "emu_inv m z B s" and r: "reaches z s c h e" and pi: "pi < length (eports (em s))"
    and q: "queues_exist (take NUM_OF_PER_DEST_QUEUES (non_local_dest_queue_array t)) n (non_local_per_dest_queue (em s))" "w < n"
  shows "outcome (nic_tx_faults z s ov) (waits z s h) (reaches z s c h) (nic_tx_non_local t pi ks w e)"
proof -
  obtain x where x: "assigned_queue (non_local_dest_queue_array t) w = Inr x" "\<forall>i. x = Some i \<longrightarrow> i < length (non_local_per_dest_queue (em s))"
    using q by (auto simp: queues_exist_def assigned_queue_def)
  show ?thesis
  proof (cases x)
    case (Some i)
    then have "i < length (non_local_per_dest_queue (em s))" using x(2) by simp
    from transit_drain.table_then_send[unfolded queues_of.simps, OF inv r this _ pi] show ?thesis
      unfolding nic_tx_non_local_def x(1) Some rthen.simps option.case by this (erule (1) nic_tx_faultsI(1))
  qed (simp add: nic_tx_non_local_def x(1) r)
qed

lemma nic_tx_local_steps:
  assumes inv: "emu_inv m z B s" and r: "reaches z s c h e" and pi: "pi < length (eports (em s))"
    and q: "queues_exist (take NUM_OF_PER_DEST_QUEUES (local_dest_queue_array t)) n (local_per_dest_queue (em s))" "w < n"
  shows "outcome (nic_tx_faults z s ov) (waits z s h) (reaches z s c h) (nic_tx_local ov t pi ks w e)"
proof -
  obtain x where x: "assigned_queue (local_dest_queue_array t) w = Inr x" "\<forall>i. x = Some i \<longrightarrow> i < length (local_per_dest_queue (em s))"
    using q by (auto simp: queues_exist_def assigned_queue_def)
  show ?thesis
  proof (cases x)
    case (Some i)
    then have "i < length (local_per_dest_queue (em s))" using x(2) by simp
    from local_drain.table_then_send[unfolded queues_of.simps, OF inv r this _ pi] show ?thesis
      unfolding nic_tx_local_def x(1) Some rthen.simps option.case by this (erule (1) nic_tx_faultsI(2))
  qed (simp add: nic_tx_local_def x(1) r)
qed

lemma nic_tx_pass_steps:
  assumes inv: "emu_inv m z B s" and r: "reaches z s c h e" and tab: "nic_tx_tables t (em s)"
  shows "outcome (nic_tx_faults z s ov) (waits z s h) (reaches z s c h) (thread_func_veth_to_nic_tx_pass ov t env e)"
  unfolding thread_func_veth_to_nic_tx_pass_def
proof (rule outcome_run_upto[where P = "reaches z s c h", OF _ r])
  note upto = outcome_run_upto[where P = "reaches z s c h" and w = "waits z s h" and F = "nic_tx_faults z s ov" and k = 0]
  note T = tab[unfolded nic_tx_tables_def]
  fix k e assume k: "k < 0 + nat (assigned_queue_count t)" and e: "reaches z s c h e"
  obtain pi where pi: "port_at (ports_tx t) k = Inr pi" "pi < length (eports (em s))" using T k by (auto simp: ports_exist_def)
  show "outcome (nic_tx_faults z s ov) (waits z s h) (reaches z s c h) (nic_tx_port ov t env k e)"
    unfolding nic_tx_port_def pi(1) rthen.simps
  proof (rule outcome_rthen)
    show "outcome (nic_tx_faults z s ov) (waits z s h) (reaches z s c h)
        (run_upto (\<lambda>w. nic_tx_non_local t pi (env k False w) w) 0 (nat (assigned_perdest_count t)) e)"
      using T by (intro upto[OF nic_tx_non_local_steps[OF inv _ pi(2)] e]) auto
    fix e1 assume e1: "reaches z s c h e1"
    show "outcome (nic_tx_faults z s ov) (waits z s h) (reaches z s c h)
        (run_upto (\<lambda>w. nic_tx_local ov t pi (env k True w) w) 0 (nat (assigned_perdest_count t)) e1)"
      using T by (intro upto[OF nic_tx_local_steps[OF inv _ pi(2)] e1]) auto
  qed
qed

lemma nic_tx_thread_steps:
  assumes inv: "emu_inv m z B s" and tab: "nic_tx_tables t (em s)"
  shows "reaches z s c h e \<Longrightarrow> outcome (nic_tx_faults z s ov) (waits z s h) (reaches z s c h) (Threads.thread_func_veth_to_nic_tx ov t envs e)"
proof (induction envs arbitrary: e)
  case (Cons x xs)
  from outcome_rthen[OF nic_tx_pass_steps[OF inv Cons.prems tab] Cons.IH] show ?case unfolding thread_func_veth_to_nic_tx.simps .
qed simp

lemma veth_tx_pass_steps:
  assumes inv: "emu_inv m z B s" and r: "reaches z s c h e" and p: "ports_exist (ports_tx t) 1 (em s)"
    and q: "queues_exist (veth_side_queue_array t) 1 (veth_side_queue (em s))"
  shows "outcome (veth_tx_faults z s) (waits z s h) (reaches z s c h) (thread_func_nic_to_veth_tx_pass t ks e)"
proof -
  obtain pi where pi: "port_at (ports_tx t) 0 = Inr pi" "pi < length (eports (em s))" using p by (auto simp: ports_exist_def)
  obtain x where x: "arr_get (veth_side_queue_array t) 0 = Inr x" "\<forall>i. x = Some i \<longrightarrow> i < length (veth_side_queue (em s))"
    using q by (auto simp: queues_exist_def)
  show ?thesis
  proof (cases x)
    case (Some i)
    then have "i < length (veth_side_queue (em s))" using x(2) by simp
    from veth_drain.table_then_send[unfolded queues_of.simps, OF inv r this _ pi(2)] show ?thesis
      unfolding thread_func_nic_to_veth_tx_pass_def x(1) pi(1) Some rthen.simps option.case by this (erule (1) veth_tx_faultsI)
  qed (simp add: thread_func_nic_to_veth_tx_pass_def x(1) pi(1) r)
qed

lemma veth_tx_thread_steps:
  assumes inv: "emu_inv m z B s" and p: "ports_exist (ports_tx t) 1 (em s)"
    and q: "queues_exist (veth_side_queue_array t) 1 (veth_side_queue (em s))"
  shows "reaches z s c h e \<Longrightarrow> outcome (veth_tx_faults z s) (waits z s h) (reaches z s c h) (thread_func_nic_to_veth_tx t envs e)"
proof (induction envs arbitrary: e)
  case (Cons x xs)
  from outcome_rthen[OF veth_tx_pass_steps[OF inv Cons.prems p q] Cons.IH] show ?case unfolding thread_func_nic_to_veth_tx.simps .
qed simp

section \<open>Frames in the queues\<close>

text \<open>An entry's frame lies in its buffer.\<close>

definition fits_buffer :: "bpool \<Rightarrow> (burst_tx \<Rightarrow> nat) \<Rightarrow> burst_tx \<Rightarrow> bool" where
  "fits_buffer bp sp x \<longleftrightarrow> frame_at x mod unat (buffer_size (params bp)) + sp x \<le> unat (buffer_size (params bp))"

lemma fits_end:
  assumes "fits_buffer bp sp x"
  shows "frame_at x + sp x \<le> (buf_of bp (tx_addr x) + 1) * unat (buffer_size (params bp))"
  using assms div_mult_mod_eq[of "frame_at x" "unat (buffer_size (params bp))"]
  unfolding fits_buffer_def buf_of_def frame_at_def add_mult_distrib mult_1 by linarith

lemma fits_apart:
  assumes "fits_buffer bp sp x" "fits_buffer bp sp y" "buf_of bp (tx_addr x) \<noteq> buf_of bp (tx_addr y)"
  shows "apart sp x y"
proof -
  let ?n = "unat (buffer_size (params bp))"
  have start_ge: "buf_of bp (tx_addr u) * ?n \<le> frame_at u" for u by (simp add: buf_of_def frame_at_def)
  have "frame_at u + sp u \<le> frame_at v" if "fits_buffer bp sp u" "buf_of bp (tx_addr u) < buf_of bp (tx_addr v)" for u v
  proof -
    have "(buf_of bp (tx_addr u) + 1) * ?n \<le> buf_of bp (tx_addr v) * ?n" using that(2) by (intro mult_le_mono1) simp
    with fits_end[OF that(1)] start_ge[of v] show ?thesis by linarith
  qed
  then show ?thesis using assms by (metis apart_def nat_neq_iff)
qed

lemma distinct_bufs_apart:
  assumes "distinct (map (buf_of bp \<circ> tx_addr) xs)" "\<forall>x \<in> set xs. fits_buffer bp sp x"
  shows "sorted_wrt (apart sp) xs"
  using assms
proof (induction xs)
  case (Cons x xs)
  then have "\<forall>y \<in> set xs. apart sp x y" by (intro ballI fits_apart) (auto simp: image_iff)
  with Cons show ?case by simp
qed simp

text \<open>A queue's entries are part of what is somewhere.\<close>

lemma queue_owned:
  assumes "q \<in> set (queues_of k (em s))"
  shows "mset (map tx_addr (q_content q)) \<subseteq># owned (view s)"
proof -
  obtain as bs where "queues_of k (em s) = as @ q # bs" using assms by (metis split_list)
  then have "mset (map tx_addr (q_content q)) \<subseteq># queue_bufs (queues_of k (em s))" by (simp add: queue_bufs_def)
  moreover have "queue_bufs (queues_of k (em s)) \<subseteq># queued (em s)" by (cases k) (simp_all add: queued_kinds)
  moreover have "queued (em s) \<subseteq># owned (view s)" by (simp add: owned_def view_def)
  ultimately show ?thesis by (meson subset_mset.order_trans)
qed

text \<open>Packets that are somewhere in the emulator are in different buffers.\<close>

lemma owned_distinct:
  assumes inv: "emu_inv m z B s" and sub: "B \<subseteq># mset [0..<n]" and own: "mset (map tx_addr xs) \<subseteq># owned (view s)"
  shows "distinct (map (buf_of (epool (em s)) \<circ> tx_addr) xs)"
proof -
  let ?f = "buf_of (epool (em s))"
  have "image_mset ?f (owned (view s)) = B" using inv by (simp add: emu_inv_def sys_inv_def) (simp add: view_def)
  moreover have "image_mset ?f (mset (map tx_addr xs)) \<subseteq># image_mset ?f (owned (view s))"
    by (rule image_mset_subseteq_mono[OF own])
  moreover have "mset (map (?f \<circ> tx_addr) xs) = image_mset ?f (mset (map tx_addr xs))"
    by (simp add: image_mset.compositionality)
  ultimately have "mset (map (?f \<circ> tx_addr) xs) \<subseteq># mset [0..<n]"
    using sub by (metis subset_mset.order_trans)
  then obtain r where "mset [0..<n] = mset (map (?f \<circ> tx_addr) xs) + mset r"
    by (metis ex_mset subset_mset.add_diff_inverse)
  then have "distinct (map (?f \<circ> tx_addr) xs @ r)"
    by (metis distinct_upt mset_append mset_eq_imp_distinct_iff)
  then show ?thesis by simp
qed

lemma emu_inv_owned: "emu_inv m z B s \<Longrightarrow> image_mset (buf_of (epool (em s))) (owned (view s)) = B"
  by (simp add: emu_inv_def sys_inv_def) (simp add: view_def)

lemma owned_apart:
  assumes inv: "emu_inv m z B s" and sub: "B \<subseteq># mset [0..<n]" and own: "mset (map tx_addr xs) \<subseteq># owned (view s)"
    and fit: "\<forall>x \<in> set xs. fits_buffer (epool (em s)) sp x"
    and area: "n * unat (buffer_size (params (epool (em s)))) \<le> length (umem (em s))"
  shows "distinct (map (buf_of (epool (em s)) \<circ> tx_addr) xs) \<and> frames_in sp (length (umem (em s))) xs"
proof -
  let ?f = "buf_of (epool (em s))" and ?b = "unat (buffer_size (params (epool (em s))))"
  have d: "distinct (map (?f \<circ> tx_addr) xs)" by (rule owned_distinct[OF inv sub own])
  have "frame_at x + sp x \<le> length (umem (em s))" if x: "x \<in> set xs" for x
  proof -
    have "tx_addr x \<in># owned (view s)" using own x
      by (metis (no_types) image_eqI list.set_map mset_subset_eqD set_mset_mset)
    then have "?f (tx_addr x) \<in># B" using emu_inv_owned[OF inv] by (metis image_eqI set_image_mset)
    then have "?f (tx_addr x) \<in># mset [0..<n]" using sub by (rule mset_subset_eqD[rotated])
    then have "?f (tx_addr x) + 1 \<le> n" by simp
    then have "(?f (tx_addr x) + 1) * ?b \<le> n * ?b" by (intro mult_le_mono1)
    moreover have "frame_at x + sp x \<le> (?f (tx_addr x) + 1) * ?b" using fits_end[OF fit[rule_format, OF x]] .
    ultimately show ?thesis using area by linarith
  qed
  then show ?thesis using d distinct_bufs_apart[OF d fit] by (simp add: frames_in_def)
qed

section \<open>The emulator as it is started\<close>

definition starts :: "psys \<Rightarrow> emu \<Rightarrow> bool" where
  "starts s0 e \<longleftrightarrow> epool e = spool s0 \<and> eports e = map kp (kports s0) \<and>
     (\<forall>k. \<forall>q \<in> set (queues_of k e). queue_ok q \<and> q_content q = [])"

definition started :: "psys \<Rightarrow> emu \<Rightarrow> esys" where
  "started s0 e = \<lparr>em = e, kheld = map (\<lambda>k. (krx k, ktx k)) (kports s0), hand = flight s0, lost = {#}\<rparr>"

lemma started_view: "starts s0 e \<Longrightarrow> view (started s0 e) = s0"
proof -
  assume st: "starts s0 e"
  have "queue_bufs qs = {#}" if "\<forall>q \<in> set qs. q_content q = []" for qs
    using that unfolding queue_bufs_def by (induction qs) auto
  then have "queue_bufs (queues_of k e) = {#}" for k using st by (simp add: starts_def)
  then have "queued e = {#}" by (simp only: queued_kinds add_0_left)
  moreover have "map2 kport_of (map kp (kports s0)) (map (\<lambda>k. (krx k, ktx k)) (kports s0)) = kports s0"
    by (rule nth_equalityI) (simp_all add: kport_of_parts)
  ultimately show ?thesis using st by (simp add: view_def started_def starts_def)
qed

lemma started_inv: "sys_inv m z B s0 \<Longrightarrow> starts s0 e \<Longrightarrow> emu_inv m z B (started s0 e)"
  unfolding emu_inv_def started_view by (auto simp: started_view started_def starts_def)

lemma running:
  assumes "good_setup z env ps cfg es ns" "start_system env ps cfg es = Inr (Some s0)" "starts s0 e" "(emu_step z)\<^sup>*\<^sup>* (started s0 e) s"
  shows "\<exists>B L. emu_inv (ns - 2 * length es) z B s \<and> B + L = mset [0..<ns * 2 ^ fq_bits z] \<and> size L = length es * 2 ^ fq_bits z"
proof -
  obtain L where L: "size L = length es * 2 ^ fq_bits z" "image_mset (buf_of (spool s0)) (owned s0) + L = mset [0..<ns * 2 ^ fq_bits z]"
    "sys_inv (ns - 2 * length es) z (image_mset (buf_of (spool s0)) (owned s0)) s0"
    using start_ok[OF assms(1)] assms(2) by auto
  from emulator.keeps_inv[OF assms(4) started_inv[OF L(3) assms(3)]] L(1,2) show ?thesis by blast
qed

definition sample_idle :: "burst_tx mpmc_queue" where
  "sample_idle = \<lparr>qmem = memtype_heap sample_sys, buffer_mask = 2 ^ 1 - 1,
     buffer = map (\<lambda>i. \<lparr>sequence = of_nat i, qdata = None\<rparr>) [0..<2 ^ 1], tail = 0, head = 0\<rparr>"

definition sample_start :: "psys \<Rightarrow> emu" where
  "sample_start s0 = sample_emu\<lparr>epool := spool s0, eports := map kp (kports s0), local_per_dest_queue := [sample_idle],
     non_local_per_dest_queue := [sample_idle], veth_side_queue := [sample_idle]\<rparr>"

lemma sample_starts: "starts s0 (sample_start s0)"
proof -
  have h: "holds sample_idle 1 []" unfolding sample_idle_def by (rule holds_init) simp_all
  then have q: "queue_ok sample_idle" "q_content sample_idle = []" using queue_okI[OF h] q_content_holds[OF h] by simp_all
  have "queues_of k (sample_start s0) = [sample_idle]" for k by (cases k) (simp_all add: sample_start_def)
  then show ?thesis using q by (simp add: starts_def sample_start_def)
qed

section \<open>Properties\<close>

text \<open>Property C36: every state of the running emulator is well-formed: the pool's slab table and the slabs of
  all caches are in order and name each slab once, the rings of every port have their shape and
  no entry left half-written, the receive side of every port holds exactly one fill ring of
  buffers, and every queue between threads is a proper bounded queue.\<close>
theorem emulator_well_formed:
  assumes "good_setup z env ps cfg es ns" "start_system env ps cfg es = Inr (Some s0)" "starts s0 e" "(emu_step z)\<^sup>*\<^sup>* (started s0 e) s"
  shows "pool_inv (ns - 2 * length es) (epool (em s)) (map bc (eports (em s))) \<and>
    (\<forall>k \<in> set (map2 kport_of (eports (em s)) (kheld s)). port_ok z k) \<and> length (kheld s) = length (eports (em s)) \<and>
    (\<forall>k. \<forall>q \<in> set (queues_of k (em s)). queue_ok q)"
proof -
  obtain B where B: "emu_inv (ns - 2 * length es) z B s" using running[OF assms] by blast
  have "map bc (map kp (kports (view s))) = caches (view s)" by (simp add: caches_def comp_def)
  then have "map bc (eports (em s)) = caches (view s)" using view_ports(2)[of s] B by (simp only: emu_inv_def)
  moreover have "epool (em s) = spool (view s)" "kports (view s) = map2 kport_of (eports (em s)) (kheld s)" by (simp_all add: view_def)
  ultimately show ?thesis using B by (auto simp: emu_inv_def sys_inv_def)
qed

theorem emulator_well_formed_witness:
  "\<exists>s0. start_system sample_env sample_params sample_cfg sample_ports = Inr (Some s0) \<and> queue_ok sample_idle \<and>
    (\<forall>k \<in> set (kports s0). port_ok sample_sizes k)"
proof -
  obtain s0 where s0: "start_system sample_env sample_params sample_cfg sample_ports = Inr (Some s0)"
    using start_ok[OF sample_setup] by blast
  note W = emulator_well_formed[OF sample_setup s0 sample_starts rtranclp.rtrancl_refl]
  have q: "sample_idle \<in> set (queues_of Local_Dest (em (started s0 (sample_start s0))))" by (simp add: started_def sample_start_def)
  have "map2 kport_of (eports (em (started s0 (sample_start s0)))) (kheld (started s0 (sample_start s0))) = kports s0"
    by (rule nth_equalityI) (simp_all add: started_def sample_start_def kport_of_parts)
  then show ?thesis using W q s0 by (metis (no_types))
qed

end
