(* ===== verification/Opera_V1.thy ===== *)
theory Opera_V1
  imports Emulator
begin

text \<open>
  The forwarding of the first version of the emulator (\<open>opera-v1/thread_functions_1.h\<close>). It gives
  a packet its outer headers when it is received; the second version does so when the packet
  is taken from its queue. Buffer pool, ports, queues and tables are those of \<open>opera-v2\<close>.
\<close>

section \<open>Processing a packet\<close>

definition route_next :: "net \<Rightarrow> int \<Rightarrow> int res" where
  "route_next net i = rbind (getRouteElement (route_table net) i (uint (topo net)) True) (\<lambda>(_, v).
     case v of None \<Rightarrow> Inl Uninitialised | Some k \<Rightarrow> Inr k)"

text \<open>
  A packet from a namespace. The packet is moved before it is looked at; if it is not IP the
  caller's result record stays as it was. The GRE flags are set for two interfaces only.
\<close>

definition process_veth_old :: "overlap \<Rightarrow> net \<Rightarrow> u8 list \<Rightarrow> nat \<Rightarrow> string \<Rightarrow> u32 \<Rightarrow> u64 \<Rightarrow> return_process_rx \<Rightarrow>
    (u8 list \<times> return_process_rx) res" where
  "process_veth_old ov net m data ifc len addr rv =
     (let olen = 14 + 6 :: int;
          encap_size = 14 + 20 + 6 :: nat;
          new_addr = addr + of_nat encap_size;
          nl = sint (len + of_nat encap_size);
          new_data = xsk_umem__get_data (xsk_umem__add_offset_to_addr new_addr) in
      rbind (c_memcpy ov m new_data data (unat len)) (\<lambda>m1.
      rbind (load16 m1 (new_data + 12)) (\<lambda>h_proto.
      if htons h_proto \<noteq> ETH_IP \<or> unat len < 14 + 20 then Inr (m1, rv)
      else rbind (load32 m1 (data + 30)) (\<lambda>daddr. rbind (prefix_host daddr) (\<lambda>key.
      rbind (ether_addr_copy_assignment m1 (data + 6) (out_eth_src net) 0) (\<lambda>m2.
      rbind (ip_set_index net key) (\<lambda>i. rbind (route_next net i) (\<lambda>mac_index. rbind (c_int (i - 1)) (\<lambda>q.
      rbind (copy_mac net mac_index m2 data) (\<lambda>m3.
      rbind (store16 m3 (data + 12) (htons ETH_IP)) (\<lambda>m4.
      rbind (c_memcpy ov m4 (data + 14) (data + 14) 20) (\<lambda>m5.
      rbind (store8 m5 (data + 23) PROTO_GRE) (\<lambda>m6.
      rbind (load16 m6 (data + 16)) (\<lambda>tot.
      rbind (store16 m6 (data + 16) (htons (word_of_int (olen + uint (htons tot))))) (\<lambda>m7.
      rbind (store32 m7 (data + 30) key) (\<lambda>m8.
      rbind (store16 m8 (data + 36) (htons ETH_P_TEB)) (\<lambda>m9.
      rbind (if ifc = ''vethout2'' then store16 m9 (data + 34) 0
        else if ifc = ''vethout3'' then store16 m9 (data + 34) 1 else Inr m9) (\<lambda>m10.
      rbind (store16 m10 (data + 38) 0) (\<lambda>m11.
      Inr (m11, rv\<lparr>ring_buf_index := q, new_len := nl\<rparr>))))))))))))))))))))"

text \<open>A packet from the network: redirected at once, or decapsulated.\<close>

definition process_nic_old :: "overlap \<Rightarrow> net \<Rightarrow> u8 list \<Rightarrow> nat \<Rightarrow> u32 \<Rightarrow> u64 \<Rightarrow> return_process_rx \<Rightarrow>
    (u8 list \<times> return_process_rx) res" where
  "process_nic_old ov net m data len addr rv =
     rbind (load16 m (data + 12)) (\<lambda>h_proto.
     if htons h_proto \<noteq> ETH_IP then Inr (m, rv)
     else rbind (load8 m (data + 23)) (\<lambda>protocol.
     if protocol \<noteq> PROTO_GRE then Inr (m, rv)
     else rbind (load16 m (data + 36)) (\<lambda>gre_proto.
     if htons gre_proto \<noteq> ETH_P_TEB then Inr (m, rv)
     else rbind (load16 m (data + 52)) (\<lambda>inner_proto.
     if htons inner_proto \<noteq> ETH_IP then Inr (m, rv)
     else rbind (load32 m (data + 30)) (\<lambda>outer_daddr.
     if src_ip net \<noteq> outer_daddr then
       rbind (load32 m (data + 70)) (\<lambda>daddr. rbind (prefix_host daddr) (\<lambda>key.
       rbind (ip_set_index net key) (\<lambda>i. rbind (route_next net i) (\<lambda>mac_index.
       rbind (load16 m (data + 38)) (\<lambda>hops. rbind (store16 m (data + 38) (hops + 1)) (\<lambda>m1.
       rbind (copy_mac net mac_index m1 data) (\<lambda>m2.
       rbind (ether_addr_copy_assignment m2 (data + 6) (out_eth_src net) 0) (\<lambda>m3.
       rbind (store32 m3 (data + 30) key) (\<lambda>m4. rbind (c_int (i - 1)) (\<lambda>q.
         Inr (m4, rv\<lparr>ring_buf_index := q, new_len := 1\<rparr>)))))))))))
     else
       (let cutoff_len = 40 :: nat;
            nl = sint (len - of_nat cutoff_len);
            inner_eth_start_addr = addr + of_nat cutoff_len in
        rbind (load16 m (data + 34)) (\<lambda>flags.
        rbind (c_memcpy ov m (xsk_umem__get_data addr) (xsk_umem__get_data inner_eth_start_addr) (nat (nl mod 2 ^ 64))) (\<lambda>m1.
          Inr (m1, rv\<lparr>which_veth := uint flags, new_len := nl\<rparr>)))))))))"

definition process_rx_packet_old :: "overlap \<Rightarrow> net \<Rightarrow> u8 list \<Rightarrow> nat \<Rightarrow> string \<Rightarrow> u32 \<Rightarrow> u64 \<Rightarrow> return_process_rx \<Rightarrow>
    (u8 list \<times> return_process_rx) res" where
  "process_rx_packet_old ov net m data ifc len addr rv =
     (if prefix OUTER_VETH_PREFIX ifc then process_veth_old ov net m data ifc len addr rv
      else if ifc = nic_iface net then process_nic_old ov net m data len addr rv
      else Inr (m, rv))"

section \<open>The headers of the first version\<close>

text \<open>
  Those of the second version, with this node's hardware address as the source and, for two
  interfaces, the number of the sending namespace as the GRE flags.
\<close>

definition v1_header :: "u8 list \<Rightarrow> u8 list \<Rightarrow> u8 list \<Rightarrow> string \<Rightarrow> u8 list" where
  "v1_header h mac src ifc = (let e = encap_header (take 6 h @ slice src 0 6 @ drop 12 h) mac in
     if ifc = ''vethout2'' then upd16 e 34 0 else if ifc = ''vethout3'' then upd16 e 34 1 else e)"

lemma length_v1_header: "length h = 40 \<Longrightarrow> length mac = 6 \<Longrightarrow> 6 \<le> length src \<Longrightarrow> length (v1_header h mac src ifc) = 40"
  by (simp add: v1_header_def Let_def length_encap_header)

lemma upd16_apart: "i + 1 < j \<Longrightarrow> upd16 (upd16 bs i x) j y = upd16 (upd16 bs j y) i x"
  by (simp add: upd16_def list_update_swap)

lemma upd16_append: "i + 1 < length xs \<Longrightarrow> upd16 (xs @ ys) i w = upd16 xs i w @ ys"
  by (simp add: upd16_def list_update_append)

lemma dest_queue_index:
  assumes "dest_queue net key = Some q" "next_mac_index net q = Inr k"
  shows "ip_set_index net key = Inr (q + 1)" "c_int q = Inr q" "route_next net (q + 1) = Inr k"
proof -
  obtain i where i: "ip_set_index net key = Inr i" "c_int (i - 1) = Inr q"
    using dest_queueD[OF assms(1)] by (auto simp: res_simps)
  then have "q = i - 1" by (auto simp: c_int_def res_simps split: if_splits)
  then show "ip_set_index net key = Inr (q + 1)" "c_int q = Inr q" using i by simp_all
  obtain j where "c_int (q + 1) = Inr j" "route_next net j = Inr k" "j = q + 1"
    using assms(2) by (auto simp: next_mac_index_def route_next_def c_int_def res_simps split: if_splits)
  then show "route_next net (q + 1) = Inr k" by simp
qed

lemma v1_veth_run:
  assumes dq: "dest_queue net (network_host (addr_at m (a + 30))) = Some q" and mac: "next_mac net q = Some mac"
    and src: "6 \<le> length (out_eth_src net)" and a: "a = unat addr" "a + 40 + unat len < 2 ^ 31" "a + 40 + unat len \<le> length m"
    and p: "34 \<le> unat len" "slice m (a + 12) 2 = be16 ETH_IP"
  shows "process_veth_old copy_bytes net m a ifc len addr rv =
    Inr (splice m a (v1_header (slice m a 40) mac (out_eth_src net) ifc @ slice m a (unat len)),
      rv\<lparr>ring_buf_index := q, new_len := int (unat len) + 40\<rparr>)"
proof -
  let ?h = "slice m a 40" and ?p = "slice m a (unat len)" and ?src = "out_eth_src net"
  let ?h' = "take 6 ?h @ slice ?src 0 6 @ drop 12 ?h"
  have h: "length ?h = 40" and lp: "length ?p = unat len" and h': "length ?h' = 40" using a src by simp_all
  obtain k where k: "next_mac_index net q = Inr k"
    and cm: "\<And>m a bs j. a + length bs \<le> length m \<Longrightarrow> j + 5 < length bs \<Longrightarrow>
      copy_mac net k (splice m a bs) (a + j) = Inr (splice m a (take j bs @ mac @ drop (j + 6) bs))"
    using next_macD(2)[OF mac] by blast
  note ml = next_macD(1)[OF mac] and Q = dest_queue_index[OF dq k]
  have ua: "unat (addr + 40) = a + 40" using unat_add_below[of addr 40] a by simp
  have "a + 40 < 2 ^ 48" using a(2) by simp
  then have na: "xsk_umem__get_data (xsk_umem__add_offset_to_addr (addr + 40)) = a + 40"
    by (simp add: add_offset_small ua xsk_umem__get_data_def)
  have ul: "unat (len + 40) = unat len + 40" using unat_add_below[of len 40] a(2) by simp
  have nl: "sint (len + 40) = int (unat len) + 40" using sint_small[of "len + 40"] a(2) ul by simp
  let ?b0 = "?h @ ?p" and ?b1 = "?h' @ ?p"
  have copied: "c_memcpy copy_bytes m (a + 40) a (unat len) = Inr (splice m a ?b0)"
  proof -
    have "splice m (a + 40) ?p = splice m a ?b0" using a by (auto simp: splice_def slice_def min_def take_add add.assoc)
    then show ?thesis using a by (simp add: memcpy_region)
  qed
  have lb0: "a + length ?b0 \<le> length m" "length ?b0 = 40 + unat len" using h lp a by simp_all
  have "load16 (splice m a ?b0) (a + 52) = load16 ?b0 52" by (rule region_load16) (use lb0 p in simp_all)
  also have "\<dots> = Inr (word16_of_bytes (m ! (a + 12)) (m ! (a + 13)))" using h lp p(1) a(3) by (simp add: nth_append)
  finally have proto: "load16 (splice m a ?b0) (a + 40 + 12) = Inr (word16_of_bytes (m ! (a + 12)) (m ! (a + 13)))"
    by (simp only: add.assoc numeral_plus_numeral semiring_norm)
  have eth: "htons (word16_of_bytes (m ! (a + 12)) (m ! (a + 13))) = ETH_IP"
    using p a by (simp add: htons_bytes slice_2 add.commute)
  have "load32 (splice m a ?b0) (a + 30) = load32 ?b0 30" by (rule region_load32) (use lb0 in simp_all)
  also have "\<dots> = Inr (addr_at m (a + 30))" using h a(3) by (simp add: nth_append addr_at_def add.commute)
  finally have d: "load32 (splice m a ?b0) (a + 30) = Inr (addr_at m (a + 30))" .
  have key: "prefix_host (addr_at m (a + 30)) = Inr (network_host (addr_at m (a + 30)))" by (simp add: prefix_host_net)
  have s: "ether_addr_copy_assignment (splice m a ?b0) (a + 6) ?src 0 = Inr (splice m a ?b1)"
    using region_copy_ether[OF lb0(1), of 6 0 ?src] lb0(2) src h by simp
  have lb1: "a + length ?b1 \<le> length m" "length ?b1 = 40 + unat len" using h' lp a by simp_all
  have w1: "copy_mac net k (splice m a ?b1) a = Inr (splice m a (mac @ drop 6 ?b1))" using cm[OF lb1(1), of 0] lb1 by simp
  define b2 where "b2 = upd16 (mac @ drop 6 ?b1) 12 (htons ETH_IP)"
  have lb2: "a + length b2 \<le> length m" "length b2 = 40 + unat len" using lb1 ml by (simp_all add: b2_def)
  have w2: "store16 (splice m a (mac @ drop 6 ?b1)) (a + 12) (htons ETH_IP) = Inr (splice m a b2)"
    using region_store16[of a "mac @ drop 6 ?b1" m 12 "htons ETH_IP"] lb1 ml by (simp add: b2_def del: store16_in)
  have w3: "c_memcpy copy_bytes (splice m a b2) (a + 14) (a + 14) 20 = Inr (splice m a b2)"
    using lb2 by (intro memcpy_self) simp
  have w4: "store8 (splice m a b2) (a + 23) PROTO_GRE = Inr (splice m a (b2[23 := PROTO_GRE]))"
    using region_store8[of a b2 m 23] lb2 by (simp del: store8_in)
  let ?tot = "word16_of_bytes (?h' ! 16) (?h' ! 17)"
  have b2n: "b2 ! j = ?h' ! j" if "14 \<le> j" "j < 40" for j using that ml h' by (auto simp: b2_def upd16_def nth_append)
  have "load16 (splice m a (b2[23 := PROTO_GRE])) (a + 16) = load16 (b2[23 := PROTO_GRE]) 16"
    by (rule region_load16) (use lb2 in simp_all)
  then have t: "load16 (splice m a (b2[23 := PROTO_GRE])) (a + 16) = Inr ?tot" using lb2(2) b2n[of 16] b2n[of 17] by simp
  let ?b3 = "upd16 (b2[23 := PROTO_GRE]) 16 (htons (word_of_int (20 + uint (htons ?tot))))"
  have w5: "store16 (splice m a (b2[23 := PROTO_GRE])) (a + 16) (htons (word_of_int (20 + uint (htons ?tot)))) = Inr (splice m a ?b3)"
    by (rule region_store16) (use lb2 in simp_all)
  let ?key = "network_host (addr_at m (a + 30))"
  have w6: "store32 (splice m a ?b3) (a + 30) ?key = Inr (splice m a (upd32 ?b3 30 ?key))"
    by (rule region_store32) (use lb2 in simp_all)
  let ?b4 = "upd16 (upd32 ?b3 30 ?key) 36 (htons ETH_P_TEB)"
  have w7: "store16 (splice m a (upd32 ?b3 30 ?key)) (a + 36) (htons ETH_P_TEB) = Inr (splice m a ?b4)"
    by (rule region_store16) (use lb2 in simp_all)
  have w8: "store16 (splice m a ?b4) (a + 34) f = Inr (splice m a (upd16 ?b4 34 f))" for f
    by (rule region_store16) (use lb2 in simp_all)
  let ?E = "encap_header ?h' mac"
  have "word32_of_bytes (?h' ! 30) (?h' ! 31) (?h' ! 32) (?h' ! 33) = addr_at m (a + 30)"
    using h a(3) src by (simp add: nth_append addr_at_def add.commute)
  then have E: "upd16 ?b4 38 0 = ?E @ ?p" using encap_writes[OF h' ml, of ?p] by (simp only: b2_def)
  have le: "length ?E = 40" by (rule length_encap_header[OF h' ml])
  have w9: "store16 (splice m a ?b4) (a + 38) 0 = Inr (splice m a (?E @ ?p))"
    unfolding E[symmetric] by (rule region_store16) (use lb2 in simp_all)
  have F: "upd16 (upd16 ?b4 34 f) 38 0 = upd16 ?E 34 f @ ?p" for f
  proof -
    have "upd16 (upd16 ?b4 34 f) 38 0 = upd16 (upd16 ?b4 38 0) 34 f" by (rule upd16_apart) simp
    also have "\<dots> = upd16 (?E @ ?p) 34 f" by (simp only: E)
    also have "\<dots> = upd16 ?E 34 f @ ?p" by (rule upd16_append) (simp add: le)
    finally show ?thesis .
  qed
  have w10: "store16 (splice m a (upd16 ?b4 34 f)) (a + 38) 0 = Inr (splice m a (upd16 ?E 34 f @ ?p))" for f
    unfolding F[symmetric] by (rule region_store16) (use lb2 in simp_all)
  have c40: "of_nat (14 + 20 + 6) = (40 :: u64)" "of_nat (14 + 20 + 6) = (40 :: u32)" "(14 + 6 :: int) = 20" by simp_all
  have fin: "rbind (if ifc = ''vethout2'' then store16 (splice m a ?b4) (a + 34) 0
        else if ifc = ''vethout3'' then store16 (splice m a ?b4) (a + 34) 1 else Inr (splice m a ?b4)) (\<lambda>m10.
      rbind (store16 m10 (a + 38) 0) (\<lambda>m11. Inr (m11, rv'))) =
      Inr (splice m a (v1_header ?h mac ?src ifc @ ?p), rv')" for rv'
    unfolding w8 v1_header_def Let_def using w9 w10 by (simp del: store16_in)
  have q1: "q + 1 - 1 = q" by simp
  show ?thesis
    unfolding process_veth_old_def Let_def c40 na nl copied rbind.simps proto eth d key s Q(1,3) q1 Q(2) w1 w2 w3 w4 t w5 w6 w7
    by (simp only: simp_thms if_False fin) (use p(1) in simp)
qed

section \<open>Packets from the network\<close>

lemma v1_nic_run:
  assumes m: "a + 74 \<le> length m"
  shows "process_nic_old ov net m a len addr rv =
    (if \<not> our_packet m a then Inr (m, rv)
     else if addr_at m (a + 30) \<noteq> src_ip net then
       rbind (ip_set_index net (network_host (addr_at m (a + 70)))) (\<lambda>i. rbind (route_next net i) (\<lambda>k.
       rbind (store16 m (a + 38) (word16_of_bytes (m ! (a + 38)) (m ! (a + 39)) + 1)) (\<lambda>m1. rbind (copy_mac net k m1 a) (\<lambda>m2.
       rbind (ether_addr_copy_assignment m2 (a + 6) (out_eth_src net) 0) (\<lambda>m3.
       rbind (store32 m3 (a + 30) (network_host (addr_at m (a + 70)))) (\<lambda>m4. rbind (c_int (i - 1)) (\<lambda>q.
         Inr (m4, rv\<lparr>ring_buf_index := q, new_len := 1\<rparr>))))))))
     else rbind (c_memcpy ov m (unat addr) (unat (addr + 40)) (nat (sint (len - 40) mod 2 ^ 64))) (\<lambda>m1.
       Inr (m1, rv\<lparr>which_veth := uint (word16_of_bytes (m ! (a + 34)) (m ! (a + 35))), new_len := sint (len - 40)\<rparr>)))"
proof -
  have l: "load16 m (a + 12) = Inr (word16_of_bytes (m ! (a + 12)) (m ! (a + 12 + 1)))"
    "load16 m (a + 36) = Inr (word16_of_bytes (m ! (a + 36)) (m ! (a + 36 + 1)))"
    "load16 m (a + 52) = Inr (word16_of_bytes (m ! (a + 52)) (m ! (a + 52 + 1)))"
    "load16 m (a + 38) = Inr (word16_of_bytes (m ! (a + 38)) (m ! (a + 39)))"
    "load16 m (a + 34) = Inr (word16_of_bytes (m ! (a + 34)) (m ! (a + 35)))"
    "load8 m (a + 23) = Inr (m ! (a + 23))" "load32 m (a + 30) = Inr (addr_at m (a + 30))"
    "load32 m (a + 70) = Inr (addr_at m (a + 70))"
    using m by (simp_all add: addr_at_def add.commute)
  have o: "our_packet m a \<longleftrightarrow> [m ! (a + 12), m ! (a + 12 + 1)] = be16 ETH_IP \<and> m ! (a + 23) = PROTO_GRE \<and>
     [m ! (a + 36), m ! (a + 36 + 1)] = be16 ETH_P_TEB \<and> [m ! (a + 52), m ! (a + 52 + 1)] = be16 ETH_IP"
    using m by (simp only: our_packet_def slice_2)
  show ?thesis
    unfolding process_nic_old_def l rbind.simps o
    by (simp add: htons_bytes prefix_host_net Let_def xsk_umem__get_data_def eq_commute[of "src_ip net"] del: store16_in store32_in)
qed

text \<open>
  A packet in transit is changed when it is received exactly as the second version changes it
  when it is sent; a packet for this node differs in the choice of the namespace only.
\<close>

lemma v1_nic_transit:
  assumes m: "a + 74 \<le> length m" and o: "our_packet m a" "addr_at m (a + 30) \<noteq> src_ip net"
    and dq: "dest_queue net (network_host (addr_at m (a + 70))) = Some q" and mac: "next_mac net q = Some mac"
  shows "process_nic_old ov net m a len addr rv =
    rbind (encap_indirection net q m a) (\<lambda>m1. Inr (m1, rv\<lparr>ring_buf_index := q, new_len := 1\<rparr>))"
proof -
  obtain k where k: "next_mac_index net q = Inr k" using next_macD(2)[OF mac] by blast
  note Q = dest_queue_index[OF dq k]
  have hops: "load16 m (a + 38) = Inr (word16_of_bytes (m ! (a + 38)) (m ! (a + 39)))" using m by (simp add: add.commute)
  let ?w = "word16_of_bytes (m ! (a + 38)) (m ! (a + 39)) + 1"
  obtain m1 where m1: "store16 m (a + 38) ?w = Inr m1" "m1 = m[a + 38 := byte_of 0 ?w, a + 39 := byte_of 1 ?w]"
    using m by (simp add: add.commute)
  have d: "load32 m1 (a + 70) = Inr (addr_at m (a + 70))" using m by (simp add: m1(2) addr_at_def)
  show ?thesis
    unfolding v1_nic_run[OF m] encap_indirection_def k rbind.simps hops m1(1) d prefix_host_net Q
    using o by (simp add: rbind_assoc Q del: store32_in)
qed

lemma v1_nic_local:
  assumes m: "a + 74 \<le> length m" and o: "our_packet m a" "addr_at m (a + 30) = src_ip net"
  shows "process_nic_old ov net m a len addr rv = rbind (get_queue_index_for_nic_rx ov net m a (nic_iface net) len addr rv)
    (\<lambda>(m1, rv1). Inr (m1, rv1\<lparr>which_veth := uint (word16_of_bytes (m ! (a + 34)) (m ! (a + 35)))\<rparr>))"
  unfolding v1_nic_run[OF m] nic_rx_run[OF m] using o by (cases rv) (simp add: rbind_assoc)

section \<open>A packet on its way\<close>

text \<open>The GRE flags of outer headers travel unchanged.\<close>

definition gre_flags :: "u8 list \<Rightarrow> u16" where
  "gre_flags h = word16_of_bytes (h ! 34) (h ! 35)"

lemma header_ok_upd: "header_ok key h \<Longrightarrow> header_ok key (upd16 h 34 f)"
  by (cases "length h = 40") (simp_all add: header_ok_def slice_2 upd16_def addr_at_def)

lemma header_ok_v1:
  assumes h: "length h = 40" and mac: "length mac = 6" and src: "6 \<le> length src"
  shows "header_ok (network_host (addr_at h 30)) (v1_header h mac src ifc)"
proof -
  let ?h' = "take 6 h @ slice src 0 6 @ drop 12 h"
  have h': "length ?h' = 40" using h src by simp
  have "addr_at ?h' 30 = addr_at h 30" using h src by (simp add: addr_at_def nth_append)
  with header_ok_encap[OF h' mac] have "header_ok (network_host (addr_at h 30)) (encap_header ?h' mac)" by simp
  then show ?thesis by (simp add: v1_header_def Let_def header_ok_upd)
qed

lemma nth_encap_header_flags:
  assumes "length h = 40" "length mac = 6"
  shows "encap_header h mac ! 34 = h ! 34" "encap_header h mac ! 35 = h ! 35"
  using assms by (simp_all add: encap_header_def be16_def bytes_of32_def nth_append)

lemma gre_flags_v1:
  assumes h: "length h = 40" and mac: "length mac = 6" and src: "6 \<le> length src"
  shows "gre_flags (v1_header h mac src ifc) = (if ifc = ''vethout2'' then 0 else if ifc = ''vethout3'' then 1 else gre_flags h)"
proof -
  let ?h' = "take 6 h @ slice src 0 6 @ drop 12 h"
  have h': "length ?h' = 40" using h src by simp
  have "?h' ! 34 = h ! 34" "?h' ! 35 = h ! 35" using h src by (simp_all add: nth_append)
  with nth_encap_header_flags[OF h' mac] length_encap_header[OF h' mac] show ?thesis
    by (simp add: v1_header_def Let_def gre_flags_def upd16_def byte_of_def word16_of_bytes_def)
qed

lemma gre_flags_transit:
  assumes "length h = 40" "length mac = 6" "6 \<le> length src"
  shows "gre_flags (transit_header h mac src key) = gre_flags h"
  using assms by (simp add: gre_flags_def transit_header_def Let_def bytes_of32_def nth_append)

text \<open>A node that redirects the packet when it receives it.\<close>

definition v1_forward_hop :: "overlap \<Rightarrow> net \<times> u8 list \<times> u64 \<Rightarrow> u8 list \<Rightarrow> u8 list res" where
  "v1_forward_hop ov node pkt = (case node of (net, m, addr) \<Rightarrow>
     rbind (process_nic_old ov net (splice m (unat addr) pkt) (unat addr) (of_nat (length pkt)) addr
       \<lparr>new_len = 0, ring_buf_index = 0, which_veth = 0\<rparr>) (\<lambda>(m1, rv).
     guard_res Assert_Failed (new_len rv = 1) (Inr (slice m1 (unat addr) (length pkt)))))"

fun v1_forward_path :: "overlap \<Rightarrow> (net \<times> u8 list \<times> u64) list \<Rightarrow> u8 list \<Rightarrow> u8 list res" where
  "v1_forward_path ov [] pkt = Inr pkt"
| "v1_forward_path ov (n # ns) pkt = rbind (v1_forward_hop ov n pkt) (v1_forward_path ov ns)"

lemma v1_forward_hop_ok:
  assumes "header_ok key h" "34 \<le> length p" "slice p 12 2 = be16 ETH_IP" "key = network_host (addr_at p 30)"
    and "on_path key (40 + length p) node"
  shows "\<exists>h'. v1_forward_hop ov node (h @ p) = Inr (h' @ p) \<and> header_ok key h' \<and> gre_flags h' = gre_flags h"
proof -
  obtain net m addr where n: "node = (net, m, addr)" by (cases node)
  obtain q mac where q: "dest_queue net key = Some q" "next_mac net q = Some mac"
    and o: "src_ip net \<noteq> key" "6 \<le> length (out_eth_src net)" "unat addr + 40 + length p \<le> length m"
    using assms(5) n by (auto simp: on_path_def split: option.splits)
  have h: "length h = 40" using assms(1) by (simp add: header_ok_def)
  let ?a = "unat addr" and ?m = "splice m (unat addr) (h @ p)"
  note C = carried_packet[OF assms(1) o(3) assms(2,3)]
  have l: "?a + 74 \<le> length ?m" using C(7) o(3) assms(2) by simp
  let ?h' = "transit_header h mac (out_eth_src net) key"
  have e: "encap_indirection net q ?m ?a = Inr (splice ?m ?a ?h')"
    using encap_indirection_run[OF q(2) l o(2)] C(3,5) assms(4) by simp
  have dq: "dest_queue net (network_host (addr_at ?m (?a + 70))) = Some q" using q(1) C(3) assms(4) by simp
  have away: "addr_at ?m (?a + 30) \<noteq> src_ip net" using C(2) o(1) by simp
  have r: "process_nic_old ov net ?m ?a len addr rv = Inr (splice ?m ?a ?h', rv\<lparr>ring_buf_index := q, new_len := 1\<rparr>)" for len rv
    by (simp only: v1_nic_transit[OF l C(1) away dq q(2)] e rbind.simps)
  have ml: "length mac = 6" by (rule next_macD(1)[OF q(2)])
  have h': "length ?h' = 40" by (rule length_transit_header[OF h ml o(2)])
  have "splice ?m ?a ?h' = splice m ?a (?h' @ p)"
    using h h' o(3) by (simp add: splice_def)
  then have "v1_forward_hop ov node (h @ p) = Inr (?h' @ p)"
    using r h' h o(3) slice_splice[of ?a "?h' @ p" m] by (simp add: v1_forward_hop_def n)
  with header_ok_transit[OF assms(1) ml o(2)] gre_flags_transit[OF h ml o(2)] show ?thesis by blast
qed

lemma v1_forward_path_ok:
  assumes "header_ok key h" "34 \<le> length p" "slice p 12 2 = be16 ETH_IP" "key = network_host (addr_at p 30)"
    and "\<forall>n \<in> set ns. on_path key (40 + length p) n"
  shows "\<exists>h'. v1_forward_path ov ns (h @ p) = Inr (h' @ p) \<and> header_ok key h' \<and> gre_flags h' = gre_flags h"
  using assms(1,5)
proof (induction ns arbitrary: h)
  case (Cons n ns)
  from v1_forward_hop_ok[OF Cons.prems(1) assms(2-4), of n ov] Cons.prems(2) obtain h1 where
    "v1_forward_hop ov n (h @ p) = Inr (h1 @ p)" "header_ok key h1" "gre_flags h1 = gre_flags h" by auto
  with Cons.IH[of h1] Cons.prems(2) show ?case by auto
qed auto

text \<open>Delivery at the destination.\<close>

lemma v1_deliver:
  assumes "header_ok key h" "34 \<le> length p" "slice p 12 2 = be16 ETH_IP" "src_ip dst = key"
    and "unat addr + 40 + length p < 2 ^ 31" "unat addr + 40 + length p \<le> length m" "unat len = length p"
  shows "\<exists>m2. process_nic_old copy_bytes dst (splice m (unat addr) (h @ p)) (unat addr) (len + 40) addr rv =
      Inr (m2, rv\<lparr>which_veth := uint (gre_flags h), new_len := int (length p)\<rparr>) \<and> slice m2 (unat addr) (length p) = p"
proof -
  let ?a = "unat addr" and ?m = "splice m (unat addr) (h @ p)"
  have h: "length h = 40" using assms(1) by (simp add: header_ok_def)
  note C = carried_packet[OF assms(1,6,2,3)]
  have l: "?a + 74 \<le> length ?m" using C(7) assms(2,6) by simp
  have here: "addr_at ?m (?a + 30) = src_ip dst" using C(2) assms(4) by simp
  have ul: "unat (len + 40) = length p + 40" using unat_add_below[of len 40] assms(5,7) by simp
  have fits: "40 \<le> unat (len + 40)" "?a + unat (len + 40) \<le> length ?m" "?a + unat (len + 40) < 2 ^ 31"
    using ul C(7) assms(5,6) by simp_all
  have fl: "?m ! (?a + 34) = h ! 34" "?m ! (?a + 35) = h ! 35"
    using nth_splice[of ?a "h @ p" m 34] nth_splice[of ?a "h @ p" m 35] h assms(6) by (simp_all add: nth_append)
  let ?m2 = "splice ?m ?a (slice ?m (?a + 40) (unat (len + 40) - 40))"
  have s: "slice ?m (?a + 40) (unat (len + 40) - 40) = p" using C(6) ul by simp
  have "process_nic_old copy_bytes dst ?m ?a (len + 40) addr rv =
      Inr (?m2, rv\<lparr>which_veth := uint (gre_flags h), new_len := int (length p)\<rparr>)"
    unfolding v1_nic_local[OF l C(1) here] nic_rx_local[OF l C(1) here refl fits] rbind.simps prod.case fl gre_flags_def[symmetric]
    using ul by (cases rv) simp
  moreover have "slice ?m2 ?a (length p) = p" unfolding s by (rule slice_splice) (use C(7) assms(6) in simp)
  ultimately show ?thesis by blast
qed

section \<open>Properties\<close>

lemma length_header_run:
  assumes "length x = 40" "a + 40 + l \<le> length m"
  shows "length (splice m a (x @ slice m a l)) = length m"
    "j < a \<or> a + 40 \<le> j \<Longrightarrow> length y = 40 \<Longrightarrow> splice m a (x @ slice m a l) ! j = splice m a (y @ slice m a l) ! j"
    "i < 40 \<Longrightarrow> splice m a (x @ slice m a l) ! (a + i) = x ! i"
    "slice (splice m a (x @ slice m a l)) a (40 + l) = x @ slice m a l"
proof -
  have l: "a + length (x @ slice m a l) \<le> length m" using assms by simp
  show "length (splice m a (x @ slice m a l)) = length m" by (rule length_splice[OF l])
  show "slice (splice m a (x @ slice m a l)) a (40 + l) = x @ slice m a l" using slice_splice[OF l] assms by simp
  show "i < 40 \<Longrightarrow> splice m a (x @ slice m a l) ! (a + i) = x ! i" using nth_splice[OF l, of i] assms by (simp add: nth_append)
  show "splice m a (x @ slice m a l) ! j = splice m a (y @ slice m a l) ! j" if "j < a \<or> a + 40 \<le> j" "length y = 40"
    using that assms by (auto simp: splice_def nth_append)
qed

lemma own_address: "dest_queue (net\<lparr>src_ip := x\<rparr>) = dest_queue net" "next_mac (net\<lparr>src_ip := x\<rparr>) = next_mac net"
  by (simp_all add: fun_eq_iff dest_queue_def next_mac_def next_mac_index_def split: sum.split)

text \<open>Where the two versions' headers for a packet agree.\<close>

lemma headers_agree:
  assumes "length h = 40" "length mac = 6" "length mac' = 6" "6 \<le> length src" "12 \<le> j" "j < 40" "j \<noteq> 34" "j \<noteq> 35"
  shows "v1_header h mac src ifc ! j = encap_header h mac' ! j"
proof -
  let ?h' = "take 6 h @ slice src 0 6 @ drop 12 h"
  have n: "?h' ! k = h ! k" if "12 \<le> k" for k using that assms(1,4) by (auto simp: nth_append)
  have "drop 12 (encap_header ?h' mac) = drop 12 (encap_header h mac')"
  proof -
    have "slice ?h' k c = slice h k c" if "12 \<le> k" for k c
      using that assms(1,4) by (simp add: slice_def)
    then show ?thesis using n assms(1-4) by (simp add: encap_header_def)
  qed
  then have "encap_header ?h' mac ! j = encap_header h mac' ! j"
    using assms length_encap_header[of ?h' mac] length_encap_header[of h mac'] nth_drop[of 12 "encap_header ?h' mac" "j - 12"]
      nth_drop[of 12 "encap_header h mac'" "j - 12"] by simp
  then show ?thesis using assms(7,8) by (simp add: v1_header_def Let_def upd16_def)
qed

text \<open>A packet that is not IP, or too short for it, is moved, and nothing else.\<close>

lemma v1_veth_refused:
  assumes a: "a = unat addr" "a + 40 + unat len < 2 ^ 31" "a + 40 + unat len \<le> length m" "a + 74 \<le> length m"
    and p: "\<not> (34 \<le> unat len \<and> slice m (a + 12) 2 = be16 ETH_IP)"
  shows "process_veth_old copy_bytes net m a ifc len addr rv = Inr (splice m (a + 40) (slice m a (unat len)), rv)"
proof -
  let ?m1 = "splice m (a + 40) (slice m a (unat len))"
  have ua: "unat (addr + 40) = a + 40" using unat_add_below[of addr 40] a by simp
  have "a + 40 < 2 ^ 48" using a(2) by simp
  then have na: "xsk_umem__get_data (xsk_umem__add_offset_to_addr (addr + 40)) = a + 40"
    by (simp add: add_offset_small ua xsk_umem__get_data_def)
  have copied: "c_memcpy copy_bytes m (a + 40) a (unat len) = Inr ?m1" using a by (simp add: memcpy_region)
  have l: "length ?m1 = length m" using a by simp
  have proto: "load16 ?m1 (a + 52) = Inr (word16_of_bytes (?m1 ! (a + 52)) (?m1 ! (a + 53)))" using a l by (simp add: add.commute)
  have "htons (word16_of_bytes (?m1 ! (a + 52)) (?m1 ! (a + 53))) \<noteq> ETH_IP \<or> unat len < 34"
  proof (cases "34 \<le> unat len")
    case True
    then have "?m1 ! (a + 52) = m ! (a + 12)" "?m1 ! (a + 53) = m ! (a + 13)"
      using a nth_splice[of "a + 40" "slice m a (unat len)" m 12] nth_splice[of "a + 40" "slice m a (unat len)" m 13] by (simp_all add: add.commute)
    moreover have "[m ! (a + 12), m ! (a + 13)] \<noteq> be16 ETH_IP" using p True a by (simp add: slice_2 add.commute)
    ultimately show ?thesis by (simp add: htons_bytes)
  qed simp
  then obtain h where h: "load16 ?m1 (a + 40 + 12) = Inr h" "htons h \<noteq> ETH_IP \<or> unat len < 14 + 20" using proto by (simp add: add.commute)
  have n: "addr + of_nat (14 + 20 + 6 :: nat) = addr + 40" by simp
  show "process_veth_old copy_bytes net m a ifc len addr rv = Inr (?m1, rv)"
    unfolding process_veth_old_def Let_def n na copied rbind.simps h(1) if_P[OF h(2)] by simp
qed

text \<open>Property C8: the two versions on a packet from a namespace to a destination of the table. An IP packet that
  has room for its headers gets the same queue and the same length from both, and the same bytes
  except the hardware addresses and the GRE flags, although the first version builds the headers
  when the packet is received and the second one when it is sent: so the first version's next
  hop is that of the slot in which the packet was received. Any other packet the second version
  queues and encapsulates just the same, since it looks at no type and no length; the first
  version leaves it without a result and only moves its bytes.\<close>
theorem v1_v2_source_equivalent:
  assumes "dest_queue net (network_host (addr_at m (unat addr + 30))) = Some q" "next_mac net q = Some mac" "next_mac net' q = Some mac'"
    and "6 \<le> length (out_eth_src net)" "unat addr + 40 + unat len < 2 ^ 31" "unat addr + 40 + unat len \<le> length m" "unat addr + 74 \<le> length m"
    and "prefix OUTER_VETH_PREFIX ifc" "m ! (unat addr + 23) = PROTO_TCP \<longrightarrow> 0 \<le> dbg \<and> dbg < TELEMETRY_SIZE"
  shows "\<exists>m2 tel'. get_destination_queue_index net m (unat addr) ifc = Inr q \<and>
    encap_veth copy_bytes net' tel q m (unat addr) len addr dbg = Inr (m2, tel', int (unat len) + 40) \<and>
    length m2 = length m \<and> slice m2 (unat addr) 6 = mac' \<and>
    (if 34 \<le> unat len \<and> slice m (unat addr + 12) 2 = be16 ETH_IP then
       \<exists>m1. process_rx_packet_old copy_bytes net m (unat addr) ifc len addr rv =
           Inr (m1, rv\<lparr>ring_buf_index := q, new_len := int (unat len) + 40\<rparr>) \<and>
         length m1 = length m \<and> slice m1 (unat addr) 6 = mac \<and>
         (\<forall>j < length m. j \<notin> {unat addr ..< unat addr + 12} \<union> {unat addr + 34 ..< unat addr + 36} \<longrightarrow> m1 ! j = m2 ! j)
     else process_rx_packet_old copy_bytes net m (unat addr) ifc len addr rv =
       Inr (splice m (unat addr + 40) (slice m (unat addr) (unat len)), rv))"
proof -
  let ?a = "unat addr" and ?h = "slice m (unat addr) 40" and ?ip = "34 \<le> unat len \<and> slice m (unat addr + 12) 2 = be16 ETH_IP"
  let ?x = "v1_header ?h mac (out_eth_src net) ifc" and ?y = "encap_header ?h mac'"
  let ?m1 = "splice m ?a (?x @ slice m ?a (unat len))" and ?m2 = "splice m ?a (?y @ slice m ?a (unat len))"
  have m42: "?a + 42 \<le> length m" and h: "length ?h = 40" using assms(7) by simp_all
  note ml = next_macD(1)[OF assms(2)] and ml' = next_macD(1)[OF assms(3)]
  have lx: "length ?x = 40" by (rule length_v1_header[OF h ml assms(4)])
  have ly: "length ?y = 40" by (rule length_encap_header[OF h ml'])
  have old: "process_rx_packet_old copy_bytes net m ?a ifc len addr rv = process_veth_old copy_bytes net m ?a ifc len addr rv"
    using assms(8) by (simp add: process_rx_packet_old_def)
  have 2: "get_destination_queue_index net m ?a ifc = Inr q"
    using dest_queueD[OF assms(1)] assms(7,8) load_addr[of "?a + 30" m]
    by (simp add: get_destination_queue_index_def prefix_host_net)
  note 3 = encap_veth_run[OF assms(3) refl assms(5,6) m42 assms(9), of tel]
  have s6: "slice (splice m ?a (z @ slice m ?a (unat len))) ?a 6 = take 6 z" if "length z = 40" for z
    using that assms(6) by (simp add: slice_def splice_def)
  have t6: "take 6 ?x = mac" "take 6 ?y = mac'" using ml ml' by (simp_all add: v1_header_def Let_def upd16_def encap_header_def)
  have same: "?m1 ! j = ?m2 ! j" if "j < length m" "j \<notin> {?a ..< ?a + 12} \<union> {?a + 34 ..< ?a + 36}" for j
  proof (cases "j < ?a \<or> ?a + 40 \<le> j")
    case True
    then show ?thesis using length_header_run(2)[OF lx assms(6)] ly by blast
  next
    case False
    define i where "i = j - ?a"
    then have i: "j = ?a + i" "i < 40" "12 \<le> i" "i \<noteq> 34" "i \<noteq> 35" using False that(2) by auto
    show ?thesis unfolding i(1) length_header_run(3)[OF lx assms(6) i(2)] length_header_run(3)[OF ly assms(6) i(2)]
      by (rule headers_agree[OF h ml ml' assms(4) i(3,2,4,5)])
  qed
  have first: "if ?ip then process_rx_packet_old copy_bytes net m ?a ifc len addr rv = Inr (?m1, rv\<lparr>ring_buf_index := q, new_len := int (unat len) + 40\<rparr>)
      else process_rx_packet_old copy_bytes net m ?a ifc len addr rv = Inr (splice m (?a + 40) (slice m ?a (unat len)), rv)"
  proof (cases ?ip)
    case True
    then show ?thesis using v1_veth_run[OF assms(1,2,4) refl assms(5,6)] old by simp
  next
    case False
    show ?thesis unfolding old if_not_P[OF False] by (rule v1_veth_refused[OF refl assms(5-7) False])
  qed
  have "slice ?m2 ?a 6 = mac'" "length ?m2 = length m" using s6[OF ly] t6(2) length_header_run(1)[OF ly assms(6)] by simp_all
  moreover have "slice ?m1 ?a 6 = mac" "length ?m1 = length m" using s6[OF lx] t6(1) length_header_run(1)[OF lx assms(6)] by simp_all
  ultimately show ?thesis using first 2 3 same by (intro exI[of _ ?m2] exI[of _ "encap_log tel (slice m ?a 42) dbg"]) (auto simp only: if_True if_False split: if_splits)
qed

theorem v1_v2_source_equivalent_witness:
  "\<exists>m1 m2 tel'. process_rx_packet_old copy_bytes sample_net sample_area 0 ''vethout3'' 34 0 \<lparr>new_len = 0, ring_buf_index = 0, which_veth = 0\<rparr> =
      Inr (m1, \<lparr>new_len = 74, ring_buf_index = 1, which_veth = 0\<rparr>) \<and>
    encap_veth copy_bytes sample_net \<lparr>seq = (\<lambda>_. 0), src_port = (\<lambda>_. 0)\<rparr> 1 sample_area 0 34 0 0 = Inr (m2, tel', 74) \<and>
    slice m1 0 6 = slice m2 0 6 \<and> m1 ! 70 = m2 ! 70"
proof -
  have q: "dest_queue sample_net (network_host (addr_at sample_area (unat (0 :: u64) + 30))) = Some 1"
    by (simp add: sample_area_facts sample_lookups)
  have ip: "34 \<le> unat (34 :: u32) \<and> slice sample_area (unat (0 :: u64) + 12) 2 = be16 ETH_IP" by (simp add: sample_area_facts)
  have 1: "6 \<le> length (out_eth_src sample_net)" "unat (0 :: u64) + 40 + unat (34 :: u32) < 2 ^ 31"
    "unat (0 :: u64) + 40 + unat (34 :: u32) \<le> length sample_area" "unat (0 :: u64) + 74 \<le> length sample_area"
    "prefix OUTER_VETH_PREFIX ''vethout3''" "sample_area ! (unat (0 :: u64) + 23) = PROTO_TCP \<longrightarrow> 0 \<le> (0 :: int) \<and> (0 :: int) < TELEMETRY_SIZE"
    by (simp_all add: sample_area_facts prefix_def OUTER_VETH_PREFIX_def PROTO_TCP_def) (simp add: sample_net_def)
  from v1_v2_source_equivalent[OF q sample_lookups(2) sample_lookups(2) 1, unfolded if_P[OF ip],
      where rv = "\<lparr>new_len = 0, ring_buf_index = 0, which_veth = 0\<rparr>" and tel = "\<lparr>seq = (\<lambda>_. 0), src_port = (\<lambda>_. 0)\<rparr>"]
  obtain m1 m2 tel' where r: "process_rx_packet_old copy_bytes sample_net sample_area 0 ''vethout3'' 34 0 \<lparr>new_len = 0, ring_buf_index = 0, which_veth = 0\<rparr> =
      Inr (m1, \<lparr>new_len = 74, ring_buf_index = 1, which_veth = 0\<rparr>)"
    "encap_veth copy_bytes sample_net \<lparr>seq = (\<lambda>_. 0), src_port = (\<lambda>_. 0)\<rparr> 1 sample_area 0 34 0 0 = Inr (m2, tel', 74)"
    "slice m1 0 6 = slice m2 0 6" "\<forall>j < length sample_area. j \<notin> {0 ..< 12} \<union> {34 ..< 36} \<longrightarrow> m1 ! j = m2 ! j" by auto
  have "m1 ! 70 = m2 ! 70" by (rule r(4)[rule_format]) (simp_all add: sample_area_facts)
  with r(1-3) show ?thesis by blast
qed

text \<open>Property C9: on a packet from the network the two versions agree: one that is not the emulator's is
  left alone, one in transit is changed at once as the second version changes it later, and one
  for this node is decapsulated alike; but the first version takes the namespace from the GRE
  flags, the second one from the packet's destination.\<close>
theorem v1_v2_network_equivalent:
  assumes "a + 74 \<le> length m"
    and "our_packet m a \<and> addr_at m (a + 30) \<noteq> src_ip net \<longrightarrow>
      dest_queue net (network_host (addr_at m (a + 70))) = Some q \<and> next_mac net q = Some mac"
  shows "process_nic_old ov net m a len addr rv =
    rbind (get_queue_index_for_nic_rx ov net m a (nic_iface net) len addr rv) (\<lambda>(m1, rv1).
      if \<not> our_packet m a then Inr (m1, rv1)
      else if addr_at m (a + 30) \<noteq> src_ip net then rbind (encap_indirection net (ring_buf_index rv1) m1 a) (\<lambda>m2. Inr (m2, rv1))
      else Inr (m1, rv1\<lparr>which_veth := uint (gre_flags (slice m a 40))\<rparr>))"
proof -
  consider "\<not> our_packet m a" | "our_packet m a" "addr_at m (a + 30) \<noteq> src_ip net" | "our_packet m a" "addr_at m (a + 30) = src_ip net"
    by blast
  then show ?thesis
  proof cases
    case 1
    then show ?thesis unfolding v1_nic_run[OF assms(1)] nic_rx_run[OF assms(1)] by simp
  next
    case 2
    then have T: "dest_queue net (network_host (addr_at m (a + 70))) = Some q" "next_mac net q = Some mac" using assms(2) by simp_all
    show ?thesis unfolding v1_nic_transit[OF assms(1) 2 T] nic_rx_transit[OF assms(1) 2 T(1)] rbind.simps prod.case
      using 2 by simp
  next
    case 3
    have f: "gre_flags (slice m a 40) = word16_of_bytes (m ! (a + 34)) (m ! (a + 35))"
      using assms(1) by (simp add: gre_flags_def)
    show ?thesis unfolding v1_nic_local[OF assms(1) 3] f using 3 by simp
  qed
qed

theorem v1_v2_network_equivalent_witness:
  "\<exists>m2. process_nic_old copy_bytes (sample_net\<lparr>src_ip := 1\<rparr>) sample_gre 0 74 0 \<lparr>new_len = 0, ring_buf_index = 0, which_veth = 0\<rparr> =
      Inr (m2, \<lparr>new_len = 1, ring_buf_index = 1, which_veth = 0\<rparr>) \<and>
    encap_indirection (sample_net\<lparr>src_ip := 1\<rparr>) 1 sample_gre 0 = Inr m2"
proof -
  let ?net = "sample_net\<lparr>src_ip := 1\<rparr>"
  have t: "dest_queue ?net (network_host (addr_at sample_gre (0 + 70))) = Some 1" "next_mac ?net 1 = Some [1, 2, 3, 4, 5, 6]"
    using sample_lookups by (simp_all add: sample_gre_facts own_address)
  have away: "addr_at sample_gre (0 + 30) \<noteq> src_ip ?net" by (simp add: sample_gre_facts)
  have src: "6 \<le> length (out_eth_src ?net)" by (simp add: sample_net_def)
  have l: "0 + 74 \<le> length sample_gre" by (simp add: sample_gre_facts)
  note e = encap_indirection_run[OF t(2) l src]
  have r: "get_queue_index_for_nic_rx copy_bytes ?net sample_gre 0 (nic_iface ?net) 74 0 \<lparr>new_len = 0, ring_buf_index = 0, which_veth = 0\<rparr> =
      Inr (sample_gre, \<lparr>new_len = 1, ring_buf_index = 1, which_veth = 0\<rparr>)"
    using nic_rx_transit[OF l sample_gre_facts(2) away t(1)] by simp
  show ?thesis
    using v1_v2_network_equivalent[of 0 sample_gre ?net 1 "[1, 2, 3, 4, 5, 6]" copy_bytes 74 0 "\<lparr>new_len = 0, ring_buf_index = 0, which_veth = 0\<rparr>"]
      l t away e r sample_gre_facts(2) by simp
qed

text \<open>Property C35: a packet sent by the first version, redirected by any number of its nodes and received by the
  node of its destination network arrives byte by byte as it was sent. But the namespace it is
  handed to has the number of the sending interface (0 for \<open>vethout2\<close>, 1 for \<open>vethout3\<close>); from
  any other interface it is a number that the packet itself carries, at the place of its
  transport header's source port.\<close>
theorem v1_path_wrong_namespace:
  assumes "key = network_host (addr_at m (unat addr + 30))" "dest_queue net key = Some q" "next_mac net q = Some mac"
    and "6 \<le> length (out_eth_src net)" "34 \<le> unat len" "unat addr + 40 + unat len < 2 ^ 31" "unat addr + 40 + unat len \<le> length m"
    and "slice m (unat addr + 12) 2 = be16 ETH_IP" "prefix OUTER_VETH_PREFIX ifc"
    and "\<forall>n \<in> set path. on_path key (40 + unat len) n"
    and "src_ip dst = key" "\<not> prefix OUTER_VETH_PREFIX (nic_iface dst)"
    and "unat addr' + 40 + unat len < 2 ^ 31" "unat addr' + 40 + unat len \<le> length m'"
  shows "\<exists>m1 pkt m2 rv2. process_rx_packet_old copy_bytes net m (unat addr) ifc len addr rv =
      Inr (m1, rv\<lparr>ring_buf_index := q, new_len := int (unat len) + 40\<rparr>) \<and>
    v1_forward_path copy_bytes path (slice m1 (unat addr) (40 + unat len)) = Inr pkt \<and>
    process_rx_packet_old copy_bytes dst (splice m' (unat addr') pkt) (unat addr') (nic_iface dst) (len + 40) addr' rv' = Inr (m2, rv2) \<and>
    slice m2 (unat addr') (unat len) = slice m (unat addr) (unat len) \<and> new_len rv2 = int (unat len) \<and>
    which_veth rv2 = (if ifc = ''vethout2'' then 0 else if ifc = ''vethout3'' then 1
      else uint (word16_of_bytes (m ! (unat addr + 34)) (m ! (unat addr + 35))))"
proof -
  let ?a = "unat addr" and ?p = "slice m (unat addr) (unat len)" and ?h = "slice m (unat addr) 40"
  let ?x = "v1_header ?h mac (out_eth_src net) ifc"
  have h: "length ?h = 40" and p: "length ?p = unat len" using assms(7) by simp_all
  note ml = next_macD(1)[OF assms(3)]
  note send = v1_veth_run[OF assms(2)[unfolded assms(1)] assms(3,4) refl assms(6,7,5,8)]
  have lx: "length ?x = 40" by (rule length_v1_header[OF h ml assms(4)])
  have ha: "addr_at ?h 30 = addr_at m (?a + 30)" "addr_at ?p 30 = addr_at m (?a + 30)"
    using assms(5,7) by (simp_all add: addr_at_def add.commute)
  have ok: "header_ok key ?x" using header_ok_v1[OF h ml assms(4)] ha assms(1) by simp
  have p12: "slice ?p 12 2 = be16 ETH_IP" using assms(5,7,8) by (simp add: slice_def min_def take_drop add.commute)
  have pk: "34 \<le> length ?p" "key = network_host (addr_at ?p 30)" "\<forall>n \<in> set path. on_path key (40 + length ?p) n"
    using assms(1,5,10) p ha by simp_all
  obtain x' where x': "v1_forward_path copy_bytes path (?x @ ?p) = Inr (x' @ ?p)" "header_ok key x'" "gre_flags x' = gre_flags ?x"
    using v1_forward_path_ok[OF ok pk(1) p12 pk(2,3)] by blast
  have fit: "unat addr' + 40 + length ?p < 2 ^ 31" "unat addr' + 40 + length ?p \<le> length m'" "unat len = length ?p"
    using assms(13,14) p by simp_all
  obtain m2 where m2: "process_nic_old copy_bytes dst (splice m' (unat addr') (x' @ ?p)) (unat addr') (len + 40) addr' rv' =
      Inr (m2, rv'\<lparr>which_veth := uint (gre_flags x'), new_len := int (length ?p)\<rparr>)" "slice m2 (unat addr') (length ?p) = ?p"
    using v1_deliver[OF x'(2) pk(1) p12 assms(11) fit] by blast
  have fl: "uint (gre_flags x') = (if ifc = ''vethout2'' then 0 else if ifc = ''vethout3'' then 1
      else uint (word16_of_bytes (m ! (?a + 34)) (m ! (?a + 35))))"
    using gre_flags_v1[OF h ml assms(4), of ifc] x'(3) assms(7) by (simp add: gre_flags_def)
  show ?thesis
    using send x'(1) m2 p fl assms(9,12) length_header_run(4)[OF lx assms(7)] by (simp add: process_rx_packet_old_def)
qed

theorem v1_path_wrong_namespace_witness:
  "\<exists>m1 pkt m2 rv2. process_rx_packet_old copy_bytes sample_net (sample_area[34 := 80]) 0 ''vethout4'' 34 0 \<lparr>new_len = 0, ring_buf_index = 0, which_veth = 0\<rparr> =
      Inr (m1, \<lparr>new_len = 74, ring_buf_index = 1, which_veth = 0\<rparr>) \<and>
    v1_forward_path copy_bytes [(sample_net, replicate 74 0, 0)] (slice m1 0 74) = Inr pkt \<and>
    process_rx_packet_old copy_bytes (sample_net\<lparr>src_ip := network_host 0\<rparr>) (splice (replicate 74 0) 0 pkt) 0 ''nic'' 74 0
      \<lparr>new_len = 0, ring_buf_index = 0, which_veth = 0\<rparr> = Inr (m2, rv2) \<and> which_veth rv2 = 80"
proof -
  let ?m = "sample_area[34 := 80]"
  have n: "?m ! i = sample_area ! i" if "i \<noteq> 34" for i using that by simp
  have facts: "network_host 0 = network_host (addr_at ?m (unat (0 :: u64) + 30))" "length ?m = 114"
    "slice ?m (unat (0 :: u64) + 12) 2 = be16 ETH_IP"
    using sample_area_facts by (simp_all add: addr_at_def slice_2)
  have 1: "6 \<le> length (out_eth_src sample_net)" "34 \<le> unat (34 :: u32)" "unat (0 :: u64) + 40 + unat (34 :: u32) < 2 ^ 31"
    "unat (0 :: u64) + 40 + unat (34 :: u32) \<le> length ?m"
    using facts by (simp_all add: sample_net_def)
  have 2: "prefix OUTER_VETH_PREFIX ''vethout4''" "\<forall>n \<in> set [(sample_net, replicate 74 0, 0)]. on_path (network_host 0) (40 + unat (34 :: u32)) n"
    "src_ip (sample_net\<lparr>src_ip := network_host 0\<rparr>) = network_host 0" "\<not> prefix OUTER_VETH_PREFIX (nic_iface (sample_net\<lparr>src_ip := network_host 0\<rparr>))"
    "unat (0 :: u64) + 40 + unat (34 :: u32) < 2 ^ 31" "unat (0 :: u64) + 40 + unat (34 :: u32) \<le> length (replicate 74 (0 :: u8))"
    using sample_on_path by (simp_all add: prefix_def OUTER_VETH_PREFIX_def) (simp add: sample_net_def)
  have v: "word16_of_bytes 80 0 = 80" by (simp add: word16_of_bytes_def)
  have b: "?m ! 34 = 80" "?m ! 35 = 0" using facts(2) by (simp_all add: sample_area_def nth_append)
  from v1_path_wrong_namespace[OF facts(1) sample_lookups 1 facts(3) 2(1,2,3,4,5,6), where rv = "\<lparr>new_len = 0, ring_buf_index = 0, which_veth = 0\<rparr>"
      and rv' = "\<lparr>new_len = 0, ring_buf_index = 0, which_veth = 0\<rparr>"]
  show ?thesis by (simp add: v b sample_net_def) blast
qed

end
