(* ===== verification/V1_Threads.thy ===== *)
theory V1_Threads
  imports Opera_V1
begin

text \<open>
  The threads of the first version (\<open>opera-v1/thread_functions_1.h\<close>). Queues carry packets that
  are ready to be sent, so the transmit threads only move them; nothing is counted or logged.
\<close>

section \<open>Receiving\<close>

text \<open>Putting a packet into a queue: a full queue gives the buffer back.\<close>

definition v1_enqueue :: "queue_kind \<Rightarrow> nat \<Rightarrow> nat \<Rightarrow> burst_tx \<Rightarrow> return_process_rx \<Rightarrow> emu \<Rightarrow> (emu \<times> return_process_rx) run" where
  "v1_enqueue kd pi i b rv e = rthen (push_to (queues_of kd e) i b) (\<lambda>(ret, qs).
     let e1 = with_queues kd qs e in
     if ret = 0 then Some (rbind (drop_buffer pi (tx_addr b) e1) (\<lambda>e2. Inr (e2, rv))) else Some (Inr (e1, rv)))"

text \<open>
  One packet from a namespace: queue and length are taken from the result record; a length of 0
  (no result in this pass yet) drops the packet.
\<close>

definition v1_veth_rx_packet :: "overlap \<Rightarrow> thread_data \<Rightarrow> nat \<Rightarrow> bool \<Rightarrow> pkt \<Rightarrow> emu \<times> return_process_rx \<Rightarrow>
    (emu \<times> return_process_rx) run" where
  "v1_veth_rx_packet ov t pi alloc b = (\<lambda>(e, rv0).
     (let pkt = xsk_umem__get_data (xsk_umem__add_offset_to_addr (fst b)) in
      rthen (Some (arr_get (eports e) pi)) (\<lambda>p.
      rthen (Some (process_rx_packet_old ov (enet e) (umem e) pkt (iface (pparams p)) (snd b) (fst b) rv0)) (\<lambda>(m1, rv).
      let e1 = e\<lparr>umem := m1\<rparr> in
      if \<not> alloc then Some (Inr (e1, rv))
      else if new_len rv \<noteq> 0 then
        rthen (Some (idx_get (take NUM_OF_PER_DEST_QUEUES (local_dest_queue_array t)) (ring_buf_index rv))) (\<lambda>q.
          case q of None \<Rightarrow> Some (Inr (e1, rv))
          | Some i \<Rightarrow> v1_enqueue Local_Dest pi i \<lparr>tx_addr = fst b, tx_len = word_of_int (new_len rv), tx_n_pkts = 1\<rparr> rv e1)
      else Some (rbind (drop_buffer pi (fst b) e1) (\<lambda>e3. Inr (e3, rv)))))))"

fun v1_veth_rx_packets :: "overlap \<Rightarrow> thread_data \<Rightarrow> nat \<Rightarrow> (bool \<times> pkt) list \<Rightarrow> emu \<times> return_process_rx \<Rightarrow>
    (emu \<times> return_process_rx) run" where
  "v1_veth_rx_packets ov t pi [] s = Some (Inr s)"
| "v1_veth_rx_packets ov t pi (b # bs) s = rthen (v1_veth_rx_packet ov t pi (fst b) (snd b) s) (v1_veth_rx_packets ov t pi bs)"

definition v1_veth_pass :: "overlap \<Rightarrow> thread_data \<Rightarrow> pass_env \<Rightarrow> emu \<times> return_process_rx \<Rightarrow> (emu \<times> return_process_rx) run" where
  "v1_veth_pass ov t env = (\<lambda>(e, rv0). let rv = rv0\<lparr>new_len := 0, ring_buf_index := 0\<rparr> in
     rthen (Some (port_at (ports_rx t) 0)) (\<lambda>pi.
     rthen (emu_rx_burst pi (kernel env) e) (\<lambda>(pkts, e1).
       v1_veth_rx_packets ov t pi (zip (map (allocs env) [0..<length pkts]) pkts) (e1, rv))))"

fun v1_thread_func_veth :: "overlap \<Rightarrow> thread_data \<Rightarrow> pass_env list \<Rightarrow> emu \<times> return_process_rx \<Rightarrow> (emu \<times> return_process_rx) run" where
  "v1_thread_func_veth ov t [] s = Some (Inr s)"
| "v1_thread_func_veth ov t (x # xs) s = rthen (v1_veth_pass ov t x s) (v1_thread_func_veth ov t xs)"

text \<open>One packet from the network. The result of \<open>calloc\<close> is used unchecked.\<close>

definition v1_nic_rx_packet :: "overlap \<Rightarrow> thread_data \<Rightarrow> int \<Rightarrow> nat \<Rightarrow> bool \<Rightarrow> pkt \<Rightarrow> emu \<times> return_process_rx \<Rightarrow>
    (emu \<times> return_process_rx) run" where
  "v1_nic_rx_packet ov t n_veth pi alloc b = (\<lambda>(e, rv0).
     (let pkt = xsk_umem__get_data (xsk_umem__add_offset_to_addr (fst b)) in
      rthen (Some (arr_get (eports e) pi)) (\<lambda>p.
      rthen (Some (process_rx_packet_old ov (enet e) (umem e) pkt (iface (pparams p)) (snd b) (fst b) rv0)) (\<lambda>(m1, rv).
      let e1 = e\<lparr>umem := m1\<rparr> in
      if \<not> alloc then Some (Inl Null_Deref)
      else if new_len rv = 1 then
        rthen (Some (idx_get (take NUM_OF_PER_DEST_QUEUES (non_local_dest_queue_array t)) (ring_buf_index rv))) (\<lambda>q.
          case q of None \<Rightarrow> Some (Inr (e1, rv))
          | Some i \<Rightarrow> v1_enqueue Transit_Dest pi i \<lparr>tx_addr = fst b, tx_len = snd b, tx_n_pkts = 1\<rparr> rv e1)
      else
        rthen (Some (guard_res Out_Of_Bounds (0 \<le> which_veth rv \<and> which_veth rv < int VETH_QUEUES)
            (guard_res Uninitialised (which_veth rv < n_veth) (idx_get (veth_side_queue_array t) (which_veth rv))))) (\<lambda>q.
          case q of None \<Rightarrow> Some (Inr (e1, rv))
          | Some i \<Rightarrow> v1_enqueue Veth_Side pi i \<lparr>tx_addr = fst b, tx_len = word_of_int (new_len rv), tx_n_pkts = 1\<rparr> rv e1)))))"

fun v1_nic_rx_packets :: "overlap \<Rightarrow> thread_data \<Rightarrow> int \<Rightarrow> nat \<Rightarrow> (bool \<times> pkt) list \<Rightarrow> emu \<times> return_process_rx \<Rightarrow>
    (emu \<times> return_process_rx) run" where
  "v1_nic_rx_packets ov t n_veth pi [] s = Some (Inr s)"
| "v1_nic_rx_packets ov t n_veth pi (b # bs) s =
     rthen (v1_nic_rx_packet ov t n_veth pi (fst b) (snd b) s) (v1_nic_rx_packets ov t n_veth pi bs)"

definition v1_nic_rx_port :: "overlap \<Rightarrow> thread_data \<Rightarrow> int \<Rightarrow> (nat \<Rightarrow> pass_env) \<Rightarrow> nat \<Rightarrow> emu \<times> return_process_rx \<Rightarrow>
    (emu \<times> return_process_rx) run" where
  "v1_nic_rx_port ov t n_veth env k = (\<lambda>(e, rv0). let rv = rv0\<lparr>new_len := 0, ring_buf_index := 0\<rparr> in
     rthen (Some (port_at (ports_rx t) k)) (\<lambda>pi.
     rthen (emu_rx_burst pi (kernel (env k)) e) (\<lambda>(pkts, e1).
       v1_nic_rx_packets ov t n_veth pi (zip (map (allocs (env k)) [0..<length pkts]) pkts) (e1, rv))))"

fun v1_thread_func_nic :: "overlap \<Rightarrow> thread_data \<Rightarrow> int \<Rightarrow> (nat \<Rightarrow> pass_env) list \<Rightarrow> emu \<times> return_process_rx \<Rightarrow>
    (emu \<times> return_process_rx) run" where
  "v1_thread_func_nic ov t n_veth [] s = Some (Inr s)"
| "v1_thread_func_nic ov t n_veth (x # xs) s =
     rthen (run_upto (v1_nic_rx_port ov t n_veth x) 0 (nat (assigned_queue_count t)) s) (v1_thread_func_nic ov t n_veth xs)"

section \<open>Sending\<close>

text \<open>The loop that empties a queue into the collector.\<close>

partial_function (option) v1_drain :: "queue_kind \<Rightarrow> nat \<Rightarrow> emu \<times> pkt list \<Rightarrow> (emu \<times> pkt list) run" where
  "v1_drain kd i s =
     (if queue_available (queues_of kd (fst s)) i \<noteq> 0 \<and> length (snd s) < MAX_BURST_TX then
        (case pull_from (queues_of kd (fst s)) i of
           None \<Rightarrow> None
         | Some (Inl f) \<Rightarrow> Some (Inl f)
         | Some (Inr (ret, x, qs)) \<Rightarrow>
             if ret \<noteq> 0 then
               (case collect_veth x (with_queues kd qs (fst s), snd s) of
                  Inl f \<Rightarrow> Some (Inl f)
                | Inr s' \<Rightarrow> v1_drain kd i s')
             else v1_drain kd i (with_queues kd qs (fst s), snd s))
      else Some (Inr s))"

definition v1_tx_queue :: "queue_kind \<Rightarrow> nat option list \<Rightarrow> nat \<Rightarrow> nat list \<Rightarrow> nat \<Rightarrow> emu \<Rightarrow> emu run" where
  "v1_tx_queue kd qa pi ks w e = rthen (Some (assigned_queue qa w)) (\<lambda>q.
     case q of None \<Rightarrow> Some (Inr e)
     | Some i \<Rightarrow> rthen (Some (arr_get (queues_of kd e) i)) (\<lambda>_. rthen (v1_drain kd i (e, [])) (\<lambda>(e1, b). emu_tx_burst pi b ks e1)))"

definition v1_tx_port :: "thread_data \<Rightarrow> tx_env \<Rightarrow> nat \<Rightarrow> emu \<Rightarrow> emu run" where
  "v1_tx_port t env k e = rthen (Some (port_at (ports_tx t) k)) (\<lambda>pi.
     rthen (run_upto (\<lambda>w. v1_tx_queue Transit_Dest (non_local_dest_queue_array t) pi (env k False w) w) 0 (nat (assigned_perdest_count t)) e)
       (run_upto (\<lambda>w. v1_tx_queue Local_Dest (local_dest_queue_array t) pi (env k True w) w) 0 (nat (assigned_perdest_count t))))"

fun v1_thread_func_veth_to_nic_tx :: "thread_data \<Rightarrow> tx_env list \<Rightarrow> emu \<Rightarrow> emu run" where
  "v1_thread_func_veth_to_nic_tx t [] e = Some (Inr e)"
| "v1_thread_func_veth_to_nic_tx t (x # xs) e =
     rthen (run_upto (v1_tx_port t x) 0 (nat (assigned_queue_count t)) e) (v1_thread_func_veth_to_nic_tx t xs)"

definition v1_veth_tx_pass :: "thread_data \<Rightarrow> nat list \<Rightarrow> emu \<Rightarrow> emu run" where
  "v1_veth_tx_pass t ks e = rthen (Some (arr_get (veth_side_queue_array t) 0)) (\<lambda>q.
     rthen (Some (port_at (ports_tx t) 0)) (\<lambda>pi.
       case q of None \<Rightarrow> Some (Inr e)
       | Some i \<Rightarrow> rthen (Some (arr_get (veth_side_queue e) i)) (\<lambda>_.
           rthen (v1_drain Veth_Side i (e, [])) (\<lambda>(e1, b). emu_tx_burst pi b ks e1))))"

fun v1_thread_func_nic_to_veth_tx :: "thread_data \<Rightarrow> nat list list \<Rightarrow> emu \<Rightarrow> emu run" where
  "v1_thread_func_nic_to_veth_tx t [] e = Some (Inr e)"
| "v1_thread_func_nic_to_veth_tx t (x # xs) e = rthen (v1_veth_tx_pass t x e) (v1_thread_func_nic_to_veth_tx t xs)"

section \<open>The drain loop\<close>

definition v1_put :: "queue_kind \<Rightarrow> nat \<Rightarrow> emu \<Rightarrow> burst_tx mpmc_queue \<Rightarrow> emu" where
  "v1_put kd i e q = with_queues kd ((queues_of kd e)[i := q]) e"

definition v1_work :: "nat \<Rightarrow> burst_tx \<Rightarrow> emu \<Rightarrow> (emu \<times> pkt) res" where
  "v1_work n x e = Inr (e, (tx_addr x, tx_len x))"

lemma with_queues_twice [simp]: "with_queues kd qs (with_queues kd qs' e) = with_queues kd qs e"
  by (cases kd) simp_all

interpretation v1_loop: drain_loop "v1_drain kd i" "v1_put kd i" "\<lambda>e :: emu. i < length (queues_of kd e)" "\<lambda>k. True" v1_work for kd i
proof unfold_locales
  fix v :: emu and k q and b :: "pkt list" and xs :: "burst_tx list"
  assume l: "i < length (queues_of kd v)" and h: "holds q k xs" and c: "xs = [] \<or> MAX_BURST_TX \<le> length b"
  show "v1_drain kd i (v1_put kd i v q, b) = Some (Inr (v1_put kd i v q, b))"
    using queue_available_0[OF queue_at_update[OF l h]] c by (subst v1_drain.simps) (auto simp: v1_put_def)
next
  fix v v' :: emu and k q x p and b :: "pkt list" and xs :: "burst_tx list"
  assume l: "i < length (queues_of kd v)" and h: "holds q k (x # xs)" and b: "length b < MAX_BURST_TX"
    and w: "v1_work (length (x # xs)) x v = Inr (v', p)"
  note qa = queue_at_update[OF l h]
  obtain q' where q': "pull_from ((queues_of kd v)[i := q]) i = Some (Inr (1, Some x, (queues_of kd v)[i := q']))"
    "holds q' k xs" "mpmc_queue_pull q = Some (Inr (1, Some x, q'))" using pull_from_some[OF qa] l by (auto simp: queue_at_def)
  have "v1_drain kd i (v1_put kd i v q, b) = v1_drain kd i (v1_put kd i v' q', b @ [p])"
    using q' queue_available_0[OF qa] b w by (subst v1_drain.simps) (auto simp: v1_put_def v1_work_def collect_veth_def)
  then show "i < length (queues_of kd v') \<and> (\<exists>q'. mpmc_queue_pull q = Some (Inr (1, Some x, q')) \<and> holds q' k xs \<and>
      v1_drain kd i (v1_put kd i v q, b) = v1_drain kd i (v1_put kd i v' q', b @ [p]))"
    using q'(2,3) l w by (auto simp: v1_work_def)
qed (simp add: v1_work_def)

interpretation v1_buffers: buffer_drain "v1_drain kd i" "v1_put kd i" kd i "\<lambda>k. True" v1_work for kd i
  unfolding buffer_drain_def buffer_drain_axioms_def
  by (intro conjI v1_loop.drain_loop_axioms) (auto simp: v1_put_def v1_work_def same_buffers_def)

section \<open>The threads make steps of the emulator\<close>

lemma v1_enqueue_steps:
  assumes inv: "emu_inv m z B s" and r: "reaches z s k (add_mset (tx_addr b) h) e"
  shows "outcome (\<lambda>_. True) False (reaches_rv z s k h) (v1_enqueue kd pi i b rv e)"
  unfolding v1_enqueue_def Let_def
proof (rule outcome_rthen[OF reaches_push[OF inv r]], clarify)
  fix ret :: int and qs assume p: "reaches z s k (if ret = 0 then add_mset (tx_addr b) h else h) (with_queues kd qs e)"
  show "outcome (\<lambda>_. True) False (reaches_rv z s k h) (if ret = 0 then Some (rbind (drop_buffer pi (tx_addr b) (with_queues kd qs e))
      (\<lambda>e2. Inr (e2, rv))) else Some (Inr (with_queues kd qs e, rv)))"
    by (rule refused_drop_rv[OF p]) (simp add: same_buffers_def)
qed

lemma v1_dropped:
  assumes "reaches z s k (add_mset a h) e"
  shows "outcome (\<lambda>_. True) False (reaches_rv z s k h) (Some (rbind (drop_buffer pi a e) (\<lambda>e3. Inr (e3, rv))))"
  by (rule outcome_rbind[OF reaches_drop[OF assms]]) simp

lemma v1_veth_rx_packet_steps:
  assumes inv: "emu_inv m z B s" and r: "reaches z s k (add_mset (fst b) h) (fst x)"
    and good: "k \<Longrightarrow> alloc \<and> no_null (local_dest_queue_array t)"
  shows "outcome (\<lambda>_. True) False (reaches_rv z s k h) (v1_veth_rx_packet ov t pi alloc b x)"
proof -
  obtain e rv0 where x: "x = (e, rv0)" by (cases x)
  have r1: "reaches z s k (add_mset (fst b) h) (e\<lparr>umem := m1\<rparr>)" for m1
    by (rule reaches_other[OF r]) (simp add: x same_buffersI)
  have lost: "\<not> k \<Longrightarrow> reaches z s k h (e\<lparr>umem := m1\<rparr>)" for m1 by (rule reaches_forget[OF r1])
  have noalloc: "reaches z s k h (e\<lparr>umem := m1\<rparr>)" if "\<not> alloc" for m1
  proof -
    have "\<not> k" using good that by blast
    then show ?thesis by (rule lost)
  qed
  have null: "reaches z s k h (e\<lparr>umem := m1\<rparr>)" if "idx_get (take NUM_OF_PER_DEST_QUEUES (local_dest_queue_array t)) d = Inr None" for d m1
  proof -
    have "\<not> k" using good idx_get_elem[OF that] by (auto simp: no_null_def)
    then show ?thesis by (rule lost)
  qed
  have enq: "outcome (\<lambda>_. True) False (reaches_rv z s k h) (v1_enqueue kd pi i \<lparr>tx_addr = fst b, tx_len = l, tx_n_pkts = n\<rparr> rv (e\<lparr>umem := m1\<rparr>))"
    for kd i l n rv m1 by (rule v1_enqueue_steps[OF inv]) (simp add: r1)
  show ?thesis unfolding x v1_veth_rx_packet_def prod.case Let_def
    using enq noalloc null v1_dropped[OF r1] by (intro outcome_res) (auto intro!: outcome_res split: option.split)
qed

lemma v1_nic_rx_packet_steps:
  assumes inv: "emu_inv m z B s" and r: "reaches z s k (add_mset (fst b) h) (fst x)"
    and good: "k \<Longrightarrow> no_null (non_local_dest_queue_array t) \<and> None \<notin> set (veth_side_queue_array t)"
  shows "outcome (\<lambda>_. True) False (reaches_rv z s k h) (v1_nic_rx_packet ov t n pi alloc b x)"
proof -
  obtain e rv0 where x: "x = (e, rv0)" by (cases x)
  have r1: "reaches z s k (add_mset (fst b) h) (e\<lparr>umem := m1\<rparr>)" for m1
    by (rule reaches_other[OF r]) (simp add: x same_buffersI)
  have lost: "\<not> k \<Longrightarrow> reaches z s k h (e\<lparr>umem := m1\<rparr>)" for m1 by (rule reaches_forget[OF r1])
  have null: "reaches z s k h (e\<lparr>umem := m1\<rparr>)"
    if "idx_get (take NUM_OF_PER_DEST_QUEUES (non_local_dest_queue_array t)) d = Inr None \<or> idx_get (veth_side_queue_array t) d = Inr None" for d m1
  proof -
    have "\<not> k" using good idx_get_elem that by (fastforce simp: no_null_def)
    then show ?thesis by (rule lost)
  qed
  have enq: "outcome (\<lambda>_. True) False (reaches_rv z s k h) (v1_enqueue kd pi i \<lparr>tx_addr = fst b, tx_len = l, tx_n_pkts = n\<rparr> rv (e\<lparr>umem := m1\<rparr>))"
    for kd i l n rv m1 by (rule v1_enqueue_steps[OF inv]) (simp add: r1)
  show ?thesis unfolding x v1_nic_rx_packet_def prod.case Let_def
    using enq null[OF disjI1] null[OF disjI2] by (intro outcome_res) (auto intro!: outcome_res simp: guard_res_def split: option.split if_splits)
qed

interpretation v1_veth_burst: packet_loop "v1_veth_rx_packets ov t pi" "v1_veth_rx_packet ov t pi" fst
    "\<lambda>alloc. alloc \<and> no_null (local_dest_queue_array t)" for ov t pi
  by unfold_locales (simp_all add: v1_veth_rx_packet_steps)

interpretation v1_nic_burst: packet_loop "v1_nic_rx_packets ov t n pi" "v1_nic_rx_packet ov t n pi" fst
    "\<lambda>alloc. no_null (non_local_dest_queue_array t) \<and> None \<notin> set (veth_side_queue_array t)" for ov t n pi
  by unfold_locales (simp_all add: v1_nic_rx_packet_steps)

text \<open>A fault of a receiving thread is a fault of its work on one packet that it has in hand.\<close>

definition v1_rx_faults :: "ring_sizes \<Rightarrow> esys \<Rightarrow> (pkt \<Rightarrow> emu \<times> return_process_rx \<Rightarrow> (emu \<times> return_process_rx) run \<Rightarrow> bool) \<Rightarrow> fault \<Rightarrow> bool" where
  "v1_rx_faults z s work f \<longleftrightarrow> (\<exists>b x r. handling z s (fst b) (fst x) \<and> work b x r \<and> r = Some (Inl f))"

abbreviation v1_veth_faults :: "ring_sizes \<Rightarrow> esys \<Rightarrow> overlap \<Rightarrow> thread_data \<Rightarrow> fault \<Rightarrow> bool" where
  "v1_veth_faults z s ov t \<equiv> v1_rx_faults z s (\<lambda>b x r. \<exists>pi alloc. r = v1_veth_rx_packet ov t pi alloc b x)"

abbreviation v1_nic_faults :: "ring_sizes \<Rightarrow> esys \<Rightarrow> overlap \<Rightarrow> thread_data \<Rightarrow> int \<Rightarrow> fault \<Rightarrow> bool" where
  "v1_nic_faults z s ov t n \<equiv> v1_rx_faults z s (\<lambda>b x r. \<exists>pi alloc. r = v1_nic_rx_packet ov t n pi alloc b x)"

lemma v1_faultsI:
  "handling z s (fst b) (fst x) \<Longrightarrow> v1_veth_rx_packet ov t pi alloc b x = Some (Inl f) \<Longrightarrow> v1_veth_faults z s ov t f"
  "handling z s (fst b) (fst x) \<Longrightarrow> v1_nic_rx_packet ov t n pi alloc b x = Some (Inl f) \<Longrightarrow> v1_nic_faults z s ov t n f"
  unfolding v1_rx_faults_def by metis+

lemma v1_veth_pass_steps:
  assumes inv: "emu_inv m z B s" and r: "reaches_rv z s k h x" and p: "ports_exist (ports_rx t) 1 (em s)"
    and good: "k \<Longrightarrow> (\<forall>i. allocs env i) \<and> no_null (local_dest_queue_array t)"
  shows "outcome (v1_veth_faults z s ov t) False (reaches_rv z s k h) (v1_veth_pass ov t env x)"
proof -
  obtain pi where pi: "port_at (ports_rx t) 0 = Inr pi" "pi < length (eports (em s))" using p by (auto simp: ports_exist_def)
  show ?thesis unfolding v1_veth_pass_def case_prod_beta Let_def pi(1) rthen.simps
    by (rule v1_veth_burst.burst_steps[OF inv r _ pi(2), where mk = "\<lambda>e. (e, (snd x)\<lparr>new_len := 0, ring_buf_index := 0\<rparr>)",
      unfolded case_prod_beta]) (use good in \<open>auto intro: v1_faultsI(1)\<close>)
qed

lemma v1_nic_port_steps:
  assumes inv: "emu_inv m z B s" and r: "reaches_rv z s k h x" and p: "port_at (ports_rx t) j = Inr pi" "pi < length (eports (em s))"
    and good: "k \<Longrightarrow> no_null (non_local_dest_queue_array t) \<and> None \<notin> set (veth_side_queue_array t)"
  shows "outcome (v1_nic_faults z s ov t n) False (reaches_rv z s k h) (v1_nic_rx_port ov t n env j x)"
  unfolding v1_nic_rx_port_def case_prod_beta Let_def p(1) rthen.simps
  by (rule v1_nic_burst.burst_steps[OF inv r _ p(2), where mk = "\<lambda>e. (e, (snd x)\<lparr>new_len := 0, ring_buf_index := 0\<rparr>)",
      unfolded case_prod_beta]) (use good in \<open>auto intro: v1_faultsI(2)\<close>)

lemma v1_veth_thread_steps:
  assumes inv: "emu_inv m z B s" and p: "ports_exist (ports_rx t) 1 (em s)"
  shows "reaches_rv z s k h x \<Longrightarrow> (k \<Longrightarrow> (\<forall>x \<in> set envs. \<forall>i. allocs x i) \<and> no_null (local_dest_queue_array t)) \<Longrightarrow>
    outcome (v1_veth_faults z s ov t) False (reaches_rv z s k h) (v1_thread_func_veth ov t envs x)"
proof (induction envs arbitrary: x)
  case (Cons y ys)
  have "outcome (v1_veth_faults z s ov t) False (reaches_rv z s k h) (v1_veth_pass ov t y x)"
    using Cons.prems by (intro v1_veth_pass_steps[OF inv _ p]) simp_all
  from outcome_rthen[OF this Cons.IH] Cons.prems(2) show ?case by simp
qed simp

lemma v1_nic_thread_steps:
  assumes inv: "emu_inv m z B s" and p: "ports_exist (ports_rx t) (nat (assigned_queue_count t)) (em s)"
    and good: "k \<Longrightarrow> no_null (non_local_dest_queue_array t) \<and> None \<notin> set (veth_side_queue_array t)"
  shows "reaches_rv z s k h x \<Longrightarrow> outcome (v1_nic_faults z s ov t n) False (reaches_rv z s k h) (v1_thread_func_nic ov t n envs x)"
proof (induction envs arbitrary: x)
  case (Cons y ys)
  have "outcome (v1_nic_faults z s ov t n) False (reaches_rv z s k h) (v1_nic_rx_port ov t n y j x)"
    if j: "j < 0 + nat (assigned_queue_count t)" and x: "reaches_rv z s k h x" for j x
  proof -
    obtain pi where pi: "port_at (ports_rx t) j = Inr pi" "pi < length (eports (em s))" using p j by (auto simp: ports_exist_def)
    show ?thesis by (rule v1_nic_port_steps[OF inv x pi good])
  qed
  then have "outcome (v1_nic_faults z s ov t n) False (reaches_rv z s k h) (run_upto (v1_nic_rx_port ov t n y) 0 (nat (assigned_queue_count t)) x)"
    by (rule outcome_run_upto[where P = "reaches_rv z s k h", OF _ Cons.prems])
  from outcome_rthen[OF this Cons.IH] show ?case unfolding v1_thread_func_nic.simps .
qed simp

text \<open>The sending threads do no work on a packet, and so never fault.\<close>

lemma v1_tx_queue_steps:
  assumes inv: "emu_inv m z B s" and r: "reaches z s k h e" and pi: "pi < length (eports (em s))"
    and q: "queues_exist (take NUM_OF_PER_DEST_QUEUES qa) n (queues_of kd (em s))" "w < n"
  shows "outcome (\<lambda>_. False) (waits z s h) (reaches z s k h) (v1_tx_queue kd qa pi ks w e)"
proof -
  obtain x where x: "assigned_queue qa w = Inr x" "\<forall>i. x = Some i \<longrightarrow> i < length (queues_of kd (em s))"
    using q by (auto simp: queues_exist_def assigned_queue_def)
  show ?thesis
  proof (cases x)
    case (Some i)
    then have "i < length (queues_of kd (em s))" using x(2) by simp
    from v1_buffers.table_then_send[OF inv r this _ pi] show ?thesis
      unfolding v1_tx_queue_def x(1) Some rthen.simps option.case by this (simp add: v1_work_def)
  qed (simp add: v1_tx_queue_def x(1) r)
qed

lemma v1_tx_port_steps:
  assumes inv: "emu_inv m z B s" and r: "reaches z s c h e" and tab: "nic_tx_tables t (em s)" and k: "k < nat (assigned_queue_count t)"
  shows "outcome (\<lambda>_. False) (waits z s h) (reaches z s c h) (v1_tx_port t env k e)"
proof -
  note upto = outcome_run_upto[where P = "reaches z s c h" and w = "waits z s h" and F = "\<lambda>_. False" and k = 0]
  note T = tab[unfolded nic_tx_tables_def]
  obtain pi where pi: "port_at (ports_tx t) k = Inr pi" "pi < length (eports (em s))" using T k by (auto simp: ports_exist_def)
  show ?thesis unfolding v1_tx_port_def pi(1) rthen.simps
  proof (rule outcome_rthen)
    show "outcome (\<lambda>_. False) (waits z s h) (reaches z s c h) (run_upto (\<lambda>w. v1_tx_queue Transit_Dest (non_local_dest_queue_array t) pi (env k False w) w)
        0 (nat (assigned_perdest_count t)) e)" using T by (intro upto[OF v1_tx_queue_steps[OF inv _ pi(2)] r]) auto
    fix e1 assume e1: "reaches z s c h e1"
    show "outcome (\<lambda>_. False) (waits z s h) (reaches z s c h) (run_upto (\<lambda>w. v1_tx_queue Local_Dest (local_dest_queue_array t) pi (env k True w) w)
        0 (nat (assigned_perdest_count t)) e1)" using T by (intro upto[OF v1_tx_queue_steps[OF inv _ pi(2)] e1]) auto
  qed
qed

lemma v1_nic_tx_thread_steps:
  assumes inv: "emu_inv m z B s" and tab: "nic_tx_tables t (em s)"
  shows "reaches z s c h e \<Longrightarrow> outcome (\<lambda>_. False) (waits z s h) (reaches z s c h) (v1_thread_func_veth_to_nic_tx t envs e)"
proof (induction envs arbitrary: e)
  case (Cons y ys)
  have "outcome (\<lambda>_. False) (waits z s h) (reaches z s c h) (run_upto (v1_tx_port t y) 0 (nat (assigned_queue_count t)) e)"
    by (rule outcome_run_upto[where P = "reaches z s c h", OF v1_tx_port_steps[OF inv _ tab] Cons.prems]) simp_all
  from outcome_rthen[OF this Cons.IH] show ?case unfolding v1_thread_func_veth_to_nic_tx.simps .
qed simp

lemma v1_veth_tx_pass_steps:
  assumes inv: "emu_inv m z B s" and r: "reaches z s k h e" and p: "ports_exist (ports_tx t) 1 (em s)"
    and q: "queues_exist (veth_side_queue_array t) 1 (veth_side_queue (em s))"
  shows "outcome (\<lambda>_. False) (waits z s h) (reaches z s k h) (v1_veth_tx_pass t ks e)"
proof -
  obtain pi where pi: "port_at (ports_tx t) 0 = Inr pi" "pi < length (eports (em s))" using p by (auto simp: ports_exist_def)
  obtain x where x: "arr_get (veth_side_queue_array t) 0 = Inr x" "\<forall>i. x = Some i \<longrightarrow> i < length (veth_side_queue (em s))"
    using q by (auto simp: queues_exist_def)
  show ?thesis
  proof (cases x)
    case (Some i)
    then have "i < length (queues_of Veth_Side (em s))" using x(2) by simp
    from v1_buffers.table_then_send[OF inv r this _ pi(2), unfolded queues_of.simps] show ?thesis
      unfolding v1_veth_tx_pass_def x(1) pi(1) Some rthen.simps option.case by this (simp add: v1_work_def)
  qed (simp add: v1_veth_tx_pass_def x(1) pi(1) r)
qed

lemma v1_veth_tx_thread_steps:
  assumes inv: "emu_inv m z B s" and p: "ports_exist (ports_tx t) 1 (em s)"
    and q: "queues_exist (veth_side_queue_array t) 1 (veth_side_queue (em s))"
  shows "reaches z s k h e \<Longrightarrow> outcome (\<lambda>_. False) (waits z s h) (reaches z s k h) (v1_thread_func_nic_to_veth_tx t envs e)"
proof (induction envs arbitrary: e)
  case (Cons x xs)
  from outcome_rthen[OF v1_veth_tx_pass_steps[OF inv Cons.prems p q] Cons.IH] show ?case unfolding v1_thread_func_nic_to_veth_tx.simps .
qed simp

section \<open>Properties\<close>

lemma work_all_v1: "work_all v1_work n xs e = Inr (e, map (\<lambda>x. (tx_addr x, tx_len x)) xs)"
  by (induction xs arbitrary: n) (simp_all add: v1_work_def)

text \<open>The transmit loops of the first version end, take the oldest 20 packets of a queue in order,
  and hand them on with the bytes and lengths they were queued with: a packet that waited in the
  queue while the topology changed is sent to the next hop of an earlier slot.\<close>
theorem v1_drain_correct:
  assumes "queue_at (queues_of kd e) i k xs"
  shows "\<exists>q. v1_drain kd i (e, []) = Some (Inr (with_queues kd ((queues_of kd e)[i := q]) e,
      map (\<lambda>x. (tx_addr x, tx_len x)) (take MAX_BURST_TX xs))) \<and> holds q k (drop MAX_BURST_TX xs)"
proof -
  have i: "i < length (queues_of kd e)" and h: "holds (queues_of kd e ! i) k xs" using assms by (simp_all add: queue_at_def)
  have e: "v1_put kd i e (queues_of kd e ! i) = e" by (simp add: v1_put_def)
  from v1_loop.drained[where v = e and b = "[]" and q = "queues_of kd e ! i" and kd = kd and i = i, OF i TrueI h, unfolded work_all_v1 e]
  obtain q' where "holds q' k (drop MAX_BURST_TX xs)"
    "v1_drain kd i (e, []) = Some (Inr (v1_put kd i e q', map (\<lambda>x. (tx_addr x, tx_len x)) (take MAX_BURST_TX xs)))" by auto
  then show ?thesis by (auto simp: v1_put_def)
qed

theorem v1_drain_correct_witness:
  "\<exists>q. v1_drain Transit_Dest 0 (sample_emu, []) = Some (Inr (sample_emu\<lparr>non_local_per_dest_queue := [q]\<rparr>, [(0, 34)])) \<and> holds q 1 []"
proof -
  have q: "queue_at (queues_of Transit_Dest sample_emu) 0 1 [sample_entry]" using sample_emu_queues(2) by simp
  have 3: "non_local_per_dest_queue sample_emu = [one_queue sample_entry]" by (simp add: sample_emu_def)
  from v1_drain_correct[OF q] show ?thesis by (simp add: take_sample sample_entry_facts 3)
qed

text \<open>Property C38: a packet for this node whose GRE flags are 13 or more makes the first version's receiving
  thread read outside its array of namespace queues.\<close>
theorem v1_namespace_out_of_bounds:
  assumes "nic_port pi e" "\<not> prefix OUTER_VETH_PREFIX (nic_iface (enet e))" "a = unat (fst b)" "a + 74 \<le> length (umem e)"
    and "our_packet (umem e) a" "addr_at (umem e) (a + 30) = src_ip (enet e)"
    and "42 \<le> unat (snd b)" "a + unat (snd b) \<le> length (umem e)" "a + unat (snd b) < 2 ^ 31"
    and "13 \<le> unat (gre_flags (slice (umem e) a 40))"
  shows "v1_nic_rx_packet copy_bytes t n pi True b (e, rv) = Some (Inl Out_Of_Bounds)"
proof -
  have "unat (fst b) < 2 ^ 48" using assms(3,9) by simp
  then have pk: "xsk_umem__get_data (xsk_umem__add_offset_to_addr (fst b)) = a"
    by (simp add: add_offset_small xsk_umem__get_data_def assms(3))
  have f: "gre_flags (slice (umem e) a 40) = word16_of_bytes (umem e ! (a + 34)) (umem e ! (a + 35))"
    using assms(4) by (simp add: gre_flags_def)
  have len: "40 \<le> unat (snd b)" using assms(7) by simp
  define rv2 where "rv2 = rv\<lparr>which_veth := uint (gre_flags (slice (umem e) a 40)), new_len := int (unat (snd b)) - 40\<rparr>"
  define m2 where "m2 = splice (umem e) a (slice (umem e) (a + 40) (unat (snd b) - 40))"
  have p: "process_rx_packet_old copy_bytes (enet e) (umem e) a (nic_iface (enet e)) (snd b) (fst b) rv = Inr (m2, rv2)"
    unfolding process_rx_packet_old_def v1_nic_local[OF assms(4-6)] nic_rx_local[OF assms(4-6,3) len assms(8,9)] f rv2_def m2_def
    using assms(2) by (cases rv) simp
  have "int 13 \<le> int (unat (gre_flags (slice (umem e) a 40)))" using assms(10) by (simp only: of_nat_le_iff)
  then have "\<not> which_veth rv2 < int VETH_QUEUES" by (simp add: rv2_def VETH_QUEUES_def)
  moreover have "int (unat (snd b)) - 40 \<noteq> 1" using assms(7) by linarith
  then have "new_len rv2 \<noteq> 1" unfolding rv2_def by (cases rv) simp
  ultimately show ?thesis using assms(1) by (simp add: v1_nic_rx_packet_def pk p nic_port_def)
qed

theorem v1_namespace_out_of_bounds_witness:
  "v1_nic_rx_packet copy_bytes sample_thread 1 0 True (0, 82) (sample_nic_emu\<lparr>umem := sample_gre[34 := 80]\<rparr>, sample_rv) = Some (Inl Out_Of_Bounds)"
proof -
  let ?e = "sample_nic_emu\<lparr>umem := sample_gre[34 := 80]\<rparr>"
  have 1: "nic_port 0 ?e" "enet ?e = sample_net" "umem ?e = sample_gre[34 := 80]"
    using sample_nic_facts by (simp_all add: nic_port_def)
  have 2: "our_packet (sample_gre[34 := 80]) 0" "addr_at (sample_gre[34 := 80]) 30 = 0"
    using sample_gre_facts by (simp_all add: our_packet_def slice_2 addr_at_def)
  have "sample_gre ! 35 = 0" by (simp add: sample_gre_def nth_append)
  then have 3: "unat (gre_flags (slice (sample_gre[34 := 80]) 0 40)) = 80"
    by (simp add: gre_flags_def sample_gre_facts word16_of_bytes_def)
  have 4: "\<not> prefix OUTER_VETH_PREFIX (nic_iface sample_net)" by (simp add: prefix_def OUTER_VETH_PREFIX_def sample_net_def)
  show ?thesis
    by (rule v1_namespace_out_of_bounds[OF 1(1), where a = 0]) (use 1(2,3) 2 3 4 sample_gre_facts sample_net_src in simp_all)
qed

text \<open>The thread functions of the first version account for their buffers as those of the second:
  where their tables name existing ports and queues, they return with exactly the buffers in
  hand that there were, and lose none unless an allocation fails or a queue is null; the
  receiving threads may fault in the work on a packet in hand; the sending threads never fault
  and lose nothing, and may only wait for a port whose transmit ring has no room.\<close>
theorem v1_threads_make_steps:
  assumes "good_setup z env ps cfg es ns" "start_system env ps cfg es = Inr (Some s0)" "starts s0 e" "(emu_step z)\<^sup>*\<^sup>* (started s0 e) s"
  shows "(ports_exist (ports_rx t) 1 (em s) \<longrightarrow> outcome (v1_veth_faults z s ov t) False
      (\<lambda>x. reaches z s ((\<forall>x \<in> set vs. \<forall>i. allocs x i) \<and> no_null (local_dest_queue_array t)) (hand s) (fst x))
      (v1_thread_func_veth ov t vs (em s, rv))) \<and>
    (ports_exist (ports_rx t) (nat (assigned_queue_count t)) (em s) \<longrightarrow> outcome (v1_nic_faults z s ov t n) False
      (\<lambda>x. reaches z s (no_null (non_local_dest_queue_array t) \<and> None \<notin> set (veth_side_queue_array t)) (hand s) (fst x))
      (v1_thread_func_nic ov t n ws (em s, rv))) \<and>
    (nic_tx_tables t (em s) \<longrightarrow> outcome (\<lambda>_. False) (waits z s (hand s)) (reaches z s True (hand s))
      (v1_thread_func_veth_to_nic_tx t xs (em s))) \<and>
    (ports_exist (ports_tx t) 1 (em s) \<longrightarrow> queues_exist (veth_side_queue_array t) 1 (veth_side_queue (em s)) \<longrightarrow>
      outcome (\<lambda>_. False) (waits z s (hand s)) (reaches z s True (hand s)) (v1_thread_func_nic_to_veth_tx t ys (em s)))"
proof -
  obtain m B where inv: "emu_inv m z B s" using running[OF assms] by blast
  have "reaches_rv z s k (hand s) (em s, rv)" for k using reaches_start by simp
  then show ?thesis using v1_veth_thread_steps[OF inv, where t = t and envs = vs and x = "(em s, rv)" and h = "hand s" and ov = ov and
        k = "(\<forall>x \<in> set vs. \<forall>i. allocs x i) \<and> no_null (local_dest_queue_array t)"]
      v1_nic_thread_steps[OF inv, of t _ "hand s" "(em s, rv)" ov n ws]
      v1_nic_tx_thread_steps[OF inv _ reaches_start, of t] v1_veth_tx_thread_steps[OF inv _ _ reaches_start, of t] by simp
qed

theorem v1_threads_make_steps_witness:
  "\<exists>s0. start_system sample_env sample_params sample_cfg sample_ports = Inr (Some s0) \<and>
    outcome (\<lambda>_. False) (waits sample_sizes (started s0 (sample_start s0)) (flight s0))
      (reaches sample_sizes (started s0 (sample_start s0)) True (flight s0))
      (v1_thread_func_nic_to_veth_tx (sample_thread\<lparr>veth_side_queue_array := [None]\<rparr>) [[]] (sample_start s0))"
proof -
  obtain s0 where s0: "start_system sample_env sample_params sample_cfg sample_ports = Inr (Some s0)" "length (kports s0) = length sample_ports"
    using start_ok[OF sample_setup] by blast
  let ?t = "sample_thread\<lparr>veth_side_queue_array := [None]\<rparr>"
  have "ports_exist (ports_tx ?t) 1 (sample_start s0)" "queues_exist (veth_side_queue_array ?t) 1 (veth_side_queue (sample_start s0))"
    using s0(2) by (simp_all add: ports_exist_def queues_exist_def sample_thread_def sample_start_def port_at_def arr_get_def sample_ports_def)
  with v1_threads_make_steps[OF sample_setup s0(1) sample_starts rtranclp.rtrancl_refl, where t = ?t and ys = "[[]]"] s0(1)
  show ?thesis by (auto simp: started_def)
qed

end
