(* ===== verification/Node_Run.thy ===== *)
theory Node_Run
  imports Emulator
begin

text \<open>
  A burst's whole way through a node: from a namespace's receive ring, through the queue of its
  destination, to the transmit ring of the network (\<open>thread_func_veth\<close> and
  \<open>thread_func_veth_to_nic_tx\<close> of \<open>opera-v2/thread_functions_1.h\<close> together with the ports). Then
  the account of the running emulator's buffers, which steps each thread function makes and what
  it leaves in hand, and the packets that wait in a queue.
\<close>

section \<open>Bursts of the running emulator\<close>

lemma port_rx_burst_pparams: "port_rx_burst bp p ks = Some (Inr (pkts, bp', p', ys)) \<Longrightarrow> pparams p' = pparams p"
  by (auto simp: port_rx_burst_def res_simps split: sum.splits if_splits prod.splits option.splits)

lemma receive_result:
  assumes inv: "emu_inv m z B s" and r: "emu_rx_burst pi ks (em s) = Some (Inr (pkts, e1))"
  shows "length pkts \<le> MAX_BURST_RX"
    "pkts = map (\<lambda>d. (desc_addr d, desc_len d)) (take (length pkts) (ring_content (rxq (eports (em s) ! pi))))"
    "\<exists>bp p. e1 = (em s)\<lparr>epool := bp, eports := (eports (em s))[pi := p]\<rparr> \<and> params bp = params (epool (em s)) \<and>
      txq p = txq (eports (em s) ! pi) \<and> pparams p = pparams (eports (em s) ! pi)"
    "pi < length (eports (em s))"
    "pkts = [] \<longrightarrow> ring_content (rxq (eports (em s) ! pi)) = [] \<or> n_slabs_available (epool (em s)) = 0"
proof -
  let ?p = "eports (em s) ! pi"
  obtain bp' p' ys where r': "pi < length (eports (em s))" "port_rx_burst (epool (em s)) ?p ks = Some (Inr (pkts, bp', p', ys))"
    "e1 = (em s)\<lparr>epool := bp', eports := (eports (em s))[pi := p']\<rparr>" using r by (auto simp: emu_rx_burst_iff)
  note D = emu_invD[OF inv r'(1)]
  have k: "kport_of ?p (kheld s ! pi) = kports (view s) ! pi" using D(3) by simp
  note I = sys_invD[OF D(1,2) k]
  have kp: "kp (kport_of ?p (kheld s ! pi)) = ?p" by (simp add: kport_of_def)
  have v: "spool (view s) = epool (em s)" by (simp add: view_def)
  have "length (ring_content (umem_fq ?p)) + length (ring_content (rxq ?p)) \<le> 2 ^ fq_bits z"
    using I(2) by (simp add: port_ok_def kport_of_def)
  from port_rx_burst_spec[OF I(1,3)[unfolded kp] this I(5), of ks, unfolded v] r'(2)
  have spec: "length pkts \<le> MAX_BURST_RX" "params bp' = params (epool (em s))" "txq p' = txq ?p"
    "pkts = map (\<lambda>d. (desc_addr d, desc_len d)) (take (length pkts) (ring_content (rxq ?p)))"
    "pkts = [] \<longrightarrow> ring_content (rxq ?p) = [] \<or> n_buffers_cons (bc ?p) = 0 \<and> n_slabs_available (epool (em s)) = 0" by auto
  show "length pkts \<le> MAX_BURST_RX" "pi < length (eports (em s))" by fact+
  show "pkts = map (\<lambda>d. (desc_addr d, desc_len d)) (take (length pkts) (ring_content (rxq ?p)))" by fact
  show "\<exists>bp p. e1 = (em s)\<lparr>epool := bp, eports := (eports (em s))[pi := p]\<rparr> \<and> params bp = params (epool (em s)) \<and>
      txq p = txq ?p \<and> pparams p = pparams ?p" using r'(3) spec(2,3) port_rx_burst_pparams[OF r'(2)] by blast
  show "pkts = [] \<longrightarrow> ring_content (rxq ?p) = [] \<or> n_slabs_available (epool (em s)) = 0" using spec(5) by blast
qed

lemma send_result:
  assumes inv: "emu_inv m z B s" and pi: "pi < length (eports (em s))" and b: "length b \<le> MAX_BURST_TX"
    and room: "length (ring_content (txq (eports (em s) ! pi))) + length b \<le> 2 ^ tx_bits z"
  shows "\<exists>bp' p' ys ds. port_tx_burst_collector (epool (em s)) (eports (em s) ! pi) b ks = Some (Inr (bp', p', ys)) \<and>
    ring_content (txq (eports (em s) ! pi)) @ ds = ys @ ring_content (txq p') \<and> map (\<lambda>d. (desc_addr d, desc_len d)) ds = b"
proof -
  let ?p = "eports (em s) ! pi"
  note D = emu_invD[OF inv pi]
  have k: "kport_of ?p (kheld s ! pi) = kports (view s) ! pi" using D(3) by simp
  note I = sys_invD[OF D(1,2) k]
  have kp: "kp (kport_of ?p (kheld s ! pi)) = ?p" by (simp add: kport_of_def)
  have v: "spool (view s) = epool (em s)" by (simp add: view_def)
  have few: "size (pooled (spool (view s)) (take pi (caches (view s)) @ bc ?p # drop (Suc pi) (caches (view s)))) +
      length (ring_content (umem_cq ?p)) \<le> Suc m * unat (n_buffers_per_slab (params (spool (view s))))"
    using sys_room_port[OF D(1,2) k] I(7) by (simp add: kp)
  have "length b \<le> 2 ^ tx_bits z" using room by simp
  from port_tx_burst_spec[OF I(1,3)[unfolded kp] few this, of ks, unfolded v] room show ?thesis by fastforce
qed

lemma burst_sent:
  assumes inv: "emu_inv m z B s" and pi: "pi < length (eports (em s))" and b: "length b \<le> MAX_BURST_TX"
    and room: "length (ring_content (txq (eports (em s) ! pi))) + length b \<le> 2 ^ tx_bits z"
    and e: "epool e = epool (em s)" "eports e = eports (em s)"
  shows "\<exists>bp ps ys ds. emu_tx_burst pi b ks e = Some (Inr (e\<lparr>epool := bp, eports := ps\<rparr>)) \<and>
    ring_content (txq (eports (em s) ! pi)) @ ds = ys @ ring_content (txq (ps ! pi)) \<and> map (\<lambda>d. (desc_addr d, desc_len d)) ds = b"
proof (cases "b = []")
  case True
  then show ?thesis by (intro exI[of _ "epool e"] exI[of _ "eports e"] exI[of _ "[]"]) (simp add: emu_tx_burst_def e(2))
next
  case False
  obtain bp p ys ds where r: "port_tx_burst_collector (epool (em s)) (eports (em s) ! pi) b ks = Some (Inr (bp, p, ys))"
    "ring_content (txq (eports (em s) ! pi)) @ ds = ys @ ring_content (txq p)" "map (\<lambda>d. (desc_addr d, desc_len d)) ds = b"
    using send_result[OF inv pi b room, of ks] by blast
  with False pi show ?thesis
    by (intro exI[of _ bp] exI[of _ "(eports (em s))[pi := p]"] exI[of _ ys] exI[of _ ds]) (simp add: emu_tx_burst_def e)
qed

lemma receive_runs:
  assumes inv: "emu_inv m z B s" and pi: "pi < length (eports (em s))"
  shows "\<exists>pkts e1. emu_rx_burst pi ks (em s) = Some (Inr (pkts, e1))"
proof -
  note D = emu_invD[OF inv pi]
  have k: "kport_of (eports (em s) ! pi) (kheld s ! pi) = kports (view s) ! pi" using D(3) by simp
  then obtain pkts bp' p' where "port_rx_burst (spool (view s)) (kp (kport_of (eports (em s) ! pi) (kheld s ! pi))) ks = Some (Inr (pkts, bp', p', []))"
    using receive_ok[OF D(1,2) k, of ks] by blast
  then show ?thesis using pi by (simp add: emu_rx_burst_iff view_def kport_of_def)
qed

text \<open>The state after a burst: the received packets are in the thread's hands.\<close>

lemma received:
  fixes s :: esys and pkts :: "pkt list"
  assumes run: "good_setup z env ps cfg es ns" "start_system env ps cfg es = Inr (Some s0)" "starts s0 e0" "(emu_step z)\<^sup>*\<^sup>* (started s0 e0) s"
    and rx: "emu_rx_burst pi ks (em s) = Some (Inr (pkts, e1))"
  obtains m B s1 bp p where "emu_inv m z B s1" "B \<subseteq># mset [0..<ns * 2 ^ fq_bits z]" "em s1 = e1"
    "mset (map tx_addr (map Thread_Run.entry pkts)) \<subseteq># owned (view s1)"
    "e1 = (em s)\<lparr>epool := bp, eports := (eports (em s))[pi := p]\<rparr>" "params bp = params (epool (em s))"
    "\<forall>j < length (eports (em s)). txq (eports e1 ! j) = txq (eports (em s) ! j)" "pparams p = pparams (eports (em s) ! pi)"
    "length pkts \<le> MAX_BURST_TX"
    "pkts = map (\<lambda>d. (desc_addr d, desc_len d)) (take (length pkts) (ring_content (rxq (eports (em s) ! pi))))"
proof -
  obtain m B L where B: "emu_inv m z B s" "B + L = mset [0..<ns * 2 ^ fq_bits z]" using running[OF run] by blast
  then have sub: "B \<subseteq># mset [0..<ns * 2 ^ fq_bits z]" by (metis mset_subset_eq_add_left)
  note R = receive_result[OF B(1) rx]
  obtain bp p where e1: "e1 = (em s)\<lparr>epool := bp, eports := (eports (em s))[pi := p]\<rparr>" "params bp = params (epool (em s))"
    "txq p = txq (eports (em s) ! pi)" "pparams p = pparams (eports (em s) ! pi)" using R(3) by blast
  define s1 where "s1 = s\<lparr>em := e1, hand := hand s + mset (map fst pkts)\<rparr>"
  have inv1: "emu_inv m z B s1" using emulator.simulates[OF B(1) emu_step.receive[OF rx]] by (simp add: s1_def)
  have em1: "em s1 = e1" and own: "mset (map tx_addr (map Thread_Run.entry pkts)) \<subseteq># owned (view s1)"
    by (simp_all add: s1_def owned_def view_def Thread_Run.entry_def comp_def)
  have txq: "\<forall>j < length (eports (em s)). txq (eports e1 ! j) = txq (eports (em s) ! j)"
    using e1(3) R(4) by (auto simp: e1(1) nth_list_update)
  have "length pkts \<le> MAX_BURST_TX" using R(1) by (simp add: MAX_BURST_RX_def MAX_BURST_TX_def)
  from that[OF inv1 sub em1 own e1(1,2) txq e1(4) this R(2)] show ?thesis .
qed

section \<open>Receiving into one queue\<close>

lemma veth_rx_packets_one:
  assumes "\<forall>b \<in> set pkts. veth_dest t pi e b i" "queue_at (local_per_dest_queue e) i k xs" "length xs + length pkts \<le> 2 ^ k"
  shows "\<exists>q. veth_rx_packets t pi (map (Pair True) pkts) e =
      Some (Inr (e\<lparr>local_per_dest_queue := (local_per_dest_queue e)[i := q]\<rparr>)) \<and> holds q k (xs @ map Thread_Run.entry pkts)"
  using assms
proof (induction pkts arbitrary: e xs)
  case Nil
  then show ?case by (intro exI[of _ "local_per_dest_queue e ! i"]) (simp add: queue_at_def)
next
  case (Cons b bs)
  let ?q = "local_per_dest_queue e"
  have room: "length xs < 2 ^ k" using Cons.prems(3) by simp
  obtain q' where q': "push_to ?q i (Thread_Run.entry b) = Some (Inr (1, ?q[i := q']))"
    "queue_at (?q[i := q']) i k (xs @ [Thread_Run.entry b])" using push_to_room[OF Cons.prems(2) room] by blast
  let ?e = "e\<lparr>local_per_dest_queue := ?q[i := q']\<rparr>"
  have dst: "veth_dest t pi ?e x j = veth_dest t pi e x j" for x j by (simp add: veth_dest_def)
  have "\<forall>b \<in> set bs. veth_dest t pi ?e b i" using Cons.prems(1) by (simp add: dst)
  from Cons.IH[OF this, of "xs @ [Thread_Run.entry b]"] q'(2) Cons.prems(3) obtain q where
    "veth_rx_packets t pi (map (Pair True) bs) ?e = Some (Inr (?e\<lparr>local_per_dest_queue := (local_per_dest_queue ?e)[i := q]\<rparr>))"
    "holds q k ((xs @ [Thread_Run.entry b]) @ map Thread_Run.entry bs)" by auto
  then show ?case using q'(1) veth_rx_packet_run[of t pi e b i] Cons.prems(1) by (intro exI[of _ q]) simp
qed

lemma all_allocated: "zip (map (\<lambda>_. True) [0..<length pkts]) pkts = map (Pair True) pkts"
  by (rule nth_equalityI) simp_all

section \<open>Sending one queue\<close>

text \<open>
  One step of the transmit thread over a destination queue that holds at most a burst: the packets
  reach the ring of the port in order, rewritten in place. The frames lie apart because the
  buffers are owned once (\<open>owned_apart\<close>).
\<close>

lemma local_queue_sent:
  fixes s :: esys and xs :: "burst_tx list"
  assumes inv: "emu_inv m z B s" "B \<subseteq># mset [0..<N]" and own: "mset (map tx_addr xs) \<subseteq># owned (view s)"
    and e: "e = (em s)\<lparr>local_per_dest_queue := qs\<rparr>"
    and queue: "queue_at qs i n xs" "n \<le> 30" "length xs \<le> MAX_BURST_TX"
    and tx: "assigned_queue (local_dest_queue_array t) w = Inr (Some i)" "next_mac (enet (em s)) (int w) = Some mac"
      "pj < length (eports (em s))" "length (ring_content (txq (eports (em s) ! pj))) + length xs \<le> 2 ^ tx_bits z"
    and fit: "\<forall>x \<in> set xs. fits_buffer (epool (em s)) local_span x \<and> frame_at x + 40 + unat (tx_len x) < 2 ^ 31"
    and area: "N * unat (buffer_size (params (epool (em s)))) \<le> length (umem (em s))"
    and log: "0 \<le> buff_track (local_log (em s))" "buff_track (local_log (em s)) + int MAX_BURST_TX < TELEMETRY_SIZE"
  shows "\<exists>e3 ys ds. nic_tx_local copy_bytes t pj ks w e = Some (Inr e3) \<and>
    ring_content (txq (eports (em s) ! pj)) @ ds = ys @ ring_content (txq (eports e3 ! pj)) \<and>
    map (\<lambda>d. (desc_addr d, desc_len d)) ds = map (\<lambda>x. (tx_addr x, tx_len x + 40)) xs \<and>
    (\<forall>x \<in> set xs. slice (umem e3) (frame_at x) (40 + unat (tx_len x)) =
      encap_header (slice (umem (em s)) (frame_at x) 40) mac @ slice (umem (em s)) (frame_at x) (unat (tx_len x)))"
proof -
  have tk: "take MAX_BURST_TX xs = xs" using queue(3) by simp
  have fits: "\<forall>x \<in> set xs. fits_buffer (epool (em s)) local_span x" and small: "\<forall>x \<in> set xs. frame_at x + 40 + unat (tx_len x) < 2 ^ 31"
    using fit by blast+
  have frames: "frames_in local_span (length (umem e)) (take MAX_BURST_TX xs)"
    using owned_apart[where xs = xs and sp = local_span, OF inv own fits area, THEN conjunct2] unfolding tk by (simp add: e)
  have i: "i < length (local_per_dest_queue e)" using queue(1) by (simp add: queue_at_def e)
  let ?b = "map (\<lambda>x. (tx_addr x, tx_len x + 40)) xs"
  have e_simps: "queue_at (local_per_dest_queue e) i n xs" "next_mac (enet e) (int w) = Some mac" "0 \<le> buff_track (local_log e)"
    "buff_track (local_log e) + int MAX_BURST_TX < TELEMETRY_SIZE" using queue(1) tx(2) log by (simp_all add: e)
  from drain_local_run[OF e_simps(1) queue(2) e_simps(2) frames small e_simps(3,4)] obtain q l mm tl where
    d: "drain_local copy_bytes (int w) i (e, []) = Some (Inr (e\<lparr>local_log := l, umem := mm, etel := tl,
        local_per_dest_queue := (local_per_dest_queue e)[i := q]\<rparr>, ?b))" (is "_ = Some (Inr (?e, _))")
    "\<forall>x \<in> set xs. slice mm (frame_at x) (40 + unat (tx_len x)) =
      encap_header (slice (umem e) (frame_at x) 40) mac @ slice (umem e) (frame_at x) (unat (tx_len x))" unfolding tk by blast
  have b: "length ?b \<le> MAX_BURST_TX" "length (ring_content (txq (eports (em s) ! pj))) + length ?b \<le> 2 ^ tx_bits z"
    using queue(3) tx(4) by simp_all
  have "epool ?e = epool (em s)" "eports ?e = eports (em s)" by (simp_all add: e)
  from burst_sent[OF inv(1) tx(3) b this, of ks] obtain bp ps ys ds where
    t: "emu_tx_burst pj ?b ks ?e = Some (Inr (?e\<lparr>epool := bp, eports := ps\<rparr>))"
    "ring_content (txq (eports (em s) ! pj)) @ ds = ys @ ring_content (txq (ps ! pj))" "map (\<lambda>d. (desc_addr d, desc_len d)) ds = ?b" by blast
  let ?e3 = "?e\<lparr>epool := bp, eports := ps\<rparr>"
  have "nic_tx_local copy_bytes t pj ks w e = Some (Inr ?e3)" unfolding nic_tx_local_def tx(1) using i d(1) t(1) by simp
  moreover have "\<forall>x \<in> set xs. slice (umem ?e3) (frame_at x) (40 + unat (tx_len x)) =
      encap_header (slice (umem (em s)) (frame_at x) 40) mac @ slice (umem (em s)) (frame_at x) (unat (tx_len x))"
    using d(2) by (simp add: e)
  moreover have "eports ?e3 = ps" by simp
  ultimately show ?thesis using t(2,3) by (intro exI[of _ ?e3] exI[of _ ys] exI[of _ ds]) (simp only:)
qed

section \<open>A packet delivered by the kernel\<close>

lemma kernel_step_port:
  assumes "emu_inv m z B s" "pi < length (eports (em s))" "psys_step z (view s)
    ((view s)\<lparr>spool := spool (view s), kports := (kports (view s))[pi := k], flight := flight (view s)\<rparr>)"
  shows "emu_step z s (s\<lparr>em := (em s)\<lparr>eports := (eports (em s))[pi := kp k]\<rparr>, kheld := (kheld s)[pi := (krx k, ktx k)]\<rparr>)"
  using emu_step.kernel[OF assms(3)] view_ports(2,3)[OF emu_invD(4)[OF assms(1,2)]] by (simp add: map_update)

text \<open>The kernel takes the first buffer of a fill ring and receives a packet into it.\<close>

lemma kernel_delivers:
  assumes inv: "emu_inv m z B s" and pi: "pi < length (eports (em s))"
    and a: "ring_content (umem_fq (eports (em s) ! pi)) = a # as" and room: "length (ring_content (rxq (eports (em s) ! pi))) < 2 ^ rx_bits z"
    and d: "buf_of (epool (em s)) (desc_addr d) = buf_of (epool (em s)) a"
  shows "\<exists>s' p. (emu_step z)\<^sup>*\<^sup>* s s' \<and> em s' = (em s)\<lparr>eports := (eports (em s))[pi := p]\<rparr> \<and>
    pparams p = pparams (eports (em s) ! pi) \<and> txq p = txq (eports (em s) ! pi) \<and>
    ring_content (rxq p) = ring_content (rxq (eports (em s) ! pi)) @ [d]"
proof -
  let ?p = "eports (em s) ! pi" and ?k = "kport_of (eports (em s) ! pi) (kheld s ! pi)"
  note D = emu_invD[OF inv pi]
  have k: "?k = kports (view s) ! pi" using D(3) by simp
  have kp: "kp ?k = ?p" by (simp add: kport_of_def)
  have idle: "rings_idle z ?p" using sys_invD(3)[OF D(1,2) k] by (simp add: kp)
  obtain xs fq where t: "kernel_take (umem_fq ?p) 1 = (xs, fq)" by fastforce
  have "prod_idle (fq_bits z) (umem_fq ?p)" using idle by (simp add: rings_idle_def)
  from idle_kernel_take(2)[OF this _ t] have xs: "xs = [a]" using a by simp
  let ?k1 = "?k\<lparr>kp := ?p\<lparr>umem_fq := fq\<rparr>, krx := krx ?k + {#a#}\<rparr>"
  define s1 where "s1 = s\<lparr>em := (em s)\<lparr>eports := (eports (em s))[pi := kp ?k1]\<rparr>, kheld := (kheld s)[pi := (krx ?k1, ktx ?k1)]\<rparr>"
  have 1: "emu_step z s s1" unfolding s1_def
    by (rule kernel_step_port[OF inv pi]) (use psys_step.kernel_fill[OF D(2) k, of 1 xs fq z] a t xs in \<open>simp add: kp view_def\<close>)
  have inv1: "emu_inv m z B s1" using emulator.simulates[OF inv 1] by blast
  have pi1: "pi < length (eports (em s1))" "eports (em s1) ! pi = ?p\<lparr>umem_fq := fq\<rparr>" using pi by (simp_all add: s1_def)
  note D1 = emu_invD[OF inv1 pi1(1)]
  have k1: "kports (view s1) ! pi = ?k1" using D1(3) pi1(2) D(4) pi by (simp add: s1_def kport_of_def)
  let ?k2 = "?k1\<lparr>kp := (kp ?k1)\<lparr>rxq := kernel_put (rxq (kp ?k1)) [d]\<rparr>, krx := krx ?k1 - mset [a]\<rparr>"
  have bufs: "map (buf_of (spool (view s1)) \<circ> desc_addr) [d] = map (buf_of (spool (view s1))) [a]" using d by (simp add: view_def s1_def)
  have "psys_step z (view s1) ((view s1)\<lparr>spool := spool (view s1), kports := (kports (view s1))[pi := ?k2], flight := flight (view s1)\<rparr>)"
    by (rule psys_step.kernel_receive[OF D1(2) k1[symmetric] _ bufs]) (use room in simp_all)
  note 2 = kernel_step_port[OF inv1 pi1(1) this]
  have "ring_content (kernel_put (rxq ?p) [d]) = ring_content (rxq ?p) @ [d]"
    using idle_kernel_put[of "rx_bits z" "rxq ?p" "[d]"] idle room by (simp add: rings_idle_def)
  moreover have "(emu_step z)\<^sup>*\<^sup>* s (s1\<lparr>em := (em s1)\<lparr>eports := (eports (em s1))[pi := kp ?k2]\<rparr>, kheld := (kheld s1)[pi := (krx ?k2, ktx ?k2)]\<rparr>)"
    using 1 2 by (rule converse_rtranclp_into_rtranclp[OF _ r_into_rtranclp[where r = "emu_step z"]])
  ultimately show ?thesis
    by (intro exI[of _ "?p\<lparr>umem_fq := fq, rxq := kernel_put (rxq ?p) [d]\<rparr>"] exI conjI) (assumption, simp_all add: s1_def kport_of_def)
qed

section \<open>A sample run with a received packet\<close>

lemma port_init_pparams: "port_init env bp pp = Inr (bp', Some p) \<Longrightarrow> pparams p = pp"
  by (auto simp: port_init_def Let_def res_simps case_prod_beta split: if_splits option.splits)

lemma init_ports_pparams: "init_ports bp es = Inr (bp', Some ps) \<Longrightarrow> map pparams ps = map snd es"
proof (induction es arbitrary: bp bp' ps)
  case (Cons e es)
  then show ?case by (cases e) (auto simp: res_simps port_init_pparams split: option.splits)
qed auto

lemma start_pparams: "start_system env ps cfg es = Inr (Some s0) \<Longrightarrow> map (pparams \<circ> kp) (kports s0) = map snd es"
  by (auto simp: start_system_def res_simps comp_def init_ports_pparams split: option.splits)

definition wide_params :: bpool_params where
  "wide_params = sample_params\<lparr>bp_n_buffers_param := 192\<rparr>"

lemma wide_setup: "good_setup sample_sizes sample_env wide_params sample_cfg sample_ports 6"
  by (simp add: good_setup_def sample_sizes_def sample_env_def wide_params_def sample_params_def sample_cfg_def umem_cfg_default_def
      sample_ports_def sample_port_env_def env_ok_def all_ok_def empty_ring_idle MAX_BURST_RX_def MAX_BURST_TX_def Let_def)

text \<open>
  From some start state on, the kernel can deliver one packet \<open>d\<close> to port \<open>i\<close>, in a buffer \<open>b\<close> of its
  choice, and the port's next burst is this packet, whatever is in the packet area.
\<close>

definition sample_delivery :: "nat \<Rightarrow> emu \<Rightarrow> xdp_desc \<Rightarrow> emu \<Rightarrow> emu \<Rightarrow> bool" where
  "sample_delivery i e d e' e1 \<longleftrightarrow> emu_rx_burst i [] e' = Some (Inr ([(desc_addr d, desc_len d)], e1)) \<and>
     (\<exists>ps. e' = e\<lparr>eports := ps\<rparr> \<and> length ps = 2 \<and> iface (pparams (ps ! i)) = iface (snd (sample_ports ! i)) \<and>
       ring_content (txq (ps ! (1 - i))) = []) \<and>
     (\<exists>bp ps. e1 = e\<lparr>epool := bp, eports := ps\<rparr> \<and> length ps = 2 \<and> iface (pparams (ps ! i)) = iface (snd (sample_ports ! i))) \<and>
     buffer_size (params (epool e')) = 4096"

lemma wide_start:
  assumes i: "i < 2"
  shows "\<exists>s0 a as. start_system sample_env wide_params sample_cfg sample_ports = Inr (Some s0) \<and> length (kports s0) = 2 \<and>
    (\<exists>B. sys_inv 2 sample_sizes B s0) \<and> (\<forall>k < 2. new_port_ok sample_sizes (kp (kports s0 ! k))) \<and>
    n_slabs_available (spool s0) \<noteq> 0 \<and> buffer_size (params (spool s0)) = 4096 \<and>
    ring_content (umem_fq (kp (kports s0 ! i))) = a # as \<and> buf_of (spool s0) a < 192"
proof -
  obtain s0 L where s0: "start_system sample_env wide_params sample_cfg sample_ports = Inr (Some s0)" "length (kports s0) = 2"
    "image_mset (buf_of (spool s0)) (owned s0) + L = mset [0..<6 * 2 ^ fq_bits sample_sizes]"
    "sys_inv 2 sample_sizes (image_mset (buf_of (spool s0)) (owned s0)) s0" "\<forall>k \<in> set (kports s0). new_port_ok sample_sizes (kp k)"
    "unat (n_slabs_available (spool s0)) = 2" "buffer_size (params (spool s0)) = buffer_size wide_params"
    using start_ok[OF wide_setup] by (auto simp: sample_ports_def)
  have new: "\<forall>k < 2. new_port_ok sample_sizes (kp (kports s0 ! k))" using s0(2,5) by simp
  then have "length (ring_content (umem_fq (kp (kports s0 ! i)))) \<noteq> 0" using i by (simp add: new_port_ok_def)
  then obtain a as where a: "ring_content (umem_fq (kp (kports s0 ! i))) = a # as" by (cases "ring_content (umem_fq (kp (kports s0 ! i)))") auto
  have "a \<in># mset (ring_content (umem_fq (kp (kports s0 ! i))))" unfolding a by simp
  then have "a \<in># port_bufs (kports s0 ! i)" unfolding port_bufs_def by simp
  moreover have "kports s0 ! i \<in> set (kports s0)" using s0(2) i by simp
  ultimately have "\<exists>k \<in> set (kports s0). a \<in># port_bufs k" by blast
  then have "a \<in># owned s0" unfolding owned_def by (auto dest!: split_list)
  then have "buf_of (spool s0) a \<in># image_mset (buf_of (spool s0)) (owned s0) + L" by simp
  then have "buf_of (spool s0) a < 192" unfolding s0(3) by (simp add: sample_sizes_def)
  moreover have "n_slabs_available (spool s0) \<noteq> 0" using s0(6) by auto
  moreover have "buffer_size (params (spool s0)) = 4096" using s0(7) by (simp add: wide_params_def sample_params_def)
  ultimately show ?thesis using s0(1,2,4) new a by blast
qed

lemma wide_delivery:
  assumes i: "i < 2"
  shows "\<exists>s0 b. start_system sample_env wide_params sample_cfg sample_ports = Inr (Some s0) \<and> b < 192 \<and>
    (\<forall>e d. starts s0 e \<longrightarrow> unat (desc_addr d) div 4096 = b \<longrightarrow>
      (\<exists>s e1. (emu_step sample_sizes)\<^sup>*\<^sup>* (started s0 e) s \<and> sample_delivery i e d (em s) e1))"
proof -
  obtain s0 a as B where s0: "start_system sample_env wide_params sample_cfg sample_ports = Inr (Some s0)" "length (kports s0) = 2"
    "sys_inv 2 sample_sizes B s0" "\<forall>k < 2. new_port_ok sample_sizes (kp (kports s0 ! k))" "n_slabs_available (spool s0) \<noteq> 0"
    "buffer_size (params (spool s0)) = 4096" and a: "ring_content (umem_fq (kp (kports s0 ! i))) = a # as" "buf_of (spool s0) a < 192"
    using wide_start[OF i] by blast
  have "(map (pparams \<circ> kp) (kports s0)) ! i = snd (sample_ports ! i)" unfolding start_pparams[OF s0(1)] using i by (auto simp: sample_ports_def less_2_cases_iff)
  then have pp: "pparams (kp (kports s0 ! i)) = snd (sample_ports ! i)" using i s0(2) by simp
  have "\<exists>s e1. (emu_step sample_sizes)\<^sup>*\<^sup>* (started s0 e) s \<and> sample_delivery i e d (em s) e1"
    if st: "starts s0 e" and d: "unat (desc_addr d) div 4096 = buf_of (spool s0) a" for e d
  proof -
    let ?s = "started s0 e"
    have e: "em ?s = e" "epool e = spool s0" "eports e = map kp (kports s0)" using st by (simp_all add: started_def starts_def)
    have at: "eports (em ?s) ! i = kp (kports s0 ! i)" and len: "i < length (eports (em ?s))" using i s0(2) unfolding e by simp_all
    have rx0: "ring_content (rxq (kp (kports s0 ! i))) = []" using s0(4) i by (simp add: new_port_ok_def)
    then have room: "length (ring_content (rxq (eports (em ?s) ! i))) < 2 ^ rx_bits sample_sizes" unfolding at by simp
    have buf: "buf_of (epool (em ?s)) (desc_addr d) = buf_of (epool (em ?s)) a"
      using d unfolding e(1,2) by (simp add: buf_of_def[of _ "desc_addr d"] s0(6))
    obtain s p where s: "(emu_step sample_sizes)\<^sup>*\<^sup>* ?s s" "em s = e\<lparr>eports := (map kp (kports s0))[i := p]\<rparr>"
      "pparams p = snd (sample_ports ! i)" "ring_content (rxq p) = [d]"
      using kernel_delivers[OF started_inv[OF s0(3) st] len a(1)[folded at] room buf] unfolding at unfolding pp rx0 e(1) unfolding e(3) by auto
    obtain B' where inv: "emu_inv 2 sample_sizes B' s" using running[OF wide_setup s0(1) st s(1)] by (auto simp: sample_ports_def)
    have pi: "i < length (eports (em s))" "eports (em s) ! i = p" using i s0(2) by (simp_all add: s(2))
    obtain pkts e1 where rx: "emu_rx_burst i [] (em s) = Some (Inr (pkts, e1))" using receive_runs[OF inv pi(1)] by blast
    note R = receive_result[OF inv rx, unfolded pi(2) s(4)]
    have "pkts \<noteq> []" using R(5) s0(5) e(2) by (simp add: s(2))
    with R(2) have pkts: "pkts = [(desc_addr d, desc_len d)]" by (cases pkts) auto
    have "ring_content (txq ((map kp (kports s0))[i := p] ! (1 - i))) = []"
      using s0(2,4) i by (cases "i = 0") (simp_all add: new_port_ok_def)
    moreover obtain bp p2 where e1: "e1 = (em s)\<lparr>epool := bp, eports := (eports (em s))[i := p2]\<rparr>" "pparams p2 = pparams p" using R(3) by blast
    have "e1 = e\<lparr>epool := bp, eports := (map kp (kports s0))[i := p2]\<rparr>" by (simp add: e1(1) s(2))
    then have "\<exists>bp ps. e1 = e\<lparr>epool := bp, eports := ps\<rparr> \<and> length ps = 2 \<and> iface (pparams (ps ! i)) = iface (snd (sample_ports ! i))"
      using e1(2) s(3) s0(2) i by (intro exI[of _ bp] exI[of _ "(map kp (kports s0))[i := p2]"]) simp
    moreover have "iface (pparams ((map kp (kports s0))[i := p] ! i)) = iface (snd (sample_ports ! i))" "length ((map kp (kports s0))[i := p]) = 2"
      using s(3) s0(2) i by simp_all
    moreover have "buffer_size (params (epool (em s))) = 4096" using s0(6) e(2) by (simp add: s(2))
    ultimately have "sample_delivery i e d (em s) e1" unfolding sample_delivery_def using rx[unfolded pkts] s(2) by blast
    with s(1) show ?thesis by blast
  qed
  with s0(1) a(2) show ?thesis by blast
qed

text \<open>The start state with a sample packet, as it lies in \<open>m\<close>, in buffer \<open>b\<close>.\<close>

definition packet_start :: "psys \<Rightarrow> nat \<Rightarrow> u8 list \<Rightarrow> emu" where
  "packet_start s0 b m = (sample_start s0)\<lparr>umem := splice (replicate 786432 0) (b * 4096 + 256) m\<rparr>"

lemma packet_starts: "starts s0 (packet_start s0 b m)"
proof -
  have "queues_of k (packet_start s0 b m) = queues_of k (sample_start s0)" for k by (cases k) (simp_all add: packet_start_def)
  then show ?thesis using sample_starts[of s0] by (simp add: starts_def packet_start_def)
qed

lemma sample_idle_holds: "holds sample_idle 1 []"
  unfolding sample_idle_def by (rule holds_init) simp_all

lemma packet_start_facts:
  "enet (packet_start s0 b m) = sample_net" "local_log (packet_start s0 b m) = sample_log" "veth_log (packet_start s0 b m) = sample_log"
  "queue_at (local_per_dest_queue (packet_start s0 b m)) 0 1 []" "queue_at (veth_side_queue (packet_start s0 b m)) 0 1 []"
  "umem (packet_start s0 b m) = splice (replicate 786432 0) (b * 4096 + 256) m"
  "queue_at (non_local_per_dest_queue (packet_start s0 b m)) 0 1 []"
  using sample_idle_holds by (simp_all add: packet_start_def sample_start_def sample_emu_facts queue_at_def)

definition sample_desc :: "nat \<Rightarrow> u32 \<Rightarrow> xdp_desc" where
  "sample_desc b l = \<lparr>desc_addr = of_nat (b * 4096 + 256), desc_len = l, desc_options = 0\<rparr>"

lemma desc_at: "b < 192 \<Longrightarrow> unat (of_nat (b * 4096 + 256) :: u64) = b * 4096 + 256"
proof -
  assume "b < 192"
  then have "b * 4096 + 256 < 2 ^ 64" by simp
  then show ?thesis by (simp add: of_nat_inverse)
qed

lemma packet_delivery:
  assumes "i < 2"
  shows "\<exists>s0 s b e1. start_system sample_env wide_params sample_cfg sample_ports = Inr (Some s0) \<and> b < 192 \<and>
    (emu_step sample_sizes)\<^sup>*\<^sup>* (started s0 (packet_start s0 b m)) s \<and> sample_delivery i (packet_start s0 b m) (sample_desc b l) (em s) e1"
proof -
  obtain s0 b where s0: "start_system sample_env wide_params sample_cfg sample_ports = Inr (Some s0)" "b < 192"
    "\<forall>e d. starts s0 e \<longrightarrow> unat (desc_addr d) div 4096 = b \<longrightarrow>
      (\<exists>s e1. (emu_step sample_sizes)\<^sup>*\<^sup>* (started s0 e) s \<and> sample_delivery i e d (em s) e1)"
    using wide_delivery[OF assms] by blast
  have "desc_addr (sample_desc b l) = of_nat (b * 4096 + 256)" by (simp add: sample_desc_def)
  then have "unat (desc_addr (sample_desc b l)) div 4096 = b" using desc_at[OF s0(2)] by simp
  with s0(3) packet_starts s0(1,2) show ?thesis by blast
qed

text \<open>The sample packet from a namespace goes to the first queue.\<close>

lemma sample_dest:
  assumes b: "b < 192" and e: "e = (packet_start s0 b sample_area)\<lparr>epool := bp, eports := ps\<rparr>" "length ps = 2"
    "iface (pparams (ps ! 1)) = ''vethout2''"
  shows "veth_dest (sample_thread\<lparr>ports_rx := [Some 1]\<rparr>) 1 e (of_nat (b * 4096 + 256), 34) 0"
proof -
  let ?a = "b * 4096 + 256" and ?e = "packet_start s0 b sample_area"
  note a = desc_at[OF b] and F = packet_start_facts[of s0 b sample_area]
  have at: "frame_at (Thread_Run.entry (of_nat ?a, 34)) = ?a" using a by (simp only: frame_at_def Thread_Run.entry_def burst_tx.simps fst_conv)
  have len: "length (umem ?e) = 786432" using b by (simp add: F(6) sample_area_facts)
  have "addr_at (umem ?e) (?a + 30) = 0" unfolding F(6) by (subst region_addr) (use b sample_area_facts in simp_all)
  then have "get_destination_queue_index sample_net (umem ?e) ?a ''vethout2'' = Inr (int 1)"
    using get_destination_queue_correct[of ?a "umem ?e" "''vethout2''" sample_net] b
    by (simp add: len sample_lookups prefix_def OUTER_VETH_PREFIX_def)
  moreover have "(of_nat ?a :: u64) \<noteq> 0" using a by (metis add_is_0 unat_0 zero_neq_numeral)
  ultimately show ?thesis
    by (intro veth_destI[where q = 1]; simp only: at) (use b e F(1) in \<open>simp_all add: sample_thread_def NUM_OF_PER_DEST_QUEUES_def\<close>)
qed

section \<open>Properties\<close>

text \<open>Property C5: a burst that a namespace sends to one destination crosses the node: the receiving thread's
  pass puts it into the destination's queue, and the transmit thread that drains this queue
  appends exactly these packets, in order, to the transmit ring of its port, each 40 bytes
  longer and behind the outer headers for the next hop of the slot, with its own bytes
  unchanged. What else the emulator and the kernel have done before does not matter.\<close>
theorem namespace_to_network:
  assumes run: "good_setup z env ps cfg es ns" "start_system env ps cfg es = Inr (Some s0)" "starts s0 e0" "(emu_step z)\<^sup>*\<^sup>* (started s0 e0) s"
    and rx: "port_at (ports_rx t) 0 = Inr pi" "emu_rx_burst pi (kernel k) (em s) = Some (Inr (pkts, e1))" "allocs k = (\<lambda>_. True)"
    and dest: "\<forall>b \<in> set pkts. veth_dest t pi e1 b i"
    and queue: "queue_at (local_per_dest_queue (em s)) i n []" "n \<le> 30" "length pkts \<le> 2 ^ n"
    and tx: "assigned_queue (local_dest_queue_array t') w = Inr (Some i)" "next_mac (enet (em s)) (int w) = Some mac"
      "pj < length (eports (em s))" "length (ring_content (txq (eports (em s) ! pj))) + length pkts \<le> 2 ^ tx_bits z"
    and fit: "\<forall>b \<in> set pkts. fits_buffer (epool (em s)) local_span (Thread_Run.entry b) \<and> unat (fst b) + 40 + unat (snd b) < 2 ^ 31"
    and area: "ns * 2 ^ fq_bits z * unat (buffer_size (params (epool (em s)))) \<le> length (umem (em s))"
    and log: "0 \<le> buff_track (local_log (em s))" "buff_track (local_log (em s)) + int MAX_BURST_TX < TELEMETRY_SIZE"
  shows "\<exists>e2 e3 ys ds. thread_func_veth_pass t k (em s) = Some (Inr e2) \<and> nic_tx_local copy_bytes t' pj ks w e2 = Some (Inr e3) \<and>
    pkts = map (\<lambda>d. (desc_addr d, desc_len d)) (take (length pkts) (ring_content (rxq (eports (em s) ! pi)))) \<and>
    ring_content (txq (eports (em s) ! pj)) @ ds = ys @ ring_content (txq (eports e3 ! pj)) \<and>
    map (\<lambda>d. (desc_addr d, desc_len d)) ds = map (\<lambda>b. (fst b, snd b + 40)) pkts \<and>
    (\<forall>b \<in> set pkts. slice (umem e3) (unat (fst b)) (40 + unat (snd b)) =
      encap_header (slice (umem (em s)) (unat (fst b)) 40) mac @ slice (umem (em s)) (unat (fst b)) (unat (snd b)))"
proof -
  let ?xs = "map Thread_Run.entry pkts"
  obtain m B s1 bp p where S: "emu_inv m z B s1" "B \<subseteq># mset [0..<ns * 2 ^ fq_bits z]" "em s1 = e1" "mset (map tx_addr ?xs) \<subseteq># owned (view s1)"
    and e1: "e1 = (em s)\<lparr>epool := bp, eports := (eports (em s))[pi := p]\<rparr>" "params bp = params (epool (em s))"
    and txq: "\<forall>j < length (eports (em s)). txq (eports e1 ! j) = txq (eports (em s) ! j)"
    and "pparams p = pparams (eports (em s) ! pi)" and len: "length pkts \<le> MAX_BURST_TX"
    and order: "pkts = map (\<lambda>d. (desc_addr d, desc_len d)) (take (length pkts) (ring_content (rxq (eports (em s) ! pi))))"
    by (rule received[OF run rx(2)]) blast
  have "queue_at (local_per_dest_queue e1) i n []" using queue(1) by (simp add: e1(1))
  from veth_rx_packets_one[OF dest this] queue(3) obtain q where
    q: "veth_rx_packets t pi (map (Pair True) pkts) e1 = Some (Inr (e1\<lparr>local_per_dest_queue := (local_per_dest_queue e1)[i := q]\<rparr>))"
    "holds q n ?xs" by auto
  let ?qs = "(local_per_dest_queue e1)[i := q]"
  have pass: "thread_func_veth_pass t k (em s) = Some (Inr (e1\<lparr>local_per_dest_queue := ?qs\<rparr>))"
    by (simp add: thread_func_veth_pass_def rx(1,2,3) all_allocated q(1))
  have qa: "queue_at ?qs i n ?xs" using q(2) queue(1) by (simp add: queue_at_def e1(1))
  have *: "length ?xs \<le> MAX_BURST_TX" "next_mac (enet (em s1)) (int w) = Some mac" "pj < length (eports (em s1))"
    "length (ring_content (txq (eports (em s1) ! pj))) + length ?xs \<le> 2 ^ tx_bits z"
    "\<forall>x \<in> set ?xs. fits_buffer (epool (em s1)) local_span x \<and> frame_at x + 40 + unat (tx_len x) < 2 ^ 31"
    "ns * 2 ^ fq_bits z * unat (buffer_size (params (epool (em s1)))) \<le> length (umem (em s1))"
    "0 \<le> buff_track (local_log (em s1))" "buff_track (local_log (em s1)) + int MAX_BURST_TX < TELEMETRY_SIZE"
    using len tx fit area log txq[rule_format, OF tx(3)] e1(2) unfolding S(3)
    by (simp_all add: e1(1) fits_buffer_def frame_at_def Thread_Run.entry_def)
  have e2: "e1\<lparr>local_per_dest_queue := ?qs\<rparr> = (em s1)\<lparr>local_per_dest_queue := ?qs\<rparr>" unfolding S(3) ..
  from local_queue_sent[OF S(1,2,4) e2 qa queue(2) *(1) tx(1) *(2-), of ks] obtain e3 ys ds where
    "nic_tx_local copy_bytes t' pj ks w (e1\<lparr>local_per_dest_queue := ?qs\<rparr>) = Some (Inr e3)"
    "ring_content (txq (eports (em s) ! pj)) @ ds = ys @ ring_content (txq (eports e3 ! pj))"
    "map (\<lambda>d. (desc_addr d, desc_len d)) ds = map (\<lambda>x. (tx_addr x, tx_len x + 40)) ?xs"
    "\<forall>x \<in> set ?xs. slice (umem e3) (frame_at x) (40 + unat (tx_len x)) =
      encap_header (slice (umem e1) (frame_at x) 40) mac @ slice (umem e1) (frame_at x) (unat (tx_len x))"
    unfolding S(3) txq[rule_format, OF tx(3)] by blast
  moreover from this(3,4) have "map (\<lambda>d. (desc_addr d, desc_len d)) ds = map (\<lambda>b. (fst b, snd b + 40)) pkts"
    "\<forall>b \<in> set pkts. slice (umem e3) (unat (fst b)) (40 + unat (snd b)) =
      encap_header (slice (umem (em s)) (unat (fst b)) 40) mac @ slice (umem (em s)) (unat (fst b)) (unat (snd b))"
    by (simp_all add: e1(1) frame_at_def Thread_Run.entry_def)
  ultimately show ?thesis using pass order by blast
qed

theorem namespace_to_network_witness:
  "\<exists>s0 s b e2 e3. start_system sample_env wide_params sample_cfg sample_ports = Inr (Some s0) \<and>
    (emu_step sample_sizes)\<^sup>*\<^sup>* (started s0 (packet_start s0 b sample_area)) s \<and>
    thread_func_veth_pass (sample_thread\<lparr>ports_rx := [Some 1]\<rparr>) \<lparr>kernel = [], allocs = (\<lambda>_. True)\<rparr> (em s) = Some (Inr e2) \<and>
    nic_tx_local copy_bytes sample_thread 0 [] 1 e2 = Some (Inr e3) \<and>
    slice (umem e3) (b * 4096 + 256) 74 = encap_header (slice (umem (em s)) (b * 4096 + 256) 40) [1, 2, 3, 4, 5, 6] @
      slice (umem (em s)) (b * 4096 + 256) 34"
proof -
  obtain s0 s b e1 where s0: "start_system sample_env wide_params sample_cfg sample_ports = Inr (Some s0)" "b < 192"
    "(emu_step sample_sizes)\<^sup>*\<^sup>* (started s0 (packet_start s0 b sample_area)) s"
    "sample_delivery 1 (packet_start s0 b sample_area) (sample_desc b 34) (em s) e1" using packet_delivery[of 1 sample_area 34] by auto
  let ?a = "b * 4096 + 256" and ?e = "packet_start s0 b sample_area"
  let ?pkts = "[(of_nat ?a :: u64, 34 :: u32)]" and ?t = "sample_thread\<lparr>ports_rx := [Some 1]\<rparr>" and ?k = "\<lparr>kernel = [] :: nat list, allocs = (\<lambda>_ :: nat. True)\<rparr>"
  note a = desc_at[OF s0(2)]
  obtain ps bp qs where em: "em s = ?e\<lparr>eports := ps\<rparr>" "length ps = 2" "ring_content (txq (ps ! 0)) = []" "buffer_size (params (epool (em s))) = 4096"
    and e1: "e1 = ?e\<lparr>epool := bp, eports := qs\<rparr>" "length qs = 2" "iface (pparams (qs ! 1)) = ''vethout2''"
    and rx: "emu_rx_burst 1 (kernel ?k) (em s) = Some (Inr (?pkts, e1))"
    using s0(4) by (auto simp: sample_delivery_def sample_ports_def sample_desc_def)
  note F = packet_start_facts[of s0 b sample_area]
  have at: "frame_at (Thread_Run.entry (of_nat ?a, 34)) = ?a" using a by (simp only: frame_at_def Thread_Run.entry_def burst_tx.simps fst_conv)
  have len: "length (umem ?e) = 786432" using s0(2) by (simp add: F(6) sample_area_facts)
  have "veth_dest ?t 1 e1 (of_nat ?a, 34) 0" by (rule sample_dest[OF s0(2) e1])
  then have dest: "\<forall>x \<in> set ?pkts. veth_dest ?t 1 e1 x 0" by simp
  have queue: "queue_at (local_per_dest_queue (em s)) 0 1 []" "(1 :: nat) \<le> 30" "length ?pkts \<le> 2 ^ 1" using F(4) by (simp_all add: em(1))
  have tx: "assigned_queue (local_dest_queue_array sample_thread) 1 = Inr (Some 0)" "next_mac (enet (em s)) (int 1) = Some [1, 2, 3, 4, 5, 6]"
    "0 < length (eports (em s))" "length (ring_content (txq (eports (em s) ! 0))) + length ?pkts \<le> 2 ^ tx_bits sample_sizes"
    by (simp_all add: em(1-3) F(1) sample_lookups sample_sizes_def assigned_queue_def sample_thread_def NUM_OF_PER_DEST_QUEUES_def arr_get_def)
  have fit: "\<forall>x \<in> set ?pkts. fits_buffer (epool (em s)) local_span (Thread_Run.entry x) \<and> unat (fst x) + 40 + unat (snd x) < 2 ^ 31"
    using s0(2) at a by (simp add: fits_buffer_def em(4) local_span_def) (simp add: Thread_Run.entry_def)
  have area: "6 * 2 ^ fq_bits sample_sizes * unat (buffer_size (params (epool (em s)))) \<le> length (umem (em s))"
    unfolding em(4) using len by (simp add: em(1) sample_sizes_def)
  have log: "0 \<le> buff_track (local_log (em s))" "buff_track (local_log (em s)) + int MAX_BURST_TX < TELEMETRY_SIZE"
    by (simp_all add: em(1) F(2) sample_log_def MAX_BURST_TX_def TELEMETRY_SIZE_def)
  have t: "port_at (ports_rx ?t) 0 = Inr 1" "allocs ?k = (\<lambda>_. True)" by (simp_all add: port_at_def)
  from namespace_to_network[OF wide_setup s0(1) packet_starts s0(3) t(1) rx t(2) dest queue tx fit area log, of "[]"] s0(1,3) a
  show ?thesis by fastforce
qed

section \<open>The accounting of the thread functions\<close>



section \<open>Frames in the queues\<close>

text \<open>A burst takes at most one slab from the pool.\<close>

lemma burst_slabs: "port_rx_burst bp p ks = Some (Inr (pkts, bp', p', ys)) \<Longrightarrow> n_slabs_available bp' = n_slabs_available bp \<or>
    n_slabs_available bp' = n_slabs_available bp - 1"
  by (auto simp: port_rx_burst_def bcache_cons_check_def Let_def res_simps split: sum.splits if_splits prod.splits option.splits)

text \<open>The kernel delivers a packet; it is received and put into a queue.\<close>

lemma one_more_queued:
  fixes d :: xdp_desc
  assumes inv: "emu_inv m z B s" and pi: "pi < length (eports (em s))"
    and fq: "ring_content (umem_fq (eports (em s) ! pi)) = a # as" and rx: "ring_content (rxq (eports (em s) ! pi)) = []"
    and slabs: "n_slabs_available (epool (em s)) \<noteq> 0" and d: "buf_of (epool (em s)) (desc_addr d) = buf_of (epool (em s)) a"
    and q: "queue_at (local_per_dest_queue (em s)) 0 k xs" "length xs < 2 ^ k"
  shows "\<exists>s'. (emu_step z)\<^sup>*\<^sup>* s s' \<and> queue_at (local_per_dest_queue (em s')) 0 k (xs @ [Thread_Run.entry (desc_addr d, desc_len d)]) \<and>
    (\<forall>j. j \<noteq> pi \<longrightarrow> eports (em s') ! j = eports (em s) ! j) \<and> length (eports (em s')) = length (eports (em s)) \<and>
    params (epool (em s')) = params (epool (em s)) \<and> umem (em s') = umem (em s) \<and>
    (n_slabs_available (epool (em s')) = n_slabs_available (epool (em s)) \<or>
     n_slabs_available (epool (em s')) = n_slabs_available (epool (em s)) - 1)"
proof -
  obtain s1 p where s1: "(emu_step z)\<^sup>*\<^sup>* s s1" "em s1 = (em s)\<lparr>eports := (eports (em s))[pi := p]\<rparr>" "ring_content (rxq p) = [d]"
    using kernel_delivers[OF inv pi fq _ d] rx by auto
  have inv1: "emu_inv m z B s1" by (rule emulator.keeps_inv[OF s1(1) inv])
  have p1: "pi < length (eports (em s1))" "eports (em s1) ! pi = p" using pi by (simp_all add: s1(2))
  obtain pkts e2 where b: "emu_rx_burst pi [] (em s1) = Some (Inr (pkts, e2))" using receive_runs[OF inv1 p1(1)] by blast
  note R = receive_result[OF inv1 b, unfolded p1(2) s1(3)]
  have "pkts \<noteq> []" using R(5) slabs by (simp add: s1(2))
  with R(2) have pkts: "pkts = [(desc_addr d, desc_len d)]" by (cases pkts) auto
  obtain bp p2 ys where e2: "e2 = (em s1)\<lparr>epool := bp, eports := (eports (em s1))[pi := p2]\<rparr>"
    "port_rx_burst (epool (em s1)) p [] = Some (Inr (pkts, bp, p2, ys))" using b p1 by (auto simp: emu_rx_burst_iff)
  have "params bp = params (epool (em s1))" using R(3) e2(1) by (metis emu.select_convs(1) emu.surjective emu.update_convs(1,2))
  let ?s2 = "s1\<lparr>em := e2, hand := hand s1 + mset (map fst pkts)\<rparr>" and ?x = "Thread_Run.entry (desc_addr d, desc_len d)"
  have 2: "emu_step z s1 ?s2" by (rule emu_step.receive[OF b])
  have qs: "queues_of Local_Dest (em ?s2) = local_per_dest_queue (em s)" by (simp add: e2(1) s1(2))
  obtain q' where q': "push_to (queues_of Local_Dest (em ?s2)) 0 ?x = Some (Inr (1, (local_per_dest_queue (em s))[0 := q']))"
    "queue_at ((local_per_dest_queue (em s))[0 := q']) 0 k (xs @ [?x])" unfolding qs using push_to_room[OF q] by blast
  have "tx_addr ?x \<in># hand ?s2" by (simp add: pkts Thread_Run.entry_def)
  note 3 = emu_step.push[OF this q'(1), of z]
  define s3 where "s3 = ?s2\<lparr>em := with_queues Local_Dest ((local_per_dest_queue (em s))[0 := q']) (em ?s2),
    hand := hand ?s2 - (if 1 = (0 :: int) then {#} else {#tx_addr ?x#})\<rparr>"
  have "(emu_step z)\<^sup>*\<^sup>* s s3" unfolding s3_def by (rule rtranclp.rtrancl_into_rtrancl[OF rtranclp.rtrancl_into_rtrancl[OF s1(1) 2] 3])
  moreover have "em s3 = (em s)\<lparr>epool := bp, eports := (eports (em s))[pi := p2], local_per_dest_queue := (local_per_dest_queue (em s))[0 := q']\<rparr>"
    by (simp add: s3_def e2(1) s1(2))
  ultimately show ?thesis
    using q'(2) \<open>params bp = _\<close> burst_slabs[OF e2(2)] by (intro exI[of _ s3]) (simp add: s1(2))
qed

lemma sample_two_queued:
  "\<exists>s0 s x y. start_system sample_env wide_params sample_cfg sample_ports = Inr (Some s0) \<and>
    (emu_step sample_sizes)\<^sup>*\<^sup>* (started s0 (packet_start s0 0 [])) s \<and> queue_at (local_per_dest_queue (em s)) 0 1 [x, y] \<and>
    frame_at x mod 4096 = 256 \<and> tx_len x = 34 \<and> frame_at y mod 4096 = 256 \<and> tx_len y = 34 \<and>
    buffer_size (params (epool (em s))) = 4096 \<and> length (umem (em s)) = 786432"
proof -
  obtain s0 where s0: "start_system sample_env wide_params sample_cfg sample_ports = Inr (Some s0)" "unat (n_slabs_available (spool s0)) = 2"
    using start_ok[OF wide_setup] by (auto simp: sample_ports_def)
  obtain B a as where W: "length (kports s0) = 2" "sys_inv 2 sample_sizes B s0" "\<forall>k < 2. new_port_ok sample_sizes (kp (kports s0 ! k))"
    "buffer_size (params (spool s0)) = 4096" "ring_content (umem_fq (kp (kports s0 ! 0))) = a # as" "buf_of (spool s0) a < 192"
    using wide_start[of 0] s0(1) by auto
  obtain a' as' where W': "ring_content (umem_fq (kp (kports s0 ! 1))) = a' # as'" "buf_of (spool s0) a' < 192"
    using wide_start[of 1] s0(1) by auto
  let ?e = "packet_start s0 0 []" and ?x = "Thread_Run.entry (desc_addr (sample_desc (buf_of (spool s0) a) 34), desc_len (sample_desc (buf_of (spool s0) a) 34))"
    and ?y = "Thread_Run.entry (desc_addr (sample_desc (buf_of (spool s0) a') 34), desc_len (sample_desc (buf_of (spool s0) a') 34))"
  have e: "em (started s0 ?e) = ?e" "epool ?e = spool s0" "eports ?e = map kp (kports s0)"
    by (simp_all add: started_def packet_start_def sample_start_def)
  have rx: "ring_content (rxq (kp (kports s0 ! k))) = []" if "k < 2" for k using W(3) that by (simp add: new_port_ok_def)
  have buf: "desc_addr (sample_desc b 34) = of_nat (b * 4096 + 256)" "unat (desc_addr (sample_desc b 34)) = b * 4096 + 256" if "b < 192" for b
    using desc_at[OF that] by (simp_all only: sample_desc_def xdp_desc.simps)
  have n0: "n_slabs_available (spool s0) \<noteq> 0" using s0(2) by auto
  note inv = started_inv[OF W(2) packet_starts[of s0 0 "[]"]]
  obtain s1 where s1: "(emu_step sample_sizes)\<^sup>*\<^sup>* (started s0 ?e) s1" "queue_at (local_per_dest_queue (em s1)) 0 1 [?x]"
    "\<forall>j. j \<noteq> 0 \<longrightarrow> eports (em s1) ! j = eports ?e ! j" "length (eports (em s1)) = 2" "params (epool (em s1)) = params (spool s0)"
    "umem (em s1) = umem ?e" "n_slabs_available (epool (em s1)) = n_slabs_available (spool s0) \<or> n_slabs_available (epool (em s1)) = n_slabs_available (spool s0) - 1"
    using one_more_queued[OF inv, of 0 a as "sample_desc (buf_of (spool s0) a) 34" 1 "[]"] W(1,5) rx[of 0] n0 buf(2)[OF W(6)] packet_start_facts(4)[of s0 0 "[]"]
    unfolding e by (auto simp: buf_of_def[of _ "desc_addr d" for d] W(4))
  have inv1: "emu_inv 2 sample_sizes B s1" by (rule emulator.keeps_inv[OF s1(1) inv])
  have at: "eports (em s1) ! 1 = kp (kports s0 ! 1)" using s1(3) W(1) by (simp add: e(3))
  have slabs: "n_slabs_available (epool (em s1)) \<noteq> 0" using s1(7) s0(2) by (auto simp: word_unat_eq_iff unat_sub_if')
  have same: "buf_of (epool (em s1)) = buf_of (spool s0)" by (rule buf_of_cong[OF s1(5)])
  obtain s2 where s2: "(emu_step sample_sizes)\<^sup>*\<^sup>* s1 s2" "queue_at (local_per_dest_queue (em s2)) 0 1 [?x, ?y]"
    "params (epool (em s2)) = params (spool s0)" "umem (em s2) = umem ?e"
    using one_more_queued[OF inv1, of 1 a' as' "sample_desc (buf_of (spool s0) a') 34" 1 "[?x]"] W' rx[of 1] slabs buf(2)[OF W'(2)] s1(2,4,5,6)
    unfolding at same by (auto simp: buf_of_def[of _ "desc_addr d" for d] W(4))
  have len: "length (umem ?e) = 786432" by (simp add: packet_start_facts(6))
  have "frame_at (Thread_Run.entry (desc_addr d, l)) = unat (desc_addr d)" for d :: xdp_desc and l by (simp add: frame_at_def Thread_Run.entry_def)
  then have f: "frame_at ?x mod 4096 = 256 \<and> tx_len ?x = 34" "frame_at ?y mod 4096 = 256 \<and> tx_len ?y = 34"
    by (simp_all only: buf(2)[OF W(6)] buf(2)[OF W'(2)]) (simp_all add: Thread_Run.entry_def sample_desc_def)
  have st: "(emu_step sample_sizes)\<^sup>*\<^sup>* (started s0 ?e) s2" using s1(1) s2(1) by (rule rtranclp_trans)
  show ?thesis
    by (rule exI[of _ s0], rule exI[of _ s2], rule exI[of _ ?x], rule exI[of _ ?y]) (use s0(1) st s2(2-4) f W(4) len in simp)
qed

text \<open>Property C3: from the start on, after any sequence of receive bursts, transmit bursts, dropped
  packets, pushes, pulls and actions of the kernel, each done as a whole, every packet buffer is
  in exactly one place: the pool, a port's cache, a ring, the kernel's hands, a queue between
  threads, a thread's hand, or lost by a thread that went on to the next packet without giving
  it back; beside these, only the buffers of one slab for each port, given away when the port
  was created, are missing. That each operation is done as a whole is an assumption on the
  schedule, which the code does not enforce: the receiving and the sending thread of a port
  use its cache without a lock, and inside each other's operations they break this account
  (the property on the shared cache).\<close>
theorem emulator_conserves_buffers:
  assumes "good_setup z env ps cfg es ns" "start_system env ps cfg es = Inr (Some s0)" "starts s0 e" "(emu_step z)\<^sup>*\<^sup>* (started s0 e) s"
  shows "\<exists>L. size L = length es * 2 ^ fq_bits z \<and>
    image_mset (buf_of (epool (em s))) (pooled (epool (em s)) (map bc (eports (em s))) +
      (\<Sum>k \<leftarrow> map2 kport_of (eports (em s)) (kheld s). port_bufs k) + (queued (em s) + lost s + hand s)) + L = mset [0..<ns * 2 ^ fq_bits z]"
proof -
  obtain B L where B: "emu_inv (ns - 2 * length es) z B s" "B + L = mset [0..<ns * 2 ^ fq_bits z]" "size L = length es * 2 ^ fq_bits z"
    using running[OF assms] by blast
  have "map bc (map kp (kports (view s))) = caches (view s)" by (simp add: caches_def comp_def)
  then have "map bc (eports (em s)) = caches (view s)" using view_ports(2)[of s] B(1) by (simp only: emu_inv_def)
  then have "owned (view s) = pooled (epool (em s)) (map bc (eports (em s))) +
      (\<Sum>k \<leftarrow> map2 kport_of (eports (em s)) (kheld s). port_bufs k) + (queued (em s) + lost s + hand s)"
    by (simp add: owned_def) (simp add: view_def)
  then show ?thesis using B(2,3) by (intro exI[of _ L]) (simp only: emu_inv_owned[OF B(1), symmetric])
qed

theorem emulator_conserves_buffers_witness:
  "\<exists>s0 s x y L. start_system sample_env wide_params sample_cfg sample_ports = Inr (Some s0) \<and>
    (emu_step sample_sizes)\<^sup>*\<^sup>* (started s0 (packet_start s0 0 [])) s \<and> queue_at (local_per_dest_queue (em s)) 0 1 [x, y] \<and> size L = 64 \<and>
    image_mset (buf_of (epool (em s))) (pooled (epool (em s)) (map bc (eports (em s))) +
      (\<Sum>k \<leftarrow> map2 kport_of (eports (em s)) (kheld s). port_bufs k) + (queued (em s) + lost s + hand s)) + L = mset [0..<192]"
proof -
  obtain s0 s x y where S: "start_system sample_env wide_params sample_cfg sample_ports = Inr (Some s0)"
    "(emu_step sample_sizes)\<^sup>*\<^sup>* (started s0 (packet_start s0 0 [])) s" "queue_at (local_per_dest_queue (em s)) 0 1 [x, y]"
    using sample_two_queued by blast
  have n: "6 * 2 ^ fq_bits sample_sizes = (192 :: nat)" "length sample_ports * 2 ^ fq_bits sample_sizes = 64"
    by (simp_all add: sample_sizes_def sample_ports_def)
  from emulator_conserves_buffers[OF wide_setup S(1) packet_starts S(2), unfolded n] S show ?thesis by blast
qed

text \<open>Property C34: in every state of the running emulator the entries of a queue are packets in different
  buffers. If moreover (a hypothesis) every frame of the queue lies in its buffer, with room for
  the headers that are to be added, and the packet area has the size of the pool, then the
  frames do not overlap and lie in the packet area, which is what draining a queue relies on.\<close>
theorem queued_frames_apart:
  assumes "good_setup z env ps cfg es ns" "start_system env ps cfg es = Inr (Some s0)" "starts s0 e" "(emu_step z)\<^sup>*\<^sup>* (started s0 e) s"
    and i: "i < length (queues_of k (em s))" and xs: "xs = q_content (queues_of k (em s) ! i)"
  shows "distinct (map (buf_of (epool (em s)) \<circ> tx_addr) xs) \<and>
    ((\<forall>x \<in> set xs. fits_buffer (epool (em s)) sp x) \<longrightarrow>
     ns * 2 ^ fq_bits z * unat (buffer_size (params (epool (em s)))) \<le> length (umem (em s)) \<longrightarrow>
     frames_in sp (length (umem (em s))) xs)"
proof -
  let ?n = "ns * 2 ^ fq_bits z"
  obtain m B L where B: "emu_inv m z B s" "B + L = mset [0..<?n]" using running[OF assms(1-4)] by blast
  then have sub: "B \<subseteq># mset [0..<?n]" by (metis mset_subset_eq_add_left)
  have "queues_of k (em s) ! i \<in> set (queues_of k (em s))" using i by simp
  note own = queue_owned[OF this, folded xs]
  show ?thesis using owned_distinct[OF B(1) sub own] owned_apart[OF B(1) sub own] by blast
qed

theorem queued_frames_apart_witness:
  "\<exists>s0 s x y. start_system sample_env wide_params sample_cfg sample_ports = Inr (Some s0) \<and>
    (emu_step sample_sizes)\<^sup>*\<^sup>* (started s0 (packet_start s0 0 [])) s \<and> queue_at (local_per_dest_queue (em s)) 0 1 [x, y] \<and>
    buf_of (epool (em s)) (tx_addr x) \<noteq> buf_of (epool (em s)) (tx_addr y) \<and> apart local_span x y"
proof -
  obtain s0 s x y where S: "start_system sample_env wide_params sample_cfg sample_ports = Inr (Some s0)"
    "(emu_step sample_sizes)\<^sup>*\<^sup>* (started s0 (packet_start s0 0 [])) s" and q: "queue_at (local_per_dest_queue (em s)) 0 1 [x, y]"
    and F: "frame_at x mod 4096 = 256" "tx_len x = 34" "frame_at y mod 4096 = 256" "tx_len y = 34"
    "buffer_size (params (epool (em s))) = 4096" "length (umem (em s)) = 786432"
    using sample_two_queued by blast
  have c: "q_content (local_per_dest_queue (em s) ! 0) = [x, y]" and l: "0 < length (local_per_dest_queue (em s))"
    using q q_content_holds[of "local_per_dest_queue (em s) ! 0" 1 "[x, y]"] by (simp_all add: queue_at_def)
  from queued_frames_apart[OF wide_setup S(1) packet_starts S(2), of 0 Local_Dest _ local_span, OF _ refl] l F
  have "buf_of (epool (em s)) (tx_addr x) \<noteq> buf_of (epool (em s)) (tx_addr y) \<and> frames_in local_span 786432 [x, y]"
    by (simp add: fits_buffer_def local_span_def sample_sizes_def c)
  then show ?thesis using S q by (auto simp: frames_in_def)
qed

end
