(* ===== verification/Node_Deliver.thy ===== *)
theory Node_Deliver
  imports Node_Run
begin

text \<open>
  The other way through a node: from the network's receive ring, through the queue of a namespace,
  to the namespace's transmit ring (\<open>thread_func_nic\<close> and \<open>thread_func_nic_to_veth_tx\<close> of
  \<open>opera-v2/thread_functions_1.h\<close> together with the ports).
\<close>

section \<open>Draining a namespace's queue\<close>

lemma work_veth_all:
  assumes "0 \<le> buff_track (veth_log e)" "buff_track (veth_log e) + int (length xs) \<le> TELEMETRY_SIZE"
  shows "\<exists>l. work_all work_veth n xs e = Inr (e\<lparr>veth_log := l\<rparr>, map (\<lambda>x. (tx_addr x, tx_len x)) xs)"
  using assms
proof (induction xs arbitrary: e n)
  case Nil
  then show ?case by (auto intro!: exI[of _ "veth_log e"])
next
  case (Cons x xs)
  let ?k = "buff_track (veth_log e)"
  let ?l = "(veth_log e)\<lparr>buff := (buff (veth_log e))(?k := int n), buff_time := (buff_time (veth_log e))(?k := now e), buff_track := ?k + 1\<rparr>"
  have "work_veth n x e = Inr (e\<lparr>veth_log := ?l\<rparr>, (tx_addr x, tx_len x))"
    using Cons.prems by (simp add: work_simps)
  with Cons.IH[of "e\<lparr>veth_log := ?l\<rparr>" "n - 1"] Cons.prems show ?case by auto
qed

lemma drain_veth_run:
  assumes "queue_at (veth_side_queue e) i k xs" "k \<le> 30" "length xs \<le> MAX_BURST_TX"
    and "0 \<le> buff_track (veth_log e)" "buff_track (veth_log e) + int MAX_BURST_TX \<le> TELEMETRY_SIZE"
  shows "\<exists>q l. drain_veth i (e, []) = Some (Inr (e\<lparr>veth_log := l, veth_side_queue := (veth_side_queue e)[i := q]\<rparr>,
      map (\<lambda>x. (tx_addr x, tx_len x)) xs)) \<and> holds q k []"
proof -
  have i: "i < length (veth_side_queue e)" "holds (veth_side_queue e ! i) k xs" using assms(1) by (simp_all add: queue_at_def)
  have "buff_track (veth_log e) + int (length xs) \<le> TELEMETRY_SIZE" using assms(3,5) by linarith
  from work_veth_all[OF assms(4) this, of "length xs"] obtain l where
    "work_all work_veth (length xs) (take (MAX_BURST_TX - length ([] :: pkt list)) xs) e = Inr (e\<lparr>veth_log := l\<rparr>, map (\<lambda>x. (tx_addr x, tx_len x)) xs)"
    using assms(3) by auto
  from from_veth.drained[OF i(1) assms(2) i(2) this] put_veth_id[OF i(1)] assms(3) obtain q where
    "holds q k []" "drain_veth i (e, []) = Some (Inr (put_veth i (e\<lparr>veth_log := l\<rparr>) q, map (\<lambda>x. (tx_addr x, tx_len x)) xs))" by auto
  then show ?thesis by (intro exI[of _ q] exI[of _ l]) (simp add: put_veth_def)
qed

section \<open>Packets for a namespace\<close>

text \<open>
  Packet \<open>b\<close>, in area \<open>m\<close>, is an emulator packet for the node with address \<open>ip\<close> and for the
  namespace whose queue is \<open>j\<close>.
\<close>

definition for_namespace :: "u8 list \<Rightarrow> u32 \<Rightarrow> thread_data \<Rightarrow> int \<Rightarrow> pkt \<Rightarrow> nat \<Rightarrow> bool" where
  "for_namespace m ip t n b j \<longleftrightarrow> our_packet m (unat (fst b)) \<and> addr_at m (unat (fst b) + 30) = ip \<and> 41 < unat (snd b) \<and>
     (\<exists>v. sint (m ! (unat (fst b) + 73)) = int v + 2 \<and> int v < n \<and> v < VETH_QUEUES \<and>
       v < length (veth_side_queue_array t) \<and> veth_side_queue_array t ! v = Some j)"

lemma for_namespace_cong:
  assumes "unat (fst b) + 74 \<le> length m" "length m' = length m" "slice m' (unat (fst b)) 74 = slice m (unat (fst b)) 74"
  shows "for_namespace m' ip t n b j = for_namespace m ip t n b j"
proof -
  have at: "m' ! (unat (fst b) + i) = m ! (unat (fst b) + i)" if "i < 74" for i
    using arg_cong[OF assms(3), of "\<lambda>s. s ! i"] that assms(1,2) by simp
  have "slice m' (unat (fst b) + i) 2 = slice m (unat (fst b) + i) 2" if "i < 73" for i
    using at[of i] at[of "i + 1"] that assms(1,2) by (simp add: slice_2 add.assoc)
  then have "our_packet m' (unat (fst b)) = our_packet m (unat (fst b))" using at[of 23] by (simp add: our_packet_def)
  moreover have "addr_at m' (unat (fst b) + 30) = addr_at m (unat (fst b) + 30)"
    using at[of 30] at[of 31] at[of 32] at[of 33] by (simp add: addr_at_def add.commute)
  ultimately show ?thesis using at[of 73] by (simp add: for_namespace_def)
qed

text \<open>Its frame, and what is left of it.\<close>

definition inner_span :: "burst_tx \<Rightarrow> nat" where
  "inner_span x = max (unat (tx_len x)) 74"

definition inner_frame :: "burst_tx \<Rightarrow> u8 list \<Rightarrow> u8 list" where
  "inner_frame x bs = take (unat (tx_len x) - 40) (drop 40 bs)"

lemma inner_slice:
  "frame_at x + inner_span x \<le> length m \<Longrightarrow> 40 \<le> unat (tx_len x) \<Longrightarrow>
    inner_frame x (slice m (frame_at x) (inner_span x)) = slice m (frame_at x + 40) (unat (tx_len x) - 40)"
  by (rule nth_equalityI) (auto simp: inner_frame_def inner_span_def add.assoc)

lemma frames_in_inner: "frames_in inner_span l xs \<Longrightarrow> frames_ok inner_frame inner_span l xs"
  by (simp add: frames_in_def frames_ok_def inner_frame_def) (auto simp: inner_span_def le_max_iff_disj)

lemma inner_delivered:
  assumes "frames_in inner_span (length m) xs" "x \<in> set xs" "40 \<le> unat (tx_len x)"
  shows "slice (rewrite_frames inner_frame inner_span xs m) (frame_at x) (unat (tx_len x) - 40) = slice m (frame_at x + 40) (unat (tx_len x) - 40)"
proof -
  have f: "frame_at x + inner_span x \<le> length m" using assms(1,2) unfolding frames_in_def by blast
  then have "frame_at x + 40 + (unat (tx_len x) - 40) \<le> length m" using assms(3) by (simp add: inner_span_def)
  with rewrite_frames_at[OF frames_in_inner[OF assms(1)] assms(2)] show ?thesis unfolding inner_slice[OF f assms(3)] by simp
qed

text \<open>A burst of packets for one namespace enters its queue, each stripped of its outer headers.\<close>

definition inner_entry :: "burst_tx \<Rightarrow> burst_tx" where
  "inner_entry x = nic_entry (tx_addr x) (tx_len x - 40)"

lemma nic_rx_packets_one:
  assumes "nic_port pi e" "length (umem e) < 2 ^ 31" "frames_in inner_span (length (umem e)) (map Thread_Run.entry pkts)"
    and "\<forall>b \<in> set pkts. for_namespace (umem e) (src_ip (enet e)) t n b j"
    and "queue_at (veth_side_queue e) j k xs" "length xs + length pkts \<le> 2 ^ k"
  shows "\<exists>q rv'. nic_rx_packets copy_bytes t n pi (map (Pair True) pkts) (e, rv) =
      Some (Inr (e\<lparr>umem := rewrite_frames inner_frame inner_span (map Thread_Run.entry pkts) (umem e),
        veth_side_queue := (veth_side_queue e)[j := q]\<rparr>, rv')) \<and>
    holds q k (xs @ map (inner_entry \<circ> Thread_Run.entry) pkts)"
  using assms
proof (induction pkts arbitrary: e xs rv)
  case Nil
  then show ?case by (intro exI[of _ "veth_side_queue e ! j"] exI[of _ rv]) (simp add: queue_at_def)
next
  case (Cons b bs)
  let ?x = "Thread_Run.entry b" and ?a = "unat (fst b)" and ?l = "unat (snd b)"
  have x: "frame_at ?x = ?a" "unat (tx_len ?x) = ?l" by (simp_all add: frame_at_def Thread_Run.entry_def)
  have fr: "frame_at ?x + inner_span ?x \<le> length (umem e)" using Cons.prems(3) by (simp add: frames_in_def)
  then have in': "?a + 74 \<le> length (umem e)" "?a + ?l \<le> length (umem e)" by (simp_all add: x inner_span_def)
  have "for_namespace (umem e) (src_ip (enet e)) t n b j" using Cons.prems(4) by simp
  then obtain v where v: "our_packet (umem e) ?a" "addr_at (umem e) (?a + 30) = src_ip (enet e)" "41 < ?l"
    "sint (umem e ! (?a + 73)) = int v + 2" "int v < n" "v < VETH_QUEUES" "v < length (veth_side_queue_array t)"
    "veth_side_queue_array t ! v = Some j" by (auto simp: for_namespace_def)
  let ?m = "splice (umem e) ?a (slice (umem e) (?a + 40) (?l - 40))" and ?rv = "rv\<lparr>which_veth := int v, new_len := int ?l - 40\<rparr>"
  have g: "inner_frame ?x (slice (umem e) (frame_at ?x) (inner_span ?x)) = slice (umem e) (?a + 40) (?l - 40)"
    using inner_slice[OF fr] v(3) by (simp add: x)
  note p = nic_rx_packet_local[OF Cons.prems(1) refl in' Cons.prems(2) v, of rv]
  have len: "word_of_int (new_len ?rv) = snd b - 40" by simp
  have room: "length xs < 2 ^ k" using Cons.prems(6) by simp
  obtain q' where q': "push_to (veth_side_queue e) j (inner_entry ?x) = Some (Inr (1, (veth_side_queue e)[j := q']))"
    "queue_at ((veth_side_queue e)[j := q']) j k (xs @ [inner_entry ?x])" using push_to_room[OF Cons.prems(5) room] by blast
  let ?e = "e\<lparr>umem := ?m, veth_side_queue := (veth_side_queue e)[j := q']\<rparr>"
  have one: "nic_rx_packet copy_bytes t n pi True b (e, rv) = Some (Inr (?e, ?rv))"
    unfolding p using q'(1) len by (simp add: enter_veth_def inner_entry_def Thread_Run.entry_def)
  have ml: "length ?m = length (umem e)" using in' v(3) by simp
  have rest: "for_namespace ?m (src_ip (enet e)) t n c j" if "c \<in> set bs" for c
  proof -
    have "apart inner_span ?x (Thread_Run.entry c)" "frame_at (Thread_Run.entry c) + inner_span (Thread_Run.entry c) \<le> length (umem e)"
      using Cons.prems(3) that by (auto simp: frames_in_def)
    then have c: "?a + ?l \<le> unat (fst c) \<or> unat (fst c) + 74 \<le> ?a" "unat (fst c) + 74 \<le> length (umem e)"
      by (auto simp: apart_def frame_at_def Thread_Run.entry_def inner_span_def)
    have "slice ?m (unat (fst c)) 74 = slice (umem e) (unat (fst c)) 74"
      by (rule slice_splice_apart) (use c in' v(3) in \<open>auto\<close>)
    from for_namespace_cong[OF c(2) ml this] Cons.prems(4) that show ?thesis by simp
  qed
  have np: "nic_port pi ?e" using Cons.prems(1) by (simp add: nic_port_def)
  have "frames_in inner_span (length (umem ?e)) (map Thread_Run.entry bs)" using Cons.prems(3) ml by (simp add: frames_in_def)
  moreover have "length (umem ?e) < 2 ^ 31" "\<forall>c \<in> set bs. for_namespace (umem ?e) (src_ip (enet ?e)) t n c j"
    "queue_at (veth_side_queue ?e) j k (xs @ [inner_entry ?x])" "length (xs @ [inner_entry ?x]) + length bs \<le> 2 ^ k"
    using rest q'(2) Cons.prems(2,6) ml by simp_all
  ultimately obtain q rv' where
    "nic_rx_packets copy_bytes t n pi (map (Pair True) bs) (?e, ?rv) =
      Some (Inr (?e\<lparr>umem := rewrite_frames inner_frame inner_span (map Thread_Run.entry bs) (umem ?e),
        veth_side_queue := (veth_side_queue ?e)[j := q]\<rparr>, rv'))"
    "holds q k ((xs @ [inner_entry ?x]) @ map (inner_entry \<circ> Thread_Run.entry) bs)" using Cons.IH[OF np, where rv = ?rv] by blast
  then show ?case using one g by (intro exI[of _ q] exI[of _ rv']) (simp add: x comp_def)
qed

text \<open>What a node reads from a packet does not depend on where in the area it lies.\<close>

lemma our_packet_placed:
  assumes "a + length bs \<le> length m" "74 \<le> length bs"
  shows "our_packet (splice m a bs) a = our_packet bs 0" "addr_at (splice m a bs) (a + 30) = addr_at bs 30"
    "addr_at (splice m a bs) (a + 70) = addr_at bs 70" "splice m a bs ! (a + 73) = bs ! 73"
  using assms(2) region_slice[OF assms(1), of 12 2] region_slice[OF assms(1), of 36 2] region_slice[OF assms(1), of 52 2]
    nth_splice[OF assms(1), of 23] nth_splice[OF assms(1), of 73] region_addr[OF assms(1), of 30] region_addr[OF assms(1), of 70]
  by (simp_all add: our_packet_def)

section \<open>Sending one namespace's queue\<close>

lemma veth_queue_sent:
  assumes inv: "emu_inv m z B s" and e: "e = (em s)\<lparr>umem := mm, veth_side_queue := qs\<rparr>"
    and queue: "queue_at qs j n xs" "n \<le> 30" "length xs \<le> MAX_BURST_TX"
    and tx: "arr_get (veth_side_queue_array t) 0 = Inr (Some j)" "port_at (ports_tx t) 0 = Inr pj"
      "pj < length (eports (em s))" "length (ring_content (txq (eports (em s) ! pj))) + length xs \<le> 2 ^ tx_bits z"
    and log: "0 \<le> buff_track (veth_log (em s))" "buff_track (veth_log (em s)) + int MAX_BURST_TX \<le> TELEMETRY_SIZE"
  shows "\<exists>e3 ys ds. thread_func_nic_to_veth_tx_pass t ks e = Some (Inr e3) \<and> umem e3 = mm \<and>
    ring_content (txq (eports (em s) ! pj)) @ ds = ys @ ring_content (txq (eports e3 ! pj)) \<and>
    map (\<lambda>d. (desc_addr d, desc_len d)) ds = map (\<lambda>x. (tx_addr x, tx_len x)) xs"
proof -
  let ?b = "map (\<lambda>x. (tx_addr x, tx_len x)) xs"
  have j: "j < length (veth_side_queue e)" using queue(1) by (simp add: queue_at_def e)
  have qa: "queue_at (veth_side_queue e) j n xs" and lg: "0 \<le> buff_track (veth_log e)" "buff_track (veth_log e) + int MAX_BURST_TX \<le> TELEMETRY_SIZE"
    using queue(1) log by (simp_all add: e)
  obtain q l where d: "drain_veth j (e, []) = Some (Inr (e\<lparr>veth_log := l, veth_side_queue := (veth_side_queue e)[j := q]\<rparr>, ?b))"
    (is "_ = Some (Inr (?e, _))") using drain_veth_run[OF qa queue(2,3) lg] by blast
  have b: "length ?b \<le> MAX_BURST_TX" "length (ring_content (txq (eports (em s) ! pj))) + length ?b \<le> 2 ^ tx_bits z"
    using queue(3) tx(4) by simp_all
  have "epool ?e = epool (em s)" "eports ?e = eports (em s)" by (simp_all add: e)
  from burst_sent[OF inv tx(3) b this, of ks] obtain bp ps ys ds where
    r: "emu_tx_burst pj ?b ks ?e = Some (Inr (?e\<lparr>epool := bp, eports := ps\<rparr>))"
    "ring_content (txq (eports (em s) ! pj)) @ ds = ys @ ring_content (txq (ps ! pj))" "map (\<lambda>d. (desc_addr d, desc_len d)) ds = ?b" by blast
  let ?e3 = "?e\<lparr>epool := bp, eports := ps\<rparr>"
  have "thread_func_nic_to_veth_tx_pass t ks e = Some (Inr ?e3)"
    using j d r(1) by (simp add: thread_func_nic_to_veth_tx_pass_def tx(1,2))
  moreover have "umem ?e3 = mm" "eports ?e3 = ps" by (simp_all add: e)
  ultimately show ?thesis using r(2,3) by (intro exI[of _ ?e3] exI[of _ ys] exI[of _ ds]) (simp only:)
qed

section \<open>Properties\<close>

text \<open>Property C7: a burst that the network sends to one namespace of this node crosses the node: the
  receiving thread's step for the port strips the outer headers and puts the packets into the
  namespace's queue, and the pass of the namespace's thread appends exactly these packets, in
  order, to the namespace's transmit ring, each 40 bytes shorter and with the bytes it had
  behind the outer headers. What else the emulator and the kernel have done before does not
  matter.\<close>
theorem network_to_namespace:
  assumes run: "good_setup z env ps cfg es ns" "start_system env ps cfg es = Inr (Some s0)" "starts s0 e0" "(emu_step z)\<^sup>*\<^sup>* (started s0 e0) s"
    and rx: "port_at (ports_rx t) c = Inr pi" "emu_rx_burst pi (kernel k) (em s) = Some (Inr (pkts, e1))" "allocs k = (\<lambda>_. True)"
      "nic_port pi (em s)"
    and dest: "\<forall>b \<in> set pkts. for_namespace (umem (em s)) (src_ip (enet (em s))) t nv b j"
    and queue: "queue_at (veth_side_queue (em s)) j n []" "n \<le> 30" "length pkts \<le> 2 ^ n"
    and tx: "arr_get (veth_side_queue_array t') 0 = Inr (Some j)" "port_at (ports_tx t') 0 = Inr pj"
      "pj < length (eports (em s))" "length (ring_content (txq (eports (em s) ! pj))) + length pkts \<le> 2 ^ tx_bits z"
    and fit: "\<forall>b \<in> set pkts. fits_buffer (epool (em s)) inner_span (Thread_Run.entry b)"
    and area: "ns * 2 ^ fq_bits z * unat (buffer_size (params (epool (em s)))) \<le> length (umem (em s))" "length (umem (em s)) < 2 ^ 31"
    and log: "0 \<le> buff_track (veth_log (em s))" "buff_track (veth_log (em s)) + int MAX_BURST_TX \<le> TELEMETRY_SIZE"
  shows "\<exists>e2 rv' e3 ys ds. nic_rx_port copy_bytes t nv c k (em s, rv) = Some (Inr (e2, rv')) \<and>
    thread_func_nic_to_veth_tx_pass t' ks e2 = Some (Inr e3) \<and>
    pkts = map (\<lambda>d. (desc_addr d, desc_len d)) (take (length pkts) (ring_content (rxq (eports (em s) ! pi)))) \<and>
    ring_content (txq (eports (em s) ! pj)) @ ds = ys @ ring_content (txq (eports e3 ! pj)) \<and>
    map (\<lambda>d. (desc_addr d, desc_len d)) ds = map (\<lambda>b. (fst b, snd b - 40)) pkts \<and>
    (\<forall>b \<in> set pkts. slice (umem e3) (unat (fst b)) (unat (snd b) - 40) = slice (umem (em s)) (unat (fst b) + 40) (unat (snd b) - 40))"
proof -
  let ?xs = "map Thread_Run.entry pkts" and ?ys = "map (inner_entry \<circ> Thread_Run.entry) pkts"
  obtain m B s1 bp p where S: "emu_inv m z B s1" "B \<subseteq># mset [0..<ns * 2 ^ fq_bits z]" "em s1 = e1" "mset (map tx_addr ?xs) \<subseteq># owned (view s1)"
    and e1: "e1 = (em s)\<lparr>epool := bp, eports := (eports (em s))[pi := p]\<rparr>" "params bp = params (epool (em s))"
    and txq: "\<forall>j < length (eports (em s)). txq (eports e1 ! j) = txq (eports (em s) ! j)"
    and pp: "pparams p = pparams (eports (em s) ! pi)" and len: "length pkts \<le> MAX_BURST_TX"
    and order: "pkts = map (\<lambda>d. (desc_addr d, desc_len d)) (take (length pkts) (ring_content (rxq (eports (em s) ! pi))))"
    by (rule received[OF run rx(2)]) blast
  have fits: "\<forall>x \<in> set ?xs. fits_buffer (epool (em s1)) inner_span x" using fit e1(2) unfolding S(3) by (simp add: e1(1) fits_buffer_def)
  have "ns * 2 ^ fq_bits z * unat (buffer_size (params (epool (em s1)))) \<le> length (umem (em s1))" using area(1) e1(2) unfolding S(3) by (simp add: e1(1))
  from owned_apart[where xs = ?xs and sp = inner_span, OF S(1,2,4) fits this, THEN conjunct2]
  have frames: "frames_in inner_span (length (umem e1)) ?xs" unfolding S(3) .
  have e1': "nic_port pi e1" "length (umem e1) < 2 ^ 31" "\<forall>b \<in> set pkts. for_namespace (umem e1) (src_ip (enet e1)) t nv b j"
    "queue_at (veth_side_queue e1) j n []" "length ([] :: burst_tx list) + length pkts \<le> 2 ^ n"
    using rx(4) dest queue(1,3) area(2) pp by (simp_all add: e1(1) nic_port_def)
  obtain q rv' where q: "nic_rx_packets copy_bytes t nv pi (map (Pair True) pkts) (e1, rv\<lparr>new_len := 0, ring_buf_index := 0\<rparr>) =
      Some (Inr (e1\<lparr>umem := rewrite_frames inner_frame inner_span ?xs (umem e1), veth_side_queue := (veth_side_queue e1)[j := q]\<rparr>, rv'))"
    "holds q n ([] @ ?ys)" using nic_rx_packets_one[OF e1'(1,2) frames e1'(3-5)] by blast
  let ?e2 = "e1\<lparr>umem := rewrite_frames inner_frame inner_span ?xs (umem e1), veth_side_queue := (veth_side_queue e1)[j := q]\<rparr>"
  have pass: "nic_rx_port copy_bytes t nv c k (em s, rv) = Some (Inr (?e2, rv'))"
    by (simp add: nic_rx_port_def rx(1,2,3) all_allocated q(1))
  have qa: "queue_at ((veth_side_queue e1)[j := q]) j n ?ys" using q(2) e1'(4) by (simp add: queue_at_def)
  have *: "length ?ys \<le> MAX_BURST_TX" "pj < length (eports (em s1))" "length (ring_content (txq (eports (em s1) ! pj))) + length ?ys \<le> 2 ^ tx_bits z"
    "0 \<le> buff_track (veth_log (em s1))" "buff_track (veth_log (em s1)) + int MAX_BURST_TX \<le> TELEMETRY_SIZE"
    using len tx(3,4) log txq[rule_format, OF tx(3)] unfolding S(3) by (simp_all add: e1(1))
  from veth_queue_sent[OF S(1) _ qa queue(2) *(1) tx(1,2) *(2-), of ?e2 "umem ?e2" ks] obtain e3 ys ds where
    sent: "thread_func_nic_to_veth_tx_pass t' ks ?e2 = Some (Inr e3)" "umem e3 = umem ?e2"
    "ring_content (txq (eports (em s) ! pj)) @ ds = ys @ ring_content (txq (eports e3 ! pj))"
    "map (\<lambda>d. (desc_addr d, desc_len d)) ds = map (\<lambda>x. (tx_addr x, tx_len x)) ?ys" unfolding S(3) txq[rule_format, OF tx(3)] by auto
  have "slice (umem e3) (unat (fst b)) (unat (snd b) - 40) = slice (umem (em s)) (unat (fst b) + 40) (unat (snd b) - 40)"
    if "b \<in> set pkts" for b
    using inner_delivered[OF frames, of "Thread_Run.entry b"] that dest sent(2)
    by (auto simp: for_namespace_def frame_at_def Thread_Run.entry_def e1(1))
  moreover have "map (\<lambda>d. (desc_addr d, desc_len d)) ds = map (\<lambda>b. (fst b, snd b - 40)) pkts"
    unfolding sent(4) by (simp add: inner_entry_def nic_entry_def Thread_Run.entry_def)
  ultimately show ?thesis using pass sent(1,3) order by blast
qed

theorem network_to_namespace_witness:
  "\<exists>s0 s b e2 rv' e3. start_system sample_env wide_params sample_cfg sample_ports = Inr (Some s0) \<and>
    (emu_step sample_sizes)\<^sup>*\<^sup>* (started s0 (packet_start s0 b sample_gre)) s \<and>
    nic_rx_port copy_bytes sample_thread 1 0 \<lparr>kernel = [], allocs = (\<lambda>_. True)\<rparr> (em s, sample_rv) = Some (Inr (e2, rv')) \<and>
    thread_func_nic_to_veth_tx_pass (sample_thread\<lparr>ports_tx := [Some 1]\<rparr>) [] e2 = Some (Inr e3) \<and>
    slice (umem e3) (b * 4096 + 256) 74 = slice (umem (em s)) (b * 4096 + 296) 74"
proof -
  obtain s0 s b e1 where s0: "start_system sample_env wide_params sample_cfg sample_ports = Inr (Some s0)" "b < 192"
    "(emu_step sample_sizes)\<^sup>*\<^sup>* (started s0 (packet_start s0 b sample_gre)) s"
    "sample_delivery 0 (packet_start s0 b sample_gre) (sample_desc b 114) (em s) e1" using packet_delivery[of 0 sample_gre 114] by auto
  let ?a = "b * 4096 + 256" and ?e = "packet_start s0 b sample_gre"
  let ?pkts = "[(of_nat ?a :: u64, 114 :: u32)]" and ?t = "sample_thread\<lparr>ports_tx := [Some 1]\<rparr>" and ?k = "\<lparr>kernel = [] :: nat list, allocs = (\<lambda>_ :: nat. True)\<rparr>"
  note a = desc_at[OF s0(2)] and F = packet_start_facts[of s0 b sample_gre]
  obtain ps where em: "em s = ?e\<lparr>eports := ps\<rparr>" "length ps = 2" "iface (pparams (ps ! 0)) = ''nic''" "ring_content (txq (ps ! 1)) = []"
      "buffer_size (params (epool (em s))) = 4096"
    and rx: "emu_rx_burst 0 (kernel ?k) (em s) = Some (Inr (?pkts, e1))"
    using s0(4) by (auto simp: sample_delivery_def sample_ports_def sample_desc_def)
  have u: "umem (em s) = splice (replicate 786432 0) ?a sample_gre" by (simp add: em(1) F(6))
  have fits: "?a + length sample_gre \<le> length (replicate 786432 (0 :: u8))" using s0(2) sample_gre_facts(1) by simp
  have len: "length (umem (em s)) = 786432" unfolding u using fits by simp
  have l74: "74 \<le> length sample_gre" by (simp add: sample_gre_facts(1))
  note P = our_packet_placed[OF fits l74, folded u, unfolded sample_gre_facts(2-4)]
  have dest: "\<forall>x \<in> set ?pkts. for_namespace (umem (em s)) (src_ip (enet (em s))) sample_thread 1 x 0"
    using a P sample_gre_facts(2) by (simp add: for_namespace_def F(1) sample_net_src VETH_QUEUES_def sample_thread_def em(1))
  have queue: "queue_at (veth_side_queue (em s)) 0 1 []" "(1 :: nat) \<le> 30" "length ?pkts \<le> 2 ^ 1" using F(5) by (simp_all add: em(1))
  have tx: "arr_get (veth_side_queue_array ?t) 0 = Inr (Some 0)" "port_at (ports_tx ?t) 0 = Inr 1" "1 < length (eports (em s))"
    "length (ring_content (txq (eports (em s) ! 1))) + length ?pkts \<le> 2 ^ tx_bits sample_sizes"
    using em(2,4) by (simp_all add: em(1) sample_sizes_def sample_thread_def port_at_def)
  have at: "frame_at (Thread_Run.entry (of_nat ?a, 114)) = ?a" using a by (simp only: frame_at_def Thread_Run.entry_def burst_tx.simps fst_conv)
  have fit: "\<forall>x \<in> set ?pkts. fits_buffer (epool (em s)) inner_span (Thread_Run.entry x)"
    using at by (simp add: fits_buffer_def em(5) inner_span_def) (simp add: Thread_Run.entry_def)
  have area: "6 * 2 ^ fq_bits sample_sizes * unat (buffer_size (params (epool (em s)))) \<le> length (umem (em s))" "length (umem (em s)) < 2 ^ 31"
    unfolding em(5) len by (simp_all add: sample_sizes_def)
  have log: "0 \<le> buff_track (veth_log (em s))" "buff_track (veth_log (em s)) + int MAX_BURST_TX \<le> TELEMETRY_SIZE"
    by (simp_all add: em(1) F(3) sample_log_def MAX_BURST_TX_def TELEMETRY_SIZE_def)
  have t: "port_at (ports_rx sample_thread) 0 = Inr 0" "allocs ?k = (\<lambda>_. True)" "nic_port 0 (em s)"
    using em(2,3) by (simp_all add: port_at_def sample_thread_def nic_port_def em(1) F(1) sample_net_def)
  from network_to_namespace[OF wide_setup s0(1) packet_starts s0(3) t(1) rx t(2,3) dest queue tx fit area log, of sample_rv "[]"] s0(1,3) a
  show ?thesis by (fastforce simp: add.assoc)
qed

end
