(* ===== verification/Node_Transit.thy ===== *)
theory Node_Transit
  imports Node_Deliver
begin

text \<open>
  The way of packets in transit through a node: from the network's receive ring, through the queue
  of their destination, back to a transmit ring of the network (\<open>thread_func_nic\<close> and
  \<open>thread_func_veth_to_nic_tx\<close> of \<open>opera-v2/thread_functions_1.h\<close> together with the ports).
\<close>

section \<open>Packets in transit\<close>

text \<open>
  Packet \<open>b\<close>, in area \<open>m\<close>, is an emulator packet for another node of the network, whose queue is \<open>i\<close>.
\<close>

definition in_transit :: "u8 list \<Rightarrow> net \<Rightarrow> thread_data \<Rightarrow> pkt \<Rightarrow> nat \<Rightarrow> bool" where
  "in_transit m net t b i \<longleftrightarrow> our_packet m (unat (fst b)) \<and> addr_at m (unat (fst b) + 30) \<noteq> src_ip net \<and>
     (\<exists>q. dest_queue net (network_host (addr_at m (unat (fst b) + 70))) = Some (int q) \<and> q < NUM_OF_PER_DEST_QUEUES \<and>
       q < length (non_local_dest_queue_array t) \<and> non_local_dest_queue_array t ! q = Some i)"

lemma nic_rx_packets_transit:
  assumes "nic_port pi e" "length (umem e) < 2 ^ 48" "\<forall>b \<in> set pkts. unat (fst b) + 74 \<le> length (umem e)"
    and "\<forall>b \<in> set pkts. in_transit (umem e) (enet e) t b i"
    and "queue_at (non_local_per_dest_queue e) i k xs" "length xs + length pkts \<le> 2 ^ k"
  shows "\<exists>q rv'. nic_rx_packets ov t n pi (map (Pair True) pkts) (e, rv) =
      Some (Inr (e\<lparr>non_local_per_dest_queue := (non_local_per_dest_queue e)[i := q]\<rparr>, rv')) \<and>
    holds q k (xs @ map Thread_Run.entry pkts)"
  using assms
proof (induction pkts arbitrary: e xs rv)
  case Nil
  then show ?case by (intro exI[of _ "non_local_per_dest_queue e ! i"] exI[of _ rv]) (simp add: queue_at_def)
next
  case (Cons b bs)
  let ?a = "unat (fst b)"
  have in': "?a + 74 \<le> length (umem e)" using Cons.prems(3) by simp
  then have u: "?a < 2 ^ 48" using Cons.prems(2) by simp
  have "in_transit (umem e) (enet e) t b i" using Cons.prems(4) by simp
  then obtain q where v: "our_packet (umem e) ?a" "addr_at (umem e) (?a + 30) \<noteq> src_ip (enet e)"
    "dest_queue (enet e) (network_host (addr_at (umem e) (?a + 70))) = Some (int q)" "q < NUM_OF_PER_DEST_QUEUES"
    "q < length (non_local_dest_queue_array t)" "non_local_dest_queue_array t ! q = Some i" by (auto simp: in_transit_def)
  let ?rv = "rv\<lparr>ring_buf_index := int q, new_len := 1\<rparr>"
  have p: "nic_rx_packet ov t n pi True b (e, rv) = enter_transit pi i b ?rv e"
    using nic_rx_packet_transit[OF Cons.prems(1) u nic_rx_transit[OF in' v(1-3), of ov "snd b" "fst b" rv] _ _ v(4-6), of n] by simp
  have room: "length xs < 2 ^ k" using Cons.prems(6) by simp
  obtain q' where q': "push_to (non_local_per_dest_queue e) i (Thread_Run.entry b) = Some (Inr (1, (non_local_per_dest_queue e)[i := q']))"
    "queue_at ((non_local_per_dest_queue e)[i := q']) i k (xs @ [Thread_Run.entry b])" using push_to_room[OF Cons.prems(5) room] by blast
  let ?e = "e\<lparr>non_local_per_dest_queue := (non_local_per_dest_queue e)[i := q']\<rparr>"
  have one: "nic_rx_packet ov t n pi True b (e, rv) = Some (Inr (?e, ?rv))"
    unfolding p using q'(1) by (simp add: enter_transit_def nic_entry_def Thread_Run.entry_def)
  have "nic_port pi ?e" "length (umem ?e) < 2 ^ 48" "\<forall>b \<in> set bs. unat (fst b) + 74 \<le> length (umem ?e)"
    "\<forall>b \<in> set bs. in_transit (umem ?e) (enet ?e) t b i" "queue_at (non_local_per_dest_queue ?e) i k (xs @ [Thread_Run.entry b])"
    "length (xs @ [Thread_Run.entry b]) + length bs \<le> 2 ^ k"
    using Cons.prems q'(2) by (simp_all add: nic_port_def)
  from Cons.IH[OF this, of ?rv] one show ?case by auto
qed

text \<open>The bytes behind the outer headers of a frame are apart from the outer headers of every frame.\<close>

lemma frames_pair:
  assumes "frames_in sp l xs" "x \<in> set xs" "y \<in> set xs"
  shows "x = y \<or> apart sp x y"
proof -
  obtain i j where ij: "i < length xs" "j < length xs" "x = xs ! i" "y = xs ! j" using assms(2,3) by (metis in_set_conv_nth)
  have s: "sorted_wrt (apart sp) xs" using assms(1) by (simp add: frames_in_def)
  have "apart sp (xs ! i) (xs ! j)" if "i < j" using sorted_wrt_nth_less[OF s that ij(2)] .
  moreover have "apart sp (xs ! j) (xs ! i)" if "j < i" using sorted_wrt_nth_less[OF s that ij(1)] .
  ultimately show ?thesis using ij(3,4) by (cases i j rule: linorder_cases) (auto simp: apart_def)
qed

lemma payload_apart:
  assumes "frames_in inner_span l xs" "x \<in> set xs"
  shows "frame_at x + 40 + (unat (tx_len x) - 40) \<le> l"
    "\<forall>y \<in> set xs. frame_at x + 40 + (unat (tx_len x) - 40) \<le> frame_at y \<or> frame_at y + 40 \<le> frame_at x + 40"
proof -
  have "frame_at x + inner_span x \<le> l" using assms unfolding frames_in_def by blast
  then show "frame_at x + 40 + (unat (tx_len x) - 40) \<le> l" by (auto simp: inner_span_def)
  have "frame_at x + 40 + (unat (tx_len x) - 40) \<le> frame_at y \<or> frame_at y + 40 \<le> frame_at x + 40" if "y \<in> set xs" for y
    using frames_pair[OF assms(1,2) that] by (auto simp: apart_def inner_span_def)
  then show "\<forall>y \<in> set xs. frame_at x + 40 + (unat (tx_len x) - 40) \<le> frame_at y \<or> frame_at y + 40 \<le> frame_at x + 40" by blast
qed

section \<open>Sending one queue of packets in transit\<close>

lemma transit_queue_sent:
  fixes s :: esys and xs :: "burst_tx list"
  assumes inv: "emu_inv m z B s" "B \<subseteq># mset [0..<N]" and own: "mset (map tx_addr xs) \<subseteq># owned (view s)"
    and e: "e = (em s)\<lparr>non_local_per_dest_queue := qs\<rparr>"
    and queue: "queue_at qs i n xs" "length xs \<le> MAX_BURST_TX"
    and tx: "assigned_queue (non_local_dest_queue_array t) w = Inr (Some i)" "next_mac (enet (em s)) (int w) = Some mac"
      "6 \<le> length (out_eth_src (enet (em s)))"
      "pj < length (eports (em s))" "length (ring_content (txq (eports (em s) ! pj))) + length xs \<le> 2 ^ tx_bits z"
    and fit: "\<forall>x \<in> set xs. fits_buffer (epool (em s)) transit_span x"
    and area: "N * unat (buffer_size (params (epool (em s)))) \<le> length (umem (em s))" "length (umem (em s)) < 2 ^ 48"
  shows "\<exists>e3 ys ds. nic_tx_non_local t pj ks w e = Some (Inr e3) \<and>
    ring_content (txq (eports (em s) ! pj)) @ ds = ys @ ring_content (txq (eports e3 ! pj)) \<and>
    map (\<lambda>d. (desc_addr d, desc_len d)) ds = map (\<lambda>x. (tx_addr x, tx_len x)) xs \<and>
    (\<forall>x \<in> set xs. slice (umem e3) (frame_at x) 40 = transit_header (slice (umem (em s)) (frame_at x) 40) mac (out_eth_src (enet (em s)))
        (network_host (addr_at (umem (em s)) (frame_at x + 70)))) \<and>
    (\<forall>c l. c + l \<le> length (umem (em s)) \<longrightarrow> (\<forall>x \<in> set xs. c + l \<le> frame_at x \<or> frame_at x + 40 \<le> c) \<longrightarrow>
      slice (umem e3) c l = slice (umem (em s)) c l)"
proof -
  have tk: "take MAX_BURST_TX xs = xs" using queue(2) by simp
  have frames: "frames_in transit_span (length (umem e)) (take MAX_BURST_TX xs)"
    using owned_apart[where xs = xs and sp = transit_span, OF inv own fit area(1), THEN conjunct2] unfolding tk by (simp add: e)
  then have small: "\<forall>x \<in> set xs. frame_at x < 2 ^ 48" using area(2) unfolding tk by (auto simp: frames_in_def transit_span_def e)
  have i: "i < length (non_local_per_dest_queue e)" using queue(1) by (simp add: queue_at_def e)
  let ?b = "map (\<lambda>x. (tx_addr x, tx_len x)) xs"
  have e_simps: "queue_at (non_local_per_dest_queue e) i n xs" "next_mac (enet e) (int w) = Some mac" "6 \<le> length (out_eth_src (enet e))"
    using queue(1) tx(2,3) by (simp_all add: e)
  from drain_non_local_run[OF e_simps frames small] obtain q mm where
    d: "drain_non_local (int w) i (e, []) = Some (Inr (e\<lparr>umem := mm,
        non_local_per_dest_queue := (non_local_per_dest_queue e)[i := q]\<rparr>, ?b))" (is "_ = Some (Inr (?e, _))")
    "length mm = length (umem e)" "\<forall>x \<in> set xs. slice mm (frame_at x) 40 =
      transit_header (slice (umem e) (frame_at x) 40) mac (out_eth_src (enet e)) (network_host (addr_at (umem e) (frame_at x + 70)))"
    "\<forall>c n. c + n \<le> length mm \<longrightarrow> outside_frames (\<lambda>_. 40) xs c n \<longrightarrow> slice mm c n = slice (umem e) c n" unfolding tk by blast
  have b: "length ?b \<le> MAX_BURST_TX" "length (ring_content (txq (eports (em s) ! pj))) + length ?b \<le> 2 ^ tx_bits z"
    using queue(2) tx(5) by simp_all
  have "epool ?e = epool (em s)" "eports ?e = eports (em s)" by (simp_all add: e)
  from burst_sent[OF inv(1) tx(4) b this, of ks] obtain bp ps ys ds where
    t: "emu_tx_burst pj ?b ks ?e = Some (Inr (?e\<lparr>epool := bp, eports := ps\<rparr>))"
    "ring_content (txq (eports (em s) ! pj)) @ ds = ys @ ring_content (txq (ps ! pj))" "map (\<lambda>d. (desc_addr d, desc_len d)) ds = ?b" by blast
  let ?e3 = "?e\<lparr>epool := bp, eports := ps\<rparr>"
  have "nic_tx_non_local t pj ks w e = Some (Inr ?e3)" unfolding nic_tx_non_local_def tx(1) using i d(1) t(1) by simp
  moreover have "umem ?e3 = mm" "eports ?e3 = ps" by simp_all
  moreover have "umem e = umem (em s)" "enet e = enet (em s)" by (simp_all add: e)
  ultimately show ?thesis using t(2,3) d(2-4) unfolding outside_frames_def
    by (intro exI[of _ ?e3] exI[of _ ys] exI[of _ ds]) (simp only: simp_thms)
qed

section \<open>Properties\<close>

text \<open>Property C6: a burst of packets in transit to one destination crosses the node: the receiving thread's
  step for the port puts it into the destination's queue, and the transmit thread that drains
  this queue appends exactly these packets, in order and with their lengths, to the transmit
  ring of its port; each has the outer headers for the next hop of the slot, and every byte
  behind the outer headers is what it was.\<close>
theorem network_to_network:
  assumes run: "good_setup z env ps cfg es ns" "start_system env ps cfg es = Inr (Some s0)" "starts s0 e0" "(emu_step z)\<^sup>*\<^sup>* (started s0 e0) s"
    and rx: "port_at (ports_rx t) c = Inr pi" "emu_rx_burst pi (kernel k) (em s) = Some (Inr (pkts, e1))" "allocs k = (\<lambda>_. True)"
      "nic_port pi (em s)"
    and dest: "\<forall>b \<in> set pkts. in_transit (umem (em s)) (enet (em s)) t b i"
    and queue: "queue_at (non_local_per_dest_queue (em s)) i n []" "length pkts \<le> 2 ^ n"
    and tx: "assigned_queue (non_local_dest_queue_array t') w = Inr (Some i)" "next_mac (enet (em s)) (int w) = Some mac"
      "6 \<le> length (out_eth_src (enet (em s)))"
      "pj < length (eports (em s))" "length (ring_content (txq (eports (em s) ! pj))) + length pkts \<le> 2 ^ tx_bits z"
    and fit: "\<forall>b \<in> set pkts. fits_buffer (epool (em s)) inner_span (Thread_Run.entry b)"
    and area: "ns * 2 ^ fq_bits z * unat (buffer_size (params (epool (em s)))) \<le> length (umem (em s))" "length (umem (em s)) < 2 ^ 48"
  shows "\<exists>e2 rv' e3 ys ds. nic_rx_port ov t nv c k (em s, rv) = Some (Inr (e2, rv')) \<and> nic_tx_non_local t' pj ks w e2 = Some (Inr e3) \<and>
    pkts = map (\<lambda>d. (desc_addr d, desc_len d)) (take (length pkts) (ring_content (rxq (eports (em s) ! pi)))) \<and>
    ring_content (txq (eports (em s) ! pj)) @ ds = ys @ ring_content (txq (eports e3 ! pj)) \<and>
    map (\<lambda>d. (desc_addr d, desc_len d)) ds = pkts \<and>
    (\<forall>b \<in> set pkts. slice (umem e3) (unat (fst b)) 40 = transit_header (slice (umem (em s)) (unat (fst b)) 40) mac (out_eth_src (enet (em s)))
        (network_host (addr_at (umem (em s)) (unat (fst b) + 70))) \<and>
      slice (umem e3) (unat (fst b) + 40) (unat (snd b) - 40) = slice (umem (em s)) (unat (fst b) + 40) (unat (snd b) - 40))"
proof -
  let ?xs = "map Thread_Run.entry pkts" and ?hdr = "\<lambda>x. transit_header (slice (umem (em s)) (frame_at x) 40) mac (out_eth_src (enet (em s)))
    (network_host (addr_at (umem (em s)) (frame_at x + 70)))"
  obtain m B s1 bp p where S: "emu_inv m z B s1" "B \<subseteq># mset [0..<ns * 2 ^ fq_bits z]" "em s1 = e1" "mset (map tx_addr ?xs) \<subseteq># owned (view s1)"
    and e1: "e1 = (em s)\<lparr>epool := bp, eports := (eports (em s))[pi := p]\<rparr>" "params bp = params (epool (em s))"
    and txq: "\<forall>j < length (eports (em s)). txq (eports e1 ! j) = txq (eports (em s) ! j)"
    and pp: "pparams p = pparams (eports (em s) ! pi)" and len: "length pkts \<le> MAX_BURST_TX"
    and order: "pkts = map (\<lambda>d. (desc_addr d, desc_len d)) (take (length pkts) (ring_content (rxq (eports (em s) ! pi))))"
    by (rule received[OF run rx(2)]) blast
  have fits: "\<forall>x \<in> set ?xs. fits_buffer (epool (em s1)) inner_span x" using fit e1(2) unfolding S(3) by (simp add: e1(1) fits_buffer_def)
  have ar: "ns * 2 ^ fq_bits z * unat (buffer_size (params (epool (em s1)))) \<le> length (umem (em s1))" using area(1) e1(2) unfolding S(3) by (simp add: e1(1))
  have frames: "frames_in inner_span (length (umem (em s))) ?xs"
    using owned_apart[where xs = ?xs and sp = inner_span, OF S(1,2,4) fits ar, THEN conjunct2] unfolding S(3) by (simp add: e1(1))
  have e1': "nic_port pi e1" "length (umem e1) < 2 ^ 48" "\<forall>b \<in> set pkts. unat (fst b) + 74 \<le> length (umem e1)"
    "\<forall>b \<in> set pkts. in_transit (umem e1) (enet e1) t b i" "queue_at (non_local_per_dest_queue e1) i n []" "length ([] :: burst_tx list) + length pkts \<le> 2 ^ n"
    using rx(4) dest queue area(2) pp frames by (auto simp: e1(1) nic_port_def frames_in_def inner_span_def frame_at_def Thread_Run.entry_def)
  obtain q rv' where q: "nic_rx_packets ov t nv pi (map (Pair True) pkts) (e1, rv\<lparr>new_len := 0, ring_buf_index := 0\<rparr>) =
      Some (Inr (e1\<lparr>non_local_per_dest_queue := (non_local_per_dest_queue e1)[i := q]\<rparr>, rv'))" "holds q n ([] @ ?xs)"
    using nic_rx_packets_transit[OF e1'] by blast
  let ?qs = "(non_local_per_dest_queue e1)[i := q]"
  have pass: "nic_rx_port ov t nv c k (em s, rv) = Some (Inr (e1\<lparr>non_local_per_dest_queue := ?qs\<rparr>, rv'))"
    by (simp add: nic_rx_port_def rx(1,2,3) all_allocated q(1))
  have qa: "queue_at ?qs i n ?xs" using q(2) e1'(5) by (simp add: queue_at_def)
  have *: "length ?xs \<le> MAX_BURST_TX" "next_mac (enet (em s1)) (int w) = Some mac" "6 \<le> length (out_eth_src (enet (em s1)))" "pj < length (eports (em s1))"
    "length (ring_content (txq (eports (em s1) ! pj))) + length ?xs \<le> 2 ^ tx_bits z" "\<forall>x \<in> set ?xs. fits_buffer (epool (em s1)) transit_span x"
    "length (umem (em s1)) < 2 ^ 48"
    using len tx(2-5) txq[rule_format, OF tx(4)] area(2) fits unfolding S(3) by (auto simp: e1(1) fits_buffer_def inner_span_def transit_span_def)
  have e2: "e1\<lparr>non_local_per_dest_queue := ?qs\<rparr> = (em s1)\<lparr>non_local_per_dest_queue := ?qs\<rparr>" unfolding S(3) ..
  from transit_queue_sent[OF S(1,2,4) e2 qa *(1) tx(1) *(2-6) ar *(7), of ks] obtain e3 ys ds where
    sent: "nic_tx_non_local t' pj ks w (e1\<lparr>non_local_per_dest_queue := ?qs\<rparr>) = Some (Inr e3)"
    "ring_content (txq (eports (em s) ! pj)) @ ds = ys @ ring_content (txq (eports e3 ! pj))"
    "map (\<lambda>d. (desc_addr d, desc_len d)) ds = map (\<lambda>x. (tx_addr x, tx_len x)) ?xs" "\<forall>x \<in> set ?xs. slice (umem e3) (frame_at x) 40 = ?hdr x"
    "\<And>c l. c + l \<le> length (umem (em s)) \<Longrightarrow> \<forall>x \<in> set ?xs. c + l \<le> frame_at x \<or> frame_at x + 40 \<le> c \<Longrightarrow> slice (umem e3) c l = slice (umem (em s)) c l"
    unfolding S(3) txq[rule_format, OF tx(4)] by (auto simp: e1(1))
  have "slice (umem e3) (unat (fst b) + 40) (unat (snd b) - 40) = slice (umem (em s)) (unat (fst b) + 40) (unat (snd b) - 40)"
    if "b \<in> set pkts" for b
    using sent(5) payload_apart[OF frames, of "Thread_Run.entry b"] that by (simp add: frame_at_def Thread_Run.entry_def)
  moreover have "\<forall>b \<in> set pkts. slice (umem e3) (unat (fst b)) 40 = ?hdr (Thread_Run.entry b)"
    using sent(4) by (simp add: frame_at_def Thread_Run.entry_def)
  moreover have "map (\<lambda>x. (tx_addr x, tx_len x)) ?xs = pkts" by (simp add: Thread_Run.entry_def comp_def)
  ultimately show ?thesis using pass sent(1-3) order by (simp add: frame_at_def Thread_Run.entry_def) blast
qed

definition sample_transit :: "u8 list" where
  "sample_transit = replicate 12 0 @ [8, 0] @ replicate 9 0 @ [47] @ replicate 6 0 @ [1] @ replicate 5 0 @ [0x65, 0x58] @
     replicate 14 0 @ [8, 0] @ replicate 60 0"

lemma sample_transit_facts: "length sample_transit = 114" "our_packet sample_transit 0" "addr_at sample_transit 30 \<noteq> 0"
  "network_host (addr_at sample_transit 70) = network_host 0"
  by (simp_all add: sample_transit_def our_packet_def slice_def be16_def ETH_IP_def ETH_P_TEB_def PROTO_GRE_def addr_at_def
      nth_append word32_of_bytes_def byte_of_def network_host_def)

theorem network_to_network_witness:
  "\<exists>s0 s b e2 rv' e3. start_system sample_env wide_params sample_cfg sample_ports = Inr (Some s0) \<and>
    (emu_step sample_sizes)\<^sup>*\<^sup>* (started s0 (packet_start s0 b sample_transit)) s \<and>
    nic_rx_port copy_bytes sample_thread 1 0 \<lparr>kernel = [], allocs = (\<lambda>_. True)\<rparr> (em s, sample_rv) = Some (Inr (e2, rv')) \<and>
    nic_tx_non_local sample_thread 1 [] 1 e2 = Some (Inr e3) \<and>
    slice (umem e3) (b * 4096 + 296) 74 = slice (umem (em s)) (b * 4096 + 296) 74"
proof -
  obtain s0 s b e1 where s0: "start_system sample_env wide_params sample_cfg sample_ports = Inr (Some s0)" "b < 192"
    "(emu_step sample_sizes)\<^sup>*\<^sup>* (started s0 (packet_start s0 b sample_transit)) s"
    "sample_delivery 0 (packet_start s0 b sample_transit) (sample_desc b 114) (em s) e1" using packet_delivery[of 0 sample_transit 114] by auto
  let ?a = "b * 4096 + 256" and ?e = "packet_start s0 b sample_transit"
  let ?pkts = "[(of_nat ?a :: u64, 114 :: u32)]" and ?k = "\<lparr>kernel = [] :: nat list, allocs = (\<lambda>_ :: nat. True)\<rparr>"
  note a = desc_at[OF s0(2)] and F = packet_start_facts[of s0 b sample_transit]
  obtain ps where em: "em s = ?e\<lparr>eports := ps\<rparr>" "length ps = 2" "iface (pparams (ps ! 0)) = ''nic''" "ring_content (txq (ps ! 1)) = []"
      "buffer_size (params (epool (em s))) = 4096"
    and rx: "emu_rx_burst 0 (kernel ?k) (em s) = Some (Inr (?pkts, e1))"
    using s0(4) by (auto simp: sample_delivery_def sample_ports_def sample_desc_def)
  have u: "umem (em s) = splice (replicate 786432 0) ?a sample_transit" by (simp add: em(1) F(6))
  have fits: "?a + length sample_transit \<le> length (replicate 786432 (0 :: u8))" using s0(2) sample_transit_facts(1) by simp
  have len: "length (umem (em s)) = 786432" unfolding u using fits by simp
  have l74: "74 \<le> length sample_transit" by (simp add: sample_transit_facts(1))
  note P = our_packet_placed[OF fits l74, folded u]
  have net: "enet (em s) = sample_net" by (simp add: em(1) F(1))
  have dest: "\<forall>x \<in> set ?pkts. in_transit (umem (em s)) (enet (em s)) sample_thread x 0"
    unfolding net using a P sample_transit_facts(2-4) sample_lookups(1)
    by (auto simp: in_transit_def sample_net_src NUM_OF_PER_DEST_QUEUES_def sample_thread_def intro!: exI[of _ 1])
  have queue: "queue_at (non_local_per_dest_queue (em s)) 0 1 []" "length ?pkts \<le> 2 ^ 1" using F(7) by (simp_all add: em(1))
  have o6: "6 \<le> length (out_eth_src sample_net)" by (simp add: sample_net_def)
  have tx: "assigned_queue (non_local_dest_queue_array sample_thread) 1 = Inr (Some 0)" "next_mac (enet (em s)) (int 1) = Some [1, 2, 3, 4, 5, 6]"
    "6 \<le> length (out_eth_src (enet (em s)))" "1 < length (eports (em s))"
    "length (ring_content (txq (eports (em s) ! 1))) + length ?pkts \<le> 2 ^ tx_bits sample_sizes"
    using em(2,4) o6 unfolding net
    by (simp_all add: em(1) sample_lookups sample_sizes_def assigned_queue_def sample_thread_def NUM_OF_PER_DEST_QUEUES_def arr_get_def)
  have at: "frame_at (Thread_Run.entry (of_nat ?a, 114)) = ?a" using a by (simp only: frame_at_def Thread_Run.entry_def burst_tx.simps fst_conv)
  have fit: "\<forall>x \<in> set ?pkts. fits_buffer (epool (em s)) inner_span (Thread_Run.entry x)"
    using at by (simp add: fits_buffer_def em(5) inner_span_def) (simp add: Thread_Run.entry_def)
  have area: "6 * 2 ^ fq_bits sample_sizes * unat (buffer_size (params (epool (em s)))) \<le> length (umem (em s))" "length (umem (em s)) < 2 ^ 48"
    unfolding em(5) len by (simp_all add: sample_sizes_def)
  have t: "port_at (ports_rx sample_thread) 0 = Inr 0" "allocs ?k = (\<lambda>_. True)" "nic_port 0 (em s)"
    using em(2,3) by (simp_all add: port_at_def sample_thread_def nic_port_def em(1) F(1) sample_net_def)
  from network_to_network[OF wide_setup s0(1) packet_starts s0(3) t(1) rx t(2,3) dest queue tx fit area, of copy_bytes 1 sample_rv "[]"] s0(1,3) a
  show ?thesis by (fastforce simp: add.assoc)
qed

end
