(* ===== verification/Dest_Table.thy ===== *)
theory Dest_Table
  imports Mg_Map
begin

text \<open>
  The destination table of the experimental version (\<open>hashCode\<close>, \<open>search\<close>, \<open>insert\<close> and \<open>delete\<close> of
  \<open>src/opera-ex/common_funcs.h\<close>): open addressing with linear probing over an array of pointers
  to items. That version does not compile, because \<open>DEST_COUNT\<close>, \<open>hashArray\<close> and \<open>struct DataItem\<close>
  are declared nowhere: the number \<open>n\<close> of cells is a parameter, the array is the argument of every
  operation, and an item has the two fields that the functions use. Items are never changed
  after they are stored, so a pointer to an item is the item.
\<close>

section \<open>Data\<close>

record data_item =
  idata :: int
  ikey :: int

type_synonym dest_table = "data_item option list"

text \<open>The item that marks a deleted cell; the receiving thread creates it before its loop.\<close>

definition dummyItem :: data_item where
  "dummyItem = \<lparr>idata = -1, ikey = -1\<rparr>"

text \<open>The remainder of C has the sign of the dividend.\<close>

definition c_rem :: "int \<Rightarrow> nat \<Rightarrow> int" where
  "c_rem a n = sgn a * (\<bar>a\<bar> mod int n)"

definition hashCode :: "nat \<Rightarrow> int \<Rightarrow> int res" where
  "hashCode n key = guard_res Div_By_Zero (n \<noteq> 0) (Inr (c_rem key n))"

section \<open>Operations\<close>

text \<open>
  The three loops are the same walk: from the index \<open>h\<close> on, to the first cell that is \<open>NULL\<close> or whose
  item ends the loop. \<open>None\<close> is a walk that never ends.
\<close>

partial_function (option) probe :: "(data_item \<Rightarrow> bool) \<Rightarrow> nat \<Rightarrow> dest_table \<Rightarrow> int \<Rightarrow> int run" where
  "probe stop n t h =
     (case idx_get t h of
        Inl e \<Rightarrow> Some (Inl e)
      | Inr None \<Rightarrow> Some (Inr h)
      | Inr (Some it) \<Rightarrow> if stop it then Some (Inr h) else probe stop n t (c_rem (h + 1) n))"

definition dest_search :: "nat \<Rightarrow> dest_table \<Rightarrow> int \<Rightarrow> data_item option run" where
  "dest_search n t key = rthen (Some (hashCode n key)) (\<lambda>h.
     rthen (probe (\<lambda>it. ikey it = key) n t h) (\<lambda>i. Some (idx_get t i)))"

text \<open>\<open>insert\<close> writes through the result of \<open>malloc\<close> without a test.\<close>

definition dest_insert :: "bool \<Rightarrow> nat \<Rightarrow> dest_table \<Rightarrow> int \<Rightarrow> int \<Rightarrow> dest_table run" where
  "dest_insert malloc_ok n t key data =
     (if \<not> malloc_ok then Some (Inl Null_Deref)
      else rthen (Some (hashCode n key)) (\<lambda>h.
        rthen (probe (\<lambda>it. ikey it = -1) n t h) (\<lambda>i.
          Some (Inr (t[nat i := Some \<lparr>idata = data, ikey = key\<rparr>])))))"

text \<open>\<open>dummy\<close> is what \<open>dummyItem\<close> points to, \<open>None\<close> as long as no thread has created it.\<close>

definition dest_delete :: "data_item option \<Rightarrow> nat \<Rightarrow> dest_table \<Rightarrow> data_item option \<Rightarrow> (data_item option \<times> dest_table) run" where
  "dest_delete dummy n t item = (case item of None \<Rightarrow> Some (Inl Null_Deref) | Some it \<Rightarrow>
     rthen (Some (hashCode n (ikey it))) (\<lambda>h.
       rthen (probe (\<lambda>x. ikey x = ikey it) n t h) (\<lambda>i.
         rthen (Some (idx_get t i)) (\<lambda>c. case c of
           None \<Rightarrow> Some (Inr (None, t))
         | Some temp \<Rightarrow> Some (Inr (Some temp, t[nat i := dummy]))))))"

section \<open>The walk\<close>

definition ends_walk :: "(data_item \<Rightarrow> bool) \<Rightarrow> dest_table \<Rightarrow> nat \<Rightarrow> bool" where
  "ends_walk stop t i \<longleftrightarrow> (case t ! i of None \<Rightarrow> True | Some it \<Rightarrow> stop it)"

lemma c_rem_nat: "c_rem (int a) n = int (a mod n)"
  by (cases "a = 0") (simp_all add: c_rem_def zmod_int)

lemma hashCode_nat: "0 < n \<Longrightarrow> 0 \<le> key \<Longrightarrow> hashCode n key = Inr (int (nat key mod n))"
  using c_rem_nat[of "nat key" n] by (simp add: hashCode_def)

lemma probe_at:
  "i < length t \<Longrightarrow> probe stop n t (int i) = (if ends_walk stop t i then Some (Inr (int i)) else probe stop n t (int (Suc i mod n)))"
  using c_rem_nat[of "Suc i" n] by (subst probe.simps) (auto simp: ends_walk_def add.commute split: option.splits)

lemma probe_finds:
  assumes "length t = n" "h < n" "\<forall>d' < d. \<not> ends_walk stop t ((h + d') mod n)" "ends_walk stop t ((h + d) mod n)"
  shows "probe stop n t (int h) = Some (Inr (int ((h + d) mod n)))"
  using assms
proof (induction d arbitrary: h)
  case (Suc d)
  have shift: "(Suc h mod n + j) mod n = (h + Suc j) mod n" for j by (simp add: mod_add_left_eq)
  have "\<not> ends_walk stop t ((h + 0) mod n)" using Suc.prems(3) by blast
  then have "\<not> ends_walk stop t h" using Suc.prems(2) by simp
  then have "probe stop n t (int h) = probe stop n t (int (Suc h mod n))" using Suc.prems(1,2) by (simp add: probe_at)
  moreover have "probe stop n t (int (Suc h mod n)) = Some (Inr (int ((Suc h mod n + d) mod n)))"
    using Suc.prems by (intro Suc.IH) (auto simp: shift)
  ultimately show ?case by (simp add: shift)
qed (simp add: probe_at)

lemma probe_returns:
  assumes "probe stop n t h = Some y"
  shows "\<forall>i < n. h = int i \<longrightarrow> length t = n \<longrightarrow> (\<exists>j < n. ends_walk stop t j)"
proof (induction rule: probe.raw_induct[OF _ assms])
  case (1 pr stop n t h y)
  show ?case
  proof (intro allI impI)
    fix i assume i: "i < n" "h = int i" "length t = n"
    then have "Suc i mod n < n" "c_rem (1 + int i) n = int (Suc i mod n)" using c_rem_nat[of "Suc i" n] by simp_all
    with 1(1)[of stop n t "int (Suc i mod n)"] 1(2) i show "\<exists>j < n. ends_walk stop t j"
      by (cases "ends_walk stop t i") (auto simp: ends_walk_def add.commute split: option.splits if_splits)
  qed
qed

lemma probe_never:
  assumes "length t = n" "h < n" "\<forall>i < n. \<not> ends_walk stop t i"
  shows "probe stop n t (int h) = None"
  using probe_returns[of stop n t "int h"] assms by (cases "probe stop n t (int h)") blast+

text \<open>Every cell is on the walk from every cell, so the walk ends if and only if some cell ends it.\<close>

lemma on_walk: "i < n \<Longrightarrow> h < n \<Longrightarrow> (h + (i + n - h)) mod n = (i :: nat)"
  by simp

lemma walk_ends:
  assumes "i < n" "h < n" "ends_walk stop t i"
  shows "\<exists>d. ends_walk stop t ((h + d) mod n) \<and> (\<forall>d' < d. \<not> ends_walk stop t ((h + d') mod n))"
  using exists_least_iff[of "\<lambda>d. ends_walk stop t ((h + d) mod n)"] assms on_walk[OF assms(1,2)] by metis

section \<open>The map a table stands for\<close>

definition holds_key :: "int \<Rightarrow> data_item option \<Rightarrow> bool" where
  "holds_key k c = (case c of None \<Rightarrow> False | Some it \<Rightarrow> ikey it = k)"

definition dest_map :: "dest_table \<Rightarrow> int \<Rightarrow> int option" where
  "dest_map t k = (if k < 0 then None else case List.find (holds_key k) t of Some (Some it) \<Rightarrow> Some (idata it) | _ \<Rightarrow> None)"

definition home :: "nat \<Rightarrow> int \<Rightarrow> nat" where
  "home n k = nat k mod n"

text \<open>Cell \<open>i\<close> is reached from the home cell of \<open>k\<close> over cells that are not \<open>NULL\<close>.\<close>

definition chained :: "nat \<Rightarrow> dest_table \<Rightarrow> int \<Rightarrow> nat \<Rightarrow> bool" where
  "chained n t k i \<longleftrightarrow> (\<exists>d. (home n k + d) mod n = i \<and> (\<forall>d' < d. t ! ((home n k + d') mod n) \<noteq> None))"

definition live :: "dest_table \<Rightarrow> nat \<Rightarrow> data_item \<Rightarrow> bool" where
  "live t i it \<longleftrightarrow> i < length t \<and> t ! i = Some it \<and> ikey it \<noteq> -1"

definition table_ok :: "nat \<Rightarrow> dest_table \<Rightarrow> bool" where
  "table_ok n t \<longleftrightarrow> length t = n \<and> 0 < n \<and> (\<forall>i it. live t i it \<longrightarrow> 0 \<le> ikey it \<and> chained n t (ikey it) i) \<and>
     (\<forall>i j a b. live t i a \<longrightarrow> live t j b \<longrightarrow> ikey a = ikey b \<longrightarrow> i = j)"

lemma table_okD:
  assumes "table_ok n t"
  shows "length t = n" "0 < n" "live t i it \<Longrightarrow> 0 \<le> ikey it" "live t i it \<Longrightarrow> chained n t (ikey it) i"
    "live t i a \<Longrightarrow> live t j b \<Longrightarrow> ikey a = ikey b \<Longrightarrow> i = j"
  using assms by (auto simp: table_ok_def)

lemma home_less: "0 < n \<Longrightarrow> home n k < n"
  by (simp add: home_def)

lemma dest_map_iff:
  assumes ok: "table_ok n t"
  shows "dest_map t k = Some v \<longleftrightarrow> (\<exists>i it. live t i it \<and> ikey it = k \<and> idata it = v)"
proof (cases "List.find (holds_key k) t")
  case None
  then have "\<not> holds_key k c" if "c \<in> set t" for c using that by (simp add: find_None_iff)
  then have "ikey it \<noteq> k" if "i < length t" "t ! i = Some it" for i it using that by (force simp: holds_key_def dest: nth_mem)
  with None show ?thesis by (auto simp: dest_map_def live_def)
next
  case (Some c)
  then obtain i where i: "i < length t" "holds_key k (t ! i)" "c = t ! i" by (auto simp: find_Some_iff)
  then obtain it where it: "c = Some it" "ikey it = k" by (auto simp: holds_key_def split: option.splits)
  have live: "live t i it" if "k \<noteq> -1" using i it that by (simp add: live_def)
  show ?thesis
  proof (cases "k < 0")
    case True
    have "\<not> (live t i it \<and> ikey it = k)" for i it using table_okD(3)[OF ok, of i it] True by auto
    moreover have "dest_map t k = None" using True by (simp add: dest_map_def)
    ultimately show ?thesis by (simp only:) blast
  next
    case False
    then have l: "live t i it" using live by simp
    have "it' = it" if "live t j it'" "ikey it' = k" for j it'
      using table_okD(5)[OF ok l that(1)] it(2) that l by (simp add: live_def)
    then have "(\<exists>j it'. live t j it' \<and> ikey it' = k \<and> idata it' = v) \<longleftrightarrow> idata it = v" using l it(2) by blast
    moreover have "dest_map t k = Some (idata it)" using False Some it(1) by (simp add: dest_map_def)
    ultimately show ?thesis by simp
  qed
qed

lemma dest_map_eqI: "(\<And>v. f k = Some v \<longleftrightarrow> g k = Some (v :: int)) \<Longrightarrow> f k = g k"
  by (cases "f k"; cases "g k") auto

lemma dest_map_live: "table_ok n t \<Longrightarrow> live t i it \<Longrightarrow> dest_map t (ikey it) = Some (idata it)"
  by (auto simp: dest_map_iff)

lemma chained_mono:
  "chained n t k i \<Longrightarrow> (\<And>j. t ! j \<noteq> None \<Longrightarrow> t' ! j \<noteq> None) \<Longrightarrow> chained n t' k i"
  unfolding chained_def by blast

section \<open>Searching\<close>

text \<open>The walk for a stored key reaches its cell, over items with other keys.\<close>

lemma key_walk:
  assumes ok: "table_ok n t" and l: "live t i it"
  shows "\<exists>d. (home n (ikey it) + d) mod n = i \<and> (\<forall>d' < d. \<not> ends_walk (\<lambda>x. ikey x = ikey it) t ((home n (ikey it) + d') mod n))"
proof -
  let ?h = "home n (ikey it)" and ?s = "\<lambda>x. ikey x = ikey it"
  note D = table_okD[OF ok]
  have i: "i < n" "t ! i = Some it" using l D(1) by (simp_all add: live_def)
  then have st: "ends_walk ?s t i" by (simp add: ends_walk_def)
  obtain d where d: "(?h + d) mod n = i" "\<forall>d' < d. t ! ((?h + d') mod n) \<noteq> None"
    using D(4)[OF l] by (auto simp: chained_def)
  obtain d0 where d0: "ends_walk ?s t ((?h + d0) mod n)" "\<forall>d' < d0. \<not> ends_walk ?s t ((?h + d') mod n)"
    using walk_ends[OF i(1) home_less[OF D(2)] st] by blast
  have le: "d0 \<le> d" using d0(2) d(1) st by (metis not_le_imp_less)
  have "t ! ((?h + d0) mod n) \<noteq> None" using d le i(2) by (cases "d0 = d") auto
  with d0(1) obtain x where "live t ((?h + d0) mod n) x" "ikey x = ikey it"
    using l D(1,2) by (auto simp: ends_walk_def live_def split: option.splits)
  then have "(?h + d0) mod n = i" using D(5) l by blast
  with d0(2) show ?thesis by blast
qed

lemma key_found:
  assumes ok: "table_ok n t" and l: "live t i it"
  shows "probe (\<lambda>x. ikey x = ikey it) n t (int (home n (ikey it))) = Some (Inr (int i))"
proof -
  note D = table_okD[OF ok]
  obtain d where d: "(home n (ikey it) + d) mod n = i"
    "\<forall>d' < d. \<not> ends_walk (\<lambda>x. ikey x = ikey it) t ((home n (ikey it) + d') mod n)" using key_walk[OF assms] by blast
  have "ends_walk (\<lambda>x. ikey x = ikey it) t ((home n (ikey it) + d) mod n)" using l unfolding d(1) by (simp add: ends_walk_def live_def)
  from probe_finds[OF D(1) home_less[OF D(2)] d(2) this] show ?thesis unfolding d(1) .
qed

lemma key_absent:
  assumes ok: "table_ok n t" and k: "0 \<le> k" "dest_map t k = None"
  shows "if None \<in> set t then \<exists>i < n. t ! i = None \<and> probe (\<lambda>x. ikey x = k) n t (int (home n k)) = Some (Inr (int i))
    else probe (\<lambda>x. ikey x = k) n t (int (home n k)) = None"
proof -
  note D = table_okD[OF ok]
  have none: "ends_walk (\<lambda>x. ikey x = k) t i \<longleftrightarrow> t ! i = None" if "i < n" for i
  proof (cases "t ! i")
    case (Some it)
    have "ikey it \<noteq> k"
    proof
      assume "ikey it = k"
      then have "live t i it" using Some that k(1) D(1) by (simp add: live_def)
      then show False using dest_map_live[OF ok] k(2) \<open>ikey it = k\<close> by auto
    qed
    with Some show ?thesis by (simp add: ends_walk_def)
  qed (simp add: ends_walk_def)
  show ?thesis
  proof (cases "None \<in> set t")
    case True
    then obtain i where i: "i < n" "t ! i = None" using D(1) by (auto simp: in_set_conv_nth)
    obtain d where d: "ends_walk (\<lambda>x. ikey x = k) t ((home n k + d) mod n)"
      "\<forall>d' < d. \<not> ends_walk (\<lambda>x. ikey x = k) t ((home n k + d') mod n)"
      using walk_ends[OF i(1) home_less[OF D(2)]] i none by blast
    from probe_finds[OF D(1) home_less[OF D(2)] d(2,1)] show ?thesis
      using True none[of "(home n k + d) mod n"] d(1) D(2) by (auto intro!: exI[of _ "(home n k + d) mod n"])
  next
    case False
    then have "\<forall>i < n. \<not> ends_walk (\<lambda>x. ikey x = k) t i" using none D(1) by (metis nth_mem)
    with False show ?thesis using probe_never[OF D(1) home_less[OF D(2)]] by simp
  qed
qed

section \<open>Changing one cell\<close>

lemma live_update:
  "j < length t \<Longrightarrow> live (t[j := c]) i it \<longleftrightarrow> (if i = j then c = Some it \<and> ikey it \<noteq> -1 else live t i it)"
  by (auto simp: live_def)

lemma filled_update: "c \<noteq> None \<Longrightarrow> t ! j \<noteq> None \<Longrightarrow> t[i := c] ! j \<noteq> None"
  by (cases "i < length t"; cases "i = j") (simp_all add: list_update_beyond)

lemma put_ok:
  assumes ok: "table_ok n t" and k: "0 \<le> k" "dest_map t k = None" and j: "j < n" "\<And>it. \<not> live t j it" "chained n t k j"
  shows "table_ok n (t[j := Some \<lparr>idata = v, ikey = k\<rparr>]) \<and> dest_map (t[j := Some \<lparr>idata = v, ikey = k\<rparr>]) = (dest_map t)(k \<mapsto> v)"
proof -
  let ?new = "\<lparr>idata = v, ikey = k\<rparr>" and ?t = "t[j := Some \<lparr>idata = v, ikey = k\<rparr>]"
  note D = table_okD[OF ok]
  have live: "live ?t i it \<longleftrightarrow> i = j \<and> it = ?new \<or> live t i it" for i it
    using j k(1) D(1) by (auto simp: live_update)
  have fresh: "ikey it \<noteq> k" if "live t i it" for i it using dest_map_live[OF ok that] k(2) by auto
  have chain: "chained n t k' i \<Longrightarrow> chained n ?t k' i" for k' i
    by (erule chained_mono) (rule filled_update, simp)
  have ok': "table_ok n ?t" unfolding table_ok_def live
  proof (intro conjI allI impI)
    fix i it assume l: "i = j \<and> it = ?new \<or> live t i it"
    show "0 \<le> ikey it" using l k(1) D(3) by auto
    show "chained n ?t (ikey it) i" using l chain D(4) j(3) by auto
  next
    fix i i' a b
    assume "i = j \<and> a = ?new \<or> live t i a" "i' = j \<and> b = ?new \<or> live t i' b" "ikey a = ikey b"
    then show "i = i'" using fresh D(5) by fastforce
  qed (use D in simp_all)
  have "dest_map ?t x = ((dest_map t)(k \<mapsto> v)) x" for x
  proof (rule dest_map_eqI)
    fix w
    have "(\<exists>i it. (i = j \<and> it = ?new \<or> live t i it) \<and> ikey it = x \<and> idata it = w) \<longleftrightarrow> (if x = k then v = w else dest_map t x = Some w)"
      unfolding dest_map_iff[OF ok] using fresh by (metis data_item.select_convs)
    then show "dest_map ?t x = Some w \<longleftrightarrow> ((dest_map t)(k \<mapsto> v)) x = Some w" unfolding dest_map_iff[OF ok'] live by simp
  qed
  with ok' show ?thesis by blast
qed

lemma mark_ok:
  assumes ok: "table_ok n t" and l: "live t j it"
  shows "table_ok n (t[j := Some dummyItem]) \<and> dest_map (t[j := Some dummyItem]) = (dest_map t)(ikey it := None)"
proof -
  let ?t = "t[j := Some dummyItem]"
  note D = table_okD[OF ok]
  have live: "live ?t i x \<longleftrightarrow> i \<noteq> j \<and> live t i x" for i x
    using l by (cases "i = j") (auto simp: live_def dummyItem_def)
  have chain: "chained n t k i \<Longrightarrow> chained n ?t k i" for k i
    by (erule chained_mono) (rule filled_update, simp)
  have ok': "table_ok n ?t" unfolding table_ok_def live using D chain by auto
  have only: "live t i x \<and> ikey x = ikey it \<Longrightarrow> i = j" for i x using D(5) l by blast
  have "dest_map ?t k = ((dest_map t)(ikey it := None)) k" for k
  proof (rule dest_map_eqI)
    fix w
    have "live t j x \<Longrightarrow> x = it" for x using l by (simp add: live_def)
    then have "(\<exists>i x. (i \<noteq> j \<and> live t i x) \<and> ikey x = k \<and> idata x = w) \<longleftrightarrow> k \<noteq> ikey it \<and> dest_map t k = Some w"
      unfolding dest_map_iff[OF ok] using only by metis
    then show "dest_map ?t k = Some w \<longleftrightarrow> ((dest_map t)(ikey it := None)) k = Some w" unfolding dest_map_iff[OF ok'] live by simp
  qed
  with ok' show ?thesis by blast
qed

section \<open>The operations on a well-formed table\<close>

lemma home_code: "table_ok n t \<Longrightarrow> 0 \<le> k \<Longrightarrow> hashCode n k = Inr (int (home n k))"
  using table_okD(2) hashCode_nat by (simp add: home_def)

lemma search_live:
  assumes ok: "table_ok n t" and l: "live t i it"
  shows "dest_search n t (ikey it) = Some (Inr (Some it))"
  using key_found[OF ok l] home_code[OF ok table_okD(3)[OF ok l]] l by (simp add: dest_search_def live_def)

lemma search_absent:
  assumes ok: "table_ok n t" and k: "0 \<le> k" "dest_map t k = None"
  shows "dest_search n t k = (if None \<in> set t then Some (Inr None) else None)"
  using key_absent[OF ok k] home_code[OF ok k(1)] table_okD(1)[OF ok] by (auto simp: dest_search_def split: if_splits)

lemma delete_live:
  assumes ok: "table_ok n t" and l: "live t i it" and same: "ikey x = ikey it"
  shows "dest_delete d n t (Some x) = Some (Inr (Some it, t[i := d]))"
  using key_found[OF ok l] home_code[OF ok table_okD(3)[OF ok l]] l same by (simp add: dest_delete_def live_def)

text \<open>A cell that \<open>insert\<close> takes is \<open>NULL\<close> or holds the item of deleted cells.\<close>

definition free_cell :: "data_item option \<Rightarrow> bool" where
  "free_cell c = (case c of None \<Rightarrow> True | Some it \<Rightarrow> ikey it = -1)"

lemma free_None [simp]: "free_cell None"
  by (simp add: free_cell_def)

lemma ends_walk_free: "ends_walk (\<lambda>it. ikey it = -1) t i = free_cell (t ! i)"
  by (simp add: ends_walk_def free_cell_def split: option.splits)

lemma insert_walk:
  assumes ok: "table_ok n t" and k: "0 \<le> k"
  shows "if \<exists>c \<in> set t. free_cell c
    then \<exists>j < n. free_cell (t ! j) \<and> chained n t k j \<and> dest_insert True n t k v = Some (Inr (t[j := Some \<lparr>idata = v, ikey = k\<rparr>]))
    else dest_insert True n t k v = None"
proof -
  let ?s = "\<lambda>it. ikey it = -1"
  note D = table_okD(1,2)[OF ok] and h = home_less[OF table_okD(2)[OF ok], of k]
  show ?thesis
  proof (cases "\<exists>c \<in> set t. free_cell c")
    case True
    then obtain i where "i < n" "ends_walk ?s t i" using D(1) by (auto simp: ends_walk_free in_set_conv_nth)
    from walk_ends[OF this(1) h this(2)] obtain d where d: "ends_walk ?s t ((home n k + d) mod n)"
      "\<forall>d' < d. \<not> ends_walk ?s t ((home n k + d') mod n)" by blast
    let ?j = "(home n k + d) mod n"
    have "chained n t k ?j" using d(2) unfolding chained_def ends_walk_free by (metis free_None)
    moreover have "dest_insert True n t k v = Some (Inr (t[?j := Some \<lparr>idata = v, ikey = k\<rparr>]))"
      using probe_finds[OF D(1) h d(2,1)] home_code[OF ok k] by (simp add: dest_insert_def)
    ultimately show ?thesis using True d(1) D(2) unfolding ends_walk_free by (auto intro!: exI[of _ ?j])
  next
    case False
    then have "\<forall>i < n. \<not> ends_walk ?s t i" using D(1) by (auto simp: ends_walk_free)
    with False show ?thesis using probe_never[OF D(1) h] home_code[OF ok k] by (simp add: dest_insert_def)
  qed
qed

lemma insert_fresh:
  assumes ok: "table_ok n t" and k: "0 \<le> k" "dest_map t k = None" and free: "c \<in> set t" "free_cell c"
  shows "\<exists>t'. dest_insert True n t k v = Some (Inr t') \<and> table_ok n t' \<and> dest_map t' = (dest_map t)(k \<mapsto> v)"
proof -
  obtain j where j: "j < n" "free_cell (t ! j)" "chained n t k j"
    "dest_insert True n t k v = Some (Inr (t[j := Some \<lparr>idata = v, ikey = k\<rparr>]))"
    using insert_walk[OF ok k(1), of v] free by (auto split: if_splits)
  have "\<not> live t j it" for it using j(2) by (auto simp: live_def free_cell_def)
  from put_ok[OF ok k j(1) this j(3)] j(4) show ?thesis by blast
qed

lemma delete_absent:
  assumes ok: "table_ok n t" and k: "0 \<le> ikey x" "dest_map t (ikey x) = None"
  shows "dest_delete d n t (Some x) = (if None \<in> set t then Some (Inr (None, t)) else None)"
  using key_absent[OF ok k] home_code[OF ok k(1)] table_okD(1)[OF ok] by (auto simp: dest_delete_def split: if_splits)

section \<open>The table as an erasable dictionary\<close>

definition dest_add :: "nat \<Rightarrow> dest_table \<Rightarrow> int \<Rightarrow> int \<Rightarrow> dest_table option" where
  "dest_add n t k v = (if k < 0 then None else case dest_insert True n t k v of Some (Inr t') \<Rightarrow> Some t' | _ \<Rightarrow> None)"

text \<open>A client removes a key by passing what it found to \<open>delete\<close>.\<close>

definition dest_remove :: "nat \<Rightarrow> dest_table \<Rightarrow> int \<Rightarrow> dest_table option" where
  "dest_remove n t k = (if k < 0 then None else
     case rthen (dest_search n t k) (dest_delete (Some dummyItem) n t) of Some (Inr (_, t')) \<Rightarrow> Some t' | _ \<Rightarrow> None)"

lemma dest_add_ok:
  assumes "table_ok n t" "dest_map t k = None" "dest_add n t k v = Some t'"
  shows "table_ok n t' \<and> dest_map t' = (dest_map t)(k \<mapsto> v)"
proof -
  have k: "0 \<le> k" and i: "dest_insert True n t k v = Some (Inr t')"
    using assms(3) by (auto simp: dest_add_def split: if_splits option.splits sum.splits)
  then have "\<exists>c \<in> set t. free_cell c" using insert_walk[OF assms(1) k, of v] by (auto split: if_splits)
  then show ?thesis using insert_fresh[OF assms(1) k assms(2), of _ v] i by auto
qed

lemma dest_remove_ok:
  assumes ok: "table_ok n t" and r: "dest_remove n t k = Some t'"
  shows "table_ok n t' \<and> dest_map t' = (dest_map t)(k := None)"
proof (cases "dest_map t k")
  case None
  have "0 \<le> k" using r by (simp add: dest_remove_def split: if_splits)
  from search_absent[OF ok this None] r show ?thesis
    by (auto simp: dest_remove_def dest_delete_def split: if_splits)
next
  case (Some v)
  then obtain i it where l: "live t i it" "ikey it = k" using dest_map_iff[OF ok] by blast
  from search_live[OF ok l(1)] delete_live[OF ok l(1) refl] r have "t' = t[i := Some dummyItem]"
    unfolding l(2) by (simp add: dest_remove_def split: if_splits)
  with mark_ok[OF ok l(1)] l(2) show ?thesis by simp
qed

interpretation dest: erasable dest_map "dest_add n" "table_ok n" "dest_remove n" for n
  by unfold_locales (use dest_add_ok dest_remove_ok in blast)+

section \<open>Keys inserted and deleted in turn\<close>

fun dest_churn :: "nat \<Rightarrow> int list \<Rightarrow> dest_table \<Rightarrow> dest_table run" where
  "dest_churn n [] t = Some (Inr t)"
| "dest_churn n (k # ks) t = rthen (dest_insert True n t k k) (\<lambda>t1. rthen (dest_search n t1 k) (\<lambda>x.
     rthen (dest_delete (Some dummyItem) n t1 x) (\<lambda>(_, t2). dest_churn n ks t2)))"

text \<open>A table whose cells \<open>S\<close> have been used and emptied again, and no other.\<close>

definition worn :: "nat \<Rightarrow> nat set \<Rightarrow> dest_table" where
  "worn n S = map (\<lambda>i. if i \<in> S then Some dummyItem else None) [0..<n]"

lemma worn_at: "i < n \<Longrightarrow> worn n S ! i = (if i \<in> S then Some dummyItem else None)"
  by (simp add: worn_def)

lemma worn_empty: "worn n {} = replicate n None"
  by (simp add: worn_def map_replicate_const)

lemma worn_ok:
  assumes "0 < n"
  shows "table_ok n (worn n S)" "dest_map (worn n S) = Map.empty"
proof -
  have none: "\<not> live (worn n S) i it" for i it by (cases "i < n") (auto simp: live_def worn_def dummyItem_def)
  then show ok: "table_ok n (worn n S)" using assms by (simp add: table_ok_def) (simp add: worn_def)
  have "dest_map (worn n S) k = None" for k using dest_map_iff[OF ok, of k] none by (cases "dest_map (worn n S) k") auto
  then show "dest_map (worn n S) = Map.empty" by auto
qed

lemma empty_table: "0 < n \<Longrightarrow> table_ok n (replicate n None)" "0 < n \<Longrightarrow> dest_map (replicate n None) = Map.empty"
  using worn_ok[of n "{}"] by (simp_all add: worn_empty)

text \<open>A key put into a worn table takes its home cell, and leaves it worn when it is deleted.\<close>

lemma churn_step:
  assumes n: "0 < n" and k: "0 \<le> k"
  shows "dest_churn n (k # ks) (worn n S) = dest_churn n ks (worn n (insert (home n k) S))"
proof -
  let ?t = "worn n S" and ?j = "home n k" and ?it = "\<lparr>idata = k, ikey = k\<rparr>"
  let ?t1 = "?t[?j := Some ?it]"
  note ok = worn_ok(1)[OF n] and j = home_less[OF n]
  have l: "length ?t = n" by (simp add: worn_def)
  have "probe (\<lambda>it. ikey it = -1) n ?t (int ?j) = Some (Inr (int ?j))"
    using j l by (simp add: probe_at ends_walk_def worn_at dummyItem_def)
  then have ins: "dest_insert True n ?t k k = Some (Inr ?t1)" using home_code[OF ok k] by (simp add: dest_insert_def)
  have "chained n ?t k ?j" unfolding chained_def using j by (intro exI[of _ 0]) simp
  moreover have "\<not> live ?t ?j it" for it using j by (auto simp: live_def worn_at dummyItem_def)
  ultimately have ok1: "table_ok n ?t1" using put_ok[OF ok k _ j] worn_ok(2)[OF n] by simp
  have "live ?t1 ?j ?it" using j l k by (simp add: live_def)
  then have "dest_search n ?t1 k = Some (Inr (Some ?it))"
    "dest_delete (Some dummyItem) n ?t1 (Some ?it) = Some (Inr (Some ?it, ?t[?j := Some dummyItem]))"
    using search_live[OF ok1, of ?j ?it] delete_live[OF ok1, of ?j ?it ?it] by simp_all
  moreover have "?t[?j := Some dummyItem] = worn n (insert ?j S)"
    using j by (intro nth_equalityI) (auto simp: worn_def nth_list_update)
  ultimately show ?thesis using ins by simp
qed

lemma churn_run: "0 < n \<Longrightarrow> \<forall>k \<in> set ks. 0 \<le> k \<Longrightarrow> dest_churn n ks (worn n S) = Some (Inr (worn n (home n ` set ks \<union> S)))"
  by (induction ks arbitrary: S) (simp_all add: churn_step del: dest_churn.simps(2))

section \<open>A stored key inserted again\<close>

text \<open>
  \<open>insert\<close> does not look for its key: the key is then stored twice, and without deleted cells
  \<open>search\<close> still finds the old item.
\<close>

lemma insert_stored:
  assumes ok: "table_ok n t" and k: "dest_map t k = Some v"
  shows "if \<exists>c \<in> set t. free_cell c
    then \<exists>t'. dest_insert True n t k w = Some (Inr t') \<and> \<not> table_ok n t' \<and>
      ((\<forall>it. Some it \<in> set t \<longrightarrow> ikey it \<noteq> -1) \<longrightarrow> dest_search n t' k = Some (Inr (Some \<lparr>idata = v, ikey = k\<rparr>)))
    else dest_insert True n t k w = None"
proof (cases "\<exists>c \<in> set t. free_cell c")
  case False
  obtain i it where l: "live t i it" "ikey it = k" using dest_map_iff[OF ok] k by blast
  then have "0 \<le> k" using table_okD(3)[OF ok l(1)] by simp
  from insert_walk[OF ok this, of w] False show ?thesis by simp
next
  case True
  obtain i it where l: "live t i it" "ikey it = k" "idata it = v" using dest_map_iff[OF ok] k by blast
  then have it: "it = \<lparr>idata = v, ikey = k\<rparr>" by simp
  note D = table_okD[OF ok]
  have k0: "0 \<le> k" using D(3)[OF l(1)] l(2) by simp
  obtain j where j: "j < n" "free_cell (t ! j)" "dest_insert True n t k w = Some (Inr (t[j := Some \<lparr>idata = w, ikey = k\<rparr>]))"
    using insert_walk[OF ok k0, of w] True by auto
  let ?t = "t[j := Some \<lparr>idata = w, ikey = k\<rparr>]" and ?s = "\<lambda>x. ikey x = k"
  have ne: "i \<noteq> j" using l(1) j(2) by (auto simp: live_def free_cell_def)
  have "live ?t i it" "live ?t j \<lparr>idata = w, ikey = k\<rparr>" using l(1) ne j(1) k0 D(1) by (simp_all add: live_def)
  then have twice: "\<not> table_ok n ?t" using ne table_okD(5)[of n ?t i it j "\<lparr>idata = w, ikey = k\<rparr>"] l(2) by auto
  have "dest_search n ?t k = Some (Inr (Some it))" if clean: "\<forall>it. Some it \<in> set t \<longrightarrow> ikey it \<noteq> -1"
  proof -
    have null: "t ! j = None" using j(1,2) clean D(1) by (auto simp: free_cell_def split: option.splits) (metis nth_mem)
    obtain d where d: "(home n k + d) mod n = i" "\<forall>d' < d. \<not> ends_walk ?s t ((home n k + d') mod n)" using key_walk[OF ok l(1)] unfolding l(2) by blast
    have same: "?t ! m = t ! m" if "\<not> ends_walk ?s t m" for m using that null by (cases "m = j") (simp_all add: ends_walk_def)
    have ti: "?t ! i = Some it" "i < n" using l(1) D(1) ne by (simp_all add: live_def)
    have "probe ?s n ?t (int (home n k)) = Some (Inr (int ((home n k + d) mod n)))"
      by (rule probe_finds) (use D(1,2) d same ti l(2) in \<open>auto simp: home_less ends_walk_def\<close>)
    then show ?thesis using home_code[OF ok k0] ti D(1) unfolding d(1) by (simp add: dest_search_def)
  qed
  then show ?thesis unfolding it using True j(3) twice by (auto intro!: exI[of _ ?t])
qed

section \<open>Properties\<close>

text \<open>Property C39: on a well-formed table and a key that is not negative: \<open>search\<close> and \<open>delete\<close> find the item
  of a stored key and \<open>delete\<close> removes exactly this key; for a key that is not stored, \<open>search\<close>
  and \<open>delete\<close> find nothing, and \<open>insert\<close> adds exactly this key with its value; the table stays
  well-formed. An \<open>insert\<close> of a stored key is no update: the key is stored twice, so the table is
  no longer well-formed, and without deleted cells \<open>search\<close> still finds the old value. The
  operations return if and only if a cell ends the walk: for a key that is not stored, \<open>search\<close>
  and \<open>delete\<close> need a cell that has never been used, and \<open>insert\<close> one that is not in use.\<close>
theorem dest_table_refines:
  assumes ok: "table_ok n t" and k: "0 \<le> k"
  shows "case dest_map t k of
      Some v \<Rightarrow> dest_search n t k = Some (Inr (Some \<lparr>idata = v, ikey = k\<rparr>)) \<and>
        (\<exists>t'. dest_delete (Some dummyItem) n t (Some \<lparr>idata = w, ikey = k\<rparr>) = Some (Inr (Some \<lparr>idata = v, ikey = k\<rparr>, t')) \<and>
          table_ok n t' \<and> dest_map t' = (dest_map t)(k := None)) \<and>
        (if \<exists>c \<in> set t. free_cell c
         then \<exists>t'. dest_insert True n t k w = Some (Inr t') \<and> \<not> table_ok n t' \<and>
           ((\<forall>it. Some it \<in> set t \<longrightarrow> ikey it \<noteq> -1) \<longrightarrow> dest_search n t' k = Some (Inr (Some \<lparr>idata = v, ikey = k\<rparr>)))
         else dest_insert True n t k w = None)
    | None \<Rightarrow> dest_search n t k = (if None \<in> set t then Some (Inr None) else None) \<and>
        dest_delete (Some dummyItem) n t (Some \<lparr>idata = w, ikey = k\<rparr>) = (if None \<in> set t then Some (Inr (None, t)) else None) \<and>
        (if \<exists>c \<in> set t. free_cell c
         then \<exists>t'. dest_insert True n t k w = Some (Inr t') \<and> table_ok n t' \<and> dest_map t' = (dest_map t)(k \<mapsto> w)
         else dest_insert True n t k w = None)"
proof (cases "dest_map t k")
  case None
  have del: "dest_delete (Some dummyItem) n t (Some \<lparr>idata = w, ikey = k\<rparr>) = (if None \<in> set t then Some (Inr (None, t)) else None)"
    using delete_absent[OF ok, of "\<lparr>idata = w, ikey = k\<rparr>"] k None by simp
  show ?thesis using search_absent[OF ok k None] del insert_fresh[OF ok k None, of _ w] insert_walk[OF ok k, of w] None by auto
next
  case (Some v)
  then obtain i it where l: "live t i it" "ikey it = k" "idata it = v" using dest_map_iff[OF ok] by blast
  then have it: "it = \<lparr>idata = v, ikey = k\<rparr>" by simp
  have "dest_delete (Some dummyItem) n t (Some \<lparr>idata = w, ikey = k\<rparr>) = Some (Inr (Some it, t[i := Some dummyItem]))"
    by (rule delete_live[OF ok l(1)]) (simp add: l(2))
  then show ?thesis using search_live[OF ok l(1)] mark_ok[OF ok l(1)] insert_stored[OF ok Some, of w] Some unfolding l(2) it by simp
qed

theorem dest_table_refines_witness:
  "\<exists>t t'. dest_insert True 4 (replicate 4 None) 6 60 = Some (Inr t) \<and> dest_map t = [6 \<mapsto> 60] \<and> table_ok 4 t \<and>
    dest_search 4 t 6 = Some (Inr (Some \<lparr>idata = 60, ikey = 6\<rparr>)) \<and>
    dest_delete (Some dummyItem) 4 t (Some \<lparr>idata = 0, ikey = 6\<rparr>) = Some (Inr (Some \<lparr>idata = 60, ikey = 6\<rparr>, t')) \<and> dest_map t' = Map.empty"
proof -
  have "\<exists>c \<in> set (replicate 4 None). free_cell c" by simp
  then obtain t where t: "dest_insert True 4 (replicate 4 None) 6 60 = Some (Inr t)" "dest_map t = [6 \<mapsto> 60]" "table_ok 4 t"
    using dest_table_refines[OF empty_table(1), of 4 6 60] by (auto simp: empty_table(2))
  with dest_table_refines[OF t(3), of 6 0] show ?thesis by auto
qed

text \<open>Property C40: deleting never makes a cell \<open>NULL\<close> again. After keys, none of them negative, have been
  inserted into an empty table and each deleted again at once, the table is empty and
  well-formed, but a search for a key that is not negative returns if and only if some cell is
  the home cell of none of these keys: once their home cells are all the cells (as those of 0 to
  \<open>n - 1\<close>), no search ever returns.\<close>
theorem dest_table_wears_out:
  assumes "0 < n" "\<forall>k \<in> set ks. 0 \<le> k"
  shows "\<exists>t. dest_churn n ks (replicate n None) = Some (Inr t) \<and> table_ok n t \<and> dest_map t = Map.empty \<and>
    (\<forall>k. 0 \<le> k \<longrightarrow> dest_search n t k = (if \<exists>i < n. i \<notin> home n ` set ks then Some (Inr None) else None))"
proof -
  let ?t = "worn n (home n ` set ks)"
  note ok = worn_ok[OF assms(1), of "home n ` set ks"]
  have "None \<in> set ?t \<longleftrightarrow> (\<exists>i < n. i \<notin> home n ` set ks)" by (auto simp: worn_def split: if_splits)
  then have "\<forall>k. 0 \<le> k \<longrightarrow> dest_search n ?t k = (if \<exists>i < n. i \<notin> home n ` set ks then Some (Inr None) else None)"
    using search_absent[OF ok(1)] ok(2) by simp
  then show ?thesis using churn_run[OF assms, of "{}"] ok by (simp add: worn_empty)
qed

theorem dest_table_wears_out_witness:
  "\<exists>t t'. dest_churn 2 [0, 1] [None, None] = Some (Inr t) \<and> dest_map t = Map.empty \<and> dest_search 2 t 5 = None \<and>
    dest_churn 2 [1, 1] [None, None] = Some (Inr t') \<and> dest_search 2 t' 5 = Some (Inr None)"
proof -
  have r: "replicate 2 None = [None, None :: data_item option]" by (simp add: numeral_2_eq_2)
  have h: "home 2 ` set [0, 1] = {0, 1}" "home 2 ` set [1, 1] = {1}" by (simp_all add: home_def)
  have "(\<exists>i < 2. i \<notin> {0, 1 :: nat}) = False" "(\<exists>i < 2. i \<notin> {1 :: nat}) = True" by (auto simp: less_2_cases_iff)
  note W = dest_table_wears_out[where n = 2, unfolded r]
  have "\<exists>t. dest_churn 2 [0, 1] [None, None] = Some (Inr t) \<and> dest_map t = Map.empty \<and> dest_search 2 t 5 = None"
    using W[of "[0, 1]", unfolded h \<open>_ = False\<close> if_False] by fastforce
  moreover have "\<exists>t. dest_churn 2 [1, 1] [None, None] = Some (Inr t) \<and> dest_search 2 t 5 = Some (Inr None)"
    using W[of "[1, 1]", unfolded h \<open>_ = True\<close> if_True] by fastforce
  ultimately show ?thesis by blast
qed

text \<open>A key deleted first gets the new value.\<close>
theorem dest_insert_keeps_old:
  assumes ok: "table_ok n t" and k: "dest_map t k = Some v" and clean: "\<forall>it. Some it \<in> set t \<longrightarrow> ikey it \<noteq> -1" and room: "None \<in> set t"
  shows "(\<exists>t'. dest_insert True n t k w = Some (Inr t') \<and> dest_search n t' k = Some (Inr (Some \<lparr>idata = v, ikey = k\<rparr>))) \<and>
    (\<forall>t1 t2. dest_remove n t k = Some t1 \<longrightarrow> dest_add n t1 k w = Some t2 \<longrightarrow> dest_map t2 = (dest_map t)(k \<mapsto> w))"
proof -
  have "\<exists>c \<in> set t. free_cell c" using room free_None by blast
  with insert_stored[OF ok k, of w] clean dest.del_then_add[OF ok] show ?thesis by auto
qed

text \<open>A negative key that is no multiple of the number of cells is looked for outside the array.\<close>
theorem dest_negative_key:
  assumes "length t = n" "k < 0" "\<not> int n dvd k" "0 < n"
  shows "dest_search n t k = Some (Inl Out_Of_Bounds) \<and> dest_insert True n t k v = Some (Inl Out_Of_Bounds)"
proof -
  have "(- k) mod int n \<noteq> 0" using assms(3) by (simp add: mod_eq_0_iff_dvd)
  moreover have "0 \<le> (- k) mod int n" using assms(4) by simp
  ultimately have "0 < (- k) mod int n" by linarith
  then have "idx_get t (c_rem k n) = Inl Out_Of_Bounds" using assms(2) by (simp add: idx_get_def c_rem_def guard_res_def)
  then have "probe s n t (c_rem k n) = Some (Inl Out_Of_Bounds)" for s by (subst probe.simps) simp
  then show ?thesis using assms(4) by (simp add: dest_search_def dest_insert_def hashCode_def)
qed

end
