(* ===== verification/Spec2Isabelle.thy ===== *)
theory Spec2Isabelle
  imports Route_Matrix Mg_Map Memtype Mpmc_Queue Mpmc_Conc Checksum Xdp Buffers Plumbing Common_Funcs Network Cache_Race Main_Program Mpmc_Live Emulator V1_Threads Node_Transit Dest_Table
begin

text \<open>
  Verification of the Opera emulator (rotor-xdp): a user-space packet forwarder on AF\_XDP
  sockets that emulates a rotor network. The network's topology changes with the time slot; a
  node looks up the next hop of a packet's destination in the column of the current slot.

  \<^bold>\<open>The program.\<close> \<open>main\<close> (\<open>src/opera-v2/emu_nic.c\<close>) reads the command line and two files (nodes
  and routes), loads XDP programs that hand frames to AF\_XDP sockets (\<open>plumbing.h\<close>,
  \<open>nic_kern.c\<close>, \<open>veth_kern.c\<close>), creates a pool of packet buffers (\<open>mempool.h\<close>) and one port for
  each queue of the network interface and for each namespace, starts the threads and then only
  reads the clock, which sets the topology number. A packet from a namespace is received by
  \<open>thread_func_veth\<close>, put into the queue of its destination (\<open>mpmc_queue.c\<close>), taken from
  there by \<open>thread_func_veth_to_nic_tx\<close>, which builds its outer headers (Ethernet, IP, GRE), and
  sent. A packet from the network is received by \<open>thread_func_nic\<close>: it is put into the queue of
  its destination again and sent on with the next hop of the slot, or it is decapsulated and
  put into the queue of a namespace, which \<open>thread_func_nic_to_veth_tx\<close> drains
  (\<open>thread_functions_1.h\<close>). \<open>src/opera-v1\<close> is an earlier version that differs in the forwarding.

  \<^bold>\<open>Conventions.\<close> \<open>Prelude\<close>: a C expression that has no defined result is a \<open>fault\<close>, a
  computation returns \<open>Inl\<close> of a fault or \<open>Inr\<close> of a value; machine integers are words, C
  \<open>int\<close>s are integers with an explicit overflow fault; memory objects are byte lists with
  little-endian access, and an access outside an object is a fault. A loop that may not end is a
  \<open>partial_function\<close> whose value \<open>None\<close> means that it does not return (\<open>'a run\<close>). What the
  kernel, the C allocator and the XDP libraries answer are parameters, collected in records
  (\<open>main_env\<close>, \<open>bpool_env\<close>, \<open>bpf_env\<close>, \<open>port_env\<close>, \<open>pass_env\<close>, \<open>heap_env\<close>).

  \<^bold>\<open>Theories\<close>, by the part of the program they model.
  \<^item> \<open>Route_Matrix\<close>: the routing and address matrices of \<open>data_structures.h\<close>. The locale \<open>grid\<close>
    states what a client relies on; the code's matrix is its interpretation.
  \<^item> \<open>Mg_Map\<close>: the tables of \<open>map.c\<close> as a heap block of nodes; \<open>mg_rep\<close> relates the bytes to a list
    of entries, every operation is refined to that list, and the locale \<open>dictionary\<close> is interpreted.
  \<^item> \<open>Memtype\<close>, \<open>Mpmc_Queue\<close>, \<open>Mpmc_Conc\<close>, \<open>Mpmc_Live\<close>: \<open>memory.c\<close> and the queue of
    \<open>mpmc_queue.c\<close>. \<open>Mpmc_Queue\<close> runs it by one thread (locale \<open>bounded_queue\<close>, abstraction
    \<open>holds\<close>), where a weak exchange may fail any number of times without a reason and the signed
    difference of two positions faults when it overflows; \<open>Mpmc_Conc\<close> interleaves any number of threads instruction by instruction, with an
    inductive step relation and an invariant (no data race, first-in first-out, refusals);
    \<open>Mpmc_Live\<close> shows that a thread that runs alone returns in six instructions, and two more for
    each weak exchange that fails spuriously.
  \<^item> \<open>Checksum\<close>: \<open>calculate_checksum.h\<close> against the sum modulo \<open>2 ^ 16 - 1\<close>.
  \<^item> \<open>Xdp\<close>, \<open>Plumbing\<close>: the parsers of \<open>parsing_helpers.h\<close>, the XDP programs, and their loading,
    attachment and socket maps.
  \<^item> \<open>Xsk_Ring\<close>, \<open>Mempool\<close>, \<open>Port\<close>, \<open>Buffers\<close>: the descriptor rings of \<open>xsk.h\<close>; the pool and its
    caches; ports and their bursts; and the machine (\<open>psys_step\<close>) of all places a buffer can be
    in, with the invariant that every buffer is in exactly one as long as operations on one cache
    do not overlap.
  \<^item> \<open>Cache_Race\<close>: \<open>bcache_prod\<close> one memory access at a time, for two threads on one cache.
  \<^item> \<open>Inet\<close>, \<open>Packet\<close>, \<open>Packet_Path\<close>: addresses as text; classification, encapsulation,
    redirection and decapsulation on the bytes of the buffer area; and a packet's way through
    any number of nodes.
  \<^item> \<open>Threads\<close>, \<open>Thread_Run\<close>, \<open>Emulator\<close>: the four thread functions, pass by pass; what a pass
    does (locale \<open>drain_loop\<close> for the loops that empty a queue); and the whole emulator as a
    transition system (\<open>emu_step\<close>) that simulates the buffer machine (locale \<open>simulation\<close>), of which
    every thread function makes only steps (locales \<open>packet_loop\<close> and \<open>buffer_drain\<close>). The state
    \<open>esys\<close> adds to the code's what no variable holds: the buffers in a thread's \<open>hand\<close>, and those
    \<open>lost\<close> by a thread that went on without giving them back (step \<open>forget\<close>).
  \<^item> \<open>Node_Run\<close>, \<open>Node_Deliver\<close>, \<open>Node_Transit\<close>: a burst's whole way through a node of the running
    emulator, from a namespace to the network, from the network to a namespace, and in transit:
    what the passes of the receiving and of the sending thread do together, with the ports.
    \<open>Node_Run\<close> also holds the account of the buffers of the running emulator, what each thread
    function leaves in hand and loses (\<open>outcome\<close>, \<open>reaches\<close>, \<open>waits\<close>), and the frames in a queue.
  \<^item> \<open>Dest_Table\<close>: the hash table of \<open>src/opera-ex/common_funcs.h\<close>, as far as keys are not negative and
    inserted once, refined to a finite map (locale \<open>erasable\<close>, which the tables of \<open>map.c\<close>
    interpret, too); what else happens is stated as it is.
  \<^item> \<open>Opera_V1\<close>, \<open>V1_Threads\<close>: the forwarding of \<open>src/opera-v1/thread_functions_1.h\<close>, compared with
    that of \<open>opera-v2\<close>.
  \<^item> \<open>Topo_Time\<close>, \<open>Route_File\<close>, \<open>Worker_File\<close>, \<open>Common_Funcs\<close>, \<open>Setup\<close>, \<open>Network\<close>, \<open>Main_Program\<close>:
    the clock, the two files, the helpers of \<open>common_funcs.h\<close>, the assignment of ports and queues
    to threads, a configured node, and \<open>main\<close> from its arguments to the shutdown.

  \<^bold>\<open>What is shown.\<close> For each component the result of its operations on every branch (and which
  inputs fault), its invariant, and where it has a contract the refinement of an abstract
  object. Across components: a packet is delivered unchanged over any path; in every state of the
  running emulator a burst crosses the node as a whole, in order; a node whose tables hold the
  nodes sends by the route file's entry for the slot; the started emulator accounts for all its
  buffers as long as bursts, pushes, pulls and drops are done as wholes, its threads lose a buffer
  only where an allocation fails or a queue is missing, its states stay well-formed, and packets
  waiting in a queue are in different buffers; the setup ends with everything in
  place and the shutdown releases it. Several theorems state defects of the code exactly: reads
  through unchecked pointers, indices from packets or the command line, a lost slab for each
  port, a race on the caches, hops looked up for the wrong destination, and hardware addresses
  of the node file that \<open>sscanf\<close> writes past its array of six bytes: the tables and the setup are
  right only for files that give at most three numbers of each address, and fault on others.

  \<^bold>\<open>Bounds.\<close> Addresses of the buffer area are below \<open>2 ^ 31\<close> where a length is an \<open>int\<close>; queues
  have at most \<open>2 ^ 30\<close> cells where their occupancy is an \<open>int\<close>; interleaved calls on a queue stay
  below position \<open>2 ^ 63\<close>, where the difference of positions may first overflow. No result rests on fuel: bounded
  loops are recursions over a count, the others end by a proof of \<open>Some\<close> or are stated to wait only
  for the kernel. What the kernel does during a wait is a finite list; when it is used up the loop
  has not ended. \<open>memcpy\<close> on overlapping regions is a parameter; the theorems that need a result
  instantiate it with the copy of the old bytes, as the emulator's C library does.

  \<^bold>\<open>Concurrency.\<close> In \<open>Buffers\<close>, \<open>Threads\<close> and \<open>Emulator\<close> an operation on the pool, a burst, a push or a
  pull is one step. For the pool this is the mutex, for the queues it is what \<open>Mpmc_Conc\<close> shows;
  for the caches it is an assumption on the schedule, which the code does not enforce and which
  \<open>Cache_Race\<close> shows to fail for a port that drops packets while another thread sends on it. What
  is said of every state of the running emulator is said of the states that such schedules reach.

  \<^bold>\<open>Not modelled.\<close> Printing, counters and the CSV files written at the end (output only); signal
  handlers, CPU affinity and priorities (effects on the operating system only). \<open>ini.c\<close>, \<open>ini.h\<close>
  and \<open>ini_example.c\<close> are a vendored parser that the Makefile does not build. \<open>src/opera-ex\<close> is
  an unfinished experiment that does not compile and, its hash table apart, repeats \<open>opera-v2\<close> or
  leaves the work out (the loop of its transmit thread is empty); \<open>src/opera-v1\<close> is otherwise a copy of
  \<open>opera-v2\<close> with other constants. \<open>z-test-tools\<close>, \<open>z-analysis\<close> and the setup scripts are not
  part of the emulator. Of \<open>src/lib\<close>, \<open>src/headers\<close> and \<open>src/include\<close> (libbpf, libxdp, kernel
  headers) the inline ring operations and the argument checks the emulator relies on are modelled.
\<close>

end
